(* ===== verification/Quagga_Prelude.thy ===== *)
theory Quagga_Prelude
  imports Main "HOL-Library.Word" "HOL-Library.Sublist" "HOL-Library.List_Lexorder" "HOL-Library.Char_ord"
begin

text \<open>
  Shared vocabulary of the development: the machine integers the daemons use, big-endian
  reading and writing of byte strings (the wire format of every protocol), and the generic
  facts on bits of octets, lists and options that the component theories rest on.
\<close>

unbundle bit_operations_syntax

type_synonym u8 = "8 word"
type_synonym u16 = "16 word"
type_synonym u32 = "32 word"
type_synonym u64 = "64 word"

named_theorems octet_simps \<open>bits of the octets of an address\<close>
named_theorems wire_simps \<open>big-endian encoding and decoding\<close>

section \<open>Big-endian integers\<close>

text \<open>\<open>be_val\<close> is the number a byte string denotes on the wire: the value of
  \<^verbatim>\<open>ntohs\<close>/\<^verbatim>\<open>ntohl\<close> on it.\<close>

fun be_val :: "u8 list \<Rightarrow> nat" where
  "be_val [] = 0"
| "be_val (b # bs) = unat b * 256 ^ length bs + be_val bs"

definition be16 :: "u16 \<Rightarrow> u8 list" where
  "be16 w = [ucast (drop_bit 8 w), ucast w]"

definition be32 :: "u32 \<Rightarrow> u8 list" where
  "be32 w = [ucast (drop_bit 24 w), ucast (drop_bit 16 w), ucast (drop_bit 8 w), ucast w]"

definition be64 :: "u64 \<Rightarrow> u8 list" where
  "be64 w = [ucast (drop_bit 56 w), ucast (drop_bit 48 w), ucast (drop_bit 40 w),
     ucast (drop_bit 32 w), ucast (drop_bit 24 w), ucast (drop_bit 16 w),
     ucast (drop_bit 8 w), ucast w]"

lemma length_be16 [simp, wire_simps]: "length (be16 w) = 2"
  by (simp add: be16_def)

lemma length_be32 [simp, wire_simps]: "length (be32 w) = 4"
  by (simp add: be32_def)

lemma length_be64 [simp, wire_simps]: "length (be64 w) = 8"
  by (simp add: be64_def)

lemma bit_ucast_u8 [octet_simps]: "bit (ucast (w :: 'a::len word) :: u8) n \<longleftrightarrow> n < 8 \<and> bit w n"
  by (simp add: bit_ucast_iff)

lemma be_val_bound: "be_val bs < 256 ^ length bs"
proof (induction bs)
  case (Cons b bs)
  have "unat b < 2 ^ LENGTH(8)" by (rule unsigned_less)
  then have "unat b \<le> 255" by simp
  then have "unat b * 256 ^ length bs \<le> 255 * 256 ^ length bs" by (rule mult_le_mono1)
  with Cons.IH show ?case
    unfolding be_val.simps length_Cons power_Suc by linarith
qed simp

lemma be_val_append: "be_val (xs @ ys) = be_val xs * 256 ^ length ys + be_val ys"
  by (induction xs) (simp_all add: power_add algebra_simps)

text \<open>The \<open>n\<close> low octets of a number, most significant first.\<close>

fun be_bytes :: "nat \<Rightarrow> nat \<Rightarrow> u8 list" where
  "be_bytes 0 x = []"
| "be_bytes (Suc n) x = word_of_nat (x div 256 ^ n) # be_bytes n x"

lemma length_be_bytes [simp]: "length (be_bytes n x) = n"
  by (induction n) auto

lemma be_val_be_bytes: "be_val (be_bytes n x) = x mod 256 ^ n"
proof (induction n)
  case (Suc n)
  have "x mod (256 ^ n * 256) = 256 ^ n * (x div 256 ^ n mod 256) + x mod 256 ^ n"
    by (rule mod_mult2_eq)
  with Suc show ?case by (simp add: unat_of_nat take_bit_eq_mod mult.commute)
qed simp

lemma be_bytes_add: "n \<le> m \<Longrightarrow> be_bytes n (a * 256 ^ m + x) = be_bytes n x"
proof (induction n)
  case (Suc n)
  then obtain k where k: "m = Suc n + k" by (auto simp: le_iff_add)
  have "a * 256 ^ m + x = x + a * 256 ^ Suc k * 256 ^ n"
    by (simp add: k power_add)
  then have "(a * 256 ^ m + x) div 256 ^ n = a * 256 ^ Suc k + x div 256 ^ n"
    by (simp only: div_mult_self1 power_not_zero zero_neq_numeral simp_thms)
  moreover have "(word_of_nat (a * 256 ^ Suc k + y) :: u8) = word_of_nat y" for y
  proof -
    have "a * 256 ^ Suc k + y = a * 256 ^ k * 256 + y" by simp
    then have "(a * 256 ^ Suc k + y) mod 256 = y mod 256" by (simp only: mod_mult_self3)
    then show ?thesis
      unfolding word_of_nat_eq_iff by (simp add: take_bit_eq_mod del: power_Suc)
  qed
  ultimately show ?case using Suc by simp
qed simp

lemma be_bytes_be_val: "be_bytes (length bs) (be_val bs) = bs"
proof (induction bs)
  case (Cons b bs)
  have "(unat b * 256 ^ length bs + be_val bs) div 256 ^ length bs = unat b"
    using be_val_bound [of bs] by simp
  with Cons show ?case by (simp add: be_bytes_add)
qed simp

lemma ucast_drop_u8: "(ucast (drop_bit k (w :: 'a::len word)) :: u8) = word_of_nat (unat w div 2 ^ k)"
  unfolding drop_bit_eq_div [symmetric]
  by (rule bit_word_eqI) (simp add: bit_simps)

lemmas ucast_u8 = ucast_drop_u8 [of 0, simplified]

lemma be_bytes_numeral:
  "be_bytes (numeral k) x = word_of_nat (x div 256 ^ pred_numeral k) # be_bytes (pred_numeral k) x"
  by (simp add: numeral_eq_Suc)

lemma be16_eq: "be16 w = be_bytes 2 (unat w)"
  by (simp add: be16_def be_bytes_numeral ucast_drop_u8 ucast_u8)

lemma be32_eq: "be32 w = be_bytes 4 (unat w)"
  by (simp add: be32_def be_bytes_numeral ucast_drop_u8 ucast_u8)

lemma be64_eq: "be64 w = be_bytes 8 (unat w)"
  by (simp add: be64_def be_bytes_numeral ucast_drop_u8 ucast_u8)

lemma be_val_be16 [simp, wire_simps]: "be_val (be16 w) = unat w"
  using unsigned_less [of w, where 'a = nat] by (simp add: be16_eq be_val_be_bytes)

lemma be_val_be32 [simp, wire_simps]: "be_val (be32 w) = unat w"
  using unsigned_less [of w, where 'a = nat] by (simp add: be32_eq be_val_be_bytes)

lemma be_val_be64 [simp, wire_simps]: "be_val (be64 w) = unat w"
  using unsigned_less [of w, where 'a = nat] by (simp add: be64_eq be_val_be_bytes)

lemma be32_word_of_be_val: "length bs = 4 \<Longrightarrow> be32 (word_of_nat (be_val bs)) = bs"
  using be_val_bound [of bs] be_bytes_be_val [of bs]
  by (simp add: be32_eq unat_of_nat take_bit_eq_mod)

section \<open>Lists\<close>

lemma nth_take_append [simp]: "i < n \<Longrightarrow> n \<le> length xs \<Longrightarrow> (take n xs @ ys) ! i = xs ! i"
  by (simp add: nth_append)

lemma prefix_map_upt:
  "prefix (map f [0..<m]) (map g [0..<n]) \<longleftrightarrow> m \<le> n \<and> (\<forall>i<m. f i = g i)"
proof
  assume "prefix (map f [0..<m]) (map g [0..<n])"
  then obtain zs where z: "map g [0..<n] = map f [0..<m] @ zs"
    by (auto simp: prefix_def)
  then have len: "m \<le> n" by (metis length_append length_map length_upt le_add1 minus_nat.diff_0)
  have "f i = g i" if "i < m" for i
  proof -
    have "(map g [0..<n]) ! i = (map f [0..<m] @ zs) ! i" using z by simp
    with that len show ?thesis by (simp add: nth_append)
  qed
  with len show "m \<le> n \<and> (\<forall>i<m. f i = g i)" by blast
next
  assume h: "m \<le> n \<and> (\<forall>i<m. f i = g i)"
  then have "map g [0..<n] = map f [0..<m] @ map g [m..<n]"
    by (auto simp: list_eq_iff_nth_eq nth_append)
  then show "prefix (map f [0..<m]) (map g [0..<n])" by (simp add: prefix_def)
qed

lemma map_upt_eq_iff: "map f [0..<m] = map g [0..<m] \<longleftrightarrow> (\<forall>i<m. f i = g i)"
  by (auto simp: list_eq_iff_nth_eq)

section \<open>Octets\<close>

text \<open>An octet is determined by its eight bits; bit \<open>7 - i\<close> is the \<open>i\<close>-th bit on the wire.\<close>

lemma octet_eq_iff: "(x :: u8) = y \<longleftrightarrow> (\<forall>i<8. bit x (7 - i) = bit y (7 - i))"
proof
  assume h: "\<forall>i<8. bit x (7 - i) = bit y (7 - i)"
  show "x = y"
  proof (rule bit_word_eqI)
    fix n assume "n < LENGTH(8)"
    then have "n < 8" by simp
    then have "7 - (7 - n) = n" and "7 - n < 8" by simp_all
    with h show "bit x n = bit y n" by metis
  qed
qed simp

lemma octet_split: "(\<forall>i<8 * n. P i) \<longleftrightarrow> (\<forall>j<n. \<forall>k<8. P (8 * j + k))" for n :: nat
proof
  assume h: "\<forall>j<n. \<forall>k<8. P (8 * j + k)"
  show "\<forall>i<8 * n. P i"
  proof (intro allI impI)
    fix i assume "i < 8 * n"
    then have "i div 8 < n" and "i mod 8 < 8" by (auto simp: less_mult_imp_div_less)
    with h have "P (8 * (i div 8) + i mod 8)" by blast
    then show "P i" by simp
  qed
qed simp

end
