(* ===== verification/Prefix.thy ===== *)
theory Prefix
  imports Quagga_Prelude
begin

text \<open>
  \<^verbatim>\<open>lib/prefix.h\<close>, \<^verbatim>\<open>lib/prefix.c\<close>: the address-with-length type every daemon works with.
  The union of the struct is its memory image, a list of 16 octets in network order
  (the size of \<^verbatim>\<open>struct in6_addr\<close>, its widest member); \<^verbatim>\<open>u.prefix4\<close> is its first four octets.
  The meaning of a prefix is the bit string \<open>pbits\<close>, the first \<open>prefixlen\<close> bits of the image in
  wire order; the lemmas read the byte-and-mask code of \<^verbatim>\<open>prefix.c\<close> as operations on it.
\<close>

section \<open>Constants and the prefix structure\<close>

abbreviation (input) AF_UNSPEC :: nat where "AF_UNSPEC \<equiv> 0"
abbreviation (input) AF_INET :: nat where "AF_INET \<equiv> 2"
abbreviation (input) AF_INET6 :: nat where "AF_INET6 \<equiv> 10"
abbreviation (input) AF_ETHERNET :: nat where "AF_ETHERNET \<equiv> 17"
abbreviation (input) AFI_IP :: nat where "AFI_IP \<equiv> 1"
abbreviation (input) AFI_IP6 :: nat where "AFI_IP6 \<equiv> 2"
abbreviation (input) AFI_ETHER :: nat where "AFI_ETHER \<equiv> 3"
abbreviation (input) IPV4_MAX_BITLEN :: nat where "IPV4_MAX_BITLEN \<equiv> 32"
abbreviation (input) IPV6_MAX_BITLEN :: nat where "IPV6_MAX_BITLEN \<equiv> 128"

record prefix_t =
  family :: nat
  prefixlen :: nat
  p_u :: "u8 list"

type_synonym in_addr = "u8 list"   \<comment> \<open>the four octets of \<^verbatim>\<open>s_addr\<close>, in memory order\<close>

definition maskbit :: "u8 list" where
  "maskbit = [0x00, 0x80, 0xc0, 0xe0, 0xf0, 0xf8, 0xfc, 0xfe, 0xff]"

section \<open>Bits of an address\<close>

definition prefix_bit :: "u8 list \<Rightarrow> nat \<Rightarrow> nat" where
  "prefix_bit pre len =
     (let offset = len div 8; shift = 7 - len mod 8
      in unat (drop_bit shift (pre ! offset) AND 1))"

definition prefix6_bit :: "u8 list \<Rightarrow> nat \<Rightarrow> nat" where
  "prefix6_bit s6_addr len = prefix_bit s6_addr len"

section \<open>Families\<close>

definition str2family :: "string \<Rightarrow> int" where
  "str2family s =
     (if s = ''ipv4'' then int AF_INET
      else if s = ''ipv6'' then int AF_INET6
      else if s = ''ethernet'' then int AF_ETHERNET
      else -1)"

definition afi2family :: "nat \<Rightarrow> nat" where
  "afi2family afi =
     (if afi = AFI_IP then AF_INET
      else if afi = AFI_IP6 then AF_INET6
      else if afi = AFI_ETHER then AF_ETHERNET
      else 0)"

definition family2afi :: "nat \<Rightarrow> nat" where
  "family2afi f =
     (if f = AF_INET then AFI_IP
      else if f = AF_INET6 then AFI_IP6
      else if f = AF_ETHERNET then AFI_ETHER
      else 0)"

definition afi2str :: "nat \<Rightarrow> string option" where
  "afi2str afi =
     (if afi = AFI_IP then Some ''IPv4''
      else if afi = AFI_IP6 then Some ''IPv6''
      else if afi = AFI_ETHER then Some ''ethernet''
      else None)"

definition safi2str :: "nat \<Rightarrow> string option" where
  "safi2str safi =
     (if safi = 1 then Some ''unicast''
      else if safi = 2 then Some ''multicast''
      else if safi = 7 then Some ''encap''
      else if safi = 4 then Some ''vpn''
      else None)"

definition prefix_family_str :: "prefix_t \<Rightarrow> string" where
  "prefix_family_str p =
     (if family p = AF_INET then ''inet''
      else if family p = AF_INET6 then ''inet6''
      else if family p = AF_ETHERNET then ''ether''
      else ''unspec'')"

definition prefix_blen :: "prefix_t \<Rightarrow> nat" where
  "prefix_blen p =
     (if family p = AF_INET then 4
      else if family p = AF_INET6 then 16
      else if family p = AF_ETHERNET then 6
      else 0)"

section \<open>Allocation and copying\<close>

definition prefix_new :: prefix_t where
  "prefix_new = \<lparr>family = 0, prefixlen = 0, p_u = replicate 16 0\<rparr>"

definition prefix_ipv4_new :: prefix_t where
  "prefix_ipv4_new = prefix_new\<lparr>family := AF_INET\<rparr>"

definition prefix_ipv6_new :: prefix_t where
  "prefix_ipv6_new = prefix_new\<lparr>family := AF_INET6\<rparr>"

text \<open>Assignment of a union member of \<open>n\<close> octets: the rest of the image stays.\<close>

definition member_copy :: "nat \<Rightarrow> prefix_t \<Rightarrow> prefix_t \<Rightarrow> u8 list" where
  "member_copy n dest src = take n (p_u src) @ drop n (p_u dest)"

text \<open>\<open>None\<close> is the failed assertion on an unknown family.\<close>

definition prefix_copy :: "prefix_t \<Rightarrow> prefix_t \<Rightarrow> prefix_t option" where
  "prefix_copy dest src =
     (let d = dest\<lparr>family := family src, prefixlen := prefixlen src\<rparr> in
      if family src = AF_INET then Some (d\<lparr>p_u := member_copy 4 dest src\<rparr>)
      else if family src = AF_INET6 then Some (d\<lparr>p_u := member_copy 16 dest src\<rparr>)
      else if family src = AF_UNSPEC then Some (d\<lparr>p_u := member_copy 8 dest src\<rparr>)
      else if family src = AF_ETHERNET then Some (d\<lparr>p_u := member_copy 6 dest src\<rparr>)
      else None)"

section \<open>Comparison\<close>

text \<open>\<^verbatim>\<open>while (offset--) if (np[offset] != pp[offset]) return 0;\<close>\<close>

fun octets_same :: "u8 list \<Rightarrow> u8 list \<Rightarrow> nat \<Rightarrow> bool" where
  "octets_same np pp 0 = True"
| "octets_same np pp (Suc k) = (if np ! k \<noteq> pp ! k then False else octets_same np pp k)"

definition prefix_match :: "prefix_t \<Rightarrow> prefix_t \<Rightarrow> bool" where
  "prefix_match n p =
     (if prefixlen n > prefixlen p then False
      else
        let np = p_u n; pp = p_u p;
            offset = prefixlen n div 8; shift = prefixlen n mod 8
        in if shift \<noteq> 0 \<and> maskbit ! shift AND (np ! offset XOR pp ! offset) \<noteq> 0 then False
           else octets_same np pp offset)"

definition prefix_same :: "prefix_t \<Rightarrow> prefix_t \<Rightarrow> bool" where
  "prefix_same p1 p2 =
     (family p1 = family p2 \<and> prefixlen p1 = prefixlen p2 \<and>
      (family p1 = AF_INET \<and> take 4 (p_u p1) = take 4 (p_u p2) \<or>
       family p1 = AF_INET6 \<and> take 16 (p_u p1) = take 16 (p_u p2) \<or>
       family p1 = AF_ETHERNET \<and> take 6 (p_u p1) = take 6 (p_u p2)))"

definition prefix_cmp :: "prefix_t \<Rightarrow> prefix_t \<Rightarrow> nat" where
  "prefix_cmp p1 p2 =
     (if family p1 \<noteq> family p2 \<or> prefixlen p1 \<noteq> prefixlen p2 then 1
      else
        let pp1 = p_u p1; pp2 = p_u p2;
            offset = prefixlen p1 div 8; shift = prefixlen p1 mod 8
        in if shift \<noteq> 0 \<and> maskbit ! shift AND (pp1 ! offset XOR pp2 ! offset) \<noteq> 0 then 1
           else if octets_same pp1 pp2 offset then 0 else 1)"

text \<open>The two counting loops of \<open>prefix_common_bits\<close>.\<close>

function common_octets :: "u8 list \<Rightarrow> u8 list \<Rightarrow> nat \<Rightarrow> nat \<Rightarrow> nat" where
  "common_octets pp1 pp2 len pos =
     (if pos < len then
        if pp1 ! pos \<noteq> pp2 ! pos then pos else common_octets pp1 pp2 len (pos + 1)
      else pos)"
  by pat_completeness auto
termination
  by (relation "measure (\<lambda>(pp1, pp2, len, pos). len - pos)") auto

declare common_octets.simps [simp del]

function first_set_bit :: "u8 \<Rightarrow> nat \<Rightarrow> nat" where
  "first_set_bit xr b =
     (if b < 8 then
        if xr AND push_bit (7 - b) 1 \<noteq> 0 then b else first_set_bit xr (b + 1)
      else b)"
  by pat_completeness auto
termination
  by (relation "measure (\<lambda>(xr, b). 8 - b)") auto

declare first_set_bit.simps [simp del]

definition prefix_common_bits :: "prefix_t \<Rightarrow> prefix_t \<Rightarrow> int" where
  "prefix_common_bits p1 p2 =
     (let pp1 = p_u p1; pp2 = p_u p2;
          len = (if family p1 = AF_INET6 then 16 else if family p1 = AF_INET then 4 else 0)
      in if family p1 \<noteq> family p2 \<or> len = 0 then -1
         else
           let pos = common_octets pp1 pp2 len 0
           in if pos = len then int (pos * 8)
              else int (pos * 8 + first_set_bit (pp1 ! pos XOR pp2 ! pos) 0))"

section \<open>Netmasks\<close>

text \<open>
  \<^verbatim>\<open>masklen2ip\<close> asserts its range (\<open>None\<close> is the failed assertion), shifts a 64-bit
  all-ones word and lets \<^verbatim>\<open>htonl\<close> truncate it to 32 bits.
\<close>

definition masklen2ip :: "int \<Rightarrow> in_addr option" where
  "masklen2ip masklen =
     (if 0 \<le> masklen \<and> masklen \<le> int IPV4_MAX_BITLEN
      then Some (be32 (ucast (push_bit (nat (32 - masklen)) (0xffffffff :: u64))))
      else None)"

text \<open>\<^verbatim>\<open>__builtin_clz\<close>: the number of leading zero bits of a 32-bit word.\<close>

definition clz32 :: "u32 \<Rightarrow> nat" where
  "clz32 w = length (takeWhile (\<lambda>i. \<not> bit w (31 - i)) [0..<32])"

definition ntohl :: "in_addr \<Rightarrow> u32" where
  "ntohl a = word_of_nat (be_val (take 4 a))"

definition ip_masklen :: "in_addr \<Rightarrow> nat" where
  "ip_masklen netmask =
     (let tmp = NOT (ntohl netmask)
      in if tmp \<noteq> 0 then clz32 tmp else 32)"

definition apply_mask_ipv4 :: "prefix_t \<Rightarrow> prefix_t option" where
  "apply_mask_ipv4 p =
     (case masklen2ip (int (prefixlen p)) of
        None \<Rightarrow> None
      | Some nmask \<Rightarrow> Some (p\<lparr>p_u := map2 (AND) (take 4 (p_u p)) nmask @ drop 4 (p_u p)\<rparr>))"

definition prefix_ipv4_any :: "prefix_t \<Rightarrow> bool" where
  "prefix_ipv4_any p = (take 4 (p_u p) = [0, 0, 0, 0] \<and> prefixlen p = 0)"

text \<open>
  \<^verbatim>\<open>ip6_masklen\<close> reads the octet before it tests the length, so after sixteen octets of ones
  it reads past the structure: \<open>None\<close>.
\<close>

fun ip6_masklen_ff :: "u8 list \<Rightarrow> nat \<Rightarrow> (u8 list \<times> nat) option" where
  "ip6_masklen_ff [] len = None"
| "ip6_masklen_ff (b # pnt) len =
     (if b = 0xff \<and> len < IPV6_MAX_BITLEN then ip6_masklen_ff pnt (len + 8)
      else Some (b # pnt, len))"

text \<open>\<^verbatim>\<open>while (val) { len++; val <<= 1; }\<close>; an octet is zero after eight shifts, so
  eight units of fuel run the loop to its end (lemma \<open>shift_out_enough\<close>).\<close>

fun shift_out :: "nat \<Rightarrow> u8 \<Rightarrow> nat \<Rightarrow> nat option" where
  "shift_out 0 val len = (if val = 0 then Some len else None)"
| "shift_out (Suc fuel) val len =
     (if val = 0 then Some len else shift_out fuel (push_bit 1 val) (len + 1))"

definition ip6_masklen :: "u8 list \<Rightarrow> nat option" where
  "ip6_masklen netmask =
     (case ip6_masklen_ff netmask 0 of
        None \<Rightarrow> None
      | Some (pnt, len) \<Rightarrow>
          if len < IPV6_MAX_BITLEN then shift_out 8 (hd pnt) len else Some len)"

definition maskbytes6 :: "u8 list list" where
  "maskbytes6 = [
   [0x00, 0x00, 0x00, 0x00, 0x00, 0x00, 0x00, 0x00, 0x00, 0x00, 0x00, 0x00, 0x00, 0x00, 0x00, 0x00],
   [0x80, 0x00, 0x00, 0x00, 0x00, 0x00, 0x00, 0x00, 0x00, 0x00, 0x00, 0x00, 0x00, 0x00, 0x00, 0x00],
   [0xc0, 0x00, 0x00, 0x00, 0x00, 0x00, 0x00, 0x00, 0x00, 0x00, 0x00, 0x00, 0x00, 0x00, 0x00, 0x00],
   [0xe0, 0x00, 0x00, 0x00, 0x00, 0x00, 0x00, 0x00, 0x00, 0x00, 0x00, 0x00, 0x00, 0x00, 0x00, 0x00],
   [0xf0, 0x00, 0x00, 0x00, 0x00, 0x00, 0x00, 0x00, 0x00, 0x00, 0x00, 0x00, 0x00, 0x00, 0x00, 0x00],
   [0xf8, 0x00, 0x00, 0x00, 0x00, 0x00, 0x00, 0x00, 0x00, 0x00, 0x00, 0x00, 0x00, 0x00, 0x00, 0x00],
   [0xfc, 0x00, 0x00, 0x00, 0x00, 0x00, 0x00, 0x00, 0x00, 0x00, 0x00, 0x00, 0x00, 0x00, 0x00, 0x00],
   [0xfe, 0x00, 0x00, 0x00, 0x00, 0x00, 0x00, 0x00, 0x00, 0x00, 0x00, 0x00, 0x00, 0x00, 0x00, 0x00],
   [0xff, 0x00, 0x00, 0x00, 0x00, 0x00, 0x00, 0x00, 0x00, 0x00, 0x00, 0x00, 0x00, 0x00, 0x00, 0x00],
   [0xff, 0x80, 0x00, 0x00, 0x00, 0x00, 0x00, 0x00, 0x00, 0x00, 0x00, 0x00, 0x00, 0x00, 0x00, 0x00],
   [0xff, 0xc0, 0x00, 0x00, 0x00, 0x00, 0x00, 0x00, 0x00, 0x00, 0x00, 0x00, 0x00, 0x00, 0x00, 0x00],
   [0xff, 0xe0, 0x00, 0x00, 0x00, 0x00, 0x00, 0x00, 0x00, 0x00, 0x00, 0x00, 0x00, 0x00, 0x00, 0x00],
   [0xff, 0xf0, 0x00, 0x00, 0x00, 0x00, 0x00, 0x00, 0x00, 0x00, 0x00, 0x00, 0x00, 0x00, 0x00, 0x00],
   [0xff, 0xf8, 0x00, 0x00, 0x00, 0x00, 0x00, 0x00, 0x00, 0x00, 0x00, 0x00, 0x00, 0x00, 0x00, 0x00],
   [0xff, 0xfc, 0x00, 0x00, 0x00, 0x00, 0x00, 0x00, 0x00, 0x00, 0x00, 0x00, 0x00, 0x00, 0x00, 0x00],
   [0xff, 0xfe, 0x00, 0x00, 0x00, 0x00, 0x00, 0x00, 0x00, 0x00, 0x00, 0x00, 0x00, 0x00, 0x00, 0x00],
   [0xff, 0xff, 0x00, 0x00, 0x00, 0x00, 0x00, 0x00, 0x00, 0x00, 0x00, 0x00, 0x00, 0x00, 0x00, 0x00],
   [0xff, 0xff, 0x80, 0x00, 0x00, 0x00, 0x00, 0x00, 0x00, 0x00, 0x00, 0x00, 0x00, 0x00, 0x00, 0x00],
   [0xff, 0xff, 0xc0, 0x00, 0x00, 0x00, 0x00, 0x00, 0x00, 0x00, 0x00, 0x00, 0x00, 0x00, 0x00, 0x00],
   [0xff, 0xff, 0xe0, 0x00, 0x00, 0x00, 0x00, 0x00, 0x00, 0x00, 0x00, 0x00, 0x00, 0x00, 0x00, 0x00],
   [0xff, 0xff, 0xf0, 0x00, 0x00, 0x00, 0x00, 0x00, 0x00, 0x00, 0x00, 0x00, 0x00, 0x00, 0x00, 0x00],
   [0xff, 0xff, 0xf8, 0x00, 0x00, 0x00, 0x00, 0x00, 0x00, 0x00, 0x00, 0x00, 0x00, 0x00, 0x00, 0x00],
   [0xff, 0xff, 0xfc, 0x00, 0x00, 0x00, 0x00, 0x00, 0x00, 0x00, 0x00, 0x00, 0x00, 0x00, 0x00, 0x00],
   [0xff, 0xff, 0xfe, 0x00, 0x00, 0x00, 0x00, 0x00, 0x00, 0x00, 0x00, 0x00, 0x00, 0x00, 0x00, 0x00],
   [0xff, 0xff, 0xff, 0x00, 0x00, 0x00, 0x00, 0x00, 0x00, 0x00, 0x00, 0x00, 0x00, 0x00, 0x00, 0x00],
   [0xff, 0xff, 0xff, 0x80, 0x00, 0x00, 0x00, 0x00, 0x00, 0x00, 0x00, 0x00, 0x00, 0x00, 0x00, 0x00],
   [0xff, 0xff, 0xff, 0xc0, 0x00, 0x00, 0x00, 0x00, 0x00, 0x00, 0x00, 0x00, 0x00, 0x00, 0x00, 0x00],
   [0xff, 0xff, 0xff, 0xe0, 0x00, 0x00, 0x00, 0x00, 0x00, 0x00, 0x00, 0x00, 0x00, 0x00, 0x00, 0x00],
   [0xff, 0xff, 0xff, 0xf0, 0x00, 0x00, 0x00, 0x00, 0x00, 0x00, 0x00, 0x00, 0x00, 0x00, 0x00, 0x00],
   [0xff, 0xff, 0xff, 0xf8, 0x00, 0x00, 0x00, 0x00, 0x00, 0x00, 0x00, 0x00, 0x00, 0x00, 0x00, 0x00],
   [0xff, 0xff, 0xff, 0xfc, 0x00, 0x00, 0x00, 0x00, 0x00, 0x00, 0x00, 0x00, 0x00, 0x00, 0x00, 0x00],
   [0xff, 0xff, 0xff, 0xfe, 0x00, 0x00, 0x00, 0x00, 0x00, 0x00, 0x00, 0x00, 0x00, 0x00, 0x00, 0x00],
   [0xff, 0xff, 0xff, 0xff, 0x00, 0x00, 0x00, 0x00, 0x00, 0x00, 0x00, 0x00, 0x00, 0x00, 0x00, 0x00],
   [0xff, 0xff, 0xff, 0xff, 0x80, 0x00, 0x00, 0x00, 0x00, 0x00, 0x00, 0x00, 0x00, 0x00, 0x00, 0x00],
   [0xff, 0xff, 0xff, 0xff, 0xc0, 0x00, 0x00, 0x00, 0x00, 0x00, 0x00, 0x00, 0x00, 0x00, 0x00, 0x00],
   [0xff, 0xff, 0xff, 0xff, 0xe0, 0x00, 0x00, 0x00, 0x00, 0x00, 0x00, 0x00, 0x00, 0x00, 0x00, 0x00],
   [0xff, 0xff, 0xff, 0xff, 0xf0, 0x00, 0x00, 0x00, 0x00, 0x00, 0x00, 0x00, 0x00, 0x00, 0x00, 0x00],
   [0xff, 0xff, 0xff, 0xff, 0xf8, 0x00, 0x00, 0x00, 0x00, 0x00, 0x00, 0x00, 0x00, 0x00, 0x00, 0x00],
   [0xff, 0xff, 0xff, 0xff, 0xfc, 0x00, 0x00, 0x00, 0x00, 0x00, 0x00, 0x00, 0x00, 0x00, 0x00, 0x00],
   [0xff, 0xff, 0xff, 0xff, 0xfe, 0x00, 0x00, 0x00, 0x00, 0x00, 0x00, 0x00, 0x00, 0x00, 0x00, 0x00],
   [0xff, 0xff, 0xff, 0xff, 0xff, 0x00, 0x00, 0x00, 0x00, 0x00, 0x00, 0x00, 0x00, 0x00, 0x00, 0x00],
   [0xff, 0xff, 0xff, 0xff, 0xff, 0x80, 0x00, 0x00, 0x00, 0x00, 0x00, 0x00, 0x00, 0x00, 0x00, 0x00],
   [0xff, 0xff, 0xff, 0xff, 0xff, 0xc0, 0x00, 0x00, 0x00, 0x00, 0x00, 0x00, 0x00, 0x00, 0x00, 0x00],
   [0xff, 0xff, 0xff, 0xff, 0xff, 0xe0, 0x00, 0x00, 0x00, 0x00, 0x00, 0x00, 0x00, 0x00, 0x00, 0x00],
   [0xff, 0xff, 0xff, 0xff, 0xff, 0xf0, 0x00, 0x00, 0x00, 0x00, 0x00, 0x00, 0x00, 0x00, 0x00, 0x00],
   [0xff, 0xff, 0xff, 0xff, 0xff, 0xf8, 0x00, 0x00, 0x00, 0x00, 0x00, 0x00, 0x00, 0x00, 0x00, 0x00],
   [0xff, 0xff, 0xff, 0xff, 0xff, 0xfc, 0x00, 0x00, 0x00, 0x00, 0x00, 0x00, 0x00, 0x00, 0x00, 0x00],
   [0xff, 0xff, 0xff, 0xff, 0xff, 0xfe, 0x00, 0x00, 0x00, 0x00, 0x00, 0x00, 0x00, 0x00, 0x00, 0x00],
   [0xff, 0xff, 0xff, 0xff, 0xff, 0xff, 0x00, 0x00, 0x00, 0x00, 0x00, 0x00, 0x00, 0x00, 0x00, 0x00],
   [0xff, 0xff, 0xff, 0xff, 0xff, 0xff, 0x80, 0x00, 0x00, 0x00, 0x00, 0x00, 0x00, 0x00, 0x00, 0x00],
   [0xff, 0xff, 0xff, 0xff, 0xff, 0xff, 0xc0, 0x00, 0x00, 0x00, 0x00, 0x00, 0x00, 0x00, 0x00, 0x00],
   [0xff, 0xff, 0xff, 0xff, 0xff, 0xff, 0xe0, 0x00, 0x00, 0x00, 0x00, 0x00, 0x00, 0x00, 0x00, 0x00],
   [0xff, 0xff, 0xff, 0xff, 0xff, 0xff, 0xf0, 0x00, 0x00, 0x00, 0x00, 0x00, 0x00, 0x00, 0x00, 0x00],
   [0xff, 0xff, 0xff, 0xff, 0xff, 0xff, 0xf8, 0x00, 0x00, 0x00, 0x00, 0x00, 0x00, 0x00, 0x00, 0x00],
   [0xff, 0xff, 0xff, 0xff, 0xff, 0xff, 0xfc, 0x00, 0x00, 0x00, 0x00, 0x00, 0x00, 0x00, 0x00, 0x00],
   [0xff, 0xff, 0xff, 0xff, 0xff, 0xff, 0xfe, 0x00, 0x00, 0x00, 0x00, 0x00, 0x00, 0x00, 0x00, 0x00],
   [0xff, 0xff, 0xff, 0xff, 0xff, 0xff, 0xff, 0x00, 0x00, 0x00, 0x00, 0x00, 0x00, 0x00, 0x00, 0x00],
   [0xff, 0xff, 0xff, 0xff, 0xff, 0xff, 0xff, 0x80, 0x00, 0x00, 0x00, 0x00, 0x00, 0x00, 0x00, 0x00],
   [0xff, 0xff, 0xff, 0xff, 0xff, 0xff, 0xff, 0xc0, 0x00, 0x00, 0x00, 0x00, 0x00, 0x00, 0x00, 0x00],
   [0xff, 0xff, 0xff, 0xff, 0xff, 0xff, 0xff, 0xe0, 0x00, 0x00, 0x00, 0x00, 0x00, 0x00, 0x00, 0x00],
   [0xff, 0xff, 0xff, 0xff, 0xff, 0xff, 0xff, 0xf0, 0x00, 0x00, 0x00, 0x00, 0x00, 0x00, 0x00, 0x00],
   [0xff, 0xff, 0xff, 0xff, 0xff, 0xff, 0xff, 0xf8, 0x00, 0x00, 0x00, 0x00, 0x00, 0x00, 0x00, 0x00],
   [0xff, 0xff, 0xff, 0xff, 0xff, 0xff, 0xff, 0xfc, 0x00, 0x00, 0x00, 0x00, 0x00, 0x00, 0x00, 0x00],
   [0xff, 0xff, 0xff, 0xff, 0xff, 0xff, 0xff, 0xfe, 0x00, 0x00, 0x00, 0x00, 0x00, 0x00, 0x00, 0x00],
   [0xff, 0xff, 0xff, 0xff, 0xff, 0xff, 0xff, 0xff, 0x00, 0x00, 0x00, 0x00, 0x00, 0x00, 0x00, 0x00],
   [0xff, 0xff, 0xff, 0xff, 0xff, 0xff, 0xff, 0xff, 0x80, 0x00, 0x00, 0x00, 0x00, 0x00, 0x00, 0x00],
   [0xff, 0xff, 0xff, 0xff, 0xff, 0xff, 0xff, 0xff, 0xc0, 0x00, 0x00, 0x00, 0x00, 0x00, 0x00, 0x00],
   [0xff, 0xff, 0xff, 0xff, 0xff, 0xff, 0xff, 0xff, 0xe0, 0x00, 0x00, 0x00, 0x00, 0x00, 0x00, 0x00],
   [0xff, 0xff, 0xff, 0xff, 0xff, 0xff, 0xff, 0xff, 0xf0, 0x00, 0x00, 0x00, 0x00, 0x00, 0x00, 0x00],
   [0xff, 0xff, 0xff, 0xff, 0xff, 0xff, 0xff, 0xff, 0xf8, 0x00, 0x00, 0x00, 0x00, 0x00, 0x00, 0x00],
   [0xff, 0xff, 0xff, 0xff, 0xff, 0xff, 0xff, 0xff, 0xfc, 0x00, 0x00, 0x00, 0x00, 0x00, 0x00, 0x00],
   [0xff, 0xff, 0xff, 0xff, 0xff, 0xff, 0xff, 0xff, 0xfe, 0x00, 0x00, 0x00, 0x00, 0x00, 0x00, 0x00],
   [0xff, 0xff, 0xff, 0xff, 0xff, 0xff, 0xff, 0xff, 0xff, 0x00, 0x00, 0x00, 0x00, 0x00, 0x00, 0x00],
   [0xff, 0xff, 0xff, 0xff, 0xff, 0xff, 0xff, 0xff, 0xff, 0x80, 0x00, 0x00, 0x00, 0x00, 0x00, 0x00],
   [0xff, 0xff, 0xff, 0xff, 0xff, 0xff, 0xff, 0xff, 0xff, 0xc0, 0x00, 0x00, 0x00, 0x00, 0x00, 0x00],
   [0xff, 0xff, 0xff, 0xff, 0xff, 0xff, 0xff, 0xff, 0xff, 0xe0, 0x00, 0x00, 0x00, 0x00, 0x00, 0x00],
   [0xff, 0xff, 0xff, 0xff, 0xff, 0xff, 0xff, 0xff, 0xff, 0xf0, 0x00, 0x00, 0x00, 0x00, 0x00, 0x00],
   [0xff, 0xff, 0xff, 0xff, 0xff, 0xff, 0xff, 0xff, 0xff, 0xf8, 0x00, 0x00, 0x00, 0x00, 0x00, 0x00],
   [0xff, 0xff, 0xff, 0xff, 0xff, 0xff, 0xff, 0xff, 0xff, 0xfc, 0x00, 0x00, 0x00, 0x00, 0x00, 0x00],
   [0xff, 0xff, 0xff, 0xff, 0xff, 0xff, 0xff, 0xff, 0xff, 0xfe, 0x00, 0x00, 0x00, 0x00, 0x00, 0x00],
   [0xff, 0xff, 0xff, 0xff, 0xff, 0xff, 0xff, 0xff, 0xff, 0xff, 0x00, 0x00, 0x00, 0x00, 0x00, 0x00],
   [0xff, 0xff, 0xff, 0xff, 0xff, 0xff, 0xff, 0xff, 0xff, 0xff, 0x80, 0x00, 0x00, 0x00, 0x00, 0x00],
   [0xff, 0xff, 0xff, 0xff, 0xff, 0xff, 0xff, 0xff, 0xff, 0xff, 0xc0, 0x00, 0x00, 0x00, 0x00, 0x00],
   [0xff, 0xff, 0xff, 0xff, 0xff, 0xff, 0xff, 0xff, 0xff, 0xff, 0xe0, 0x00, 0x00, 0x00, 0x00, 0x00],
   [0xff, 0xff, 0xff, 0xff, 0xff, 0xff, 0xff, 0xff, 0xff, 0xff, 0xf0, 0x00, 0x00, 0x00, 0x00, 0x00],
   [0xff, 0xff, 0xff, 0xff, 0xff, 0xff, 0xff, 0xff, 0xff, 0xff, 0xf8, 0x00, 0x00, 0x00, 0x00, 0x00],
   [0xff, 0xff, 0xff, 0xff, 0xff, 0xff, 0xff, 0xff, 0xff, 0xff, 0xfc, 0x00, 0x00, 0x00, 0x00, 0x00],
   [0xff, 0xff, 0xff, 0xff, 0xff, 0xff, 0xff, 0xff, 0xff, 0xff, 0xfe, 0x00, 0x00, 0x00, 0x00, 0x00],
   [0xff, 0xff, 0xff, 0xff, 0xff, 0xff, 0xff, 0xff, 0xff, 0xff, 0xff, 0x00, 0x00, 0x00, 0x00, 0x00],
   [0xff, 0xff, 0xff, 0xff, 0xff, 0xff, 0xff, 0xff, 0xff, 0xff, 0xff, 0x80, 0x00, 0x00, 0x00, 0x00],
   [0xff, 0xff, 0xff, 0xff, 0xff, 0xff, 0xff, 0xff, 0xff, 0xff, 0xff, 0xc0, 0x00, 0x00, 0x00, 0x00],
   [0xff, 0xff, 0xff, 0xff, 0xff, 0xff, 0xff, 0xff, 0xff, 0xff, 0xff, 0xe0, 0x00, 0x00, 0x00, 0x00],
   [0xff, 0xff, 0xff, 0xff, 0xff, 0xff, 0xff, 0xff, 0xff, 0xff, 0xff, 0xf0, 0x00, 0x00, 0x00, 0x00],
   [0xff, 0xff, 0xff, 0xff, 0xff, 0xff, 0xff, 0xff, 0xff, 0xff, 0xff, 0xf8, 0x00, 0x00, 0x00, 0x00],
   [0xff, 0xff, 0xff, 0xff, 0xff, 0xff, 0xff, 0xff, 0xff, 0xff, 0xff, 0xfc, 0x00, 0x00, 0x00, 0x00],
   [0xff, 0xff, 0xff, 0xff, 0xff, 0xff, 0xff, 0xff, 0xff, 0xff, 0xff, 0xfe, 0x00, 0x00, 0x00, 0x00],
   [0xff, 0xff, 0xff, 0xff, 0xff, 0xff, 0xff, 0xff, 0xff, 0xff, 0xff, 0xff, 0x00, 0x00, 0x00, 0x00],
   [0xff, 0xff, 0xff, 0xff, 0xff, 0xff, 0xff, 0xff, 0xff, 0xff, 0xff, 0xff, 0x80, 0x00, 0x00, 0x00],
   [0xff, 0xff, 0xff, 0xff, 0xff, 0xff, 0xff, 0xff, 0xff, 0xff, 0xff, 0xff, 0xc0, 0x00, 0x00, 0x00],
   [0xff, 0xff, 0xff, 0xff, 0xff, 0xff, 0xff, 0xff, 0xff, 0xff, 0xff, 0xff, 0xe0, 0x00, 0x00, 0x00],
   [0xff, 0xff, 0xff, 0xff, 0xff, 0xff, 0xff, 0xff, 0xff, 0xff, 0xff, 0xff, 0xf0, 0x00, 0x00, 0x00],
   [0xff, 0xff, 0xff, 0xff, 0xff, 0xff, 0xff, 0xff, 0xff, 0xff, 0xff, 0xff, 0xf8, 0x00, 0x00, 0x00],
   [0xff, 0xff, 0xff, 0xff, 0xff, 0xff, 0xff, 0xff, 0xff, 0xff, 0xff, 0xff, 0xfc, 0x00, 0x00, 0x00],
   [0xff, 0xff, 0xff, 0xff, 0xff, 0xff, 0xff, 0xff, 0xff, 0xff, 0xff, 0xff, 0xfe, 0x00, 0x00, 0x00],
   [0xff, 0xff, 0xff, 0xff, 0xff, 0xff, 0xff, 0xff, 0xff, 0xff, 0xff, 0xff, 0xff, 0x00, 0x00, 0x00],
   [0xff, 0xff, 0xff, 0xff, 0xff, 0xff, 0xff, 0xff, 0xff, 0xff, 0xff, 0xff, 0xff, 0x80, 0x00, 0x00],
   [0xff, 0xff, 0xff, 0xff, 0xff, 0xff, 0xff, 0xff, 0xff, 0xff, 0xff, 0xff, 0xff, 0xc0, 0x00, 0x00],
   [0xff, 0xff, 0xff, 0xff, 0xff, 0xff, 0xff, 0xff, 0xff, 0xff, 0xff, 0xff, 0xff, 0xe0, 0x00, 0x00],
   [0xff, 0xff, 0xff, 0xff, 0xff, 0xff, 0xff, 0xff, 0xff, 0xff, 0xff, 0xff, 0xff, 0xf0, 0x00, 0x00],
   [0xff, 0xff, 0xff, 0xff, 0xff, 0xff, 0xff, 0xff, 0xff, 0xff, 0xff, 0xff, 0xff, 0xf8, 0x00, 0x00],
   [0xff, 0xff, 0xff, 0xff, 0xff, 0xff, 0xff, 0xff, 0xff, 0xff, 0xff, 0xff, 0xff, 0xfc, 0x00, 0x00],
   [0xff, 0xff, 0xff, 0xff, 0xff, 0xff, 0xff, 0xff, 0xff, 0xff, 0xff, 0xff, 0xff, 0xfe, 0x00, 0x00],
   [0xff, 0xff, 0xff, 0xff, 0xff, 0xff, 0xff, 0xff, 0xff, 0xff, 0xff, 0xff, 0xff, 0xff, 0x00, 0x00],
   [0xff, 0xff, 0xff, 0xff, 0xff, 0xff, 0xff, 0xff, 0xff, 0xff, 0xff, 0xff, 0xff, 0xff, 0x80, 0x00],
   [0xff, 0xff, 0xff, 0xff, 0xff, 0xff, 0xff, 0xff, 0xff, 0xff, 0xff, 0xff, 0xff, 0xff, 0xc0, 0x00],
   [0xff, 0xff, 0xff, 0xff, 0xff, 0xff, 0xff, 0xff, 0xff, 0xff, 0xff, 0xff, 0xff, 0xff, 0xe0, 0x00],
   [0xff, 0xff, 0xff, 0xff, 0xff, 0xff, 0xff, 0xff, 0xff, 0xff, 0xff, 0xff, 0xff, 0xff, 0xf0, 0x00],
   [0xff, 0xff, 0xff, 0xff, 0xff, 0xff, 0xff, 0xff, 0xff, 0xff, 0xff, 0xff, 0xff, 0xff, 0xf8, 0x00],
   [0xff, 0xff, 0xff, 0xff, 0xff, 0xff, 0xff, 0xff, 0xff, 0xff, 0xff, 0xff, 0xff, 0xff, 0xfc, 0x00],
   [0xff, 0xff, 0xff, 0xff, 0xff, 0xff, 0xff, 0xff, 0xff, 0xff, 0xff, 0xff, 0xff, 0xff, 0xfe, 0x00],
   [0xff, 0xff, 0xff, 0xff, 0xff, 0xff, 0xff, 0xff, 0xff, 0xff, 0xff, 0xff, 0xff, 0xff, 0xff, 0x00],
   [0xff, 0xff, 0xff, 0xff, 0xff, 0xff, 0xff, 0xff, 0xff, 0xff, 0xff, 0xff, 0xff, 0xff, 0xff, 0x80],
   [0xff, 0xff, 0xff, 0xff, 0xff, 0xff, 0xff, 0xff, 0xff, 0xff, 0xff, 0xff, 0xff, 0xff, 0xff, 0xc0],
   [0xff, 0xff, 0xff, 0xff, 0xff, 0xff, 0xff, 0xff, 0xff, 0xff, 0xff, 0xff, 0xff, 0xff, 0xff, 0xe0],
   [0xff, 0xff, 0xff, 0xff, 0xff, 0xff, 0xff, 0xff, 0xff, 0xff, 0xff, 0xff, 0xff, 0xff, 0xff, 0xf0],
   [0xff, 0xff, 0xff, 0xff, 0xff, 0xff, 0xff, 0xff, 0xff, 0xff, 0xff, 0xff, 0xff, 0xff, 0xff, 0xf8],
   [0xff, 0xff, 0xff, 0xff, 0xff, 0xff, 0xff, 0xff, 0xff, 0xff, 0xff, 0xff, 0xff, 0xff, 0xff, 0xfc],
   [0xff, 0xff, 0xff, 0xff, 0xff, 0xff, 0xff, 0xff, 0xff, 0xff, 0xff, 0xff, 0xff, 0xff, 0xff, 0xfe],
   [0xff, 0xff, 0xff, 0xff, 0xff, 0xff, 0xff, 0xff, 0xff, 0xff, 0xff, 0xff, 0xff, 0xff, 0xff, 0xff]]"

definition masklen2ip6 :: "int \<Rightarrow> u8 list option" where
  "masklen2ip6 masklen =
     (if 0 \<le> masklen \<and> masklen \<le> int IPV6_MAX_BITLEN
      then Some (maskbytes6 ! nat masklen) else None)"

text \<open>\<^verbatim>\<open>while (index < 16) pnt[index++] = 0;\<close>\<close>

function zero_from :: "u8 list \<Rightarrow> nat \<Rightarrow> u8 list" where
  "zero_from pnt index =
     (if index < 16 then zero_from (pnt[index := 0]) (index + 1) else pnt)"
  by pat_completeness auto
termination
  by (relation "measure (\<lambda>(pnt, index). 16 - index)") auto

declare zero_from.simps [simp del]

definition apply_mask_ipv6 :: "prefix_t \<Rightarrow> prefix_t" where
  "apply_mask_ipv6 p =
     (let index = prefixlen p div 8 in
      if index < 16 then
        let pnt = p_u p; offset = prefixlen p mod 8
        in p\<lparr>p_u := zero_from (pnt[index := pnt ! index AND maskbit ! offset]) (index + 1)\<rparr>
      else p)"

definition apply_mask :: "prefix_t \<Rightarrow> prefix_t option" where
  "apply_mask p =
     (if family p = AF_INET then apply_mask_ipv4 p
      else if family p = AF_INET6 then Some (apply_mask_ipv6 p)
      else Some p)"

text \<open>The class tests of \<^verbatim>\<open>netinet/in.h\<close>.\<close>

definition IN_CLASSA :: "u32 \<Rightarrow> bool" where
  "IN_CLASSA a = (a AND 0x80000000 = 0)"

definition IN_CLASSB :: "u32 \<Rightarrow> bool" where
  "IN_CLASSB a = (a AND 0xc0000000 = 0x80000000)"

definition IN_CLASSC :: "u32 \<Rightarrow> bool" where
  "IN_CLASSC a = (a AND 0xe0000000 = 0xc0000000)"

definition apply_classful_mask_ipv4 :: "prefix_t \<Rightarrow> prefix_t option" where
  "apply_classful_mask_ipv4 p =
     (let destination = ntohl (p_u p) in
      if prefixlen p = IPV4_MAX_BITLEN then Some p
      else if IN_CLASSC destination then apply_mask_ipv4 (p\<lparr>prefixlen := 24\<rparr>)
      else if IN_CLASSB destination then apply_mask_ipv4 (p\<lparr>prefixlen := 16\<rparr>)
      else apply_mask_ipv4 (p\<lparr>prefixlen := 8\<rparr>))"

definition ipv4_network_addr :: "in_addr \<Rightarrow> int \<Rightarrow> in_addr option" where
  "ipv4_network_addr hostaddr masklen =
     map_option (\<lambda>nmask. map2 (AND) hostaddr nmask) (masklen2ip masklen)"

definition ipv4_broadcast_addr :: "in_addr \<Rightarrow> int \<Rightarrow> in_addr option" where
  "ipv4_broadcast_addr hostaddr masklen =
     map_option (\<lambda>nmask.
        if masklen \<noteq> int IPV4_MAX_BITLEN - 1
        then map2 (OR) hostaddr (map NOT nmask)
        else map2 (XOR) hostaddr (map NOT nmask)) (masklen2ip masklen)"

text \<open>
  \<^verbatim>\<open>ipv4_martian\<close> tests \<^verbatim>\<open>s_addr\<close> as the host reads it from memory, without \<^verbatim>\<open>ntohl\<close>:
  the flag says whether the host is little-endian.
\<close>

definition s_addr :: "bool \<Rightarrow> in_addr \<Rightarrow> u32" where
  "s_addr little_endian a = word_of_nat (be_val (if little_endian then rev (take 4 a) else take 4 a))"

definition IPV4_NET0 :: "u32 \<Rightarrow> bool" where
  "IPV4_NET0 a = (a AND 0xff000000 = 0x00000000)"

definition IPV4_NET127 :: "u32 \<Rightarrow> bool" where
  "IPV4_NET127 a = (a AND 0xff000000 = 0x7f000000)"

definition IPV4_CLASS_DE :: "u32 \<Rightarrow> bool" where
  "IPV4_CLASS_DE a = (a AND 0xe0000000 = 0xe0000000)"

definition ipv4_martian :: "bool \<Rightarrow> in_addr \<Rightarrow> bool" where
  "ipv4_martian little_endian addr =
     (let ip = s_addr little_endian addr
      in IPV4_NET0 ip \<or> IPV4_NET127 ip \<or> IPV4_CLASS_DE ip)"

section \<open>Strings\<close>

fun all_digit :: "string \<Rightarrow> bool" where
  "all_digit [] = True"
| "all_digit (c # cs) = (if \<not> (CHR ''0'' \<le> c \<and> c \<le> CHR ''9'') then False else all_digit cs)"

text \<open>\<^verbatim>\<open>atoi\<close>: leading white space, an optional sign, then decimal digits.\<close>

fun dec_val :: "int \<Rightarrow> string \<Rightarrow> int" where
  "dec_val acc [] = acc"
| "dec_val acc (c # cs) =
     (if CHR ''0'' \<le> c \<and> c \<le> CHR ''9''
      then dec_val (10 * acc + int (of_char c - of_char (CHR ''0''))) cs else acc)"

definition isspace :: "char \<Rightarrow> bool" where
  "isspace c = (c = CHR '' '' \<or> (of_char c :: nat) \<in> {9, 10, 11, 12, 13})"

definition atoi :: "string \<Rightarrow> int" where
  "atoi s =
     (case dropWhile isspace s of
        [] \<Rightarrow> 0
      | c # cs \<Rightarrow> if c = CHR ''-'' then - dec_val 0 cs
                 else if c = CHR ''+'' then dec_val 0 cs else dec_val 0 (c # cs))"

text \<open>
  \<^verbatim>\<open>inet_aton\<close> and \<^verbatim>\<open>inet_pton\<close> are the C library's address parsers, a parameter of the model:
  \<open>None\<close> is the return value 0, which leaves the target as it was.
\<close>

definition str2prefix_ipv4 ::
    "(string \<Rightarrow> in_addr option) \<Rightarrow> string \<Rightarrow> prefix_t \<Rightarrow> nat \<times> prefix_t" where
  "str2prefix_ipv4 inet_aton str p =
     (if CHR ''/'' \<notin> set str then
        case inet_aton str of
          None \<Rightarrow> (0, p)
        | Some a \<Rightarrow> (1, p\<lparr>family := AF_INET, prefixlen := IPV4_MAX_BITLEN, p_u := a @ drop 4 (p_u p)\<rparr>)
      else
        let cp = takeWhile (\<lambda>c. c \<noteq> CHR ''/'') str;
            pnt = tl (dropWhile (\<lambda>c. c \<noteq> CHR ''/'') str);
            (ret, p1) = (case inet_aton cp of
                           None \<Rightarrow> (0, p)
                         | Some a \<Rightarrow> (1, p\<lparr>p_u := a @ drop 4 (p_u p)\<rparr>));
            plen = nat (atoi pnt mod 256)
        in if plen > IPV4_MAX_BITLEN then (0, p1)
           else (ret, p1\<lparr>family := AF_INET, prefixlen := plen\<rparr>))"

definition str2prefix_ipv6 ::
    "(string \<Rightarrow> u8 list option) \<Rightarrow> string \<Rightarrow> prefix_t \<Rightarrow> nat \<times> prefix_t" where
  "str2prefix_ipv6 inet_pton str p =
     (if CHR ''/'' \<notin> set str then
        case inet_pton str of
          None \<Rightarrow> (0, p)
        | Some a \<Rightarrow> (1, p\<lparr>prefixlen := IPV6_MAX_BITLEN, p_u := a, family := AF_INET6\<rparr>)
      else
        let cp = takeWhile (\<lambda>c. c \<noteq> CHR ''/'') str;
            pnt = tl (dropWhile (\<lambda>c. c \<noteq> CHR ''/'') str)
        in case inet_pton cp of
             None \<Rightarrow> (0, p)
           | Some a \<Rightarrow>
               let p1 = p\<lparr>p_u := a\<rparr>; plen = nat (atoi pnt mod 256)
               in if plen > IPV6_MAX_BITLEN then (0, p1)
                  else (1, p1\<lparr>prefixlen := plen, family := AF_INET6\<rparr>))"

text \<open>
  \<open>sscanf_eth\<close> is the C library's reading of \<^verbatim>\<open>%2x:%2x:%2x:%2x:%2x:%2x\<close>, a parameter of the model: the six
  numbers, or \<open>None\<close> when not all are there.  The text it reads still ends with the slash.
\<close>

definition str2prefix_eth ::
    "(string \<Rightarrow> u8 list option) \<Rightarrow> string \<Rightarrow> prefix_t \<Rightarrow> nat \<times> prefix_t" where
  "str2prefix_eth sscanf_eth str p =
     (let slash = CHR ''/'' \<in> set str;
          plen = (if slash then nat (atoi (tl (dropWhile (\<lambda>c. c \<noteq> CHR ''/'') str)) mod 256) else 48);
          str_addr = (if slash then takeWhile (\<lambda>c. c \<noteq> CHR ''/'') str @ ''/'' else str)
      in if plen > 48 then (0, p)
         else case sscanf_eth str_addr of
                None \<Rightarrow> (0, p)
              | Some a \<Rightarrow> (1, p\<lparr>p_u := take 6 a @ drop 6 (p_u p), prefixlen := plen, family := AF_ETHERNET\<rparr>))"

definition str2prefix ::
    "(string \<Rightarrow> in_addr option) \<Rightarrow> (string \<Rightarrow> u8 list option) \<Rightarrow> (string \<Rightarrow> u8 list option) \<Rightarrow> string \<Rightarrow> prefix_t \<Rightarrow>
     nat \<times> prefix_t" where
  "str2prefix inet_aton inet_pton sscanf_eth str p =
     (let (ret, p1) = str2prefix_ipv4 inet_aton str p in
      if ret \<noteq> 0 then (ret, p1)
      else let (ret, p2) = str2prefix_ipv6 inet_pton str p1 in
        if ret \<noteq> 0 then (ret, p2)
        else let (ret, p3) = str2prefix_eth sscanf_eth str p2 in
          if ret \<noteq> 0 then (ret, p3) else (0, p3))"

text \<open>The conversions \<^verbatim>\<open>%d\<close> (of a number that is not negative) and \<^verbatim>\<open>%02x\<close> (of an octet) of \<^verbatim>\<open>printf\<close>.\<close>

fun dec_str :: "nat \<Rightarrow> string" where
  "dec_str n = (if n < 10 then [] else dec_str (n div 10)) @ [char_of (48 + n mod 10)]"

declare dec_str.simps [simp del]

definition hex_digit :: "nat \<Rightarrow> char" where
  "hex_digit d = (if d < 10 then char_of (48 + d) else char_of (87 + d))"

definition hex2_str :: "u8 \<Rightarrow> string" where
  "hex2_str w = [hex_digit (unat w div 16), hex_digit (unat w mod 16)]"

text \<open>
  \<^verbatim>\<open>prefix2str\<close>: the string left in the caller's buffer of \<open>sz\<close> octets and whether the function
  returns the buffer (it returns a null pointer for an Ethernet prefix).  \<open>None\<close> is the failed assertion,
  or a read of the local buffer that \<^verbatim>\<open>inet_ntop\<close> did not fill.
\<close>

definition prefix2str :: "(nat \<Rightarrow> u8 list \<Rightarrow> string option) \<Rightarrow> prefix_t \<Rightarrow> nat \<Rightarrow> (string \<times> bool) option" where
  "prefix2str inet_ntop p sz =
     (if family p = AF_ETHERNET then
        if sz > 3 * 6 + 1 + 3
        then Some (concat (map (\<lambda>i. hex2_str (p_u p ! i) @ (if i < 5 then '':'' else [])) [0..<6]) @
                   ''/'' @ dec_str (prefixlen p), False)
        else None
      else case inet_ntop (family p) (p_u p) of
             None \<Rightarrow> None
           | Some buf \<Rightarrow> Some (take (sz - 1) (buf @ ''/'' @ dec_str (prefixlen p)), True))"

text \<open>\<^verbatim>\<open>netmask_str2prefix_str\<close>: \<open>None\<close> is the return value 0.\<close>

definition netmask_str2prefix_str ::
    "(string \<Rightarrow> in_addr option) \<Rightarrow> string \<Rightarrow> string option \<Rightarrow> string option" where
  "netmask_str2prefix_str inet_aton net_str mask_str =
     Option.bind (inet_aton net_str) (\<lambda>network.
     Option.bind
       (case mask_str of
          Some ms \<Rightarrow> map_option ip_masklen (inet_aton ms)
        | None \<Rightarrow>
            let destination = ntohl network in
            if destination = 0 then Some 0
            else if IN_CLASSC destination then Some 24
            else if IN_CLASSB destination then Some 16
            else if IN_CLASSA destination then Some 8
            else None) (\<lambda>plen.
     Some (net_str @ ''/'' @ dec_str plen)))"

section \<open>The bits of a prefix\<close>

text \<open>\<open>bit_at\<close> is the \<open>i\<close>-th bit of an address on the wire, \<open>pbits\<close> the bit string a prefix stands for.\<close>

definition bit_at :: "u8 list \<Rightarrow> nat \<Rightarrow> bool" where
  "bit_at us i = bit (us ! (i div 8)) (7 - i mod 8)"

lemma prefix_bit_eq: "prefix_bit us i = (if bit_at us i then 1 else 0)"
  by (simp add: prefix_bit_def bit_at_def Let_def bit_iff_odd_drop_bit and_one_eq mod2_eq_if unsigned_and_eq)

lemma bit_at_octet [simp]: "k < 8 \<Longrightarrow> bit_at us (8 * j + k) = bit (us ! j) (7 - k)"
  by (simp add: bit_at_def)

lemma octets_same_iff: "octets_same np pp n \<longleftrightarrow> (\<forall>j<n. np ! j = pp ! j)"
  by (induction n) (auto simp: less_Suc_eq)

lemma octets_same_bits: "octets_same np pp n \<longleftrightarrow> (\<forall>i<8 * n. bit_at np i = bit_at pp i)"
  by (simp add: octets_same_iff octet_eq_iff octet_split)

lemma bit_maskbit: "s \<le> 8 \<Longrightarrow> j < 8 \<Longrightarrow> bit (maskbit ! s) j \<longleftrightarrow> 8 - s \<le> j"
proof -
  assume "s \<le> 8" "j < 8"
  then have "s \<in> {0,1,2,3,4,5,6,7,8}" "j \<in> {0,1,2,3,4,5,6,7}" by auto
  then show ?thesis by (auto simp: maskbit_def)
qed

lemma mask_xor_eq_0:
  assumes "s \<le> 8"
  shows "maskbit ! s AND (x XOR y) = 0 \<longleftrightarrow> (\<forall>k < s. bit x (7 - k) = bit y (7 - k))"
proof -
  have "maskbit ! s AND (x XOR y) = 0 \<longleftrightarrow> (\<forall>j<8. 8 - s \<le> j \<longrightarrow> bit x j = bit y j)"
    using assms by (auto simp: bit_eq_iff [of "maskbit ! s AND (x XOR y)"] bit_simps bit_maskbit
        dest: bit_imp_le_length)
  also have "\<dots> \<longleftrightarrow> (\<forall>k < s. bit x (7 - k) = bit y (7 - k))"
  proof safe
    fix k assume h: "\<forall>j<8. 8 - s \<le> j \<longrightarrow> bit x j = bit y j" and k: "k < s"
    show "bit x (7 - k) \<Longrightarrow> bit y (7 - k)" "bit y (7 - k) \<Longrightarrow> bit x (7 - k)"
      using h k assms by auto
  next
    fix j assume h: "\<forall>k < s. bit x (7 - k) = bit y (7 - k)" and j: "j < 8" "8 - s \<le> j"
    then have "7 - j < s" and "7 - (7 - j) = j" using assms by auto
    with h show "bit x j \<Longrightarrow> bit y j" "bit y j \<Longrightarrow> bit x j" by metis+
  qed
  finally show ?thesis .
qed

text \<open>The common test of \<open>prefix_match\<close> and \<open>prefix_cmp\<close>.\<close>

lemma masked_same_iff:
  "(\<not> (n mod 8 \<noteq> 0 \<and> maskbit ! (n mod 8) AND (np ! (n div 8) XOR pp ! (n div 8)) \<noteq> 0) \<and>
    octets_same np pp (n div 8)) \<longleftrightarrow> (\<forall>i<n. bit_at np i = bit_at pp i)" (is "?L \<longleftrightarrow> ?R")
proof -
  have tail: "(n mod 8 \<noteq> 0 \<and> maskbit ! (n mod 8) AND (np ! (n div 8) XOR pp ! (n div 8)) \<noteq> 0) \<longleftrightarrow>
    \<not> (\<forall>k<n mod 8. bit_at np (8 * (n div 8) + k) = bit_at pp (8 * (n div 8) + k))"
    by (cases "n mod 8 = 0") (auto simp: mask_xor_eq_0)
  have "?R \<longleftrightarrow> (\<forall>i<8 * (n div 8). bit_at np i = bit_at pp i) \<and>
      (\<forall>k<n mod 8. bit_at np (8 * (n div 8) + k) = bit_at pp (8 * (n div 8) + k))"
  proof
    assume ?R
    moreover have "8 * (n div 8) + k < n" if "k < n mod 8" for k
      using that by (metis mult_div_mod_eq nat_add_left_cancel_less)
    moreover have "i < n" if "i < 8 * (n div 8)" for i
      using that by (metis mult_div_mod_eq trans_less_add1)
    ultimately show "(\<forall>i<8 * (n div 8). bit_at np i = bit_at pp i) \<and>
      (\<forall>k<n mod 8. bit_at np (8 * (n div 8) + k) = bit_at pp (8 * (n div 8) + k))"
      by blast
  next
    assume h: "(\<forall>i<8 * (n div 8). bit_at np i = bit_at pp i) \<and>
      (\<forall>k<n mod 8. bit_at np (8 * (n div 8) + k) = bit_at pp (8 * (n div 8) + k))"
    show ?R
    proof (intro allI impI)
      fix i assume i: "i < n"
      show "bit_at np i = bit_at pp i"
      proof (cases "i < 8 * (n div 8)")
        case False
        moreover have "n = 8 * (n div 8) + n mod 8" by simp
        ultimately have "i - 8 * (n div 8) < n mod 8" and "8 * (n div 8) + (i - 8 * (n div 8)) = i"
          using i by linarith+
        with h show ?thesis by metis
      qed (use h in simp)
    qed
  qed
  with tail show ?thesis by (auto simp: octets_same_bits)
qed

definition pbits :: "prefix_t \<Rightarrow> bool list" where
  "pbits p = map (bit_at (p_u p)) [0..<prefixlen p]"

lemma length_pbits [simp]: "length (pbits p) = prefixlen p"
  by (simp add: pbits_def)

lemma nth_pbits: "i < prefixlen p \<Longrightarrow> pbits p ! i = bit_at (p_u p) i"
  by (simp add: pbits_def)

lemma prefix_match_iff: "prefix_match n p \<longleftrightarrow> prefix (pbits n) (pbits p)"
  using masked_same_iff [of "prefixlen n" "p_u n" "p_u p"]
  by (auto simp: prefix_match_def pbits_def prefix_map_upt Let_def)

lemma prefix_cmp_iff:
  "prefix_cmp p1 p2 = 0 \<longleftrightarrow> family p1 = family p2 \<and> pbits p1 = pbits p2"
proof (cases "prefixlen p1 = prefixlen p2")
  case True
  then show ?thesis
    using masked_same_iff [of "prefixlen p1" "p_u p1" "p_u p2"]
    by (auto simp: prefix_cmp_def pbits_def map_upt_eq_iff Let_def)
next
  case False
  then show ?thesis by (auto simp: prefix_cmp_def dest: arg_cong [of _ _ length])
qed

lemma common_octets_spec:
  assumes "pos \<le> len"
  shows "pos \<le> common_octets a b len pos \<and> common_octets a b len pos \<le> len \<and>
    (\<forall>j. pos \<le> j \<and> j < common_octets a b len pos \<longrightarrow> a ! j = b ! j) \<and>
    (common_octets a b len pos < len \<longrightarrow> a ! common_octets a b len pos \<noteq> b ! common_octets a b len pos)"
  using assms
proof (induction a b len pos rule: common_octets.induct)
  case (1 a b len pos)
  show ?case
  proof (cases "pos < len \<and> a ! pos = b ! pos")
    case True
    with 1 have IH: "pos + 1 \<le> common_octets a b len (pos + 1) \<and> common_octets a b len (pos + 1) \<le> len \<and>
      (\<forall>j. pos + 1 \<le> j \<and> j < common_octets a b len (pos + 1) \<longrightarrow> a ! j = b ! j) \<and>
      (common_octets a b len (pos + 1) < len \<longrightarrow>
        a ! common_octets a b len (pos + 1) \<noteq> b ! common_octets a b len (pos + 1))"
      by simp
    have "common_octets a b len pos = common_octets a b len (pos + 1)"
      using True by (simp add: common_octets.simps [of a b len pos])
    moreover have "a ! j = b ! j" if "pos \<le> j \<and> j < common_octets a b len (pos + 1)" for j
      using that IH True by (cases "j = pos") auto
    ultimately show ?thesis using IH by auto
  next
    case False
    with 1 show ?thesis by (auto simp: common_octets.simps [of a b len pos])
  qed
qed

lemma and_push_bit_1: "x AND 2 ^ k = 0 \<longleftrightarrow> \<not> bit x k" for x :: u8
  by (simp add: bit_iff_and_push_bit_not_eq_0)

lemma first_set_bit_spec:
  assumes "b \<le> 8"
  shows "b \<le> first_set_bit x b \<and> first_set_bit x b \<le> 8 \<and>
    (\<forall>j. b \<le> j \<and> j < first_set_bit x b \<longrightarrow> \<not> bit x (7 - j)) \<and>
    (first_set_bit x b < 8 \<longrightarrow> bit x (7 - first_set_bit x b))"
  using assms
proof (induction x b rule: first_set_bit.induct)
  case (1 x b)
  show ?case
  proof (cases "b < 8 \<and> \<not> bit x (7 - b)")
    case True
    with 1 have IH: "b + 1 \<le> first_set_bit x (b + 1) \<and> first_set_bit x (b + 1) \<le> 8 \<and>
      (\<forall>j. b + 1 \<le> j \<and> j < first_set_bit x (b + 1) \<longrightarrow> \<not> bit x (7 - j)) \<and>
      (first_set_bit x (b + 1) < 8 \<longrightarrow> bit x (7 - first_set_bit x (b + 1)))"
      by (simp add: and_push_bit_1)
    have "first_set_bit x b = first_set_bit x (b + 1)"
      using True by (simp add: first_set_bit.simps [of x b] and_push_bit_1)
    moreover have "\<not> bit x (7 - j)" if "b \<le> j \<and> j < first_set_bit x (b + 1)" for j
      using that IH True by (cases "j = b") auto
    ultimately show ?thesis using IH by auto
  next
    case False
    with 1 show ?thesis by (auto simp: first_set_bit.simps [of x b] and_push_bit_1)
  qed
qed


section \<open>Masks\<close>

lemma bit_at_be32: "i < 32 \<Longrightarrow> bit_at (be32 w) i = bit w (31 - i)"
proof -
  assume i: "i < 32"
  define k where "k = i mod 8"
  have k: "k < 8" by (simp add: k_def)
  have "i div 8 \<in> {0, 1, 2, 3}" using i by auto
  moreover have "i = 8 * (i div 8) + k" by (simp add: k_def)
  ultimately consider "i = k" | "i = 8 + k" | "i = 16 + k" | "i = 24 + k" by auto
  then show ?thesis
    using k bit_at_octet [of k "be32 w" 0] bit_at_octet [of k "be32 w" 1]
      bit_at_octet [of k "be32 w" 2] bit_at_octet [of k "be32 w" 3]
    by cases (auto simp: be32_def bit_simps)
qed

lemma bit_at_masklen2ip:
  "masklen2ip (int n) = Some nm \<Longrightarrow> i < 32 \<Longrightarrow> bit_at nm i \<longleftrightarrow> i < n"
proof -
  assume nm: "masklen2ip (int n) = Some nm" and i: "i < 32"
  then have n: "n \<le> 32" and eq: "nm = be32 (ucast (push_bit (32 - n) (0xffffffff :: u64)))"
    by (auto simp: masklen2ip_def nat_diff_distrib split: if_splits)
  have ones: "(0xffffffff :: u64) = mask 32" by (simp add: mask_eq_exp_minus_1)
  show ?thesis
    using n i by (auto simp: eq bit_at_be32 ones bit_simps)
qed

lemma length_masklen2ip: "masklen2ip n = Some nm \<Longrightarrow> length nm = 4"
  by (auto simp: masklen2ip_def split: if_splits)

lemma masklen2ip_Some: "n \<le> 32 \<Longrightarrow> \<exists>nm. masklen2ip (int n) = Some nm"
  by (simp add: masklen2ip_def)

lemma bit_at_map2_and:
  assumes "length a = length b" "i < 8 * length a"
  shows "bit_at (map2 (AND) a b @ c) i \<longleftrightarrow> bit_at a i \<and> bit_at b i"
  using assms by (simp add: bit_at_def nth_append less_mult_imp_div_less mult.commute bit_simps)

lemma bit_at_take: "i < 8 * n \<Longrightarrow> n \<le> length a \<Longrightarrow> bit_at (take n a) i = bit_at a i"
  by (simp add: bit_at_def less_mult_imp_div_less mult.commute)

lemma apply_mask_ipv4_spec:
  assumes "prefixlen p \<le> 32" "length (p_u p) = 16"
  shows "\<exists>q. apply_mask_ipv4 p = Some q \<and> family q = family p \<and> prefixlen q = prefixlen p \<and>
    length (p_u q) = 16 \<and> drop 4 (p_u q) = drop 4 (p_u p) \<and>
    (\<forall>i<32. bit_at (p_u q) i \<longleftrightarrow> bit_at (p_u p) i \<and> i < prefixlen p)"
proof -
  obtain nm where nm: "masklen2ip (int (prefixlen p)) = Some nm"
    using masklen2ip_Some [OF assms(1)] by blast
  note l = length_masklen2ip [OF nm]
  show ?thesis
    using assms l
    by (auto simp: apply_mask_ipv4_def nm bit_at_map2_and bit_at_take bit_at_masklen2ip [OF nm])
qed

lemma length_zero_from [simp]: "length (zero_from us i) = length us"
proof (induction us i rule: zero_from.induct)
  case (1 us i)
  then show ?case by (simp add: zero_from.simps [of us i])
qed

lemma nth_zero_from:
  "j < length us \<Longrightarrow> length us = 16 \<Longrightarrow> zero_from us i ! j = (if i \<le> j then 0 else us ! j)"
proof (induction us i rule: zero_from.induct)
  case (1 us i)
  show ?case
  proof (cases "i < 16")
    case True
    with 1 show ?thesis by (auto simp: zero_from.simps [of us i] nth_list_update)
  next
    case False
    with 1 show ?thesis by (simp add: zero_from.simps [of us i])
  qed
qed

lemma less_div_mod: "(i::nat) < n \<longleftrightarrow> i div 8 < n div 8 \<or> i div 8 = n div 8 \<and> i mod 8 < n mod 8"
proof -
  have aux: "(8 * a + c < 8 * b + d) = (a < b \<or> a = b \<and> c < d)" if "c < 8" "d < 8" for a b c d :: nat
    using that by arith
  show ?thesis using aux [of "i mod 8" "n mod 8" "i div 8" "n div 8"] by simp
qed

lemma bit_at_apply_mask_ipv6:
  assumes "length (p_u p) = 16" "i < 128"
  shows "bit_at (p_u (apply_mask_ipv6 p)) i \<longleftrightarrow> bit_at (p_u p) i \<and> i < prefixlen p"
proof (cases "prefixlen p div 8 < 16")
  case True
  define x where "x = prefixlen p div 8"
  have j: "i div 8 < 16" using assms by simp
  have "i < prefixlen p \<longleftrightarrow> i div 8 < x \<or> i div 8 = x \<and> i mod 8 < prefixlen p mod 8"
    unfolding x_def
    by (rule less_div_mod)
  with True j assms show ?thesis
    by (auto simp: apply_mask_ipv6_def Let_def bit_at_def nth_zero_from x_def [symmetric]
        nth_list_update bit_simps bit_maskbit)
next
  case False
  then show ?thesis using assms by (auto simp: apply_mask_ipv6_def)
qed

definition family_bits :: "nat \<Rightarrow> nat" where
  "family_bits f =
     (if f = AF_INET then 32 else if f = AF_INET6 then 128
      else if f = AF_ETHERNET then 48 else if f = AF_UNSPEC then 64 else 0)"

definition wf_prefix :: "prefix_t \<Rightarrow> bool" where
  "wf_prefix p \<longleftrightarrow> length (p_u p) = 16 \<and> prefixlen p \<le> family_bits (family p) \<and>
     family p \<in> {AF_UNSPEC, AF_INET, AF_INET6, AF_ETHERNET}"

lemma pbits_eqI:
  "prefixlen p = prefixlen q \<Longrightarrow> (\<And>i. i < prefixlen p \<Longrightarrow> bit_at (p_u p) i = bit_at (p_u q) i) \<Longrightarrow>
   pbits p = pbits q"
  by (simp add: pbits_def)

lemma wf_prefix_len: "wf_prefix p \<Longrightarrow> prefixlen p \<le> 128"
  by (auto simp: wf_prefix_def family_bits_def split: if_splits)

lemma octets_eqI:
  assumes "length a = length b" "\<And>i. i < 8 * length a \<Longrightarrow> bit_at a i = bit_at b i"
  shows "a = b"
proof (rule nth_equalityI)
  fix j assume j: "j < length a"
  have "bit (a ! j) (7 - k) = bit (b ! j) (7 - k)" if "k < 8" for k
    using assms(2) [of "8 * j + k"] j that by simp
  then show "a ! j = b ! j" by (simp add: octet_eq_iff)
qed (use assms in simp)

lemma apply_mask_spec:
  assumes "wf_prefix p"
  shows "\<exists>q. apply_mask p = Some q \<and> wf_prefix q \<and> family q = family p \<and> pbits q = pbits p \<and>
    (family p \<in> {AF_INET, AF_INET6} \<longrightarrow>
      (\<forall>i. prefixlen p \<le> i \<and> i < family_bits (family p) \<longrightarrow> \<not> bit_at (p_u q) i)) \<and>
    apply_mask q = Some q"
proof -
  consider (v4) "family p = AF_INET" | (v6) "family p = AF_INET6" | (other) "family p \<notin> {AF_INET, AF_INET6}"
    by auto
  then show ?thesis
  proof cases
    case v4
    then have p: "prefixlen p \<le> 32" "length (p_u p) = 16" using assms
      by (auto simp: wf_prefix_def family_bits_def)
    from apply_mask_ipv4_spec [OF this] obtain q where q: "apply_mask_ipv4 p = Some q"
      "family q = family p" "prefixlen q = prefixlen p" "length (p_u q) = 16"
      "\<forall>i<32. bit_at (p_u q) i \<longleftrightarrow> bit_at (p_u p) i \<and> i < prefixlen p" by blast
    with p have p': "prefixlen q \<le> 32" "length (p_u q) = 16" by simp_all
    from apply_mask_ipv4_spec [OF this] obtain r where r: "apply_mask_ipv4 q = Some r"
      "family r = family q" "prefixlen r = prefixlen q" "length (p_u r) = 16"
      "drop 4 (p_u r) = drop 4 (p_u q)"
      "\<forall>i<32. bit_at (p_u r) i \<longleftrightarrow> bit_at (p_u q) i \<and> i < prefixlen q" by blast
    have "take 4 (p_u r) = take 4 (p_u q)"
      by (rule octets_eqI) (use r q in \<open>auto simp: bit_at_take\<close>)
    with r(5) have "p_u r = p_u q" by (metis append_take_drop_id)
    with r have "r = q" by (cases r, cases q) simp
    moreover have "pbits q = pbits p" using q p by (intro pbits_eqI) auto
    ultimately show ?thesis using q r v4 assms
      by (auto simp: apply_mask_def wf_prefix_def family_bits_def)
  next
    case v6
    define q where "q = apply_mask_ipv6 p"
    have l: "length (p_u p) = 16" "prefixlen p \<le> 128" using assms
      by (auto simp: wf_prefix_def wf_prefix_len)
    have q: "family q = family p" "prefixlen q = prefixlen p" "length (p_u q) = 16"
      using l by (simp_all add: q_def apply_mask_ipv6_def Let_def)
    have b: "bit_at (p_u q) i \<longleftrightarrow> bit_at (p_u p) i \<and> i < prefixlen p" if "i < 128" for i
      using bit_at_apply_mask_ipv6 [OF l(1) that] by (simp add: q_def)
    have "p_u (apply_mask_ipv6 q) = p_u q"
    proof (rule octets_eqI)
      show len: "length (p_u (apply_mask_ipv6 q)) = length (p_u q)"
        by (simp add: apply_mask_ipv6_def Let_def)
      show "bit_at (p_u (apply_mask_ipv6 q)) i = bit_at (p_u q) i"
        if "i < 8 * length (p_u (apply_mask_ipv6 q))" for i
        using that q b len bit_at_apply_mask_ipv6 [OF q(3), of i] by auto
    qed
    moreover have "family (apply_mask_ipv6 q) = family q" "prefixlen (apply_mask_ipv6 q) = prefixlen q"
      by (simp_all add: apply_mask_ipv6_def Let_def)
    ultimately have "apply_mask_ipv6 q = q" by (metis (full_types) prefix_t.equality unit.exhaust)
    moreover have "pbits q = pbits p" using q l b by (intro pbits_eqI) auto
    ultimately show ?thesis using q b v6 assms
      by (auto simp: apply_mask_def wf_prefix_def family_bits_def simp flip: q_def)
  next
    case other
    then show ?thesis using assms by (auto simp: apply_mask_def)
  qed
qed

lemma ntohl_be32 [simp]: "ntohl (be32 w) = w"
  by (simp add: ntohl_def)

lemma takeWhile_upt_less: "k \<le> n \<Longrightarrow> (\<And>i. i < n \<Longrightarrow> P i \<longleftrightarrow> i < k) \<Longrightarrow> takeWhile P [0..<n] = [0..<k]"
proof -
  assume k: "k \<le> n" and P: "\<And>i. i < n \<Longrightarrow> P i \<longleftrightarrow> i < k"
  have "[0..<n] = [0..<k] @ [k..<n]" using k by (metis le_add_diff_inverse upt_add_eq_append zero_le)
  moreover have "takeWhile P [k..<n] = []" using P by (cases "k < n") (auto simp: upt_rec)
  ultimately show ?thesis using P k by (simp add: takeWhile_append)
qed

lemma masklen_roundtrip4:
  assumes "n \<le> 32"
  shows "map_option ip_masklen (masklen2ip (int n)) = Some n"
proof -
  define w where "w = (ucast (push_bit (32 - n) (0xffffffff :: u64)) :: u32)"
  have m: "masklen2ip (int n) = Some (be32 w)"
    using assms by (simp add: masklen2ip_def w_def nat_diff_distrib)
  have b: "bit w (31 - i) \<longleftrightarrow> i < n" if "i < 32" for i
    using bit_at_masklen2ip [OF m that] bit_at_be32 [OF that] by simp
  have "clz32 (NOT w) = n"
    unfolding clz32_def using assms b
    by (subst takeWhile_upt_less [where k = n]) (auto simp: bit_simps)
  moreover have "NOT w = 0 \<Longrightarrow> n = 32"
    using b [of n] assms by (cases "n < 32") (auto simp: bit_simps dest!: arg_cong [of _ _ "\<lambda>v. bit v (31 - n)"])
  ultimately show ?thesis by (auto simp: m ip_masklen_def Let_def)
qed

text \<open>The table \<open>maskbytes6\<close>, row by row: row \<open>n\<close> is \<open>n\<close> ones followed by zeros.\<close>

definition mask6_row :: "nat \<Rightarrow> u8 list" where
  "mask6_row n = map (\<lambda>j. maskbit ! (min 8 (n - 8 * j))) [0..<16]"

lemma length_mask6_row [simp]: "length (mask6_row n) = 16"
  by (simp add: mask6_row_def)

lemma maskbytes6_rows: "maskbytes6 = map mask6_row [0..<129]"
  by (simp add: maskbytes6_def mask6_row_def maskbit_def upt_rec)

lemma bit_at_mask6_row: 
  assumes "n \<le> 128" "i < 128"
  shows "bit_at (mask6_row n) i \<longleftrightarrow> i < n"
proof -
  have aux: "(8 - min 8 (n - 8 * a) \<le> 7 - c) = (8 * a + c < n)" if "c < 8" for a c :: nat
    using that by arith
  have "i div 8 < 16" using assms by simp
  then show ?thesis
    using assms aux [of "i mod 8" "i div 8"]
    by (simp add: mask6_row_def bit_at_def bit_maskbit)
qed

lemma shift_out_Some: "push_bit fuel v = 0 \<Longrightarrow> \<exists>r. shift_out fuel v len = Some r"
proof (induction fuel arbitrary: v len)
  case (Suc fuel)
  have "push_bit fuel (push_bit 1 v) = 0" using Suc.prems by simp
  from Suc.IH [OF this] show ?case by simp
qed simp

lemma push_bit_8_octet: "push_bit 8 v = 0" for v :: u8
  by (rule bit_word_eqI) (simp add: bit_simps)

lemma shift_out_enough: "\<exists>r. shift_out 8 v len = Some r"
  by (rule shift_out_Some) (rule push_bit_8_octet)

lemma masklen_roundtrip6_table:
  "list_all (\<lambda>n. Option.bind (masklen2ip6 (int n)) ip6_masklen = Some n) [0..<128]"
  by code_simp

lemma masklen2ip6_spec:
  assumes "n \<le> 128"
  shows "\<exists>nm. masklen2ip6 (int n) = Some nm \<and> length nm = 16 \<and> (\<forall>i<128. bit_at nm i \<longleftrightarrow> i < n)"
  using assms by (simp add: masklen2ip6_def maskbytes6_rows bit_at_mask6_row)

text \<open>A test of the top octet of a 32-bit word, as the address class macros make it.\<close>

lemma top_octet_and:
  fixes w :: u32 and m v :: u8
  shows "w AND push_bit 24 (ucast m) = push_bit 24 (ucast v) \<longleftrightarrow> ucast (drop_bit 24 w) AND m = v"
    (is "?L \<longleftrightarrow> ?R")
proof -
  let ?B = "\<forall>n<8. (bit w (24 + n) \<and> bit m n) = bit v n"
  have "?L \<longleftrightarrow> ?B"
  proof
    assume h: ?L
    show ?B
    proof (intro allI impI)
      fix n :: nat assume "n < 8"
      moreover have "bit (w AND push_bit 24 (ucast m)) (24 + n) = bit (push_bit 24 (ucast v) :: u32) (24 + n)"
        using h by simp
      ultimately show "(bit w (24 + n) \<and> bit m n) = bit v n" by (auto simp: bit_simps)
    qed
  next
    assume h: ?B
    show ?L
    proof (rule bit_word_eqI)
      fix j assume "j < LENGTH(32)"
      then show "bit (w AND push_bit 24 (ucast m)) j = bit (push_bit 24 (ucast v) :: u32) j"
        using h [rule_format, of "j - 24"] by (cases "24 \<le> j") (auto simp: bit_simps)
    qed
  qed
  also have "?B \<longleftrightarrow> ?R"
    by (auto simp: bit_eq_iff [of "ucast (drop_bit 24 w) AND m"] bit_simps dest: bit_imp_le_length)
  finally show ?thesis .
qed

lemma class_de_octet: "(y AND 0xe0 = 0xe0) \<longleftrightarrow> 224 \<le> y" for y :: u8
proof -
  have "list_all (\<lambda>n. (word_of_nat n AND 0xe0 = (0xe0 :: u8)) = (224 \<le> (word_of_nat n :: u8))) [0..<256]"
    by code_simp
  moreover have "unat y \<in> set [0..<256]" using unsigned_less [of y, where 'a = nat] by simp
  ultimately have "(word_of_nat (unat y) AND 0xe0 = (0xe0 :: u8)) = (224 \<le> (word_of_nat (unat y) :: u8))"
    unfolding list_all_iff by (rule bspec)
  then show ?thesis by simp
qed

lemma and_255_octet: "y AND 255 = y" for y :: u8
proof -
  have "(255 :: u8) = - 1" by simp
  then show ?thesis by (simp only: and.right_neutral)
qed

lemma ipv4_martian_octet:
  "ipv4_martian le [a, b, c, d] \<longleftrightarrow>
     (let x = (if le then d else a) in x = 0 \<or> x = 127 \<or> 224 \<le> x)"
proof -
  define w where "w = s_addr le [a, b, c, d]"
  have "be32 w = (if le then [d, c, b, a] else [a, b, c, d])"
    unfolding w_def s_addr_def by (cases le) (simp_all add: be32_word_of_be_val del: be_val.simps)
  then have x: "ucast (drop_bit 24 w) = (if le then d else a)"
    by (cases le) (simp_all add: be32_def)
  show ?thesis
    using top_octet_and [of w "0xff" 0] top_octet_and [of w "0xff" "0x7f"]
      top_octet_and [of w "0xe0" "0xe0"] x
    by (simp add: ipv4_martian_def IPV4_NET0_def IPV4_NET127_def IPV4_CLASS_DE_def class_de_octet
        and_255_octet Let_def push_bit_eq_mult flip: w_def)
qed

lemma str2prefix_ipv4_wf:
  assumes "\<And>s a. inet_aton s = Some a \<Longrightarrow> length a = 4" "length (p_u p0) = 16"
    "str2prefix_ipv4 inet_aton str p0 = (ret, p)"
  shows "length (p_u p) = 16" "ret \<noteq> 0 \<Longrightarrow> wf_prefix p"
  using assms(2,3)
  by (auto simp: str2prefix_ipv4_def Let_def wf_prefix_def family_bits_def split: option.splits if_splits dest!: assms(1))

lemma str2prefix_ipv6_wf:
  assumes "\<And>s a. inet_pton s = Some a \<Longrightarrow> length a = 16" "length (p_u p0) = 16"
    "str2prefix_ipv6 inet_pton str p0 = (ret, p)"
  shows "length (p_u p) = 16" "ret \<noteq> 0 \<Longrightarrow> wf_prefix p"
  using assms(2,3)
  by (auto simp: str2prefix_ipv6_def Let_def wf_prefix_def family_bits_def split: option.splits if_splits dest!: assms(1))

lemma str2prefix_eth_wf:
  assumes "\<And>s a. sscanf_eth s = Some a \<Longrightarrow> length a = 6" "length (p_u p0) = 16"
    "str2prefix_eth sscanf_eth str p0 = (ret, p)"
  shows "ret \<noteq> 0 \<Longrightarrow> wf_prefix p"
  using assms(2,3)
  by (auto simp: str2prefix_eth_def Let_def wf_prefix_def family_bits_def split: option.splits if_splits dest!: assms(1))

lemma str2prefix_ipv4_length:
  assumes "inet_aton (takeWhile (\<lambda>c. c \<noteq> CHR ''/'') str) = Some a" "CHR ''/'' \<in> set str"
    "atoi (tl (dropWhile (\<lambda>c. c \<noteq> CHR ''/'') str)) = int n"
  shows "str2prefix_ipv4 inet_aton str p =
    (if n mod 256 \<le> 32
     then (1, p\<lparr>p_u := a @ drop 4 (p_u p), family := AF_INET, prefixlen := n mod 256\<rparr>)
     else (0, p\<lparr>p_u := a @ drop 4 (p_u p)\<rparr>))"
proof -
  have "nat (int n mod 256) = n mod 256" by (metis nat_int of_nat_numeral of_nat_mod)
  then show ?thesis using assms by (simp add: str2prefix_ipv4_def Let_def)
qed

section \<open>Printing and parsing\<close>

lemma dec_val_append_digit:
  "(\<And>c. c \<in> set cs \<Longrightarrow> CHR ''0'' \<le> c \<and> c \<le> CHR ''9'') \<Longrightarrow> d < 10 \<Longrightarrow>
   dec_val acc (cs @ [char_of (48 + d)]) = 10 * dec_val acc cs + int d"
proof (induction cs arbitrary: acc)
  case Nil
  then show ?case by (simp add: less_eq_char_def)
qed auto

lemma dec_str_digits: "c \<in> set (dec_str n) \<Longrightarrow> CHR ''0'' \<le> c \<and> c \<le> CHR ''9''"
proof (induction n rule: dec_str.induct)
  case (1 n)
  have last: "CHR ''0'' \<le> char_of (48 + n mod 10) \<and> char_of (48 + n mod 10) \<le> CHR ''9''"
    using pos_mod_bound [of 10 "int n"] by (simp add: less_eq_char_def)
  have "set (dec_str n) = (if n < 10 then {} else set (dec_str (n div 10))) \<union> {char_of (48 + n mod 10)}"
    by (subst dec_str.simps) simp
  then have "c = char_of (48 + n mod 10) \<or> \<not> n < 10 \<and> c \<in> set (dec_str (n div 10))"
    using 1(2) by (auto split: if_splits)
  then show ?case using 1(1) last by blast
qed

lemma dec_val_dec_str: "dec_val 0 (dec_str n) = int n"
proof (induction n rule: dec_str.induct)
  case (1 n)
  have "dec_val 0 (dec_str n) = 10 * dec_val 0 (if n < 10 then [] else dec_str (n div 10)) + int (n mod 10)"
    unfolding dec_str.simps [of n]
    by (rule dec_val_append_digit) (auto dest: dec_str_digits split: if_splits)
  also have "\<dots> = int n" using 1 by (auto simp: zdiv_int zmod_int)
  finally show ?case .
qed

lemma dec_str_nonempty: "dec_str n \<noteq> []"
  by (simp add: dec_str.simps [of n])

lemma atoi_dec_str: "atoi (dec_str n) = int n"
proof -
  obtain c cs where s: "dec_str n = c # cs" using dec_str_nonempty [of n] by (cases "dec_str n") auto
  then have c: "CHR ''0'' \<le> c" "c \<le> CHR ''9''" using dec_str_digits [of c n] by auto
  then have "c \<noteq> CHR ''-''" "c \<noteq> CHR ''+''" "\<not> isspace c"
    by (auto simp: isspace_def less_eq_char_def)
  then show ?thesis using s dec_val_dec_str [of n] by (simp add: atoi_def)
qed

lemma slash_notin_dec_str: "CHR ''/'' \<notin> set (dec_str n)"
  using dec_str_digits [of "CHR ''/''" n] by auto

lemma split_slash:
  assumes "CHR ''/'' \<notin> set s"
  shows "takeWhile (\<lambda>c. c \<noteq> CHR ''/'') (s @ CHR ''/'' # r) = s"
    "dropWhile (\<lambda>c. c \<noteq> CHR ''/'') (s @ CHR ''/'' # r) = CHR ''/'' # r"
  using assms by (auto simp: takeWhile_append dropWhile_append)

lemma length_dec_str: "n < 1000 \<Longrightarrow> length (dec_str n) \<le> 3"
  by (subst dec_str.simps, subst dec_str.simps, subst dec_str.simps) auto

lemma str2prefix_ipv4_print:
  assumes "inet_aton s = Some a" "CHR ''/'' \<notin> set s" "n \<le> 32"
  shows "str2prefix_ipv4 inet_aton (s @ ''/'' @ dec_str n) p =
    (1, p\<lparr>family := AF_INET, prefixlen := n, p_u := a @ drop 4 (p_u p)\<rparr>)"
  using assms by (simp add: str2prefix_ipv4_def split_slash atoi_dec_str)

lemma ip_masklen_le: "ip_masklen a \<le> 32"
proof -
  have "length (takeWhile P [0..<32]) \<le> length [0..<32]" for P :: "nat \<Rightarrow> bool" by (rule length_takeWhile_le)
  then show ?thesis by (simp add: ip_masklen_def clz32_def Let_def)
qed

lemma prefix2str_roundtrip4:
  assumes "wf_prefix p" "family p = AF_INET" "inet_ntop AF_INET (p_u p) = Some s"
    "inet_aton s = Some (take 4 (p_u p))" "CHR ''/'' \<notin> set s" "length s + 4 < sz"
  shows "\<exists>str q. prefix2str inet_ntop p sz = Some (str, True) \<and>
    str2prefix_ipv4 inet_aton str p0 = (1, q) \<and> family q = family p \<and> prefixlen q = prefixlen p \<and>
    take 4 (p_u q) = take 4 (p_u p)"
proof -
  have len: "prefixlen p \<le> 32" "length (p_u p) = 16" using assms(1,2) by (auto simp: wf_prefix_def family_bits_def)
  then have "length (s @ ''/'' @ dec_str (prefixlen p)) \<le> sz - 1"
    using length_dec_str [of "prefixlen p"] assms(6) by simp
  then have p2s: "prefix2str inet_ntop p sz = Some (s @ ''/'' @ dec_str (prefixlen p), True)"
    using assms(2,3) by (simp add: prefix2str_def)
  show ?thesis using p2s str2prefix_ipv4_print [of inet_aton s "take 4 (p_u p)" "prefixlen p" p0] assms(2,4,5) len by simp
qed

section \<open>Common bits\<close>

definition addr_bits :: "prefix_t \<Rightarrow> bool list" where
  "addr_bits p = map (bit_at (p_u p)) [0..<family_bits (family p)]"

lemma length_lcp:
  "k \<le> length a \<Longrightarrow> length a = length b \<Longrightarrow> (\<And>i. i < k \<Longrightarrow> a ! i = b ! i) \<Longrightarrow>
   (k < length a \<Longrightarrow> a ! k \<noteq> b ! k) \<Longrightarrow> length (longest_common_prefix a b) = k"
proof (induction a b arbitrary: k rule: longest_common_prefix.induct)
  case (1 x xs y ys)
  show ?case
  proof (cases k)
    case 0
    then show ?thesis using "1.prems"(4) by simp
  next
    case (Suc j)
    have "length (longest_common_prefix xs ys) = j"
    proof (rule "1.IH")
      show "x = y" using "1.prems"(3) [of 0] Suc by simp
      show "xs ! i = ys ! i" if "i < j" for i using "1.prems"(3) [of "Suc i"] that Suc by simp
    qed (use "1.prems"(1,2,4) Suc in auto)
    moreover have "x = y" using "1.prems"(3) [of 0] Suc by simp
    ultimately show ?thesis using Suc by simp
  qed
qed auto

lemma prefix_common_bits_spec:
  assumes "family p1 = family p2" "family p1 \<in> {AF_INET, AF_INET6}"
  shows "prefix_common_bits p1 p2 = int (length (longest_common_prefix (addr_bits p1) (addr_bits p2)))"
proof -
  define len :: nat where "len = (if family p1 = AF_INET6 then 16 else if family p1 = AF_INET then 4 else 0)"
  have fb: "family_bits (family p1) = 8 * len" "len \<noteq> 0"
    using assms(2) by (auto simp: family_bits_def len_def)
  define pos where "pos = common_octets (p_u p1) (p_u p2) len 0"
  define b where "b = first_set_bit (p_u p1 ! pos XOR p_u p2 ! pos) 0"
  define k where "k = (if pos = len then pos * 8 else pos * 8 + b)"
  have code: "prefix_common_bits p1 p2 = int k"
    using assms(1) fb(2) unfolding prefix_common_bits_def k_def b_def pos_def len_def by (auto simp: Let_def)
  have pos: "pos \<le> len" "\<And>j. j < pos \<Longrightarrow> p_u p1 ! j = p_u p2 ! j"
    "pos < len \<Longrightarrow> p_u p1 ! pos \<noteq> p_u p2 ! pos"
    using common_octets_spec [of 0 len "p_u p1" "p_u p2"] by (auto simp: pos_def)
  have b: "b \<le> 8" "\<And>j. j < b \<Longrightarrow> bit (p_u p1 ! pos) (7 - j) = bit (p_u p2 ! pos) (7 - j)"
    "b < 8 \<Longrightarrow> bit (p_u p1 ! pos) (7 - b) \<noteq> bit (p_u p2 ! pos) (7 - b)"
    using first_set_bit_spec [of 0 "p_u p1 ! pos XOR p_u p2 ! pos"] by (auto simp: b_def bit_simps)
  have b8: "b < 8" if "pos < len"
  proof (rule ccontr)
    assume "\<not> b < 8"
    then have "p_u p1 ! pos = p_u p2 ! pos" using b(2) by (auto simp: octet_eq_iff)
    then show False using pos(3) that by simp
  qed
  have octets: "bit_at (p_u p1) i = bit_at (p_u p2) i" if "i < 8 * pos" for i
    using pos(2) [of "i div 8"] that by (simp add: bit_at_def less_mult_imp_div_less mult.commute)
  have "length (longest_common_prefix (addr_bits p1) (addr_bits p2)) = k"
  proof (rule length_lcp)
    show "k \<le> length (addr_bits p1)" using pos(1) b8 fb by (auto simp: k_def addr_bits_def)
    show "length (addr_bits p1) = length (addr_bits p2)" using assms(1) by (simp add: addr_bits_def)
    have kl: "k \<le> 8 * len" using pos(1) b8 by (auto simp: k_def)
    show "addr_bits p1 ! i = addr_bits p2 ! i" if "i < k" for i
    proof (cases "i < 8 * pos")
      case True
      then show ?thesis using octets fb assms(1) that kl by (simp add: addr_bits_def)
    next
      case False
      define j where "j = i - 8 * pos"
      have "j < b" using that False by (auto simp: k_def j_def split: if_splits)
      moreover have "i = 8 * pos + j" using False by (simp add: j_def)
      ultimately have j: "i = 8 * pos + j" "j < b" by auto
      then show ?thesis using b(1,2) fb assms(1) that kl by (simp add: addr_bits_def)
    qed
    show "addr_bits p1 ! k \<noteq> addr_bits p2 ! k" if "k < length (addr_bits p1)"
    proof -
      have "pos < len" using that fb pos(1) by (auto simp: k_def addr_bits_def split: if_splits)
      then have "k = 8 * pos + b" "b < 8" using b8 by (auto simp: k_def)
      then show ?thesis using b(3) that fb assms(1) by (simp add: addr_bits_def)
    qed
  qed
  then show ?thesis using code by simp
qed

section \<open>Copying\<close>

lemma prefix_copy_any:
  assumes "wf_prefix pre" "length (p_u d) = 16"
  shows "\<exists>q. prefix_copy d pre = Some q \<and> wf_prefix q \<and> pbits q = pbits pre"
proof -
  have h: "bit_at (take k (p_u pre) @ drop k (p_u d)) i = bit_at (p_u pre) i"
    if "i < prefixlen pre" "prefixlen pre \<le> 8 * k" "k \<le> 16" for k i
    using that assms by (simp add: bit_at_def wf_prefix_def nth_append less_mult_imp_div_less)
  show ?thesis
    using assms h [of _ 4] h [of _ 6] h [of _ 8] h [of _ 16]
    by (auto simp: prefix_copy_def member_copy_def wf_prefix_def family_bits_def pbits_def Let_def)
qed

section \<open>Properties\<close>

text \<open>C23: \<^verbatim>\<open>prefix_match\<close> decides containment: the octet loop and the masked last octet accept
  exactly when the bit string of the first prefix is a prefix of the bit string of the second.\<close>

theorem prefix_match_containment: "prefix_match n p \<longleftrightarrow> prefix (pbits n) (pbits p)"
  by (rule prefix_match_iff)

text \<open>\<^verbatim>\<open>prefix_cmp\<close> returns 0 exactly for two prefixes of one family that stand for the same
  network, whatever their host bits are.\<close>

theorem prefix_cmp_equal_networks:
  "prefix_cmp p1 p2 = 0 \<longleftrightarrow> family p1 = family p2 \<and> pbits p1 = pbits p2"
  by (rule prefix_cmp_iff)

text \<open>\<^verbatim>\<open>prefix_common_bits\<close> counts the bits of the longest common prefix of two addresses of
  the same IP family.\<close>

theorem prefix_common_bits_lcp:
  assumes "family p1 = family p2" "family p1 \<in> {AF_INET, AF_INET6}"
  shows "prefix_common_bits p1 p2 = int (length (longest_common_prefix (addr_bits p1) (addr_bits p2)))"
  by (rule prefix_common_bits_spec [OF assms])

theorem prefix_common_bits_lcp_witness:
  "prefix_common_bits \<lparr>family = AF_INET, prefixlen = 24, p_u = [10, 1, 0x28, 0] @ replicate 12 0\<rparr>
     \<lparr>family = AF_INET, prefixlen = 24, p_u = [10, 1, 0x2c, 0] @ replicate 12 0\<rparr> =
   int (length (longest_common_prefix
     (addr_bits \<lparr>family = AF_INET, prefixlen = 24, p_u = [10, 1, 0x28, 0] @ replicate 12 0\<rparr>)
     (addr_bits \<lparr>family = AF_INET, prefixlen = 24, p_u = [10, 1, 0x2c, 0] @ replicate 12 0\<rparr>)))"
  by (rule prefix_common_bits_lcp) simp_all

text \<open>\<^verbatim>\<open>apply_mask\<close> returns for every well-formed prefix; it keeps the network, clears every host
  bit of an IP prefix, and applying it again changes nothing.\<close>

theorem apply_mask_network:
  assumes "wf_prefix p"
  shows "\<exists>q. apply_mask p = Some q \<and> wf_prefix q \<and> family q = family p \<and> pbits q = pbits p \<and>
    (family p \<in> {AF_INET, AF_INET6} \<longrightarrow>
      (\<forall>i. prefixlen p \<le> i \<and> i < family_bits (family p) \<longrightarrow> \<not> bit_at (p_u q) i)) \<and>
    apply_mask q = Some q"
  by (rule apply_mask_spec [OF assms])

theorem apply_mask_network_witness:
  "wf_prefix \<lparr>family = AF_INET, prefixlen = 20, p_u = [10, 1, 0x28, 7] @ replicate 12 0\<rparr> \<and>
   (\<exists>q. apply_mask \<lparr>family = AF_INET, prefixlen = 20, p_u = [10, 1, 0x28, 7] @ replicate 12 0\<rparr> = Some q \<and>
     apply_mask q = Some q)"
proof -
  have wf: "wf_prefix \<lparr>family = AF_INET, prefixlen = 20, p_u = [10, 1, 0x28, 7] @ replicate 12 0\<rparr>"
    by (simp add: wf_prefix_def family_bits_def)
  show ?thesis using wf apply_mask_network [OF wf] by blast
qed

text \<open>The netmask of every length up to 32 converts back to that length, and so does every IPv6
  netmask except the one of length 128, for which \<^verbatim>\<open>ip6_masklen\<close> reads past the address.\<close>

theorem masklen_roundtrip:
  "(n \<le> 32 \<longrightarrow> map_option ip_masklen (masklen2ip (int n)) = Some n) \<and>
   (n \<le> 128 \<longrightarrow> Option.bind (masklen2ip6 (int n)) ip6_masklen = (if n = 128 then None else Some n))"
proof (intro conjI impI)
  show "map_option ip_masklen (masklen2ip (int n)) = Some n" if "n \<le> 32" using that by (rule masklen_roundtrip4)
  have "Option.bind (masklen2ip6 (int 128)) ip6_masklen = None" by code_simp
  moreover have "Option.bind (masklen2ip6 (int n)) ip6_masklen = Some n" if "n < 128"
    using masklen_roundtrip6_table that by (simp add: list_all_iff)
  ultimately show "Option.bind (masklen2ip6 (int n)) ip6_masklen = (if n = 128 then None else Some n)" if "n \<le> 128"
    using that by (cases "n = 128") auto
qed

theorem masklen_roundtrip_witness:
  "map_option ip_masklen (masklen2ip (int 20)) = Some 20 \<and>
   Option.bind (masklen2ip6 (int 20)) ip6_masklen = Some 20"
  using masklen_roundtrip [of 20] by simp

text \<open>C24: printing an IPv4 prefix with \<^verbatim>\<open>prefix2str\<close> into a large enough buffer and parsing the result
  with \<^verbatim>\<open>str2prefix_ipv4\<close> gives the prefix back, when the C library's \<^verbatim>\<open>inet_aton\<close> reads the dotted
  form its \<^verbatim>\<open>inet_ntop\<close> writes.\<close>

theorem prefix2str_str2prefix:
  assumes "wf_prefix p" "family p = AF_INET" "inet_ntop AF_INET (p_u p) = Some s"
    "inet_aton s = Some (take 4 (p_u p))" "CHR ''/'' \<notin> set s" "length s + 4 < sz"
  shows "\<exists>str q. prefix2str inet_ntop p sz = Some (str, True) \<and>
    str2prefix_ipv4 inet_aton str p0 = (1, q) \<and> family q = family p \<and> prefixlen q = prefixlen p \<and>
    take 4 (p_u q) = take 4 (p_u p)"
  using assms by (rule prefix2str_roundtrip4)

theorem prefix2str_str2prefix_witness:
  "\<exists>str q. prefix2str (\<lambda>f us. Some ''10.1.0.0'') \<lparr>family = AF_INET, prefixlen = 16, p_u = [10, 1] @ replicate 14 0\<rparr> 20 =
      Some (str, True) \<and>
    str2prefix_ipv4 (\<lambda>s. if s = ''10.1.0.0'' then Some [10, 1, 0, 0] else None) str prefix_new = (1, q) \<and>
    prefixlen q = 16"
  using prefix2str_str2prefix [of "\<lparr>family = AF_INET, prefixlen = 16, p_u = [10, 1] @ replicate 14 0\<rparr>"
      "\<lambda>f us. Some ''10.1.0.0''" "''10.1.0.0''"
      "\<lambda>s. if s = ''10.1.0.0'' then Some [10, 1, 0, 0] else None" 20 prefix_new]
  by (auto simp: wf_prefix_def family_bits_def numeral_eq_Suc)

text \<open>The length check of \<^verbatim>\<open>str2prefix_ipv4\<close> is made after the number was cut to an octet: with an
  address it can read, the function accepts any length whose remainder modulo 256 is at most 32
  and takes the remainder for the length.\<close>

theorem str2prefix_ipv4_length_octet:
  assumes "inet_aton (takeWhile (\<lambda>c. c \<noteq> CHR ''/'') str) = Some a" "CHR ''/'' \<in> set str"
    "atoi (tl (dropWhile (\<lambda>c. c \<noteq> CHR ''/'') str)) = int n"
  shows "str2prefix_ipv4 inet_aton str p =
    (if n mod 256 \<le> 32
     then (1, p\<lparr>p_u := a @ drop 4 (p_u p), family := AF_INET, prefixlen := n mod 256\<rparr>)
     else (0, p\<lparr>p_u := a @ drop 4 (p_u p)\<rparr>))"
  using assms by (rule str2prefix_ipv4_length)

theorem str2prefix_ipv4_length_octet_witness:
  "str2prefix_ipv4 (\<lambda>s. Some [10, 0, 0, 0]) ''10.0.0.0/264'' prefix_new =
    (1, prefix_new\<lparr>p_u := [10, 0, 0, 0] @ replicate 12 0, family := AF_INET, prefixlen := 8\<rparr>)"
  using str2prefix_ipv4_length_octet [of "\<lambda>s. Some [10, 0, 0, 0]" "''10.0.0.0/264''" "[10, 0, 0, 0]" 264 prefix_new]
  by (simp add: atoi_def isspace_def less_eq_char_def prefix_new_def)

text \<open>\<^verbatim>\<open>ipv4_martian\<close> looks at one octet only, the first one on a big-endian host and the last one
  on a little-endian host.\<close>

theorem ipv4_martian_host_order:
  "ipv4_martian le [a, b, c, d] \<longleftrightarrow> (let x = (if le then d else a) in x = 0 \<or> x = 127 \<or> 224 \<le> x)"
  by (rule ipv4_martian_octet)

end
