(* ===== verification/Route_Table.thy ===== *)
theory Route_Table
  imports Prefix
begin

text \<open>
  \<^verbatim>\<open>lib/table.h\<close>, \<^verbatim>\<open>lib/table.c\<close>: the radix tree that holds every RIB, BGP table and policy
  table of the suite. The tree is modelled as the code has it, as nodes in memory linked by
  \<^verbatim>\<open>parent\<close> and \<^verbatim>\<open>link[2]\<close> pointers: addresses are numbers, \<open>rt_mem\<close> maps the allocated ones to
  their node, and \<open>rt_brk\<close> is the next address the allocator hands out. An operation returns
  \<open>None\<close> when the code would fail: a failed \<^verbatim>\<open>assert\<close>, a dereference of an address that is not
  allocated, or a loop that does not end.
\<close>

section \<open>Nodes and tables\<close>

text \<open>
  The fields \<^verbatim>\<open>table\<close> (there is one table here) and \<^verbatim>\<open>aggregate\<close> (no function of
  \<^verbatim>\<open>table.c\<close> touches it) are left out; \<^verbatim>\<open>info\<close> is \<open>None\<close> for the null pointer.
\<close>

record 'i route_node =
  rn_p :: prefix_t
  rn_parent :: "nat option"
  rn_left :: "nat option"
  rn_right :: "nat option"
  rn_lock :: nat
  rn_info :: "'i option"

record 'i route_table =
  rt_top :: "nat option"
  rt_count :: nat
  rt_mem :: "nat \<rightharpoonup> 'i route_node"
  rt_brk :: nat

definition link :: "'i route_node \<Rightarrow> nat \<Rightarrow> nat option" where
  "link nd b = (if b = 0 then rn_left nd else rn_right nd)"

definition link_upd :: "nat \<Rightarrow> nat option \<Rightarrow> 'i route_node \<Rightarrow> 'i route_node" where
  "link_upd b c nd = (if b = 0 then nd\<lparr>rn_left := c\<rparr> else nd\<lparr>rn_right := c\<rparr>)"

text \<open>Writing through a pointer: \<open>None\<close> when nothing is allocated there.\<close>

definition node_upd :: "nat \<Rightarrow> ('i route_node \<Rightarrow> 'i route_node) \<Rightarrow> 'i route_table \<Rightarrow> 'i route_table option" where
  "node_upd a f t =
     (case rt_mem t a of None \<Rightarrow> None | Some nd \<Rightarrow> Some (t\<lparr>rt_mem := (rt_mem t)(a \<mapsto> f nd)\<rparr>))"

definition route_table_init :: "'i route_table" where
  "route_table_init = \<lparr>rt_top = None, rt_count = 0, rt_mem = Map.empty, rt_brk = 0\<rparr>"

section \<open>Allocation\<close>

text \<open>\<^verbatim>\<open>route_node_create\<close> is a zeroed allocation, \<^verbatim>\<open>route_node_destroy\<close> frees it.\<close>

definition route_node_new :: "'i route_table \<Rightarrow> nat \<times> 'i route_table" where
  "route_node_new t =
     (rt_brk t,
      t\<lparr>rt_mem := (rt_mem t)(rt_brk t \<mapsto> \<lparr>rn_p = prefix_new, rn_parent = None, rn_left = None, rn_right = None,
                                rn_lock = 0, rn_info = None\<rparr>),
        rt_brk := Suc (rt_brk t)\<rparr>)"

definition route_node_set :: "'i route_table \<Rightarrow> prefix_t \<Rightarrow> (nat \<times> 'i route_table) option" where
  "route_node_set t pre =
     (let (node, t1) = route_node_new t
      in case prefix_copy prefix_new pre of
           None \<Rightarrow> None
         | Some q \<Rightarrow> map_option (Pair node) (node_upd node (\<lambda>nd. nd\<lparr>rn_p := q\<rparr>) t1))"

definition route_node_free :: "nat \<Rightarrow> 'i route_table \<Rightarrow> 'i route_table" where
  "route_node_free node t = t\<lparr>rt_mem := (rt_mem t)(node := None)\<rparr>"

section \<open>Common prefix\<close>

text \<open>
  The two loops of \<^verbatim>\<open>route_common\<close>: copying equal octets, then extending bit by bit.
  \<^verbatim>\<open>mask >>= 1\<close> with \<^verbatim>\<open>new->prefixlen++\<close> stops at the first differing bit or at the length of \<open>p\<close>.
\<close>

function route_common_octets :: "u8 list \<Rightarrow> u8 list \<Rightarrow> nat \<Rightarrow> nat \<Rightarrow> u8 list \<Rightarrow> nat \<times> u8 list" where
  "route_common_octets np pp n i newp =
     (if i < n then
        if np ! i = pp ! i then route_common_octets np pp n (i + 1) (newp[i := np ! i])
        else (i, newp)
      else (i, newp))"
  by pat_completeness auto
termination
  by (relation "measure (\<lambda>(np, pp, n, i, newp). n - i)") auto

function route_common_bits :: "u8 \<Rightarrow> nat \<Rightarrow> u8 \<Rightarrow> nat \<Rightarrow> nat" where
  "route_common_bits diff plen msk len =
     (if len < plen \<and> msk AND diff = 0 then route_common_bits diff plen (drop_bit 1 msk) (len + 1)
      else len)"
  by pat_completeness auto
termination
  by (relation "measure (\<lambda>(diff, plen, msk, len). plen - len)") auto

declare route_common_octets.simps [simp del] route_common_bits.simps [simp del]

definition route_common :: "prefix_t \<Rightarrow> prefix_t \<Rightarrow> prefix_t \<Rightarrow> prefix_t" where
  "route_common n pre new =
     (let np = p_u n; pp = p_u pre;
          (i, newp) = route_common_octets np pp (prefixlen pre div 8) 0 (p_u new)
      in if i * 8 \<noteq> prefixlen pre then
           let len = route_common_bits (np ! i XOR pp ! i) (prefixlen pre) 0x80 (i * 8)
           in new\<lparr>prefixlen := len, p_u := newp[i := np ! i AND maskbit ! (len mod 8)]\<rparr>
         else new\<lparr>prefixlen := i * 8, p_u := newp\<rparr>)"

section \<open>Links and locks\<close>

definition set_link :: "nat \<Rightarrow> nat \<Rightarrow> 'i route_table \<Rightarrow> 'i route_table option" where
  "set_link node new t =
     (case (rt_mem t node, rt_mem t new) of
        (Some nd, Some nw) \<Rightarrow>
          (let b = prefix_bit (p_u (rn_p nw)) (prefixlen (rn_p nd))
           in Option.bind (node_upd node (link_upd b (Some new)) t)
                (node_upd new (\<lambda>x. x\<lparr>rn_parent := Some node\<rparr>)))
      | _ \<Rightarrow> None)"

definition route_lock_node :: "nat \<Rightarrow> 'i route_table \<Rightarrow> 'i route_table option" where
  "route_lock_node node t = node_upd node (\<lambda>nd. nd\<lparr>rn_lock := rn_lock nd + 1\<rparr>) t"

section \<open>Deletion\<close>

text \<open>
  \<^verbatim>\<open>route_node_delete\<close> with its two assertions; it recurses to a parent left unlocked.
\<close>

partial_function (option) route_node_delete :: "nat \<Rightarrow> 'i route_table \<Rightarrow> 'i route_table option" where
  "route_node_delete node t =
     (case rt_mem t node of
        None \<Rightarrow> None
      | Some nd \<Rightarrow>
          if rn_lock nd \<noteq> 0 \<or> rn_info nd \<noteq> None then None
          else if rn_left nd \<noteq> None \<and> rn_right nd \<noteq> None then Some t
          else
            let child = (if rn_left nd \<noteq> None then rn_left nd else rn_right nd) in
            Option.bind
              (case child of
                 None \<Rightarrow> Some t
               | Some c \<Rightarrow> node_upd c (\<lambda>x. x\<lparr>rn_parent := rn_parent nd\<rparr>) t) (\<lambda>t1.
            Option.bind
              (case rn_parent nd of
                 None \<Rightarrow> Some (t1\<lparr>rt_top := child\<rparr>)
               | Some q \<Rightarrow>
                   node_upd q (\<lambda>x. if rn_left x = Some node then x\<lparr>rn_left := child\<rparr>
                                   else x\<lparr>rn_right := child\<rparr>) t1) (\<lambda>t2.
            let t3 = route_node_free node (t2\<lparr>rt_count := rt_count t2 - 1\<rparr>) in
            case rn_parent nd of
              None \<Rightarrow> Some t3
            | Some q \<Rightarrow>
                (case rt_mem t3 q of
                   None \<Rightarrow> None
                 | Some qd \<Rightarrow> if rn_lock qd = 0 then route_node_delete q t3 else Some t3))))"

definition route_unlock_node :: "nat \<Rightarrow> 'i route_table \<Rightarrow> 'i route_table option" where
  "route_unlock_node node t =
     (case rt_mem t node of
        None \<Rightarrow> None
      | Some nd \<Rightarrow>
          if rn_lock nd = 0 then None
          else
            Option.bind (node_upd node (\<lambda>x. x\<lparr>rn_lock := rn_lock x - 1\<rparr>) t) (\<lambda>t1.
            if rn_lock nd - 1 = 0 then route_node_delete node t1 else Some t1))"

section \<open>Search\<close>

text \<open>The walks down the tree of \<^verbatim>\<open>route_node_match\<close>, \<^verbatim>\<open>route_node_lookup\<close> and \<^verbatim>\<open>route_node_get\<close>.\<close>

partial_function (option) match_loop ::
    "(nat \<rightharpoonup> 'i route_node) \<Rightarrow> prefix_t \<Rightarrow> nat option \<Rightarrow> nat option \<Rightarrow> nat option option" where
  "match_loop m pre node matched =
     (case node of
        None \<Rightarrow> Some matched
      | Some a \<Rightarrow>
          (case m a of
             None \<Rightarrow> None
           | Some nd \<Rightarrow>
               if prefixlen (rn_p nd) \<le> prefixlen pre \<and> prefix_match (rn_p nd) pre then
                 let matched' = (if rn_info nd \<noteq> None then Some a else matched) in
                 if prefixlen (rn_p nd) = prefixlen pre then Some matched'
                 else match_loop m pre (link nd (prefix_bit (p_u pre) (prefixlen (rn_p nd)))) matched'
               else Some matched))"

definition route_node_match :: "'i route_table \<Rightarrow> prefix_t \<Rightarrow> (nat option \<times> 'i route_table) option" where
  "route_node_match t pre =
     (case match_loop (rt_mem t) pre (rt_top t) None of
        None \<Rightarrow> None
      | Some None \<Rightarrow> Some (None, t)
      | Some (Some a) \<Rightarrow> map_option (Pair (Some a)) (route_lock_node a t))"

definition route_node_match_ipv4 :: "'i route_table \<Rightarrow> in_addr \<Rightarrow> (nat option \<times> 'i route_table) option" where
  "route_node_match_ipv4 t addr =
     route_node_match t (prefix_new\<lparr>family := AF_INET, prefixlen := IPV4_MAX_BITLEN,
                                    p_u := addr @ replicate 12 0\<rparr>)"

definition route_node_match_ipv6 :: "'i route_table \<Rightarrow> u8 list \<Rightarrow> (nat option \<times> 'i route_table) option" where
  "route_node_match_ipv6 t addr =
     route_node_match t (prefix_new\<lparr>family := AF_INET6, prefixlen := IPV6_MAX_BITLEN, p_u := addr\<rparr>)"

partial_function (option) lookup_loop ::
    "(nat \<rightharpoonup> 'i route_node) \<Rightarrow> prefix_t \<Rightarrow> nat option \<Rightarrow> nat option option" where
  "lookup_loop m pre node =
     (case node of
        None \<Rightarrow> Some None
      | Some a \<Rightarrow>
          (case m a of
             None \<Rightarrow> None
           | Some nd \<Rightarrow>
               if prefixlen (rn_p nd) \<le> prefixlen pre \<and> prefix_match (rn_p nd) pre then
                 if prefixlen (rn_p nd) = prefixlen pre
                 then Some (if rn_info nd \<noteq> None then Some a else None)
                 else lookup_loop m pre (link nd (prefix_bit (p_u pre) (prefixlen (rn_p nd))))
               else Some None))"

definition route_node_lookup :: "'i route_table \<Rightarrow> prefix_t \<Rightarrow> (nat option \<times> 'i route_table) option" where
  "route_node_lookup t pre =
     (case lookup_loop (rt_mem t) pre (rt_top t) of
        None \<Rightarrow> None
      | Some None \<Rightarrow> Some (None, t)
      | Some (Some a) \<Rightarrow> map_option (Pair (Some a)) (route_lock_node a t))"

section \<open>Insertion\<close>

text \<open>How the walk of \<^verbatim>\<open>route_node_get\<close> ends: at a node with the prefix itself, or below
  \<open>match\<close> at the place \<open>node\<close> where the new node goes.\<close>

datatype get_walk = Found nat | Missing (get_match: "nat option") (get_node: "nat option")

partial_function (option) get_loop ::
    "(nat \<rightharpoonup> 'i route_node) \<Rightarrow> prefix_t \<Rightarrow> nat option \<Rightarrow> nat option \<Rightarrow> get_walk option" where
  "get_loop m pre mtch node =
     (case node of
        None \<Rightarrow> Some (Missing mtch None)
      | Some a \<Rightarrow>
          (case m a of
             None \<Rightarrow> None
           | Some nd \<Rightarrow>
               if prefixlen (rn_p nd) \<le> prefixlen pre \<and> prefix_match (rn_p nd) pre then
                 if prefixlen (rn_p nd) = prefixlen pre then Some (Found a)
                 else get_loop m pre (Some a) (link nd (prefix_bit (p_u pre) (prefixlen (rn_p nd))))
               else Some (Missing mtch (Some a))))"

text \<open>\<^verbatim>\<open>if (match) set_link (match, new); else table->top = new;\<close>\<close>

definition attach :: "nat option \<Rightarrow> nat \<Rightarrow> 'i route_table \<Rightarrow> 'i route_table option" where
  "attach mtch new t =
     (case mtch of Some q \<Rightarrow> set_link q new t | None \<Rightarrow> Some (t\<lparr>rt_top := Some new\<rparr>))"

definition route_node_get :: "'i route_table \<Rightarrow> prefix_t \<Rightarrow> (nat \<times> 'i route_table) option" where
  "route_node_get t pre =
     Option.bind (get_loop (rt_mem t) pre None (rt_top t)) (\<lambda>w. case w of
       Found a \<Rightarrow> map_option (Pair a) (route_lock_node a t)
     | Missing mtch None \<Rightarrow>
         Option.bind (route_node_set t pre) (\<lambda>(new, t1).
         Option.bind (attach mtch new t1) (\<lambda>t2.
         map_option (Pair new) (route_lock_node new (t2\<lparr>rt_count := rt_count t2 + 1\<rparr>))))
     | Missing mtch (Some node) \<Rightarrow>
         (let (new, t1) = route_node_new t in
          case rt_mem t node of
            None \<Rightarrow> None
          | Some nd \<Rightarrow>
              Option.bind (node_upd new (\<lambda>x. x\<lparr>rn_p := (route_common (rn_p nd) pre (rn_p x))\<lparr>family := family pre\<rparr>\<rparr>) t1) (\<lambda>t2.
              Option.bind (set_link new node t2) (\<lambda>t3.
              Option.bind (attach mtch new t3) (\<lambda>t4.
              case rt_mem t4 new of
                None \<Rightarrow> None
              | Some nw \<Rightarrow>
                  if prefixlen (rn_p nw) \<noteq> prefixlen pre then
                    Option.bind (route_node_set t4 pre) (\<lambda>(new', t5).
                    Option.bind (set_link new new' t5) (\<lambda>t6.
                    map_option (Pair new') (route_lock_node new' (t6\<lparr>rt_count := rt_count t6 + 1 + 1\<rparr>))))
                  else map_option (Pair new) (route_lock_node new (t4\<lparr>rt_count := rt_count t4 + 1\<rparr>)))))))"

end
