(* ===== verification/Radix_Tree.thy ===== *)
theory Radix_Tree
  imports Route_Table
begin

text \<open>
  Correctness of the searches of \<^verbatim>\<open>lib/table.c\<close>.  The representation invariant
  \<^verbatim>\<open>tree_inv\<close> is local: each link leads to an allocated node whose parent pointer
  leads back and whose key extends the key of its parent by the bit of the link.
  The ancestor relation of the pointer structure then is the prefix order of the keys,
  which gives longest prefix match and exact lookup.
\<close>

section \<open>The tree invariant and the order of keys\<close>

abbreviation key :: "'i route_node \<Rightarrow> bool list" where
  "key nd \<equiv> pbits (rn_p nd)"

definition lk :: "'i route_node \<Rightarrow> bool \<Rightarrow> nat option" where
  "lk nd b = (if b then rn_right nd else rn_left nd)"

lemma link_prefix_bit [simp]: "link nd (prefix_bit us i) = lk nd (bit_at us i)"
  by (simp add: link_def lk_def prefix_bit_eq)

definition tree_inv :: "nat option \<Rightarrow> (nat \<rightharpoonup> 'i route_node) \<Rightarrow> bool" where
  "tree_inv tp m \<longleftrightarrow>
     (\<forall>a. tp = Some a \<longrightarrow> (\<exists>nd. m a = Some nd \<and> rn_parent nd = None)) \<and>
     (\<forall>a nd. m a = Some nd \<longrightarrow> wf_prefix (rn_p nd)) \<and>
     (\<forall>a nd b c. m a = Some nd \<longrightarrow> lk nd b = Some c \<longrightarrow>
        (\<exists>cd. m c = Some cd \<and> rn_parent cd = Some a \<and> prefix (key nd @ [b]) (key cd))) \<and>
     (\<forall>c cd. m c = Some cd \<longrightarrow>
        (case rn_parent cd of
           None \<Rightarrow> tp = Some c
         | Some a \<Rightarrow> \<exists>nd b. m a = Some nd \<and> lk nd b = Some c))"

lemma tree_inv_top: "tree_inv (Some a) m \<Longrightarrow> \<exists>nd. m a = Some nd \<and> rn_parent nd = None"
  by (simp add: tree_inv_def)

lemma tree_inv_wf: "tree_inv tp m \<Longrightarrow> m a = Some nd \<Longrightarrow> wf_prefix (rn_p nd)"
  by (simp add: tree_inv_def)

lemma tree_inv_child:
  assumes "tree_inv tp m" "m a = Some nd" "lk nd b = Some c"
  obtains cd where "m c = Some cd" "rn_parent cd = Some a" "prefix (key nd @ [b]) (key cd)"
  using assms unfolding tree_inv_def by blast

lemma tree_inv_parent:
  assumes "tree_inv tp m" "m c = Some cd" "rn_parent cd = Some a"
  obtains nd b where "m a = Some nd" "lk nd b = Some c" "prefix (key nd @ [b]) (key cd)"
proof -
  have "case rn_parent cd of None \<Rightarrow> tp = Some c
      | Some a \<Rightarrow> \<exists>nd b. m a = Some nd \<and> lk nd b = Some c"
    using assms(1,2) unfolding tree_inv_def by blast
  with assms(3) obtain nd b where "m a = Some nd" "lk nd b = Some c" by auto
  moreover from tree_inv_child [OF assms(1) this] assms(2) have "prefix (key nd @ [b]) (key cd)"
    by (metis option.inject)
  ultimately show thesis by (rule that)
qed

lemma tree_inv_root: "tree_inv tp m \<Longrightarrow> m c = Some cd \<Longrightarrow> rn_parent cd = None \<Longrightarrow> tp = Some c"
  unfolding tree_inv_def by (drule conjunct2)+ (force split: option.splits)

inductive anc :: "(nat \<rightharpoonup> 'i route_node) \<Rightarrow> nat \<Rightarrow> nat \<Rightarrow> bool" for m where
  anc_refl: "m a = Some nd \<Longrightarrow> anc m a a"
| anc_step: "anc m a q \<Longrightarrow> m c = Some cd \<Longrightarrow> rn_parent cd = Some q \<Longrightarrow> anc m a c"

lemma anc_dom: "anc m a c \<Longrightarrow> (\<exists>ad. m a = Some ad) \<and> (\<exists>cd. m c = Some cd)"
  by (induction rule: anc.induct) auto

lemma anc_trans: "anc m b c \<Longrightarrow> anc m a b \<Longrightarrow> anc m a c"
  by (induction rule: anc.induct) (auto intro: anc_step)

lemma anc_child:
  "tree_inv tp m \<Longrightarrow> m a = Some nd \<Longrightarrow> lk nd b = Some c \<Longrightarrow> anc m a c"
  by (metis anc_refl anc_step tree_inv_child)

lemma snoc_prefix_unique: "prefix (xs @ [b]) zs \<Longrightarrow> prefix (xs @ [b']) zs \<Longrightarrow> b = b'"
  by (auto simp: prefix_def)

lemma strict_of_snoc: "prefix (xs @ [b]) ys \<Longrightarrow> strict_prefix xs ys"
  by (auto simp: prefix_def strict_prefix_def)

text \<open>A proper descendant lies in the subtree of the child its next bit selects.\<close>

lemma anc_first:
  assumes "tree_inv tp m" "anc m a c" "m a = Some ad" "m c = Some cd" "a \<noteq> c"
  shows "\<exists>b y. lk ad b = Some y \<and> anc m y c \<and> prefix (key ad @ [b]) (key cd)"
  using assms(2-5)
proof (induction arbitrary: cd rule: anc.induct)
  case (anc_refl a nd)
  then show ?case by simp
next
  case (anc_step a q c cd')
  from tree_inv_parent [OF assms(1) anc_step.hyps(2,3)] obtain qd bq where
    q: "m q = Some qd" "lk qd bq = Some c" "prefix (key qd @ [bq]) (key cd')" .
  have cd: "cd' = cd" using anc_step by simp
  show ?case
  proof (cases "a = q")
    case True
    then show ?thesis using q anc_step cd by (metis anc.anc_refl option.inject)
  next
    case False
    from anc_step.IH [OF anc_step.prems(1) q(1) False] obtain b y where
      "lk ad b = Some y" "anc m y q" "prefix (key ad @ [b]) (key qd)" by blast
    moreover have "prefix (key qd) (key cd)" using q(3) cd by (meson append_prefixD)
    ultimately show ?thesis
      using anc_step.hyps by (metis anc.anc_step prefix_order.trans)
  qed
qed

lemma anc_prefix:
  "tree_inv tp m \<Longrightarrow> anc m a c \<Longrightarrow> m a = Some ad \<Longrightarrow> m c = Some cd \<Longrightarrow> prefix (key ad) (key cd)"
  by (cases "a = c") (auto dest!: anc_first dest: append_prefixD)

lemma anc_length:
  "tree_inv tp m \<Longrightarrow> anc m a c \<Longrightarrow> m a = Some ad \<Longrightarrow> m c = Some cd \<Longrightarrow> a \<noteq> c \<Longrightarrow>
   length (key ad) < length (key cd)"
  using anc_first [of tp m a c ad cd] by (auto dest!: prefix_length_le)

lemma anc_top:
  assumes "tree_inv tp m" "m c = Some cd"
  shows "\<exists>r. tp = Some r \<and> anc m r c"
  using assms(2)
proof (induction "length (key cd)" arbitrary: c cd rule: less_induct)
  case less
  show ?case
  proof (cases "rn_parent cd")
    case None
    then show ?thesis using tree_inv_root [OF assms(1) less.prems] less.prems anc_refl by metis
  next
    case (Some q)
    from tree_inv_parent [OF assms(1) less.prems Some] obtain qd b where
      q: "m q = Some qd" "prefix (key qd @ [b]) (key cd)" by metis
    then have "length (key qd) < length (key cd)" by (auto dest: prefix_length_le)
    from less.hyps [OF this q(1)] show ?thesis using less.prems Some anc_step by metis
  qed
qed

text \<open>The key order is the tree order: a node whose key is a prefix of another's is above it.\<close>

lemma anc_of_prefix_from:
  assumes inv: "tree_inv tp m" and ad: "m a = Some ad" and cd: "m c = Some cd"
    and pre: "prefix (key ad) (key cd)"
  shows "anc m x a \<Longrightarrow> anc m x c \<Longrightarrow> m x = Some xd \<Longrightarrow> anc m a c"
proof (induction "length (key ad) - length (key xd)" arbitrary: x xd rule: less_induct)
  case less
  show ?case
  proof (cases "x = a")
    case True
    with less show ?thesis by simp
  next
    case False
    from anc_first [OF inv less.prems(1,3) ad False] obtain b y where
      y: "lk xd b = Some y" "anc m y a" "prefix (key xd @ [b]) (key ad)" by blast
    have lt: "length (key xd) < length (key ad)" using y(3) by (auto dest: prefix_length_le)
    then have "x \<noteq> c" using pre cd less.prems(3) by (auto dest: prefix_length_le)
    from anc_first [OF inv less.prems(2,3) cd this] obtain b' y' where
      y': "lk xd b' = Some y'" "anc m y' c" "prefix (key xd @ [b']) (key cd)" by blast
    have "prefix (key xd @ [b]) (key cd)" using y(3) pre by (rule prefix_order.trans)
    from this y'(3) have "b = b'"
      by (rule snoc_prefix_unique)
    with y y' have "anc m y c" by simp
    moreover from tree_inv_child [OF inv less.prems(3) y(1)] obtain yd where
      yd: "m y = Some yd" "prefix (key xd @ [b]) (key yd)" by metis
    moreover have "length (key ad) - length (key yd) < length (key ad) - length (key xd)"
      using yd(2) lt by (auto dest!: prefix_length_le)
    ultimately show ?thesis using less.hyps y(2) by blast
  qed
qed

lemma anc_iff_prefix:
  assumes "tree_inv tp m" "m a = Some ad" "m c = Some cd"
  shows "anc m a c \<longleftrightarrow> prefix (key ad) (key cd)"
proof
  assume pre: "prefix (key ad) (key cd)"
  obtain r where r: "tp = Some r" "anc m r a" "anc m r c"
    using anc_top [OF assms(1,2)] anc_top [OF assms(1,3)] by auto
  then obtain rd where "m r = Some rd" by (auto dest: anc_dom)
  with r pre assms show "anc m a c" by (metis anc_of_prefix_from)
qed (use assms in \<open>metis anc_prefix\<close>)

lemma key_inj:
  assumes "tree_inv tp m" "m a = Some ad" "m c = Some cd" "key ad = key cd"
  shows "a = c"
  using assms anc_iff_prefix [OF assms(1-3)] anc_length [OF assms(1) _ assms(2,3)] by auto

lemma descend:
  assumes "tree_inv tp m" "m a = Some ad" "m c = Some cd" "prefix (key ad @ [b]) (key cd)"
  shows "\<exists>y yd. lk ad b = Some y \<and> m y = Some yd \<and> prefix (key yd) (key cd)"
proof -
  have "anc m a c" using assms anc_iff_prefix [OF assms(1-3)] by (metis append_prefixD)
  moreover have "a \<noteq> c" using assms by (auto dest: prefix_length_le)
  ultimately obtain b' y where y: "lk ad b' = Some y" "anc m y c" "prefix (key ad @ [b']) (key cd)"
    using anc_first [OF assms(1) _ assms(2,3)] by blast
  from assms(4) this(3) have "b = b'"
    by (rule snoc_prefix_unique)
  with y show ?thesis using anc_dom [OF y(2)] anc_prefix [OF assms(1) y(2)] assms(3) by blast
qed

section \<open>The walk of longest prefix match\<close>

text \<open>The nodes below \<open>a\<close> that cover a bit string: the walk meets exactly these.\<close>

definition covers :: "(nat \<rightharpoonup> 'i route_node) \<Rightarrow> nat \<Rightarrow> bool list \<Rightarrow> nat \<Rightarrow> bool" where
  "covers m a ks x \<longleftrightarrow> anc m a x \<and> (\<exists>xd. m x = Some xd \<and> prefix (key xd) ks)"

lemma covers_above:
  assumes "tree_inv tp m" "m a = Some ad" "covers m a ks x"
  shows "prefix (key ad) ks"
  using assms anc_prefix unfolding covers_def by (metis prefix_order.trans)

lemma covers_self: "m a = Some ad \<Longrightarrow> covers m a ks a \<longleftrightarrow> prefix (key ad) ks"
  by (auto simp: covers_def intro: anc_refl)

lemma covers_end:
  assumes "tree_inv tp m" "m a = Some ad" "length (key ad) = length ks" "covers m a ks x"
  shows "x = a"
proof (rule ccontr)
  assume "x \<noteq> a"
  from assms(4) obtain xd where "anc m a x" "m x = Some xd" "prefix (key xd) ks"
    by (auto simp: covers_def)
  with anc_length [OF assms(1) _ assms(2)] \<open>x \<noteq> a\<close> show False
    using assms(3) by (fastforce dest: prefix_length_le)
qed

lemma covers_step:
  assumes "tree_inv tp m" "m a = Some ad" "prefix (key ad) ks" "length (key ad) < length ks"
  shows "covers m a ks x \<longleftrightarrow>
    x = a \<or> (\<exists>y. lk ad (ks ! length (key ad)) = Some y \<and> covers m y ks x)"
proof
  assume h: "covers m a ks x"
  show "x = a \<or> (\<exists>y. lk ad (ks ! length (key ad)) = Some y \<and> covers m y ks x)"
  proof (cases "x = a")
    case False
    from h obtain xd where x: "anc m a x" "m x = Some xd" "prefix (key xd) ks"
      by (auto simp: covers_def)
    from anc_first [OF assms(1) x(1) assms(2) x(2)] False obtain b y where
      y: "lk ad b = Some y" "anc m y x" "prefix (key ad @ [b]) (key xd)" by blast
    have "prefix (key ad @ [b]) ks" using y(3) x(3) by (rule prefix_order.trans)
    then have "b = ks ! length (key ad)" by (auto simp: prefix_def simp del: length_pbits)
    then show ?thesis using x y by (auto simp: covers_def)
  qed simp
next
  assume "x = a \<or> (\<exists>y. lk ad (ks ! length (key ad)) = Some y \<and> covers m y ks x)"
  then show "covers m a ks x"
    using assms by (auto simp: covers_def intro: anc_refl anc_trans dest: anc_child)
qed

lemma match_test:
  "(prefixlen (rn_p nd) \<le> prefixlen pre \<and> prefix_match (rn_p nd) pre) \<longleftrightarrow> prefix (key nd) (pbits pre)"
  by (auto simp: prefix_match_iff dest: prefix_length_le)

lemma nth_pbits_walk:
  "prefix (key nd) (pbits pre) \<Longrightarrow> prefixlen (rn_p nd) \<noteq> prefixlen pre \<Longrightarrow>
   bit_at (p_u pre) (prefixlen (rn_p nd)) = pbits pre ! length (key nd) \<and> length (key nd) < length (pbits pre)"
  by (auto dest!: prefix_length_le simp: nth_pbits)

text \<open>\<open>best m a ks r\<close>: \<open>r\<close> is the deepest node with information among those covering \<open>ks\<close> below \<open>a\<close>.\<close>

definition best :: "(nat \<rightharpoonup> 'i route_node) \<Rightarrow> nat \<Rightarrow> bool list \<Rightarrow> nat \<Rightarrow> bool" where
  "best m a ks r \<longleftrightarrow> covers m a ks r \<and> (\<exists>rd. m r = Some rd \<and> rn_info rd \<noteq> None \<and>
     (\<forall>x xd. covers m a ks x \<longrightarrow> m x = Some xd \<longrightarrow> rn_info xd \<noteq> None \<longrightarrow>
        length (key xd) \<le> length (key rd)))"

definition no_info :: "(nat \<rightharpoonup> 'i route_node) \<Rightarrow> nat \<Rightarrow> bool list \<Rightarrow> bool" where
  "no_info m a ks \<longleftrightarrow> (\<forall>x xd. covers m a ks x \<longrightarrow> m x = Some xd \<longrightarrow> rn_info xd = None)"

lemma match_loop_spec:
  assumes inv: "tree_inv tp m"
  shows "m a = Some ad \<Longrightarrow>
    \<exists>r. match_loop m pre (Some a) matched = Some r \<and>
        (r = matched \<and> no_info m a (pbits pre) \<or> (\<exists>x. r = Some x \<and> best m a (pbits pre) x))"
proof (induction "length (pbits pre) - length (key ad)" arbitrary: a ad matched rule: less_induct)
  case less
  note ad = less.prems
  show ?case
  proof (cases "prefix (key ad) (pbits pre)")
    case False
    then have "no_info m a (pbits pre)"
      using covers_above [OF inv ad] by (auto simp: no_info_def)
    moreover have "match_loop m pre (Some a) matched = Some matched"
      using False ad match_test [of ad pre] by (subst match_loop.simps) auto
    ultimately show ?thesis by blast
  next
    case pref: True
    define matched' where "matched' = (if rn_info ad \<noteq> None then Some a else matched)"
    show ?thesis
    proof (cases "prefixlen (rn_p ad) = prefixlen pre")
      case True
      have "match_loop m pre (Some a) matched = Some matched'"
        using pref True ad match_test [of ad pre]
        by (subst match_loop.simps) (auto simp: matched'_def)
      moreover have "covers m a (pbits pre) x \<longleftrightarrow> x = a" for x
        using covers_end [OF inv ad, of "pbits pre" x] covers_self [of m a ad "pbits pre"] True ad pref
        by auto
      ultimately show ?thesis
        using ad by (cases "rn_info ad") (auto simp: matched'_def no_info_def best_def)
    next
      case False
      from nth_pbits_walk [OF pref False] have
        nb: "bit_at (p_u pre) (prefixlen (rn_p ad)) = pbits pre ! length (key ad)"
        and lt: "length (key ad) < length (pbits pre)" by auto
      have loop: "match_loop m pre (Some a) matched =
          match_loop m pre (lk ad (pbits pre ! length (key ad))) matched'"
        using pref False ad match_test [of ad pre] nb
        by (subst match_loop.simps) (simp add: matched'_def Let_def)
      note cs = covers_step [OF inv ad pref lt]
      show ?thesis
      proof (cases "lk ad (pbits pre ! length (key ad))")
        case None
        then have "match_loop m pre (Some a) matched = Some matched'"
          using loop by (simp add: match_loop.simps)
        moreover have "covers m a (pbits pre) x \<longleftrightarrow> x = a" for x using cs None by simp
        ultimately show ?thesis
          using ad by (cases "rn_info ad") (auto simp: matched'_def no_info_def best_def)
      next
        case (Some y)
        from tree_inv_child [OF inv ad Some] obtain yd where
          yd: "m y = Some yd" "prefix (key ad @ [pbits pre ! length (key ad)]) (key yd)" by metis
        then have yl: "length (key ad) < length (key yd)" by (auto dest: prefix_length_le)
        then have "length (pbits pre) - length (key yd) < length (pbits pre) - length (key ad)"
          using lt by linarith
        from less.hyps [OF this yd(1), of matched'] obtain r where
          r: "match_loop m pre (Some y) matched' = Some r"
            "r = matched' \<and> no_info m y (pbits pre) \<or> (\<exists>x. r = Some x \<and> best m y (pbits pre) x)" by blast
        have cov: "covers m a (pbits pre) x \<longleftrightarrow> x = a \<or> covers m y (pbits pre) x" for x
          using cs Some by simp
        from r(2) show ?thesis
        proof
          assume "r = matched' \<and> no_info m y (pbits pre)"
          then show ?thesis using r(1) loop Some ad cov
            by (cases "rn_info ad") (auto simp: matched'_def no_info_def best_def)
        next
          assume "\<exists>x. r = Some x \<and> best m y (pbits pre) x"
          then obtain x where x: "r = Some x" "best m y (pbits pre) x" by blast
          then obtain xd where xd: "m x = Some xd" "anc m y x" by (auto simp: best_def covers_def)
          have "length (key ad) \<le> length (key xd)"
            using anc_prefix [OF inv xd(2) yd(1) xd(1)] yl by (auto dest!: prefix_length_le)
          then have "best m a (pbits pre) x"
            using x(2) xd(1) ad cov by (auto simp: best_def)
          with x(1) r(1) loop Some show ?thesis by simp
        qed
      qed
    qed
  qed
qed

section \<open>Tables\<close>

definition table_inv :: "'i route_table \<Rightarrow> bool" where
  "table_inv t \<longleftrightarrow>
     tree_inv (rt_top t) (rt_mem t) \<and> finite (dom (rt_mem t)) \<and>
     (\<forall>a. rt_brk t \<le> a \<longrightarrow> rt_mem t a = None) \<and>
     rt_count t = card (dom (rt_mem t)) \<and>
     (\<forall>a nd. rt_mem t a = Some nd \<longrightarrow> rn_lock nd = 0 \<longrightarrow>
        (\<forall>b. lk nd b \<noteq> None) \<and> rn_info nd = None)"

lemma table_inv_tree: "table_inv t \<Longrightarrow> tree_inv (rt_top t) (rt_mem t)"
  by (simp add: table_inv_def)

definition is_route :: "'i route_table \<Rightarrow> bool list \<Rightarrow> nat \<Rightarrow> bool" where
  "is_route t ks a \<longleftrightarrow> (\<exists>nd. rt_mem t a = Some nd \<and> key nd = ks \<and> rn_info nd \<noteq> None)"

lemma covers_top:
  assumes "tree_inv (Some r) m" "m x = Some xd"
  shows "covers m r ks x \<longleftrightarrow> prefix (key xd) ks"
  using anc_top [OF assms] assms(2) by (auto simp: covers_def)

lemma tree_inv_empty: "tree_inv None m \<Longrightarrow> m = Map.empty"
  using anc_top by (metis option.exhaust option.simps(3))

lemma route_lock_node_Some:
  "rt_mem t a = Some nd \<Longrightarrow>
   route_lock_node a t = Some (t\<lparr>rt_mem := (rt_mem t)(a \<mapsto> nd\<lparr>rn_lock := rn_lock nd + 1\<rparr>)\<rparr>)"
  by (simp add: route_lock_node_def node_upd_def)

lemma route_node_match_correct:
  assumes inv: "table_inv t"
  shows "(route_node_match t pre = Some (None, t) \<and>
          \<not> (\<exists>ks a. is_route t ks a \<and> prefix ks (pbits pre))) \<or>
         (\<exists>ks a t'. route_node_match t pre = Some (Some a, t') \<and> route_lock_node a t = Some t' \<and>
          is_route t ks a \<and> prefix ks (pbits pre) \<and>
          (\<forall>ks' a'. is_route t ks' a' \<longrightarrow> prefix ks' (pbits pre) \<longrightarrow> length ks' \<le> length ks))"
proof (cases "rt_top t")
  case None
  then have "rt_mem t = Map.empty" using inv by (auto simp: table_inv_def dest: tree_inv_empty)
  then show ?thesis using None
    by (auto simp: route_node_match_def match_loop.simps is_route_def)
next
  case (Some r)
  have ti: "tree_inv (Some r) (rt_mem t)" using inv Some by (simp add: table_inv_def)
  then obtain rd where rd: "rt_mem t r = Some rd" by (auto dest: tree_inv_top)
  note cov = covers_top [OF ti]
  from match_loop_spec [OF ti rd, of pre None] obtain res where
    res: "match_loop (rt_mem t) pre (Some r) None = Some res"
      "res = None \<and> no_info (rt_mem t) r (pbits pre) \<or>
       (\<exists>x. res = Some x \<and> best (rt_mem t) r (pbits pre) x)" by blast
  from res(2) show ?thesis
  proof
    assume "res = None \<and> no_info (rt_mem t) r (pbits pre)"
    moreover from this have "\<not> (\<exists>ks a. is_route t ks a \<and> prefix ks (pbits pre))"
      using cov unfolding no_info_def is_route_def by metis
    ultimately show ?thesis using res(1) Some by (simp add: route_node_match_def)
  next
    assume "\<exists>x. res = Some x \<and> best (rt_mem t) r (pbits pre) x"
    then obtain x xd where x: "res = Some x" "rt_mem t x = Some xd" "rn_info xd \<noteq> None"
      "prefix (key xd) (pbits pre)"
      "\<And>y yd. rt_mem t y = Some yd \<Longrightarrow> prefix (key yd) (pbits pre) \<Longrightarrow> rn_info yd \<noteq> None \<Longrightarrow>
         length (key yd) \<le> length (key xd)"
      using cov by (fastforce simp: best_def)
    have "is_route t (key xd) x" using x by (auto simp: is_route_def)
    moreover have "length ks' \<le> length (key xd)" if "is_route t ks' a'" "prefix ks' (pbits pre)" for ks' a'
      using that x(5) by (auto simp: is_route_def)
    ultimately show ?thesis
      using res(1) Some x(1,2,4) route_lock_node_Some [OF x(2)]
      by (auto simp: route_node_match_def)
  qed
qed

lemma lookup_loop_spec:
  assumes inv: "tree_inv tp m"
  shows "m a = Some ad \<Longrightarrow>
    \<exists>r. lookup_loop m pre (Some a) = Some r \<and>
        (\<forall>x. r = Some x \<longleftrightarrow> covers m a (pbits pre) x \<and>
           (\<exists>xd. m x = Some xd \<and> key xd = pbits pre \<and> rn_info xd \<noteq> None))"
proof (induction "length (pbits pre) - length (key ad)" arbitrary: a ad rule: less_induct)
  case less
  note ad = less.prems
  show ?case
  proof (cases "prefix (key ad) (pbits pre)")
    case False
    then show ?thesis
      using covers_above [OF inv ad] ad match_test [of ad pre] by (subst lookup_loop.simps) auto
  next
    case pref: True
    show ?thesis
    proof (cases "prefixlen (rn_p ad) = prefixlen pre")
      case True
      have "lookup_loop m pre (Some a) = Some (if rn_info ad \<noteq> None then Some a else None)"
        using pref True ad match_test [of ad pre] by (subst lookup_loop.simps) auto
      moreover have "covers m a (pbits pre) x \<longleftrightarrow> x = a" for x
        using covers_end [OF inv ad, of "pbits pre" x] covers_self [of m a ad "pbits pre"] True ad pref
        by auto
      moreover have "key ad = pbits pre"
        using pref True by (metis length_pbits prefix_length_prefix prefix_order.order_refl
            prefix_order.antisym order.refl)
      ultimately show ?thesis using ad by auto
    next
      case False
      from nth_pbits_walk [OF pref False] have
        nb: "bit_at (p_u pre) (prefixlen (rn_p ad)) = pbits pre ! length (key ad)"
        and lt: "length (key ad) < length (pbits pre)" by auto
      have loop: "lookup_loop m pre (Some a) = lookup_loop m pre (lk ad (pbits pre ! length (key ad)))"
        using pref False ad match_test [of ad pre] nb by (subst lookup_loop.simps) simp
      have ne: "key ad \<noteq> pbits pre" using False by (metis length_pbits)
      note cs = covers_step [OF inv ad pref lt]
      show ?thesis
      proof (cases "lk ad (pbits pre ! length (key ad))")
        case None
        then show ?thesis using loop cs ne ad by (auto simp: lookup_loop.simps)
      next
        case (Some y)
        from tree_inv_child [OF inv ad Some] obtain yd where
          yd: "m y = Some yd" "prefix (key ad @ [pbits pre ! length (key ad)]) (key yd)" by metis
        then have "length (pbits pre) - length (key yd) < length (pbits pre) - length (key ad)"
          using lt by (auto dest!: prefix_length_le)
        from less.hyps [OF this yd(1)] show ?thesis using loop cs ne ad Some by auto
      qed
    qed
  qed
qed

lemma route_node_lookup_correct:
  assumes inv: "table_inv t"
  shows "(\<exists>a t'. route_node_lookup t pre = Some (Some a, t') \<and> route_lock_node a t = Some t' \<and>
            is_route t (pbits pre) a) \<or>
         (route_node_lookup t pre = Some (None, t) \<and> \<not> (\<exists>a. is_route t (pbits pre) a))"
proof (cases "rt_top t")
  case None
  then have "rt_mem t = Map.empty" using inv by (auto simp: table_inv_def dest: tree_inv_empty)
  then show ?thesis using None
    by (auto simp: route_node_lookup_def lookup_loop.simps is_route_def)
next
  case (Some r)
  have ti: "tree_inv (Some r) (rt_mem t)" using inv Some by (simp add: table_inv_def)
  then obtain rd where rd: "rt_mem t r = Some rd" by (auto dest: tree_inv_top)
  from lookup_loop_spec [OF ti rd, of pre] obtain res where
    res0: "lookup_loop (rt_mem t) pre (Some r) = Some res"
      "\<And>x. res = Some x \<longleftrightarrow> covers (rt_mem t) r (pbits pre) x \<and>
         (\<exists>xd. rt_mem t x = Some xd \<and> key xd = pbits pre \<and> rn_info xd \<noteq> None)" by blast
  have res: "res = Some x \<longleftrightarrow> is_route t (pbits pre) x" for x
    unfolding res0(2) is_route_def using covers_top [OF ti, of x] by auto
  show ?thesis
  proof (cases res)
    case None
    with res have "\<not> (\<exists>a. is_route t (pbits pre) a)" by auto
    with None res0(1) Some show ?thesis by (simp add: route_node_lookup_def)
  next
    case (Some a)
    with res [of a] have a: "is_route t (pbits pre) a" by simp
    then obtain t' where "route_lock_node a t = Some t'"
      using route_lock_node_Some unfolding is_route_def by blast
    with a Some res0(1) \<open>rt_top t = Some r\<close> show ?thesis by (auto simp: route_node_lookup_def)
  qed
qed

end
