(* ===== verification/Radix_Insert.thy ===== *)
theory Radix_Insert
  imports Radix_Tree
begin

text \<open>
  Correctness of \<^verbatim>\<open>route_node_get\<close>: it returns a locked node for the prefix asked for,
  whether the node was there, is linked below an existing node, or needs a glue node at
  the longest common prefix, and it keeps the invariant and all the routes of the table.
\<close>

section \<open>The longest common prefix\<close>

section \<open>The common prefix\<close>

lemma drop_80_and:
  assumes "k < 8"
  shows "drop_bit k (0x80 :: u8) AND d = 0 \<longleftrightarrow> \<not> bit d (7 - k)"
proof -
  have "k \<in> {0, 1, 2, 3, 4, 5, 6, 7}" using assms by auto
  then have "drop_bit k (0x80 :: u8) = 2 ^ (7 - k)" by (auto simp: drop_bit_eq_div)
  then show ?thesis by (simp add: and.commute and_push_bit_1)
qed

lemma route_common_bits_spec:
  assumes "k \<le> 8" "base + k \<le> plen" "plen \<le> base + 8 \<or> (\<exists>j<8. k \<le> j \<and> bit d (7 - j))"
  shows "\<exists>r. route_common_bits d plen (drop_bit k 0x80) (base + k) = r \<and> base + k \<le> r \<and> r \<le> plen \<and>
    r \<le> base + 8 \<and> (\<forall>j. k \<le> j \<and> base + j < r \<longrightarrow> \<not> bit d (7 - j)) \<and>
    (r < plen \<longrightarrow> r < base + 8 \<and> bit d (7 - (r - base)))"
  using assms
proof (induction "plen - (base + k)" arbitrary: k rule: less_induct)
  case less
  show ?case
  proof (cases "base + k < plen \<and> drop_bit k (0x80 :: u8) AND d = 0")
    case True
    have k: "k < 8" using True less.prems by auto
    then have nb: "\<not> bit d (7 - k)" using True drop_80_and by blast
    have ex: "plen \<le> base + 8 \<or> (\<exists>j<8. Suc k \<le> j \<and> bit d (7 - j))"
      using less.prems(3) nb by (metis Suc_leI le_neq_implies_less)
    have "plen - (base + Suc k) < plen - (base + k)" using True by auto
    from less.hyps [OF this _ _ ex] k True obtain r where
      r: "route_common_bits d plen (drop_bit (Suc k) 0x80) (base + Suc k) = r" "base + Suc k \<le> r"
        "r \<le> plen" "r \<le> base + 8" "\<forall>j. Suc k \<le> j \<and> base + j < r \<longrightarrow> \<not> bit d (7 - j)"
        "r < plen \<longrightarrow> r < base + 8 \<and> bit d (7 - (r - base))" by auto
    have "\<not> bit d (7 - j)" if "k \<le> j \<and> base + j < r" for j
      using that r(5) nb by (cases "j = k") auto
    moreover have "route_common_bits d plen (drop_bit k 0x80) (base + k) = r"
      using True r(1) by (subst route_common_bits.simps) (simp add: drop_bit_Suc)
    ultimately show ?thesis using r by auto
  next
    case False
    have "route_common_bits d plen (drop_bit k 0x80) (base + k) = base + k"
      using False by (subst route_common_bits.simps) auto
    moreover have "k < 8 \<and> bit d (7 - k)" if "base + k < plen"
    proof -
      from that False have ne: "drop_bit k (0x80 :: u8) AND d \<noteq> 0" by blast
      have "k \<noteq> 8"
      proof
        assume "k = 8"
        then have "drop_bit k (0x80 :: u8) = 0" by simp
        with ne show False by simp
      qed
      then show ?thesis using less.prems ne drop_80_and [of k d] by auto
    qed
    ultimately show ?thesis using less.prems by auto
  qed
qed

lemma route_common_octets_spec:
  assumes "i \<le> n" "n \<le> length newp"
  shows "\<exists>i' newp'. route_common_octets np pp n i newp = (i', newp') \<and> i \<le> i' \<and> i' \<le> n \<and>
    length newp' = length newp \<and>
    (\<forall>j. i \<le> j \<and> j < i' \<longrightarrow> np ! j = pp ! j \<and> newp' ! j = np ! j) \<and>
    (\<forall>j. j < i \<or> i' \<le> j \<longrightarrow> newp' ! j = newp ! j) \<and> (i' < n \<longrightarrow> np ! i' \<noteq> pp ! i')"
  using assms
proof (induction np pp n i newp rule: route_common_octets.induct)
  case (1 np pp n i newp)
  show ?case
  proof (cases "i < n \<and> np ! i = pp ! i")
    case True
    have "\<exists>i' newp'. route_common_octets np pp n (i + 1) (newp[i := np ! i]) = (i', newp') \<and>
      i + 1 \<le> i' \<and> i' \<le> n \<and> length newp' = length (newp[i := np ! i]) \<and>
      (\<forall>j. i + 1 \<le> j \<and> j < i' \<longrightarrow> np ! j = pp ! j \<and> newp' ! j = np ! j) \<and>
      (\<forall>j. j < i + 1 \<or> i' \<le> j \<longrightarrow> newp' ! j = newp[i := np ! i] ! j) \<and>
      (i' < n \<longrightarrow> np ! i' \<noteq> pp ! i')"
      by (rule "1.IH") (use True "1.prems" in auto)
    then obtain i' newp' where
      r: "route_common_octets np pp n (i + 1) (newp[i := np ! i]) = (i', newp')"
        "i + 1 \<le> i'" "i' \<le> n" "length newp' = length newp"
        "\<forall>j. i + 1 \<le> j \<and> j < i' \<longrightarrow> np ! j = pp ! j \<and> newp' ! j = np ! j"
        "\<forall>j. j < i + 1 \<or> i' \<le> j \<longrightarrow> newp' ! j = newp[i := np ! i] ! j"
        "i' < n \<longrightarrow> np ! i' \<noteq> pp ! i'" by (elim exE conjE) simp
    have "np ! j = pp ! j \<and> newp' ! j = np ! j" if "i \<le> j \<and> j < i'" for j
      using that r True 1 by (cases "j = i") auto
    moreover have "newp' ! j = newp ! j" if "j < i \<or> i' \<le> j" for j
      using that r by auto
    moreover have "route_common_octets np pp n i newp = (i', newp')"
      using r(1) True by (simp add: route_common_octets.simps [of np pp n i newp])
    ultimately show ?thesis using r by auto
  next
    case False
    then have "route_common_octets np pp n i newp = (i, newp)"
      by (auto simp: route_common_octets.simps [of np pp n i newp])
    with 1 False show ?thesis by auto
  qed
qed

text \<open>
  \<open>route_common\<close> yields the longest common prefix of the address of \<open>n\<close> and the prefix \<open>pre\<close>.
\<close>

lemma route_common_spec:
  assumes "prefixlen pre \<le> 128" "length (p_u new) = 16"
  shows "\<exists>c. route_common n pre new = c \<and> family c = family new \<and> length (p_u c) = 16 \<and>
    prefixlen c \<le> prefixlen pre \<and>
    (\<forall>i<prefixlen c. bit_at (p_u n) i = bit_at (p_u pre) i \<and> bit_at (p_u c) i = bit_at (p_u n) i) \<and>
    (prefixlen c < prefixlen pre \<longrightarrow> bit_at (p_u n) (prefixlen c) \<noteq> bit_at (p_u pre) (prefixlen c))"
proof -
  let ?np = "p_u n" and ?pp = "p_u pre" and ?k = "prefixlen pre div 8"
  have "?k \<le> 16" using div_le_mono [OF assms(1), of 8] by simp
  with route_common_octets_spec [of 0 ?k "p_u new" ?np ?pp] assms(2) obtain i newp where
    o: "route_common_octets ?np ?pp ?k 0 (p_u new) = (i, newp)" "i \<le> ?k" "length newp = 16"
      "\<forall>j<i. ?np ! j = ?pp ! j \<and> newp ! j = ?np ! j" "i < ?k \<longrightarrow> ?np ! i \<noteq> ?pp ! i"
    by auto
  have low: "bit_at ?np j = bit_at ?pp j \<and> bit_at newp j = bit_at ?np j" if "j < 8 * i" for j
    using that o(4) by (simp add: bit_at_def less_mult_imp_div_less mult.commute)
  show ?thesis
  proof (cases "i * 8 = prefixlen pre")
    case True
    then show ?thesis using o low by (auto simp: route_common_def)
  next
    case False
    define d where "d = ?np ! i XOR ?pp ! i"
    have le: "i * 8 \<le> prefixlen pre" using o(2) less_eq_div_iff_mult_less_eq [of 8 i "prefixlen pre"] by simp
    have i16: "i < 16" using le False assms(1) by auto
    have "prefixlen pre \<le> i * 8 + 8 \<or> (\<exists>j<8. 0 \<le> j \<and> bit d (7 - j))"
    proof (cases "i < ?k")
      case True
      then have "?np ! i \<noteq> ?pp ! i" using o(5) by blast
      then show ?thesis by (auto simp: octet_eq_iff d_def bit_simps)
    next
      case False
      then show ?thesis using o(2) by auto
    qed
    from route_common_bits_spec [of 0 "i * 8" "prefixlen pre" d] le this obtain r where
      r: "route_common_bits d (prefixlen pre) 0x80 (i * 8) = r" "i * 8 \<le> r" "r \<le> prefixlen pre" "r \<le> i * 8 + 8"
        "\<forall>j. i * 8 + j < r \<longrightarrow> \<not> bit d (7 - j)"
        "r < prefixlen pre \<longrightarrow> r < i * 8 + 8 \<and> bit d (7 - (r - i * 8))" by auto
    have c: "route_common n pre new =
        new\<lparr>prefixlen := r, p_u := newp[i := ?np ! i AND maskbit ! (r mod 8)]\<rparr>"
      using o(1) r(1) False by (simp add: route_common_def d_def)
    have in8: "bit_at xs (i * 8 + j) = bit (xs ! i) (7 - j)" if "j < 8" for xs j
      using bit_at_octet [OF that, of xs i] by (simp add: mult.commute)
    have "r \<noteq> i * 8 + 8"
    proof
      assume eq: "r = i * 8 + 8"
      then have "\<not> bit d (7 - j)" if "j < 8" for j using r(5) that by simp
      then have "\<not> i < ?k" using o(5) by (auto simp: octet_eq_iff d_def bit_simps)
      then show False using eq r(3) by auto
    qed
    then have r8: "r < i * 8 + 8" using r(4) by simp
    have "r = (r - i * 8) + i * 8" using r(2) by simp
    then have "r mod 8 = (r - i * 8) mod 8" by (metis mod_mult_self1)
    then have rm: "r mod 8 = r - i * 8" using r8 by simp
    let ?newp = "newp[i := ?np ! i AND maskbit ! (r mod 8)]"
    have "bit_at ?np j = bit_at ?pp j \<and> bit_at ?newp j = bit_at ?np j" if "j < r" for j
    proof (cases "j < 8 * i")
      case True
      then have "j div 8 \<noteq> i" by auto
      then have "bit_at ?newp j = bit_at newp j" by (simp add: bit_at_def)
      with low [OF True] show ?thesis by simp
    next
      case False
      define k where "k = j - i * 8"
      have k: "j = i * 8 + k" "k < 8" "k < r mod 8" using False that r8 rm by (auto simp: k_def)
      have "\<not> bit d (7 - k)" using r(5) that k(1) by blast
      then have "bit (?np ! i) (7 - k) = bit (?pp ! i) (7 - k)" by (auto simp: d_def bit_simps)
      moreover have "bit (maskbit ! (r mod 8)) (7 - k)" using k by (simp add: bit_maskbit)
      ultimately show ?thesis using k i16 o(3) by (simp add: in8 bit_simps)
    qed
    moreover have "bit_at ?np r \<noteq> bit_at ?pp r" if "r < prefixlen pre"
    proof -
      have "bit d (7 - (r - i * 8))" and "r = i * 8 + (r - i * 8)" and "r - i * 8 < 8"
        using r that by auto
      then show ?thesis using in8 [of "r - i * 8"] by (auto simp: d_def bit_simps)
    qed
    ultimately show ?thesis using c r(3) o(3) by auto
  qed
qed

section \<open>Linking a leaf\<close>

definition set_lk :: "bool \<Rightarrow> nat option \<Rightarrow> 'i route_node \<Rightarrow> 'i route_node" where
  "set_lk b c nd = (if b then nd\<lparr>rn_right := c\<rparr> else nd\<lparr>rn_left := c\<rparr>)"

lemma set_lk_simps [simp]:
  "lk (set_lk b c nd) b' = (if b' = b then c else lk nd b')"
  "rn_p (set_lk b c nd) = rn_p nd" "rn_parent (set_lk b c nd) = rn_parent nd"
  "rn_lock (set_lk b c nd) = rn_lock nd" "rn_info (set_lk b c nd) = rn_info nd"
  by (auto simp: set_lk_def lk_def)

lemma lk_upd_simps [simp]:
  "lk (nd\<lparr>rn_parent := q\<rparr>) b = lk nd b" "lk (nd\<lparr>rn_lock := n\<rparr>) b = lk nd b"
  "lk (nd\<lparr>rn_info := i\<rparr>) b = lk nd b" "lk (nd\<lparr>rn_p := pp\<rparr>) b = lk nd b"
  by (simp_all add: lk_def)

lemma link_upd_prefix_bit [simp]: "link_upd (prefix_bit us i) c = set_lk (bit_at us i) c"
  by (auto simp: link_upd_def set_lk_def prefix_bit_eq fun_eq_iff)

lemma tree_invI:
  assumes "\<And>a. tp = Some a \<Longrightarrow> \<exists>nd. m a = Some nd \<and> rn_parent nd = None"
    and "\<And>a nd. m a = Some nd \<Longrightarrow> wf_prefix (rn_p nd)"
    and "\<And>a nd b c. m a = Some nd \<Longrightarrow> lk nd b = Some c \<Longrightarrow>
      \<exists>cd. m c = Some cd \<and> rn_parent cd = Some a \<and> prefix (key nd @ [b]) (key cd)"
    and "\<And>c cd. m c = Some cd \<Longrightarrow> rn_parent cd = None \<Longrightarrow> tp = Some c"
    and "\<And>c cd a. m c = Some cd \<Longrightarrow> rn_parent cd = Some a \<Longrightarrow> \<exists>nd b. m a = Some nd \<and> lk nd b = Some c"
  shows "tree_inv tp m"
  unfolding tree_inv_def using assms by (auto split: option.split)

lemma key_neq_parent:
  assumes "tree_inv tp m" "m a = Some nd" "lk nd b = Some c"
  shows "c \<noteq> a"
  using tree_inv_child [OF assms] assms(2) by (metis option.inject not_Cons_self2 prefix_order.antisym
      append_self_conv prefix_def strict_of_snoc strict_prefix_def)

lemma insert_leaf:
  assumes inv: "tree_inv tp m" and q: "m q = Some qd" "lk qd b = None" and n: "m n = None"
    and nw: "wf_prefix (rn_p nw)" "rn_parent nw = Some q" "\<And>b. lk nw b = None"
    and pre: "prefix (key qd @ [b]) (key nw)"
  shows "tree_inv tp (m(q \<mapsto> set_lk b (Some n) qd, n \<mapsto> nw))" (is "tree_inv tp ?m")
proof (rule tree_invI)
  have qn: "q \<noteq> n" using q n by auto
  note wf = tree_inv_wf [OF inv]
  fix a nd assume a: "?m a = Some nd"
  show "wf_prefix (rn_p nd)" using a nw q wf by (auto split: if_splits)
  show "tp = Some a" if "rn_parent nd = None"
    using a that nw q tree_inv_root [OF inv] by (auto split: if_splits)
  show "\<exists>cd. ?m c = Some cd \<and> rn_parent cd = Some a \<and> prefix (key nd @ [b']) (key cd)"
    if l: "lk nd b' = Some c" for b' c
  proof (cases "a = q \<and> b' = b")
    case True
    then show ?thesis using a l nw pre qn by auto
  next
    case False
    then obtain nd0 where "m a = Some nd0" "lk nd0 b' = Some c" "key nd0 = key nd"
      using a l nw(3) q by (auto split: if_splits)
    then obtain cd where "m c = Some cd" "rn_parent cd = Some a" "prefix (key nd @ [b']) (key cd)"
      using tree_inv_child [OF inv] by metis
    then show ?thesis using n q(1) by (cases "c = q") auto
  qed
  show "\<exists>nd' b'. ?m p' = Some nd' \<and> lk nd' b' = Some a" if pa: "rn_parent nd = Some p'" for p'
  proof (cases "a = n")
    case True
    then show ?thesis using a pa nw qn by auto
  next
    case False
    then obtain nd0 where "m a = Some nd0" "rn_parent nd0 = Some p'"
      using a pa q by (auto split: if_splits)
    then obtain pd b' where "m p' = Some pd" "lk pd b' = Some a"
      using tree_inv_parent [OF inv] by metis
    then show ?thesis using n q by (cases "p' = q") (auto intro!: exI [of _ b'])
  qed
next
  fix a assume "tp = Some a"
  then show "\<exists>nd. ?m a = Some nd \<and> rn_parent nd = None"
    using tree_inv_top inv n q(1) by (cases "a = q") fastforce+
qed

section \<open>Inserting a glue node\<close>

lemma insert_glue_top:
  assumes inv: "tree_inv (Some x) m" and x: "m x = Some xd" and g: "m g = None"
    and gd: "wf_prefix (rn_p gd)" "rn_parent gd = None" "lk gd bx = Some x" "lk gd (\<not> bx) = None"
    and pre: "prefix (key gd @ [bx]) (key xd)"
  shows "tree_inv (Some g) (m(x \<mapsto> xd\<lparr>rn_parent := Some g\<rparr>, g \<mapsto> gd))" (is "tree_inv _ ?m")
proof (rule tree_invI)
  have xg: "x \<noteq> g" using x g by auto
  have xp: "rn_parent xd = None" using tree_inv_top [OF inv] x by auto
  fix a nd assume a: "?m a = Some nd"
  show "wf_prefix (rn_p nd)" using a gd tree_inv_wf [OF inv] x by (auto split: if_splits)
  show "Some g = Some a" if "rn_parent nd = None"
    using a that tree_inv_root [OF inv] by (auto split: if_splits)
  show "\<exists>cd. ?m c = Some cd \<and> rn_parent cd = Some a \<and> prefix (key nd @ [b]) (key cd)"
    if l: "lk nd b = Some c" for b c
  proof (cases "a = g")
    case True
    then have "b = bx" "c = x" using a l gd by (cases "b = bx"; auto)+
    then show ?thesis using True a pre xg by auto
  next
    case False
    then obtain nd0 where "m a = Some nd0" "lk nd0 b = Some c" "key nd0 = key nd"
      using a l x by (auto split: if_splits)
    then obtain cd where cd: "m c = Some cd" "rn_parent cd = Some a" "prefix (key nd @ [b]) (key cd)"
      using tree_inv_child [OF inv] by metis
    moreover have "c \<noteq> x" using cd xp x by auto
    ultimately show ?thesis using g by auto
  qed
  show "\<exists>nd' b. ?m p' = Some nd' \<and> lk nd' b = Some a" if pa: "rn_parent nd = Some p'" for p'
  proof (cases "a = x")
    case True
    then show ?thesis using a pa gd xg by auto
  next
    case False
    then have "m a = Some nd" using a pa gd by (auto split: if_splits)
    then obtain pd b where "m p' = Some pd" "lk pd b = Some a"
      using pa tree_inv_parent [OF inv] by metis
    then show ?thesis using g x by (cases "p' = x") (auto intro!: exI [of _ b])
  qed
next
  fix a assume "Some g = Some a"
  then show "\<exists>nd. ?m a = Some nd \<and> rn_parent nd = None" using gd by simp
qed

lemma insert_glue:
  assumes inv: "tree_inv tp m" and x: "m x = Some xd" and g: "m g = None"
    and q: "m q = Some qd" "lk qd b = Some x"
    and gd: "wf_prefix (rn_p gd)" "rn_parent gd = Some q" "lk gd bx = Some x" "lk gd (\<not> bx) = None"
    and pre: "prefix (key gd @ [bx]) (key xd)" "prefix (key qd @ [b]) (key gd)"
  shows "tree_inv tp (m(x \<mapsto> xd\<lparr>rn_parent := Some g\<rparr>, q \<mapsto> set_lk b (Some g) qd, g \<mapsto> gd))"
    (is "tree_inv _ ?m")
proof (rule tree_invI)
  have ne: "x \<noteq> g" "q \<noteq> g" "x \<noteq> q" using x g q key_neq_parent [OF inv q] by auto
  have xp: "rn_parent xd = Some q" using tree_inv_child [OF inv q] x by (metis option.inject)
  fix a nd assume a: "?m a = Some nd"
  show "wf_prefix (rn_p nd)" using a gd tree_inv_wf [OF inv] x q by (auto split: if_splits)
  show "tp = Some a" if "rn_parent nd = None"
    using a that q gd tree_inv_root [OF inv] by (auto split: if_splits)
  show "\<exists>cd. ?m c = Some cd \<and> rn_parent cd = Some a \<and> prefix (key nd @ [b']) (key cd)"
    if l: "lk nd b' = Some c" for b' c
  proof -
    consider "a = g" | "a = q" "b' = b" | "a \<noteq> g" "\<not> (a = q \<and> b' = b)" by blast
    then show ?thesis
    proof cases
      case 1
      then have "b' = bx" "c = x" using a l gd by (cases "b' = bx"; auto)+
      then show ?thesis using 1 a pre ne by auto
    next
      case 2
      then show ?thesis using a l pre gd ne by auto
    next
      case 3
      then obtain nd0 where nd0: "m a = Some nd0" "lk nd0 b' = Some c" "key nd0 = key nd"
        using a l x q by (auto split: if_splits)
      then obtain cd where cd: "m c = Some cd" "rn_parent cd = Some a" "prefix (key nd @ [b']) (key cd)"
        using tree_inv_child [OF inv] by metis
      have "c \<noteq> x"
      proof
        assume c: "c = x"
        then have "a = q" using cd x xp by auto
        with nd0 q have "prefix (key qd @ [b']) (key xd)" using cd c x by auto
        moreover have "prefix (key qd @ [b]) (key xd)" using tree_inv_child [OF inv q] x by (metis option.inject)
        ultimately show False using \<open>a = q\<close> 3 snoc_prefix_unique by metis
      qed
      then show ?thesis using cd g q by (cases "c = q") auto
    qed
  qed
  show "\<exists>nd' b'. ?m p' = Some nd' \<and> lk nd' b' = Some a" if pa: "rn_parent nd = Some p'" for p'
  proof -
    consider "a = x" | "a = g" | "a \<noteq> x" "a \<noteq> g" by blast
    then show ?thesis
    proof cases
      case 1
      then show ?thesis using a pa gd ne by auto
    next
      case 2
      then show ?thesis using a pa gd ne by auto
    next
      case 3
      then obtain nd0 where "m a = Some nd0" "rn_parent nd0 = Some p'" using a pa q by (auto split: if_splits)
      then obtain pd b' where pd: "m p' = Some pd" "lk pd b' = Some a"
        using tree_inv_parent [OF inv] by metis
      moreover have "b' \<noteq> b" if "p' = q"
      proof
        assume "b' = b"
        then show False using that pd q 3 by simp
      qed
      ultimately show ?thesis using g x q ne
        by (cases "p' = x"; cases "p' = q") (auto intro!: exI [of _ b'])
    qed
  qed
next
  fix a assume "tp = Some a"
  then obtain nd where "m a = Some nd" "rn_parent nd = None" using tree_inv_top inv by metis
  moreover have "a \<noteq> x" using calculation x tree_inv_child [OF inv q] by (metis option.inject option.simps(3))
  ultimately show "\<exists>nd. ?m a = Some nd \<and> rn_parent nd = None"
    using g q(1) by (cases "a = q") auto
qed

text \<open>Where the walk of \<open>route_node_get\<close> stands: \<open>mtch\<close> is a proper ancestor of the wanted key and
  \<open>node\<close> its link towards it.\<close>

definition get_at :: "nat option \<Rightarrow> (nat \<rightharpoonup> 'i route_node) \<Rightarrow> bool list \<Rightarrow> nat option \<Rightarrow> nat option \<Rightarrow> bool" where
  "get_at tp m ks mtch node \<longleftrightarrow>
     (case mtch of
        None \<Rightarrow> node = tp
      | Some q \<Rightarrow> \<exists>qd b. m q = Some qd \<and> prefix (key qd @ [b]) ks \<and> node = lk qd b)"

definition get_done :: "nat option \<Rightarrow> (nat \<rightharpoonup> 'i route_node) \<Rightarrow> bool list \<Rightarrow> get_walk \<Rightarrow> bool" where
  "get_done tp m ks w \<longleftrightarrow>
     (case w of
        Found a \<Rightarrow> \<exists>nd. m a = Some nd \<and> key nd = ks
      | Missing mtch node \<Rightarrow> get_at tp m ks mtch node \<and>
          (\<forall>x xd. node = Some x \<longrightarrow> m x = Some xd \<longrightarrow> \<not> prefix (key xd) ks))"

lemma prefix_eq_of_length: "prefix xs ys \<Longrightarrow> length xs = length ys \<Longrightarrow> xs = ys"
  by (auto simp: prefix_def)

lemma prefix_snoc_nth: "prefix xs ys \<Longrightarrow> length xs < length ys \<Longrightarrow> prefix (xs @ [ys ! length xs]) ys"
  by (auto simp: prefix_def nth_append Cons_nth_drop_Suc [symmetric] neq_Nil_conv)

lemma get_at_dom:
  assumes "tree_inv tp m" "get_at tp m ks mtch (Some a)"
  shows "\<exists>ad. m a = Some ad"
proof (cases mtch)
  case None
  then show ?thesis using assms tree_inv_top [of a m] by (auto simp: get_at_def)
next
  case (Some q)
  then obtain qd b where "m q = Some qd" "lk qd b = Some a" using assms(2) by (auto simp: get_at_def)
  from tree_inv_child [OF assms(1) this] show ?thesis by blast
qed

lemma get_loop_spec:
  assumes inv: "tree_inv tp m"
  shows "get_at tp m (pbits pre) mtch node \<Longrightarrow>
    \<exists>w. get_loop m pre mtch node = Some w \<and> get_done tp m (pbits pre) w"
proof (induction "length (pbits pre) - (case node of None \<Rightarrow> 0 | Some a \<Rightarrow> length (key (the (m a))))"
    arbitrary: mtch node rule: less_induct)
  case less
  show ?case
  proof (cases node)
    case None
    then show ?thesis using less.prems by (subst get_loop.simps) (simp add: get_done_def)
  next
    case (Some a)
    obtain ad where ad: "m a = Some ad"
      using get_at_dom [OF inv] less.prems Some by blast
    show ?thesis
    proof (cases "prefix (key ad) (pbits pre)")
      case False
      then show ?thesis using Some ad less.prems match_test [of ad pre]
        by (subst get_loop.simps) (auto simp: get_done_def)
    next
      case pref: True
      show ?thesis
      proof (cases "prefixlen (rn_p ad) = prefixlen pre")
        case True
        then have "key ad = pbits pre" using pref by (intro prefix_eq_of_length) auto
        then show ?thesis using True pref Some ad match_test [of ad pre]
          by (subst get_loop.simps) (auto simp: get_done_def)
      next
        case False
        from nth_pbits_walk [OF pref False] have
          nb: "bit_at (p_u pre) (prefixlen (rn_p ad)) = pbits pre ! length (key ad)"
          and lt: "length (key ad) < length (pbits pre)" by auto
        let ?b = "pbits pre ! length (key ad)"
        have loop: "get_loop m pre mtch node = get_loop m pre (Some a) (lk ad ?b)"
          using pref False Some ad match_test [of ad pre] nb by (subst get_loop.simps) simp
        have at: "get_at tp m (pbits pre) (Some a) (lk ad ?b)"
          using prefix_snoc_nth [OF pref lt] ad by (auto simp: get_at_def)
        show ?thesis
        proof (cases "lk ad ?b")
          case None
          then show ?thesis using at loop by (simp add: get_loop.simps get_done_def)
        next
          case (Some y)
          from tree_inv_child [OF inv ad Some] obtain yd where
            "m y = Some yd" "prefix (key ad @ [?b]) (key yd)" by metis
          then have "length (pbits pre) - length (key (the (m y))) < length (pbits pre) - length (key ad)"
            using lt by (auto dest!: prefix_length_le)
          then show ?thesis using less.hyps [OF _ at] Some loop ad \<open>node = Some a\<close> by simp
        qed
      qed
    qed
  qed
qed

section \<open>Steps of the insertion\<close>

lemma tree_inv_upd:
  assumes inv: "tree_inv tp m" and a: "m a = Some nd"
    and same: "rn_p nd' = rn_p nd" "rn_parent nd' = rn_parent nd" "\<And>b. lk nd' b = lk nd b"
  shows "tree_inv tp (m(a \<mapsto> nd'))"
proof (rule tree_invI)
  fix x xd assume x: "(m(a \<mapsto> nd')) x = Some xd"
  then obtain xd0 where xd0: "m x = Some xd0" "rn_p xd0 = rn_p xd" "rn_parent xd0 = rn_parent xd"
    "\<And>b. lk xd0 b = lk xd b" using a same by (cases "x = a") auto
  show "wf_prefix (rn_p xd)" using tree_inv_wf [OF inv xd0(1)] xd0 by simp
  show "tp = Some x" if "rn_parent xd = None" using tree_inv_root [OF inv xd0(1)] xd0 that by simp
  show "\<exists>cd. (m(a \<mapsto> nd')) c = Some cd \<and> rn_parent cd = Some x \<and> prefix (key xd @ [b]) (key cd)"
    if l: "lk xd b = Some c" for b c
  proof -
    from l xd0 have "lk xd0 b = Some c" by simp
    from tree_inv_child [OF inv xd0(1) this] obtain cd where
      "m c = Some cd" "rn_parent cd = Some x" "prefix (key xd0 @ [b]) (key cd)" .
    then show ?thesis using xd0 a same by (cases "c = a") auto
  qed
  show "\<exists>pd b. (m(a \<mapsto> nd')) q = Some pd \<and> lk pd b = Some x" if pa: "rn_parent xd = Some q" for q
  proof -
    from pa xd0 have "rn_parent xd0 = Some q" by simp
    from tree_inv_parent [OF inv xd0(1) this] obtain qd b where "m q = Some qd" "lk qd b = Some x" by metis
    then show ?thesis using a same by (cases "q = a") auto
  qed
next
  fix x assume "tp = Some x"
  then show "\<exists>xd. (m(a \<mapsto> nd')) x = Some xd \<and> rn_parent xd = None"
    using inv tree_inv_top [of x m] a same by (cases "x = a") fastforce+
qed

lemma bit_at_snoc:
  assumes "prefix (key qd @ [b]) (pbits pre)"
  shows "bit_at (p_u pre) (prefixlen (rn_p qd)) = b"
proof -
  from assms have "length (key qd) < length (pbits pre)" by (auto dest: prefix_length_le)
  moreover from assms have "pbits pre ! length (key qd) = b"
    by (auto simp: prefix_def simp del: length_pbits)
  ultimately show ?thesis by (simp add: nth_pbits)
qed

lemma set_link_Some:
  assumes "rt_mem t q = Some qd" "rt_mem t n = Some nw" "q \<noteq> n" "prefix (key qd @ [b]) (key nw)"
  shows "set_link q n t = Some (t\<lparr>rt_mem := (rt_mem t)
    (q \<mapsto> set_lk b (Some n) qd, n \<mapsto> nw\<lparr>rn_parent := Some q\<rparr>)\<rparr>)"
  using assms bit_at_snoc [OF assms(4)] by (simp add: set_link_def node_upd_def)

lemma prefix_copy_new:
  "wf_prefix pre \<Longrightarrow> \<exists>q. prefix_copy prefix_new pre = Some q \<and> wf_prefix q \<and> pbits q = pbits pre"
  by (rule prefix_copy_any) (simp_all add: prefix_new_def)

text \<open>The glue prefix of \<open>route_node_get\<close>: the longest common prefix of a node and the wanted prefix.\<close>

lemma glue_prefix:
  assumes xd: "wf_prefix (rn_p xd)" and pre: "wf_prefix pre" and np: "\<not> prefix (key xd) (pbits pre)"
  defines "c \<equiv> (route_common (rn_p xd) pre prefix_new)\<lparr>family := family pre\<rparr>"
  shows "wf_prefix c" and "\<exists>bx. prefix (pbits c @ [bx]) (key xd) \<and>
      (prefixlen c = prefixlen pre \<and> pbits c = pbits pre \<or>
       prefixlen c \<noteq> prefixlen pre \<and> prefix (pbits c @ [\<not> bx]) (pbits pre))"
    and "\<And>ks. prefix ks (key xd) \<Longrightarrow> prefix ks (pbits pre) \<Longrightarrow> prefix ks (pbits c)"
proof -
  have "length (p_u prefix_new) = 16" by (simp add: prefix_new_def)
  from route_common_spec [OF wf_prefix_len [OF pre] this, of "rn_p xd"]
  have c: "length (p_u c) = 16" "prefixlen c \<le> prefixlen pre" "family c = family pre"
    "\<And>i. i < prefixlen c \<Longrightarrow> bit_at (p_u (rn_p xd)) i = bit_at (p_u pre) i"
    "\<And>i. i < prefixlen c \<Longrightarrow> bit_at (p_u c) i = bit_at (p_u (rn_p xd)) i"
    "prefixlen c < prefixlen pre \<Longrightarrow>
       bit_at (p_u (rn_p xd)) (prefixlen c) \<noteq> bit_at (p_u pre) (prefixlen c)"
    by (auto simp: c_def)
  show "wf_prefix c" using c pre by (auto simp: wf_prefix_def)
  have lt: "prefixlen c < prefixlen (rn_p xd)"
  proof (rule ccontr)
    assume "\<not> ?thesis"
    then have "prefix (key xd) (pbits pre)"
      using c by (auto simp: pbits_def prefix_map_upt)
    with np show False ..
  qed
  define bx where "bx = bit_at (p_u (rn_p xd)) (prefixlen c)"
  have cx: "prefix (pbits c) (key xd)" using c(5) lt by (simp add: pbits_def prefix_map_upt)
  have cp: "prefix (pbits c) (pbits pre)" using c by (simp add: pbits_def prefix_map_upt)
  have "prefix (pbits c @ [bx]) (key xd)"
    using prefix_snoc_nth [OF cx] lt by (simp add: bx_def nth_pbits)
  moreover have "pbits c = pbits pre" if "prefixlen c = prefixlen pre"
    using prefix_eq_of_length [OF cp] that by simp
  moreover have "prefix (pbits c @ [\<not> bx]) (pbits pre)" if "prefixlen c \<noteq> prefixlen pre"
  proof -
    have l: "prefixlen c < prefixlen pre" using that c(2) by simp
    then have "pbits pre ! prefixlen c = (\<not> bx)" using c(6) by (auto simp: bx_def nth_pbits)
    with prefix_snoc_nth [OF cp] l show ?thesis by simp
  qed
  ultimately show "\<exists>bx. prefix (pbits c @ [bx]) (key xd) \<and>
      (prefixlen c = prefixlen pre \<and> pbits c = pbits pre \<or>
       prefixlen c \<noteq> prefixlen pre \<and> prefix (pbits c @ [\<not> bx]) (pbits pre))" by blast
  show "prefix ks (pbits c)" if k: "prefix ks (key xd)" "prefix ks (pbits pre)" for ks
  proof (rule ccontr)
    assume n: "\<not> prefix ks (pbits c)"
    have "length (pbits c) < length ks"
      using n k(1) cx by (metis linorder_not_le prefix_length_prefix)
    then have l: "prefixlen c < length ks" by simp
    have kk: "ks ! prefixlen c = key xd ! prefixlen c" "ks ! prefixlen c = pbits pre ! prefixlen c"
      using k l by (auto simp: prefix_def nth_append)
    have "prefixlen c < prefixlen pre" using l k(2) by (auto dest: prefix_length_le)
    with kk c(6) lt show False by (simp add: nth_pbits)
  qed
qed

section \<open>The outcome of an insertion\<close>

text \<open>
  \<open>kept t t' a\<close>: every node of \<open>t\<close> is still there with its prefix, its information and its
  lock count, except for one more reference on \<open>a\<close>; what is new carries no information.
\<close>

definition kept :: "'i route_table \<Rightarrow> 'i route_table \<Rightarrow> nat \<Rightarrow> bool" where
  "kept t t' a \<longleftrightarrow>
     (\<forall>x xd. rt_mem t x = Some xd \<longrightarrow>
        (\<exists>xd'. rt_mem t' x = Some xd' \<and> rn_p xd' = rn_p xd \<and> rn_info xd' = rn_info xd \<and>
           rn_lock xd' = rn_lock xd + (if x = a then 1 else 0))) \<and>
     (\<forall>x xd'. rt_mem t' x = Some xd' \<longrightarrow> rt_mem t x = None \<longrightarrow>
        rn_info xd' = None \<and> rn_lock xd' = (if x = a then 1 else 0))"

lemma kept_is_route: "kept t t' a \<Longrightarrow> is_route t' ks x \<longleftrightarrow> is_route t ks x"
  unfolding kept_def is_route_def by (cases "rt_mem t x") (force, metis option.inject)

lemma table_inv_lock:
  assumes "table_inv t" "rt_mem t a = Some nd"
  shows "table_inv (t\<lparr>rt_mem := (rt_mem t)(a \<mapsto> nd\<lparr>rn_lock := rn_lock nd + 1\<rparr>)\<rparr>)"
  using assms tree_inv_upd [OF table_inv_tree [OF assms(1)] assms(2), of "nd\<lparr>rn_lock := rn_lock nd + 1\<rparr>"]
  by (auto simp: table_inv_def insert_absorb domI)

definition get_result :: "'i route_table \<Rightarrow> prefix_t \<Rightarrow> nat \<Rightarrow> 'i route_table \<Rightarrow> bool" where
  "get_result t pre a t' \<longleftrightarrow> table_inv t' \<and> kept t t' a \<and>
     (\<exists>nd. rt_mem t' a = Some nd \<and> key nd = pbits pre \<and> 0 < rn_lock nd)"

lemma get_found:
  assumes "table_inv t" "rt_mem t a = Some nd" "key nd = pbits pre"
  shows "\<exists>t'. route_lock_node a t = Some t' \<and> get_result t pre a t'"
  using assms table_inv_lock [OF assms(1,2)] route_lock_node_Some [OF assms(2)]
  by (auto simp: get_result_def kept_def)

abbreviation leaf_node :: "prefix_t \<Rightarrow> nat option \<Rightarrow> 'i route_node" where
  "leaf_node q par \<equiv> \<lparr>rn_p = q, rn_parent = par, rn_left = None, rn_right = None, rn_lock = 1, rn_info = None\<rparr>"

lemma lk_leaf [simp]:
  "lk \<lparr>rn_p = q, rn_parent = par, rn_left = None, rn_right = None, rn_lock = l, rn_info = i\<rparr> b = None"
  by (simp add: lk_def)

lemma table_inv_brk: "table_inv t \<Longrightarrow> rt_mem t (rt_brk t + k) = None"
  by (simp add: table_inv_def)

lemma route_node_set_eq:
  "prefix_copy prefix_new pre = Some c \<Longrightarrow>
   route_node_set t pre = Some (rt_brk t, t\<lparr>rt_mem := (rt_mem t)(rt_brk t \<mapsto> (leaf_node c None)\<lparr>rn_lock := 0\<rparr>),
     rt_brk := Suc (rt_brk t)\<rparr>)"
  by (simp add: route_node_set_def route_node_new_def node_upd_def Let_def)

lemma get_first:
  assumes inv: "table_inv t" and pre: "wf_prefix pre" and top: "rt_top t = None"
  shows "\<exists>a t'. Option.bind (route_node_set t pre) (\<lambda>(new, t1).
         Option.bind (attach None new t1) (\<lambda>t2.
         map_option (Pair new) (route_lock_node new (t2\<lparr>rt_count := rt_count t2 + 1\<rparr>)))) = Some (a, t') \<and>
       get_result t pre a t'"
proof -
  from prefix_copy_new [OF pre] obtain q where
    q: "prefix_copy prefix_new pre = Some q" "wf_prefix q" "pbits q = pbits pre" by blast
  have emp: "rt_mem t = Map.empty" using inv top by (auto simp: table_inv_def dest: tree_inv_empty)
  have "tree_inv (Some (rt_brk t)) [rt_brk t \<mapsto> leaf_node q None]"
    using q by (auto simp: tree_inv_def)
  then show ?thesis using q inv
    by (auto simp: route_node_set_def route_node_new_def node_upd_def attach_def route_lock_node_def
        get_result_def table_inv_def kept_def emp Let_def)
qed

lemma get_leaf:
  assumes inv: "table_inv t" and pre: "wf_prefix pre" and q: "rt_mem t q = Some qd"
    and b: "prefix (key qd @ [b]) (pbits pre)" "lk qd b = None"
  shows "\<exists>a t'. Option.bind (route_node_set t pre) (\<lambda>(new, t1).
         Option.bind (attach (Some q) new t1) (\<lambda>t2.
         map_option (Pair new) (route_lock_node new (t2\<lparr>rt_count := rt_count t2 + 1\<rparr>)))) = Some (a, t') \<and>
       get_result t pre a t'"
proof -
  from prefix_copy_new [OF pre] obtain c where
    c: "prefix_copy prefix_new pre = Some c" "wf_prefix c" "pbits c = pbits pre" by blast
  let ?n = "rt_brk t"
  have n: "rt_mem t ?n = None" using table_inv_brk [OF inv, of 0] by simp
  then have qn: "q \<noteq> ?n" using q by auto
  have "tree_inv (rt_top t) ((rt_mem t)(q \<mapsto> set_lk b (Some ?n) qd, ?n \<mapsto> leaf_node c (Some q)))"
    by (rule insert_leaf [OF table_inv_tree [OF inv] q b(2) n]) (use c b in auto)
  moreover have "card (dom ((rt_mem t)(q \<mapsto> set_lk b (Some ?n) qd, ?n \<mapsto> leaf_node c (Some q)))) =
      Suc (card (dom (rt_mem t)))"
    using q n inv by (simp add: table_inv_def insert_absorb domI domIff)
  moreover have "\<exists>t'. Option.bind (route_node_set t pre) (\<lambda>(new, t1).
         Option.bind (attach (Some q) new t1) (\<lambda>t2.
         map_option (Pair new) (route_lock_node new (t2\<lparr>rt_count := rt_count t2 + 1\<rparr>)))) = Some (?n, t') \<and>
       rt_mem t' = (rt_mem t)(q \<mapsto> set_lk b (Some ?n) qd, ?n \<mapsto> leaf_node c (Some q)) \<and>
       rt_top t' = rt_top t \<and> rt_brk t' = Suc ?n \<and> rt_count t' = rt_count t + 1"
    using q qn c(3) b(1)
    by (simp add: route_node_set_eq [OF c(1)] attach_def set_link_Some [where b = b] route_lock_node_def node_upd_def)
  ultimately show ?thesis
    using inv q n qn c by (auto simp: get_result_def table_inv_def kept_def)
qed

section \<open>The two-step insertion\<close>

text \<open>The data of every node but \<open>g\<close> is unchanged, and so is which links are in use.\<close>

definition frame_but :: "nat \<Rightarrow> (nat \<rightharpoonup> 'i route_node) \<Rightarrow> (nat \<rightharpoonup> 'i route_node) \<Rightarrow> bool" where
  "frame_but g m m' \<longleftrightarrow> (\<forall>y. y \<noteq> g \<longrightarrow>
     (case m y of
        None \<Rightarrow> m' y = None
      | Some yd \<Rightarrow> \<exists>yd'. m' y = Some yd' \<and> rn_p yd' = rn_p yd \<and> rn_info yd' = rn_info yd \<and>
          rn_lock yd' = rn_lock yd \<and> (\<forall>b. lk yd' b = None \<longleftrightarrow> lk yd b = None)))"

lemma frame_butD:
  "frame_but g m m' \<Longrightarrow> y \<noteq> g \<Longrightarrow> m y = Some yd \<Longrightarrow>
   \<exists>yd'. m' y = Some yd' \<and> rn_p yd' = rn_p yd \<and> rn_info yd' = rn_info yd \<and>
     rn_lock yd' = rn_lock yd \<and> (\<forall>b. lk yd' b = None \<longleftrightarrow> lk yd b = None)"
  unfolding frame_but_def by (drule spec [of _ y]) simp

lemma frame_butN: "frame_but g m m' \<Longrightarrow> y \<noteq> g \<Longrightarrow> m y = None \<Longrightarrow> m' y = None"
  unfolding frame_but_def by (drule spec [of _ y]) simp

lemma frame_but_dom:
  assumes "frame_but g m m'" "m' g = Some gd"
  shows "dom m' = insert g (dom m)"
proof (rule set_eqI)
  fix y
  show "y \<in> dom m' \<longleftrightarrow> y \<in> insert g (dom m)"
    using frame_butD [OF assms(1), of y] frame_butN [OF assms(1), of y] assms(2)
    by (cases "y = g"; cases "m y") auto
qed

lemma route_node_new_p:
  "route_node_new t = (rt_brk t, t1) \<Longrightarrow>
   node_upd (rt_brk t) (\<lambda>x. x\<lparr>rn_p := f (rn_p x)\<rparr>) t1 =
     Some (t\<lparr>rt_mem := (rt_mem t)(rt_brk t \<mapsto> (leaf_node (f prefix_new) None)\<lparr>rn_lock := 0\<rparr>),
       rt_brk := Suc (rt_brk t)\<rparr>)"
  by (auto simp: route_node_new_def node_upd_def)

lemma fst_route_node_new: "\<exists>t1. route_node_new t = (rt_brk t, t1)"
  by (simp add: route_node_new_def)

definition glue_steps :: "'i route_table \<Rightarrow> prefix_t \<Rightarrow> nat option \<Rightarrow> nat \<Rightarrow> 'i route_node \<Rightarrow> 'i route_table option" where
  "glue_steps t pre mtch node nd =
     (let (new, t1) = route_node_new t in
      Option.bind (node_upd new (\<lambda>x. x\<lparr>rn_p := (route_common (rn_p nd) pre (rn_p x))\<lparr>family := family pre\<rparr>\<rparr>) t1) (\<lambda>t2.
      Option.bind (set_link new node t2) (\<lambda>t3. attach mtch new t3)))"

lemma glue_steps_spec:
  assumes inv: "table_inv t" and x: "rt_mem t x = Some xd"
    and at: "get_at (rt_top t) (rt_mem t) (pbits pre) mtch (Some x)"
    and c: "c = (route_common (rn_p xd) pre prefix_new)\<lparr>family := family pre\<rparr>" "wf_prefix c"
      "prefix (pbits c @ [bx]) (key xd)"
      "\<And>ks. prefix ks (key xd) \<Longrightarrow> prefix ks (pbits pre) \<Longrightarrow> prefix ks (pbits c)"
  shows "\<exists>t4 gd. glue_steps t pre mtch x xd = Some t4 \<and> tree_inv (rt_top t4) (rt_mem t4) \<and>
    rt_mem t4 (rt_brk t) = Some gd \<and> rn_p gd = c \<and> rn_lock gd = 0 \<and> rn_info gd = None \<and>
    lk gd bx = Some x \<and> lk gd (\<not> bx) = None \<and>
    rt_brk t4 = Suc (rt_brk t) \<and> rt_count t4 = rt_count t \<and> frame_but (rt_brk t) (rt_mem t) (rt_mem t4)"
proof -
  let ?g = "rt_brk t"
  define g0 :: "'a route_node" where "g0 = (leaf_node c None)\<lparr>rn_lock := 0\<rparr>"
  define t2 where "t2 = t\<lparr>rt_mem := (rt_mem t)(?g \<mapsto> g0), rt_brk := Suc ?g\<rparr>"
  define t3 where "t3 = t2\<lparr>rt_mem := (rt_mem t)(?g \<mapsto> set_lk bx (Some x) g0, x \<mapsto> xd\<lparr>rn_parent := Some ?g\<rparr>)\<rparr>"
  note ti = table_inv_tree [OF inv]
  have g: "rt_mem t ?g = None" using table_inv_brk [OF inv, of 0] by simp
  then have xg: "x \<noteq> ?g" using x by auto
  have g0: "rn_p g0 = c" "rn_parent g0 = None" "\<And>b. lk g0 b = None" "rn_lock g0 = 0" "rn_info g0 = None"
    by (simp_all add: g0_def)
  have "set_link ?g x t2 = Some t3"
    using set_link_Some [of t2 ?g g0 x xd bx] x xg c(3) g0(1) by (simp add: t2_def t3_def)
  moreover obtain t1 where t1: "route_node_new t = (?g, t1)" using fst_route_node_new by blast
  ultimately have steps: "glue_steps t pre mtch x xd = attach mtch ?g t3"
    using route_node_new_p [OF t1, of "\<lambda>u. (route_common (rn_p xd) pre u)\<lparr>family := family pre\<rparr>"]
    by (simp add: glue_steps_def c(1) t2_def g0_def)
  show ?thesis
  proof (cases mtch)
    case None
    then have tp: "rt_top t = Some x" using at by (simp add: get_at_def)
    have "tree_inv (Some ?g) (rt_mem t3)"
      using insert_glue_top [of x "rt_mem t" xd ?g "set_lk bx (Some x) g0" bx] ti tp x g g0 c xg
      by (simp add: t3_def fun_upd_twist)
    moreover have "glue_steps t pre mtch x xd = Some (t3\<lparr>rt_top := Some ?g\<rparr>)"
      using steps None by (simp add: attach_def)
    moreover have "frame_but ?g (rt_mem t) (rt_mem t3)"
      using x xg by (auto simp: frame_but_def t3_def split: option.split)
    ultimately show ?thesis using g0 xg by (auto simp: t3_def t2_def)
  next
    case (Some q)
    then obtain qd b where q: "rt_mem t q = Some qd" "prefix (key qd @ [b]) (pbits pre)" "lk qd b = Some x"
      using at by (auto simp: get_at_def)
    have ne: "q \<noteq> ?g" "x \<noteq> q" using q g key_neq_parent [OF ti q(1,3)] by auto
    have qx: "prefix (key qd @ [b]) (key xd)" using tree_inv_child [OF ti q(1,3)] x by (metis option.inject)
    then have qc: "prefix (key qd @ [b]) (pbits c)" using c(4) q(2) by blast
    define t4 where "t4 = t3\<lparr>rt_mem := (rt_mem t3)(q \<mapsto> set_lk b (Some ?g) qd,
        ?g \<mapsto> (set_lk bx (Some x) g0)\<lparr>rn_parent := Some q\<rparr>)\<rparr>"
    have "set_link q ?g t3 = Some t4"
      using set_link_Some [of t3 q qd ?g "set_lk bx (Some x) g0" b] q ne xg qc g0
      by (simp add: t3_def t4_def)
    then have "glue_steps t pre mtch x xd = Some t4" using steps Some by (simp add: attach_def)
    moreover have m4: "rt_mem t4 = (rt_mem t)(x \<mapsto> xd\<lparr>rn_parent := Some ?g\<rparr>, q \<mapsto> set_lk b (Some ?g) qd,
        ?g \<mapsto> (set_lk bx (Some x) g0)\<lparr>rn_parent := Some q\<rparr>)"
      using ne xg by (auto simp: t4_def t3_def fun_eq_iff)
    moreover have "tree_inv (rt_top t) (rt_mem t4)"
      unfolding m4
      by (rule insert_glue [OF ti x g q(1,3)]) (use c g0 qc in auto)
    moreover have "frame_but ?g (rt_mem t) (rt_mem t4)"
      unfolding m4 using x xg q ne by (auto simp: frame_but_def split: option.split)
    ultimately show ?thesis using g0 by (auto simp: t4_def t3_def t2_def)
  qed
qed

section \<open>Insertion is correct\<close>

lemma bind_bind: "Option.bind (Option.bind a f) g = Option.bind a (\<lambda>x. Option.bind (f x) g)"
  by (cases a) auto

lemma route_node_get_glue:
  assumes "get_loop (rt_mem t) pre None (rt_top t) = Some (Missing mtch (Some x))" "rt_mem t x = Some xd"
  shows "route_node_get t pre = Option.bind (glue_steps t pre mtch x xd) (\<lambda>t4.
    case rt_mem t4 (rt_brk t) of
      None \<Rightarrow> None
    | Some nw \<Rightarrow>
        if prefixlen (rn_p nw) \<noteq> prefixlen pre then
          Option.bind (route_node_set t4 pre) (\<lambda>(new', t5).
          Option.bind (set_link (rt_brk t) new' t5) (\<lambda>t6.
          map_option (Pair new') (route_lock_node new' (t6\<lparr>rt_count := rt_count t6 + 1 + 1\<rparr>))))
        else map_option (Pair (rt_brk t)) (route_lock_node (rt_brk t) (t4\<lparr>rt_count := rt_count t4 + 1\<rparr>)))"
  using assms fst_route_node_new [of t]
  by (auto simp: route_node_get_def glue_steps_def bind_bind)

lemma get_glue:
  assumes inv: "table_inv t" and pre: "wf_prefix pre" and x: "rt_mem t x = Some xd"
    and np: "\<not> prefix (key xd) (pbits pre)"
    and at: "get_at (rt_top t) (rt_mem t) (pbits pre) mtch (Some x)"
    and loop: "get_loop (rt_mem t) pre None (rt_top t) = Some (Missing mtch (Some x))"
  shows "\<exists>a t'. route_node_get t pre = Some (a, t') \<and> get_result t pre a t'"
proof -
  define c where "c = (route_common (rn_p xd) pre prefix_new)\<lparr>family := family pre\<rparr>"
  note ti = table_inv_tree [OF inv]
  note gp = glue_prefix [OF tree_inv_wf [OF ti x] pre np, folded c_def]
  from gp(2) obtain bx where bx: "prefix (pbits c @ [bx]) (key xd)"
    "prefixlen c = prefixlen pre \<and> pbits c = pbits pre \<or>
     prefixlen c \<noteq> prefixlen pre \<and> prefix (pbits c @ [\<not> bx]) (pbits pre)" by blast
  let ?g = "rt_brk t"
  from glue_steps_spec [OF inv x at c_def gp(1) bx(1) gp(3)] obtain t4 gd where
    t4: "glue_steps t pre mtch x xd = Some t4" "tree_inv (rt_top t4) (rt_mem t4)"
      "rt_mem t4 ?g = Some gd" "rn_p gd = c" "rn_lock gd = 0" "rn_info gd = None"
      "lk gd bx = Some x" "lk gd (\<not> bx) = None" "rt_brk t4 = Suc ?g" "rt_count t4 = rt_count t"
      "frame_but ?g (rt_mem t) (rt_mem t4)" by blast
  have g: "rt_mem t ?g = None" "rt_mem t (Suc ?g) = None"
    using table_inv_brk [OF inv, of 0] table_inv_brk [OF inv, of 1] by simp_all
  have dom4: "dom (rt_mem t4) = insert ?g (dom (rt_mem t))" using frame_but_dom [OF t4(11,3)] .
  have fin: "finite (dom (rt_mem t))" and cnt: "rt_count t = card (dom (rt_mem t))"
    and locks: "\<And>a nd. rt_mem t a = Some nd \<Longrightarrow> rn_lock nd = 0 \<Longrightarrow> (\<forall>b. lk nd b \<noteq> None) \<and> rn_info nd = None"
    and brk: "\<And>a. ?g \<le> a \<Longrightarrow> rt_mem t a = None"
    using inv by (auto simp: table_inv_def)
  have c4: "card (dom (rt_mem t4)) = Suc (rt_count t)"
    using dom4 fin g(1) by (simp add: cnt domIff)
  have fr: "\<exists>yd'. rt_mem t4 y = Some yd' \<and> rn_p yd' = rn_p yd \<and> rn_info yd' = rn_info yd \<and>
      rn_lock yd' = rn_lock yd \<and> (\<forall>b. lk yd' b = None \<longleftrightarrow> lk yd b = None)"
    if y: "rt_mem t y = Some yd" for y yd
  proof -
    have "y \<noteq> ?g" using y g(1) by auto
    from frame_butD [OF t4(11) this y] show ?thesis .
  qed
  have locks4: "(\<forall>b. lk nd b \<noteq> None) \<and> rn_info nd = None"
    if "rt_mem t4 a = Some nd" "rn_lock nd = 0" "a \<noteq> ?g" for a nd
  proof -
    have "rt_mem t a \<noteq> None" using frame_butN [OF t4(11) that(3)] that(1) by auto
    then obtain ad where ad: "rt_mem t a = Some ad" by auto
    from fr [OF this] that show ?thesis using locks [OF ad] by auto
  qed
  have brk4: "rt_mem t4 a = None" if "Suc ?g \<le> a" for a
    using frame_butN [OF t4(11), of a] brk [of a] that by simp
  have new4: "a = ?g" if "rt_mem t4 a = Some nd" "rt_mem t a = None" for a nd
    using frame_butN [OF t4(11) _ that(2)] that(1) by auto
  from bx(2) show ?thesis
  proof
    assume eq: "prefixlen c = prefixlen pre \<and> pbits c = pbits pre"
    have "\<exists>t'. route_node_get t pre = Some (?g, t') \<and>
        rt_mem t' = (rt_mem t4)(?g \<mapsto> gd\<lparr>rn_lock := 1\<rparr>) \<and> rt_top t' = rt_top t4 \<and>
        rt_brk t' = Suc ?g \<and> rt_count t' = rt_count t + 1"
      using eq t4 by (simp add: route_node_get_glue [OF loop x] route_lock_node_def node_upd_def)
    then obtain t' where t': "route_node_get t pre = Some (?g, t')"
        "rt_mem t' = (rt_mem t4)(?g \<mapsto> gd\<lparr>rn_lock := 1\<rparr>)" "rt_top t' = rt_top t4"
        "rt_brk t' = Suc ?g" "rt_count t' = rt_count t + 1" by blast
    have "tree_inv (rt_top t') (rt_mem t')" unfolding t' by (rule tree_inv_upd [OF t4(2,3)]) auto
    moreover have "dom (rt_mem t') = insert ?g (dom (rt_mem t))" using dom4 t'(2) by auto
    ultimately have "table_inv t'"
      using t'(2-5) c4 fin dom4 brk4 locks4 by (auto simp: table_inv_def)
    moreover have "kept t t' ?g"
      using t'(2) fr g(1) new4 t4(6) by (auto simp: kept_def) force+
    ultimately show ?thesis using t' eq t4(4) by (auto simp: get_result_def)
  next
    assume ne: "prefixlen c \<noteq> prefixlen pre \<and> prefix (pbits c @ [\<not> bx]) (pbits pre)"
    from prefix_copy_new [OF pre] obtain cp where
      cp: "prefix_copy prefix_new pre = Some cp" "wf_prefix cp" "pbits cp = pbits pre" by blast
    let ?n = "Suc ?g"
    have n4: "rt_mem t4 ?n = None" using frame_butN [OF t4(11) _ g(2)] by simp
    have "\<exists>t'. route_node_get t pre = Some (?n, t') \<and>
        rt_mem t' = (rt_mem t4)(?g \<mapsto> set_lk (\<not> bx) (Some ?n) gd, ?n \<mapsto> leaf_node cp (Some ?g)) \<and>
        rt_top t' = rt_top t4 \<and> rt_brk t' = Suc ?n \<and> rt_count t' = rt_count t + 2"
      using ne t4 cp
      by (simp add: route_node_get_glue [OF loop x] route_node_set_eq [OF cp(1)]
          set_link_Some [where b = "\<not> bx"] route_lock_node_def node_upd_def)
    then obtain t' where t': "route_node_get t pre = Some (?n, t')"
        "rt_mem t' = (rt_mem t4)(?g \<mapsto> set_lk (\<not> bx) (Some ?n) gd, ?n \<mapsto> leaf_node cp (Some ?g))"
        "rt_top t' = rt_top t4" "rt_brk t' = Suc ?n" "rt_count t' = rt_count t + 2" by blast
    have "tree_inv (rt_top t') (rt_mem t')" unfolding t'
      by (rule insert_leaf [OF t4(2,3,8) n4]) (use cp ne t4(4) in auto)
    moreover have "dom (rt_mem t') = insert ?n (insert ?g (dom (rt_mem t)))" using dom4 t'(2) by auto
    moreover have "card (insert ?n (insert ?g (dom (rt_mem t)))) = rt_count t + 2"
      using fin g by (simp add: cnt domIff)
    moreover have "\<forall>b. lk (set_lk (\<not> bx) (Some ?n) gd) b \<noteq> None" using t4(7) by (auto; metis)
    ultimately have "table_inv t'"
      using t'(2-5) t4(5,6) fin brk4 locks4 by (auto simp: table_inv_def)
    moreover have "kept t t' ?n"
      using t'(2) fr g new4 t4(5,6) by (auto simp: kept_def) force+
    ultimately show ?thesis using t' cp by (auto simp: get_result_def)
  qed
qed

lemma route_node_get_correct:
  assumes inv: "table_inv t" and pre: "wf_prefix pre"
  shows "\<exists>a t'. route_node_get t pre = Some (a, t') \<and> get_result t pre a t'"
proof -
  note ti = table_inv_tree [OF inv]
  have "get_at (rt_top t) (rt_mem t) (pbits pre) None (rt_top t)" by (simp add: get_at_def)
  from get_loop_spec [OF ti this] obtain w where
    w: "get_loop (rt_mem t) pre None (rt_top t) = Some w" "get_done (rt_top t) (rt_mem t) (pbits pre) w"
    by blast
  show ?thesis
  proof (cases w)
    case (Found a)
    then obtain nd where "rt_mem t a = Some nd" "key nd = pbits pre" using w by (auto simp: get_done_def)
    from get_found [OF inv this] show ?thesis using w Found by (auto simp: route_node_get_def)
  next
    case (Missing mtch node)
    then have at: "get_at (rt_top t) (rt_mem t) (pbits pre) mtch node" using w by (simp add: get_done_def)
    show ?thesis
    proof (cases node)
      case None
      show ?thesis
      proof (cases mtch)
        case mN: None
        then have "rt_top t = None" using at None by (simp add: get_at_def)
        from get_first [OF inv pre this] show ?thesis
          using w Missing None mN by (simp add: route_node_get_def)
      next
        case (Some q)
        then obtain qd b where "rt_mem t q = Some qd" "prefix (key qd @ [b]) (pbits pre)" "lk qd b = None"
          using at None by (auto simp: get_at_def)
        from get_leaf [OF inv pre this] show ?thesis
          using w Missing None Some by (simp add: route_node_get_def)
      qed
    next
      case (Some x)
      then obtain xd where xd: "rt_mem t x = Some xd" using get_at_dom [OF ti] at by blast
      then have np: "\<not> prefix (key xd) (pbits pre)" using w Missing Some by (auto simp: get_done_def)
      show ?thesis using get_glue [OF inv pre xd np] at w Missing Some by simp
    qed
  qed
qed

end
