(* ===== verification/Radix_Delete.thy ===== *)
theory Radix_Delete
  imports Radix_Insert
begin

text \<open>
  Correctness of \<^verbatim>\<open>route_unlock_node\<close> and \<^verbatim>\<open>route_node_delete\<close>: dropping the last
  reference of a node that carries no route unlinks it, and then every ancestor that is
  left without a reason to exist, and keeps the invariant, the routes and the locks.
\<close>

section \<open>Unlinking a node\<close>



abbreviation only_child :: "'i route_node \<Rightarrow> nat option" where
  "only_child nd \<equiv> (if rn_left nd \<noteq> None then rn_left nd else rn_right nd)"

definition reparent :: "nat option \<Rightarrow> nat option \<Rightarrow> (nat \<rightharpoonup> 'i route_node) \<Rightarrow> (nat \<rightharpoonup> 'i route_node)" where
  "reparent child par m =
     (case child of
        None \<Rightarrow> m
      | Some c \<Rightarrow> (case m c of None \<Rightarrow> m | Some cd \<Rightarrow> m(c \<mapsto> cd\<lparr>rn_parent := par\<rparr>)))"

lemma only_child_lk:
  "\<not> (rn_left nd \<noteq> None \<and> rn_right nd \<noteq> None) \<Longrightarrow>
   (only_child nd = Some c \<longleftrightarrow> (\<exists>b. lk nd b = Some c)) \<and> (only_child nd = None \<longleftrightarrow> (\<forall>b. lk nd b = None))"
  by (auto simp: lk_def)

lemma lk_unique:
  assumes "tree_inv tp m" "m a = Some nd" "lk nd b = Some c" "lk nd b' = Some c"
  shows "b' = b"
  using tree_inv_child [OF assms(1,2,3)] tree_inv_child [OF assms(1,2,4)]
  by (metis option.inject snoc_prefix_unique)

lemma reparent_cases:
  assumes "reparent child par m x = Some xd"
  obtains "child = Some x" "xd = (the (m x))\<lparr>rn_parent := par\<rparr>" "m x \<noteq> None"
  | "child \<noteq> Some x" "m x = Some xd"
  using assms by (cases "child = Some x") (auto simp: reparent_def split: option.splits if_splits)

lemma reparent_at:
  "m x = Some xd \<Longrightarrow> reparent child par m x = Some (if child = Some x then xd\<lparr>rn_parent := par\<rparr> else xd)"
  by (auto simp: reparent_def split: option.splits)

lemma remove_top:
  assumes inv: "tree_inv (Some a) m" and a: "m a = Some nd"
    and one: "\<not> (rn_left nd \<noteq> None \<and> rn_right nd \<noteq> None)"
  shows "tree_inv (only_child nd) ((reparent (only_child nd) None m)(a := None))" (is "tree_inv ?c ?m")
proof (rule tree_invI)
  have ap: "rn_parent nd = None" using tree_inv_top [OF inv] a by simp
  have ca: "?c \<noteq> Some a" using only_child_lk [OF one, of a] key_neq_parent [OF inv a] by blast
  fix x xd assume x: "?m x = Some xd"
  then have xa: "x \<noteq> a" and rx: "reparent ?c None m x = Some xd" by (auto split: if_splits)
  from rx obtain x0 where x0: "m x = Some x0" "rn_p xd = rn_p x0" "\<And>b. lk xd b = lk x0 b"
    "rn_parent xd = (if ?c = Some x then None else rn_parent x0)"
    by (rule reparent_cases) auto
  show "wf_prefix (rn_p xd)" using tree_inv_wf [OF inv x0(1)] x0 by simp
  show "?c = Some x" if "rn_parent xd = None"
    using that x0 xa tree_inv_root [OF inv x0(1)] by (auto split: if_splits)
  show "\<exists>cd. ?m c = Some cd \<and> rn_parent cd = Some x \<and> prefix (key xd @ [b]) (key cd)"
    if l: "lk xd b = Some c" for b c
  proof -
    from l x0 have "lk x0 b = Some c" by simp
    from tree_inv_child [OF inv x0(1) this] obtain cd where
      cd: "m c = Some cd" "rn_parent cd = Some x" "prefix (key x0 @ [b]) (key cd)" .
    have "c \<noteq> a" using cd a ap by auto
    moreover have "?c \<noteq> Some c"
    proof
      assume "?c = Some c"
      then obtain b' where "lk nd b' = Some c" using only_child_lk [OF one, of c] by blast
      from tree_inv_child [OF inv a this] cd xa show False by (metis option.inject)
    qed
    ultimately show ?thesis using cd x0 reparent_at [of m c cd "?c" None] by auto
  qed
  show "\<exists>qd b. ?m q = Some qd \<and> lk qd b = Some x" if pa: "rn_parent xd = Some q" for q
  proof -
    from pa x0 have cx: "?c \<noteq> Some x" and "rn_parent x0 = Some q" by (auto split: if_splits)
    from tree_inv_parent [OF inv x0(1) this(2)] obtain qd b where qd: "m q = Some qd" "lk qd b = Some x" by metis
    have "q \<noteq> a" using qd a cx only_child_lk [OF one, of x] by auto
    then show ?thesis using qd reparent_at [of m q qd "?c" None] by (auto intro!: exI [of _ b])
  qed
next
  fix c assume c: "?c = Some c"
  then obtain b where b: "lk nd b = Some c" using only_child_lk [OF one, of c] by blast
  from tree_inv_child [OF inv a b] obtain cd where cd: "m c = Some cd" by metis
  have "c \<noteq> a" using key_neq_parent [OF inv a b] .
  then show "\<exists>nd'. ?m c = Some nd' \<and> rn_parent nd' = None"
    using reparent_at [of m c cd "?c" None] c cd by simp
qed

lemma remove_below:
  assumes inv: "tree_inv tp m" and a: "m a = Some nd" "rn_parent nd = Some q"
    and one: "\<not> (rn_left nd \<noteq> None \<and> rn_right nd \<noteq> None)"
    and q: "m q = Some qd" "lk qd b = Some a"
  shows "tree_inv tp ((reparent (only_child nd) (Some q) m)(q \<mapsto> set_lk b (only_child nd) qd, a := None))"
    (is "tree_inv tp ?m")
proof (rule tree_invI)
  let ?c = "only_child nd"
  have qa: "a \<noteq> q" using key_neq_parent [OF inv q] .
  have qpre: "prefix (key qd @ [b]) (key nd)" using tree_inv_child [OF inv q] a by (metis option.inject)
  have cq: "?c \<noteq> Some q"
  proof
    assume "?c = Some q"
    then obtain b' where "lk nd b' = Some q" using only_child_lk [OF one, of q] by blast
    from tree_inv_child [OF inv a(1) this] q(1) have "prefix (key nd @ [b']) (key qd)" by (metis option.inject)
    with qpre show False by (auto dest!: prefix_length_le)
  qed
  have ca: "?c \<noteq> Some a" using only_child_lk [OF one, of a] key_neq_parent [OF inv a(1)] by blast
  fix x xd assume x: "?m x = Some xd"
  then have xa: "x \<noteq> a" by (auto split: if_splits)
  obtain x0 where x0: "m x = Some x0" "rn_p xd = rn_p x0"
    "\<And>b'. lk xd b' = (if x = q \<and> b' = b then ?c else lk x0 b')"
    "rn_parent xd = (if ?c = Some x then Some q else rn_parent x0)"
  proof (cases "x = q")
    case True
    then show ?thesis using that [of qd] x q xa cq by auto
  next
    case False
    then have "reparent ?c (Some q) m x = Some xd" using x xa by simp
    then show ?thesis by (rule reparent_cases) (use that False in auto)
  qed
  show "wf_prefix (rn_p xd)" using tree_inv_wf [OF inv x0(1)] x0 by simp
  show "tp = Some x" if "rn_parent xd = None"
    using that x0 tree_inv_root [OF inv x0(1)] by (auto split: if_splits)
  show "\<exists>cd. ?m c = Some cd \<and> rn_parent cd = Some x \<and> prefix (key xd @ [b']) (key cd)"
    if l: "lk xd b' = Some c" for b' c
  proof (cases "x = q \<and> b' = b")
    case True
    then have c: "?c = Some c" using l x0(3) by simp
    then obtain bc where bc: "lk nd bc = Some c" using only_child_lk [OF one, of c] by blast
    from tree_inv_child [OF inv a(1) bc] obtain cd where
      cd: "m c = Some cd" "prefix (key nd @ [bc]) (key cd)" by metis
    have "prefix (key qd @ [b]) (key cd)" using qpre cd(2) by (meson append_prefixD prefix_order.trans)
    moreover have "c \<noteq> a" "c \<noteq> q" using c ca cq by auto
    ultimately show ?thesis using True c cd x0 q(1) reparent_at [of m c cd "?c" "Some q"] by auto
  next
    case False
    then have l0: "lk x0 b' = Some c" using l x0(3) [of b'] by (simp only: if_False)
    from tree_inv_child [OF inv x0(1) l0] obtain cd where
      cd: "m c = Some cd" "rn_parent cd = Some x" "prefix (key x0 @ [b']) (key cd)" .
    have "c \<noteq> a"
    proof
      assume "c = a"
      then have "x = q" using cd a by auto
      then have "b' = b" using lk_unique [OF inv q] l0 x0(1) q(1) \<open>c = a\<close> by auto
      with False \<open>x = q\<close> show False by simp
    qed
    moreover have "?c \<noteq> Some c"
    proof
      assume "?c = Some c"
      then obtain b'' where "lk nd b'' = Some c" using only_child_lk [OF one, of c] by blast
      from tree_inv_child [OF inv a(1) this] cd xa show False by (metis option.inject)
    qed
    ultimately show ?thesis
      using cd x0 q(1) reparent_at [of m c cd "?c" "Some q"] by (cases "c = q") auto
  qed
  show "\<exists>pd b'. ?m p' = Some pd \<and> lk pd b' = Some x" if pa: "rn_parent xd = Some p'" for p'
  proof (cases "?c = Some x")
    case True
    then have "p' = q" using pa x0 by simp
    then show ?thesis using True qa by (auto intro!: exI [of _ b])
  next
    case False
    then have "rn_parent x0 = Some p'" using pa x0 by simp
    from tree_inv_parent [OF inv x0(1) this] obtain pd b' where pd: "m p' = Some pd" "lk pd b' = Some x" by metis
    have pa': "p' \<noteq> a" using pd a False only_child_lk [OF one, of x] by auto
    show ?thesis
    proof (cases "p' = q")
      case True
      then have "pd = qd" using pd q by simp
      then have "b' \<noteq> b" using pd(2) q(2) xa by (intro notI) simp
      then show ?thesis using True pd q qa by (auto intro!: exI [of _ b'])
    next
      case False
      then show ?thesis using pa' pd reparent_at [of m p' pd "?c" "Some q"] by (auto intro!: exI [of _ b'])
    qed
  qed
next
  fix r assume r: "tp = Some r"
  then obtain rd where rd: "m r = Some rd" "rn_parent rd = None" using tree_inv_top inv by metis
  have "r \<noteq> a" using rd a by auto
  moreover have "only_child nd \<noteq> Some r"
  proof
    assume "only_child nd = Some r"
    then obtain b' where "lk nd b' = Some r" using only_child_lk [OF one, of r] by blast
    from tree_inv_child [OF inv a(1) this] rd show False by (metis option.inject option.simps(3))
  qed
  ultimately show "\<exists>nd'. ?m r = Some nd' \<and> rn_parent nd' = None"
    using rd q reparent_at [of m r rd "only_child nd" "Some q"] by (cases "r = q") auto
qed

section \<open>The invariant during a deletion\<close>

definition table_inv_but :: "nat \<Rightarrow> 'i route_table \<Rightarrow> bool" where
  "table_inv_but e t \<longleftrightarrow>
     tree_inv (rt_top t) (rt_mem t) \<and> finite (dom (rt_mem t)) \<and>
     (\<forall>a. rt_brk t \<le> a \<longrightarrow> rt_mem t a = None) \<and>
     rt_count t = card (dom (rt_mem t)) \<and>
     (\<forall>a nd. rt_mem t a = Some nd \<longrightarrow> rn_lock nd = 0 \<longrightarrow>
        (a \<noteq> e \<longrightarrow> (\<forall>b. lk nd b \<noteq> None)) \<and> rn_info nd = None)"

lemma table_inv_butI:
  "tree_inv (rt_top t) (rt_mem t) \<Longrightarrow> finite (dom (rt_mem t)) \<Longrightarrow>
   \<forall>a. rt_brk t \<le> a \<longrightarrow> rt_mem t a = None \<Longrightarrow> rt_count t = card (dom (rt_mem t)) \<Longrightarrow>
   (\<And>a nd. rt_mem t a = Some nd \<Longrightarrow> rn_lock nd = 0 \<Longrightarrow>
      (a \<noteq> e \<longrightarrow> (\<forall>b. lk nd b \<noteq> None)) \<and> rn_info nd = None) \<Longrightarrow> table_inv_but e t"
  unfolding table_inv_but_def by (intro conjI allI impI) simp_all

lemma table_invI:
  "tree_inv (rt_top t) (rt_mem t) \<Longrightarrow> finite (dom (rt_mem t)) \<Longrightarrow>
   \<forall>a. rt_brk t \<le> a \<longrightarrow> rt_mem t a = None \<Longrightarrow> rt_count t = card (dom (rt_mem t)) \<Longrightarrow>
   (\<And>a nd. rt_mem t a = Some nd \<Longrightarrow> rn_lock nd = 0 \<Longrightarrow>
      (\<forall>b. lk nd b \<noteq> None) \<and> rn_info nd = None) \<Longrightarrow> table_inv t"
  unfolding table_inv_def by (intro conjI allI impI) simp_all

lemma table_inv_but_lock:
  "table_inv_but e t \<Longrightarrow> rt_mem t a = Some nd \<Longrightarrow> rn_lock nd = 0 \<Longrightarrow>
   (a \<noteq> e \<longrightarrow> (\<forall>b. lk nd b \<noteq> None)) \<and> rn_info nd = None"
  by (simp add: table_inv_but_def)

definition same_route :: "'i route_node \<Rightarrow> 'i route_node \<Rightarrow> bool" where
  "same_route x y \<longleftrightarrow> rn_p x = rn_p y \<and> rn_lock x = rn_lock y \<and> rn_info x = rn_info y"

definition shrunk :: "'i route_table \<Rightarrow> 'i route_table \<Rightarrow> bool" where
  "shrunk t t' \<longleftrightarrow>
     (\<forall>x xd. rt_mem t x = Some xd \<longrightarrow> rn_lock xd \<noteq> 0 \<longrightarrow> (\<exists>xd'. rt_mem t' x = Some xd' \<and> same_route xd' xd)) \<and>
     (\<forall>x xd'. rt_mem t' x = Some xd' \<longrightarrow> (\<exists>xd. rt_mem t x = Some xd \<and> same_route xd' xd))"

definition spliced :: "nat \<Rightarrow> nat option \<Rightarrow> (nat \<rightharpoonup> 'i route_node) \<Rightarrow> (nat \<rightharpoonup> 'i route_node) \<Rightarrow> bool" where
  "spliced a q m m' \<longleftrightarrow> m' a = None \<and>
     (\<forall>x. x \<noteq> a \<longrightarrow>
        (case m x of
           None \<Rightarrow> m' x = None
         | Some xd \<Rightarrow> (\<exists>xd'. m' x = Some xd' \<and> same_route xd' xd \<and>
             (Some x \<noteq> q \<longrightarrow> (\<forall>b. lk xd' b = lk xd b)))))"

lemma splicedD:
  "spliced a q m m' \<Longrightarrow> x \<noteq> a \<Longrightarrow> m x = Some xd \<Longrightarrow>
   \<exists>xd'. m' x = Some xd' \<and> same_route xd' xd \<and> (Some x \<noteq> q \<longrightarrow> (\<forall>b. lk xd' b = lk xd b))"
  unfolding spliced_def by (elim conjE, drule spec [of _ x]) simp

lemma splicedN: "spliced a q m m' \<Longrightarrow> x = a \<or> m x = None \<Longrightarrow> m' x = None"
  unfolding spliced_def by (elim conjE, drule spec [of _ x]) auto

lemma splicedE:
  assumes "spliced a q m m'" "m' x = Some xd'"
  obtains xd where "x \<noteq> a" "m x = Some xd" "same_route xd' xd" "Some x \<noteq> q \<Longrightarrow> \<forall>b. lk xd' b = lk xd b"
proof -
  from splicedN [OF assms(1), of x] assms(2) have "x \<noteq> a" "m x \<noteq> None" by auto
  then show ?thesis using that splicedD [OF assms(1), of x] assms(2) by force
qed

lemma spliced_dom:
  assumes "spliced a q m m'"
  shows "dom m' = dom m - {a}"
proof (rule set_eqI)
  fix y
  show "y \<in> dom m' \<longleftrightarrow> y \<in> dom m - {a}"
    using splicedD [OF assms, of y] splicedN [OF assms, of y] by (cases "y = a"; cases "m y") auto
qed

lemma shrunk_refl: "shrunk t t"
  by (simp add: shrunk_def same_route_def)

lemma same_route_trans: "same_route x y \<Longrightarrow> same_route y z \<Longrightarrow> same_route x z"
  by (simp add: same_route_def)

lemma shrunk_trans:
  assumes "shrunk t u" "shrunk u v" shows "shrunk t v"
  unfolding shrunk_def
proof (intro conjI allI impI)
  fix x xd assume x: "rt_mem t x = Some xd" "rn_lock xd \<noteq> 0"
  then obtain ud where u: "rt_mem u x = Some ud" "same_route ud xd" using assms(1) unfolding shrunk_def by blast
  moreover from this x have "rn_lock ud \<noteq> 0" by (simp add: same_route_def)
  ultimately obtain vd where "rt_mem v x = Some vd" "same_route vd ud" using assms(2) unfolding shrunk_def by blast
  then show "\<exists>vd. rt_mem v x = Some vd \<and> same_route vd xd" using u same_route_trans by blast
next
  fix x vd assume "rt_mem v x = Some vd"
  then show "\<exists>xd. rt_mem t x = Some xd \<and> same_route vd xd"
    using assms same_route_trans unfolding shrunk_def by meson
qed

lemma shrunk_is_route:
  assumes "table_inv_but e t" "shrunk t t'"
  shows "is_route t' ks x \<longleftrightarrow> is_route t ks x"
proof
  assume "is_route t' ks x"
  then show "is_route t ks x" using assms(2) unfolding is_route_def shrunk_def same_route_def by metis
next
  assume "is_route t ks x"
  then obtain xd where x: "rt_mem t x = Some xd" "key xd = ks" "rn_info xd \<noteq> None" by (auto simp: is_route_def)
  have "rn_lock xd \<noteq> 0"
  proof
    assume "rn_lock xd = 0"
    from table_inv_but_lock [OF assms(1) x(1) this] x(3) show False by simp
  qed
  then obtain xd' where "rt_mem t' x = Some xd'" "same_route xd' xd" using x assms(2) unfolding shrunk_def by blast
  then show "is_route t' ks x" using x by (auto simp: is_route_def same_route_def)
qed

lemma inv_splice:
  assumes inv: "table_inv_but a t" and a: "rt_mem t a = Some nd" "rn_lock nd = 0"
    and sp: "spliced a q (rt_mem t) (rt_mem t')" and ti: "tree_inv (rt_top t') (rt_mem t')"
    and c: "rt_count t' = rt_count t - 1" "rt_brk t' = rt_brk t"
  shows "shrunk t t'" "q = Some e \<Longrightarrow> table_inv_but e t'" "q = None \<Longrightarrow> table_inv t'"
proof -
  show "shrunk t t'" unfolding shrunk_def
  proof (intro conjI allI impI)
    fix x xd assume x: "rt_mem t x = Some xd" "rn_lock xd \<noteq> 0"
    then have "x \<noteq> a" using a by auto
    from splicedD [OF sp this x(1)] show "\<exists>xd'. rt_mem t' x = Some xd' \<and> same_route xd' xd" by blast
  next
    fix x xd' assume "rt_mem t' x = Some xd'"
    with sp show "\<exists>xd. rt_mem t x = Some xd \<and> same_route xd' xd" by (rule splicedE) blast
  qed
  have fin: "finite (dom (rt_mem t'))" and cnt: "rt_count t' = card (dom (rt_mem t'))"
    and brk: "\<forall>x. rt_brk t' \<le> x \<longrightarrow> rt_mem t' x = None"
  proof -
    have i: "finite (dom (rt_mem t))" "rt_count t = card (dom (rt_mem t))" "\<forall>x. rt_brk t \<le> x \<longrightarrow> rt_mem t x = None"
      using inv by (simp_all add: table_inv_but_def)
    show "finite (dom (rt_mem t'))" "rt_count t' = card (dom (rt_mem t'))"
      using i(1,2) a c unfolding spliced_dom [OF sp] by (auto simp: domI)
    show "\<forall>x. rt_brk t' \<le> x \<longrightarrow> rt_mem t' x = None" using i(3) c splicedN [OF sp] by simp
  qed
  have lock: "(Some x \<noteq> q \<longrightarrow> (\<forall>b. lk xd' b \<noteq> None)) \<and> rn_info xd' = None"
    if x: "rt_mem t' x = Some xd'" "rn_lock xd' = 0" for x xd'
  proof -
    obtain xd where
      xd: "x \<noteq> a" "rt_mem t x = Some xd" "same_route xd' xd" "Some x \<noteq> q \<longrightarrow> (\<forall>b. lk xd' b = lk xd b)"
      by (rule splicedE [OF sp x(1)]) blast
    then have "rn_lock xd = 0" using x by (simp add: same_route_def)
    then have "(\<forall>b. lk xd b \<noteq> None) \<and> rn_info xd = None" using table_inv_but_lock [OF inv xd(2)] xd(1) by simp
    then show ?thesis using xd(3,4) by (simp add: same_route_def)
  qed
  show "q = Some e \<Longrightarrow> table_inv_but e t'" 
    by (intro table_inv_butI ti fin cnt brk) (drule (1) lock, simp)
  show "q = None \<Longrightarrow> table_inv t'" 
    by (intro table_invI ti fin cnt brk) (drule (1) lock, simp)
qed

lemma table_inv_but_locked:
  assumes "table_inv_but e t" "rt_mem t e = Some nd" "rn_lock nd \<noteq> 0 \<or> (\<forall>b. lk nd b \<noteq> None)"
  shows "table_inv t"
proof -
  have "(\<forall>b. lk xd b \<noteq> None) \<and> rn_info xd = None" if "rt_mem t x = Some xd" "rn_lock xd = 0" for x xd
  proof (cases "x = e")
    case True
    then have "xd = nd" using that assms(2) by simp
    then have "\<forall>b. lk xd b \<noteq> None" using that(2) assms(3) by simp
    then show ?thesis using table_inv_but_lock [OF assms(1) that] by (elim conjE) (intro conjI)
  next
    case False
    then show ?thesis using table_inv_but_lock [OF assms(1) that] by (elim conjE) (intro conjI, elim mp)
  qed
  moreover have "tree_inv (rt_top t) (rt_mem t)" "finite (dom (rt_mem t))"
    "\<forall>a. rt_brk t \<le> a \<longrightarrow> rt_mem t a = None" "rt_count t = card (dom (rt_mem t))"
    using assms(1) by (simp_all add: table_inv_but_def)
  ultimately show ?thesis by (intro table_invI)
qed

section \<open>Deletion is correct\<close>

lemma reparent_upd:
  assumes "\<forall>c. child = Some c \<longrightarrow> rt_mem t c \<noteq> None"
  shows "\<exists>t1. (case child of None \<Rightarrow> Some t | Some c \<Rightarrow> node_upd c (\<lambda>x. x\<lparr>rn_parent := par\<rparr>) t) = Some t1 \<and>
     rt_mem t1 = reparent child par (rt_mem t) \<and> rt_top t1 = rt_top t \<and> rt_count t1 = rt_count t \<and> rt_brk t1 = rt_brk t"
  using assms by (cases child) (auto simp: reparent_def node_upd_def split: option.splits)

lemma spliced_top:
  "spliced a None m ((reparent child None m)(a := None))"
  unfolding spliced_def by (auto simp: reparent_at same_route_def reparent_def split: option.splits)

lemma spliced_below:
  assumes "m q = Some qd" "a \<noteq> q" "child \<noteq> Some q"
  shows "spliced a (Some q) m ((reparent child (Some q) m)(q \<mapsto> set_lk b child qd, a := None))"
  unfolding spliced_def using assms
  by (auto simp: reparent_at same_route_def reparent_def split: option.splits)

lemma relink_set_lk:
  assumes "tree_inv tp m" "m q = Some qd" "lk qd b = Some a"
  shows "(if rn_left qd = Some a then qd\<lparr>rn_left := child\<rparr> else qd\<lparr>rn_right := child\<rparr>) = set_lk b child qd"
proof (cases b)
  case True
  then have "lk qd False \<noteq> Some a" using lk_unique [OF assms, of False] by auto
  then show ?thesis using True by (simp add: lk_def set_lk_def)
next
  case False
  then show ?thesis using assms(3) by (simp add: lk_def set_lk_def)
qed

definition delete_unlinked :: "nat \<Rightarrow> nat option \<Rightarrow> 'i route_table \<Rightarrow> 'i route_table option" where
  "delete_unlinked node par t3 =
     (case par of
        None \<Rightarrow> Some t3
      | Some q \<Rightarrow>
          (case rt_mem t3 q of
             None \<Rightarrow> None
           | Some qd \<Rightarrow> if rn_lock qd = 0 then route_node_delete q t3 else Some t3))"

lemma delete_unlink:
  assumes inv: "table_inv_but a t" and a: "rt_mem t a = Some nd" "rn_lock nd = 0"
    and one: "\<not> (rn_left nd \<noteq> None \<and> rn_right nd \<noteq> None)"
  shows "\<exists>t3. route_node_delete a t = delete_unlinked a (rn_parent nd) t3 \<and> shrunk t t3 \<and>
     (case rn_parent nd of
        None \<Rightarrow> table_inv t3
      | Some q \<Rightarrow> table_inv_but q t3 \<and> (\<exists>qd. rt_mem t3 q = Some qd \<and> length (key qd) < length (key nd)))"
proof -
  let ?c = "only_child nd"
  have ti: "tree_inv (rt_top t) (rt_mem t)" using inv by (simp add: table_inv_but_def)
  have info: "rn_info nd = None" using table_inv_but_lock [OF inv a] by simp
  have alloc: "\<forall>c. ?c = Some c \<longrightarrow> rt_mem t c \<noteq> None"
  proof (intro allI impI)
    fix c assume "?c = Some c"
    then obtain b where "lk nd b = Some c" using only_child_lk [OF one, of c] by blast
    from tree_inv_child [OF ti a(1) this] show "rt_mem t c \<noteq> None" by (metis option.simps(3))
  qed
  from reparent_upd [OF this, of "rn_parent nd"] obtain t1 where
    t1: "(case ?c of None \<Rightarrow> Some t | Some c \<Rightarrow> node_upd c (\<lambda>x. x\<lparr>rn_parent := rn_parent nd\<rparr>) t) = Some t1"
      "rt_mem t1 = reparent ?c (rn_parent nd) (rt_mem t)" "rt_top t1 = rt_top t"
      "rt_count t1 = rt_count t" "rt_brk t1 = rt_brk t" by blast
  have guards: "(rn_left nd \<noteq> None \<and> rn_right nd \<noteq> None) = False"
    "(rn_lock nd \<noteq> 0 \<or> rn_info nd \<noteq> None) = False" using one a info by auto
  note start = route_node_delete.simps [of a t] a(1) option.case guards if_False Let_def t1(1) Option.bind_lunit
  show ?thesis
  proof (cases "rn_parent nd")
    case None
    define t3 where "t3 = route_node_free a (t1\<lparr>rt_top := ?c, rt_count := rt_count t1 - 1\<rparr>)"
    have run: "route_node_delete a t = delete_unlinked a (rn_parent nd) t3"
      unfolding start unfolding None by (simp only: option.case Option.bind_lunit t3_def delete_unlinked_def) simp
    have m3: "rt_mem t3 = (reparent ?c None (rt_mem t))(a := None)" "rt_top t3 = ?c"
      "rt_count t3 = rt_count t - 1" "rt_brk t3 = rt_brk t"
      using t1 None by (simp_all add: t3_def route_node_free_def)
    have "tree_inv (Some a) (rt_mem t)" using tree_inv_root [OF ti a(1) None] ti by simp
    then have "tree_inv (rt_top t3) (rt_mem t3)"
      unfolding m3(1,2) by (rule remove_top [of a "rt_mem t" nd]) (fact a(1), fact one)
    moreover have "spliced a None (rt_mem t) (rt_mem t3)" unfolding m3(1) by (rule spliced_top)
    ultimately show ?thesis
      using inv_splice(1,3) [OF inv a _ _ m3(3,4)] run None by auto
  next
    case (Some q)
    from tree_inv_parent [OF ti a(1) Some] obtain qd b where
      q: "rt_mem t q = Some qd" "lk qd b = Some a" by metis
    have qa: "a \<noteq> q" using key_neq_parent [OF ti q] .
    have qpre: "prefix (key qd @ [b]) (key nd)" using tree_inv_child [OF ti q] a(1) by (metis option.inject)
    then have len: "length (key qd) < length (key nd)" by (metis Suc_le_lessD length_append_singleton prefix_length_le)
    have cq: "?c \<noteq> Some q"
    proof
      assume "?c = Some q"
      then obtain b' where "lk nd b' = Some q" using only_child_lk [OF one, of q] by blast
      from tree_inv_child [OF ti a(1) this] q(1) have "prefix (key nd @ [b']) (key qd)" by (metis option.inject)
      with len show False by (metis Suc_le_lessD length_append_singleton not_less_iff_gr_or_eq order.strict_trans prefix_length_le)
    qed
    have q1: "rt_mem t1 q = Some qd" using t1(2) reparent_at [of "rt_mem t" q qd "?c" "rn_parent nd"] q(1) cq by simp
    define t2 where "t2 = t1\<lparr>rt_mem := (rt_mem t1)(q \<mapsto> set_lk b ?c qd)\<rparr>"
    define t3 where "t3 = route_node_free a (t2\<lparr>rt_count := rt_count t2 - 1\<rparr>)"
    have run: "route_node_delete a t = delete_unlinked a (rn_parent nd) t3"
      unfolding start unfolding Some
      by (simp only: option.case Option.bind_lunit node_upd_def q1 relink_set_lk [OF ti q] t3_def t2_def delete_unlinked_def)
    have m3: "rt_mem t3 = (reparent ?c (Some q) (rt_mem t))(q \<mapsto> set_lk b ?c qd, a := None)" "rt_top t3 = rt_top t"
      "rt_count t3 = rt_count t - 1" "rt_brk t3 = rt_brk t"
      using t1 Some by (simp_all add: t3_def t2_def route_node_free_def)
    have "tree_inv (rt_top t3) (rt_mem t3)"
      unfolding m3(1,2) by (rule remove_below [OF ti a(1) Some one q])
    moreover have "spliced a (Some q) (rt_mem t) (rt_mem t3)"
      unfolding m3(1) by (rule spliced_below) (fact q(1), fact qa, fact cq)
    ultimately show ?thesis
      using inv_splice(1,2) [OF inv a _ _ m3(3,4)] run Some len qa by (auto simp: m3(1))
  qed
qed


lemma route_node_delete_spec:
  assumes "table_inv_but a t" "rt_mem t a = Some nd" "rn_lock nd = 0"
  shows "\<exists>t'. route_node_delete a t = Some t' \<and> table_inv t' \<and> shrunk t t'"
  using assms
proof (induction "length (key nd)" arbitrary: a t nd rule: less_induct)
  case less
  note inv = less.prems(1) and a = less.prems(2,3)
  show ?case
  proof (cases "rn_left nd \<noteq> None \<and> rn_right nd \<noteq> None")
    case True
    then have "\<forall>b. lk nd b \<noteq> None" by (simp add: lk_def)
    then have "table_inv t" using table_inv_but_locked [OF inv a(1)] by blast
    moreover have "route_node_delete a t = Some t"
      using True a table_inv_but_lock [OF inv a] by (simp add: route_node_delete.simps [of a t])
    ultimately show ?thesis using shrunk_refl by blast
  next
    case False
    from delete_unlink [OF inv a False] obtain t3 where
      t3: "route_node_delete a t = delete_unlinked a (rn_parent nd) t3" "shrunk t t3"
        "case rn_parent nd of None \<Rightarrow> table_inv t3
         | Some q \<Rightarrow> table_inv_but q t3 \<and> (\<exists>qd. rt_mem t3 q = Some qd \<and> length (key qd) < length (key nd))" by blast
    show ?thesis
    proof (cases "rn_parent nd")
      case None
      then show ?thesis using t3 by (auto simp: delete_unlinked_def)
    next
      case (Some q)
      then obtain qd where q: "table_inv_but q t3" "rt_mem t3 q = Some qd" "length (key qd) < length (key nd)"
        using t3(3) by auto
      show ?thesis
      proof (cases "rn_lock qd = 0")
        case True
        from less.hyps [OF q(3,1,2) True] obtain t' where
          "route_node_delete q t3 = Some t'" "table_inv t'" "shrunk t3 t'" by blast
        then show ?thesis using t3(1,2) Some q(2) True shrunk_trans by (auto simp: delete_unlinked_def)
      next
        case False
        then show ?thesis using t3(1,2) Some q(2) table_inv_but_locked [OF q(1,2)] by (auto simp: delete_unlinked_def)
      qed
    qed
  qed
qed


lemma table_inv_but_unlock:
  assumes inv: "table_inv t" and a: "rt_mem t a = Some nd" and i: "rn_lock nd = 1 \<longrightarrow> rn_info nd = None"
    and l: "0 < rn_lock nd"
  shows "table_inv_but a (t\<lparr>rt_mem := (rt_mem t)(a \<mapsto> nd\<lparr>rn_lock := rn_lock nd - 1\<rparr>)\<rparr>)"
proof -
  have "tree_inv (rt_top t) ((rt_mem t)(a \<mapsto> nd\<lparr>rn_lock := rn_lock nd - 1\<rparr>))"
    using tree_inv_upd [OF table_inv_tree [OF inv] a] by (simp add: lk_def)
  moreover have "dom ((rt_mem t)(a \<mapsto> nd\<lparr>rn_lock := rn_lock nd - 1\<rparr>)) = dom (rt_mem t)" using a by auto
  ultimately show ?thesis
    using inv a i l unfolding table_inv_def table_inv_but_def by (auto split: if_splits)
qed

lemma route_unlock_node_spec:
  assumes inv: "table_inv t" and a: "rt_mem t a = Some nd" and l: "0 < rn_lock nd"
    and i: "rn_lock nd = 1 \<longrightarrow> rn_info nd = None"
  shows "\<exists>t'. route_unlock_node a t = Some t' \<and> table_inv t' \<and>
     shrunk (t\<lparr>rt_mem := (rt_mem t)(a \<mapsto> nd\<lparr>rn_lock := rn_lock nd - 1\<rparr>)\<rparr>) t'" (is "\<exists>t'. _ \<and> _ \<and> shrunk ?t1 t'")
proof -
  have inv1: "table_inv_but a ?t1" by (rule table_inv_but_unlock [OF inv a i l])
  have a1: "rt_mem ?t1 a = Some (nd\<lparr>rn_lock := rn_lock nd - 1\<rparr>)" by simp
  have upd: "node_upd a (\<lambda>x. x\<lparr>rn_lock := rn_lock x - 1\<rparr>) t = Some ?t1" using a by (simp add: node_upd_def)
  show ?thesis
  proof (cases "rn_lock nd = 1")
    case True
    then have run: "route_unlock_node a t = route_node_delete a ?t1" using a upd by (simp add: route_unlock_node_def)
    show ?thesis unfolding run by (rule route_node_delete_spec [OF inv1 a1]) (simp add: True)
  next
    case False
    then have "route_unlock_node a t = Some ?t1" using a upd l by (simp add: route_unlock_node_def)
    then show ?thesis using table_inv_but_locked [OF inv1 a1] shrunk_refl False l by auto
  qed
qed

end
