(* ===== verification/Table_Iter.thy ===== *)
theory Table_Iter
  imports Radix_Delete
begin

text \<open>
  Iteration over a table: \<^verbatim>\<open>route_top\<close>, \<^verbatim>\<open>route_next\<close>, \<^verbatim>\<open>route_next_until\<close>, \<^verbatim>\<open>route_table_get_next\<close>, the
  iterators of \<^verbatim>\<open>lib/table.h\<close> and \<^verbatim>\<open>route_table_free\<close>.  The nodes come in ascending order of
  their bit strings, a prefix before its extensions and the left branch before the right one, which
  is the lexicographic order of lists of booleans.
\<close>

section \<open>Walking the tree\<close>

definition route_top :: "'i route_table \<Rightarrow> (nat option \<times> 'i route_table) option" where
  "route_top t =
     (case rt_top t of
        None \<Rightarrow> Some (None, t)
      | Some a \<Rightarrow> map_option (Pair (Some a)) (route_lock_node a t))"

text \<open>
  The loop that climbs from a node to the right sibling of the first ancestor that is a left
  child and has one; \<open>limit\<close> is the second argument of \<^verbatim>\<open>route_next_until\<close>.
\<close>

partial_function (option) climb :: "(nat \<rightharpoonup> 'i route_node) \<Rightarrow> nat option \<Rightarrow> nat \<Rightarrow> nat option option" where
  "climb m limit node =
     (case m node of
        None \<Rightarrow> None
      | Some nd \<Rightarrow>
          (case rn_parent nd of
             None \<Rightarrow> Some None
           | Some q \<Rightarrow>
               if limit = Some node then Some None
               else
                 (case m q of
                    None \<Rightarrow> None
                  | Some qd \<Rightarrow>
                      if rn_left qd = Some node \<and> rn_right qd \<noteq> None then Some (rn_right qd)
                      else climb m limit q)))"

definition next_node :: "(nat \<rightharpoonup> 'i route_node) \<Rightarrow> nat option \<Rightarrow> nat \<Rightarrow> nat option option" where
  "next_node m limit node =
     (case m node of
        None \<Rightarrow> None
      | Some nd \<Rightarrow>
          if rn_left nd \<noteq> None then Some (rn_left nd)
          else if rn_right nd \<noteq> None then Some (rn_right nd)
          else climb m limit node)"

text \<open>The next node is locked before the current one is unlocked, since that may delete it.\<close>

definition route_next_until ::
    "nat \<Rightarrow> nat option \<Rightarrow> 'i route_table \<Rightarrow> (nat option \<times> 'i route_table) option" where
  "route_next_until node limit t =
     Option.bind (next_node (rt_mem t) limit node) (\<lambda>next.
     case next of
       None \<Rightarrow> map_option (Pair None) (route_unlock_node node t)
     | Some c \<Rightarrow>
         Option.bind (route_lock_node c t) (\<lambda>t1.
         map_option (Pair (Some c)) (route_unlock_node node t1)))"

definition route_next :: "nat \<Rightarrow> 'i route_table \<Rightarrow> (nat option \<times> 'i route_table) option" where
  "route_next node t =
     Option.bind (next_node (rt_mem t) None node) (\<lambda>next.
     case next of
       None \<Rightarrow> map_option (Pair None) (route_unlock_node node t)
     | Some c \<Rightarrow>
         Option.bind (route_lock_node c t) (\<lambda>t1.
         map_option (Pair (Some c)) (route_unlock_node node t1)))"

definition route_table_count :: "'i route_table \<Rightarrow> nat" where
  "route_table_count t = rt_count t"

section \<open>Resuming at a prefix\<close>

text \<open>\<open>None\<close> is a failed assertion of \<^verbatim>\<open>route_table_prefix_iter_cmp\<close>.\<close>

definition route_table_prefix_iter_cmp :: "prefix_t \<Rightarrow> prefix_t \<Rightarrow> int option" where
  "route_table_prefix_iter_cmp p1 p2 =
     (if prefixlen p1 \<le> prefixlen p2 \<and> prefix_match p1 p2
      then Some (if prefixlen p1 = prefixlen p2 then 0 else -1)
      else if \<not> prefixlen p1 \<le> prefixlen p2 \<and> prefix_match p2 p1 then Some 1
      else
        let common = route_common p1 p2 prefix_new in
        if \<not> prefixlen common < prefixlen p1 \<or> \<not> prefixlen common < prefixlen p2 then None
        else if prefix_bit (p_u p1) (prefixlen common) \<noteq> 0 then
          if prefix_bit (p_u p2) (prefixlen common) \<noteq> 0 then None else Some 1
        else if prefix_bit (p_u p2) (prefixlen common) \<noteq> 0 then Some (-1) else None)"

definition route_get_subtree_next :: "(nat \<rightharpoonup> 'i route_node) \<Rightarrow> nat \<Rightarrow> nat option option" where
  "route_get_subtree_next m node = climb m None node"

partial_function (option) get_next_loop ::
    "'i route_table \<Rightarrow> prefix_t \<Rightarrow> nat option \<Rightarrow> (nat option \<times> 'i route_table) option" where
  "get_next_loop t pre node =
     (case node of
        None \<Rightarrow> Some (None, t)
      | Some a \<Rightarrow>
          (case rt_mem t a of
             None \<Rightarrow> None
           | Some nd \<Rightarrow>
               if (if prefixlen (rn_p nd) < prefixlen pre then prefix_match (rn_p nd) pre
                   else prefix_match pre (rn_p nd)) then
                 if prefixlen (rn_p nd) = prefixlen pre then
                   Option.bind (route_lock_node a t) (\<lambda>t1.
                   Option.bind (route_next a t1) (\<lambda>(r, t2).
                   case r of
                     None \<Rightarrow> Some (None, t2)
                   | Some c \<Rightarrow> map_option (Pair (Some c)) (route_unlock_node c t2)))
                 else if prefixlen (rn_p nd) > prefixlen pre then Some (Some a, t)
                 else
                   let tmp_node = link nd (prefix_bit (p_u pre) (prefixlen (rn_p nd))) in
                   if tmp_node \<noteq> None then get_next_loop t pre tmp_node
                   else if rn_right nd \<noteq> None then Some (rn_right nd, t)
                   else map_option (\<lambda>r. (r, t)) (route_get_subtree_next (rt_mem t) a)
               else
                 Option.bind (route_table_prefix_iter_cmp (rn_p nd) pre) (\<lambda>cmp.
                 if cmp > 0 then Some (Some a, t)
                 else if \<not> cmp < 0 then None
                 else map_option (\<lambda>r. (r, t)) (route_get_subtree_next (rt_mem t) a))))"

definition route_table_get_next_internal ::
    "'i route_table \<Rightarrow> prefix_t \<Rightarrow> (nat option \<times> 'i route_table) option" where
  "route_table_get_next_internal t pre = get_next_loop t pre (rt_top t)"

definition route_table_get_next ::
    "'i route_table \<Rightarrow> prefix_t \<Rightarrow> (nat option \<times> 'i route_table) option" where
  "route_table_get_next t pre =
     Option.bind (route_table_get_next_internal t pre) (\<lambda>(r, t1).
     case r of
       None \<Rightarrow> Some (None, t1)
     | Some c \<Rightarrow>
         (case rt_mem t1 c of
            None \<Rightarrow> None
          | Some nd \<Rightarrow>
              Option.bind (route_table_prefix_iter_cmp (rn_p nd) pre) (\<lambda>cmp.
              if cmp > 0 then map_option (Pair (Some c)) (route_lock_node c t1) else None)))"

section \<open>Iterators\<close>

datatype iter_state = RT_ITER_STATE_INIT | RT_ITER_STATE_ITERATING | RT_ITER_STATE_PAUSED | RT_ITER_STATE_DONE

record route_table_iter =
  it_state :: iter_state
  it_current :: "nat option"
  it_pause_prefix :: prefix_t

definition route_table_iter_init :: route_table_iter where
  "route_table_iter_init =
     \<lparr>it_state = RT_ITER_STATE_INIT, it_current = None, it_pause_prefix = prefix_new\<rparr>"

text \<open>The result of the switch over the state; \<open>None\<close> is a null \<^verbatim>\<open>current\<close> that is dereferenced.\<close>

definition iter_step :: "route_table_iter \<Rightarrow> 'i route_table \<Rightarrow> (nat option \<times> 'i route_table) option" where
  "iter_step iter t =
     (case it_state iter of
        RT_ITER_STATE_INIT \<Rightarrow> route_top t
      | RT_ITER_STATE_ITERATING \<Rightarrow>
          (case it_current iter of None \<Rightarrow> None | Some a \<Rightarrow> route_next a t)
      | RT_ITER_STATE_PAUSED \<Rightarrow> route_table_get_next t (it_pause_prefix iter)
      | RT_ITER_STATE_DONE \<Rightarrow> Some (None, t))"

definition route_table_iter_next ::
    "route_table_iter \<Rightarrow> 'i route_table \<Rightarrow> (nat option \<times> route_table_iter \<times> 'i route_table) option" where
  "route_table_iter_next iter t =
     (if it_state iter = RT_ITER_STATE_DONE then Some (None, iter, t)
      else map_option (\<lambda>(node, t1).
             (node,
              iter\<lparr>it_current := node,
                   it_state := (if node \<noteq> None then RT_ITER_STATE_ITERATING else RT_ITER_STATE_DONE)\<rparr>, t1))
             (iter_step iter t))"

definition route_table_iter_is_done :: "route_table_iter \<Rightarrow> bool" where
  "route_table_iter_is_done iter \<longleftrightarrow> it_state iter = RT_ITER_STATE_DONE"

definition route_table_iter_started :: "route_table_iter \<Rightarrow> bool" where
  "route_table_iter_started iter \<longleftrightarrow> it_state iter \<noteq> RT_ITER_STATE_INIT"

definition route_table_iter_pause ::
    "route_table_iter \<Rightarrow> 'i route_table \<Rightarrow> (route_table_iter \<times> 'i route_table) option" where
  "route_table_iter_pause iter t =
     (case it_state iter of
        RT_ITER_STATE_ITERATING \<Rightarrow>
          (case it_current iter of
             None \<Rightarrow> None
           | Some a \<Rightarrow>
               (case rt_mem t a of
                  None \<Rightarrow> None
                | Some nd \<Rightarrow>
                    Option.bind (prefix_copy (it_pause_prefix iter) (rn_p nd)) (\<lambda>pp.
                    Option.bind (route_unlock_node a t) (\<lambda>t1.
                    Some (iter\<lparr>it_pause_prefix := pp, it_current := None, it_state := RT_ITER_STATE_PAUSED\<rparr>, t1)))))
      | _ \<Rightarrow> Some (iter, t))"

definition route_table_iter_cleanup ::
    "route_table_iter \<Rightarrow> 'i route_table \<Rightarrow> (route_table_iter \<times> 'i route_table) option" where
  "route_table_iter_cleanup iter t =
     Option.bind
       (if it_state iter = RT_ITER_STATE_ITERATING then
          (case it_current iter of
             None \<Rightarrow> None
           | Some a \<Rightarrow> map_option (Pair (iter\<lparr>it_current := None\<rparr>)) (route_unlock_node a t))
        else Some (iter, t)) (\<lambda>(iter1, t1).
     if it_current iter1 \<noteq> None then None
     else Some (iter1\<lparr>it_state := RT_ITER_STATE_DONE\<rparr>, t1))"

section \<open>Freeing a table\<close>

text \<open>
  The loop of \<^verbatim>\<open>route_table_free\<close>: it goes down to a leaf, frees it, clears the link that led to it
  and goes on at its parent.  Reading a node that is not allocated is \<open>None\<close>.
\<close>

partial_function (option) table_free_loop :: "nat option \<Rightarrow> 'i route_table \<Rightarrow> 'i route_table option" where
  "table_free_loop node t =
     (case node of
        None \<Rightarrow> Some t
      | Some a \<Rightarrow>
          (case rt_mem t a of
             None \<Rightarrow> None
           | Some nd \<Rightarrow>
               if rn_left nd \<noteq> None then table_free_loop (rn_left nd) t
               else if rn_right nd \<noteq> None then table_free_loop (rn_right nd) t
               else
                 let t1 = route_node_free a (t\<lparr>rt_count := rt_count t - 1\<rparr>) in
                 (case rn_parent nd of
                    None \<Rightarrow> Some t1
                  | Some q \<Rightarrow>
                      Option.bind
                        (node_upd q (\<lambda>x. if rn_left x = Some a then x\<lparr>rn_left := None\<rparr>
                                         else x\<lparr>rn_right := None\<rparr>) t1)
                        (table_free_loop (Some q)))))"

text \<open>The table itself is freed at the end, when its count is zero; the result is the set of nodes still allocated.\<close>

definition route_table_free :: "'i route_table \<Rightarrow> (nat \<rightharpoonup> 'i route_node) option" where
  "route_table_free t =
     Option.bind (table_free_loop (rt_top t) t) (\<lambda>t1.
     if rt_count t1 = 0 then Some (rt_mem t1) else None)"

section \<open>The order of the keys\<close>

lemma less_of_branch:
  fixes xs ys zs :: "bool list"
  assumes "prefix (zs @ [False]) xs" "prefix (zs @ [True]) ys"
  shows "xs < ys"
proof -
  obtain u v where "xs = zs @ False # u" "ys = zs @ True # v"
    using assms by (auto simp: prefix_def)
  then show ?thesis by (induction zs arbitrary: xs ys) auto
qed

lemma le_append: "xs \<le> xs @ ys" for xs ys :: "bool list"
  by (induction xs) auto

lemma le_of_prefix: "prefix xs ys \<Longrightarrow> xs \<le> ys" for xs ys :: "bool list"
  using le_append by (auto simp: prefix_def)

lemma less_of_strict_prefix: "prefix (xs @ [b]) ys \<Longrightarrow> xs < ys" for xs ys :: "bool list"
proof -
  assume p: "prefix (xs @ [b]) ys"
  then have "prefix xs ys" by (rule append_prefixD)
  then have "xs \<le> ys" by (rule le_of_prefix)
  moreover have "xs \<noteq> ys" using p by auto
  ultimately show ?thesis by simp
qed

lemma less_cases:
  fixes xs ys :: "bool list"
  assumes "xs < ys"
  shows "prefix xs ys \<or> (\<exists>zs. prefix (zs @ [False]) xs \<and> prefix (zs @ [True]) ys)"
  using assms
proof (induction xs arbitrary: ys)
  case Nil
  then show ?case by simp
next
  case (Cons x xs)
  then obtain y ys' where ys: "ys = y # ys'" by (cases ys) simp_all
  show ?case
  proof (cases "x = y")
    case True
    then have "xs < ys'" using Cons.prems ys by simp
    from Cons.IH [OF this] show ?thesis
    proof
      assume "\<exists>zs. prefix (zs @ [False]) xs \<and> prefix (zs @ [True]) ys'"
      then obtain zs where "prefix (zs @ [False]) xs" "prefix (zs @ [True]) ys'" by blast
      then show ?thesis using True ys by (intro disjI2 exI [of _ "x # zs"]) simp
    qed (use True ys in simp)
  next
    case False
    then have "\<not> x" "y" using Cons.prems ys by auto
    then show ?thesis using ys by (intro disjI2 exI [of _ "[]"]) simp
  qed
qed

lemma less_extend:
  fixes xs ys xs' :: "bool list"
  assumes "xs < ys" "\<not> prefix xs ys" "prefix xs xs'"
  shows "xs' < ys"
proof -
  from less_cases [OF assms(1)] assms(2) obtain zs where
    zs: "prefix (zs @ [False]) xs" "prefix (zs @ [True]) ys" by blast
  then have "prefix (zs @ [False]) xs'" using assms(3) by (metis prefix_order.trans)
  then show ?thesis using zs(2) by (rule less_of_branch)
qed

section \<open>The next node\<close>

text \<open>\<open>is_next\<close>: the least node after a key, or none.\<close>

definition is_next :: "(nat \<rightharpoonup> 'i route_node) \<Rightarrow> bool list \<Rightarrow> nat option \<Rightarrow> bool" where
  "is_next m ks r \<longleftrightarrow>
     (case r of
        None \<Rightarrow> (\<forall>y yd. m y = Some yd \<longrightarrow> \<not> ks < key yd)
      | Some c \<Rightarrow> (\<exists>cd. m c = Some cd \<and> ks < key cd \<and>
          (\<forall>y yd. m y = Some yd \<longrightarrow> ks < key yd \<longrightarrow> key cd \<le> key yd)))"

lemma prefix_ext: "prefix xs ys \<Longrightarrow> xs \<noteq> ys \<Longrightarrow> \<exists>b. prefix (xs @ [b]) ys"
  by (auto simp: prefix_def) (meson list.exhaust)

lemma below_node:
  assumes inv: "tree_inv tp m" and q: "m q = Some qd" and y: "m y = Some yd" "prefix (key qd) (key yd)" "key qd < key yd"
  obtains b z zd where "prefix (key qd @ [b]) (key yd)" "lk qd b = Some z" "m z = Some zd" "prefix (key zd) (key yd)"
proof -
  obtain b where "prefix (key qd @ [b]) (key yd)" using prefix_ext y(2,3) by (metis less_irrefl)
  with descend [OF inv q y(1) this] show thesis using that by blast
qed

lemma is_next_child:
  assumes inv: "tree_inv tp m" and a: "m a = Some nd"
    and c: "lk nd b = Some c" "b \<Longrightarrow> lk nd False = None"
  shows "is_next m (key nd) (Some c)"
proof -
  obtain cd where cd: "m c = Some cd" "prefix (key nd @ [b]) (key cd)"
    by (rule tree_inv_child [OF inv a c(1)])
  have "key cd \<le> key yd" if y: "m y = Some yd" "key nd < key yd" for y yd
  proof (cases "prefix (key nd) (key yd)")
    case True
    obtain b' z zd where b': "prefix (key nd @ [b']) (key yd)"
      and z: "lk nd b' = Some z" "m z = Some zd" "prefix (key zd) (key yd)"
      by (rule below_node [OF inv a y(1) True y(2)])
    show ?thesis
    proof (cases "b' = b")
      case True
      then show ?thesis using z c cd le_of_prefix by auto
    next
      case False
      then have "\<not> b" "b'" using c(2) z by auto
      then have "key cd < key yd" using cd(2) b' less_of_branch [of "key nd" "key cd" "key yd"] by simp
      then show ?thesis by simp
    qed
  next
    case False
    then have "key cd < key yd" using less_extend [OF y(2) False] cd(2) by (metis append_prefixD)
    then show ?thesis by simp
  qed
  then show ?thesis using cd less_of_strict_prefix [OF cd(2)] by (auto simp: is_next_def)
qed

text \<open>\<open>toward m ks x\<close>: the way from the parent of \<open>x\<close> to \<open>x\<close> is the way to the key \<open>ks\<close>.\<close>

definition toward :: "(nat \<rightharpoonup> 'i route_node) \<Rightarrow> bool list \<Rightarrow> nat \<Rightarrow> bool" where
  "toward m ks x \<longleftrightarrow>
     (\<forall>xd q qd b. m x = Some xd \<longrightarrow> rn_parent xd = Some q \<longrightarrow> m q = Some qd \<longrightarrow> lk qd b = Some x \<longrightarrow>
        prefix (key qd @ [b]) ks)"

lemma toward_prefix:
  assumes inv: "tree_inv tp m" and x: "m x = Some xd" "prefix (key xd) ks"
  shows "toward m ks x"
proof -
  have "prefix (key qd @ [b]) ks" if q: "m q = Some qd" "lk qd b = Some x" for q qd b
  proof -
    from tree_inv_child [OF inv q] x(1) have "prefix (key qd @ [b]) (key xd)" by (metis option.inject)
    then show ?thesis using x(2) by (rule prefix_order.trans)
  qed
  then show ?thesis by (simp add: toward_def)
qed

lemma toward_child:
  assumes inv: "tree_inv tp m" and a: "m a = Some nd" "lk nd b = Some c" "prefix (key nd @ [b]) ks"
  shows "toward m ks c"
proof -
  obtain cd where cd: "m c = Some cd" "rn_parent cd = Some a" by (rule tree_inv_child [OF inv a(1,2)])
  show ?thesis unfolding toward_def
  proof (intro allI impI)
    fix xd q qd b' assume h: "m c = Some xd" "rn_parent xd = Some q" "m q = Some qd" "lk qd b' = Some c"
    then have "q = a" "qd = nd" using cd a by auto
    then have "b' = b" using lk_unique [OF inv a(1,2)] h(4) by simp
    then show "prefix (key qd @ [b']) ks" using a(3) \<open>qd = nd\<close> by simp
  qed
qed

lemma toward_parent:
  assumes "tree_inv tp m" "toward m ks x" "m x = Some xd" "rn_parent xd = Some q"
  obtains qd b where "m q = Some qd" "lk qd b = Some x" "prefix (key qd @ [b]) (key xd)" "prefix (key qd @ [b]) ks"
proof -
  obtain qd b where q: "m q = Some qd" "lk qd b = Some x" "prefix (key qd @ [b]) (key xd)"
    by (rule tree_inv_parent [OF assms(1,3,4)])
  then have "prefix (key qd @ [b]) ks" using assms(2-4) unfolding toward_def by blast
  with q show thesis by (rule that)
qed

lemma root_prefix:
  assumes inv: "tree_inv tp m" and x: "m x = Some xd" "rn_parent xd = None" and y: "m y = Some yd"
  shows "prefix (key xd) (key yd)"
proof -
  from anc_top [OF inv y] obtain r where "tp = Some r" "anc m r y" by blast
  moreover have "tp = Some x" using tree_inv_root [OF inv x] .
  ultimately show ?thesis using anc_prefix [OF inv _ x(1) y] by simp
qed

lemma climb_spec:
  assumes inv: "tree_inv tp m"
  shows "m x = Some xd \<Longrightarrow> toward m ks x \<Longrightarrow>
    (\<forall>y yd. m y = Some yd \<longrightarrow> prefix (key xd) (key yd) \<longrightarrow> \<not> ks < key yd) \<Longrightarrow>
    \<exists>r. climb m None x = Some r \<and> is_next m ks r"
proof (induction "length (key xd)" arbitrary: x xd rule: less_induct)
  case less
  note x = less.prems
  show ?case
  proof (cases "rn_parent xd")
    case None
    then have "is_next m ks None" using x(3) root_prefix [OF inv x(1) None] by (auto simp: is_next_def)
    then show ?thesis using x(1) None by (simp add: climb.simps [of m None x])
  next
    case (Some q)
    obtain qd b where q: "m q = Some qd" "lk qd b = Some x" "prefix (key qd @ [b]) (key xd)"
      and qk: "prefix (key qd @ [b]) ks" by (rule toward_parent [OF inv x(2,1) Some])
    have len: "length (key qd) < length (key xd)" using q(3) by (metis Suc_le_lessD length_append_singleton prefix_length_le)
    have qlt: "key qd \<le> ks" using qk by (intro le_of_prefix) (rule append_prefixD)
    show ?thesis
    proof (cases "rn_left qd = Some x \<and> rn_right qd \<noteq> None")
      case True
      then obtain c where c: "lk qd True = Some c" by (auto simp: lk_def)
      have nb: "\<not> b" using True lk_unique [OF inv q(1,2), of False] by (auto simp: lk_def)
      obtain cd where cd: "m c = Some cd" "prefix (key qd @ [True]) (key cd)"
        by (rule tree_inv_child [OF inv q(1) c])
      have "key cd \<le> key yd" if y: "m y = Some yd" "ks < key yd" for y yd
      proof (cases "prefix (key qd) (key yd)")
        case True
        obtain b' z zd where b': "prefix (key qd @ [b']) (key yd)"
          and z: "lk qd b' = Some z" "m z = Some zd" "prefix (key zd) (key yd)"
          by (rule below_node [OF inv q(1) y(1) True]) (use qlt y in order)
        have "b' \<noteq> b"
        proof
          assume "b' = b"
          then have "prefix (key xd) (key yd)" using z q(2) x(1) by simp
          then show False using x(3) y by blast
        qed
        then have "b'" using nb by simp
        then show ?thesis using z c cd(1) le_of_prefix by simp
      next
        case False
        have "key qd < key yd" using qlt y(2) by order
        then have "key cd < key yd" using False cd(2) less_extend by (metis append_prefixD)
        then show ?thesis by simp
      qed
      then have "is_next m ks (Some c)" using cd less_of_branch qk nb by (auto simp: is_next_def)
      then show ?thesis using x(1) Some q(1) True c by (simp add: climb.simps [of m None x] lk_def)
    next
      case False
      have "\<not> ks < key yd" if y: "m y = Some yd" "prefix (key qd) (key yd)" for y yd
      proof
        assume lt: "ks < key yd"
        obtain b' z zd where b': "prefix (key qd @ [b']) (key yd)"
          and z: "lk qd b' = Some z" "m z = Some zd" "prefix (key zd) (key yd)"
          by (rule below_node [OF inv q(1) y(1,2)]) (use qlt lt in order)
        show False
        proof (cases "b' = b")
          case True
          then have "prefix (key xd) (key yd)" using z q(2) x(1) by simp
          then show False using x(3) y(1) lt by blast
        next
          case nb: False
          then have "b \<and> \<not> b'" using False q(2) z(1) by (cases b; cases b') (auto simp: lk_def)
          then have "key yd < ks" using b' qk less_of_branch [of "key qd" "key yd" ks] by simp
          then show False using lt by order
        qed
      qed
      then have none: "\<forall>y yd. m y = Some yd \<longrightarrow> prefix (key qd) (key yd) \<longrightarrow> \<not> ks < key yd" by blast
      have "toward m ks q" by (rule toward_prefix [OF inv q(1) append_prefixD [OF qk]])
      from less.hyps [OF len q(1) this none] have "\<exists>r. climb m None q = Some r \<and> is_next m ks r" .
      moreover have "climb m None x = climb m None q"
        using x(1) Some q(1) False by (subst climb.simps) (auto simp del: not_None_eq)
      ultimately show ?thesis by simp
    qed
  qed
qed


lemma next_node_spec:
  assumes inv: "tree_inv tp m" and a: "m a = Some nd"
  shows "\<exists>r. next_node m None a = Some r \<and> is_next m (key nd) r"
proof (cases "rn_left nd")
  case (Some c)
  then have "is_next m (key nd) (Some c)" using is_next_child [OF inv a, of False c] by (simp add: lk_def)
  then show ?thesis using a Some by (simp add: next_node_def)
next
  case left: None
  show ?thesis
  proof (cases "rn_right nd")
    case (Some c)
    then have "is_next m (key nd) (Some c)" using is_next_child [OF inv a, of True c] left by (simp add: lk_def)
    then show ?thesis using a Some left by (simp add: next_node_def)
  next
    case None
    have "\<not> key nd < key yd" if y: "m y = Some yd" "prefix (key nd) (key yd)" for y yd
    proof
      assume "key nd < key yd"
      then obtain b z where "lk nd b = Some z" by (rule below_node [OF inv a y])
      then show False using left None by (simp add: lk_def split: if_splits)
    qed
    then have none: "\<forall>y yd. m y = Some yd \<longrightarrow> prefix (key nd) (key yd) \<longrightarrow> \<not> key nd < key yd" by blast
    have "toward m (key nd) a" by (rule toward_prefix [OF inv a prefix_order.refl])
    from climb_spec [OF inv a this none] show ?thesis using a left None by (simp add: next_node_def)
  qed
qed


lemma is_next_here:
  assumes inv: "tree_inv tp m" and x: "m x = Some xd" "toward m ks x" "ks < key xd"
  shows "is_next m ks (Some x)"
proof -
  have "key xd \<le> key yd" if y: "m y = Some yd" "ks < key yd" for y yd
  proof (cases "prefix (key xd) (key yd)")
    case True
    then show ?thesis by (rule le_of_prefix)
  next
    case nx: False
    then obtain q where "rn_parent xd = Some q" using root_prefix [OF inv x(1) _ y(1)] by (cases "rn_parent xd") auto
    then obtain qd b where q: "m q = Some qd" "lk qd b = Some x" "prefix (key qd @ [b]) (key xd)" "prefix (key qd @ [b]) ks"
      by (rule toward_parent [OF inv x(2,1)])
    have qlt: "key qd < key yd" using less_of_strict_prefix [OF q(4)] y(2) by order
    show ?thesis
    proof (cases "prefix (key qd) (key yd)")
      case True
      obtain b' z zd where b': "prefix (key qd @ [b']) (key yd)"
        and z: "lk qd b' = Some z" "m z = Some zd" "prefix (key zd) (key yd)"
        by (rule below_node [OF inv q(1) y(1) True qlt])
      have "b' \<noteq> b"
      proof
        assume "b' = b"
        then have "zd = xd" using z q x by simp
        then show False using z nx by simp
      qed
      moreover have "\<not> (b \<and> \<not> b')"
      proof
        assume "b \<and> \<not> b'"
        then have "key yd < ks" using b' q(4) less_of_branch [of "key qd" "key yd" ks] by simp
        then show False using y(2) by order
      qed
      ultimately have "\<not> b" "b'" by auto
      then have "key xd < key yd" using b' q(3) less_of_branch [of "key qd" "key xd" "key yd"] by simp
      then show ?thesis by simp
    next
      case False
      then have "key xd < key yd" using less_extend [OF qlt False] q(3) by (metis append_prefixD)
      then show ?thesis by simp
    qed
  qed
  then show ?thesis using x by (auto simp: is_next_def)
qed

lemma is_next_gap:
  assumes inv: "tree_inv tp m" and a: "m a = Some nd" "prefix (key nd @ [b]) ks" "lk nd b = None"
  shows "\<exists>r. (if rn_right nd \<noteq> None then Some (rn_right nd) else climb m None a) = Some r \<and> is_next m ks r"
proof -
  have below: "\<exists>c cd. lk nd (\<not> b) = Some c \<and> m c = Some cd \<and> prefix (key cd) (key yd) \<and> prefix (key nd @ [\<not> b]) (key yd)"
    if y: "m y = Some yd" "prefix (key nd) (key yd)" "ks < key yd" for y yd
  proof -
    have "key nd < key yd" using less_of_strict_prefix [OF a(2)] y(3) by order
    then obtain b' z zd where b': "prefix (key nd @ [b']) (key yd)"
      and z: "lk nd b' = Some z" "m z = Some zd" "prefix (key zd) (key yd)"
      by (rule below_node [OF inv a(1) y(1,2)])
    moreover have "b' = (\<not> b)" using z(1) a(3) by (cases b; cases b') auto
    ultimately show ?thesis by blast
  qed
  show ?thesis
  proof (cases "rn_right nd")
    case None
    have "\<not> ks < key yd" if y: "m y = Some yd" "prefix (key nd) (key yd)" for y yd
    proof
      assume lt: "ks < key yd"
      from below [OF y lt] have "b" "prefix (key nd @ [\<not> b]) (key yd)" using None by (auto simp: lk_def split: if_splits)
      then have "key yd < ks" using a(2) less_of_branch [of "key nd" "key yd" ks] by simp
      then show False using lt by order
    qed
    then have none: "\<forall>y yd. m y = Some yd \<longrightarrow> prefix (key nd) (key yd) \<longrightarrow> \<not> ks < key yd" by blast
    have "toward m ks a" by (rule toward_prefix [OF inv a(1) append_prefixD [OF a(2)]])
    from climb_spec [OF inv a(1) this none] have "\<exists>r. climb m None a = Some r \<and> is_next m ks r" .
    then show ?thesis using None by simp
  next
    case (Some c)
    then have b: "\<not> b" and c: "lk nd True = Some c" using a(3) by (auto simp: lk_def split: if_splits)
    obtain cd where cd: "m c = Some cd" "prefix (key nd @ [True]) (key cd)" by (rule tree_inv_child [OF inv a(1) c])
    have "key cd \<le> key yd" if y: "m y = Some yd" "ks < key yd" for y yd
    proof (cases "prefix (key nd) (key yd)")
      case True
      from below [OF y(1) True y(2)] show ?thesis using b c cd(1) le_of_prefix by auto
    next
      case False
      have "key nd < key yd" using less_of_strict_prefix [OF a(2)] y(2) by order
      then have "key cd < key yd" using less_extend [OF _ False] cd(2) by (metis append_prefixD)
      then show ?thesis by simp
    qed
    moreover have "ks < key cd" using a(2) b cd(2) less_of_branch [of "key nd" ks "key cd"] by simp
    ultimately show ?thesis using Some cd(1) by (auto simp: is_next_def)
  qed
qed

section \<open>The view of a client\<close>

text \<open>What a client sees of a table: the key, the lock count and the info of every node.\<close>

definition key_at :: "'i route_table \<Rightarrow> nat \<Rightarrow> bool list option" where
  "key_at t x = map_option key (rt_mem t x)"

definition lock_at :: "'i route_table \<Rightarrow> nat \<Rightarrow> nat" where
  "lock_at t x = (case rt_mem t x of None \<Rightarrow> 0 | Some nd \<Rightarrow> rn_lock nd)"

definition info_at :: "'i route_table \<Rightarrow> nat \<Rightarrow> 'i option" where
  "info_at t x = (case rt_mem t x of None \<Rightarrow> None | Some nd \<Rightarrow> rn_info nd)"

lemmas at_defs = key_at_def lock_at_def info_at_def

lemma is_route_at: "is_route t ks a \<longleftrightarrow> key_at t a = Some ks \<and> info_at t a \<noteq> None"
  by (auto simp: is_route_def at_defs split: option.splits)

lemma lock_at_pos: "0 < lock_at t a \<Longrightarrow> \<exists>nd. rt_mem t a = Some nd \<and> rn_lock nd = lock_at t a"
  by (simp add: lock_at_def split: option.splits)

lemma info_locked: "table_inv t \<Longrightarrow> info_at t a \<noteq> None \<Longrightarrow> 0 < lock_at t a"
  unfolding table_inv_def at_defs by (auto split: option.splits) (metis gr0I option.distinct(1))

lemma key_at_inj: "table_inv t \<Longrightarrow> key_at t a = Some ks \<Longrightarrow> key_at t b = Some ks \<Longrightarrow> a = b"
  by (auto simp: key_at_def dest!: table_inv_tree intro: key_inj)

lemma lock_view:
  assumes "table_inv t" "key_at t a \<noteq> None"
  shows "\<exists>t'. route_lock_node a t = Some t' \<and> table_inv t' \<and> key_at t' = key_at t \<and> info_at t' = info_at t \<and>
    (\<forall>x. lock_at t' x = lock_at t x + (if x = a then 1 else 0))"
proof -
  obtain nd where nd: "rt_mem t a = Some nd" using assms(2) by (auto simp: key_at_def)
  show ?thesis using table_inv_lock [OF assms(1) nd] route_lock_node_Some [OF nd] nd
    by (auto simp: at_defs fun_eq_iff)
qed

text \<open>\<open>key_shrinks\<close>: nodes disappear, but not the locked ones.\<close>

definition key_shrinks :: "'i route_table \<Rightarrow> 'i route_table \<Rightarrow> bool" where
  "key_shrinks t t' \<longleftrightarrow>
     (\<forall>x k. key_at t' x = Some k \<longrightarrow> key_at t x = Some k) \<and>
     (\<forall>x. 0 < lock_at t' x \<longrightarrow> key_at t' x = key_at t x)"

lemma shrunk_fwd:
  "shrunk t t' \<Longrightarrow> rt_mem t x = Some xd \<Longrightarrow> rn_lock xd \<noteq> 0 \<Longrightarrow> \<exists>xd'. rt_mem t' x = Some xd' \<and> same_route xd' xd"
  unfolding shrunk_def by blast

lemma shrunk_bwd:
  "shrunk t t' \<Longrightarrow> rt_mem t' x = Some xd' \<Longrightarrow> \<exists>xd. rt_mem t x = Some xd \<and> same_route xd' xd"
  unfolding shrunk_def by blast

lemma unlock_view:
  assumes inv: "table_inv t" and l: "0 < lock_at t a" and i: "lock_at t a = 1 \<Longrightarrow> info_at t a = None"
  shows "\<exists>t'. route_unlock_node a t = Some t' \<and> table_inv t' \<and> info_at t' = info_at t \<and>
    (\<forall>x. lock_at t' x = lock_at t x - (if x = a then 1 else 0)) \<and>
    key_shrinks t t'"
proof -
  obtain nd where nd: "rt_mem t a = Some nd" "rn_lock nd = lock_at t a" using lock_at_pos [OF l] by blast
  have l': "0 < rn_lock nd" and i': "rn_lock nd = 1 \<longrightarrow> rn_info nd = None" using nd l i by (auto simp: info_at_def)
  define t1 where "t1 = t\<lparr>rt_mem := (rt_mem t)(a \<mapsto> nd\<lparr>rn_lock := rn_lock nd - 1\<rparr>)\<rparr>"
  from route_unlock_node_spec [OF inv nd(1) l' i'] obtain t' where
    t': "route_unlock_node a t = Some t'" "table_inv t'" "shrunk t1 t'" by (auto simp: t1_def)
  have but: "table_inv_but a t1" unfolding t1_def by (rule table_inv_but_unlock [OF inv nd(1) i' l'])
  have v1: "key_at t1 = key_at t" "info_at t1 = info_at t" "\<And>x. lock_at t1 x = lock_at t x - (if x = a then 1 else 0)"
    using nd(1) by (auto simp: t1_def at_defs fun_eq_iff)
  have gone: "rt_mem t' x = None" if "rt_mem t1 x = None" for x
    using shrunk_bwd [OF t'(3), of x] that by (cases "rt_mem t' x") auto
  have keep: "(rt_mem t' x = None \<and> rn_lock xd = 0 \<and> rn_info xd = None) \<or> (\<exists>xd'. rt_mem t' x = Some xd' \<and> same_route xd' xd)"
    if x: "rt_mem t1 x = Some xd" for x xd
  proof (cases "rt_mem t' x")
    case None
    then have "rn_lock xd = 0" using shrunk_fwd [OF t'(3) x] by auto
    moreover from this have "rn_info xd = None" using table_inv_but_lock [OF but x] by simp
    ultimately show ?thesis using None by simp
  next
    case (Some xd')
    then show ?thesis using shrunk_bwd [OF t'(3) Some] x by auto
  qed
  have p: "info_at t' x = info_at t1 x \<and> lock_at t' x = lock_at t1 x \<and>
    (\<forall>k. key_at t' x = Some k \<longrightarrow> key_at t1 x = Some k) \<and> (0 < lock_at t' x \<longrightarrow> key_at t' x = key_at t1 x)" for x
  proof (cases "rt_mem t1 x")
    case None
    then show ?thesis using gone by (simp add: at_defs)
  next
    case (Some xd)
    from keep [OF this] show ?thesis using Some by (auto simp: at_defs same_route_def)
  qed
  have "key_shrinks t t'" using p unfolding key_shrinks_def v1(1) by blast
  moreover have "info_at t' = info_at t" using p unfolding v1(2) by (intro ext) blast
  moreover have "\<forall>x. lock_at t' x = lock_at t x - (if x = a then 1 else 0)" using p unfolding v1(3) by blast
  ultimately show ?thesis using t'(1,2) by blast
qed

lemma get_view:
  assumes "table_inv t" "wf_prefix pre"
  shows "\<exists>a t'. route_node_get t pre = Some (a, t') \<and> table_inv t' \<and> info_at t' = info_at t \<and>
    (\<forall>x. lock_at t' x = lock_at t x + (if x = a then 1 else 0)) \<and>
    (\<forall>x k. key_at t x = Some k \<longrightarrow> key_at t' x = Some k) \<and> key_at t' a = Some (pbits pre)"
proof -
  from route_node_get_correct [OF assms] obtain a t' where
    g: "route_node_get t pre = Some (a, t')" "table_inv t'" "kept t t' a"
      "\<exists>nd. rt_mem t' a = Some nd \<and> key nd = pbits pre" by (auto simp: get_result_def)
  have "info_at t' x = info_at t x \<and> lock_at t' x = lock_at t x + (if x = a then 1 else 0) \<and>
    (\<forall>k. key_at t x = Some k \<longrightarrow> key_at t' x = Some k)" for x
  proof (cases "rt_mem t x")
    case None
    then have "x \<noteq> a \<or> rt_mem t' x \<noteq> None" using g(4) by auto
    then show ?thesis using None g(3) unfolding kept_def by (cases "rt_mem t' x") (auto simp: at_defs)
  next
    case (Some xd)
    then obtain xd' where "rt_mem t' x = Some xd'" "rn_p xd' = rn_p xd" "rn_info xd' = rn_info xd"
      "rn_lock xd' = rn_lock xd + (if x = a then 1 else 0)" using g(3) unfolding kept_def by blast
    then show ?thesis using Some by (simp add: at_defs)
  qed
  then show ?thesis using g by (intro exI [of _ a] exI [of _ t']) (auto simp: fun_eq_iff key_at_def)
qed

lemma lookup_view:
  assumes "table_inv t"
  shows "\<exists>r t'. route_node_lookup t pre = Some (r, t') \<and> table_inv t' \<and> key_at t' = key_at t \<and> info_at t' = info_at t \<and>
    (\<forall>x. lock_at t' x = lock_at t x + (if Some x = r then 1 else 0)) \<and>
    (case r of
       None \<Rightarrow> \<not> (\<exists>a. is_route t (pbits pre) a)
     | Some a \<Rightarrow> is_route t (pbits pre) a)"
  using route_node_lookup_correct [OF assms, of pre]
proof
  assume "\<exists>a t'. route_node_lookup t pre = Some (Some a, t') \<and> route_lock_node a t = Some t' \<and> is_route t (pbits pre) a"
  then obtain a t' where r: "route_node_lookup t pre = Some (Some a, t')" "route_lock_node a t = Some t'"
    "is_route t (pbits pre) a" by blast
  then have "key_at t a \<noteq> None" by (auto simp: is_route_at)
  from lock_view [OF assms this] r show ?thesis by (intro exI [of _ "Some a"] exI [of _ t']) auto
qed (use assms in auto)

lemma match_view:
  assumes "table_inv t"
  shows "\<exists>r t'. route_node_match t pre = Some (r, t') \<and> table_inv t' \<and> key_at t' = key_at t \<and> info_at t' = info_at t \<and>
    (\<forall>x. lock_at t' x = lock_at t x + (if Some x = r then 1 else 0)) \<and>
    (case r of
       None \<Rightarrow> \<not> (\<exists>ks a. is_route t ks a \<and> prefix ks (pbits pre))
     | Some a \<Rightarrow> \<exists>ks. is_route t ks a \<and> prefix ks (pbits pre) \<and>
         (\<forall>ks' a'. is_route t ks' a' \<longrightarrow> prefix ks' (pbits pre) \<longrightarrow> length ks' \<le> length ks))"
  using route_node_match_correct [OF assms, of pre]
proof
  assume "\<exists>ks a t'. route_node_match t pre = Some (Some a, t') \<and> route_lock_node a t = Some t' \<and>
          is_route t ks a \<and> prefix ks (pbits pre) \<and>
          (\<forall>ks' a'. is_route t ks' a' \<longrightarrow> prefix ks' (pbits pre) \<longrightarrow> length ks' \<le> length ks)"
  then obtain ks a t' where r: "route_node_match t pre = Some (Some a, t')" "route_lock_node a t = Some t'"
    "is_route t ks a" "prefix ks (pbits pre)"
    "\<forall>ks' a'. is_route t ks' a' \<longrightarrow> prefix ks' (pbits pre) \<longrightarrow> length ks' \<le> length ks" by blast
  then have "key_at t a \<noteq> None" by (auto simp: is_route_at)
  from lock_view [OF assms this] r show ?thesis by (intro exI [of _ "Some a"] exI [of _ t']) auto
qed (use assms in auto)

text \<open>The next key after a given one, over all the nodes of a table.\<close>

definition next_key :: "'i route_table \<Rightarrow> bool list \<Rightarrow> nat option \<Rightarrow> bool" where
  "next_key t ks r \<longleftrightarrow>
     (case r of
        None \<Rightarrow> (\<forall>y k. key_at t y = Some k \<longrightarrow> \<not> ks < k)
      | Some c \<Rightarrow> (\<exists>kc. key_at t c = Some kc \<and> ks < kc \<and> (\<forall>y k. key_at t y = Some k \<longrightarrow> ks < k \<longrightarrow> kc \<le> k)))"

lemma is_next_key: "is_next (rt_mem t) ks r \<longleftrightarrow> next_key t ks r"
  unfolding is_next_def next_key_def key_at_def by (cases r) auto

lemma route_next_view:
  assumes inv: "table_inv t" and l: "0 < lock_at t a" and i: "lock_at t a = 1 \<Longrightarrow> info_at t a = None"
    and k: "key_at t a = Some ks"
  shows "\<exists>r t'. route_next a t = Some (r, t') \<and> table_inv t' \<and> info_at t' = info_at t \<and>
    (\<forall>x. lock_at t' x = lock_at t x + (if Some x = r then 1 else 0) - (if x = a then 1 else 0)) \<and>
    key_shrinks t t' \<and> next_key t ks r"
proof -
  obtain nd where nd: "rt_mem t a = Some nd" "key nd = ks" using k by (auto simp: key_at_def)
  from next_node_spec [OF table_inv_tree [OF inv] nd(1)] obtain r where
    r: "next_node (rt_mem t) None a = Some r" "next_key t ks r" by (auto simp: is_next_key nd(2))
  show ?thesis
  proof (cases r)
    case None
    from unlock_view [OF inv l i] obtain t' where t': "route_unlock_node a t = Some t'" "table_inv t'"
      "info_at t' = info_at t" "\<forall>x. lock_at t' x = lock_at t x - (if x = a then 1 else 0)"
      "key_shrinks t t'" by blast
    moreover have "route_next a t = Some (r, t')" using r(1) None t'(1) by (simp add: route_next_def)
    ultimately show ?thesis using r(2) None by (intro exI [of _ r] exI [of _ t']) simp
  next
    case (Some c)
    then obtain kc where "key_at t c = Some kc" "ks < kc" using r(2) by (auto simp: next_key_def)
    then have c: "key_at t c \<noteq> None" "c \<noteq> a" using k by auto
    from lock_view [OF inv c(1)] obtain t1 where t1: "route_lock_node c t = Some t1" "table_inv t1"
      "key_at t1 = key_at t" "info_at t1 = info_at t" "\<forall>x. lock_at t1 x = lock_at t x + (if x = c then 1 else 0)" by blast
    have "0 < lock_at t1 a" "lock_at t1 a = 1 \<Longrightarrow> info_at t1 a = None" using t1 l i c by auto
    from unlock_view [OF t1(2) this] obtain t' where t': "route_unlock_node a t1 = Some t'" "table_inv t'"
      "info_at t' = info_at t1" "\<forall>x. lock_at t' x = lock_at t1 x - (if x = a then 1 else 0)"
      "key_shrinks t1 t'" by blast
    have "route_next a t = Some (r, t')" using r(1) Some t1(1) t'(1) by (simp add: route_next_def)
    moreover have "key_shrinks t t'" using t'(5) unfolding key_shrinks_def t1(3) .
    moreover have "\<forall>x. lock_at t' x = lock_at t x + (if Some x = r then 1 else 0) - (if x = a then 1 else 0)"
      using t'(4) t1(5) Some by simp
    ultimately show ?thesis using r(2) t'(2,3) t1(4) by (intro exI [of _ r] exI [of _ t']) simp
  qed
qed

section \<open>A complete walk\<close>

lemma unlock_lock:
  assumes inv: "table_inv t" and a: "rt_mem t a = Some nd"
  shows "route_unlock_node a (t\<lparr>rt_mem := (rt_mem t)(a \<mapsto> nd\<lparr>rn_lock := rn_lock nd + 1\<rparr>)\<rparr>) = Some t"
proof -
  have "route_node_delete a t = Some t" if "rn_lock nd = 0"
  proof -
    have "rn_left nd \<noteq> None \<and> rn_right nd \<noteq> None \<and> rn_info nd = None"
      using inv a that unfolding table_inv_def lk_def by (metis (full_types))
    then show ?thesis using a that by (simp add: route_node_delete.simps [of a t])
  qed
  moreover have "(rt_mem t)(a \<mapsto> nd) = rt_mem t" using a by auto
  ultimately show ?thesis using a by (simp add: route_unlock_node_def node_upd_def)
qed

lemma lock_commute:
  assumes "route_lock_node a t = Some t1" "route_lock_node c t1 = Some t2" "a \<noteq> c"
  shows "\<exists>t3. route_lock_node c t = Some t3 \<and> route_lock_node a t3 = Some t2"
  using assms by (auto simp: route_lock_node_def node_upd_def fun_upd_twist split: option.splits)

lemma unlock_lock_node:
  assumes "table_inv t" "route_lock_node a t = Some t1"
  shows "route_unlock_node a t1 = Some t"
  using assms unlock_lock [OF assms(1)] by (auto simp: route_lock_node_def node_upd_def split: option.splits)

lemma route_next_locked:
  assumes inv: "table_inv t" and a: "route_lock_node a t = Some t1" "key_at t a = Some ks"
  shows "\<exists>r. next_key t ks r \<and>
    (case r of
       None \<Rightarrow> route_next a t1 = Some (None, t)
     | Some c \<Rightarrow> c \<noteq> a \<and> (\<exists>t2. route_lock_node c t = Some t2 \<and> route_next a t1 = Some (Some c, t2)))"
proof -
  obtain nd where nd: "rt_mem t a = Some nd" "key nd = ks" using a by (auto simp: key_at_def)
  have t1: "t1 = t\<lparr>rt_mem := (rt_mem t)(a \<mapsto> nd\<lparr>rn_lock := rn_lock nd + 1\<rparr>)\<rparr>" using a(1) nd by (simp add: route_lock_node_def node_upd_def)
  have inv1: "table_inv t1" unfolding t1 by (rule table_inv_lock [OF inv nd(1)])
  have k1: "key_at t1 = key_at t" using nd(1) by (auto simp: t1 key_at_def fun_eq_iff)
  obtain nd1 where nd1: "rt_mem t1 a = Some nd1" "key nd1 = ks" using nd by (simp add: t1)
  from next_node_spec [OF table_inv_tree [OF inv1] nd1(1)] obtain r where
    r: "next_node (rt_mem t1) None a = Some r" "next_key t1 ks r" by (auto simp: is_next_key nd1(2))
  from r(2) have rt: "next_key t ks r" unfolding next_key_def k1 .
  show ?thesis
  proof (cases r)
    case None
    then have "route_next a t1 = Some (None, t)"
      using r unlock_lock_node [OF inv a(1)] by (simp add: route_next_def)
    then show ?thesis using rt None by auto
  next
    case (Some c)
    then obtain kc where "key_at t1 c = Some kc" "ks < kc" using r(2) by (auto simp: next_key_def)
    then have c: "key_at t1 c \<noteq> None" "key_at t c \<noteq> None" "c \<noteq> a" using a(2) k1 by auto
    obtain t2 where t2: "route_lock_node c t1 = Some t2" using lock_view [OF inv1 c(1)] by blast
    from lock_commute [OF a(1) t2] c(3) obtain t3 where t3: "route_lock_node c t = Some t3" "route_lock_node a t3 = Some t2" by auto
    have "table_inv t3" using lock_view [OF inv c(2)] t3(1) by auto
    then have "route_unlock_node a t2 = Some t3" using unlock_lock_node t3(2) by blast
    then have "route_next a t1 = Some (Some c, t3)" using r(1) Some t2 by (simp add: route_next_def)
    then show ?thesis using rt Some t3(1) c(3) by auto
  qed
qed

text \<open>\<^verbatim>\<open>for (rn = route_top (table); rn; rn = route_next (rn))\<close>, the loop of the clients, with an empty
  body: the nodes it visits and the table it leaves.\<close>

partial_function (option) walk_from :: "nat option \<Rightarrow> 'i route_table \<Rightarrow> (nat list \<times> 'i route_table) option" where
  "walk_from rn t =
     (case rn of
        None \<Rightarrow> Some ([], t)
      | Some a \<Rightarrow>
          Option.bind (route_next a t) (\<lambda>(r, t1).
          Option.bind (walk_from r t1) (\<lambda>(as, t2). Some (a # as, t2))))"

definition route_walk :: "'i route_table \<Rightarrow> (nat list \<times> 'i route_table) option" where
  "route_walk t = Option.bind (route_top t) (\<lambda>(r, t1). walk_from r t1)"

abbreviation keys_after :: "'i route_table \<Rightarrow> bool list \<Rightarrow> nat set" where
  "keys_after t ks \<equiv> {y. \<exists>k. key_at t y = Some k \<and> ks < k}"

lemma finite_keys: "table_inv t \<Longrightarrow> finite {y. \<exists>k. key_at t y = Some k \<and> P k}"
  by (rule finite_subset [of _ "dom (rt_mem t)"]) (auto simp: key_at_def table_inv_def)

lemma walk_from_spec:
  assumes inv: "table_inv t"
  shows "route_lock_node a t = Some t1 \<Longrightarrow> key_at t a = Some ks \<Longrightarrow>
    \<exists>as. walk_from (Some a) t1 = Some (as, t) \<and> set as = insert a (keys_after t ks) \<and>
      sorted_wrt (\<lambda>x y. the (key_at t x) < the (key_at t y)) as"
proof (induction "card (keys_after t ks)" arbitrary: a t1 ks rule: less_induct)
  case less
  from route_next_locked [OF inv less.prems] obtain r where r: "next_key t ks r"
    "case r of None \<Rightarrow> route_next a t1 = Some (None, t)
     | Some c \<Rightarrow> c \<noteq> a \<and> (\<exists>t2. route_lock_node c t = Some t2 \<and> route_next a t1 = Some (Some c, t2))" by blast
  show ?case
  proof (cases r)
    case None
    then have "keys_after t ks = {}" using r(1) by (auto simp: next_key_def)
    then show ?thesis using None r(2) by (auto simp: walk_from.simps [of "Some a"] walk_from.simps [of None])
  next
    case (Some c)
    then obtain t2 where t2: "route_lock_node c t = Some t2" "route_next a t1 = Some (Some c, t2)" using r(2) by auto
    from r(1) Some obtain kc where kc: "key_at t c = Some kc" "ks < kc"
      "\<forall>y k. key_at t y = Some k \<longrightarrow> ks < k \<longrightarrow> kc \<le> k" by (auto simp: next_key_def)
    have split: "keys_after t ks = insert c (keys_after t kc)"
    proof (intro subset_antisym subsetI)
      fix y assume "y \<in> keys_after t ks"
      then obtain k where k: "key_at t y = Some k" "ks < k" by blast
      then have "kc \<le> k" using kc(3) by blast
      then have "k = kc \<or> kc < k" by auto
      then show "y \<in> insert c (keys_after t kc)" using k(1) key_at_inj [OF inv kc(1), of y] by auto
    next
      fix y assume "y \<in> insert c (keys_after t kc)"
      then show "y \<in> keys_after t ks" using kc(1,2) by (auto intro: less_trans)
    qed
    have "c \<notin> keys_after t kc" using kc(1) by simp
    then have "card (keys_after t kc) < card (keys_after t ks)" unfolding split using finite_keys [OF inv] by simp
    from less.hyps [OF this t2(1) kc(1)] obtain as where
      as: "walk_from (Some c) t2 = Some (as, t)" "set as = insert c (keys_after t kc)"
        "sorted_wrt (\<lambda>x y. the (key_at t x) < the (key_at t y)) as" by blast
    have "walk_from (Some a) t1 = Some (a # as, t)" using t2(2) as(1) by (simp add: walk_from.simps [of "Some a"])
    moreover have "\<forall>y \<in> set as. the (key_at t a) < the (key_at t y)" using as(2) kc(1,2) less.prems(2) by (auto intro: less_trans)
    ultimately show ?thesis using as split by (intro exI [of _ "a # as"]) auto
  qed
qed

lemma route_walk_spec:
  assumes inv: "table_inv t"
  shows "\<exists>as. route_walk t = Some (as, t) \<and> set as = dom (rt_mem t) \<and>
    sorted_wrt (\<lambda>x y. the (key_at t x) < the (key_at t y)) as"
proof (cases "rt_top t")
  case None
  then have "rt_mem t = Map.empty" using table_inv_tree [OF inv] tree_inv_empty by metis
  then show ?thesis using None by (simp add: route_walk_def route_top_def walk_from.simps)
next
  case (Some a)
  obtain nd where nd: "rt_mem t a = Some nd" "rn_parent nd = None"
    using tree_inv_top table_inv_tree [OF inv] Some by metis
  then have k: "key_at t a = Some (key nd)" by (simp add: key_at_def)
  then obtain t1 where t1: "route_lock_node a t = Some t1" using lock_view [OF inv] by blast
  have all: "y = a \<or> key nd < key yd" if "rt_mem t y = Some yd" for y yd
  proof -
    have "key nd \<le> key yd" using root_prefix [OF table_inv_tree [OF inv] nd that] le_of_prefix by blast
    then show ?thesis using key_inj [OF table_inv_tree [OF inv] that nd(1)] by (auto simp: le_less)
  qed
  have "insert a (keys_after t (key nd)) = dom (rt_mem t)"
  proof (rule set_eqI)
    fix y
    show "y \<in> insert a (keys_after t (key nd)) \<longleftrightarrow> y \<in> dom (rt_mem t)"
      using all [of y] nd(1) by (cases "rt_mem t y") (auto simp: key_at_def)
  qed
  then show ?thesis using walk_from_spec [OF inv t1 k] t1 Some by (auto simp: route_walk_def route_top_def)
qed

section \<open>Resuming an iteration\<close>

lemma pbits_prefix_iff:
  "prefix (pbits p) (pbits q) \<longleftrightarrow> prefixlen p \<le> prefixlen q \<and> (\<forall>i<prefixlen p. bit_at (p_u p) i = bit_at (p_u q) i)"
  by (simp add: pbits_def prefix_map_upt)

lemma pbits_less_at:
  assumes "n < prefixlen p" "n < prefixlen q" "\<And>i. i < n \<Longrightarrow> bit_at (p_u p) i = bit_at (p_u q) i"
    "\<not> bit_at (p_u p) n" "bit_at (p_u q) n"
  shows "pbits p < pbits q"
proof (rule less_of_branch [of "take n (pbits p)"])
  have "take n (pbits q) = take n (pbits p)" using assms(1-3) by (auto simp: list_eq_iff_nth_eq nth_pbits)
  then show "prefix (take n (pbits p) @ [True]) (pbits q)"
    using assms(2,5) take_is_prefix [of "Suc n" "pbits q"] by (simp add: take_Suc_conv_app_nth nth_pbits)
  show "prefix (take n (pbits p) @ [False]) (pbits p)"
    using assms(1,4) take_is_prefix [of "Suc n" "pbits p"] by (simp add: take_Suc_conv_app_nth nth_pbits)
qed

lemma iter_cmp_spec:
  assumes "prefixlen p1 \<le> 128" "prefixlen p2 \<le> 128"
  shows "route_table_prefix_iter_cmp p1 p2 =
    Some (if pbits p1 = pbits p2 then 0 else if pbits p1 < pbits p2 then -1 else 1)"
proof (cases "prefix (pbits p1) (pbits p2) \<or> prefix (pbits p2) (pbits p1)")
  case True
  have le: "pbits p1 \<le> pbits p2 \<longleftrightarrow> prefix (pbits p1) (pbits p2)"
    using True le_of_prefix [of "pbits p1" "pbits p2"] le_of_prefix [of "pbits p2" "pbits p1"] by auto
  have eq: "pbits p1 = pbits p2 \<longleftrightarrow> prefixlen p1 = prefixlen p2"
    using True by (metis length_pbits prefix_eq_of_length)
  show ?thesis
    using True le eq prefix_length_le [of "pbits p1" "pbits p2"] prefix_length_le [of "pbits p2" "pbits p1"]
    by (auto simp: route_table_prefix_iter_cmp_def prefix_match_iff le_less)
next
  case False
  define c where "c = route_common p1 p2 prefix_new"
  have c: "prefixlen c \<le> prefixlen p2" "\<And>i. i < prefixlen c \<Longrightarrow> bit_at (p_u p1) i = bit_at (p_u p2) i"
    "prefixlen c < prefixlen p2 \<Longrightarrow> bit_at (p_u p1) (prefixlen c) \<noteq> bit_at (p_u p2) (prefixlen c)"
    using route_common_spec [OF assms(2), of prefix_new p1] by (auto simp: c_def prefix_new_def)
  have l1: "prefixlen c < prefixlen p1"
  proof (rule ccontr)
    assume "\<not> prefixlen c < prefixlen p1"
    then have "prefix (pbits p1) (pbits p2)" using c(1,2) by (auto simp: pbits_prefix_iff)
    then show False using False by simp
  qed
  have l2: "prefixlen c < prefixlen p2"
  proof (rule ccontr)
    assume "\<not> prefixlen c < prefixlen p2"
    then have "prefix (pbits p2) (pbits p1)" using c(1,2) l1 by (auto simp: pbits_prefix_iff)
    then show False using False by simp
  qed
  have ne: "pbits p1 \<noteq> pbits p2" using False by auto
  have "pbits p1 < pbits p2 \<longleftrightarrow> bit_at (p_u p2) (prefixlen c)"
  proof (cases "bit_at (p_u p2) (prefixlen c)")
    case True
    then show ?thesis using pbits_less_at [OF l1 l2 c(2)] c(3) [OF l2] by simp
  next
    case False
    then have "pbits p2 < pbits p1" using pbits_less_at [OF l2 l1 c(2) [symmetric]] c(3) [OF l2] by simp
    then have "\<not> pbits p1 < pbits p2" by order
    then show ?thesis using False by simp
  qed
  then show ?thesis
    using False l1 l2 c(3) [OF l2] ne
    by (auto simp: route_table_prefix_iter_cmp_def prefix_match_iff prefix_bit_eq Let_def c_def [symmetric])
qed

lemma get_next_loop_spec:
  assumes inv: "table_inv t" and pre: "prefixlen pre \<le> 128"
  shows "rt_mem t x = Some xd \<Longrightarrow> toward (rt_mem t) (pbits pre) x \<Longrightarrow>
    \<exists>r. get_next_loop t pre (Some x) = Some (r, t) \<and> is_next (rt_mem t) (pbits pre) r"
proof (induction "128 - length (key xd)" arbitrary: x xd rule: less_induct)
  case less
  note ti = table_inv_tree [OF inv]
  note x = less.prems
  have xlen: "prefixlen (rn_p xd) \<le> 128" using wf_prefix_len tree_inv_wf [OF ti x(1)] by blast
  note loop = get_next_loop.simps [of t pre "Some x"]
  let ?match = "if prefixlen (rn_p xd) < prefixlen pre then prefix_match (rn_p xd) pre else prefix_match pre (rn_p xd)"
  consider (eq) "key xd = pbits pre"
    | (longer) "\<exists>b. prefix (pbits pre @ [b]) (key xd)"
    | (shorter) "\<exists>b. prefix (key xd @ [b]) (pbits pre)"
    | (apart) "\<not> prefix (key xd) (pbits pre)" "\<not> prefix (pbits pre) (key xd)"
    using prefix_ext by metis
  then show ?case
  proof cases
    case eq
    then have l: "prefixlen (rn_p xd) = prefixlen pre" by (metis length_pbits)
    obtain t1 where t1: "route_lock_node x t = Some t1" using x(1) by (simp add: route_lock_node_def node_upd_def)
    have k: "key_at t x = Some (pbits pre)" using x(1) eq by (simp add: key_at_def)
    from route_next_locked [OF inv t1 k] obtain r where r: "next_key t (pbits pre) r"
      "case r of None \<Rightarrow> route_next x t1 = Some (None, t)
       | Some c \<Rightarrow> c \<noteq> x \<and> (\<exists>t2. route_lock_node c t = Some t2 \<and> route_next x t1 = Some (Some c, t2))" by blast
    have "get_next_loop t pre (Some x) = Some (r, t)"
      using r(2) x(1) l eq t1 unlock_lock_node [OF inv]
      by (cases r) (auto simp: loop prefix_match_iff)
    then show ?thesis using r(1) by (auto simp: is_next_key)
  next
    case longer
    then obtain b where b: "prefix (pbits pre @ [b]) (key xd)" by blast
    then have l: "prefixlen pre < prefixlen (rn_p xd)" by (auto dest!: prefix_length_le)
    have "get_next_loop t pre (Some x) = Some (Some x, t)"
      using x(1) l append_prefixD [OF b] by (simp add: loop prefix_match_iff)
    then show ?thesis using is_next_here [OF ti x less_of_strict_prefix [OF b]] by blast
  next
    case shorter
    then obtain b where b: "prefix (key xd @ [b]) (pbits pre)" by blast
    then have l: "prefixlen (rn_p xd) < prefixlen pre" by (auto dest!: prefix_length_le)
    have bit: "bit_at (p_u pre) (prefixlen (rn_p xd)) = b"
      using b l by (metis length_pbits nth_append_length nth_pbits prefix_def append_Cons append_assoc)
    show ?thesis
    proof (cases "lk xd b")
      case None
      have "get_next_loop t pre (Some x) =
          map_option (\<lambda>r. (r, t)) (if rn_right xd \<noteq> None then Some (rn_right xd) else climb (rt_mem t) None x)"
        using x(1) l append_prefixD [OF b] None bit
        by (simp add: loop prefix_match_iff Let_def route_get_subtree_next_def)
      then show ?thesis using is_next_gap [OF ti x(1) b None] by auto
    next
      case (Some c)
      obtain cd where cd: "rt_mem t c = Some cd" "prefix (key xd @ [b]) (key cd)"
        by (rule tree_inv_child [OF ti x(1) Some])
      have "length (key xd) < length (key cd)" "length (key cd) \<le> 128"
        using prefix_length_le [OF cd(2)] wf_prefix_len [OF tree_inv_wf [OF ti cd(1)]] by auto
      then have "128 - length (key cd) < 128 - length (key xd)" by linarith
      from less.hyps [OF this cd(1) toward_child [OF ti x(1) Some b]] obtain r where
        "get_next_loop t pre (Some c) = Some (r, t)" "is_next (rt_mem t) (pbits pre) r" by blast
      moreover have "get_next_loop t pre (Some x) = get_next_loop t pre (Some c)"
        using x(1) l append_prefixD [OF b] Some bit by (simp add: loop prefix_match_iff Let_def)
      ultimately show ?thesis by simp
    qed
  next
    case apart
    then have nm: "\<not> ?match" by (simp add: prefix_match_iff)
    have ne: "key xd \<noteq> pbits pre" using apart by auto
    show ?thesis
    proof (cases "pbits pre < key xd")
      case True
      then have "\<not> key xd < pbits pre" by order
      then have "get_next_loop t pre (Some x) = Some (Some x, t)"
        using x(1) nm iter_cmp_spec [OF xlen pre] ne by (simp add: loop)
      then show ?thesis using is_next_here [OF ti x True] by blast
    next
      case False
      then have lt: "key xd < pbits pre" using ne by order
      have run: "get_next_loop t pre (Some x) = map_option (\<lambda>r. (r, t)) (climb (rt_mem t) None x)"
        using x(1) nm iter_cmp_spec [OF xlen pre] ne lt by (simp add: loop route_get_subtree_next_def)
      have "\<not> pbits pre < key yd" if "rt_mem t y = Some yd" "prefix (key xd) (key yd)" for y yd
        using less_extend [OF lt apart(1) that(2)] by order
      then have none: "\<forall>y yd. rt_mem t y = Some yd \<longrightarrow> prefix (key xd) (key yd) \<longrightarrow> \<not> pbits pre < key yd" by blast
      from climb_spec [OF ti x none] run show ?thesis by auto
    qed
  qed
qed

lemma get_next_internal_spec:
  assumes inv: "table_inv t" and pre: "prefixlen pre \<le> 128"
  shows "\<exists>r. route_table_get_next_internal t pre = Some (r, t) \<and> next_key t (pbits pre) r"
proof (cases "rt_top t")
  case None
  then have "rt_mem t = Map.empty" using table_inv_tree [OF inv] tree_inv_empty by metis
  then show ?thesis using None
    by (simp add: route_table_get_next_internal_def get_next_loop.simps [of t pre None] next_key_def key_at_def)
next
  case (Some a)
  obtain nd where nd: "rt_mem t a = Some nd" "rn_parent nd = None"
    using tree_inv_top table_inv_tree [OF inv] Some by metis
  then have "toward (rt_mem t) (pbits pre) a" by (simp add: toward_def)
  from get_next_loop_spec [OF inv pre nd(1) this] show ?thesis
    using Some by (simp add: route_table_get_next_internal_def is_next_key)
qed

lemma route_table_get_next_view:
  assumes inv: "table_inv t" and pre: "prefixlen pre \<le> 128"
  shows "\<exists>r t'. route_table_get_next t pre = Some (r, t') \<and> next_key t (pbits pre) r \<and>
    (case r of None \<Rightarrow> t' = t | Some c \<Rightarrow> route_lock_node c t = Some t')"
proof -
  from get_next_internal_spec [OF assms] obtain r where
    r: "route_table_get_next_internal t pre = Some (r, t)" "next_key t (pbits pre) r" by blast
  show ?thesis
  proof (cases r)
    case None
    then show ?thesis using r by (simp add: route_table_get_next_def)
  next
    case (Some c)
    then obtain cd where cd: "rt_mem t c = Some cd" "pbits pre < key cd"
      using r(2) by (auto simp: next_key_def key_at_def)
    obtain t' where t': "route_lock_node c t = Some t'" using cd(1) by (simp add: route_lock_node_def node_upd_def)
    have "key cd \<noteq> pbits pre" "\<not> key cd < pbits pre" using cd(2) by order+
    then have "route_table_prefix_iter_cmp (rn_p cd) pre = Some 1"
      using iter_cmp_spec [OF wf_prefix_len [OF tree_inv_wf [OF table_inv_tree [OF inv] cd(1)]] pre] by simp
    then have "route_table_get_next t pre = Some (r, t')" using r(1) Some cd(1) t' by (simp add: route_table_get_next_def)
    then show ?thesis using r(2) Some t' by auto
  qed
qed

lemma iter_pause_spec:
  assumes inv: "table_inv t" and st: "it_state it = RT_ITER_STATE_ITERATING" "it_current it = Some a"
    and pp: "length (p_u (it_pause_prefix it)) = 16"
    and a: "key_at t a = Some ks" "0 < lock_at t a" "lock_at t a = 1 \<Longrightarrow> info_at t a = None"
  shows "\<exists>it' t'. route_table_iter_pause it t = Some (it', t') \<and> table_inv t' \<and> info_at t' = info_at t \<and>
    it_state it' = RT_ITER_STATE_PAUSED \<and> it_current it' = None \<and>
    wf_prefix (it_pause_prefix it') \<and> pbits (it_pause_prefix it') = ks"
proof -
  obtain nd where nd: "rt_mem t a = Some nd" "key nd = ks" using a(1) by (auto simp: key_at_def)
  from prefix_copy_any [OF tree_inv_wf [OF table_inv_tree [OF inv] nd(1)] pp] obtain q where
    q: "prefix_copy (it_pause_prefix it) (rn_p nd) = Some q" "wf_prefix q" "pbits q = key nd" by blast
  from unlock_view [OF inv a(2,3)] obtain t' where t': "route_unlock_node a t = Some t'" "table_inv t'" "info_at t' = info_at t" by blast
  show ?thesis using st nd q t' by (simp add: route_table_iter_pause_def)
qed

lemma iter_resume_spec:
  assumes inv: "table_inv t" and st: "it_state it = RT_ITER_STATE_PAUSED"
    and pp: "wf_prefix (it_pause_prefix it)" "pbits (it_pause_prefix it) = ks"
  shows "\<exists>r it' t'. route_table_iter_next it t = Some (r, it', t') \<and> next_key t ks r \<and>
    it_current it' = r \<and> (it_state it' = (if r = None then RT_ITER_STATE_DONE else RT_ITER_STATE_ITERATING)) \<and>
    (case r of None \<Rightarrow> t' = t | Some c \<Rightarrow> route_lock_node c t = Some t')"
proof -
  from route_table_get_next_view [OF inv wf_prefix_len [OF pp(1)]] obtain r t' where
    r: "route_table_get_next t (it_pause_prefix it) = Some (r, t')" "next_key t ks r"
      "case r of None \<Rightarrow> t' = t | Some c \<Rightarrow> route_lock_node c t = Some t'" unfolding pp(2) by blast
  show ?thesis using st r by (cases r) (auto simp: route_table_iter_next_def iter_step_def)
qed

section \<open>Freeing a table releases every node\<close>

lemma free_step_below:
  assumes ti: "tree_inv tp m" and a: "m a = Some nd" "rn_left nd = None" "rn_right nd = None" "rn_parent nd = Some q"
  shows "\<exists>qd. m q = Some qd \<and> q \<noteq> a \<and>
    tree_inv tp ((m(a := None))(q \<mapsto> (if rn_left qd = Some a then qd\<lparr>rn_left := None\<rparr> else qd\<lparr>rn_right := None\<rparr>)))"
proof -
  obtain qd b where q: "m q = Some qd" "lk qd b = Some a" by (rule tree_inv_parent [OF ti a(1,4)])
  have qa: "a \<noteq> q" using key_neq_parent [OF ti q] .
  have "tree_inv tp ((reparent (only_child nd) (Some q) m)(q \<mapsto> set_lk b (only_child nd) qd, a := None))"
    by (rule remove_below [OF ti a(1,4) _ q]) (simp add: a)
  then have "tree_inv tp (m(q \<mapsto> set_lk b None qd, a := None))" using a by (simp add: reparent_def)
  then have "tree_inv tp ((m(a := None))(q \<mapsto> set_lk b None qd))" using qa by (simp add: fun_upd_twist)
  then show ?thesis using q(1) qa relink_set_lk [OF ti q, of None] by auto
qed

lemma free_step_top:
  assumes ti: "tree_inv tp m" and a: "m a = Some nd" "rn_left nd = None" "rn_right nd = None" "rn_parent nd = None"
  shows "m(a := None) = Map.empty"
proof -
  have "tree_inv (Some a) m" using ti tree_inv_root [OF ti a(1,4)] by simp
  then have "tree_inv (only_child nd) ((reparent (only_child nd) None m)(a := None))"
    by (rule remove_top) (auto simp: a)
  then show ?thesis using tree_inv_empty a by (auto simp: reparent_def)
qed

lemma table_free_loop_spec:
  "tree_inv tp (rt_mem t) \<Longrightarrow> finite (dom (rt_mem t)) \<Longrightarrow> rt_count t = card (dom (rt_mem t)) \<Longrightarrow>
   rt_mem t a = Some nd \<Longrightarrow> \<exists>t'. table_free_loop (Some a) t = Some t' \<and> rt_mem t' = Map.empty \<and> rt_count t' = 0"
proof (induction "129 * card (dom (rt_mem t)) + (128 - length (key nd))" arbitrary: t a nd rule: less_induct)
  case less
  note ti = less.prems(1) and fin = less.prems(2) and cnt = less.prems(3) and a = less.prems(4)
  have down: ?case if c: "lk nd b = Some c" "table_free_loop (Some a) t = table_free_loop (Some c) t" for b c
  proof -
    obtain cd where cd: "rt_mem t c = Some cd" "prefix (key nd @ [b]) (key cd)" by (rule tree_inv_child [OF ti a c(1)])
    have "length (key nd) < length (key cd)" "length (key cd) \<le> 128"
      using prefix_length_le [OF cd(2)] wf_prefix_len [OF tree_inv_wf [OF ti cd(1)]] by auto
    then have "129 * card (dom (rt_mem t)) + (128 - length (key cd)) < 129 * card (dom (rt_mem t)) + (128 - length (key nd))"
      by linarith
    from less.hyps [OF this ti fin cnt cd(1)] show ?thesis unfolding c(2) .
  qed
  consider (left) c where "rn_left nd = Some c" | (right) c where "rn_left nd = None" "rn_right nd = Some c"
    | (leaf) "rn_left nd = None" "rn_right nd = None" by (cases "rn_left nd"; cases "rn_right nd") auto
  then show ?case
  proof cases
    case left
    then show ?thesis using down [of False c] a by (simp add: lk_def table_free_loop.simps [of "Some a"])
  next
    case right
    then show ?thesis using down [of True c] a by (simp add: lk_def table_free_loop.simps [of "Some a"])
  next
    case leaf
    have card1: "card (dom ((rt_mem t)(a := None))) = card (dom (rt_mem t)) - 1"
      "0 < card (dom (rt_mem t))" using fin a by (auto simp: card_gt_0_iff domI)
    show ?thesis
    proof (cases "rn_parent nd")
      case None
      have e: "(rt_mem t)(a := None) = Map.empty" by (rule free_step_top [OF ti a leaf None])
      then have "rt_count t - 1 = 0" using card1(1) cnt by simp
      then show ?thesis using a leaf None e by (simp add: table_free_loop.simps [of "Some a"] route_node_free_def Let_def)
    next
      case (Some q)
      from free_step_below [OF ti a leaf Some] obtain qd where qd: "rt_mem t q = Some qd" "q \<noteq> a"
        "tree_inv tp (((rt_mem t)(a := None))(q \<mapsto> (if rn_left qd = Some a then qd\<lparr>rn_left := None\<rparr> else qd\<lparr>rn_right := None\<rparr>)))"
        by blast
      define q' where "q' = (if rn_left qd = Some a then qd\<lparr>rn_left := None\<rparr> else qd\<lparr>rn_right := None\<rparr>)"
      define t2 where "t2 = t\<lparr>rt_count := rt_count t - 1, rt_mem := ((rt_mem t)(a := None))(q \<mapsto> q')\<rparr>"
      have "node_upd q (\<lambda>x. if rn_left x = Some a then x\<lparr>rn_left := None\<rparr> else x\<lparr>rn_right := None\<rparr>)
          (route_node_free a (t\<lparr>rt_count := rt_count t - 1\<rparr>)) = Some t2"
        using qd(1,2) by (simp only: node_upd_def route_node_free_def) (simp add: t2_def q'_def)
      then have run: "table_free_loop (Some a) t = table_free_loop (Some q) t2"
        using a leaf Some by (simp add: table_free_loop.simps [of "Some a"] Let_def)
      have dom2: "dom (rt_mem t2) = dom ((rt_mem t)(a := None))" using qd(1,2) by (auto simp: t2_def)
      have "129 * card (dom (rt_mem t2)) + (128 - length (key q')) < 129 * card (dom (rt_mem t)) + (128 - length (key nd))"
        using card1 unfolding dom2 by linarith
      moreover have "tree_inv tp (rt_mem t2)" using qd(3) by (simp add: t2_def q'_def)
      moreover have "finite (dom (rt_mem t2))" using fin unfolding dom2 by simp
      moreover have "rt_count t2 = card (dom (rt_mem t2))" using card1(1) cnt unfolding dom2 by (simp add: t2_def)
      moreover have "rt_mem t2 q = Some q'" by (simp add: t2_def)
      ultimately show ?thesis unfolding run by (rule less.hyps)
    qed
  qed
qed

lemma route_table_free_spec:
  assumes "table_inv t"
  shows "route_table_free t = Some Map.empty"
proof (cases "rt_top t")
  case None
  then have "rt_mem t = Map.empty" using table_inv_tree [OF assms] tree_inv_empty by metis
  then show ?thesis using assms None by (simp add: route_table_free_def table_free_loop.simps table_inv_def)
next
  case (Some a)
  obtain nd where "rt_mem t a = Some nd" using tree_inv_top table_inv_tree [OF assms] Some by metis
  then show ?thesis using assms Some table_free_loop_spec [of "rt_top t" t a nd]
    by (auto simp: route_table_free_def table_inv_def)
qed

end
