(* ===== verification/Prefix_Store.thy ===== *)
theory Prefix_Store
  imports Prefix
begin

text \<open>
  The contract between a table of prefixes and its clients.  A table holds nodes with a key, a
  reference count and an optional datum; a client looks nodes up, which takes a reference, and gives the
  references back.  The lemmas of the locale are the protocol the clients in the daemons follow: every
  datum is worth one reference, and nothing else is referenced between two operations.
\<close>

section \<open>The interface\<close>

locale prefix_store =
  fixes inv :: "'t \<Rightarrow> bool"
    and keyof :: "'t \<Rightarrow> nat \<Rightarrow> bool list option"
    and refs :: "'t \<Rightarrow> nat \<Rightarrow> nat"
    and datum :: "'t \<Rightarrow> nat \<Rightarrow> 'i option"
    and get :: "'t \<Rightarrow> prefix_t \<Rightarrow> (nat \<times> 't) option"
    and look :: "'t \<Rightarrow> prefix_t \<Rightarrow> (nat option \<times> 't) option"
    and best :: "'t \<Rightarrow> prefix_t \<Rightarrow> (nat option \<times> 't) option"
    and unlock :: "nat \<Rightarrow> 't \<Rightarrow> 't option"
    and put :: "nat \<Rightarrow> 'i option \<Rightarrow> 't \<Rightarrow> 't option"
    and first :: "'t \<Rightarrow> (nat option \<times> 't) option"
    and nxt :: "nat \<Rightarrow> 't \<Rightarrow> (nat option \<times> 't) option"
  assumes key_unique: "inv t \<Longrightarrow> keyof t a = Some ks \<Longrightarrow> keyof t b = Some ks \<Longrightarrow> a = b"
    and keys_finite: "inv t \<Longrightarrow> finite {a. keyof t a \<noteq> None}"
    and datum_node: "datum t a \<noteq> None \<Longrightarrow> keyof t a \<noteq> None"
    and datum_held: "inv t \<Longrightarrow> datum t a \<noteq> None \<Longrightarrow> 0 < refs t a"
    and refs_node: "0 < refs t a \<Longrightarrow> keyof t a \<noteq> None"
    and unreferenced_empty: "inv t \<Longrightarrow> (\<And>a. refs t a = 0) \<Longrightarrow> keyof t a = None"
    and get_law: "inv t \<Longrightarrow> wf_prefix p \<Longrightarrow>
      \<exists>a t'. get t p = Some (a, t') \<and> inv t' \<and> datum t' = datum t \<and>
        (\<forall>x. refs t' x = refs t x + (if x = a then 1 else 0)) \<and>
        (\<forall>x k. keyof t x = Some k \<longrightarrow> keyof t' x = Some k) \<and> keyof t' a = Some (pbits p)"
    and look_law: "inv t \<Longrightarrow>
      \<exists>r t'. look t p = Some (r, t') \<and> inv t' \<and> keyof t' = keyof t \<and> datum t' = datum t \<and>
        (\<forall>x. refs t' x = refs t x + (if Some x = r then 1 else 0)) \<and>
        (case r of
           None \<Rightarrow> \<not> (\<exists>a. keyof t a = Some (pbits p) \<and> datum t a \<noteq> None)
         | Some a \<Rightarrow> keyof t a = Some (pbits p) \<and> datum t a \<noteq> None)"
    and best_law: "inv t \<Longrightarrow>
      \<exists>r t'. best t p = Some (r, t') \<and> inv t' \<and> keyof t' = keyof t \<and> datum t' = datum t \<and>
        (\<forall>x. refs t' x = refs t x + (if Some x = r then 1 else 0)) \<and>
        (case r of
           None \<Rightarrow> \<not> (\<exists>ks a. keyof t a = Some ks \<and> datum t a \<noteq> None \<and> prefix ks (pbits p))
         | Some a \<Rightarrow> \<exists>ks. keyof t a = Some ks \<and> datum t a \<noteq> None \<and> prefix ks (pbits p) \<and>
             (\<forall>ks' a'. keyof t a' = Some ks' \<longrightarrow> datum t a' \<noteq> None \<longrightarrow> prefix ks' (pbits p) \<longrightarrow> length ks' \<le> length ks))"
    and unlock_law: "inv t \<Longrightarrow> 0 < refs t a \<Longrightarrow> (refs t a = 1 \<Longrightarrow> datum t a = None) \<Longrightarrow>
      \<exists>t'. unlock a t = Some t' \<and> inv t' \<and> datum t' = datum t \<and>
        (\<forall>x. refs t' x = refs t x - (if x = a then 1 else 0)) \<and>
        (\<forall>x k. keyof t' x = Some k \<longrightarrow> keyof t x = Some k) \<and> (\<forall>x. 0 < refs t' x \<longrightarrow> keyof t' x = keyof t x)"
    and put_law: "inv t \<Longrightarrow> 0 < refs t a \<Longrightarrow>
      \<exists>t'. put a i t = Some t' \<and> inv t' \<and> keyof t' = keyof t \<and> refs t' = refs t \<and> datum t' = (datum t)(a := i)"
    and first_law: "inv t \<Longrightarrow>
      \<exists>r t'. first t = Some (r, t') \<and> inv t' \<and> keyof t' = keyof t \<and> datum t' = datum t \<and>
        (\<forall>x. refs t' x = refs t x + (if Some x = r then 1 else 0)) \<and>
        (case r of
           None \<Rightarrow> \<forall>x. keyof t x = None
         | Some a \<Rightarrow> \<exists>ka. keyof t a = Some ka \<and> (\<forall>x k. keyof t x = Some k \<longrightarrow> ka \<le> k))"
    and nxt_law: "inv t \<Longrightarrow> 0 < refs t a \<Longrightarrow> (refs t a = 1 \<Longrightarrow> datum t a = None) \<Longrightarrow> keyof t a = Some ks \<Longrightarrow>
      \<exists>r t'. nxt a t = Some (r, t') \<and> inv t' \<and> datum t' = datum t \<and>
        (\<forall>x. refs t' x = refs t x + (if Some x = r then 1 else 0) - (if x = a then 1 else 0)) \<and>
        (\<forall>x k. keyof t' x = Some k \<longrightarrow> keyof t x = Some k) \<and> (\<forall>x. 0 < refs t' x \<longrightarrow> keyof t' x = keyof t x) \<and>
        (case r of
           None \<Rightarrow> (\<forall>y k. keyof t y = Some k \<longrightarrow> \<not> ks < k)
         | Some c \<Rightarrow> (\<exists>kc. keyof t c = Some kc \<and> ks < kc \<and> (\<forall>y k. keyof t y = Some k \<longrightarrow> ks < k \<longrightarrow> kc \<le> k)))"
begin

text \<open>The entries of a table, and the tables between two operations of a client.\<close>

definition entry :: "'t \<Rightarrow> bool list \<Rightarrow> 'i \<Rightarrow> bool" where
  "entry t ks i \<longleftrightarrow> (\<exists>a. keyof t a = Some ks \<and> datum t a = Some i)"

definition balanced :: "'t \<Rightarrow> bool" where
  "balanced t \<longleftrightarrow> inv t \<and> (\<forall>a. refs t a = (if datum t a = None then 0 else 1))"

lemma entry_unique: "inv t \<Longrightarrow> entry t ks i \<Longrightarrow> entry t ks j \<Longrightarrow> i = j"
  unfolding entry_def using key_unique by force

text \<open>Entries only depend on the data of the nodes whose key is kept.\<close>

lemma entry_cong:
  assumes "datum t' = datum t" "\<And>x. datum t x \<noteq> None \<Longrightarrow> keyof t' x = keyof t x"
  shows "entry t' ks i \<longleftrightarrow> entry t ks i"
  unfolding entry_def assms(1) using assms(2) by (metis option.distinct(1))

section \<open>What the clients do\<close>

lemma balancedD:
  "balanced t \<Longrightarrow> inv t"
  "balanced t \<Longrightarrow> refs t a = (if datum t a = None then 0 else 1)"
  by (simp_all add: balanced_def)

lemma entry_of: "keyof t a = Some ks \<Longrightarrow> datum t a = Some i \<Longrightarrow> entry t ks i"
  by (auto simp: entry_def)

lemma entry_node: "inv t \<Longrightarrow> keyof t a = Some ks \<Longrightarrow> entry t ks i \<longleftrightarrow> datum t a = Some i"
  unfolding entry_def using key_unique by blast

lemma store_entry:
  assumes bal: "balanced t" and p: "wf_prefix p"
  shows "\<exists>t' old. Option.bind (get t p) (\<lambda>(a, t1).
      if datum t1 a \<noteq> None
      then Option.bind (unlock a t1) (put a (Some (f (datum t1 a))))
      else put a (Some (f None)) t1) = Some t' \<and> balanced t' \<and>
    (case old of None \<Rightarrow> \<not> (\<exists>i. entry t (pbits p) i) | Some i \<Rightarrow> entry t (pbits p) i) \<and>
    (\<forall>ks i. entry t' ks i \<longleftrightarrow> (if ks = pbits p then i = f old else entry t ks i))"
proof -
  note inv = balancedD(1) [OF bal]
  from get_law [OF inv p] obtain a t1 where g: "get t p = Some (a, t1)" "inv t1" "datum t1 = datum t"
    "\<forall>x. refs t1 x = refs t x + (if x = a then 1 else 0)" "\<forall>x k. keyof t x = Some k \<longrightarrow> keyof t1 x = Some k"
    "keyof t1 a = Some (pbits p)" by blast
  have e1: "entry t1 ks i \<longleftrightarrow> entry t ks i" for ks i
    by (rule entry_cong [OF g(3)]) (metis datum_node g(5) not_Some_eq)
  have r1: "refs t1 x = (if datum t x = None then 0 else 1) + (if x = a then 1 else 0)" for x
    using g(4) balancedD(2) [OF bal] by simp
  define t2r where "t2r = (if datum t1 a \<noteq> None then unlock a t1 else Some t1)"
  have "\<exists>t2. t2r = Some t2 \<and> inv t2 \<and> datum t2 = datum t \<and>
     (\<forall>x. refs t2 x = (if x = a then 1 else if datum t x = None then 0 else 1)) \<and> keyof t2 a = Some (pbits p) \<and>
     (\<forall>ks i. entry t2 ks i \<longleftrightarrow> entry t ks i)"
  proof (cases "datum t1 a = None")
    case True
    then have "refs t1 x = (if x = a then 1 else if datum t x = None then 0 else 1)" for x using r1 [of x] g(3) by auto
    then show ?thesis using True g(2,3,6) e1 by (intro exI [of _ t1]) (simp add: t2r_def)
  next
    case False
    have "0 < refs t1 a" "refs t1 a = 1 \<Longrightarrow> datum t1 a = None" using r1 False g(3) by auto
    from unlock_law [OF g(2) this] obtain t2 where u: "unlock a t1 = Some t2" "inv t2" "datum t2 = datum t1"
      "\<forall>x. refs t2 x = refs t1 x - (if x = a then 1 else 0)" "\<forall>x. 0 < refs t2 x \<longrightarrow> keyof t2 x = keyof t1 x" by blast
    have "entry t2 ks i \<longleftrightarrow> entry t ks i" for ks i
      using entry_cong [OF u(3)] u(5) datum_held [OF u(2)] e1 u(3) by metis
    moreover have r2: "refs t2 x = (if x = a then 1 else if datum t x = None then 0 else 1)" for x
      using u(4) r1 [of x] False g(3) by auto
    moreover have "keyof t2 a = Some (pbits p)" using u(5) r2 [of a] g(6) by simp
    ultimately show ?thesis using u False g(3) by (simp add: t2r_def)
  qed
  then obtain t2 where t2: "t2r = Some t2" "inv t2" "datum t2 = datum t"
    "\<forall>x. refs t2 x = (if x = a then 1 else if datum t x = None then 0 else 1)" "keyof t2 a = Some (pbits p)"
    "\<forall>ks i. entry t2 ks i \<longleftrightarrow> entry t ks i" by blast
  from put_law [OF t2(2), of a] t2(4) obtain t' where t': "put a (Some (f (datum t a))) t2 = Some t'" "inv t'" "keyof t' = keyof t2"
    "refs t' = refs t2" "datum t' = (datum t2)(a := Some (f (datum t a)))" by fastforce
  have run: "Option.bind (get t p) (\<lambda>(a, t1).
      if datum t1 a \<noteq> None then Option.bind (unlock a t1) (put a (Some (f (datum t1 a))))
      else put a (Some (f None)) t1) = Some t'"
    using g(1,3) t2(1) t'(1) by (auto simp: t2r_def split: if_splits)
  have "balanced t'" using t' t2(3,4) by (auto simp: balanced_def)
  moreover have "entry t' ks i \<longleftrightarrow> (if ks = pbits p then i = f (datum t a) else entry t ks i)" for ks i
  proof (cases "ks = pbits p")
    case True
    then show ?thesis using entry_node [OF t'(2), of a ks i] t'(3,5) t2(5) by auto
  next
    case False
    have "entry t' ks i \<longleftrightarrow> entry t2 ks i" 
    proof -
      have "x \<noteq> a" if "keyof t2 x = Some ks" for x using that False t2(5) by auto
      then show ?thesis unfolding entry_def t'(3,5) by (auto simp: fun_upd_def)
    qed
    then show ?thesis using t2(6) False by simp
  qed
  moreover have "case datum t a of None \<Rightarrow> \<not> (\<exists>i. entry t (pbits p) i) | Some i \<Rightarrow> entry t (pbits p) i"
    using entry_node [OF t2(2,5)] t2(3,6) by (cases "datum t a") auto
  ultimately show ?thesis using run by blast
qed

lemma remove_entry:
  assumes bal: "balanced t"
  shows "\<exists>r t'. Option.bind (look t p) (\<lambda>(r, t1).
      case r of
        None \<Rightarrow> Some (False, t1)
      | Some a \<Rightarrow> Option.bind (put a None t1) (\<lambda>t2. Option.bind (unlock a t2) (\<lambda>t3. map_option (Pair True) (unlock a t3)))) = Some (r, t') \<and>
    balanced t' \<and> (r \<longleftrightarrow> (\<exists>i. entry t (pbits p) i)) \<and> (\<forall>ks i. entry t' ks i \<longleftrightarrow> ks \<noteq> pbits p \<and> entry t ks i)"
proof -
  note inv = balancedD(1) [OF bal]
  from look_law [OF inv] obtain r t1 where l: "look t p = Some (r, t1)" "inv t1" "keyof t1 = keyof t" "datum t1 = datum t"
    "\<forall>x. refs t1 x = refs t x + (if Some x = r then 1 else 0)"
    "case r of None \<Rightarrow> \<not> (\<exists>a. keyof t a = Some (pbits p) \<and> datum t a \<noteq> None)
       | Some a \<Rightarrow> keyof t a = Some (pbits p) \<and> datum t a \<noteq> None" by blast
  show ?thesis
  proof (cases r)
    case None
    then have "\<not> (\<exists>i. entry t (pbits p) i)" using l(6) by (auto simp: entry_def)
    moreover have "entry t1 ks i \<longleftrightarrow> entry t ks i" for ks i by (simp add: entry_def l(3,4))
    moreover have "balanced t1" using l(2,4,5) None bal by (simp add: balanced_def)
    ultimately show ?thesis using l(1) None by auto
  next
    case (Some a)
    then have ka: "keyof t a = Some (pbits p)" "datum t a \<noteq> None" using l(6) by auto
    then have ra: "refs t1 a = 2" using l(5) balancedD(2) [OF bal, of a] Some by simp
    then have "0 < refs t1 a" by simp
    from put_law [OF l(2) this, of None] obtain t2 where t2: "put a None t1 = Some t2" "inv t2" "keyof t2 = keyof t1"
      "refs t2 = refs t1" "datum t2 = (datum t1)(a := None)" by blast
    have "0 < refs t2 a" "refs t2 a = 1 \<Longrightarrow> datum t2 a = None" using ra t2(4) by auto
    from unlock_law [OF t2(2) this] obtain t3 where t3: "unlock a t2 = Some t3" "inv t3" "datum t3 = datum t2"
      "\<forall>x. refs t3 x = refs t2 x - (if x = a then 1 else 0)" "\<forall>x. 0 < refs t3 x \<longrightarrow> keyof t3 x = keyof t2 x" by blast
    have "0 < refs t3 a" "refs t3 a = 1 \<Longrightarrow> datum t3 a = None" using ra t2(4,5) t3(3,4) by auto
    from unlock_law [OF t3(2) this] obtain t4 where t4: "unlock a t3 = Some t4" "inv t4" "datum t4 = datum t3"
      "\<forall>x. refs t4 x = refs t3 x - (if x = a then 1 else 0)" "\<forall>x. 0 < refs t4 x \<longrightarrow> keyof t4 x = keyof t3 x" by blast
    have d4: "datum t4 = (datum t)(a := None)" using t4(3) t3(3) t2(5) l(4) by simp
    have r4: "refs t4 x = (if datum t4 x = None then 0 else 1)" for x
      using t4(4) t3(4) t2(4) l(5) ra balancedD(2) [OF bal, of x] Some d4 by (cases "x = a") auto
    have key: "keyof t4 x = keyof t x" if "datum t4 x \<noteq> None" for x
    proof -
      have "0 < refs t4 x" using r4 that by simp
      moreover from this have "0 < refs t3 x" using t4(4) by simp
      ultimately show ?thesis using t4(5) t3(5) t2(3) l(3) by simp
    qed
    have "entry t4 ks i \<longleftrightarrow> ks \<noteq> pbits p \<and> entry t ks i" for ks i
    proof -
      have "keyof t4 x = Some ks \<and> datum t4 x = Some i \<longleftrightarrow> x \<noteq> a \<and> keyof t x = Some ks \<and> datum t x = Some i" for x
        using key [of x] d4 by (cases "x = a") auto
      moreover have "x \<noteq> a \<longleftrightarrow> ks \<noteq> pbits p" if "keyof t x = Some ks" for x
        using key_unique [OF inv ka(1), of x] ka(1) that by auto
      ultimately show ?thesis unfolding entry_def by blast
    qed
    moreover have "balanced t4" using t4(2) r4 by (simp add: balanced_def)
    moreover have "\<exists>i. entry t (pbits p) i" using ka by (auto simp: entry_def)
    ultimately show ?thesis using l(1) Some t2(1) t3(1) t4(1) by auto
  qed
qed

text \<open>A node that was found is given back: nothing but the reference has changed.\<close>

lemma release_found:
  assumes bal: "balanced t" and l: "inv t1" "keyof t1 = keyof t" "datum t1 = datum t"
    "\<forall>x. refs t1 x = refs t x + (if Some x = Some a then 1 else 0)" and d: "datum t a \<noteq> None"
  shows "\<exists>t2. unlock a t1 = Some t2 \<and> balanced t2 \<and> (\<forall>ks i. entry t2 ks i \<longleftrightarrow> entry t ks i)"
proof -
  have "refs t1 a = 2" using l(4) balancedD(2) [OF bal, of a] d by simp
  then have "0 < refs t1 a" "refs t1 a = 1 \<Longrightarrow> datum t1 a = None" by auto
  from unlock_law [OF l(1) this] obtain t2 where t2: "unlock a t1 = Some t2" "inv t2" "datum t2 = datum t1"
    "\<forall>x. refs t2 x = refs t1 x - (if x = a then 1 else 0)" "\<forall>x. 0 < refs t2 x \<longrightarrow> keyof t2 x = keyof t1 x" by blast
  have "balanced t2" using t2(2,3,4) l(3,4) bal by (auto simp: balanced_def)
  moreover have "entry t2 ks i \<longleftrightarrow> entry t ks i" for ks i
    using entry_cong [of t2 t1] t2(3,5) datum_held [OF t2(2)] l(2,3) unfolding entry_def by metis
  ultimately show ?thesis using t2(1) by blast
qed

lemma same_balanced:
  assumes "balanced t" "inv t1" "keyof t1 = keyof t" "datum t1 = datum t"
    "\<forall>x. refs t1 x = refs t x + (if Some x = None then 1 else 0)"
  shows "balanced t1 \<and> (\<forall>ks i. entry t1 ks i \<longleftrightarrow> entry t ks i)"
  using assms by (simp add: balanced_def entry_def)

lemma find_entry:
  assumes bal: "balanced t"
  shows "\<exists>r t'. balanced t' \<and> (\<forall>ks i. entry t' ks i \<longleftrightarrow> entry t ks i) \<and>
    (case r of
       None \<Rightarrow> \<not> (\<exists>ks i. entry t ks i \<and> prefix ks (pbits p))
     | Some i \<Rightarrow> \<exists>ks. entry t ks i \<and> prefix ks (pbits p) \<and>
         (\<forall>ks' i'. entry t ks' i' \<longrightarrow> prefix ks' (pbits p) \<longrightarrow> length ks' \<le> length ks)) \<and>
    (\<forall>K. Option.bind (best t p) (\<lambda>(r, t1).
      case r of
        None \<Rightarrow> K None t1
      | Some a \<Rightarrow> Option.bind (datum t1 a) (\<lambda>i. Option.bind (unlock a t1) (K (Some i)))) = (K r t' :: 'r option))"
proof -
  note inv = balancedD(1) [OF bal]
  from best_law [OF inv] obtain r t1 where l: "best t p = Some (r, t1)" "inv t1" "keyof t1 = keyof t" "datum t1 = datum t"
    "\<forall>x. refs t1 x = refs t x + (if Some x = r then 1 else 0)"
    "case r of None \<Rightarrow> \<not> (\<exists>ks a. keyof t a = Some ks \<and> datum t a \<noteq> None \<and> prefix ks (pbits p))
         | Some a \<Rightarrow> \<exists>ks. keyof t a = Some ks \<and> datum t a \<noteq> None \<and> prefix ks (pbits p) \<and>
             (\<forall>ks' a'. keyof t a' = Some ks' \<longrightarrow> datum t a' \<noteq> None \<longrightarrow> prefix ks' (pbits p) \<longrightarrow> length ks' \<le> length ks)" by blast
  show ?thesis
  proof (cases r)
    case None
    have "\<not> (\<exists>ks i. entry t ks i \<and> prefix ks (pbits p))"
    proof (intro notI, elim exE conjE)
      fix ks i assume "entry t ks i" "prefix ks (pbits p)"
      then show False using l(6) None unfolding entry_def by fastforce
    qed
    then show ?thesis using same_balanced [OF bal l(2-4)] l(5) l(1) None by (intro exI [of _ None] exI [of _ t1]) simp
  next
    case (Some a)
    then obtain ks i where a: "keyof t a = Some ks" "datum t a = Some i" "prefix ks (pbits p)"
      "\<forall>ks' a'. keyof t a' = Some ks' \<longrightarrow> datum t a' \<noteq> None \<longrightarrow> prefix ks' (pbits p) \<longrightarrow> length ks' \<le> length ks"
      using l(6) by auto
    obtain t2 where t2: "unlock a t1 = Some t2" "balanced t2" "\<forall>ks i. entry t2 ks i \<longleftrightarrow> entry t ks i"
      using release_found [OF bal l(2-4), of a] l(5) Some a(2) by auto
    have "entry t ks i" "\<forall>ks' i'. entry t ks' i' \<longrightarrow> prefix ks' (pbits p) \<longrightarrow> length ks' \<le> length ks"
      using a by (auto simp: entry_def)
    then show ?thesis using l(1,4) Some t2 a(2,3) by (intro exI [of _ "Some i"] exI [of _ t2]) auto
  qed
qed

lemma check_entry:
  assumes bal: "balanced t"
  shows "\<exists>r t'. balanced t' \<and> (\<forall>ks i. entry t' ks i \<longleftrightarrow> entry t ks i) \<and>
    (case r of None \<Rightarrow> \<not> (\<exists>i. entry t (pbits p) i) | Some i \<Rightarrow> entry t (pbits p) i) \<and>
    (\<forall>K. Option.bind (look t p) (\<lambda>(r, t1).
      case r of
        None \<Rightarrow> K None t1
      | Some a \<Rightarrow> Option.bind (datum t1 a) (\<lambda>i. Option.bind (unlock a t1) (K (Some i)))) = (K r t' :: 'r option))"
proof -
  note inv = balancedD(1) [OF bal]
  from look_law [OF inv] obtain r t1 where l: "look t p = Some (r, t1)" "inv t1" "keyof t1 = keyof t" "datum t1 = datum t"
    "\<forall>x. refs t1 x = refs t x + (if Some x = r then 1 else 0)"
    "case r of None \<Rightarrow> \<not> (\<exists>a. keyof t a = Some (pbits p) \<and> datum t a \<noteq> None)
       | Some a \<Rightarrow> keyof t a = Some (pbits p) \<and> datum t a \<noteq> None" by blast
  show ?thesis
  proof (cases r)
    case None
    then have "\<not> (\<exists>i. entry t (pbits p) i)" using l(6) by (auto simp: entry_def)
    then show ?thesis using same_balanced [OF bal l(2-4)] l(5) l(1) None by (intro exI [of _ None] exI [of _ t1]) simp
  next
    case (Some a)
    then obtain i where a: "keyof t a = Some (pbits p)" "datum t a = Some i" using l(6) by auto
    obtain t2 where t2: "unlock a t1 = Some t2" "balanced t2" "\<forall>ks i. entry t2 ks i \<longleftrightarrow> entry t ks i"
      using release_found [OF bal l(2-4), of a] l(5) Some a(2) by auto
    have "entry t (pbits p) i" using a by (auto simp: entry_def)
    then show ?thesis using l(1,4) Some t2 a(2) by (intro exI [of _ "Some i"] exI [of _ t2]) auto
  qed
qed

section \<open>Clearing a table while walking it\<close>

text \<open>\<open>clearing t a\<close>: the walk is at \<open>a\<close> and has dropped the data of all the nodes before it.\<close>

definition clearing :: "'t \<Rightarrow> nat \<Rightarrow> bool" where
  "clearing t a \<longleftrightarrow> inv t \<and>
     (\<exists>ka. keyof t a = Some ka \<and> (\<forall>x k. keyof t x = Some k \<longrightarrow> k < ka \<longrightarrow> datum t x = None)) \<and>
     (\<forall>x. refs t x = (if datum t x = None then 0 else 1) + (if x = a then 1 else 0))"

definition todo :: "'t \<Rightarrow> nat \<Rightarrow> nat" where
  "todo t a = card {x. \<exists>k ka. keyof t a = Some ka \<and> keyof t x = Some k \<and> ka < k}"

lemma clear_start:
  assumes bal: "balanced t"
  shows "\<exists>r t'. first t = Some (r, t') \<and>
    (case r of None \<Rightarrow> inv t' \<and> (\<forall>x. keyof t' x = None) | Some a \<Rightarrow> clearing t' a)"
proof -
  from first_law [OF balancedD(1) [OF bal]] obtain r t' where f: "first t = Some (r, t')" "inv t'" "keyof t' = keyof t"
    "datum t' = datum t" "\<forall>x. refs t' x = refs t x + (if Some x = r then 1 else 0)"
    "case r of None \<Rightarrow> \<forall>x. keyof t x = None
     | Some a \<Rightarrow> \<exists>ka. keyof t a = Some ka \<and> (\<forall>x k. keyof t x = Some k \<longrightarrow> ka \<le> k)" by blast
  show ?thesis
  proof (cases r)
    case None
    then show ?thesis using f by simp
  next
    case (Some a)
    then obtain ka where ka: "keyof t a = Some ka" "\<forall>x k. keyof t x = Some k \<longrightarrow> ka \<le> k" using f(6) by auto
    have "\<forall>x k. keyof t x = Some k \<longrightarrow> k < ka \<longrightarrow> datum t x = None" using ka(2) by (meson leD)
    moreover have "refs t' x = (if datum t x = None then 0 else 1) + (if x = a then 1 else 0)" for x
      using f(5) balancedD(2) [OF bal, of x] Some by simp
    ultimately have "clearing t' a" using f(2-4) ka(1) by (simp add: clearing_def)
    then show ?thesis using f(1) Some by simp
  qed
qed

lemma clear_node:
  assumes "clearing t a"
  shows "\<exists>t'. (if datum t a \<noteq> None then Option.bind (put a None t) (unlock a) else Some t) = Some t' \<and>
    inv t' \<and> datum t' = (datum t)(a := None) \<and> keyof t' a = keyof t a \<and>
    (\<forall>x k. keyof t' x = Some k \<longrightarrow> keyof t x = Some k) \<and>
    (\<forall>x. refs t' x = (if x = a then 1 else if datum t x = None then 0 else 1))"
proof (cases "datum t a = None")
  case True
  then have "(datum t)(a := None) = datum t" by (rule fun_upd_idem)
  then show ?thesis using assms True by (auto simp: clearing_def)
next
  case False
  have inv: "inv t" and r: "\<And>x. refs t x = (if datum t x = None then 0 else 1) + (if x = a then 1 else 0)"
    using assms by (auto simp: clearing_def)
  have "0 < refs t a" using r by simp
  from put_law [OF inv this, of None] obtain t2 where t2: "put a None t = Some t2" "inv t2" "keyof t2 = keyof t"
    "refs t2 = refs t" "datum t2 = (datum t)(a := None)" by blast
  have "0 < refs t2 a" "refs t2 a = 1 \<Longrightarrow> datum t2 a = None" using r [of a] t2(4,5) by auto
  from unlock_law [OF t2(2) this] obtain t' where t': "unlock a t2 = Some t'" "inv t'" "datum t' = datum t2"
    "\<forall>x. refs t' x = refs t2 x - (if x = a then 1 else 0)" "\<forall>x k. keyof t' x = Some k \<longrightarrow> keyof t2 x = Some k"
    "\<forall>x. 0 < refs t' x \<longrightarrow> keyof t' x = keyof t2 x" by blast
  have r': "refs t' x = (if x = a then 1 else if datum t x = None then 0 else 1)" for x
    using t'(4) [rule_format, of x] t2(4) r [of x] False by auto
  have "keyof t' a = keyof t a" using t'(6) [rule_format, of a] r' [of a] t2(3) by simp
  moreover have "(if datum t a \<noteq> None then Option.bind (put a None t) (unlock a) else Some t) = Some t'"
    using False t2(1) t'(1) by simp
  moreover have "datum t' = (datum t)(a := None)" using t'(3) t2(5) by simp
  moreover have "\<forall>x k. keyof t' x = Some k \<longrightarrow> keyof t x = Some k" using t'(5) unfolding t2(3) .
  ultimately show ?thesis using t'(2) r' by blast
qed

lemma clear_step:
  assumes clr: "clearing t a"
  shows "\<exists>r t'. Option.bind (if datum t a \<noteq> None then Option.bind (put a None t) (unlock a) else Some t) (nxt a) = Some (r, t') \<and>
    (case r of None \<Rightarrow> inv t' \<and> (\<forall>x. keyof t' x = None) | Some c \<Rightarrow> clearing t' c \<and> todo t' c < todo t a)"
proof -
  from clr obtain ka where ka: "inv t" "keyof t a = Some ka" "\<forall>x k. keyof t x = Some k \<longrightarrow> k < ka \<longrightarrow> datum t x = None"
    by (auto simp: clearing_def)
  from clear_node [OF clr] obtain t1 where
    t1: "(if datum t a \<noteq> None then Option.bind (put a None t) (unlock a) else Some t) = Some t1" "inv t1"
      "datum t1 = (datum t)(a := None)" "keyof t1 a = keyof t a" "\<forall>x k. keyof t1 x = Some k \<longrightarrow> keyof t x = Some k"
      "\<forall>x. refs t1 x = (if x = a then 1 else if datum t x = None then 0 else 1)" by blast
  have "0 < refs t1 a" "refs t1 a = 1 \<Longrightarrow> datum t1 a = None" using t1(3,6) by auto
  from nxt_law [OF t1(2) this t1(4) [unfolded ka(2)]] obtain r t' where
    n: "nxt a t1 = Some (r, t')" "inv t'" "datum t' = datum t1"
      "\<forall>x. refs t' x = refs t1 x + (if Some x = r then 1 else 0) - (if x = a then 1 else 0)"
      "\<forall>x k. keyof t' x = Some k \<longrightarrow> keyof t1 x = Some k" "\<forall>x. 0 < refs t' x \<longrightarrow> keyof t' x = keyof t1 x"
      "case r of None \<Rightarrow> (\<forall>y k. keyof t1 y = Some k \<longrightarrow> \<not> ka < k)
       | Some c \<Rightarrow> (\<exists>kc. keyof t1 c = Some kc \<and> ka < kc \<and> (\<forall>y k. keyof t1 y = Some k \<longrightarrow> ka < k \<longrightarrow> kc \<le> k))" by blast
  have run: "Option.bind (if datum t a \<noteq> None then Option.bind (put a None t) (unlock a) else Some t) (nxt a) = Some (r, t')"
    unfolding t1(1) using n(1) by simp
  have low: "datum t' x = None" if "keyof t1 x = Some k" "\<not> ka < k" for x k
  proof (cases "x = a")
    case False
    then have "k \<noteq> ka" using that(1) t1(5) key_unique [OF ka(1,2)] by blast
    then have "k < ka" using that(2) by order
    then have "datum t x = None" using ka(3) t1(5) that(1) by blast
    then show ?thesis using False by (simp add: t1(3) n(3))
  qed (simp add: n(3) t1(3))
  have r': "refs t' x = (if datum t' x = None then 0 else 1) + (if Some x = r then 1 else 0)" for x
    using n(4) [rule_format, of x] t1(6) [rule_format, of x] by (cases "x = a") (auto simp: n(3) t1(3))
  show ?thesis
  proof (cases r)
    case None
    have "datum t' x = None" for x
    proof (rule ccontr)
      assume d: "datum t' x \<noteq> None"
      then have pos: "0 < refs t' x" using r' [of x] by (cases "datum t' x") simp_all
      have "keyof t' x \<noteq> None" by (rule refs_node [OF pos])
      then obtain k where "keyof t1 x = Some k" using n(5) by blast
      moreover from this have "\<not> ka < k" using n(7) None by simp
      ultimately show False using low [of x k] d by simp
    qed
    then have "refs t' x = 0" for x using r' None by simp
    then have "keyof t' x = None" for x using unreferenced_empty [OF n(2)] by blast
    then show ?thesis using run None n(2) by (intro exI [of _ r] exI [of _ t'] conjI) simp_all
  next
    case (Some c)
    then obtain kc where kc: "keyof t1 c = Some kc" "ka < kc" "\<forall>y k. keyof t1 y = Some k \<longrightarrow> ka < k \<longrightarrow> kc \<le> k"
      using n(7) by auto
    have kc': "keyof t' c = Some kc" using n(6) r' [of c] Some kc(1) by simp
    have "datum t' x = None" if "keyof t' x = Some k" "k < kc" for x k
      using low [of x k] n(5) kc(3) that by (meson leD)
    moreover have "refs t' x = (if datum t' x = None then 0 else 1) + (if x = c then 1 else 0)" for x
      using r' [of x] Some by simp
    ultimately have "clearing t' c" unfolding clearing_def using n(2) kc' by blast
    moreover have "todo t' c < todo t a"
    proof -
      have "{x. \<exists>k kc. keyof t' c = Some kc \<and> keyof t' x = Some k \<and> kc < k} \<subset> {x. \<exists>k ka. keyof t a = Some ka \<and> keyof t x = Some k \<and> ka < k}"
      proof (intro psubsetI subsetI notI)
        fix x assume "x \<in> {x. \<exists>k kc. keyof t' c = Some kc \<and> keyof t' x = Some k \<and> kc < k}"
        then obtain k where "keyof t' x = Some k" "kc < k" using kc' by auto
        then have "keyof t x = Some k" "ka < k" using n(5) t1(5) kc(2) by auto
        then show "x \<in> {x. \<exists>k ka. keyof t a = Some ka \<and> keyof t x = Some k \<and> ka < k}" using ka(2) by auto
      next
        assume eq: "{x. \<exists>k kc. keyof t' c = Some kc \<and> keyof t' x = Some k \<and> kc < k} = {x. \<exists>k ka. keyof t a = Some ka \<and> keyof t x = Some k \<and> ka < k}"
        have "c \<in> {x. \<exists>k ka. keyof t a = Some ka \<and> keyof t x = Some k \<and> ka < k}" using kc(1,2) t1(5) ka(2) by auto
        then have "c \<in> {x. \<exists>k kc. keyof t' c = Some kc \<and> keyof t' x = Some k \<and> kc < k}" using eq by simp
        then show False using kc' by simp
      qed
      moreover have "finite {x. \<exists>k ka. keyof t a = Some ka \<and> keyof t x = Some k \<and> ka < k}"
        by (rule finite_subset [OF _ keys_finite [OF ka(1)]]) auto
      ultimately show ?thesis unfolding todo_def by (intro psubset_card_mono)
    qed
    ultimately show ?thesis using run Some by (intro exI [of _ r] exI [of _ t'] conjI) simp_all
  qed
qed

end

end
