(* ===== verification/Table_Reach.thy ===== *)
theory Table_Reach
  imports Table_Iter Prefix_Store
begin

text \<open>
  The tables a program can build with the operations of \<^verbatim>\<open>lib/table.c\<close>, and the properties of the
  radix tree that its clients rely on.
\<close>

section \<open>Reachable tables\<close>

text \<open>Clients attach their data to a node they hold a lock on.\<close>

definition node_set_info :: "nat \<Rightarrow> 'i option \<Rightarrow> 'i route_table \<Rightarrow> 'i route_table option" where
  "node_set_info a i t = node_upd a (\<lambda>x. x\<lparr>rn_info := i\<rparr>) t"

lemma set_info_view:
  assumes inv: "table_inv t" and l: "0 < lock_at t a"
  shows "\<exists>t'. node_set_info a i t = Some t' \<and> table_inv t' \<and> key_at t' = key_at t \<and> lock_at t' = lock_at t \<and>
    info_at t' = (info_at t)(a := i)"
proof -
  obtain nd where nd: "rt_mem t a = Some nd" "rn_lock nd = lock_at t a" using lock_at_pos [OF l] by blast
  define t' where "t' = t\<lparr>rt_mem := (rt_mem t)(a \<mapsto> nd\<lparr>rn_info := i\<rparr>)\<rparr>"
  have "tree_inv (rt_top t) ((rt_mem t)(a \<mapsto> nd\<lparr>rn_info := i\<rparr>))"
    by (rule tree_inv_upd [OF table_inv_tree [OF inv] nd(1)]) (auto simp: lk_def)
  moreover have "dom ((rt_mem t)(a \<mapsto> nd\<lparr>rn_info := i\<rparr>)) = dom (rt_mem t)" using nd(1) by auto
  ultimately have "table_inv t'" using inv nd l by (auto simp: table_inv_def t'_def split: if_splits)
  moreover have "node_set_info a i t = Some t'" using nd(1) by (simp add: node_set_info_def node_upd_def t'_def)
  moreover have "key_at t' = key_at t" "lock_at t' = lock_at t" "info_at t' = (info_at t)(a := i)"
    using nd(1) by (auto simp: t'_def at_defs fun_eq_iff)
  ultimately show ?thesis by blast
qed

text \<open>
  The tables a program can build: it may drop a lock it holds, and must not drop the last one of a
  node that still carries data.
\<close>

inductive table_reach :: "'i route_table \<Rightarrow> bool" where
  reach_init: "table_reach route_table_init"
| reach_get: "table_reach t \<Longrightarrow> wf_prefix pre \<Longrightarrow> route_node_get t pre = Some (a, t') \<Longrightarrow> table_reach t'"
| reach_lookup: "table_reach t \<Longrightarrow> route_node_lookup t pre = Some (r, t') \<Longrightarrow> table_reach t'"
| reach_match: "table_reach t \<Longrightarrow> route_node_match t pre = Some (r, t') \<Longrightarrow> table_reach t'"
| reach_lock: "table_reach t \<Longrightarrow> route_lock_node a t = Some t' \<Longrightarrow> table_reach t'"
| reach_info: "table_reach t \<Longrightarrow> 0 < lock_at t a \<Longrightarrow> node_set_info a i t = Some t' \<Longrightarrow> table_reach t'"
| reach_unlock: "table_reach t \<Longrightarrow> (lock_at t a = 1 \<Longrightarrow> info_at t a = None) \<Longrightarrow>
    route_unlock_node a t = Some t' \<Longrightarrow> table_reach t'"
| reach_top: "table_reach t \<Longrightarrow> route_top t = Some (r, t') \<Longrightarrow> table_reach t'"
| reach_next: "table_reach t \<Longrightarrow> (lock_at t a = 1 \<Longrightarrow> info_at t a = None) \<Longrightarrow> 0 < lock_at t a \<Longrightarrow>
    route_next a t = Some (r, t') \<Longrightarrow> table_reach t'"
| reach_get_next: "table_reach t \<Longrightarrow> prefixlen pre \<le> 128 \<Longrightarrow> route_table_get_next t pre = Some (r, t') \<Longrightarrow> table_reach t'"

lemma table_inv_init: "table_inv route_table_init"
  by (simp add: table_inv_def route_table_init_def tree_inv_def)

lemma lock_Some_key: "route_lock_node a t = Some t' \<Longrightarrow> key_at t a \<noteq> None"
  by (auto simp: route_lock_node_def node_upd_def key_at_def split: option.splits)

lemma lock_keeps: "table_inv t \<Longrightarrow> route_lock_node a t = Some t' \<Longrightarrow> table_inv t'"
  using lock_view [of t a] lock_Some_key [of a t t'] by auto

lemma unlock_Some_lock: "route_unlock_node a t = Some t' \<Longrightarrow> 0 < lock_at t a"
  by (auto simp: route_unlock_node_def lock_at_def split: option.splits if_splits)

lemma table_reach_inv: "table_reach t \<Longrightarrow> table_inv t"
proof (induction rule: table_reach.induct)
  case reach_init
  show ?case by (rule table_inv_init)
next
  case (reach_get t pre a t')
  then show ?case using get_view [of t pre] by auto
next
  case (reach_lookup t pre r t')
  then show ?case using lookup_view [of t pre] by auto
next
  case (reach_match t pre r t')
  then show ?case using match_view [of t pre] by auto
next
  case (reach_lock t a t')
  then show ?case by (blast intro: lock_keeps)
next
  case (reach_info t a i t')
  then show ?case using set_info_view [of t a i] by auto
next
  case (reach_unlock t a t')
  then show ?case using unlock_view [of t a] unlock_Some_lock [of a t t'] by auto
next
  case (reach_top t r t')
  then show ?case by (auto simp: route_top_def split: option.splits intro: lock_keeps)
next
  case (reach_next t a r t')
  then obtain ks where "key_at t a = Some ks" using lock_at_pos [of t a] by (auto simp: key_at_def)
  then show ?case using route_next_view [of t a ks] reach_next by auto
next
  case (reach_get_next t pre r t')
  then obtain r0 t0 where v: "route_table_get_next t pre = Some (r0, t0)"
    "case r0 of None \<Rightarrow> t0 = t | Some c \<Rightarrow> route_lock_node c t = Some t0"
    using route_table_get_next_view [of t pre] by blast
  show ?case
  proof (cases r0)
    case None
    then show ?thesis using v reach_get_next by simp
  next
    case (Some c)
    then have "route_lock_node c t = Some t'" using v reach_get_next(3) by simp
    then show ?thesis using reach_get_next by (blast intro: lock_keeps)
  qed
qed

section \<open>The table as a prefix store\<close>

lemma route_top_view:
  assumes inv: "table_inv t"
  shows "\<exists>r t'. route_top t = Some (r, t') \<and> table_inv t' \<and> key_at t' = key_at t \<and> info_at t' = info_at t \<and>
    (\<forall>x. lock_at t' x = lock_at t x + (if Some x = r then 1 else 0)) \<and>
    (case r of None \<Rightarrow> \<forall>x. key_at t x = None
       | Some a \<Rightarrow> \<exists>ka. key_at t a = Some ka \<and> (\<forall>x k. key_at t x = Some k \<longrightarrow> ka \<le> k))"
proof (cases "rt_top t")
  case None
  then have "rt_mem t = Map.empty" using table_inv_tree [OF inv] tree_inv_empty by metis
  then show ?thesis using None inv by (simp add: route_top_def key_at_def)
next
  case (Some a)
  obtain nd where nd: "rt_mem t a = Some nd" "rn_parent nd = None"
    using tree_inv_top table_inv_tree [OF inv] Some by metis
  have k: "key_at t a = Some (key nd)" using nd by (simp add: key_at_def)
  then obtain t1 where t1: "route_lock_node a t = Some t1" "table_inv t1" "key_at t1 = key_at t" "info_at t1 = info_at t"
    "\<forall>x. lock_at t1 x = lock_at t x + (if x = a then 1 else 0)" using lock_view [OF inv, of a] by auto
  have "key nd \<le> k" if "key_at t x = Some k" for x k
    using that root_prefix [OF table_inv_tree [OF inv] nd, of x] le_of_prefix by (auto simp: key_at_def)
  then show ?thesis using Some t1 k by (intro exI [of _ "Some a"] exI [of _ t1]) (simp add: route_top_def)
qed

lemma unlocked_table_empty:
  assumes inv: "table_inv t" and l: "\<And>x. lock_at t x = 0"
  shows "rt_mem t = Map.empty"
proof (rule ccontr)
  assume ne: "rt_mem t \<noteq> Map.empty"
  define f where "f x = length (the (key_at t x))" for x
  have fin: "finite (f ` dom (rt_mem t))" using inv by (simp add: table_inv_def)
  have "f ` dom (rt_mem t) \<noteq> {}" using ne by auto
  from Max_in [OF fin this] obtain x where x: "x \<in> dom (rt_mem t)" "f x = Max (f ` dom (rt_mem t))" by (metis imageE)
  then obtain nd where nd: "rt_mem t x = Some nd" by auto
  then have "rn_lock nd = 0" using l [of x] by (simp add: lock_at_def)
  then obtain c where "lk nd False = Some c" using inv nd unfolding table_inv_def by fastforce
  with tree_inv_child [OF table_inv_tree [OF inv] nd] obtain cd where
    cd: "rt_mem t c = Some cd" "prefix (key nd @ [False]) (key cd)" by metis
  then have "f c > f x" using nd prefix_length_le [OF cd(2)] by (simp add: f_def key_at_def)
  moreover have "f c \<le> f x" using x(2) Max_ge [OF fin, of "f c"] cd(1) by auto
  ultimately show False by simp
qed

interpretation rt: prefix_store table_inv key_at lock_at info_at route_node_get route_node_lookup route_node_match
  route_unlock_node node_set_info route_top route_next
proof unfold_locales
  fix t :: "'a route_table" and a b :: nat and ks :: "bool list" and q :: prefix_t and i :: "'a option"
  show "table_inv t \<Longrightarrow> key_at t a = Some ks \<Longrightarrow> key_at t b = Some ks \<Longrightarrow> a = b" by (rule key_at_inj)
  show "table_inv t \<Longrightarrow> finite {a. key_at t a \<noteq> None}" using finite_keys [of t "\<lambda>_. True"] by simp
  show "info_at t a \<noteq> None \<Longrightarrow> key_at t a \<noteq> None" by (auto simp: at_defs split: option.splits)
  show "table_inv t \<Longrightarrow> info_at t a \<noteq> None \<Longrightarrow> 0 < lock_at t a" by (rule info_locked)
  show "0 < lock_at t a \<Longrightarrow> key_at t a \<noteq> None" by (auto simp: at_defs split: option.splits)
  show "table_inv t \<Longrightarrow> (\<And>a. lock_at t a = 0) \<Longrightarrow> key_at t a = None"
    using unlocked_table_empty [of t] by (simp add: key_at_def)
  show "table_inv t \<Longrightarrow> wf_prefix q \<Longrightarrow>
      \<exists>a t'. route_node_get t q = Some (a, t') \<and> table_inv t' \<and> info_at t' = info_at t \<and>
        (\<forall>x. lock_at t' x = lock_at t x + (if x = a then 1 else 0)) \<and>
        (\<forall>x k. key_at t x = Some k \<longrightarrow> key_at t' x = Some k) \<and> key_at t' a = Some (pbits q)" by (rule get_view)
  show "table_inv t \<Longrightarrow>
      \<exists>r t'. route_node_lookup t q = Some (r, t') \<and> table_inv t' \<and> key_at t' = key_at t \<and> info_at t' = info_at t \<and>
        (\<forall>x. lock_at t' x = lock_at t x + (if Some x = r then 1 else 0)) \<and>
        (case r of
           None \<Rightarrow> \<not> (\<exists>a. key_at t a = Some (pbits q) \<and> info_at t a \<noteq> None)
         | Some a \<Rightarrow> key_at t a = Some (pbits q) \<and> info_at t a \<noteq> None)"
    using lookup_view [of t q] unfolding is_route_at .
  show "table_inv t \<Longrightarrow>
      \<exists>r t'. route_node_match t q = Some (r, t') \<and> table_inv t' \<and> key_at t' = key_at t \<and> info_at t' = info_at t \<and>
        (\<forall>x. lock_at t' x = lock_at t x + (if Some x = r then 1 else 0)) \<and>
        (case r of
           None \<Rightarrow> \<not> (\<exists>ks a. key_at t a = Some ks \<and> info_at t a \<noteq> None \<and> prefix ks (pbits q))
         | Some a \<Rightarrow> \<exists>ks. key_at t a = Some ks \<and> info_at t a \<noteq> None \<and> prefix ks (pbits q) \<and>
             (\<forall>ks' a'. key_at t a' = Some ks' \<longrightarrow> info_at t a' \<noteq> None \<longrightarrow> prefix ks' (pbits q) \<longrightarrow> length ks' \<le> length ks))"
    using match_view [of t q] unfolding is_route_at conj_assoc imp_conjL .
  show "table_inv t \<Longrightarrow> 0 < lock_at t a \<Longrightarrow> (lock_at t a = 1 \<Longrightarrow> info_at t a = None) \<Longrightarrow>
      \<exists>t'. route_unlock_node a t = Some t' \<and> table_inv t' \<and> info_at t' = info_at t \<and>
        (\<forall>x. lock_at t' x = lock_at t x - (if x = a then 1 else 0)) \<and>
        (\<forall>x k. key_at t' x = Some k \<longrightarrow> key_at t x = Some k) \<and> (\<forall>x. 0 < lock_at t' x \<longrightarrow> key_at t' x = key_at t x)"
    by (rule unlock_view [unfolded key_shrinks_def])
  show "table_inv t \<Longrightarrow> 0 < lock_at t a \<Longrightarrow>
      \<exists>t'. node_set_info a i t = Some t' \<and> table_inv t' \<and> key_at t' = key_at t \<and> lock_at t' = lock_at t \<and> info_at t' = (info_at t)(a := i)"
    by (rule set_info_view)
  show "table_inv t \<Longrightarrow>
      \<exists>r t'. route_top t = Some (r, t') \<and> table_inv t' \<and> key_at t' = key_at t \<and> info_at t' = info_at t \<and>
        (\<forall>x. lock_at t' x = lock_at t x + (if Some x = r then 1 else 0)) \<and>
        (case r of
           None \<Rightarrow> \<forall>x. key_at t x = None
         | Some a \<Rightarrow> \<exists>ka. key_at t a = Some ka \<and> (\<forall>x k. key_at t x = Some k \<longrightarrow> ka \<le> k))"
    by (rule route_top_view)
  show "table_inv t \<Longrightarrow> 0 < lock_at t a \<Longrightarrow> (lock_at t a = 1 \<Longrightarrow> info_at t a = None) \<Longrightarrow> key_at t a = Some ks \<Longrightarrow>
      \<exists>r t'. route_next a t = Some (r, t') \<and> table_inv t' \<and> info_at t' = info_at t \<and>
        (\<forall>x. lock_at t' x = lock_at t x + (if Some x = r then 1 else 0) - (if x = a then 1 else 0)) \<and>
        (\<forall>x k. key_at t' x = Some k \<longrightarrow> key_at t x = Some k) \<and> (\<forall>x. 0 < lock_at t' x \<longrightarrow> key_at t' x = key_at t x) \<and>
        (case r of
           None \<Rightarrow> (\<forall>y k. key_at t y = Some k \<longrightarrow> \<not> ks < k)
         | Some c \<Rightarrow> (\<exists>kc. key_at t c = Some kc \<and> ks < kc \<and> (\<forall>y k. key_at t y = Some k \<longrightarrow> ks < k \<longrightarrow> kc \<le> k)))"
    using route_next_view [of t a ks] unfolding key_shrinks_def next_key_def by blast
qed

text \<open>
  The tables of a client between two of its operations: an entry is worth one reference, and nothing else
  is referenced.
\<close>

definition idle :: "'i route_table \<Rightarrow> bool" where
  "idle t \<longleftrightarrow> table_inv t \<and> (\<forall>a. lock_at t a = (if info_at t a = None then 0 else 1))"

definition has_entry :: "'i route_table \<Rightarrow> bool list \<Rightarrow> 'i \<Rightarrow> bool" where
  "has_entry t ks i \<longleftrightarrow> (\<exists>a. key_at t a = Some ks \<and> info_at t a = Some i)"

lemma balanced_idle: "rt.balanced = idle"
  by (auto simp: rt.balanced_def idle_def fun_eq_iff)

lemma entry_has_entry: "rt.entry = has_entry"
  by (auto simp: rt.entry_def has_entry_def fun_eq_iff)

lemmas client_store = rt.store_entry [unfolded balanced_idle entry_has_entry]
lemmas client_remove = rt.remove_entry [unfolded balanced_idle entry_has_entry]
lemmas client_find = rt.find_entry [unfolded balanced_idle entry_has_entry]
lemmas client_check = rt.check_entry [unfolded balanced_idle entry_has_entry]
lemmas client_clear_start = rt.clear_start [unfolded balanced_idle]

lemma idle_init: "idle route_table_init"
  unfolding idle_def using table_inv_init by (simp add: lock_at_def info_at_def) (simp add: route_table_init_def)

lemma no_entry_init: "\<not> has_entry route_table_init ks i"
  by (simp add: has_entry_def key_at_def route_table_init_def)

lemma set_info_twice: "Option.bind (node_set_info a i t) (node_set_info a j) = node_set_info a j t"
  by (simp add: node_set_info_def node_upd_def split: option.splits)

section \<open>Properties\<close>

text \<open>A table with the routes 10.0.0.0/8 and 10.1.0.0/16 and one reference to each.\<close>

definition example_table :: "nat route_table" where
  "example_table =
     \<lparr>rt_top = Some 0, rt_count = 2,
      rt_mem = [0 \<mapsto> \<lparr>rn_p = \<lparr>family = AF_INET, prefixlen = 8, p_u = [10] @ replicate 15 0\<rparr>,
                     rn_parent = None, rn_left = Some 1, rn_right = None, rn_lock = 1, rn_info = Some 5\<rparr>,
                1 \<mapsto> \<lparr>rn_p = \<lparr>family = AF_INET, prefixlen = 16, p_u = [10, 1] @ replicate 14 0\<rparr>,
                     rn_parent = Some 0, rn_left = None, rn_right = None, rn_lock = 1, rn_info = Some 7\<rparr>],
      rt_brk = 2\<rparr>"

lemma pbits_eval: "pbits \<lparr>family = f, prefixlen = n, p_u = us\<rparr> = map (bit_at us) [0..<n]"
  by (simp add: pbits_def)

lemma example_table_inv: "table_inv example_table"
proof -
  have "prefix (pbits \<lparr>family = AF_INET, prefixlen = 8, p_u = [10] @ replicate 15 0\<rparr> @ [False])
    (pbits \<lparr>family = AF_INET, prefixlen = 16, p_u = [10, 1] @ replicate 14 0\<rparr>)" by code_simp
  then have "tree_inv (rt_top example_table) (rt_mem example_table)"
    by (auto simp: tree_inv_def example_table_def lk_def wf_prefix_def family_bits_def split: if_splits)
  moreover have "dom (rt_mem example_table) = {0, 1}" by (auto simp: example_table_def)
  ultimately show ?thesis by (auto simp: table_inv_def example_table_def)
qed

text \<open>C1: \<^verbatim>\<open>route_node_match\<close> is longest prefix match: on a table that satisfies the invariant it returns and
  locks the node of a longest route that contains the prefix, and returns null, leaving the
  table alone, exactly when no route contains it.\<close>

theorem route_node_match_longest:
  assumes "table_inv t"
  shows "(route_node_match t pre = Some (None, t) \<and> \<not> (\<exists>ks a. is_route t ks a \<and> prefix ks (pbits pre))) \<or>
    (\<exists>ks a t'. route_node_match t pre = Some (Some a, t') \<and> route_lock_node a t = Some t' \<and>
       is_route t ks a \<and> prefix ks (pbits pre) \<and>
       (\<forall>ks' a'. is_route t ks' a' \<longrightarrow> prefix ks' (pbits pre) \<longrightarrow> length ks' \<le> length ks))"
  by (rule route_node_match_correct [OF assms])

theorem route_node_match_longest_witness:
  "\<exists>a t'. route_node_match example_table \<lparr>family = AF_INET, prefixlen = 24, p_u = [10, 1, 9] @ replicate 13 0\<rparr> = Some (Some a, t') \<and>
     route_lock_node a example_table = Some t'"
proof -
  let ?p = "\<lparr>family = AF_INET, prefixlen = 24, p_u = [10, 1, 9] @ replicate 13 0\<rparr>"
  have "prefix (pbits \<lparr>family = AF_INET, prefixlen = 16, p_u = [10, 1] @ replicate 14 0\<rparr>) (pbits ?p)" by code_simp
  then have "\<exists>ks a. is_route example_table ks a \<and> prefix ks (pbits ?p)"
    by (intro exI [of _ "pbits \<lparr>family = AF_INET, prefixlen = 16, p_u = [10, 1] @ replicate 14 0\<rparr>"] exI [of _ 1])
      (simp add: is_route_def example_table_def)
  then show ?thesis using route_node_match_longest [OF example_table_inv, of ?p] by blast
qed

text \<open>\<^verbatim>\<open>route_node_lookup\<close> finds exactly the node with the prefix asked for, if that node carries a route.\<close>

theorem route_node_lookup_exact:
  assumes "table_inv t"
  shows "(\<exists>a t'. route_node_lookup t pre = Some (Some a, t') \<and> route_lock_node a t = Some t' \<and> is_route t (pbits pre) a) \<or>
    (route_node_lookup t pre = Some (None, t) \<and> \<not> (\<exists>a. is_route t (pbits pre) a))"
  by (rule route_node_lookup_correct [OF assms])

theorem route_node_lookup_exact_witness:
  "\<exists>a t'. route_node_lookup example_table \<lparr>family = AF_INET, prefixlen = 8, p_u = [10] @ replicate 15 0\<rparr> = Some (Some a, t')"
proof -
  have "is_route example_table (pbits \<lparr>family = AF_INET, prefixlen = 8, p_u = [10] @ replicate 15 0\<rparr>) 0"
    by (simp add: is_route_def example_table_def)
  then show ?thesis using route_node_lookup_exact [OF example_table_inv] by blast
qed

text \<open>C2: \<^verbatim>\<open>route_node_get\<close> never fails on a well-formed prefix: it returns a node for exactly that prefix with
  one lock more, creates it (and a glue node) when it is missing, and keeps the invariant, every
  node with its key, every route, and every other lock count.\<close>

theorem route_node_get_finds_or_creates:
  assumes "table_inv t" "wf_prefix pre"
  shows "\<exists>a t'. route_node_get t pre = Some (a, t') \<and> table_inv t' \<and> info_at t' = info_at t \<and>
    (\<forall>x. lock_at t' x = lock_at t x + (if x = a then 1 else 0)) \<and>
    (\<forall>x k. key_at t x = Some k \<longrightarrow> key_at t' x = Some k) \<and> key_at t' a = Some (pbits pre)"
  by (rule get_view [OF assms])

theorem route_node_get_finds_or_creates_witness:
  "\<exists>a t'. route_node_get example_table \<lparr>family = AF_INET, prefixlen = 16, p_u = [10, 2] @ replicate 14 0\<rparr> = Some (a, t') \<and> table_inv t'"
  using route_node_get_finds_or_creates [OF example_table_inv, of "\<lparr>family = AF_INET, prefixlen = 16, p_u = [10, 2] @ replicate 14 0\<rparr>"]
  by (auto simp: wf_prefix_def family_bits_def)

text \<open>C6: \<^verbatim>\<open>route_unlock_node\<close> on a locked node that carries no route when its last lock goes returns without
  a failed assertion, deletes nodes only, and only unlocked ones, and keeps the invariant, the
  routes and all other lock counts.\<close>

theorem route_unlock_node_releases:
  assumes "table_inv t" "0 < lock_at t a" "lock_at t a = 1 \<Longrightarrow> info_at t a = None"
  shows "\<exists>t'. route_unlock_node a t = Some t' \<and> table_inv t' \<and> info_at t' = info_at t \<and>
    (\<forall>x. lock_at t' x = lock_at t x - (if x = a then 1 else 0)) \<and> key_shrinks t t'"
  using assms by (rule unlock_view)

theorem route_unlock_node_releases_witness:
  "\<exists>t1 t'. node_set_info 0 None example_table = Some t1 \<and> route_unlock_node 0 t1 = Some t' \<and> table_inv t'"
proof -
  have l: "0 < lock_at example_table 0" by (simp add: lock_at_def example_table_def)
  from set_info_view [OF example_table_inv l, of None] obtain t1 where
    t1: "node_set_info 0 None example_table = Some t1" "table_inv t1" "lock_at t1 = lock_at example_table"
      "info_at t1 = (info_at example_table)(0 := None)" by blast
  then show ?thesis using route_unlock_node_releases [OF t1(2), of 0] l by auto
qed

text \<open>C5: every table reachable from an empty one by the operations of \<^verbatim>\<open>table.c\<close>, under the locking
  discipline of their clients, satisfies the invariant.\<close>

theorem reachable_tables_satisfy_invariant:
  assumes "table_reach t"
  shows "table_inv t"
  by (rule table_reach_inv [OF assms])

theorem reachable_tables_satisfy_invariant_witness:
  "\<exists>a t b (u :: nat route_table). route_node_get route_table_init (prefix_new\<lparr>family := AF_INET, p_u := 10 # replicate 15 0, prefixlen := 8\<rparr>) = Some (a, t) \<and> table_inv t \<and>
    route_node_get t (prefix_new\<lparr>family := AF_INET, p_u := [192, 168] @ replicate 14 0, prefixlen := 16\<rparr>) = Some (b, u) \<and> table_inv u"
proof -
  let ?p = "prefix_new\<lparr>family := AF_INET, p_u := 10 # replicate 15 0, prefixlen := 8\<rparr>" and ?q = "prefix_new\<lparr>family := AF_INET, p_u := [192, 168] @ replicate 14 0, prefixlen := 16\<rparr>"
  have wf: "wf_prefix ?p" "wf_prefix ?q" by (simp_all add: wf_prefix_def family_bits_def prefix_new_def)
  obtain a and t :: "nat route_table" where t: "route_node_get route_table_init ?p = Some (a, t)"
    using route_node_get_correct [OF table_inv_init wf(1)] by blast
  note t1 = reach_get [OF reach_init wf(1) t]
  obtain b u where u: "route_node_get t ?q = Some (b, u)" using route_node_get_correct [OF table_reach_inv [OF t1] wf(2)] by blast
  show ?thesis using t u reachable_tables_satisfy_invariant [OF t1] reachable_tables_satisfy_invariant [OF reach_get [OF t1 wf(2) u]] by blast
qed

text \<open>C16: the loop over \<^verbatim>\<open>route_top\<close> and \<^verbatim>\<open>route_next\<close> ends, visits every node of a table exactly once in
  ascending lexicographic order of the prefixes, and leaves the table as it was.\<close>

theorem route_walk_visits_all_in_order:
  assumes "table_inv t"
  shows "\<exists>as. route_walk t = Some (as, t) \<and> set as = dom (rt_mem t) \<and>
    sorted_wrt (\<lambda>x y. the (key_at t x) < the (key_at t y)) as"
  by (rule route_walk_spec [OF assms])

theorem route_walk_visits_all_in_order_witness:
  "\<exists>as. route_walk example_table = Some (as, example_table) \<and> set as = {0, 1}"
proof -
  have "dom (rt_mem example_table) = {0, 1}" by (auto simp: example_table_def)
  then show ?thesis using route_walk_visits_all_in_order [OF example_table_inv] by auto
qed

text \<open>\<^verbatim>\<open>route_table_prefix_iter_cmp\<close> is the lexicographic comparison of the bit strings, and none of its
  assertions fails.\<close>

theorem iter_cmp_is_lexicographic:
  assumes "prefixlen p1 \<le> 128" "prefixlen p2 \<le> 128"
  shows "route_table_prefix_iter_cmp p1 p2 =
    Some (if pbits p1 = pbits p2 then 0 else if pbits p1 < pbits p2 then -1 else 1)"
  by (rule iter_cmp_spec [OF assms])

theorem iter_cmp_is_lexicographic_witness:
  "route_table_prefix_iter_cmp prefix_new prefix_new = Some 0"
  using iter_cmp_is_lexicographic [of prefix_new prefix_new] by (simp add: prefix_new_def)

text \<open>C21: a paused iteration can be resumed on any later table: \<^verbatim>\<open>route_table_iter_next\<close> returns the least
  node after the prefix at which it was paused, or null when there is none.\<close>

theorem iter_pause_resume:
  assumes "table_inv t" "it_state it = RT_ITER_STATE_ITERATING" "it_current it = Some a"
    "length (p_u (it_pause_prefix it)) = 16" "key_at t a = Some ks" "0 < lock_at t a"
    "lock_at t a = 1 \<Longrightarrow> info_at t a = None" "table_inv u"
  shows "\<exists>it' t'. route_table_iter_pause it t = Some (it', t') \<and> table_inv t' \<and>
    (\<exists>r it'' u'. route_table_iter_next it' u = Some (r, it'', u') \<and> next_key u ks r \<and> it_current it'' = r \<and>
       it_state it'' = (if r = None then RT_ITER_STATE_DONE else RT_ITER_STATE_ITERATING))"
proof -
  from iter_pause_spec [OF assms(1-7)] obtain it' t' where
    p: "route_table_iter_pause it t = Some (it', t')" "table_inv t'" "it_state it' = RT_ITER_STATE_PAUSED"
      "wf_prefix (it_pause_prefix it')" "pbits (it_pause_prefix it') = ks" by blast
  from iter_resume_spec [OF assms(8) p(3-5)] p(1,2) show ?thesis by blast
qed

theorem iter_pause_resume_witness:
  "\<exists>t1. route_lock_node 0 example_table = Some t1 \<and>
     (\<exists>it' t'. route_table_iter_pause (route_table_iter_init\<lparr>it_state := RT_ITER_STATE_ITERATING, it_current := Some 0\<rparr>) t1 = Some (it', t') \<and>
        (\<exists>r it'' u'. route_table_iter_next it' example_table = Some (r, it'', u')))"
proof -
  let ?it = "route_table_iter_init\<lparr>it_state := RT_ITER_STATE_ITERATING, it_current := Some 0\<rparr>"
  have k: "key_at example_table 0 = Some (pbits \<lparr>family = AF_INET, prefixlen = 8, p_u = [10] @ replicate 15 0\<rparr>)"
    by (simp add: key_at_def example_table_def)
  then obtain t1 where t1: "route_lock_node 0 example_table = Some t1" "table_inv t1" "key_at t1 = key_at example_table"
    "\<forall>x. lock_at t1 x = lock_at example_table x + (if x = 0 then 1 else 0)" using lock_view [OF example_table_inv, of 0] by auto
  have "lock_at t1 0 = 2" using t1(4) by (simp add: lock_at_def example_table_def)
  then show ?thesis
    using iter_pause_resume [OF t1(2), of ?it 0 _ example_table] t1(1,3) k example_table_inv
    by (simp add: route_table_iter_init_def prefix_new_def) blast
qed

text \<open>C22: \<^verbatim>\<open>route_table_free\<close> frees every node of a table, reads no freed node, and its final assertion holds.\<close>

theorem route_table_free_releases_all:
  assumes "table_inv t"
  shows "route_table_free t = Some Map.empty"
  by (rule route_table_free_spec [OF assms])

theorem route_table_free_releases_all_witness: "route_table_free example_table = Some Map.empty"
  by (rule route_table_free_releases_all [OF example_table_inv])

end
