(* ===== verification/Named_Lists.thy ===== *)
theory Named_Lists
  imports Prefix
begin

text \<open>
  What the masters of access lists (\<^verbatim>\<open>lib/filter.c\<close>) and of prefix lists (\<^verbatim>\<open>lib/plist.c\<close>) share: lists in two chains,
  the ones whose name is a number sorted by this number, the others by name.  A doubly linked chain is the list of
  its elements from head to tail.  The locale \<open>named_lists\<close> has the laws of looking up, adding, changing
  and unlinking a list; the two masters are its interpretations.
\<close>

section \<open>Chains\<close>

text \<open>The place of the first element that satisfies a test, as the C loops over a linked list find it.\<close>

definition index_of :: "('a \<Rightarrow> bool) \<Rightarrow> 'a list \<Rightarrow> nat option" where
  "index_of P xs = (let i = length (takeWhile (\<lambda>x. \<not> P x) xs) in if i < length xs then Some i else None)"

text \<open>
  The four linking cases of the C code all put the new element before the first one that satisfies
  \<open>point\<close>, or at the end when there is none; the place of the new element is returned, too.
\<close>

definition insert_at :: "('a \<Rightarrow> bool) \<Rightarrow> 'a \<Rightarrow> 'a list \<Rightarrow> nat \<times> 'a list" where
  "insert_at point x xs =
     (let before = takeWhile (\<lambda>x. \<not> point x) xs
      in (length before, before @ x # drop (length before) xs))"

definition unlink :: "nat \<Rightarrow> 'a list \<Rightarrow> 'a list" where
  "unlink i xs = take i xs @ drop (Suc i) xs"

lemma index_of_Some:
  "index_of P xs = Some i \<Longrightarrow> i < length xs \<and> P (xs ! i) \<and> (\<forall>j<i. \<not> P (xs ! j))"
proof -
  let ?t = "takeWhile (\<lambda>x. \<not> P x) xs"
  assume "index_of P xs = Some i"
  then have i: "i = length ?t" "length ?t < length xs" by (auto simp: index_of_def Let_def split: if_splits)
  then have "P (xs ! i)" using nth_length_takeWhile [of "\<lambda>x. \<not> P x" xs] by simp
  moreover have "\<not> P (xs ! j)" if "j < i" for j
  proof -
    have "?t ! j \<in> set ?t" using that i(1) nth_mem [of j ?t] by simp
    moreover have "?t ! j = xs ! j" using that i(1) by (intro takeWhile_nth) simp
    ultimately have "xs ! j \<in> set ?t" by simp
    then show ?thesis by (auto dest: set_takeWhileD)
  qed
  ultimately show ?thesis using i by simp
qed

lemma index_of_None: "index_of P xs = None \<longleftrightarrow> (\<forall>x \<in> set xs. \<not> P x)"
proof -
  have "index_of P xs = None \<longleftrightarrow> length (takeWhile (\<lambda>x. \<not> P x) xs) = length xs"
    using length_takeWhile_le [of "\<lambda>x. \<not> P x" xs] by (auto simp: index_of_def Let_def)
  also have "\<dots> \<longleftrightarrow> (\<forall>x \<in> set xs. \<not> P x)"
    by (induction xs) auto
  finally show ?thesis .
qed

lemma atoi_all_digit: "all_digit s \<Longrightarrow> atoi s = dec_val 0 s"
proof (cases s)
  case (Cons c cs)
  assume "all_digit s"
  then have c: "CHR ''0'' \<le> c" "c \<le> CHR ''9''" using Cons by (auto split: if_splits)
  then have "c \<noteq> CHR ''-''" "c \<noteq> CHR ''+''" "\<not> isspace c"
    by (auto simp: isspace_def less_eq_char_def)
  then have "atoi (c # cs) = dec_val 0 (c # cs)" by (simp add: atoi_def del: dec_val.simps)
  then show ?thesis by (simp only: Cons)
qed (simp add: atoi_def)

lemma snd_insert_at: "snd (insert_at P a xs) = take (fst (insert_at P a xs)) xs @ a # drop (fst (insert_at P a xs)) xs"
  by (simp add: insert_at_def Let_def takeWhile_eq_take [symmetric])

lemma fst_insert_at: "fst (insert_at P a xs) \<le> length xs"
  by (simp add: insert_at_def Let_def length_takeWhile_le)

lemma nth_insert_at: "fst (insert_at P a xs) < length (snd (insert_at P a xs))" "snd (insert_at P a xs) ! fst (insert_at P a xs) = a"
  using fst_insert_at [of P a xs] by (simp_all add: snd_insert_at nth_append)

lemma set_insert_at: "set (snd (insert_at P a xs)) = insert a (set xs)"
proof -
  have "set (take n xs) \<union> set (drop n xs) = set xs" for n by (metis append_take_drop_id set_append)
  from this [of "fst (insert_at P a xs)"] show ?thesis unfolding snd_insert_at by auto
qed

lemma insert_at_Cons:
  "snd (insert_at P a (x # xs)) = (if P x then a # x # xs else x # snd (insert_at P a xs))"
  by (simp add: insert_at_def Let_def)

lemma sorted_insert_at:
  fixes k :: "'a \<Rightarrow> 'k :: linorder"
  assumes "sorted (map k xs)"
  shows "sorted (map k (snd (insert_at (\<lambda>x. k a \<le> k x) a xs)))"
  using assms
proof (induction xs)
  case (Cons x xs)
  then show ?case
    by (cases "k a \<le> k x") (auto simp: insert_at_Cons set_insert_at intro: order.trans)
qed (simp add: insert_at_def)

lemma distinct_insert_at:
  assumes "distinct (map f xs)" "f a \<notin> f ` set xs"
  shows "distinct (map f (snd (insert_at P a xs)))"
proof -
  define n where "n = fst (insert_at P a xs)"
  have "distinct (map f (take n xs) @ map f (drop n xs))" using assms(1) by (simp flip: map_append)
  moreover have "f a \<notin> set (map f (take n xs) @ map f (drop n xs))" using assms(2) by (simp flip: map_append)
  ultimately show ?thesis unfolding snd_insert_at n_def [symmetric] by simp
qed

lemma map_unlink: "map f (unlink i xs) = unlink i (map f xs)"
  by (simp add: unlink_def take_map drop_map)

lemma set_unlink: "distinct xs \<Longrightarrow> i < length xs \<Longrightarrow> set (unlink i xs) = set xs - {xs ! i}"
proof -
  assume d: "distinct xs" and i: "i < length xs"
  have xs: "xs = take i xs @ xs ! i # drop (Suc i) xs" using i by (rule id_take_nth_drop)
  with d have "xs ! i \<notin> set (take i xs @ drop (Suc i) xs)"
    by (metis distinct.simps(2) distinct_append not_distinct_conv_prefix Un_iff set_append disjoint_iff list.set_intros(1))
  then show ?thesis unfolding unlink_def using xs by (metis Diff_insert_absorb list.simps(15) set_append Un_insert_right)
qed

lemma sorted_unlink:
  "sorted xs \<Longrightarrow> sorted (unlink i xs)" for xs :: "'k :: linorder list"
proof (cases "i < length xs")
  case True
  assume "sorted xs"
  then have "sorted (take i xs @ xs ! i # drop (Suc i) xs)" using id_take_nth_drop [OF True] by simp
  then show ?thesis by (simp add: unlink_def sorted_append)
qed (simp add: unlink_def)

lemma distinct_unlink: "distinct xs \<Longrightarrow> distinct (unlink i xs)"
proof (cases "i < length xs")
  case True
  assume "distinct xs"
  then have "distinct (take i xs @ xs ! i # drop (Suc i) xs)" using id_take_nth_drop [OF True] by simp
  then show ?thesis by (auto simp: unlink_def)
qed (simp add: unlink_def)

lemma set_unlink_subset: "set (unlink i xs) \<subseteq> set xs"
  by (auto simp: unlink_def dest: in_set_takeD in_set_dropD)

lemma sorted_wrt_unlink: "sorted_wrt P xs \<Longrightarrow> sorted_wrt P (unlink i xs)"
proof (cases "i < length xs")
  case True
  assume "sorted_wrt P xs"
  then have "sorted_wrt P (take i xs @ xs ! i # drop (Suc i) xs)" using id_take_nth_drop [OF True] by simp
  then show ?thesis by (auto simp: unlink_def sorted_wrt_append)
qed (simp add: unlink_def)

lemma length_unlink: "i < length xs \<Longrightarrow> length (unlink i xs) = length xs - 1"
  by (simp add: unlink_def)

lemma map_update_same: "g x = g (xs ! j) \<Longrightarrow> map g (xs[j := x]) = map g xs"
  by (cases "j < length xs") (simp_all add: map_update list_update_beyond, metis list_update_id nth_map)

lemma option_eqI: "(\<And>y. a = Some y \<longleftrightarrow> b = Some y) \<Longrightarrow> a = b"
  by (cases a; cases b) auto

section \<open>Lists by name\<close>

locale named_lists =
  fixes name_of :: "'l \<Rightarrow> string"
    and numbered :: "'l \<Rightarrow> bool"
begin

text \<open>The first chain has the lists with a number for a name.\<close>

definition chains_wf :: "'l list \<Rightarrow> 'l list \<Rightarrow> bool" where
  "chains_wf ns ss \<longleftrightarrow> distinct (map name_of (ns @ ss)) \<and>
     (\<forall>x \<in> set ns. all_digit (name_of x) \<and> numbered x) \<and> (\<forall>x \<in> set ss. \<not> all_digit (name_of x) \<and> \<not> numbered x) \<and>
     sorted (map (\<lambda>x. atoi (name_of x)) ns) \<and> sorted (map name_of ss)"

text \<open>What a client sees: the lists by name.\<close>

definition by_name :: "'l list \<Rightarrow> 'l list \<Rightarrow> string \<rightharpoonup> 'l" where
  "by_name ns ss = map_of (map (\<lambda>x. (name_of x, x)) (ns @ ss))"

lemma chains_wf_empty [simp]: "chains_wf [] []"
  by (simp add: chains_wf_def)

lemma by_name_empty [simp]: "by_name [] [] = Map.empty"
  by (simp add: by_name_def)

lemma by_name_Some:
  "distinct (map name_of (ns @ ss)) \<Longrightarrow> by_name ns ss nm = Some y \<longleftrightarrow> y \<in> set (ns @ ss) \<and> name_of y = nm"
  unfolding by_name_def by (subst map_of_eq_Some_iff) (auto simp: comp_def image_iff)

lemma by_name_None: "by_name ns ss nm = None \<longleftrightarrow> (\<forall>y \<in> set (ns @ ss). name_of y \<noteq> nm)"
  by (auto simp: by_name_def map_of_eq_None_iff image_image)

lemma by_name_add:
  assumes "distinct (map name_of (ns @ ss))" "distinct (map name_of (ns' @ ss'))"
    "set (ns' @ ss') = insert a (set (ns @ ss))" "by_name ns ss (name_of a) = None"
  shows "by_name ns' ss' = (by_name ns ss)(name_of a \<mapsto> a)"
proof (rule ext, rule option_eqI)
  fix nm y
  have "name_of y = name_of a \<longrightarrow> y \<notin> set (ns @ ss)" using assms(4) unfolding by_name_None by metis
  then show "by_name ns' ss' nm = Some y \<longleftrightarrow> ((by_name ns ss)(name_of a \<mapsto> a)) nm = Some y"
    unfolding by_name_Some [OF assms(2)] assms(3) fun_upd_def using by_name_Some [OF assms(1), of nm y] by auto
qed

lemma by_name_change:
  assumes "distinct (map name_of (ns @ ss))" "distinct (map name_of (ns' @ ss'))"
    "x \<in> set (ns @ ss)" "set (ns' @ ss') = insert x' (set (ns @ ss) - {x})" "name_of x' = name_of x"
  shows "by_name ns' ss' = (by_name ns ss)(name_of x \<mapsto> x')"
proof (rule ext, rule option_eqI)
  fix nm y
  have "name_of y = name_of x \<longrightarrow> y \<in> set (ns @ ss) \<longrightarrow> y = x"
    using assms(1,3) by (auto simp: distinct_map dest: inj_onD)
  then show "by_name ns' ss' nm = Some y \<longleftrightarrow> ((by_name ns ss)(name_of x \<mapsto> x')) nm = Some y"
    unfolding by_name_Some [OF assms(2)] assms(4) fun_upd_def using by_name_Some [OF assms(1), of nm y] assms(5) by auto
qed

lemma by_name_drop:
  assumes "distinct (map name_of (ns @ ss))" "distinct (map name_of (ns' @ ss'))"
    "x \<in> set (ns @ ss)" "set (ns' @ ss') = set (ns @ ss) - {x}"
  shows "by_name ns' ss' = (by_name ns ss)(name_of x := None)"
proof (rule ext, rule option_eqI)
  fix nm y
  have "name_of y = name_of x \<longrightarrow> y \<in> set (ns @ ss) \<longrightarrow> y = x"
    using assms(1,3) by (auto simp: distinct_map dest: inj_onD)
  then show "by_name ns' ss' nm = Some y \<longleftrightarrow> ((by_name ns ss)(name_of x := None)) nm = Some y"
    unfolding by_name_Some [OF assms(2)] assms(4) fun_upd_def using by_name_Some [OF assms(1), of nm y] by auto
qed

lemma chains_distinct:
  assumes "chains_wf ns ss"
  shows "distinct (map name_of (ns @ ss))" "distinct ns" "distinct ss" "set ns \<inter> set ss = {}"
  using assms by (auto simp: chains_wf_def distinct_map)

lemma lookup_num: "chains_wf ns ss \<Longrightarrow> i < length ns \<Longrightarrow> by_name ns ss (name_of (ns ! i)) = Some (ns ! i)"
  using by_name_Some [OF chains_distinct(1)] by auto

lemma lookup_str: "chains_wf ns ss \<Longrightarrow> i < length ss \<Longrightarrow> by_name ns ss (name_of (ss ! i)) = Some (ss ! i)"
  using by_name_Some [OF chains_distinct(1)] by auto

text \<open>Changing an element in place, without its name and its kind.\<close>

lemma change_num:
  assumes wf: "chains_wf ns ss" and i: "i < length ns" and x: "name_of x = name_of (ns ! i)" "numbered x = numbered (ns ! i)"
  shows "chains_wf (ns[i := x]) ss" "by_name (ns[i := x]) ss = (by_name ns ss)(name_of x \<mapsto> x)"
proof -
  have m: "map name_of (ns[i := x]) = map name_of ns" "map (\<lambda>x. atoi (name_of x)) (ns[i := x]) = map (\<lambda>x. atoi (name_of x)) ns"
    using x by (simp_all add: map_update_same)
  have "set (ns[i := x]) \<subseteq> insert x (set ns)" by (rule set_update_subset_insert)
  moreover have "all_digit (name_of x) \<and> numbered x" using wf i x by (auto simp: chains_wf_def)
  ultimately show wf': "chains_wf (ns[i := x]) ss" using wf m by (auto simp: chains_wf_def)
  have "ns ! i \<notin> set ss" using chains_distinct(4) [OF wf] i by (metis disjoint_iff nth_mem)
  then show "by_name (ns[i := x]) ss = (by_name ns ss)(name_of x \<mapsto> x)"
    unfolding x(1) using i x(1) chains_distinct [OF wf]
    by (intro by_name_change [OF chains_distinct(1) [OF wf] chains_distinct(1) [OF wf']]) (auto simp: set_update_distinct)
qed

lemma change_str:
  assumes wf: "chains_wf ns ss" and i: "i < length ss" and x: "name_of x = name_of (ss ! i)" "numbered x = numbered (ss ! i)"
  shows "chains_wf ns (ss[i := x])" "by_name ns (ss[i := x]) = (by_name ns ss)(name_of x \<mapsto> x)"
proof -
  have m: "map name_of (ss[i := x]) = map name_of ss" using x by (simp add: map_update_same)
  have "set (ss[i := x]) \<subseteq> insert x (set ss)" by (rule set_update_subset_insert)
  moreover have "\<not> all_digit (name_of x) \<and> \<not> numbered x" using wf i x by (auto simp: chains_wf_def)
  moreover have "name_of ` set (ss[i := x]) = name_of ` set ss" using m by (metis list.set_map)
  ultimately show wf': "chains_wf ns (ss[i := x])" using wf m by (auto simp: chains_wf_def)
  have "ss ! i \<notin> set ns" using chains_distinct(4) [OF wf] i by (metis disjoint_iff nth_mem)
  then show "by_name ns (ss[i := x]) = (by_name ns ss)(name_of x \<mapsto> x)"
    unfolding x(1) using i x(1) chains_distinct [OF wf]
    by (intro by_name_change [OF chains_distinct(1) [OF wf] chains_distinct(1) [OF wf']]) (auto simp: set_update_distinct)
qed

text \<open>Unlinking an element.\<close>

lemma unlink_num:
  assumes wf: "chains_wf ns ss" and i: "i < length ns"
  shows "chains_wf (unlink i ns) ss" "by_name (unlink i ns) ss = (by_name ns ss)(name_of (ns ! i) := None)"
proof -
  have "set (unlink i ns) \<subseteq> set ns" by (rule set_unlink_subset)
  moreover have "distinct (map name_of (unlink i ns))" "sorted (map (\<lambda>x. atoi (name_of x)) (unlink i ns))"
    unfolding map_unlink using wf by (simp_all add: chains_wf_def distinct_unlink sorted_unlink)
  ultimately show wf': "chains_wf (unlink i ns) ss" using wf by (auto simp: chains_wf_def)
  have "ns ! i \<notin> set ss" using chains_distinct(4) [OF wf] i by (metis disjoint_iff nth_mem)
  then show "by_name (unlink i ns) ss = (by_name ns ss)(name_of (ns ! i) := None)"
    using i chains_distinct [OF wf] by (intro by_name_drop [OF chains_distinct(1) [OF wf] chains_distinct(1) [OF wf']]) (auto simp: set_unlink)
qed

lemma unlink_str:
  assumes wf: "chains_wf ns ss" and i: "i < length ss"
  shows "chains_wf ns (unlink i ss)" "by_name ns (unlink i ss) = (by_name ns ss)(name_of (ss ! i) := None)"
proof -
  have "set (unlink i ss) \<subseteq> set ss" by (rule set_unlink_subset)
  moreover have "distinct (map name_of (unlink i ss))" "sorted (map name_of (unlink i ss))"
    unfolding map_unlink using wf by (simp_all add: chains_wf_def distinct_unlink sorted_unlink)
  ultimately show wf': "chains_wf ns (unlink i ss)" using wf by (auto simp: chains_wf_def)
  have "ss ! i \<notin> set ns" using chains_distinct(4) [OF wf] i by (metis disjoint_iff nth_mem)
  then show "by_name ns (unlink i ss) = (by_name ns ss)(name_of (ss ! i) := None)"
    using i chains_distinct [OF wf] by (intro by_name_drop [OF chains_distinct(1) [OF wf] chains_distinct(1) [OF wf']]) (auto simp: set_unlink)
qed

text \<open>Inserting an element.\<close>

lemma insert_num:
  assumes wf: "chains_wf ns ss" and new: "by_name ns ss (name_of x) = None" and x: "all_digit (name_of x)" "numbered x"
  defines "ns' \<equiv> snd (insert_at (\<lambda>y. atoi (name_of y) \<ge> dec_val 0 (name_of x)) x ns)"
  shows "chains_wf ns' ss" "by_name ns' ss = (by_name ns ss)(name_of x \<mapsto> x)"
proof -
  have fresh: "name_of x \<notin> name_of ` set ns" "name_of x \<notin> name_of ` set ss" using new unfolding by_name_None by auto
  have ns': "ns' = snd (insert_at (\<lambda>y. atoi (name_of x) \<le> atoi (name_of y)) x ns)" by (simp add: ns'_def atoi_all_digit [OF x(1)])
  have s: "set ns' = insert x (set ns)" by (simp add: ns' set_insert_at)
  have "distinct (map name_of ns')" "sorted (map (\<lambda>x. atoi (name_of x)) ns')"
    unfolding ns' using wf fresh by (intro distinct_insert_at sorted_insert_at; simp add: chains_wf_def)+
  then show wf': "chains_wf ns' ss" using wf fresh x s by (auto simp: chains_wf_def)
  show "by_name ns' ss = (by_name ns ss)(name_of x \<mapsto> x)"
    by (rule by_name_add [OF chains_distinct(1) [OF wf] chains_distinct(1) [OF wf'] _ new]) (simp add: s)
qed

lemma insert_str:
  assumes wf: "chains_wf ns ss" and new: "by_name ns ss (name_of x) = None" and x: "\<not> all_digit (name_of x)" "\<not> numbered x"
  defines "ss' \<equiv> snd (insert_at (\<lambda>y. name_of y \<ge> name_of x) x ss)"
  shows "chains_wf ns ss'" "by_name ns ss' = (by_name ns ss)(name_of x \<mapsto> x)"
proof -
  have fresh: "name_of x \<notin> name_of ` set ns" "name_of x \<notin> name_of ` set ss" using new unfolding by_name_None by auto
  have s: "set ss' = insert x (set ss)" by (simp add: ss'_def set_insert_at)
  have "distinct (map name_of ss')" "sorted (map name_of ss')"
    unfolding ss'_def using wf fresh by (intro distinct_insert_at sorted_insert_at; simp add: chains_wf_def)+
  then show wf': "chains_wf ns ss'" using wf fresh x s by (auto simp: chains_wf_def)
  show "by_name ns ss' = (by_name ns ss)(name_of x \<mapsto> x)"
    by (rule by_name_add [OF chains_distinct(1) [OF wf] chains_distinct(1) [OF wf'] _ new]) (simp add: s)
qed

end

end
