(* ===== verification/Access_List.thy ===== *)
theory Access_List
  imports Named_Lists
begin

text \<open>
  \<^verbatim>\<open>lib/filter.h\<close>, \<^verbatim>\<open>lib/filter.c\<close>: access lists.  A doubly linked list is the list of its elements from
  head to tail, and a pointer to an access list is its place in the master: the list it is in and its
  position there.  The hooks a daemon installs are recorded as the calls made to them.
\<close>

section \<open>Data\<close>

datatype cmd_result = CMD_SUCCESS | CMD_WARNING

datatype filter_type = FILTER_DENY | FILTER_PERMIT | FILTER_DYNAMIC

datatype access_type = ACCESS_TYPE_STRING | ACCESS_TYPE_NUMBER

record filter_cisco =
  extended :: bool
  fc_addr :: in_addr
  fc_addr_mask :: in_addr
  fc_mask :: in_addr
  fc_mask_mask :: in_addr

record filter_zebra =
  fz_exact :: bool
  fz_prefix :: prefix_t

text \<open>The union of the two filters together with the flag \<^verbatim>\<open>cisco\<close> that selects its member.\<close>

datatype filter_u = Cfilter filter_cisco | Zfilter filter_zebra

record filter_t =
  f_type :: filter_type
  f_u :: filter_u

record access_list =
  al_name :: string
  al_remark :: "string option"
  al_type :: access_type
  al_filters :: "filter_t list"

datatype hook_call = Add_hook string | Delete_hook string

record access_master =
  am_num :: "access_list list"
  am_str :: "access_list list"
  am_add_hook :: bool
  am_delete_hook :: bool
  am_calls :: "hook_call list"

definition access_master_init :: access_master where
  "access_master_init = \<lparr>am_num = [], am_str = [], am_add_hook = False, am_delete_hook = False, am_calls = []\<rparr>"

text \<open>The two static masters.\<close>

record access_state =
  access_master_ipv4 :: access_master
  access_master_ipv6 :: access_master

definition access_master_get :: "nat \<Rightarrow> access_state \<Rightarrow> access_master option" where
  "access_master_get afi s =
     (if afi = AFI_IP then Some (access_master_ipv4 s)
      else if afi = AFI_IP6 then Some (access_master_ipv6 s)
      else None)"

text \<open>A pointer to an access list: its master, the list of the master it is in, and its position there.\<close>

type_synonym access_ref = "nat \<times> access_type \<times> nat"

definition master_upd :: "nat \<Rightarrow> (access_master \<Rightarrow> access_master) \<Rightarrow> access_state \<Rightarrow> access_state" where
  "master_upd afi f s =
     (if afi = AFI_IP then s\<lparr>access_master_ipv4 := f (access_master_ipv4 s)\<rparr>
      else if afi = AFI_IP6 then s\<lparr>access_master_ipv6 := f (access_master_ipv6 s)\<rparr>
      else s)"

definition alist_of :: "access_type \<Rightarrow> access_master \<Rightarrow> access_list list" where
  "alist_of ty m = (case ty of ACCESS_TYPE_NUMBER \<Rightarrow> am_num m | ACCESS_TYPE_STRING \<Rightarrow> am_str m)"

definition alist_upd :: "access_type \<Rightarrow> (access_list list \<Rightarrow> access_list list) \<Rightarrow> access_master \<Rightarrow> access_master" where
  "alist_upd ty f m =
     (case ty of
        ACCESS_TYPE_NUMBER \<Rightarrow> m\<lparr>am_num := f (am_num m)\<rparr>
      | ACCESS_TYPE_STRING \<Rightarrow> m\<lparr>am_str := f (am_str m)\<rparr>)"

fun access_at :: "access_state \<Rightarrow> access_ref \<Rightarrow> access_list" where
  "access_at s (afi, ty, i) = alist_of ty (the (access_master_get afi s)) ! i"

fun access_upd :: "access_ref \<Rightarrow> (access_list \<Rightarrow> access_list) \<Rightarrow> access_state \<Rightarrow> access_state" where
  "access_upd (afi, ty, i) f s = master_upd afi (alist_upd ty (\<lambda>xs. xs[i := f (xs ! i)])) s"

section \<open>Matching\<close>

definition filter_type_str :: "filter_t \<Rightarrow> string" where
  "filter_type_str f =
     (case f_type f of
        FILTER_PERMIT \<Rightarrow> ''permit''
      | FILTER_DENY \<Rightarrow> ''deny''
      | FILTER_DYNAMIC \<Rightarrow> ''dynamic'')"

text \<open>\<open>None\<close> is the failed assertion of \<^verbatim>\<open>masklen2ip\<close> on a length above 32.\<close>

definition filter_match_cisco :: "filter_cisco \<Rightarrow> prefix_t \<Rightarrow> bool option" where
  "filter_match_cisco f p =
     (let check_addr = map2 (AND) (take 4 (p_u p)) (map NOT (fc_addr_mask f)) in
      if extended f then
        map_option (\<lambda>nmask.
          let check_mask = map2 (AND) nmask (map NOT (fc_mask_mask f))
          in check_addr = fc_addr f \<and> check_mask = fc_mask f) (masklen2ip (int (prefixlen p)))
      else Some (check_addr = fc_addr f))"

definition filter_match_zebra :: "filter_zebra \<Rightarrow> prefix_t \<Rightarrow> bool" where
  "filter_match_zebra f p =
     (if family (fz_prefix f) = family p then
        if fz_exact f then
          if prefixlen (fz_prefix f) = prefixlen p then prefix_match (fz_prefix f) p else False
        else prefix_match (fz_prefix f) p
      else False)"

fun filters_apply :: "filter_t list \<Rightarrow> prefix_t \<Rightarrow> filter_type option" where
  "filters_apply [] p = Some FILTER_DENY"
| "filters_apply (f # fs) p =
     (case f_u f of
        Cfilter c \<Rightarrow>
          (case filter_match_cisco c p of
             None \<Rightarrow> None
           | Some True \<Rightarrow> Some (f_type f)
           | Some False \<Rightarrow> filters_apply fs p)
      | Zfilter z \<Rightarrow> if filter_match_zebra z p then Some (f_type f) else filters_apply fs p)"

definition access_list_apply :: "access_list option \<Rightarrow> prefix_t \<Rightarrow> filter_type option" where
  "access_list_apply access p =
     (case access of None \<Rightarrow> Some FILTER_DENY | Some al \<Rightarrow> filters_apply (al_filters al) p)"

section \<open>The list of lists\<close>

text \<open>\<^verbatim>\<open>access_list_delete\<close> unlinks the list and frees it with its filters.\<close>

fun access_list_delete :: "access_ref \<Rightarrow> access_state \<Rightarrow> access_state" where
  "access_list_delete (afi, ty, i) s = master_upd afi (alist_upd ty (unlink i)) s"

text \<open>
  \<^verbatim>\<open>access_list_insert\<close>: numbers are unbounded here; a C \<^verbatim>\<open>long\<close> holds every name of up to 18 digits.
\<close>

definition access_list_insert :: "nat \<Rightarrow> string \<Rightarrow> access_state \<Rightarrow> (access_ref \<times> access_state) option" where
  "access_list_insert afi name s =
     (case access_master_get afi s of
        None \<Rightarrow> None
      | Some m \<Rightarrow>
          let access = \<lparr>al_name = name, al_remark = None, al_type = ACCESS_TYPE_STRING, al_filters = []\<rparr> in
          if all_digit name then
            let number = dec_val 0 name;
                (i, xs) = insert_at (\<lambda>x. atoi (al_name x) \<ge> number)
                            (access\<lparr>al_type := ACCESS_TYPE_NUMBER\<rparr>) (am_num m)
            in Some ((afi, ACCESS_TYPE_NUMBER, i), master_upd afi (\<lambda>m. m\<lparr>am_num := xs\<rparr>) s)
          else
            let (i, xs) = insert_at (\<lambda>x. al_name x \<ge> name) access (am_str m)
            in Some ((afi, ACCESS_TYPE_STRING, i), master_upd afi (\<lambda>m. m\<lparr>am_str := xs\<rparr>) s))"

definition access_list_lookup :: "nat \<Rightarrow> string option \<Rightarrow> access_state \<Rightarrow> access_ref option" where
  "access_list_lookup afi name s =
     (case name of
        None \<Rightarrow> None
      | Some nm \<Rightarrow>
          (case access_master_get afi s of
             None \<Rightarrow> None
           | Some m \<Rightarrow>
               (case index_of (\<lambda>x. al_name x = nm) (am_num m) of
                  Some i \<Rightarrow> Some (afi, ACCESS_TYPE_NUMBER, i)
                | None \<Rightarrow>
                    (case index_of (\<lambda>x. al_name x = nm) (am_str m) of
                       Some i \<Rightarrow> Some (afi, ACCESS_TYPE_STRING, i)
                     | None \<Rightarrow> None))))"

definition access_list_get :: "nat \<Rightarrow> string \<Rightarrow> access_state \<Rightarrow> (access_ref \<times> access_state) option" where
  "access_list_get afi name s =
     (case access_list_lookup afi (Some name) s of
        Some r \<Rightarrow> Some (r, s)
      | None \<Rightarrow> access_list_insert afi name s)"

section \<open>Filters of a list\<close>

definition access_list_add_hook :: "access_state \<Rightarrow> access_state" where
  "access_list_add_hook s =
     master_upd AFI_IP6 (\<lambda>m. m\<lparr>am_add_hook := True\<rparr>) (master_upd AFI_IP (\<lambda>m. m\<lparr>am_add_hook := True\<rparr>) s)"

definition access_list_delete_hook :: "access_state \<Rightarrow> access_state" where
  "access_list_delete_hook s =
     master_upd AFI_IP6 (\<lambda>m. m\<lparr>am_delete_hook := True\<rparr>) (master_upd AFI_IP (\<lambda>m. m\<lparr>am_delete_hook := True\<rparr>) s)"

definition access_list_filter_add :: "access_ref \<Rightarrow> filter_t \<Rightarrow> access_state \<Rightarrow> access_state" where
  "access_list_filter_add r f s =
     (let s1 = access_upd r (\<lambda>al. al\<lparr>al_filters := al_filters al @ [f]\<rparr>) s
      in master_upd (fst r)
           (\<lambda>m. if am_add_hook m then m\<lparr>am_calls := am_calls m @ [Add_hook (al_name (access_at s1 r))]\<rparr> else m) s1)"

definition access_list_empty :: "access_list \<Rightarrow> bool" where
  "access_list_empty al \<longleftrightarrow> al_filters al = []"

definition access_list_filter_delete :: "access_ref \<Rightarrow> nat \<Rightarrow> access_state \<Rightarrow> access_state" where
  "access_list_filter_delete r i s =
     (let s1 = access_upd r (\<lambda>al. al\<lparr>al_filters := unlink i (al_filters al)\<rparr>) s;
          s2 = master_upd (fst r)
                 (\<lambda>m. if am_delete_hook m
                      then m\<lparr>am_calls := am_calls m @ [Delete_hook (al_name (access_at s1 r))]\<rparr> else m) s1
      in if access_list_empty (access_at s2 r) then access_list_delete r s2 else s2)"

text \<open>
  The comparisons read a member of the union without looking at the flag; reading the member that
  was not written is \<open>None\<close>.
\<close>

definition same_cisco :: "filter_t \<Rightarrow> filter_t \<Rightarrow> bool option" where
  "same_cisco mfilter mnew =
     (case (f_u mfilter, f_u mnew) of
        (Cfilter f, Cfilter n) \<Rightarrow>
          Some (if extended f
                then f_type mfilter = f_type mnew \<and> fc_addr f = fc_addr n \<and> fc_addr_mask f = fc_addr_mask n \<and>
                     fc_mask f = fc_mask n \<and> fc_mask_mask f = fc_mask_mask n
                else f_type mfilter = f_type mnew \<and> fc_addr f = fc_addr n \<and> fc_addr_mask f = fc_addr_mask n)
      | _ \<Rightarrow> None)"

definition same_zebra :: "filter_t \<Rightarrow> filter_t \<Rightarrow> bool option" where
  "same_zebra mfilter mnew =
     (case (f_u mfilter, f_u mnew) of
        (Zfilter f, Zfilter n) \<Rightarrow>
          Some (fz_exact f = fz_exact n \<and> f_type mfilter = f_type mnew \<and> prefix_same (fz_prefix f) (fz_prefix n))
      | _ \<Rightarrow> None)"

fun filter_find :: "(filter_t \<Rightarrow> bool option) \<Rightarrow> filter_t list \<Rightarrow> nat \<Rightarrow> nat option option" where
  "filter_find same [] i = Some None"
| "filter_find same (f # fs) i =
     (case same f of
        None \<Rightarrow> None
      | Some True \<Rightarrow> Some (Some i)
      | Some False \<Rightarrow> filter_find same fs (Suc i))"

definition filter_lookup_cisco :: "access_list \<Rightarrow> filter_t \<Rightarrow> nat option option" where
  "filter_lookup_cisco access mnew = filter_find (\<lambda>f. same_cisco f mnew) (al_filters access) 0"

definition filter_lookup_zebra :: "access_list \<Rightarrow> filter_t \<Rightarrow> nat option option" where
  "filter_lookup_zebra access mnew = filter_find (\<lambda>f. same_zebra f mnew) (al_filters access) 0"


section \<open>Commands\<close>

text \<open>\<^verbatim>\<open>strncmp (type_str, "p", 1) == 0\<close>: the first letter decides.\<close>

definition str2filter_type :: "string \<Rightarrow> filter_type option" where
  "str2filter_type s =
     (if take 1 s = ''p'' then Some FILTER_PERMIT
      else if take 1 s = ''d'' then Some FILTER_DENY
      else None)"

text \<open>The common end of the two commands: install the filter, or remove the one equal to it.\<close>

definition filter_install ::
    "(access_list \<Rightarrow> filter_t \<Rightarrow> nat option option) \<Rightarrow> nat \<Rightarrow> string \<Rightarrow> filter_t \<Rightarrow> bool \<Rightarrow> access_state \<Rightarrow>
     (cmd_result \<times> access_state) option" where
  "filter_install lookup afi name mfilter set_f s =
     Option.bind (access_list_get afi name s) (\<lambda>(r, s1).
     Option.bind (lookup (access_at s1 r) mfilter) (\<lambda>found.
     Some (CMD_SUCCESS,
       if set_f then (if found \<noteq> None then s1 else access_list_filter_add r mfilter s1)
       else (case found of None \<Rightarrow> s1 | Some i \<Rightarrow> access_list_filter_delete r i s1))))"

definition filter_set_cisco ::
    "(string \<Rightarrow> in_addr option) \<Rightarrow> string \<Rightarrow> string \<Rightarrow> string \<Rightarrow> string \<Rightarrow> string \<Rightarrow> string \<Rightarrow> bool \<Rightarrow> bool \<Rightarrow>
     access_state \<Rightarrow> (cmd_result \<times> access_state) option" where
  "filter_set_cisco inet_aton name_str type_str addr_str addr_mask_str mask_str mask_mask_str ext set_f s =
     (case str2filter_type type_str of
        None \<Rightarrow> Some (CMD_WARNING, s)
      | Some ty \<Rightarrow>
          (case (inet_aton addr_str, inet_aton addr_mask_str) of
             (Some addr, Some addr_mask) \<Rightarrow>
               (let base = \<lparr>extended = ext, fc_addr = map2 (AND) addr (map NOT addr_mask), fc_addr_mask = addr_mask,
                            fc_mask = [0, 0, 0, 0], fc_mask_mask = [0, 0, 0, 0]\<rparr> in
                if ext then
                  (case (inet_aton mask_str, inet_aton mask_mask_str) of
                     (Some nmask, Some nmask_mask) \<Rightarrow>
                       filter_install filter_lookup_cisco AFI_IP name_str
                         \<lparr>f_type = ty,
                          f_u = Cfilter (base\<lparr>fc_mask := map2 (AND) nmask (map NOT nmask_mask), fc_mask_mask := nmask_mask\<rparr>)\<rparr>
                         set_f s
                   | _ \<Rightarrow> Some (CMD_WARNING, s))
                else filter_install filter_lookup_cisco AFI_IP name_str \<lparr>f_type = ty, f_u = Cfilter base\<rparr> set_f s)
           | _ \<Rightarrow> Some (CMD_WARNING, s)))"

text \<open>\<open>p0\<close> is the local variable \<^verbatim>\<open>p\<close> before the parser fills it.\<close>

definition filter_set_zebra ::
    "(string \<Rightarrow> in_addr option) \<Rightarrow> (string \<Rightarrow> u8 list option) \<Rightarrow> prefix_t \<Rightarrow> string \<Rightarrow> string \<Rightarrow> nat \<Rightarrow> string \<Rightarrow>
     bool \<Rightarrow> bool \<Rightarrow> access_state \<Rightarrow> (cmd_result \<times> access_state) option" where
  "filter_set_zebra inet_aton inet_pton p0 name_str type_str afi prefix_str exact set_f s =
     (case str2filter_type type_str of
        None \<Rightarrow> Some (CMD_WARNING, s)
      | Some ty \<Rightarrow>
          let (ret, p) = (if afi = AFI_IP then str2prefix_ipv4 inet_aton prefix_str p0
                          else if afi = AFI_IP6 then str2prefix_ipv6 inet_pton prefix_str p0
                          else (0, p0)) in
          if ret = 0 then Some (CMD_WARNING, s)
          else
            Option.bind (prefix_copy prefix_new p) (\<lambda>q.
            filter_install filter_lookup_zebra afi name_str
              \<lparr>f_type = ty, f_u = Zfilter \<lparr>fz_exact = exact, fz_prefix = q\<rparr>\<rparr> set_f s))"

definition access_list_remark :: "nat \<Rightarrow> string \<Rightarrow> string \<Rightarrow> access_state \<Rightarrow> (cmd_result \<times> access_state) option" where
  "access_list_remark afi name remark s =
     Option.bind (access_list_get afi name s) (\<lambda>(r, s1).
     Some (CMD_SUCCESS, access_upd r (\<lambda>al. al\<lparr>al_remark := Some remark\<rparr>) s1))"

definition vty_access_list_remark_unset :: "nat \<Rightarrow> string \<Rightarrow> access_state \<Rightarrow> cmd_result \<times> access_state" where
  "vty_access_list_remark_unset afi name s =
     (case access_list_lookup afi (Some name) s of
        None \<Rightarrow> (CMD_WARNING, s)
      | Some r \<Rightarrow>
          let s1 = access_upd r (\<lambda>al. al\<lparr>al_remark := None\<rparr>) s in
          (CMD_SUCCESS, if access_list_empty (access_at s1 r) then access_list_delete r s1 else s1))"

text \<open>\<^verbatim>\<open>access_list_reset_ipv4\<close> and \<^verbatim>\<open>access_list_reset_ipv6\<close> delete the head of each list until it is empty.\<close>

fun reset_list :: "nat \<Rightarrow> nat \<Rightarrow> access_type \<Rightarrow> access_state \<Rightarrow> access_state" where
  "reset_list 0 afi ty s = s"
| "reset_list (Suc n) afi ty s = reset_list n afi ty (access_list_delete (afi, ty, 0) s)"

definition access_list_reset_afi :: "nat \<Rightarrow> access_state \<Rightarrow> access_state option" where
  "access_list_reset_afi afi s =
     (case access_master_get afi s of
        None \<Rightarrow> Some s
      | Some m \<Rightarrow>
          let s1 = reset_list (length (am_num m)) afi ACCESS_TYPE_NUMBER s;
              s2 = reset_list (length (am_str m)) afi ACCESS_TYPE_STRING s1
          in if map_option am_num (access_master_get afi s2) = Some [] \<and>
                map_option am_str (access_master_get afi s2) = Some []
             then Some s2 else None)"

definition access_list_reset :: "access_state \<Rightarrow> access_state option" where
  "access_list_reset s = Option.bind (access_list_reset_afi AFI_IP s) (access_list_reset_afi AFI_IP6)"

section \<open>Well-formed masters\<close>

interpretation nl: named_lists al_name "\<lambda>x. al_type x = ACCESS_TYPE_NUMBER" .

definition master_wf :: "access_master \<Rightarrow> bool" where
  "master_wf m \<longleftrightarrow> nl.chains_wf (am_num m) (am_str m)"

text \<open>What a client sees of a master: the access lists by name.\<close>

definition lists :: "access_master \<Rightarrow> string \<rightharpoonup> access_list" where
  "lists m = nl.by_name (am_num m) (am_str m)"

abbreviation new_list :: "string \<Rightarrow> access_list" where
  "new_list nm \<equiv> \<lparr>al_name = nm, al_remark = None,
     al_type = (if all_digit nm then ACCESS_TYPE_NUMBER else ACCESS_TYPE_STRING), al_filters = []\<rparr>"

section \<open>The operations on a well-formed master\<close>

lemma wf_upd:
  assumes wf: "master_wf m" and i: "i < length (alist_of ty m)"
    and f: "\<And>x. al_name (f x) = al_name x" "\<And>x. al_type (f x) = al_type x"
  defines "x \<equiv> alist_of ty m ! i"
  shows "master_wf (alist_upd ty (\<lambda>xs. xs[i := f (xs ! i)]) m)"
    and "lists (alist_upd ty (\<lambda>xs. xs[i := f (xs ! i)]) m) = (lists m)(al_name x \<mapsto> f x)"
  using wf i f nl.change_num [of "am_num m" "am_str m" i "f x"] nl.change_str [of "am_num m" "am_str m" i "f x"]
  by (cases ty; simp add: master_wf_def lists_def alist_of_def alist_upd_def x_def)+

lemma wf_delete:
  assumes wf: "master_wf m" and i: "i < length (alist_of ty m)"
  defines "x \<equiv> alist_of ty m ! i"
  shows "master_wf (alist_upd ty (unlink i) m)"
    and "lists (alist_upd ty (unlink i) m) = (lists m)(al_name x := None)"
  using wf i nl.unlink_num [of "am_num m" "am_str m" i] nl.unlink_str [of "am_num m" "am_str m" i]
  by (cases ty; simp add: master_wf_def lists_def alist_of_def alist_upd_def x_def)+

lemma wf_insert:
  fixes m :: access_master
  assumes wf: "master_wf m" and none: "lists m nm = None"
  defines "ty \<equiv> (if all_digit nm then ACCESS_TYPE_NUMBER else ACCESS_TYPE_STRING)"
  defines "ins \<equiv> insert_at (if all_digit nm then (\<lambda>x. atoi (al_name x) \<ge> dec_val 0 nm) else (\<lambda>x. al_name x \<ge> nm)) (new_list nm) (alist_of ty m)"
  shows "master_wf (alist_upd ty (\<lambda>_. snd ins) m) \<and> lists (alist_upd ty (\<lambda>_. snd ins) m) = (lists m)(nm \<mapsto> new_list nm)"
  using wf none nl.insert_num [of "am_num m" "am_str m" "new_list nm"] nl.insert_str [of "am_num m" "am_str m" "new_list nm"]
  by (cases "all_digit nm") (simp_all add: master_wf_def lists_def ty_def ins_def alist_of_def alist_upd_def)

definition state_wf :: "access_state \<Rightarrow> bool" where
  "state_wf s \<longleftrightarrow> master_wf (access_master_ipv4 s) \<and> master_wf (access_master_ipv6 s)"

definition lists_of :: "access_state \<Rightarrow> nat \<Rightarrow> string \<rightharpoonup> access_list" where
  "lists_of s afi = (case access_master_get afi s of None \<Rightarrow> Map.empty | Some m \<Rightarrow> lists m)"

fun valid_ref :: "access_state \<Rightarrow> access_ref \<Rightarrow> bool" where
  "valid_ref s (afi, ty, i) \<longleftrightarrow> (\<exists>m. access_master_get afi s = Some m \<and> i < length (alist_of ty m))"

lemma master_get_upd [simp]:
  "access_master_get afi (master_upd a f s) =
     (if afi = a then map_option f (access_master_get afi s) else access_master_get afi s)"
  by (auto simp: access_master_get_def master_upd_def)

lemma state_wf_get: "state_wf s \<Longrightarrow> access_master_get afi s = Some m \<Longrightarrow> master_wf m"
  by (auto simp: state_wf_def access_master_get_def split: if_splits)

lemma state_wf_upd:
  "state_wf s \<Longrightarrow> (\<And>m. access_master_get afi s = Some m \<Longrightarrow> master_wf (f m)) \<Longrightarrow> state_wf (master_upd afi f s)"
  by (auto simp: state_wf_def access_master_get_def master_upd_def split: if_splits)

lemma lists_of_upd:
  "lists_of (master_upd a f s) afi =
     (if afi = a then (case access_master_get afi s of None \<Rightarrow> Map.empty | Some m \<Rightarrow> lists (f m)) else lists_of s afi)"
  by (simp add: lists_of_def split: option.splits)

lemma alist_of_upd [simp]: "alist_of ty (alist_upd ty f m) = f (alist_of ty m)"
  by (cases ty) (simp_all add: alist_of_def alist_upd_def)

lemma access_upd_spec:
  assumes "state_wf s" "valid_ref s r" "\<And>x. al_name (f x) = al_name x" "\<And>x. al_type (f x) = al_type x"
  shows "state_wf (access_upd r f s) \<and> valid_ref (access_upd r f s) r \<and>
    access_at (access_upd r f s) r = f (access_at s r) \<and>
    lists_of (access_upd r f s) (fst r) = (lists_of s (fst r))(al_name (access_at s r) \<mapsto> f (access_at s r)) \<and>
    (\<forall>a. a \<noteq> fst r \<longrightarrow> lists_of (access_upd r f s) a = lists_of s a)"
proof -
  obtain afi ty i where r: "r = (afi, ty, i)" by (cases r)
  then obtain m where m: "access_master_get afi s = Some m" "i < length (alist_of ty m)" using assms(2) by auto
  have wf: "master_wf m" using state_wf_get [OF assms(1) m(1)] .
  note u = wf_upd [OF wf m(2) assms(3,4)]
  have "state_wf (access_upd r f s)" unfolding r access_upd.simps
    by (rule state_wf_upd [OF assms(1)]) (use u(1) m(1) in simp)
  then show ?thesis using m u(2) by (simp add: r lists_of_upd) (simp add: lists_of_def)
qed

lemma access_delete_spec:
  assumes "state_wf s" "valid_ref s r"
  shows "state_wf (access_list_delete r s) \<and>
    lists_of (access_list_delete r s) (fst r) = (lists_of s (fst r))(al_name (access_at s r) := None) \<and>
    (\<forall>a. a \<noteq> fst r \<longrightarrow> lists_of (access_list_delete r s) a = lists_of s a)"
proof -
  obtain afi ty i where r: "r = (afi, ty, i)" by (cases r)
  then obtain m where m: "access_master_get afi s = Some m" "i < length (alist_of ty m)" using assms(2) by auto
  have wf: "master_wf m" using state_wf_get [OF assms(1) m(1)] .
  note u = wf_delete [OF wf m(2)]
  have "state_wf (access_list_delete r s)" unfolding r access_list_delete.simps
    by (rule state_wf_upd [OF assms(1)]) (use u(1) m(1) in simp)
  then show ?thesis using m u(2) by (simp add: r lists_of_upd) (simp add: lists_of_def)
qed

lemma access_at_lists:
  assumes "state_wf s" "valid_ref s r"
  shows "lists_of s (fst r) (al_name (access_at s r)) = Some (access_at s r)"
proof -
  obtain afi ty i where r: "r = (afi, ty, i)" by (cases r)
  then obtain m where m: "access_master_get afi s = Some m" "i < length (alist_of ty m)" using assms(2) by auto
  then show ?thesis using state_wf_get [OF assms(1) m(1)] nl.lookup_num [of "am_num m" "am_str m" i] nl.lookup_str [of "am_num m" "am_str m" i]
    by (cases ty) (simp_all add: r lists_of_def lists_def master_wf_def alist_of_def)
qed

lemma access_list_lookup_spec:
  assumes "state_wf s"
  shows "case access_list_lookup afi (Some nm) s of
      None \<Rightarrow> lists_of s afi nm = None
    | Some r \<Rightarrow> fst r = afi \<and> valid_ref s r \<and> al_name (access_at s r) = nm \<and> lists_of s afi nm = Some (access_at s r)"
proof (cases "access_master_get afi s")
  case None
  then show ?thesis by (simp add: access_list_lookup_def lists_of_def)
next
  case m: (Some m)
  let ?P = "\<lambda>x. al_name x = nm"
  have found: "fst r = afi \<and> valid_ref s r \<and> al_name (access_at s r) = nm \<and> lists_of s afi nm = Some (access_at s r)"
    if "index_of ?P (alist_of ty m) = Some i" "r = (afi, ty, i)" for ty i r
    using index_of_Some [OF that(1)] m that(2) access_at_lists [OF assms, of r] by auto
  show ?thesis
  proof (cases "index_of ?P (am_num m)")
    case (Some i)
    then show ?thesis using m found [of ACCESS_TYPE_NUMBER i] by (simp add: access_list_lookup_def alist_of_def)
  next
    case num: None
    show ?thesis
    proof (cases "index_of ?P (am_str m)")
      case (Some i)
      then show ?thesis using m num found [of ACCESS_TYPE_STRING i] by (simp add: access_list_lookup_def alist_of_def)
    next
      case None
      then have "lists m nm = None" using num unfolding lists_def nl.by_name_None by (auto simp: index_of_None)
      then show ?thesis using m num None by (simp add: access_list_lookup_def lists_of_def)
    qed
  qed
qed

lemma access_list_insert_spec:
  assumes "state_wf s" "afi \<in> {AFI_IP, AFI_IP6}" "lists_of s afi nm = None"
  shows "\<exists>r s'. access_list_insert afi nm s = Some (r, s') \<and> fst r = afi \<and> state_wf s' \<and> valid_ref s' r \<and>
    access_at s' r = new_list nm \<and> lists_of s' afi = (lists_of s afi)(nm \<mapsto> new_list nm) \<and>
    (\<forall>a. a \<noteq> afi \<longrightarrow> lists_of s' a = lists_of s a)"
proof -
  obtain m where m: "access_master_get afi s = Some m" using assms(2) by (auto simp: access_master_get_def)
  have wf: "master_wf m" using state_wf_get [OF assms(1) m] .
  have none: "lists m nm = None" using assms(3) m by (simp add: lists_of_def)
  define ty where "ty = (if all_digit nm then ACCESS_TYPE_NUMBER else ACCESS_TYPE_STRING)"
  define ins where "ins = insert_at (if all_digit nm then (\<lambda>x. atoi (al_name x) \<ge> dec_val 0 nm) else (\<lambda>x. al_name x \<ge> nm)) (new_list nm) (alist_of ty m)"
  define m' where "m' = alist_upd ty (\<lambda>_. snd ins) m"
  have run: "access_list_insert afi nm s = Some ((afi, ty, fst ins), master_upd afi (\<lambda>_. m') s)"
    using m by (auto simp: access_list_insert_def Let_def split_def ty_def ins_def m'_def alist_of_def alist_upd_def
        master_upd_def access_master_get_def split: if_splits)
  have wf': "master_wf m'" and "lists m' = (lists m)(nm \<mapsto> new_list nm)"
    using wf_insert [OF wf none] by (simp_all add: m'_def ins_def ty_def)
  moreover have "state_wf (master_upd afi (\<lambda>_. m') s)" by (rule state_wf_upd [OF assms(1)]) (rule wf')
  moreover have "fst ins < length (alist_of ty m') \<and> alist_of ty m' ! fst ins = new_list nm"
    by (simp only: m'_def alist_of_upd ins_def nth_insert_at simp_thms)
  ultimately show ?thesis using run m by (simp add: lists_of_upd) (simp add: lists_of_def)
qed

lemma access_list_get_spec:
  fixes nm :: string
  assumes "state_wf s" "afi \<in> {AFI_IP, AFI_IP6}"
  defines "al \<equiv> (case lists_of s afi nm of None \<Rightarrow> new_list nm | Some al \<Rightarrow> al)"
  shows "\<exists>r s'. access_list_get afi nm s = Some (r, s') \<and> fst r = afi \<and> state_wf s' \<and> valid_ref s' r \<and>
    access_at s' r = al \<and> al_name al = nm \<and> lists_of s' afi = (lists_of s afi)(nm \<mapsto> al) \<and>
    (\<forall>a. a \<noteq> afi \<longrightarrow> lists_of s' a = lists_of s a)"
proof (cases "access_list_lookup afi (Some nm) s")
  case None
  then have none: "lists_of s afi nm = None" using access_list_lookup_spec [OF assms(1), of afi nm] by simp
  then show ?thesis using access_list_insert_spec [OF assms(1,2) none] None by (simp add: access_list_get_def al_def)
next
  case (Some r)
  then have r: "fst r = afi" "valid_ref s r" "al_name (access_at s r) = nm" "lists_of s afi nm = Some (access_at s r)"
    using access_list_lookup_spec [OF assms(1), of afi nm] by simp_all
  then have "(lists_of s afi)(nm \<mapsto> access_at s r) = lists_of s afi" by (metis fun_upd_triv)
  then show ?thesis using Some r assms(1) by (simp add: access_list_get_def al_def)
qed

section \<open>Installing filters\<close>

lemma filter_find_spec:
  assumes "\<And>f. f \<in> set fs \<Longrightarrow> same f = Some (P f)"
  shows "filter_find same fs i = Some (map_option (\<lambda>j. i + j) (index_of P fs))"
  using assms
proof (induction fs arbitrary: i)
  case (Cons f fs)
  show ?case
  proof (cases "P f")
    case True
    then show ?thesis using Cons.prems by (simp add: index_of_def)
  next
    case False
    then have "index_of P (f # fs) = map_option Suc (index_of P fs)" by (simp add: index_of_def Let_def)
    then show ?thesis using Cons False by (cases "index_of P fs") auto
  qed
qed (simp add: index_of_def)

text \<open>What installing or removing a filter does to an access list; \<open>None\<close> is no list.\<close>

definition install_abs :: "(filter_t \<Rightarrow> bool) \<Rightarrow> filter_t \<Rightarrow> bool \<Rightarrow> access_list \<Rightarrow> access_list option" where
  "install_abs same f set_f al =
     (case index_of same (al_filters al) of
        None \<Rightarrow> Some (if set_f then al\<lparr>al_filters := al_filters al @ [f]\<rparr> else al)
      | Some i \<Rightarrow>
          if set_f then Some al
          else
            let fs = unlink i (al_filters al)
            in if fs = [] then None else Some (al\<lparr>al_filters := fs\<rparr>))"

lemma hook_call_irrelevant:
  assumes "\<And>m. am_num (f m) = am_num m" "\<And>m. am_str (f m) = am_str m"
  shows "state_wf (master_upd afi f s) = state_wf s" "lists_of (master_upd afi f s) = lists_of s"
    "valid_ref (master_upd afi f s) r = valid_ref s r" "access_at (master_upd afi f s) r = access_at s r \<or> \<not> valid_ref s r"
proof -
  have l: "lists (f m) = lists m" "master_wf (f m) = master_wf m" "alist_of ty (f m) = alist_of ty m" for m ty
    using assms by (simp_all add: lists_def master_wf_def alist_of_def split: access_type.split)
  show "state_wf (master_upd afi f s) = state_wf s" by (simp add: state_wf_def master_upd_def l)
  show "lists_of (master_upd afi f s) = lists_of s"
    by (rule ext) (auto simp: lists_of_upd lists_of_def l split: option.splits)
  show "valid_ref (master_upd afi f s) r = valid_ref s r" by (cases r) (auto simp: l)
  show "access_at (master_upd afi f s) r = access_at s r \<or> \<not> valid_ref s r" by (cases r) (auto simp: l)
qed

lemma filter_add_spec:
  assumes "state_wf s" "valid_ref s r"
  shows "state_wf (access_list_filter_add r f s) \<and>
    lists_of (access_list_filter_add r f s) (fst r) =
      (lists_of s (fst r))(al_name (access_at s r) \<mapsto> (access_at s r)\<lparr>al_filters := al_filters (access_at s r) @ [f]\<rparr>) \<and>
    (\<forall>a. a \<noteq> fst r \<longrightarrow> lists_of (access_list_filter_add r f s) a = lists_of s a)"
proof -
  note u = access_upd_spec [OF assms, of "\<lambda>al. al\<lparr>al_filters := al_filters al @ [f]\<rparr>"]
  show ?thesis using u by (simp add: access_list_filter_add_def Let_def hook_call_irrelevant)
qed

lemma filter_delete_spec:
  fixes i :: nat
  assumes "state_wf s" "valid_ref s r"
  defines "fs \<equiv> unlink i (al_filters (access_at s r))"
  shows "state_wf (access_list_filter_delete r i s) \<and>
    lists_of (access_list_filter_delete r i s) (fst r) =
      (lists_of s (fst r))(al_name (access_at s r) :=
         (if fs = [] then None else Some ((access_at s r)\<lparr>al_filters := fs\<rparr>))) \<and>
    (\<forall>a. a \<noteq> fst r \<longrightarrow> lists_of (access_list_filter_delete r i s) a = lists_of s a)"
proof -
  define g where "g = (\<lambda>al :: access_list. al\<lparr>al_filters := unlink i (al_filters al)\<rparr>)"
  define s1 where "s1 = access_upd r g s"
  define h :: "access_master \<Rightarrow> access_master" where "h = (\<lambda>m. if am_delete_hook m then m\<lparr>am_calls := am_calls m @ [Delete_hook (al_name (access_at s1 r))]\<rparr> else m)"
  define s2 where "s2 = master_upd (fst r) h s1"
  have u: "state_wf s1" "valid_ref s1 r" "access_at s1 r = g (access_at s r)"
    "lists_of s1 (fst r) = (lists_of s (fst r))(al_name (access_at s r) \<mapsto> g (access_at s r))"
    "\<forall>a. a \<noteq> fst r \<longrightarrow> lists_of s1 a = lists_of s a"
    using access_upd_spec [OF assms(1,2), of g] by (simp_all add: s1_def g_def)
  have h: "am_num (h m) = am_num m" "am_str (h m) = am_str m" for m by (simp_all add: h_def)
  have v: "state_wf s2" "valid_ref s2 r" "access_at s2 r = g (access_at s r)" "lists_of s2 = lists_of s1"
    using hook_call_irrelevant [where f = h, OF h, of "fst r" s1] u unfolding s2_def by metis+
  have run: "access_list_filter_delete r i s = (if access_list_empty (access_at s2 r) then access_list_delete r s2 else s2)"
    by (simp only: access_list_filter_delete_def Let_def s2_def s1_def h_def g_def)
  have g': "g (access_at s r) = (access_at s r)\<lparr>al_filters := fs\<rparr>" by (simp add: g_def fs_def)
  show ?thesis
  proof (cases "fs = []")
    case True
    then have "access_list_empty (access_at s2 r)" using v(3) g' by (simp add: access_list_empty_def)
    then show ?thesis using run True access_delete_spec [OF v(1,2)] u v g' by simp
  next
    case False
    then have "\<not> access_list_empty (access_at s2 r)" using v(3) g' by (simp add: access_list_empty_def)
    then show ?thesis using run False u v g' by simp
  qed
qed

lemma filter_install_spec:
  assumes wf: "state_wf s" "afi \<in> {AFI_IP, AFI_IP6}"
    and look: "\<And>al. lookup al f = filter_find same (al_filters al) 0"
    and same: "\<And>g. g \<in> set (al_filters (case lists_of s afi nm of None \<Rightarrow> new_list nm | Some al \<Rightarrow> al)) \<Longrightarrow> same g = Some (P g)"
  shows "\<exists>s'. filter_install lookup afi nm f set_f s = Some (CMD_SUCCESS, s') \<and> state_wf s' \<and>
    lists_of s' afi = (lists_of s afi)(nm := install_abs P f set_f
      (case lists_of s afi nm of None \<Rightarrow> new_list nm | Some al \<Rightarrow> al)) \<and>
    (\<forall>a. a \<noteq> afi \<longrightarrow> lists_of s' a = lists_of s a)"
proof -
  define al where "al = (case lists_of s afi nm of None \<Rightarrow> new_list nm | Some al \<Rightarrow> al)"
  from access_list_get_spec [OF wf, of nm, folded al_def] obtain r s1 where
    g: "access_list_get afi nm s = Some (r, s1)" "fst r = afi" "state_wf s1" "valid_ref s1 r" "access_at s1 r = al"
      "al_name al = nm" "lists_of s1 afi = (lists_of s afi)(nm \<mapsto> al)" "\<forall>a. a \<noteq> afi \<longrightarrow> lists_of s1 a = lists_of s a"
    by blast
  have l: "lookup al f = Some (index_of P (al_filters al))"
    using look filter_find_spec [of "al_filters al" same P 0] same unfolding al_def [symmetric]
    by (simp add: option.map_ident)
  define s' where "s' = (if set_f then (if index_of P (al_filters al) \<noteq> None then s1 else access_list_filter_add r f s1)
       else (case index_of P (al_filters al) of None \<Rightarrow> s1 | Some i \<Rightarrow> access_list_filter_delete r i s1))"
  have run: "filter_install lookup afi nm f set_f s = Some (CMD_SUCCESS, s')"
    using g(1,5) l by (simp add: filter_install_def s'_def)
  have "state_wf s' \<and> lists_of s' afi = (lists_of s afi)(nm := install_abs P f set_f al) \<and>
    (\<forall>a. a \<noteq> afi \<longrightarrow> lists_of s' a = lists_of s a)"
  proof (cases "index_of P (al_filters al)")
    case None
    then show ?thesis using g filter_add_spec [OF g(3,4), of f] by (simp add: s'_def install_abs_def)
  next
    case (Some i)
    then show ?thesis using g filter_delete_spec [OF g(3,4), of i] by (simp add: s'_def install_abs_def Let_def)
  qed
  then show ?thesis using run unfolding al_def by blast
qed

lemma filter_install_wf:
  assumes wf: "state_wf s" and run: "filter_install lookup afi nm f set_f s = Some (res, s')"
  shows "state_wf s'"
proof -
  from run obtain r s1 where g: "access_list_get afi nm s = Some (r, s1)" by (auto simp: filter_install_def split: bind_splits)
  have afi: "afi \<in> {AFI_IP, AFI_IP6}"
    using g by (auto simp: access_list_get_def access_list_lookup_def access_list_insert_def access_master_get_def
        split: option.splits if_splits)
  from access_list_get_spec [OF wf afi, of nm] g have w: "state_wf s1" "valid_ref s1 r" by auto
  show ?thesis using run g w filter_add_spec [OF w, of f] filter_delete_spec [OF w]
    by (auto simp: filter_install_def split: bind_splits if_splits option.splits)
qed

lemma reset_list_spec:
  "state_wf s \<Longrightarrow> access_master_get afi s = Some m \<Longrightarrow> length (alist_of ty m) = n \<Longrightarrow>
   state_wf (reset_list n afi ty s) \<and>
   access_master_get afi (reset_list n afi ty s) = Some (alist_upd ty (\<lambda>_. []) m) \<and>
   (\<forall>a. a \<noteq> afi \<longrightarrow> access_master_get a (reset_list n afi ty s) = access_master_get a s)"
proof (induction n arbitrary: s m)
  case 0
  have "alist_upd ty (\<lambda>_. []) m = m" using 0 by (cases ty) (auto simp: alist_upd_def alist_of_def)
  then show ?case using 0 by simp
next
  case (Suc n)
  define s1 where "s1 = access_list_delete (afi, ty, 0) s"
  define m1 where "m1 = alist_upd ty (\<lambda>xs. drop (Suc 0) xs) m"
  have m1: "access_master_get afi s1 = Some m1" using Suc.prems(2) by (cases ty) (simp_all add: s1_def m1_def alist_upd_def unlink_def)
  have "length (alist_of ty m1) = n" using Suc.prems(3) by (simp add: m1_def)
  moreover have "valid_ref s (afi, ty, 0)" using Suc.prems(2,3) by (cases "alist_of ty m") auto
  then have "state_wf s1" unfolding s1_def using access_delete_spec [OF Suc.prems(1)] by blast
  ultimately have "state_wf (reset_list n afi ty s1) \<and>
     access_master_get afi (reset_list n afi ty s1) = Some (alist_upd ty (\<lambda>_. []) m1) \<and>
     (\<forall>a. a \<noteq> afi \<longrightarrow> access_master_get a (reset_list n afi ty s1) = access_master_get a s1)"
    using Suc.IH m1 by blast
  moreover have "alist_upd ty (\<lambda>_. []) m1 = alist_upd ty (\<lambda>_. []) m" by (cases ty) (simp_all add: m1_def alist_upd_def)
  ultimately show ?case by (simp add: s1_def)
qed

lemma access_list_reset_afi_spec:
  assumes wf: "state_wf s" and afi: "afi \<in> {AFI_IP, AFI_IP6}"
  shows "\<exists>s'. access_list_reset_afi afi s = Some s' \<and> state_wf s' \<and> lists_of s' afi = Map.empty \<and>
    (\<forall>a. a \<noteq> afi \<longrightarrow> lists_of s' a = lists_of s a)"
proof -
  obtain m where m: "access_master_get afi s = Some m" using afi by (auto simp: access_master_get_def)
  define s1 where "s1 = reset_list (length (am_num m)) afi ACCESS_TYPE_NUMBER s"
  define s2 where "s2 = reset_list (length (am_str m)) afi ACCESS_TYPE_STRING s1"
  have s1: "state_wf s1" "access_master_get afi s1 = Some (m\<lparr>am_num := []\<rparr>)"
    "\<forall>a. a \<noteq> afi \<longrightarrow> access_master_get a s1 = access_master_get a s"
    using reset_list_spec [OF wf m, of ACCESS_TYPE_NUMBER] by (simp_all add: s1_def alist_of_def alist_upd_def)
  have s2: "state_wf s2" "access_master_get afi s2 = Some (m\<lparr>am_num := [], am_str := []\<rparr>)"
    "\<forall>a. a \<noteq> afi \<longrightarrow> access_master_get a s2 = access_master_get a s"
    using reset_list_spec [OF s1(1,2), of ACCESS_TYPE_STRING] s1(3) by (simp_all add: s2_def alist_of_def alist_upd_def)
  have "access_list_reset_afi afi s = Some s2"
    using m s2(2) by (simp add: access_list_reset_afi_def Let_def s1_def s2_def)
  then show ?thesis using s2 by (auto simp: lists_of_def lists_def)
qed

lemma access_list_reset_spec:
  assumes wf: "state_wf s"
  shows "\<exists>s'. access_list_reset s = Some s' \<and> state_wf s' \<and> lists_of s' AFI_IP = Map.empty \<and> lists_of s' AFI_IP6 = Map.empty"
proof -
  from access_list_reset_afi_spec [OF wf, of AFI_IP] obtain s1 where
    s1: "access_list_reset_afi AFI_IP s = Some s1" "state_wf s1" "lists_of s1 AFI_IP = Map.empty" by auto
  from access_list_reset_afi_spec [OF s1(2), of AFI_IP6] obtain s2 where
    s2: "access_list_reset_afi AFI_IP6 s1 = Some s2" "state_wf s2" "lists_of s2 AFI_IP6 = Map.empty"
      "\<forall>a. a \<noteq> AFI_IP6 \<longrightarrow> lists_of s2 a = lists_of s1 a" by auto
  show ?thesis using s1 s2 by (auto simp: access_list_reset_def)
qed

text \<open>A Cisco filter has four addresses of four octets.\<close>

definition filter_wf :: "filter_t \<Rightarrow> bool" where
  "filter_wf g \<longleftrightarrow> (case f_u g of
     Cfilter c \<Rightarrow> length (fc_addr c) = 4 \<and> length (fc_addr_mask c) = 4 \<and> length (fc_mask c) = 4 \<and> length (fc_mask_mask c) = 4
   | Zfilter z \<Rightarrow> True)"

text \<open>What a filter matches, by bits: a Cisco filter compares the bits outside of the wildcards, and an extended one also those of the
  netmask; any other filter asks for containment.\<close>

definition filter_matches :: "prefix_t \<Rightarrow> filter_t \<Rightarrow> bool" where
  "filter_matches p g \<longleftrightarrow>
     (case f_u g of
        Cfilter c \<Rightarrow> (\<forall>i<32. bit_at (fc_addr c) i \<longleftrightarrow> bit_at (p_u p) i \<and> \<not> bit_at (fc_addr_mask c) i) \<and>
          (extended c \<longrightarrow> (\<forall>i<32. bit_at (fc_mask c) i \<longleftrightarrow> i < prefixlen p \<and> \<not> bit_at (fc_mask_mask c) i))
      | Zfilter z \<Rightarrow> family (fz_prefix z) = family p \<and> prefix (pbits (fz_prefix z)) (pbits p) \<and>
          (fz_exact z \<longrightarrow> prefixlen (fz_prefix z) = prefixlen p))"

text \<open>An extended filter has no netmask to compare for a length above 32.\<close>

definition filter_aborts :: "prefix_t \<Rightarrow> filter_t \<Rightarrow> bool" where
  "filter_aborts p g \<longleftrightarrow> 32 < prefixlen p \<and> (case f_u g of Cfilter c \<Rightarrow> extended c | Zfilter z \<Rightarrow> False)"

lemma octets_eq_bits:
  assumes "length a = 4" "length b = 4"
  shows "a = b \<longleftrightarrow> (\<forall>i<32. bit_at a i \<longleftrightarrow> bit_at b i)"
proof -
  have "a = b \<longleftrightarrow> octets_same a b 4" using assms by (auto simp: octets_same_iff list_eq_iff_nth_eq)
  then show ?thesis by (simp add: octets_same_bits)
qed

lemma bit_at_wildcard:
  assumes "length a = 4" "length w = 4" "i < 32"
  shows "bit_at (map2 (AND) a (map NOT w)) i \<longleftrightarrow> bit_at a i \<and> \<not> bit_at w i"
proof -
  have j: "i div 8 < 4" "7 - i mod 8 < 8" using assms(3) by auto
  have "bit_at (map2 (AND) a (map NOT w) @ []) i \<longleftrightarrow> bit_at a i \<and> bit_at (map NOT w) i"
    using assms by (intro bit_at_map2_and) auto
  moreover have "bit_at (map NOT w) i \<longleftrightarrow> \<not> bit_at w i" using j assms(2) by (simp add: bit_at_def bit_not_iff)
  ultimately show ?thesis by simp
qed

lemma masked_eq:
  assumes "length a = 4" "length w = 4" "length b = 4"
  shows "map2 (AND) a (map NOT w) = b \<longleftrightarrow> (\<forall>i<32. bit_at b i \<longleftrightarrow> bit_at a i \<and> \<not> bit_at w i)"
  using octets_eq_bits [of "map2 (AND) a (map NOT w)" b] bit_at_wildcard [OF assms(1,2)] assms by auto

lemma match_cisco:
  assumes "length (fc_addr c) = 4" "length (fc_addr_mask c) = 4" "length (fc_mask c) = 4" "length (fc_mask_mask c) = 4"
    "4 \<le> length (p_u p)" "f_u g = Cfilter c"
  shows "filter_match_cisco c p = (if filter_aborts p g then None else Some (filter_matches p g))"
proof -
  have addr: "map2 (AND) (take 4 (p_u p)) (map NOT (fc_addr_mask c)) = fc_addr c \<longleftrightarrow>
      (\<forall>i<32. bit_at (fc_addr c) i \<longleftrightarrow> bit_at (p_u p) i \<and> \<not> bit_at (fc_addr_mask c) i)"
    using masked_eq [of "take 4 (p_u p)" "fc_addr_mask c" "fc_addr c"] assms by (simp add: bit_at_take)
  show ?thesis
  proof (cases "extended c \<and> prefixlen p \<le> 32")
    case True
    then obtain nm where nm: "masklen2ip (int (prefixlen p)) = Some nm" using masklen2ip_Some by blast
    have "map2 (AND) nm (map NOT (fc_mask_mask c)) = fc_mask c \<longleftrightarrow>
        (\<forall>i<32. bit_at (fc_mask c) i \<longleftrightarrow> i < prefixlen p \<and> \<not> bit_at (fc_mask_mask c) i)"
      using masked_eq [of nm "fc_mask_mask c" "fc_mask c"] assms length_masklen2ip [OF nm] bit_at_masklen2ip [OF nm] by simp
    then show ?thesis using True addr nm assms(6) by (simp add: filter_match_cisco_def filter_aborts_def filter_matches_def)
  next
    case False
    then show ?thesis using addr assms(6) by (auto simp: filter_match_cisco_def filter_aborts_def filter_matches_def masklen2ip_def)
  qed
qed

lemma filters_apply_first:
  assumes "\<forall>g \<in> set fs. filter_wf g" "4 \<le> length (p_u p)"
  shows "filters_apply fs p =
    (case List.find (\<lambda>g. filter_aborts p g \<or> filter_matches p g) fs of
       None \<Rightarrow> Some FILTER_DENY | Some g \<Rightarrow> if filter_aborts p g then None else Some (f_type g))"
  using assms(1)
proof (induction fs)
  case (Cons g fs)
  show ?case
  proof (cases "f_u g")
    case (Cfilter c)
    then show ?thesis using Cons match_cisco [of c p g] assms(2) by (auto simp: filter_wf_def)
  next
    case (Zfilter z)
    then have "filter_match_zebra z p = filter_matches p g" "\<not> filter_aborts p g"
      by (auto simp: filter_match_zebra_def filter_matches_def filter_aborts_def prefix_match_iff)
    then show ?thesis using Cons Zfilter by simp
  qed
qed simp

section \<open>Properties\<close>

text \<open>C25: a list that does not exist denies.  Any other access list, of filters of both kinds, is decided by the first filter that matches the prefix: a
  Cisco filter when its address is that of the prefix with the wildcard bits cleared, and, if it is extended, its mask is the netmask of the prefix so cleared; another one
  when it contains the prefix (and has its length, when it asks for an exact match).  Without one the answer is deny.  An extended
  filter fails the assertion of \<^verbatim>\<open>masklen2ip\<close> on a prefix longer than 32 bits, unless a filter before it decides.\<close>

theorem access_list_apply_first_match:
  assumes "\<forall>g \<in> set (al_filters al). filter_wf g" "4 \<le> length (p_u p)"
  shows "access_list_apply (Some al) p =
    (case List.find (\<lambda>g. filter_aborts p g \<or> filter_matches p g) (al_filters al) of
       None \<Rightarrow> Some FILTER_DENY | Some g \<Rightarrow> if filter_aborts p g then None else Some (f_type g)) \<and>
    access_list_apply None p = Some FILTER_DENY"
  using filters_apply_first [OF assms] by (simp add: access_list_apply_def)

definition example_filters :: access_list where
  "example_filters = \<lparr>al_name = ''100'', al_remark = None, al_type = ACCESS_TYPE_NUMBER,
     al_filters = [\<lparr>f_type = FILTER_PERMIT, f_u = Cfilter \<lparr>extended = True, fc_addr = [10, 0, 0, 0], fc_addr_mask = [0, 255, 255, 255],
                     fc_mask = [255, 255, 0, 0], fc_mask_mask = [0, 0, 0, 0]\<rparr>\<rparr>,
                   \<lparr>f_type = FILTER_DENY, f_u = Zfilter \<lparr>fz_exact = False, fz_prefix = prefix_new\<lparr>family := AF_INET\<rparr>\<rparr>\<rparr>]\<rparr>"

theorem access_list_apply_first_match_witness:
  "access_list_apply (Some example_filters) \<lparr>family = AF_INET, prefixlen = 16, p_u = 10 # 7 # replicate 14 0\<rparr> = Some FILTER_PERMIT \<and>
   access_list_apply (Some example_filters) \<lparr>family = AF_INET, prefixlen = 24, p_u = 10 # 7 # replicate 14 0\<rparr> = Some FILTER_DENY \<and>
   access_list_apply (Some example_filters) \<lparr>family = AF_INET6, prefixlen = 48, p_u = replicate 16 0\<rparr> = None"
proof -
  have wf: "\<forall>g \<in> set (al_filters example_filters). filter_wf g" by (simp add: example_filters_def filter_wf_def)
  have l: "4 \<le> length (p_u \<lparr>family = AF_INET, prefixlen = n, p_u = 10 # 7 # replicate 14 0\<rparr>)" "4 \<le> length (p_u \<lparr>family = AF_INET6, prefixlen = n, p_u = replicate 16 (0 :: u8)\<rparr>)" for n by simp_all
  note a = access_list_apply_first_match [OF wf l(1), of 16] access_list_apply_first_match [OF wf l(1), of 24] access_list_apply_first_match [OF wf l(2), of 48]
  show ?thesis
  proof (intro conjI)
    show "access_list_apply (Some example_filters) \<lparr>family = AF_INET, prefixlen = 16, p_u = 10 # 7 # replicate 14 0\<rparr> = Some FILTER_PERMIT"
      unfolding conjunct1 [OF a(1)] by code_simp
    show "access_list_apply (Some example_filters) \<lparr>family = AF_INET, prefixlen = 24, p_u = 10 # 7 # replicate 14 0\<rparr> = Some FILTER_DENY"
      unfolding conjunct1 [OF a(2)] by code_simp
    show "access_list_apply (Some example_filters) \<lparr>family = AF_INET6, prefixlen = 48, p_u = replicate 16 0\<rparr> = None"
      unfolding conjunct1 [OF a(3)] by code_simp
  qed
qed

text \<open>Every command on access lists keeps the two masters well-formed: names are distinct, the
  numbered lists are sorted by number and the named ones by name; a reset empties both.\<close>

theorem access_commands_keep_order:
  assumes "state_wf s"
  shows "(filter_set_cisco aton nm ty a am k km ext set_f s = Some (res, s1) \<longrightarrow> state_wf s1) \<and>
    (filter_set_zebra aton pton p0 nm ty afi pstr exact set_f s = Some (res, s2) \<longrightarrow> state_wf s2) \<and>
    (access_list_remark afi nm rem s = Some (res, s3) \<longrightarrow> state_wf s3) \<and>
    state_wf (snd (vty_access_list_remark_unset afi nm s)) \<and>
    (\<exists>s5. access_list_reset s = Some s5 \<and> state_wf s5 \<and> lists_of s5 AFI_IP = Map.empty \<and> lists_of s5 AFI_IP6 = Map.empty)"
proof (intro conjI impI)
  show "state_wf s1" if "filter_set_cisco aton nm ty a am k km ext set_f s = Some (res, s1)"
    using that assms filter_install_wf [OF assms]
    by (auto simp: filter_set_cisco_def Let_def split: option.splits if_splits)
  show "state_wf s2" if "filter_set_zebra aton pton p0 nm ty afi pstr exact set_f s = Some (res, s2)"
    using that assms filter_install_wf [OF assms]
    by (auto simp: filter_set_zebra_def Let_def split_def split: option.splits if_splits bind_splits)
  show "state_wf s3" if run: "access_list_remark afi nm rem s = Some (res, s3)"
  proof -
    from run obtain r s1 where g: "access_list_get afi nm s = Some (r, s1)"
      "s3 = access_upd r (\<lambda>al. al\<lparr>al_remark := Some rem\<rparr>) s1" by (auto simp: access_list_remark_def split: bind_splits)
    have afi: "afi \<in> {AFI_IP, AFI_IP6}"
      using g(1) by (auto simp: access_list_get_def access_list_lookup_def access_list_insert_def access_master_get_def
          split: option.splits if_splits)
    from access_list_get_spec [OF assms afi, of nm] g(1) have w: "state_wf s1" "valid_ref s1 r" by auto
    show ?thesis using access_upd_spec [OF w, of "\<lambda>al. al\<lparr>al_remark := Some rem\<rparr>"] g(2) by simp
  qed
  show "state_wf (snd (vty_access_list_remark_unset afi nm s))"
  proof (cases "access_list_lookup afi (Some nm) s")
    case None
    then show ?thesis using assms by (simp add: vty_access_list_remark_unset_def)
  next
    case (Some r)
    then have "valid_ref s r" using access_list_lookup_spec [OF assms, of afi nm] by simp
    from access_upd_spec [OF assms this, of "\<lambda>al. al\<lparr>al_remark := None\<rparr>"] show ?thesis
      using Some access_delete_spec by (simp add: vty_access_list_remark_unset_def Let_def)
  qed
  show "\<exists>s5. access_list_reset s = Some s5 \<and> state_wf s5 \<and> lists_of s5 AFI_IP = Map.empty \<and> lists_of s5 AFI_IP6 = Map.empty"
    by (rule access_list_reset_spec [OF assms])
qed

theorem access_commands_keep_order_witness:
  "state_wf \<lparr>access_master_ipv4 = access_master_init, access_master_ipv6 = access_master_init\<rparr> \<and>
   state_wf (snd (vty_access_list_remark_unset AFI_IP ''10'' \<lparr>access_master_ipv4 = access_master_init, access_master_ipv6 = access_master_init\<rparr>))"
proof -
  have "state_wf \<lparr>access_master_ipv4 = access_master_init, access_master_ipv6 = access_master_init\<rparr>"
    by (simp add: state_wf_def master_wf_def access_master_init_def)
  with access_commands_keep_order [OF this, of undefined "''10''" undefined undefined undefined undefined undefined undefined
      undefined undefined undefined undefined undefined AFI_IP]
  show ?thesis by blast
qed

end
