(* ===== verification/Distance.thy ===== *)
theory Distance
  imports Table_Reach Access_List
begin

text \<open>
  Administrative distances: the tables of \<^verbatim>\<open>ripd/ripd.c\<close>, \<^verbatim>\<open>ospfd/ospf_zebra.c\<close>,
  \<^verbatim>\<open>ospf6d/ospf6_zebra.c\<close> and \<^verbatim>\<open>bgpd/bgp_route.c\<close> that give the routes learned from a source
  prefix their own distance.  Each is a client of the radix tree of \<^verbatim>\<open>lib/table.c\<close>, and the lemmas
  come from the contract \<open>prefix_store\<close>: every entry is worth one reference to its node.
  An \<open>info\<close> pointer is the record it points to, so a write through it is a write of the \<open>info\<close> field.
\<close>

section \<open>Model\<close>

record distance_t =
  distance :: u8
  d_access_list :: "string option"

definition distance_new :: distance_t where
  "distance_new = \<lparr>distance = 0, d_access_list = None\<rparr>"

subsection \<open>RIP\<close>

text \<open>The node of the prefix gets a record, which is then filled in: the common part of the four set operations.\<close>

definition distance_fill :: "u8 \<Rightarrow> string option \<Rightarrow> distance_t \<Rightarrow> distance_t" where
  "distance_fill d access_list_str rd =
     (let rd1 = rd\<lparr>distance := d\<rparr>;
          rd2 = (if d_access_list rd1 \<noteq> None then rd1\<lparr>d_access_list := None\<rparr> else rd1)
      in if access_list_str \<noteq> None then rd2\<lparr>d_access_list := access_list_str\<rparr> else rd2)"

definition distance_put :: "prefix_t \<Rightarrow> u8 \<Rightarrow> string option \<Rightarrow> distance_t route_table \<Rightarrow> distance_t route_table option" where
  "distance_put p d access_list_str t =
     Option.bind (route_node_get t p) (\<lambda>(rn, t1).
       case info_at t1 rn of
         Some rd \<Rightarrow>
           Option.bind (route_unlock_node rn t1) (node_set_info rn (Some (distance_fill d access_list_str rd)))
       | None \<Rightarrow>
           Option.bind (node_set_info rn (Some distance_new) t1)
             (node_set_info rn (Some (distance_fill d access_list_str distance_new))))"

definition rip_distance_set ::
    "(string \<Rightarrow> in_addr option) \<Rightarrow> prefix_t \<Rightarrow> string \<Rightarrow> string \<Rightarrow> string option \<Rightarrow> distance_t route_table \<Rightarrow>
     (cmd_result \<times> distance_t route_table) option" where
  "rip_distance_set inet_aton p0 distance_str ip_str access_list_str t =
     (case str2prefix_ipv4 inet_aton ip_str p0 of
        (ret, p) \<Rightarrow>
          if ret = 0 then Some (CMD_WARNING, t)
          else map_option (Pair CMD_SUCCESS) (distance_put p (of_int (atoi distance_str)) access_list_str t))"

text \<open>The entry of a node is freed, and the references of the entry and of the lookup are given back.\<close>

definition distance_drop :: "nat \<Rightarrow> distance_t route_table \<Rightarrow> distance_t route_table option" where
  "distance_drop rn t =
     Option.bind (node_set_info rn None t) (\<lambda>t1. Option.bind (route_unlock_node rn t1) (route_unlock_node rn))"

definition rip_distance_unset ::
    "(string \<Rightarrow> in_addr option) \<Rightarrow> prefix_t \<Rightarrow> string \<Rightarrow> string \<Rightarrow> string option \<Rightarrow> distance_t route_table \<Rightarrow>
     (cmd_result \<times> distance_t route_table) option" where
  "rip_distance_unset inet_aton p0 distance_str ip_str access_list_str t =
     (case str2prefix_ipv4 inet_aton ip_str p0 of
        (ret, p) \<Rightarrow>
          if ret = 0 then Some (CMD_WARNING, t)
          else Option.bind (route_node_lookup t p) (\<lambda>(rn, t1).
            case rn of
              None \<Rightarrow> Some (CMD_WARNING, t1)
            | Some a \<Rightarrow> map_option (Pair CMD_SUCCESS) (distance_drop a t1)))"

partial_function (option) reset_loop :: "nat option \<Rightarrow> distance_t route_table \<Rightarrow> distance_t route_table option" where
  "reset_loop rn t =
     (case rn of
        None \<Rightarrow> Some t
      | Some a \<Rightarrow>
          Option.bind
            (if info_at t a \<noteq> None then Option.bind (node_set_info a None t) (route_unlock_node a) else Some t) (\<lambda>t1.
          Option.bind (route_next a t1) (\<lambda>(r, t2). reset_loop r t2)))"

definition rip_distance_reset :: "distance_t route_table \<Rightarrow> distance_t route_table option" where
  "rip_distance_reset t = Option.bind (route_top t) (\<lambda>(r, t1). reset_loop r t1)"

text \<open>
  \<open>from\<close> is the neighbour the route came from, \<open>rp\<close> the prefix of the route; \<open>rip\<close> is the
  \<^verbatim>\<open>distance\<close> field of the running instance, if there is one.
\<close>

definition rip_distance_apply ::
    "u8 option \<Rightarrow> access_state \<Rightarrow> in_addr \<Rightarrow> prefix_t \<Rightarrow> distance_t route_table \<Rightarrow>
     (u8 \<times> distance_t route_table) option" where
  "rip_distance_apply rip s from rp t =
     (case rip of
        None \<Rightarrow> Some (0, t)
      | Some rip_distance \<Rightarrow>
          Option.bind (route_node_match t (prefix_new\<lparr>family := AF_INET, p_u := from @ replicate 12 0,
                                                      prefixlen := IPV4_MAX_BITLEN\<rparr>)) (\<lambda>(rn, t1).
          case rn of
            None \<Rightarrow> Some (if rip_distance \<noteq> 0 then rip_distance else 0, t1)
          | Some a \<Rightarrow>
              Option.bind (info_at t1 a) (\<lambda>rd.
              Option.bind (route_unlock_node a t1) (\<lambda>t2.
              if d_access_list rd \<noteq> None then
                (case access_list_lookup AFI_IP (d_access_list rd) s of
                   None \<Rightarrow> Some (0, t2)
                 | Some alist \<Rightarrow>
                     Option.bind (access_list_apply (Some (access_at s alist)) rp) (\<lambda>f.
                     if f = FILTER_DENY then Some (0, t2) else Some (distance rd, t2)))
              else Some (distance rd, t2)))))"

subsection \<open>OSPF\<close>

definition ospf_distance_set ::
    "(string \<Rightarrow> in_addr option) \<Rightarrow> prefix_t \<Rightarrow> string \<Rightarrow> string \<Rightarrow> string option \<Rightarrow> distance_t route_table \<Rightarrow>
     (cmd_result \<times> distance_t route_table) option" where
  "ospf_distance_set inet_aton p0 distance_str ip_str access_list_str t =
     (case str2prefix_ipv4 inet_aton ip_str p0 of
        (ret, p) \<Rightarrow>
          if ret = 0 then Some (CMD_WARNING, t)
          else map_option (Pair CMD_SUCCESS) (distance_put p (of_int (atoi distance_str)) access_list_str t))"

definition ospf_distance_unset ::
    "(string \<Rightarrow> in_addr option) \<Rightarrow> prefix_t \<Rightarrow> string \<Rightarrow> string \<Rightarrow> string option \<Rightarrow> distance_t route_table \<Rightarrow>
     (cmd_result \<times> distance_t route_table) option" where
  "ospf_distance_unset inet_aton p0 distance_str ip_str access_list_str t =
     (case str2prefix_ipv4 inet_aton ip_str p0 of
        (ret, p) \<Rightarrow>
          if ret = 0 then Some (CMD_WARNING, t)
          else Option.bind (route_node_lookup t p) (\<lambda>(rn, t1).
            case rn of
              None \<Rightarrow> Some (CMD_WARNING, t1)
            | Some a \<Rightarrow> map_option (Pair CMD_SUCCESS) (distance_drop a t1)))"

definition ospf_distance_reset :: "distance_t route_table \<Rightarrow> distance_t route_table option" where
  "ospf_distance_reset t = Option.bind (route_top t) (\<lambda>(r, t1). reset_loop r t1)"

abbreviation (input) OSPF_PATH_INTRA_AREA :: nat where "OSPF_PATH_INTRA_AREA \<equiv> 1"
abbreviation (input) OSPF_PATH_INTER_AREA :: nat where "OSPF_PATH_INTER_AREA \<equiv> 2"
abbreviation (input) OSPF_PATH_TYPE1_EXTERNAL :: nat where "OSPF_PATH_TYPE1_EXTERNAL \<equiv> 3"
abbreviation (input) OSPF_PATH_TYPE2_EXTERNAL :: nat where "OSPF_PATH_TYPE2_EXTERNAL \<equiv> 4"

record ospf_t =
  distance_all :: u8
  distance_intra :: u8
  distance_inter :: u8
  distance_external :: u8

definition ospf_distance_apply :: "ospf_t option \<Rightarrow> nat \<Rightarrow> u8" where
  "ospf_distance_apply ospf path_type =
     (case ospf of
        None \<Rightarrow> 0
      | Some o1 \<Rightarrow>
          if distance_intra o1 \<noteq> 0 \<and> path_type = OSPF_PATH_INTRA_AREA then distance_intra o1
          else if distance_inter o1 \<noteq> 0 \<and> path_type = OSPF_PATH_INTER_AREA then distance_inter o1
          else if distance_external o1 \<noteq> 0 \<and> path_type \<in> {OSPF_PATH_TYPE1_EXTERNAL, OSPF_PATH_TYPE2_EXTERNAL}
            then distance_external o1
          else if distance_all o1 \<noteq> 0 then distance_all o1 else 0)"

subsection \<open>OSPF for IPv6\<close>

definition ospf6_distance_set ::
    "(string \<Rightarrow> u8 list option) \<Rightarrow> prefix_t \<Rightarrow> string \<Rightarrow> string \<Rightarrow> string option \<Rightarrow> distance_t route_table \<Rightarrow>
     (cmd_result \<times> distance_t route_table) option" where
  "ospf6_distance_set inet_pton p0 distance_str ip_str access_list_str t =
     (case str2prefix_ipv6 inet_pton ip_str p0 of
        (ret, p) \<Rightarrow>
          if ret = 0 then Some (CMD_WARNING, t)
          else map_option (Pair CMD_SUCCESS) (distance_put p (of_int (atoi distance_str)) access_list_str t))"

definition ospf6_distance_unset ::
    "(string \<Rightarrow> u8 list option) \<Rightarrow> prefix_t \<Rightarrow> string \<Rightarrow> string option \<Rightarrow> distance_t route_table \<Rightarrow>
     (cmd_result \<times> distance_t route_table) option" where
  "ospf6_distance_unset inet_pton p0 ip_str access_list_str t =
     (case str2prefix_ipv6 inet_pton ip_str p0 of
        (ret, p) \<Rightarrow>
          if ret = 0 then Some (CMD_WARNING, t)
          else Option.bind (route_node_lookup t p) (\<lambda>(rn, t1).
            case rn of
              None \<Rightarrow> Some (CMD_WARNING, t1)
            | Some a \<Rightarrow> map_option (Pair CMD_SUCCESS) (distance_drop a t1)))"

definition ospf6_distance_reset :: "distance_t route_table \<Rightarrow> distance_t route_table option" where
  "ospf6_distance_reset t = Option.bind (route_top t) (\<lambda>(r, t1). reset_loop r t1)"

abbreviation (input) OSPF6_PATH_TYPE_INTRA :: nat where "OSPF6_PATH_TYPE_INTRA \<equiv> 1"
abbreviation (input) OSPF6_PATH_TYPE_INTER :: nat where "OSPF6_PATH_TYPE_INTER \<equiv> 2"
abbreviation (input) OSPF6_PATH_TYPE_EXTERNAL1 :: nat where "OSPF6_PATH_TYPE_EXTERNAL1 \<equiv> 3"
abbreviation (input) OSPF6_PATH_TYPE_EXTERNAL2 :: nat where "OSPF6_PATH_TYPE_EXTERNAL2 \<equiv> 4"

definition ospf6_distance_apply :: "nat \<Rightarrow> ospf_t option \<Rightarrow> u8" where
  "ospf6_distance_apply path_type ospf6 =
     (case ospf6 of
        None \<Rightarrow> 0
      | Some o1 \<Rightarrow>
          if distance_intra o1 \<noteq> 0 \<and> path_type = OSPF6_PATH_TYPE_INTRA then distance_intra o1
          else if distance_inter o1 \<noteq> 0 \<and> path_type = OSPF6_PATH_TYPE_INTER then distance_inter o1
          else if distance_external o1 \<noteq> 0 \<and> path_type \<in> {OSPF6_PATH_TYPE_EXTERNAL1, OSPF6_PATH_TYPE_EXTERNAL2}
            then distance_external o1
          else if distance_all o1 \<noteq> 0 then distance_all o1 else 0)"

subsection \<open>BGP\<close>

text \<open>
  A \<^verbatim>\<open>bgp_table\<close> is stood for by its \<^verbatim>\<open>route_table\<close>: the node operations of \<^verbatim>\<open>bgpd/bgp_table.h\<close> are
  casts around those of \<^verbatim>\<open>lib/table.c\<close>.
\<close>

definition bgp_node_get :: "'i route_table \<Rightarrow> prefix_t \<Rightarrow> (nat \<times> 'i route_table) option" where
  "bgp_node_get = route_node_get"

definition bgp_node_lookup :: "'i route_table \<Rightarrow> prefix_t \<Rightarrow> (nat option \<times> 'i route_table) option" where
  "bgp_node_lookup = route_node_lookup"

definition bgp_node_match :: "'i route_table \<Rightarrow> prefix_t \<Rightarrow> (nat option \<times> 'i route_table) option" where
  "bgp_node_match = route_node_match"

definition bgp_unlock_node :: "nat \<Rightarrow> 'i route_table \<Rightarrow> 'i route_table option" where
  "bgp_unlock_node = route_unlock_node"

definition bgp_distance_set ::
    "(string \<Rightarrow> in_addr option) \<Rightarrow> (string \<Rightarrow> u8 list option) \<Rightarrow> (string \<Rightarrow> u8 list option) \<Rightarrow> prefix_t \<Rightarrow> string \<Rightarrow>
     string \<Rightarrow> string option \<Rightarrow> distance_t route_table \<Rightarrow> (cmd_result \<times> distance_t route_table) option" where
  "bgp_distance_set inet_aton inet_pton sscanf_eth p0 distance_str ip_str access_list_str t =
     (case str2prefix inet_aton inet_pton sscanf_eth ip_str p0 of
        (ret, p) \<Rightarrow>
          if ret = 0 then Some (CMD_WARNING, t)
          else
            let d = of_int (atoi distance_str) in
            Option.bind (bgp_node_get t p) (\<lambda>(rn, t1).
            map_option (Pair CMD_SUCCESS)
              (case info_at t1 rn of
                 Some rd \<Rightarrow> Option.bind (bgp_unlock_node rn t1) (node_set_info rn (Some (distance_fill d access_list_str rd)))
               | None \<Rightarrow>
                   Option.bind (node_set_info rn (Some distance_new) t1)
                     (node_set_info rn (Some (distance_fill d access_list_str distance_new))))))"

definition bgp_distance_unset ::
    "(string \<Rightarrow> in_addr option) \<Rightarrow> (string \<Rightarrow> u8 list option) \<Rightarrow> (string \<Rightarrow> u8 list option) \<Rightarrow> prefix_t \<Rightarrow> string \<Rightarrow>
     string \<Rightarrow> string option \<Rightarrow> distance_t route_table \<Rightarrow> (cmd_result \<times> distance_t route_table) option" where
  "bgp_distance_unset inet_aton inet_pton sscanf_eth p0 distance_str ip_str access_list_str t =
     (case str2prefix inet_aton inet_pton sscanf_eth ip_str p0 of
        (ret, p) \<Rightarrow>
          if ret = 0 then Some (CMD_WARNING, t)
          else
            let d = of_int (atoi distance_str) in
            Option.bind (bgp_node_lookup t p) (\<lambda>(rn, t1).
            case rn of
              None \<Rightarrow> Some (CMD_WARNING, t1)
            | Some a \<Rightarrow>
                Option.bind (info_at t1 a) (\<lambda>rd.
                if distance rd \<noteq> d then Some (CMD_WARNING, t1)
                else
                  Option.bind (node_set_info a None t1) (\<lambda>t2.
                  Option.bind (bgp_unlock_node a t2) (\<lambda>t3.
                  map_option (Pair CMD_SUCCESS) (bgp_unlock_node a t3))))))"

text \<open>
  The parts of \<^verbatim>\<open>struct bgp\<close> and \<^verbatim>\<open>struct peer\<close> that the distance of a route depends on.  \<open>peer_group\<close> is
  set for a peer group, and \<open>group_head\<close> is then the first peer of the group (its \<^verbatim>\<open>local_as\<close> and \<^verbatim>\<open>as\<close>).
\<close>

datatype bgp_peer_sort = BGP_PEER_UNSET | BGP_PEER_IBGP | BGP_PEER_EBGP | BGP_PEER_INTERNAL | BGP_PEER_CONFED

record bgp_conf =
  bgp_as :: u32
  bgp_confederation :: bool
  confed_id :: u32
  confed_peers :: "u32 list"
  distance_ebgp :: u8
  distance_ibgp :: u8
  distance_local :: u8
  ipv6_distance_ebgp :: u8
  ipv6_distance_ibgp :: u8
  ipv6_distance_local :: u8

record bgp_peer =
  peer_bgp :: "bgp_conf option"
  su_family :: nat
  su_addr :: "u8 list"
  peer_as :: u32
  peer_local_as :: u32
  peer_group :: bool
  group_head :: "(u32 \<times> u32) option"
  peer_sort_cache :: bgp_peer_sort

definition bgp_confederation_peers_check :: "bgp_conf option \<Rightarrow> u32 \<Rightarrow> bool" where
  "bgp_confederation_peers_check bgp as =
     (case bgp of None \<Rightarrow> False | Some b \<Rightarrow> as \<in> set (confed_peers b))"

definition peer_calc_sort :: "bgp_peer \<Rightarrow> bgp_peer_sort option" where
  "peer_calc_sort peer =
     (let bgp = peer_bgp peer in
      if peer_group peer then
        if peer_as peer \<noteq> 0 then
          (case bgp of
             None \<Rightarrow> None
           | Some b \<Rightarrow> Some (if bgp_as b = peer_as peer then BGP_PEER_IBGP else BGP_PEER_EBGP))
        else
          (case group_head peer of
             Some (local_as1, as1) \<Rightarrow> Some (if local_as1 = as1 then BGP_PEER_IBGP else BGP_PEER_EBGP)
           | None \<Rightarrow> Some BGP_PEER_INTERNAL)
      else
        Some (case bgp of
          Some b \<Rightarrow>
            if bgp_confederation b then
              if peer_local_as peer = 0 then BGP_PEER_INTERNAL
              else if peer_local_as peer = peer_as peer then
                if peer_local_as peer = confed_id b then BGP_PEER_EBGP else BGP_PEER_IBGP
              else if bgp_confederation_peers_check bgp (peer_as peer) then BGP_PEER_CONFED
              else BGP_PEER_EBGP
            else if peer_local_as peer = 0 then BGP_PEER_INTERNAL
            else if peer_local_as peer = peer_as peer then BGP_PEER_IBGP else BGP_PEER_EBGP
        | None \<Rightarrow>
            if peer_local_as peer = 0 then BGP_PEER_INTERNAL
            else if peer_local_as peer = peer_as peer then BGP_PEER_IBGP else BGP_PEER_EBGP))"

definition peer_sort :: "bgp_peer \<Rightarrow> (bgp_peer_sort \<times> bgp_peer) option" where
  "peer_sort peer = map_option (\<lambda>st. (st, peer\<lparr>peer_sort_cache := st\<rparr>)) (peer_calc_sort peer)"

abbreviation ZEBRA_IBGP_DISTANCE_DEFAULT :: u8 where "ZEBRA_IBGP_DISTANCE_DEFAULT \<equiv> 200"
abbreviation ZEBRA_EBGP_DISTANCE_DEFAULT :: u8 where "ZEBRA_EBGP_DISTANCE_DEFAULT \<equiv> 20"

text \<open>
  The distance from the table of source prefixes, if there is one for this route: the first half of
  \<^verbatim>\<open>bgp_distance_apply\<close>.
\<close>

definition distance_by_source ::
    "nat \<Rightarrow> access_state \<Rightarrow> prefix_t \<Rightarrow> prefix_t \<Rightarrow> distance_t route_table \<Rightarrow> (u8 option \<times> distance_t route_table) option" where
  "distance_by_source afi s p q t =
     Option.bind (bgp_node_match t q) (\<lambda>(rn, t1).
     case rn of
       None \<Rightarrow> Some (None, t1)
     | Some a \<Rightarrow>
         Option.bind (info_at t1 a) (\<lambda>rd.
         Option.bind (bgp_unlock_node a t1) (\<lambda>t2.
         if d_access_list rd \<noteq> None then
           (case access_list_lookup afi (d_access_list rd) s of
              None \<Rightarrow> Some (None, t2)
            | Some alist \<Rightarrow>
                Option.bind (access_list_apply (Some (access_at s alist)) p) (\<lambda>f.
                Some (if f = FILTER_PERMIT then Some (distance rd) else None, t2)))
         else Some (Some (distance rd), t2))))"

text \<open>
  The check for a backdoor network: the data of the table of networks are their \<^verbatim>\<open>backdoor\<close> flags.
\<close>

definition backdoor_distance ::
    "u8 \<Rightarrow> prefix_t \<Rightarrow> bool route_table \<Rightarrow> (u8 option \<times> bool route_table) option" where
  "backdoor_distance dlocal p route =
     Option.bind (bgp_node_lookup route p) (\<lambda>(rn, r1).
     case rn of
       None \<Rightarrow> Some (None, r1)
     | Some a \<Rightarrow>
         Option.bind (info_at r1 a) (\<lambda>backdoor.
         map_option (Pair (if backdoor then Some (if dlocal \<noteq> 0 then dlocal else ZEBRA_IBGP_DISTANCE_DEFAULT) else None))
           (bgp_unlock_node a r1)))"

definition distance_by_sort :: "u8 \<Rightarrow> u8 \<Rightarrow> bgp_peer_sort \<Rightarrow> u8" where
  "distance_by_sort debgp dibgp st =
     (if st = BGP_PEER_EBGP
      then if debgp \<noteq> 0 then debgp else ZEBRA_EBGP_DISTANCE_DEFAULT
      else if dibgp \<noteq> 0 then dibgp else ZEBRA_IBGP_DISTANCE_DEFAULT)"

definition bgp_distance_apply ::
    "prefix_t \<Rightarrow> bgp_peer \<Rightarrow> bgp_conf option \<Rightarrow> access_state \<Rightarrow> distance_t route_table \<Rightarrow> bool route_table \<Rightarrow>
     (u8 \<times> distance_t route_table \<times> bool route_table) option" where
  "bgp_distance_apply p peer bgp s t route =
     (case bgp of
        None \<Rightarrow> Some (0, t, route)
      | Some b \<Rightarrow>
          if family p \<noteq> AF_INET then Some (0, t, route)
          else if su_family peer \<noteq> AF_INET then Some (0, t, route)
          else
            Option.bind (distance_by_source AFI_IP s p
                (prefix_new\<lparr>family := AF_INET, p_u := su_addr peer @ replicate 12 0, prefixlen := IPV4_MAX_BITLEN\<rparr>) t) (\<lambda>(d, t1).
            case d of
              Some d \<Rightarrow> Some (d, t1, route)
            | None \<Rightarrow>
                Option.bind (backdoor_distance (distance_local b) p route) (\<lambda>(d, r1).
                case d of
                  Some d \<Rightarrow> Some (d, t1, r1)
                | None \<Rightarrow> Some (distance_by_sort (distance_ebgp b) (distance_ibgp b) (peer_sort_cache peer), t1, r1))))"

text \<open>
  \<^verbatim>\<open>ipv6_bgp_distance_apply\<close> gives its key the family of IPv4 and recomputes the kind of the peer.
\<close>

definition ipv6_bgp_distance_apply ::
    "prefix_t \<Rightarrow> bgp_peer \<Rightarrow> bgp_conf option \<Rightarrow> access_state \<Rightarrow> distance_t route_table \<Rightarrow> bool route_table \<Rightarrow>
     (u8 \<times> bgp_peer \<times> distance_t route_table \<times> bool route_table) option" where
  "ipv6_bgp_distance_apply p peer bgp s t route =
     (case bgp of
        None \<Rightarrow> Some (0, peer, t, route)
      | Some b \<Rightarrow>
          if family p \<noteq> AF_INET6 then Some (0, peer, t, route)
          else if su_family peer \<noteq> AF_INET6 then Some (0, peer, t, route)
          else
            Option.bind (distance_by_source AFI_IP6 s p
                (prefix_new\<lparr>family := AF_INET, p_u := su_addr peer, prefixlen := IPV6_MAX_BITLEN\<rparr>) t) (\<lambda>(d, t1).
            case d of
              Some d \<Rightarrow> Some (d, peer, t1, route)
            | None \<Rightarrow>
                Option.bind (backdoor_distance (ipv6_distance_local b) p route) (\<lambda>(d, r1).
                case d of
                  Some d \<Rightarrow> Some (d, peer, t1, r1)
                | None \<Rightarrow>
                    map_option (\<lambda>(st, peer1).
                        (distance_by_sort (ipv6_distance_ebgp b) (ipv6_distance_ibgp b) st, peer1, t1, r1))
                      (peer_sort peer))))"

section \<open>Lemmas\<close>

subsection \<open>Parsed prefixes\<close>

lemma str2prefix_wf:
  assumes "\<And>s a. inet_aton s = Some a \<Longrightarrow> length a = 4" "\<And>s a. inet_pton s = Some a \<Longrightarrow> length a = 16"
    "\<And>s a. sscanf_eth s = Some a \<Longrightarrow> length a = 6" "length (p_u p0) = 16"
    "str2prefix inet_aton inet_pton sscanf_eth str p0 = (ret, p)" "ret \<noteq> 0"
  shows "wf_prefix p"
proof -
  obtain r1 p1 where 1: "str2prefix_ipv4 inet_aton str p0 = (r1, p1)" by fastforce
  obtain r2 p2 where 2: "str2prefix_ipv6 inet_pton str p1 = (r2, p2)" by fastforce
  obtain r3 p3 where 3: "str2prefix_eth sscanf_eth str p2 = (r3, p3)" by fastforce
  note w1 = str2prefix_ipv4_wf [of inet_aton, OF assms(1,4) 1]
  note w2 = str2prefix_ipv6_wf [of inet_pton, OF assms(2) w1(1) 2]
  note w3 = str2prefix_eth_wf [of sscanf_eth, OF assms(3) w2(1) 3]
  show ?thesis using assms(5,6) 1 2 3 w1 w2 w3 by (auto simp: str2prefix_def Let_def split: if_splits)
qed

subsection \<open>The common parts\<close>

lemma distance_fill: "distance_fill d al rd = \<lparr>distance = d, d_access_list = al\<rparr>"
  by (simp add: distance_fill_def Let_def)

lemma distance_put_spec:
  assumes "idle t" "wf_prefix p"
  shows "\<exists>t'. distance_put p d al t = Some t' \<and> idle t' \<and>
    (\<forall>ks i. has_entry t' ks i \<longleftrightarrow> (if ks = pbits p then i = \<lparr>distance = d, d_access_list = al\<rparr> else has_entry t ks i))"
proof -
  have "distance_put p d al t = Option.bind (route_node_get t p) (\<lambda>(a, t1).
      if info_at t1 a \<noteq> None
      then Option.bind (route_unlock_node a t1) (node_set_info a (Some \<lparr>distance = d, d_access_list = al\<rparr>))
      else node_set_info a (Some \<lparr>distance = d, d_access_list = al\<rparr>) t1)"
    unfolding distance_put_def distance_fill set_info_twice by (rule Option.bind_cong) (auto split: option.splits)
  then show ?thesis using client_store [OF assms, of "\<lambda>_. \<lparr>distance = d, d_access_list = al\<rparr>"] by auto
qed

lemma distance_remove_spec:
  assumes "idle t"
  shows "\<exists>r t'. Option.bind (route_node_lookup t p) (\<lambda>(rn, t1).
      case rn of None \<Rightarrow> Some (CMD_WARNING, t1) | Some a \<Rightarrow> map_option (Pair CMD_SUCCESS) (distance_drop a t1)) = Some (r, t') \<and>
    idle t' \<and> (r = CMD_SUCCESS \<longleftrightarrow> (\<exists>i. has_entry t (pbits p) i)) \<and>
    (\<forall>ks i. has_entry t' ks i \<longleftrightarrow> ks \<noteq> pbits p \<and> has_entry t ks i)"
proof -
  obtain b t' where c: "Option.bind (route_node_lookup t p) (\<lambda>(r, t1).
      case r of
        None \<Rightarrow> Some (False, t1)
      | Some a \<Rightarrow> Option.bind (node_set_info a None t1) (\<lambda>t2. Option.bind (route_unlock_node a t2)
          (\<lambda>t3. map_option (Pair True) (route_unlock_node a t3)))) = Some (b, t')"
    "idle t'" "b \<longleftrightarrow> (\<exists>i. has_entry t (pbits p) i)"
    "\<forall>ks i. has_entry t' ks i \<longleftrightarrow> ks \<noteq> pbits p \<and> has_entry t ks i"
    using client_remove [OF assms, of p] by blast
  have "Option.bind (route_node_lookup t p) (\<lambda>(rn, t1).
      case rn of None \<Rightarrow> Some (CMD_WARNING, t1) | Some a \<Rightarrow> map_option (Pair CMD_SUCCESS) (distance_drop a t1)) =
    Some (if b then CMD_SUCCESS else CMD_WARNING, t')"
  proof (cases "route_node_lookup t p")
    case (Some rt)
    then show ?thesis using c(1)
      by (cases rt; cases "fst rt") (auto simp: distance_drop_def bind_eq_Some_conv)
  qed (use c(1) in simp)
  then show ?thesis using c(2-4) by (intro exI [of _ "if b then CMD_SUCCESS else CMD_WARNING"] exI [of _ t']) auto
qed

lemma reset_loop_spec:
  assumes "rt.clearing t a"
  shows "\<exists>t'. reset_loop (Some a) t = Some t' \<and> rt_mem t' = Map.empty"
  using assms
proof (induction "rt.todo t a" arbitrary: t a rule: less_induct)
  case less
  obtain r t2 where st: "Option.bind (if info_at t a \<noteq> None then Option.bind (node_set_info a None t) (route_unlock_node a) else Some t)
      (route_next a) = Some (r, t2)"
    "case r of None \<Rightarrow> table_inv t2 \<and> (\<forall>x. key_at t2 x = None) | Some c \<Rightarrow> rt.clearing t2 c \<and> rt.todo t2 c < rt.todo t a"
    using rt.clear_step [OF less.prems] by blast
  have eq: "reset_loop (Some a) t = reset_loop r t2"
    using st(1) by (auto simp: reset_loop.simps [of "Some a"] bind_eq_Some_conv)
  show ?case
  proof (cases r)
    case None
    then have "rt_mem t2 = Map.empty" using st(2) by (auto simp: key_at_def)
    then show ?thesis using eq None by (simp add: reset_loop.simps [of None])
  next
    case (Some c)
    then show ?thesis using eq st(2) less.hyps [of t2 c] by simp
  qed
qed

lemma reset_spec:
  assumes "idle t"
  shows "\<exists>t'. Option.bind (route_top t) (\<lambda>(r, t1). reset_loop r t1) = Some t' \<and> rt_mem t' = Map.empty"
proof -
  obtain r t1 where st: "route_top t = Some (r, t1)"
    "case r of None \<Rightarrow> table_inv t1 \<and> (\<forall>x. key_at t1 x = None) | Some a \<Rightarrow> rt.clearing t1 a"
    using client_clear_start [OF assms] by blast
  show ?thesis
  proof (cases r)
    case None
    then have "rt_mem t1 = Map.empty" using st(2) by (auto simp: key_at_def)
    then show ?thesis using st(1) None by (simp add: reset_loop.simps [of None])
  next
    case (Some a)
    then show ?thesis using st reset_loop_spec [of t1 a] by simp
  qed
qed

subsection \<open>Applying an entry\<close>

definition longest_entry :: "'i route_table \<Rightarrow> prefix_t \<Rightarrow> 'i option \<Rightarrow> bool" where
  "longest_entry t p r \<longleftrightarrow>
     (case r of
        None \<Rightarrow> \<not> (\<exists>ks i. has_entry t ks i \<and> prefix ks (pbits p))
      | Some i \<Rightarrow> \<exists>ks. has_entry t ks i \<and> prefix ks (pbits p) \<and>
          (\<forall>ks' i'. has_entry t ks' i' \<longrightarrow> prefix ks' (pbits p) \<longrightarrow> length ks' \<le> length ks))"

lemma filters_apply_total:
  assumes "prefixlen p \<le> 32"
  shows "\<exists>v. filters_apply fs p = Some v"
proof (induction fs)
  case (Cons f fs)
  have "\<exists>b. filter_match_cisco c p = Some b" for c
    using assms by (auto simp: filter_match_cisco_def masklen2ip_def Let_def)
  then show ?case using Cons by (auto split: filter_u.splits option.splits bool.splits) (metis option.distinct(1))
qed simp

lemma access_list_apply_total: "prefixlen p \<le> 32 \<Longrightarrow> \<exists>v. access_list_apply (Some al) p = Some v"
  by (simp add: access_list_apply_def filters_apply_total)

text \<open>What RIP and BGP make of the entry they found.\<close>

definition rip_value :: "u8 \<Rightarrow> access_state \<Rightarrow> prefix_t \<Rightarrow> distance_t option \<Rightarrow> u8" where
  "rip_value dflt s rp r =
     (case r of
        None \<Rightarrow> dflt
      | Some rd \<Rightarrow>
          (case d_access_list rd of
             None \<Rightarrow> distance rd
           | Some nm \<Rightarrow>
               (case lists_of s AFI_IP nm of
                  None \<Rightarrow> 0
                | Some al \<Rightarrow> if access_list_apply (Some al) rp = Some FILTER_DENY then 0 else distance rd)))"

definition source_value :: "nat \<Rightarrow> access_state \<Rightarrow> prefix_t \<Rightarrow> distance_t option \<Rightarrow> u8 option" where
  "source_value afi s p r =
     (case r of
        None \<Rightarrow> None
      | Some rd \<Rightarrow>
          (case d_access_list rd of
             None \<Rightarrow> Some (distance rd)
           | Some nm \<Rightarrow>
               (case lists_of s afi nm of
                  None \<Rightarrow> None
                | Some al \<Rightarrow> if access_list_apply (Some al) p = Some FILTER_PERMIT then Some (distance rd) else None)))"

definition bgp_value :: "bgp_conf \<Rightarrow> bgp_peer_sort \<Rightarrow> u8 option \<Rightarrow> bool option \<Rightarrow> u8" where
  "bgp_value b st src net =
     (case src of
        Some d \<Rightarrow> d
      | None \<Rightarrow>
          if net = Some True then if distance_local b \<noteq> 0 then distance_local b else 200
          else if st = BGP_PEER_EBGP then if distance_ebgp b \<noteq> 0 then distance_ebgp b else 20
          else if distance_ibgp b \<noteq> 0 then distance_ibgp b else 200)"

lemma list_verdict:
  assumes "state_wf s" "prefixlen p \<le> 32"
  shows "(case access_list_lookup afi (Some nm) s of
      None \<Rightarrow> A
    | Some r \<Rightarrow> Option.bind (access_list_apply (Some (access_at s r)) p) B) =
    (case lists_of s afi nm of None \<Rightarrow> A | Some al \<Rightarrow> B (the (access_list_apply (Some al) p)))"
proof (cases "access_list_lookup afi (Some nm) s")
  case None
  then show ?thesis using access_list_lookup_spec [OF assms(1), of afi nm] by simp
next
  case (Some r)
  then have "lists_of s afi nm = Some (access_at s r)" using access_list_lookup_spec [OF assms(1), of afi nm] by simp
  moreover obtain v where "access_list_apply (Some (access_at s r)) p = Some v"
    using access_list_apply_total [OF assms(2)] by blast
  ultimately show ?thesis using Some by simp
qed

lemma verdict_iff: "prefixlen p \<le> 32 \<Longrightarrow> the (access_list_apply (Some al) p) = v \<longleftrightarrow> access_list_apply (Some al) p = Some v"
  using access_list_apply_total [of p al] by auto

lemma rip_distance_apply_spec:
  assumes t: "idle t" and s: "state_wf s" and p: "prefixlen rp \<le> 32" "length from = 4"
  shows "\<exists>t' r. rip_distance_apply (Some dflt) s from rp t = Some (rip_value dflt s rp r, t') \<and> idle t' \<and>
    (\<forall>ks i. has_entry t' ks i \<longleftrightarrow> has_entry t ks i) \<and>
    longest_entry t (prefix_new\<lparr>family := AF_INET, p_u := from @ replicate 12 0, prefixlen := IPV4_MAX_BITLEN\<rparr>) r"
proof -
  let ?q = "prefix_new\<lparr>family := AF_INET, p_u := from @ replicate 12 0, prefixlen := IPV4_MAX_BITLEN\<rparr>"
  let ?K = "\<lambda>r t2. (case r of
      None \<Rightarrow> Some (if dflt \<noteq> 0 then dflt else 0, t2)
    | Some rd \<Rightarrow>
        if d_access_list rd \<noteq> None then
          (case access_list_lookup AFI_IP (d_access_list rd) s of
             None \<Rightarrow> Some (0, t2)
           | Some alist \<Rightarrow>
               Option.bind (access_list_apply (Some (access_at s alist)) rp) (\<lambda>f.
               if f = FILTER_DENY then Some (0, t2) else Some (distance rd, t2)))
        else Some (distance rd, t2))"
  obtain r t' where f: "idle t'" "\<forall>ks i. has_entry t' ks i \<longleftrightarrow> has_entry t ks i" "longest_entry t ?q r"
    "\<forall>K. Option.bind (route_node_match t ?q) (\<lambda>(r, t1).
      case r of
        None \<Rightarrow> K None t1
      | Some a \<Rightarrow> Option.bind (info_at t1 a) (\<lambda>i. Option.bind (route_unlock_node a t1) (K (Some i)))) = (K r t' :: (u8 \<times> distance_t route_table) option)"
    using client_find [OF t, of ?q] unfolding longest_entry_def by blast
  have val: "?K r t' = Some (rip_value dflt s rp r, t')"
    by (cases r; cases "d_access_list (the r)")
      (simp_all add: rip_value_def list_verdict [OF s p(1)] verdict_iff [OF p(1)] split: option.split)
  have "rip_distance_apply (Some dflt) s from rp t = Some (rip_value dflt s rp r, t')"
    unfolding rip_distance_apply_def option.case
    by (rule trans [OF f(4) [rule_format, of ?K, unfolded option.case] val])
  then show ?thesis using f(1-3) by blast
qed

lemma distance_by_source_spec:
  assumes t: "idle t" and s: "state_wf s" and p: "prefixlen p \<le> 32"
  shows "\<exists>t' r. distance_by_source afi s p q t = Some (source_value afi s p r, t') \<and> idle t' \<and>
    (\<forall>ks i. has_entry t' ks i \<longleftrightarrow> has_entry t ks i) \<and> longest_entry t q r"
proof -
  let ?K = "\<lambda>r t2. (case r of
      None \<Rightarrow> Some (None, t2)
    | Some rd \<Rightarrow>
        if d_access_list rd \<noteq> None then
          (case access_list_lookup afi (d_access_list rd) s of
             None \<Rightarrow> Some (None, t2)
           | Some alist \<Rightarrow>
               Option.bind (access_list_apply (Some (access_at s alist)) p) (\<lambda>f.
               Some (if f = FILTER_PERMIT then Some (distance rd) else None, t2)))
        else Some (Some (distance rd), t2))"
  obtain r t' where f: "idle t'" "\<forall>ks i. has_entry t' ks i \<longleftrightarrow> has_entry t ks i" "longest_entry t q r"
    "\<forall>K. Option.bind (route_node_match t q) (\<lambda>(r, t1).
      case r of
        None \<Rightarrow> K None t1
      | Some a \<Rightarrow> Option.bind (info_at t1 a) (\<lambda>i. Option.bind (route_unlock_node a t1) (K (Some i)))) = (K r t' :: (u8 option \<times> distance_t route_table) option)"
    using client_find [OF t, of q] unfolding longest_entry_def by blast
  have val: "?K r t' = Some (source_value afi s p r, t')"
    by (cases r; cases "d_access_list (the r)")
      (simp_all add: source_value_def list_verdict [OF s p] verdict_iff [OF p] split: option.split)
  have "distance_by_source afi s p q t = Some (source_value afi s p r, t')"
    unfolding distance_by_source_def bgp_node_match_def bgp_unlock_node_def
    by (rule trans [OF f(4) [rule_format, of ?K, unfolded option.case] val])
  then show ?thesis using f(1-3) by blast
qed

lemma backdoor_distance_spec:
  assumes t: "idle t"
  shows "\<exists>t' r. backdoor_distance dl p t = Some (if r = Some True then Some (if dl \<noteq> 0 then dl else 200) else None, t') \<and> idle t' \<and>
    (\<forall>ks i. has_entry t' ks i \<longleftrightarrow> has_entry t ks i) \<and>
    (case r of None \<Rightarrow> \<not> (\<exists>i. has_entry t (pbits p) i) | Some i \<Rightarrow> has_entry t (pbits p) i)"
proof -
  let ?K = "\<lambda>r t2. Some (if r = Some True then Some (if dl \<noteq> 0 then dl else 200) else None, t2)"
  obtain r t' where f: "idle t'" "\<forall>ks i. has_entry t' ks i \<longleftrightarrow> has_entry t ks i"
    "case r of None \<Rightarrow> \<not> (\<exists>i. has_entry t (pbits p) i) | Some i \<Rightarrow> has_entry t (pbits p) i"
    "\<forall>K. Option.bind (route_node_lookup t p) (\<lambda>(r, t1).
      case r of
        None \<Rightarrow> K None t1
      | Some a \<Rightarrow> Option.bind (info_at t1 a) (\<lambda>i. Option.bind (route_unlock_node a t1) (K (Some i)))) = (K r t' :: (u8 option \<times> bool route_table) option)"
    using client_check [OF t, of p] by blast
  have "backdoor_distance dl p t = Option.bind (route_node_lookup t p) (\<lambda>(r, t1).
      case r of
        None \<Rightarrow> ?K None t1
      | Some a \<Rightarrow> Option.bind (info_at t1 a) (\<lambda>i. Option.bind (route_unlock_node a t1) (?K (Some i))))"
    unfolding backdoor_distance_def bgp_node_lookup_def bgp_unlock_node_def map_conv_bind_option
    by (intro Option.bind_cong refl) (auto split: option.splits intro!: Option.bind_cong)
  then show ?thesis using f(1-3) f(4) [rule_format, of ?K] by (intro exI [of _ t'] exI [of _ r]) simp
qed

lemma bgp_distance_unset_mismatch:
  assumes t: "idle t" and parse: "str2prefix inet_aton inet_pton sscanf_eth str p0 = (1, p)"
    and e: "key_at t a = Some (pbits p)" "info_at t a = Some rd" "distance rd \<noteq> of_int (atoi d)"
  shows "\<exists>t'. bgp_distance_unset inet_aton inet_pton sscanf_eth p0 d str al t = Some (CMD_WARNING, t') \<and>
    lock_at t' a = 2 \<and> key_at t' = key_at t \<and> info_at t' = info_at t"
proof -
  have inv: "table_inv t" using t by (simp add: idle_def)
  obtain r t' where l: "route_node_lookup t p = Some (r, t')" "key_at t' = key_at t" "info_at t' = info_at t"
    "\<forall>x. lock_at t' x = lock_at t x + (if Some x = r then 1 else 0)"
    "case r of None \<Rightarrow> \<not> (\<exists>a. is_route t (pbits p) a) | Some a \<Rightarrow> is_route t (pbits p) a"
    using lookup_view [OF inv, of p] by blast
  have "is_route t (pbits p) a" using e by (simp add: is_route_at)
  then have "r = Some a" using l(5) key_at_inj [OF inv] e(1) by (cases r) (auto simp: is_route_at)
  moreover have "lock_at t a = 1" using t e(2) by (simp add: idle_def)
  ultimately show ?thesis using l parse e
    by (simp add: bgp_distance_unset_def bgp_node_lookup_def Let_def)
qed

lemma longest_entry_init: "longest_entry route_table_init q r \<longleftrightarrow> r = None"
  by (simp add: longest_entry_def no_entry_init split: option.split)

section \<open>Properties\<close>

text \<open>\<^verbatim>\<open>distance <1-255> A.B.C.D/M [WORD]\<close> of RIP sets the entry of the prefix and leaves the others as
  they were; a malformed prefix changes nothing.  The table stays one in which every entry is worth one
  reference.\<close>

theorem rip_distance_set_refines:
  assumes "idle t" "\<forall>s a. inet_aton s = Some a \<longrightarrow> length a = 4" "length (p_u p0) = 16"
    "str2prefix_ipv4 inet_aton ip_str p0 = (ret, p)"
  shows "\<exists>t'. rip_distance_set inet_aton p0 distance_str ip_str al t = Some (if ret = 0 then CMD_WARNING else CMD_SUCCESS, t') \<and>
    idle t' \<and> (\<forall>ks i. has_entry t' ks i \<longleftrightarrow>
      (if ret \<noteq> 0 \<and> ks = pbits p then i = \<lparr>distance = of_int (atoi distance_str), d_access_list = al\<rparr> else has_entry t ks i))"
proof (cases "ret = 0")
  case False
  have "wf_prefix p" using str2prefix_ipv4_wf(2) [of inet_aton p0 ip_str ret p] assms(2-4) False by blast
  then show ?thesis using distance_put_spec [OF assms(1), of p "of_int (atoi distance_str)" al] assms(4) False
    by (auto simp: rip_distance_set_def)
qed (use assms in \<open>simp add: rip_distance_set_def\<close>)

definition aton_example :: "string \<Rightarrow> in_addr option" where
  "aton_example s = (if s = ''10.0.0.0'' then Some [10, 0, 0, 0] else None)"

lemma aton_example_length: "\<forall>s a. aton_example s = Some a \<longrightarrow> length a = 4"
  by (auto simp: aton_example_def split: if_splits)

lemma aton_example_parse:
  "str2prefix_ipv4 aton_example ''10.0.0.0/8'' prefix_new =
     (1, prefix_new\<lparr>family := AF_INET, prefixlen := 8, p_u := [10, 0, 0, 0] @ replicate 12 0\<rparr>)"
  by code_simp

theorem rip_distance_set_refines_witness:
  "\<exists>t'. rip_distance_set aton_example prefix_new ''100'' ''10.0.0.0/8'' None route_table_init = Some (CMD_SUCCESS, t') \<and>
     has_entry t' [False, False, False, False, True, False, True, False] \<lparr>distance = 100, d_access_list = None\<rparr>"
proof -
  have "pbits (prefix_new\<lparr>family := AF_INET, prefixlen := 8, p_u := [10, 0, 0, 0] @ replicate 12 0\<rparr>) =
    [False, False, False, False, True, False, True, False]" by code_simp
  moreover have "of_int (atoi ''100'') = (100 :: u8)" by code_simp
  moreover have "length (p_u prefix_new) = 16" by (simp add: prefix_new_def)
  ultimately show ?thesis
    using rip_distance_set_refines [OF idle_init aton_example_length _ aton_example_parse, of "''100''" None] by auto
qed

text \<open>\<^verbatim>\<open>no distance\<close> of RIP removes exactly the entry of the prefix, and warns when there is none.\<close>

theorem rip_distance_unset_refines:
  assumes "idle t" "str2prefix_ipv4 inet_aton ip_str p0 = (ret, p)"
  shows "\<exists>r t'. rip_distance_unset inet_aton p0 distance_str ip_str al t = Some (r, t') \<and> idle t' \<and>
    (r = CMD_SUCCESS \<longleftrightarrow> ret \<noteq> 0 \<and> (\<exists>i. has_entry t (pbits p) i)) \<and>
    (\<forall>ks i. has_entry t' ks i \<longleftrightarrow> \<not> (ret \<noteq> 0 \<and> ks = pbits p) \<and> has_entry t ks i)"
proof (cases "ret = 0")
  case False
  then show ?thesis using distance_remove_spec [OF assms(1), of p] assms(2) by (auto simp: rip_distance_unset_def)
qed (use assms in \<open>simp add: rip_distance_unset_def\<close>)

theorem rip_distance_unset_refines_witness:
  "\<exists>t'. rip_distance_unset aton_example prefix_new ''100'' ''10.0.0.0/8'' None route_table_init = Some (CMD_WARNING, t')"
proof -
  obtain r t' where r: "rip_distance_unset aton_example prefix_new ''100'' ''10.0.0.0/8'' None route_table_init = Some (r, t')"
    "r = CMD_SUCCESS \<longleftrightarrow> False"
    using rip_distance_unset_refines [OF idle_init aton_example_parse, of "''100''" None] by (auto simp: no_entry_init)
  then show ?thesis by (cases r) auto
qed

text \<open>\<^verbatim>\<open>rip_distance_reset\<close>, which drops entries and nodes while it walks the table, comes to an end and
  leaves no node behind.\<close>

theorem rip_distance_reset_frees_all:
  assumes "idle t"
  shows "\<exists>t'. rip_distance_reset t = Some t' \<and> rt_mem t' = Map.empty"
  unfolding rip_distance_reset_def by (rule reset_spec [OF assms])

theorem rip_distance_reset_frees_all_witness: "\<exists>t'. rip_distance_reset route_table_init = Some t' \<and> rt_mem t' = Map.empty"
  by (rule rip_distance_reset_frees_all [OF idle_init])

text \<open>C26: the distance of a RIP route is that of the longest configured prefix that covers the neighbour, zero
  when the access list of this entry is missing or denies the route, and the default of the instance when no
  prefix covers the neighbour.\<close>

theorem rip_distance_apply_longest:
  assumes "idle t" "state_wf s" "prefixlen rp \<le> 32" "length from = 4"
  shows "\<exists>t' r. rip_distance_apply (Some dflt) s from rp t = Some (rip_value dflt s rp r, t') \<and> idle t' \<and>
    (\<forall>ks i. has_entry t' ks i \<longleftrightarrow> has_entry t ks i) \<and>
    longest_entry t (prefix_new\<lparr>family := AF_INET, p_u := from @ replicate 12 0, prefixlen := IPV4_MAX_BITLEN\<rparr>) r"
  using assms by (rule rip_distance_apply_spec)

lemma access_init_wf: "state_wf \<lparr>access_master_ipv4 = access_master_init, access_master_ipv6 = access_master_init\<rparr>"
  by (simp add: state_wf_def master_wf_def access_master_init_def)

lemma example_distance:
  "\<exists>t. distance_put (prefix_new\<lparr>family := AF_INET, p_u := 10 # replicate 15 0, prefixlen := 8\<rparr>) 100 None route_table_init = Some t \<and> idle t \<and>
    (\<forall>ks i. has_entry t ks i \<longleftrightarrow> ks = pbits (prefix_new\<lparr>family := AF_INET, p_u := 10 # replicate 15 0, prefixlen := 8\<rparr>) \<and>
      i = \<lparr>distance = 100, d_access_list = None\<rparr>)"
proof -
  have "wf_prefix (prefix_new\<lparr>family := AF_INET, p_u := 10 # replicate 15 0, prefixlen := 8\<rparr>)" by (simp add: wf_prefix_def family_bits_def prefix_new_def)
  from distance_put_spec [OF idle_init this, of 100 None] show ?thesis by (elim ex_forward conj_forward) (simp_all add: no_entry_init)
qed

theorem rip_distance_apply_longest_witness:
  "\<exists>t t1 t2. distance_put (prefix_new\<lparr>family := AF_INET, p_u := 10 # replicate 15 0, prefixlen := 8\<rparr>) 100 None route_table_init = Some t \<and>
     rip_distance_apply (Some 120) \<lparr>access_master_ipv4 = access_master_init, access_master_ipv6 = access_master_init\<rparr> [10, 0, 0, 1] prefix_new t = Some (100, t1) \<and>
     rip_distance_apply (Some 120) \<lparr>access_master_ipv4 = access_master_init, access_master_ipv6 = access_master_init\<rparr> [11, 0, 0, 1] prefix_new t = Some (120, t2)"
proof -
  let ?p = "prefix_new\<lparr>family := AF_INET, p_u := 10 # replicate 15 0, prefixlen := 8\<rparr>" and ?s = "\<lparr>access_master_ipv4 = access_master_init, access_master_ipv6 = access_master_init\<rparr>"
  let ?q = "\<lambda>from. prefix_new\<lparr>family := AF_INET, p_u := from @ replicate 12 0, prefixlen := IPV4_MAX_BITLEN\<rparr>"
  obtain t where t: "distance_put ?p 100 None route_table_init = Some t" "idle t"
    "\<forall>ks i. has_entry t ks i \<longleftrightarrow> ks = pbits ?p \<and> i = \<lparr>distance = 100, d_access_list = None\<rparr>" using example_distance by blast
  have "prefix (pbits ?p) (pbits (?q [10, 0, 0, 1]))" "\<not> prefix (pbits ?p) (pbits (?q [11, 0, 0, 1]))" by code_simp+
  then have l: "longest_entry t (?q [10, 0, 0, 1]) r \<longleftrightarrow> r = Some \<lparr>distance = 100, d_access_list = None\<rparr>"
    "longest_entry t (?q [11, 0, 0, 1]) r \<longleftrightarrow> r = None" for r by (auto simp: longest_entry_def t(3) split: option.splits)
  show ?thesis
    using t(1) rip_distance_apply_longest [OF t(2) access_init_wf, of prefix_new "[10, 0, 0, 1]" 120] rip_distance_apply_longest [OF t(2) access_init_wf, of prefix_new "[11, 0, 0, 1]" 120]
    unfolding l by (auto simp: rip_value_def prefix_new_def)
qed

text \<open>The distance commands of OSPF for IPv6 set and remove exactly the entry of their prefix.\<close>

theorem ospf6_distance_commands:
  assumes "idle t" "\<forall>s a. inet_pton s = Some a \<longrightarrow> length a = 16" "length (p_u p0) = 16"
    "str2prefix_ipv6 inet_pton ip_str p0 = (1, p)"
  shows "\<exists>t1 t2. ospf6_distance_set inet_pton p0 distance_str ip_str al t = Some (CMD_SUCCESS, t1) \<and>
    (\<forall>ks i. has_entry t1 ks i \<longleftrightarrow>
      (if ks = pbits p then i = \<lparr>distance = of_int (atoi distance_str), d_access_list = al\<rparr> else has_entry t ks i)) \<and>
    ospf6_distance_unset inet_pton p0 ip_str al t1 = Some (CMD_SUCCESS, t2) \<and>
    (\<forall>ks i. has_entry t2 ks i \<longleftrightarrow> ks \<noteq> pbits p \<and> has_entry t ks i) \<and> idle t1 \<and> idle t2"
proof -
  have "wf_prefix p" using str2prefix_ipv6_wf(2) [of inet_pton p0 ip_str 1 p] assms(2-4) by fastforce
  from distance_put_spec [OF assms(1) this, of "of_int (atoi distance_str)" al] obtain t1 where
    t1: "distance_put p (of_int (atoi distance_str)) al t = Some t1" "idle t1" 
      "\<forall>ks i. has_entry t1 ks i \<longleftrightarrow> (if ks = pbits p then i = \<lparr>distance = of_int (atoi distance_str), d_access_list = al\<rparr> else has_entry t ks i)"
    by blast
  from distance_remove_spec [OF t1(2), of p] t1(3) assms(4) obtain t2 where
    "ospf6_distance_unset inet_pton p0 ip_str al t1 = Some (CMD_SUCCESS, t2)" "idle t2"
    "\<forall>ks i. has_entry t2 ks i \<longleftrightarrow> ks \<noteq> pbits p \<and> has_entry t1 ks i" by (auto simp: ospf6_distance_unset_def)
  then show ?thesis using t1 assms(4) by (intro exI [of _ t1] exI [of _ t2]) (auto simp: ospf6_distance_set_def)
qed

theorem ospf6_distance_commands_witness:
  "\<exists>t1. ospf6_distance_set (\<lambda>s. Some (replicate 16 0)) prefix_new ''9'' ''::/0'' None route_table_init = Some (CMD_SUCCESS, t1) \<and>
     has_entry t1 [] \<lparr>distance = 9, d_access_list = None\<rparr>"
proof -
  have "str2prefix_ipv6 (\<lambda>s. Some (replicate 16 0)) ''::/0'' prefix_new = (1, prefix_new\<lparr>family := AF_INET6\<rparr>)" by code_simp
  moreover have "of_int (atoi ''9'') = (9 :: u8)" by code_simp
  moreover have "pbits (prefix_new\<lparr>family := AF_INET6\<rparr>) = []" by code_simp
  ultimately show ?thesis
    using ospf6_distance_commands [OF idle_init, of "\<lambda>s. Some (replicate 16 0)" prefix_new "''::/0''" "prefix_new\<lparr>family := AF_INET6\<rparr>" "''9''" None]
    by (auto simp: prefix_new_def)
qed

text \<open>C27: \<^verbatim>\<open>no distance\<close> of BGP with a value other than the configured one leaves the table with a reference
  to the node that nothing will give back: the warning path returns without \<^verbatim>\<open>bgp_unlock_node\<close>.\<close>

theorem bgp_distance_unset_leaks:
  assumes "idle t" "str2prefix inet_aton inet_pton sscanf_eth str p0 = (1, p)"
    "key_at t a = Some (pbits p)" "info_at t a = Some rd" "distance rd \<noteq> of_int (atoi d)"
  shows "\<exists>t'. bgp_distance_unset inet_aton inet_pton sscanf_eth p0 d str al t = Some (CMD_WARNING, t') \<and>
    lock_at t' a = 2 \<and> \<not> idle t'"
proof -
  obtain t' where "bgp_distance_unset inet_aton inet_pton sscanf_eth p0 d str al t = Some (CMD_WARNING, t')"
    "lock_at t' a = 2" "info_at t' = info_at t" using bgp_distance_unset_mismatch [OF assms, of al] by blast
  moreover from this(2,3) assms(4) have "\<not> idle t'" unfolding idle_def by (metis numeral_eq_one_iff option.distinct(1) semiring_norm(85))
  ultimately show ?thesis by blast
qed

theorem bgp_distance_unset_leaks_witness:
  "\<exists>t a t'. idle t \<and> info_at t a = Some \<lparr>distance = 100, d_access_list = None\<rparr> \<and>
     bgp_distance_unset aton_example (\<lambda>s. None) (\<lambda>s. None) prefix_new ''90'' ''10.0.0.0/8'' None t = Some (CMD_WARNING, t') \<and> \<not> idle t'"
proof -
  let ?p = "prefix_new\<lparr>family := AF_INET, prefixlen := 8, p_u := [10, 0, 0, 0] @ replicate 12 0\<rparr>"
  have parse: "str2prefix aton_example (\<lambda>s. None) (\<lambda>s. None) ''10.0.0.0/8'' prefix_new = (1, ?p)"
    unfolding str2prefix_def aton_example_parse by simp
  have "wf_prefix ?p" by code_simp
  from distance_put_spec [OF idle_init this, of 100 None] obtain t where
    t: "idle t" "has_entry t (pbits ?p) \<lparr>distance = 100, d_access_list = None\<rparr>" by auto
  then obtain a where a: "key_at t a = Some (pbits ?p)" "info_at t a = Some \<lparr>distance = 100, d_access_list = None\<rparr>"
    unfolding has_entry_def by blast
  have "distance \<lparr>distance = 100, d_access_list = None\<rparr> \<noteq> of_int (atoi ''90'')" by code_simp
  from bgp_distance_unset_leaks [OF t(1) parse a this, of None] show ?thesis using t(1) a(2) by blast
qed

text \<open>The distance of an IPv4 route of BGP: that of the longest configured prefix that covers the peer, unless its
  access list does not permit the route; otherwise the distance of local routes for a backdoor network, and then
  that of the kind of peer.  Both tables keep their entries.\<close>

theorem bgp_distance_apply_result:
  assumes "idle t" "idle route" "state_wf s" "family p = AF_INET" "prefixlen p \<le> 32" "su_family peer = AF_INET"
    "length (su_addr peer) = 4"
  shows "\<exists>t' route' r net. bgp_distance_apply p peer (Some b) s t route =
      Some (bgp_value b (peer_sort_cache peer) (source_value AFI_IP s p r) net, t', route') \<and> idle t' \<and> idle route' \<and>
    (\<forall>ks i. has_entry t' ks i \<longleftrightarrow> has_entry t ks i) \<and> (\<forall>ks i. has_entry route' ks i \<longleftrightarrow> has_entry route ks i) \<and>
    longest_entry t (prefix_new\<lparr>family := AF_INET, p_u := su_addr peer @ replicate 12 0, prefixlen := IPV4_MAX_BITLEN\<rparr>) r \<and>
    (case net of None \<Rightarrow> \<not> (\<exists>i. has_entry route (pbits p) i) | Some i \<Rightarrow> has_entry route (pbits p) i)"
proof -
  let ?q = "prefix_new\<lparr>family := AF_INET, p_u := su_addr peer @ replicate 12 0, prefixlen := IPV4_MAX_BITLEN\<rparr>"
  obtain t' r where s: "distance_by_source AFI_IP s p ?q t = Some (source_value AFI_IP s p r, t')" "idle t'"
    "\<forall>ks i. has_entry t' ks i \<longleftrightarrow> has_entry t ks i" "longest_entry t ?q r"
    using distance_by_source_spec [OF assms(1,3,5), of AFI_IP ?q] by blast
  obtain r1 net where n: "backdoor_distance (distance_local b) p route =
      Some (if net = Some True then Some (if distance_local b \<noteq> 0 then distance_local b else 200) else None, r1)" "idle r1"
    "\<forall>ks i. has_entry r1 ks i \<longleftrightarrow> has_entry route ks i"
    "case net of None \<Rightarrow> \<not> (\<exists>i. has_entry route (pbits p) i) | Some i \<Rightarrow> has_entry route (pbits p) i"
    using backdoor_distance_spec [OF assms(2), of "distance_local b" p] by blast
  show ?thesis
  proof (cases "source_value AFI_IP s p r")
    case None
    then have "bgp_distance_apply p peer (Some b) s t route =
      Some (bgp_value b (peer_sort_cache peer) (source_value AFI_IP s p r) net, t', r1)"
      using s(1) n(1) assms(4,6) by (simp add: bgp_distance_apply_def bgp_value_def distance_by_sort_def)
    then show ?thesis using s(2-4) n(2-4) by blast
  next
    case (Some d)
    then have "bgp_distance_apply p peer (Some b) s t route =
      Some (bgp_value b (peer_sort_cache peer) (source_value AFI_IP s p r) net, t', route)"
      using s(1) assms(4,6) by (simp add: bgp_distance_apply_def bgp_value_def)
    then show ?thesis using s(2-4) n(4) assms(2) by blast
  qed
qed

theorem bgp_distance_apply_result_witness:
  "\<exists>t' r'. bgp_distance_apply (prefix_new\<lparr>family := AF_INET\<rparr>)
     \<lparr>peer_bgp = None, su_family = AF_INET, su_addr = [10, 0, 0, 1], peer_as = 2, peer_local_as = 1, peer_group = False,
      group_head = None, peer_sort_cache = BGP_PEER_EBGP\<rparr>
     (Some \<lparr>bgp_as = 1, bgp_confederation = False, confed_id = 0, confed_peers = [], distance_ebgp = 0, distance_ibgp = 0,
       distance_local = 0, ipv6_distance_ebgp = 0, ipv6_distance_ibgp = 0, ipv6_distance_local = 0\<rparr>)
     \<lparr>access_master_ipv4 = access_master_init, access_master_ipv6 = access_master_init\<rparr>
     route_table_init route_table_init = Some (20, t', r')"
proof -
  have net: "(case net of None \<Rightarrow> \<not> (\<exists>i. has_entry route_table_init ks i) | Some i \<Rightarrow> has_entry route_table_init ks i) \<longleftrightarrow> net = None"
    for net :: "bool option" and ks by (simp add: no_entry_init split: option.split)
  show ?thesis
    using bgp_distance_apply_result [OF idle_init idle_init access_init_wf, of "prefix_new\<lparr>family := AF_INET\<rparr>"
      "\<lparr>peer_bgp = None, su_family = AF_INET, su_addr = [10, 0, 0, 1], peer_as = 2, peer_local_as = 1, peer_group = False,
        group_head = None, peer_sort_cache = BGP_PEER_EBGP\<rparr>"
      "\<lparr>bgp_as = 1, bgp_confederation = False, confed_id = 0, confed_peers = [], distance_ebgp = 0, distance_ibgp = 0,
        distance_local = 0, ipv6_distance_ebgp = 0, ipv6_distance_ibgp = 0, ipv6_distance_local = 0\<rparr>"]
    unfolding longest_entry_init net by (simp add: prefix_new_def source_value_def bgp_value_def) blast
qed

end
