(* ===== verification/Stream_Buffer.thy ===== *)
theory Stream_Buffer
  imports Prefix
begin

text \<open>
  The packet buffer of \<^verbatim>\<open>lib/stream.c\<close>: a byte array with a read and a write position, and the queue of
  buffers.  \<open>None\<close> is a failed assertion (\<^verbatim>\<open>STREAM_VERIFY_SANE\<close>, \<^verbatim>\<open>STREAM_BOUND_WARN\<close>) or an access outside of
  the array.  Sums of positions are taken in \<^verbatim>\<open>size_t\<close> and wrap around at \<open>2 ^ 64\<close>.
\<close>

section \<open>Model\<close>

record stream_t =
  next_s :: "nat option"
  getp :: nat
  endp :: nat
  ssize :: nat
  sdata :: "u8 list"

definition size_add :: "nat \<Rightarrow> nat \<Rightarrow> nat" where
  "size_add a b = (a + b) mod 2 ^ 64"

definition GETP_VALID :: "stream_t \<Rightarrow> nat \<Rightarrow> bool" where
  "GETP_VALID s g \<longleftrightarrow> g \<le> endp s"

definition ENDP_VALID :: "stream_t \<Rightarrow> nat \<Rightarrow> bool" where
  "ENDP_VALID s e \<longleftrightarrow> e \<le> ssize s"

definition STREAM_VERIFY_SANE :: "stream_t \<Rightarrow> bool" where
  "STREAM_VERIFY_SANE s \<longleftrightarrow> GETP_VALID s (getp s) \<and> ENDP_VALID s (endp s)"

definition STREAM_WRITEABLE :: "stream_t \<Rightarrow> nat" where
  "STREAM_WRITEABLE s = ssize s - endp s"

definition STREAM_READABLE :: "stream_t \<Rightarrow> nat" where
  "STREAM_READABLE s = endp s - getp s"

text \<open>The deprecated \<^verbatim>\<open>CHECK_SIZE\<close> cuts a request to the room that is left.\<close>

definition CHECK_SIZE :: "stream_t \<Rightarrow> nat \<Rightarrow> nat" where
  "CHECK_SIZE s z = (if size_add (endp s) z > ssize s then (ssize s - endp s) else z)"

text \<open>Reading and writing a run of octets of the array.\<close>

definition peek :: "stream_t \<Rightarrow> nat \<Rightarrow> nat \<Rightarrow> u8 list option" where
  "peek s i n = (if i + n \<le> length (sdata s) then Some (take n (drop i (sdata s))) else None)"

definition poke :: "nat \<Rightarrow> u8 list \<Rightarrow> stream_t \<Rightarrow> stream_t option" where
  "poke i bs s =
     (if i + length bs \<le> length (sdata s)
      then Some (s\<lparr>sdata := take i (sdata s) @ bs @ drop (i + length bs) (sdata s)\<rparr>) else None)"

subsection \<open>Allocation and copies\<close>

text \<open>The contents of fresh memory are an argument; \<^verbatim>\<open>XMALLOC\<close> does not return without memory.\<close>

definition stream_new :: "u8 list \<Rightarrow> nat \<Rightarrow> stream_t option" where
  "stream_new fresh sz =
     (if sz > 0 then Some \<lparr>next_s = None, getp = 0, endp = 0, ssize = sz, sdata = take sz fresh\<rparr> else None)"

definition stream_copy :: "stream_t \<Rightarrow> stream_t \<Rightarrow> stream_t option" where
  "stream_copy new src =
     (if \<not> STREAM_VERIFY_SANE src then None
      else if \<not> ssize new \<ge> endp src then None
      else Option.bind (peek src 0 (endp src)) (\<lambda>bs. poke 0 bs (new\<lparr>endp := endp src, getp := getp src\<rparr>)))"

definition stream_dup :: "u8 list \<Rightarrow> stream_t \<Rightarrow> stream_t option" where
  "stream_dup fresh s =
     (if \<not> STREAM_VERIFY_SANE s then None
      else Option.bind (stream_new fresh (endp s)) (\<lambda>new. stream_copy new s))"

text \<open>The length of the last copy is a \<^verbatim>\<open>size_t\<close>, so an offset past the end of \<open>s1\<close> runs out of the array.\<close>

definition stream_dupcat :: "u8 list \<Rightarrow> stream_t \<Rightarrow> stream_t \<Rightarrow> nat \<Rightarrow> stream_t option" where
  "stream_dupcat fresh s1 s2 offset =
     (if \<not> STREAM_VERIFY_SANE s1 \<or> \<not> STREAM_VERIFY_SANE s2 then None
      else
        Option.bind (stream_new fresh (size_add (endp s1) (endp s2))) (\<lambda>new.
        Option.bind (peek s1 0 offset) (\<lambda>b1.
        Option.bind (poke 0 b1 new) (\<lambda>n1.
        Option.bind (peek s2 0 (endp s2)) (\<lambda>b2.
        Option.bind (poke offset b2 n1) (\<lambda>n2.
        if offset > endp s1 then None
        else
          Option.bind (peek s1 offset (endp s1 - offset)) (\<lambda>b3.
          map_option (\<lambda>n3. n3\<lparr>endp := size_add (endp s1) (endp s2)\<rparr>) (poke (offset + endp s2) b3 n2))))))))"

definition stream_resize :: "u8 list \<Rightarrow> nat \<Rightarrow> stream_t \<Rightarrow> (nat \<times> stream_t) option" where
  "stream_resize fresh newsize s =
     (if \<not> STREAM_VERIFY_SANE s then None
      else
        let s1 = s\<lparr>sdata := take newsize (sdata s @ fresh), ssize := newsize\<rparr>;
            s2 = (if endp s1 > ssize s1 then s1\<lparr>endp := ssize s1\<rparr> else s1);
            s3 = (if getp s2 > endp s2 then s2\<lparr>getp := endp s2\<rparr> else s2)
        in if STREAM_VERIFY_SANE s3 then Some (ssize s3, s3) else None)"

subsection \<open>Positions\<close>

definition stream_get_getp :: "stream_t \<Rightarrow> nat option" where
  "stream_get_getp s = (if STREAM_VERIFY_SANE s then Some (getp s) else None)"

definition stream_get_endp :: "stream_t \<Rightarrow> nat option" where
  "stream_get_endp s = (if STREAM_VERIFY_SANE s then Some (endp s) else None)"

definition stream_get_size :: "stream_t \<Rightarrow> nat option" where
  "stream_get_size s = (if STREAM_VERIFY_SANE s then Some (ssize s) else None)"

definition stream_set_getp :: "nat \<Rightarrow> stream_t \<Rightarrow> stream_t option" where
  "stream_set_getp pos s =
     (if \<not> STREAM_VERIFY_SANE s then None
      else if \<not> GETP_VALID s pos then None
      else Some (s\<lparr>getp := pos\<rparr>))"

definition stream_set_endp :: "nat \<Rightarrow> stream_t \<Rightarrow> stream_t option" where
  "stream_set_endp pos s =
     (if \<not> STREAM_VERIFY_SANE s then None
      else if \<not> ENDP_VALID s pos then None
      else if getp s > pos then None
      else let s1 = s\<lparr>endp := pos\<rparr> in if STREAM_VERIFY_SANE s1 then Some s1 else None)"

definition stream_forward_getp :: "nat \<Rightarrow> stream_t \<Rightarrow> stream_t option" where
  "stream_forward_getp sz s =
     (if \<not> STREAM_VERIFY_SANE s then None
      else if \<not> GETP_VALID s (size_add (getp s) sz) then None
      else Some (s\<lparr>getp := size_add (getp s) sz\<rparr>))"

definition stream_forward_endp :: "nat \<Rightarrow> stream_t \<Rightarrow> stream_t option" where
  "stream_forward_endp sz s =
     (if \<not> STREAM_VERIFY_SANE s then None
      else if \<not> ENDP_VALID s (size_add (endp s) sz) then None
      else Some (s\<lparr>endp := size_add (endp s) sz\<rparr>))"

subsection \<open>Reading\<close>

definition stream_get :: "nat \<Rightarrow> stream_t \<Rightarrow> (u8 list \<times> stream_t) option" where
  "stream_get sz s =
     (if \<not> STREAM_VERIFY_SANE s then None
      else if STREAM_READABLE s < sz then None
      else map_option (\<lambda>bs. (bs, s\<lparr>getp := getp s + sz\<rparr>)) (peek s (getp s) sz))"

text \<open>The values of two, four and eight octets, composed with shifts as the code does.\<close>

definition word_of_octets :: "u8 list \<Rightarrow> u16" where
  "word_of_octets bs = (push_bit 8 (ucast (bs ! 0)) OR ucast (bs ! 1))"

definition long_of_octets :: "u8 list \<Rightarrow> u32" where
  "long_of_octets bs =
     (push_bit 24 (ucast (bs ! 0)) OR push_bit 16 (ucast (bs ! 1)) OR push_bit 8 (ucast (bs ! 2)) OR ucast (bs ! 3))"

definition quad_of_octets :: "u8 list \<Rightarrow> u64" where
  "quad_of_octets bs =
     (push_bit 56 (ucast (bs ! 0)) OR push_bit 48 (ucast (bs ! 1)) OR push_bit 40 (ucast (bs ! 2)) OR
      push_bit 32 (ucast (bs ! 3)) OR push_bit 24 (ucast (bs ! 4)) OR push_bit 16 (ucast (bs ! 5)) OR
      push_bit 8 (ucast (bs ! 6)) OR ucast (bs ! 7))"

definition stream_getc :: "stream_t \<Rightarrow> (u8 \<times> stream_t) option" where
  "stream_getc s =
     (if \<not> STREAM_VERIFY_SANE s then None
      else if STREAM_READABLE s < 1 then None
      else map_option (\<lambda>bs. (bs ! 0, s\<lparr>getp := getp s + 1\<rparr>)) (peek s (getp s) 1))"

definition stream_getc_from :: "nat \<Rightarrow> stream_t \<Rightarrow> u8 option" where
  "stream_getc_from from s =
     (if \<not> STREAM_VERIFY_SANE s then None
      else if \<not> GETP_VALID s (size_add from 1) then None
      else map_option (\<lambda>bs. bs ! 0) (peek s from 1))"

definition stream_getw :: "stream_t \<Rightarrow> (u16 \<times> stream_t) option" where
  "stream_getw s =
     (if \<not> STREAM_VERIFY_SANE s then None
      else if STREAM_READABLE s < 2 then None
      else map_option (\<lambda>bs. (word_of_octets bs, s\<lparr>getp := getp s + 2\<rparr>)) (peek s (getp s) 2))"

definition stream_getw_from :: "nat \<Rightarrow> stream_t \<Rightarrow> u16 option" where
  "stream_getw_from from s =
     (if \<not> STREAM_VERIFY_SANE s then None
      else if \<not> GETP_VALID s (size_add from 2) then None
      else map_option word_of_octets (peek s from 2))"

definition stream_getl :: "stream_t \<Rightarrow> (u32 \<times> stream_t) option" where
  "stream_getl s =
     (if \<not> STREAM_VERIFY_SANE s then None
      else if STREAM_READABLE s < 4 then None
      else map_option (\<lambda>bs. (long_of_octets bs, s\<lparr>getp := getp s + 4\<rparr>)) (peek s (getp s) 4))"

definition stream_getl_from :: "nat \<Rightarrow> stream_t \<Rightarrow> u32 option" where
  "stream_getl_from from s =
     (if \<not> STREAM_VERIFY_SANE s then None
      else if \<not> GETP_VALID s (size_add from 4) then None
      else map_option long_of_octets (peek s from 4))"

definition stream_getq :: "stream_t \<Rightarrow> (u64 \<times> stream_t) option" where
  "stream_getq s =
     (if \<not> STREAM_VERIFY_SANE s then None
      else if STREAM_READABLE s < 8 then None
      else map_option (\<lambda>bs. (quad_of_octets bs, s\<lparr>getp := getp s + 8\<rparr>)) (peek s (getp s) 8))"

definition stream_getq_from :: "nat \<Rightarrow> stream_t \<Rightarrow> u64 option" where
  "stream_getq_from from s =
     (if \<not> STREAM_VERIFY_SANE s then None
      else if \<not> GETP_VALID s (size_add from 8) then None
      else map_option quad_of_octets (peek s from 8))"

text \<open>An address is its four octets in memory order.\<close>

definition stream_get_ipv4 :: "stream_t \<Rightarrow> (in_addr \<times> stream_t) option" where
  "stream_get_ipv4 s =
     (if \<not> STREAM_VERIFY_SANE s then None
      else if STREAM_READABLE s < 4 then None
      else map_option (\<lambda>bs. (bs, s\<lparr>getp := getp s + 4\<rparr>)) (peek s (getp s) 4))"

text \<open>A \<^verbatim>\<open>float\<close> or \<^verbatim>\<open>double\<close> is stood for by its representation as an integer.\<close>

definition stream_getf :: "stream_t \<Rightarrow> (u32 \<times> stream_t) option" where
  "stream_getf s = stream_getl s"

definition stream_getd :: "stream_t \<Rightarrow> (u64 \<times> stream_t) option" where
  "stream_getd s = stream_getq s"

subsection \<open>Writing\<close>

text \<open>The source of \<^verbatim>\<open>stream_put\<close> may be null, which writes zeros.\<close>

definition stream_put :: "u8 list option \<Rightarrow> nat \<Rightarrow> stream_t \<Rightarrow> stream_t option" where
  "stream_put src size0 s =
     (let sz = CHECK_SIZE s size0 in
      if \<not> STREAM_VERIFY_SANE s then None
      else if STREAM_WRITEABLE s < sz then None
      else
        Option.bind (case src of Some bs \<Rightarrow> if sz \<le> length bs then Some (take sz bs) else None
                                | None \<Rightarrow> Some (replicate sz 0)) (\<lambda>bs.
        map_option (\<lambda>s1. s1\<lparr>endp := endp s1 + sz\<rparr>) (poke (endp s) bs s)))"

text \<open>Octets at the write position, which moves on.\<close>

definition put_octets :: "u8 list \<Rightarrow> stream_t \<Rightarrow> (int \<times> stream_t) option" where
  "put_octets bs s =
     (if \<not> STREAM_VERIFY_SANE s then None
      else if STREAM_WRITEABLE s < length bs then None
      else map_option (\<lambda>s1. (int (length bs), s1\<lparr>endp := endp s1 + length bs\<rparr>)) (poke (endp s) bs s))"

definition stream_putc :: "u8 \<Rightarrow> stream_t \<Rightarrow> (int \<times> stream_t) option" where
  "stream_putc c s = put_octets [c] s"

definition stream_putw :: "u16 \<Rightarrow> stream_t \<Rightarrow> (int \<times> stream_t) option" where
  "stream_putw w s = put_octets [ucast (drop_bit 8 w), ucast w] s"

definition stream_putl :: "u32 \<Rightarrow> stream_t \<Rightarrow> (int \<times> stream_t) option" where
  "stream_putl l s =
     put_octets [ucast (drop_bit 24 l), ucast (drop_bit 16 l), ucast (drop_bit 8 l), ucast l] s"

definition stream_putq :: "u64 \<Rightarrow> stream_t \<Rightarrow> (int \<times> stream_t) option" where
  "stream_putq q s =
     put_octets [ucast (drop_bit 56 q), ucast (drop_bit 48 q), ucast (drop_bit 40 q), ucast (drop_bit 32 q),
       ucast (drop_bit 24 q), ucast (drop_bit 16 q), ucast (drop_bit 8 q), ucast q] s"

definition stream_putf :: "u32 \<Rightarrow> stream_t \<Rightarrow> (int \<times> stream_t) option" where
  "stream_putf f s = stream_putl f s"

definition stream_putd :: "u64 \<Rightarrow> stream_t \<Rightarrow> (int \<times> stream_t) option" where
  "stream_putd d s = stream_putq d s"

definition stream_put_ipv4 :: "in_addr \<Rightarrow> stream_t \<Rightarrow> (int \<times> stream_t) option" where
  "stream_put_ipv4 l s = put_octets (take 4 l) s"

definition stream_put_in_addr :: "in_addr \<Rightarrow> stream_t \<Rightarrow> (int \<times> stream_t) option" where
  "stream_put_in_addr addr s = put_octets (take 4 addr) s"

text \<open>Octets at a position that was written before.\<close>

definition put_octets_at :: "nat \<Rightarrow> u8 list \<Rightarrow> stream_t \<Rightarrow> (int \<times> stream_t) option" where
  "put_octets_at putp bs s =
     (if \<not> STREAM_VERIFY_SANE s then None
      else if \<not> GETP_VALID s (size_add putp (length bs)) then None
      else map_option (Pair (int (length bs))) (poke putp bs s))"

definition stream_putc_at :: "nat \<Rightarrow> u8 \<Rightarrow> stream_t \<Rightarrow> (int \<times> stream_t) option" where
  "stream_putc_at putp c s = put_octets_at putp [c] s"

definition stream_putw_at :: "nat \<Rightarrow> u16 \<Rightarrow> stream_t \<Rightarrow> (int \<times> stream_t) option" where
  "stream_putw_at putp w s = put_octets_at putp [ucast (drop_bit 8 w), ucast w] s"

definition stream_putl_at :: "nat \<Rightarrow> u32 \<Rightarrow> stream_t \<Rightarrow> (int \<times> stream_t) option" where
  "stream_putl_at putp l s =
     put_octets_at putp [ucast (drop_bit 24 l), ucast (drop_bit 16 l), ucast (drop_bit 8 l), ucast l] s"

definition stream_putq_at :: "nat \<Rightarrow> u64 \<Rightarrow> stream_t \<Rightarrow> (int \<times> stream_t) option" where
  "stream_putq_at putp q s =
     put_octets_at putp [ucast (drop_bit 56 q), ucast (drop_bit 48 q), ucast (drop_bit 40 q), ucast (drop_bit 32 q),
       ucast (drop_bit 24 q), ucast (drop_bit 16 q), ucast (drop_bit 8 q), ucast q] s"

definition PSIZE :: "nat \<Rightarrow> nat" where
  "PSIZE a = (a + 7) div 8"

text \<open>The result of \<^verbatim>\<open>stream_put_prefix\<close> does not count the length octet.\<close>

definition stream_put_prefix :: "prefix_t \<Rightarrow> stream_t \<Rightarrow> (int \<times> stream_t) option" where
  "stream_put_prefix p s =
     (let psize = PSIZE (prefixlen p) in
      if \<not> STREAM_VERIFY_SANE s then None
      else if STREAM_WRITEABLE s < psize + 1 then None
      else if psize > length (p_u p) then None
      else map_option (\<lambda>s1. (int psize, s1\<lparr>endp := endp s1 + 1 + psize\<rparr>))
             (poke (endp s) (of_nat (prefixlen p) # take psize (p_u p)) s))"

definition stream_write :: "u8 list \<Rightarrow> nat \<Rightarrow> stream_t \<Rightarrow> (nat \<times> stream_t) option" where
  "stream_write ptr size0 s =
     (let sz = CHECK_SIZE s size0 in
      if \<not> STREAM_VERIFY_SANE s then None
      else if STREAM_WRITEABLE s < sz then None
      else if sz > length ptr then None
      else map_option (\<lambda>s1. (sz, s1\<lparr>endp := endp s1 + sz\<rparr>)) (poke (endp s) (take sz ptr) s))"

subsection \<open>Input and output\<close>

text \<open>The answer of a system call: the octets it delivered, or an error that is transient or not.\<close>

datatype io_result = IO_octets "u8 list" | IO_error bool

text \<open>
  \<^verbatim>\<open>readn\<close> of \<^verbatim>\<open>lib/network.c\<close>, on the answers of the successive calls of \<^verbatim>\<open>read\<close>: the return value, and
  the octets it has stored, which on an error are more than what it reports.
\<close>

fun readn_loop :: "io_result list \<Rightarrow> nat \<Rightarrow> u8 list \<Rightarrow> int \<times> u8 list" where
  "readn_loop answers 0 got = (int (length got), got)"
| "readn_loop [] nleft got = (int (length got), got)"
| "readn_loop (IO_error _ # answers) nleft got = (-1, got)"
| "readn_loop (IO_octets bs # answers) nleft got =
     (if bs = [] then (int (length got), got) else readn_loop answers (nleft - length bs) (got @ bs))"

definition readn :: "io_result list \<Rightarrow> nat \<Rightarrow> int \<times> u8 list" where
  "readn answers nbytes = readn_loop answers nbytes []"

definition stream_read :: "io_result list \<Rightarrow> nat \<Rightarrow> stream_t \<Rightarrow> (int \<times> stream_t) option" where
  "stream_read answers sz s =
     (if \<not> STREAM_VERIFY_SANE s then None
      else if STREAM_WRITEABLE s < sz then None
      else
        let (nbytes, bs) = readn answers sz in
        map_option (\<lambda>s1. (nbytes, if nbytes > 0 then s1\<lparr>endp := endp s1 + nat nbytes\<rparr> else s1)) (poke (endp s) bs s))"

definition stream_read_try :: "io_result \<Rightarrow> nat \<Rightarrow> stream_t \<Rightarrow> (int \<times> stream_t) option" where
  "stream_read_try answer sz s =
     (if \<not> STREAM_VERIFY_SANE s then None
      else if STREAM_WRITEABLE s < sz then None
      else case answer of
             IO_octets bs \<Rightarrow> map_option (\<lambda>s1. (int (length bs), s1\<lparr>endp := endp s1 + length bs\<rparr>)) (poke (endp s) bs s)
           | IO_error retry \<Rightarrow> Some (if retry then -2 else -1, s))"

definition stream_recvfrom :: "io_result \<Rightarrow> nat \<Rightarrow> stream_t \<Rightarrow> (int \<times> stream_t) option" where
  "stream_recvfrom answer sz s =
     (if \<not> STREAM_VERIFY_SANE s then None
      else if STREAM_WRITEABLE s < sz then None
      else case answer of
             IO_octets bs \<Rightarrow> map_option (\<lambda>s1. (int (length bs), s1\<lparr>endp := endp s1 + length bs\<rparr>)) (poke (endp s) bs s)
           | IO_error retry \<Rightarrow> Some (if retry then -2 else -1, s))"

definition stream_recvmsg :: "nat \<Rightarrow> io_result \<Rightarrow> nat \<Rightarrow> stream_t \<Rightarrow> (int \<times> stream_t) option" where
  "stream_recvmsg msg_iovlen answer sz s =
     (if \<not> STREAM_VERIFY_SANE s then None
      else if \<not> msg_iovlen > 0 then None
      else if STREAM_WRITEABLE s < sz then None
      else case answer of
             IO_octets bs \<Rightarrow> map_option (\<lambda>s1. (int (length bs), s1\<lparr>endp := endp s1 + length bs\<rparr>)) (poke (endp s) bs s)
           | IO_error _ \<Rightarrow> Some (-1, s))"

text \<open>\<open>write\<close> is the system call, a function from the octets offered to its return value.\<close>

definition stream_flush :: "(u8 list \<Rightarrow> int) \<Rightarrow> stream_t \<Rightarrow> int option" where
  "stream_flush write s =
     (if \<not> STREAM_VERIFY_SANE s then None else map_option write (peek s (getp s) (endp s - getp s)))"

subsection \<open>The whole buffer\<close>

text \<open>\<^verbatim>\<open>stream_pnt\<close>: the place of the next octet to read.\<close>

definition stream_pnt :: "stream_t \<Rightarrow> nat option" where
  "stream_pnt s = (if STREAM_VERIFY_SANE s then Some (getp s) else None)"

definition stream_empty :: "stream_t \<Rightarrow> bool option" where
  "stream_empty s = (if STREAM_VERIFY_SANE s then Some (endp s = 0) else None)"

definition stream_reset :: "stream_t \<Rightarrow> stream_t option" where
  "stream_reset s = (if STREAM_VERIFY_SANE s then Some (s\<lparr>getp := 0, endp := 0\<rparr>) else None)"

definition stream_discard :: "stream_t \<Rightarrow> stream_t option" where
  "stream_discard s =
     (if \<not> STREAM_VERIFY_SANE s then None
      else if getp s = 0 then Some s
      else if getp s = endp s then stream_reset s
      else
        Option.bind (peek s (getp s) (endp s - getp s)) (\<lambda>bs.
        map_option (\<lambda>s1. s1\<lparr>endp := endp s - getp s, getp := 0\<rparr>) (poke 0 bs s)))"

subsection \<open>Queues of buffers\<close>

text \<open>The buffers of a queue are in a store; they are linked by their own \<open>next\<close> field.\<close>

type_synonym streams = "nat \<rightharpoonup> stream_t"

record stream_fifo =
  sf_count :: nat
  sf_head :: "nat option"
  sf_tail :: "nat option"

definition stream_fifo_new :: stream_fifo where
  "stream_fifo_new = \<lparr>sf_count = 0, sf_head = None, sf_tail = None\<rparr>"

definition stream_fifo_push :: "stream_fifo \<Rightarrow> nat \<Rightarrow> streams \<Rightarrow> (stream_fifo \<times> streams) option" where
  "stream_fifo_push fifo a m =
     map_option (\<lambda>(f1, m1). (f1\<lparr>sf_tail := Some a, sf_count := sf_count f1 + 1\<rparr>, m1))
       (case sf_tail fifo of
          Some b \<Rightarrow> map_option (\<lambda>x. (fifo, m(b \<mapsto> x\<lparr>next_s := Some a\<rparr>))) (m b)
        | None \<Rightarrow> Some (fifo\<lparr>sf_head := Some a\<rparr>, m))"

definition stream_fifo_pop :: "stream_fifo \<Rightarrow> streams \<Rightarrow> (nat option \<times> stream_fifo) option" where
  "stream_fifo_pop fifo m =
     (case sf_head fifo of
        None \<Rightarrow> Some (None, fifo)
      | Some a \<Rightarrow>
          Option.bind (m a) (\<lambda>x.
          let f1 = fifo\<lparr>sf_head := next_s x\<rparr>;
              f2 = (if sf_head f1 = None then f1\<lparr>sf_tail := None\<rparr> else f1)
          in Some (Some a, f2\<lparr>sf_count := sf_count f2 - 1\<rparr>)))"

definition stream_fifo_head :: "stream_fifo \<Rightarrow> nat option" where
  "stream_fifo_head fifo = sf_head fifo"

definition stream_free :: "nat option \<Rightarrow> streams \<Rightarrow> streams option" where
  "stream_free s m =
     (case s of None \<Rightarrow> Some m | Some a \<Rightarrow> if m a = None then None else Some (m(a := None)))"

partial_function (option) fifo_clean_loop :: "nat option \<Rightarrow> streams \<Rightarrow> streams option" where
  "fifo_clean_loop s m =
     (case s of
        None \<Rightarrow> Some m
      | Some a \<Rightarrow>
          Option.bind (m a) (\<lambda>x. Option.bind (stream_free (Some a) m) (\<lambda>m1. fifo_clean_loop (next_s x) m1)))"

definition stream_fifo_clean :: "stream_fifo \<Rightarrow> streams \<Rightarrow> (stream_fifo \<times> streams) option" where
  "stream_fifo_clean fifo m =
     map_option (Pair (fifo\<lparr>sf_head := None, sf_tail := None, sf_count := 0\<rparr>)) (fifo_clean_loop (sf_head fifo) m)"

definition stream_fifo_free :: "stream_fifo \<Rightarrow> streams \<Rightarrow> streams option" where
  "stream_fifo_free fifo m = map_option snd (stream_fifo_clean fifo m)"

section \<open>Buffers as byte queues\<close>

definition stream_ok :: "stream_t \<Rightarrow> bool" where
  "stream_ok s \<longleftrightarrow> getp s \<le> endp s \<and> endp s \<le> ssize s \<and> length (sdata s) = ssize s \<and> ssize s < 2 ^ 64"

text \<open>The octets that were written, and those of them that were not read yet.\<close>

definition written :: "stream_t \<Rightarrow> u8 list" where
  "written s = take (endp s) (sdata s)"

definition unread :: "stream_t \<Rightarrow> u8 list" where
  "unread s = drop (getp s) (written s)"

definition appended :: "u8 list \<Rightarrow> stream_t \<Rightarrow> stream_t" where
  "appended bs s = s\<lparr>sdata := written s @ bs @ drop (endp s + length bs) (sdata s), endp := endp s + length bs\<rparr>"

named_theorems stream_simps \<open>positions and contents of buffers\<close>

lemma sane_ok [stream_simps]: "stream_ok s \<Longrightarrow> STREAM_VERIFY_SANE s"
  by (simp add: stream_ok_def STREAM_VERIFY_SANE_def GETP_VALID_def ENDP_VALID_def)

lemma length_written [stream_simps]: "stream_ok s \<Longrightarrow> length (written s) = endp s"
  by (simp add: stream_ok_def written_def)

lemma length_unread [stream_simps]: "stream_ok s \<Longrightarrow> length (unread s) = endp s - getp s"
  by (simp add: stream_ok_def written_def unread_def)

lemma written_appended [stream_simps]: "stream_ok s \<Longrightarrow> written (appended bs s) = written s @ bs"
  by (simp add: stream_ok_def written_def appended_def)

lemma unread_appended [stream_simps]: "stream_ok s \<Longrightarrow> unread (appended bs s) = unread s @ bs"
  using length_written [of s] by (simp add: unread_def written_appended) (simp add: appended_def stream_ok_def)

lemma ok_appended: "stream_ok s \<Longrightarrow> length bs \<le> ssize s - endp s \<Longrightarrow> stream_ok (appended bs s)"
  by (auto simp: stream_ok_def appended_def written_def)

lemma appended_pos [stream_simps]:
  "endp (appended bs s) = endp s + length bs" "getp (appended bs s) = getp s" "ssize (appended bs s) = ssize s"
  "next_s (appended bs s) = next_s s"
  by (simp_all add: appended_def)

lemma forward_ok:
  assumes "stream_ok s" "n \<le> endp s - getp s"
  shows "stream_ok (s\<lparr>getp := getp s + n\<rparr>)" "unread (s\<lparr>getp := getp s + n\<rparr>) = drop n (unread s)"
  using assms by (auto simp: stream_ok_def unread_def written_def add.commute)

lemma poke_end:
  assumes "stream_ok s" "length bs \<le> ssize s - endp s"
  shows "map_option (\<lambda>s1. s1\<lparr>endp := endp s1 + length bs\<rparr>) (poke (endp s) bs s) = Some (appended bs s)"
  using assms by (auto simp: poke_def appended_def stream_ok_def written_def)

lemma put_octets_ok:
  assumes "stream_ok s"
  shows "put_octets bs s = (if length bs \<le> ssize s - endp s then Some (int (length bs), appended bs s) else None)"
proof (cases "length bs \<le> ssize s - endp s")
  case True
  then show ?thesis using assms
    by (auto simp: put_octets_def sane_ok STREAM_WRITEABLE_def poke_def appended_def written_def) (auto simp: stream_ok_def)
next
  case False
  then show ?thesis using assms by (simp add: put_octets_def sane_ok STREAM_WRITEABLE_def)
qed

lemma peek_unread:
  assumes "stream_ok s" "n \<le> endp s - getp s"
  shows "peek s (getp s) n = Some (take n (unread s))"
proof -
  have "take n (drop (getp s) (take (endp s) (sdata s))) = take n (drop (getp s) (sdata s))"
    using assms by (simp add: drop_take min_def stream_ok_def)
  moreover have "getp s + n \<le> length (sdata s)" using assms by (auto simp: stream_ok_def)
  ultimately show ?thesis by (simp add: peek_def unread_def written_def)
qed

section \<open>Codecs\<close>

text \<open>
  What a pair of a put and a get operation promises: a value is written as a fixed number of octets at the
  end, and read from the front.
\<close>

locale stream_codec =
  fixes width :: nat
    and valid :: "'v \<Rightarrow> bool"
    and enc :: "'v \<Rightarrow> u8 list"
    and dec :: "u8 list \<Rightarrow> 'v"
    and put :: "'v \<Rightarrow> stream_t \<Rightarrow> (int \<times> stream_t) option"
    and get :: "stream_t \<Rightarrow> ('v \<times> stream_t) option"
  assumes enc_width: "valid v \<Longrightarrow> length (enc v) = width"
    and dec_enc: "valid v \<Longrightarrow> dec (enc v) = v"
    and put_law: "stream_ok s \<Longrightarrow> valid v \<Longrightarrow>
      put v s = (if width \<le> ssize s - endp s then Some (int width, appended (enc v) s) else None)"
    and get_law: "stream_ok s \<Longrightarrow>
      get s = (if width \<le> endp s - getp s then Some (dec (take width (unread s)), s\<lparr>getp := getp s + width\<rparr>) else None)"
begin

lemma put_unread:
  assumes "stream_ok s" "valid v" "width \<le> ssize s - endp s"
  shows "\<exists>s'. put v s = Some (int width, s') \<and> stream_ok s' \<and> unread s' = unread s @ enc v \<and>
    getp s' = getp s \<and> endp s' = endp s + width \<and> ssize s' = ssize s"
  using assms put_law [OF assms(1,2)] ok_appended [OF assms(1), of "enc v"] enc_width [OF assms(2)]
  by (simp add: stream_simps)

lemma get_unread:
  assumes "stream_ok s" "valid v" "unread s = enc v @ rest"
  shows "\<exists>s'. get s = Some (v, s') \<and> stream_ok s' \<and> unread s' = rest"
proof -
  have w: "width \<le> endp s - getp s"
    using length_unread [OF assms(1)] assms(3) enc_width [OF assms(2)] by (metis le_add1 length_append)
  show ?thesis using get_law [OF assms(1)] w forward_ok [OF assms(1) w] assms(3) enc_width [OF assms(2)] dec_enc [OF assms(2)]
    by simp
qed

lemma get_short: "stream_ok s \<Longrightarrow> length (unread s) < width \<Longrightarrow> get s = None"
  by (simp add: get_law length_unread)

end

section \<open>The codecs of the library\<close>

text \<open>An octet of a word, put back in its place.\<close>

lemma bit_octet_back:
  assumes "k + 8 \<le> LENGTH('a::len)"
  shows "bit (push_bit k (ucast (ucast (drop_bit k (w :: 'a word)) :: u8)) :: 'a word) n \<longleftrightarrow> k \<le> n \<and> n < k + 8 \<and> bit w n"
proof (cases "k \<le> n \<and> n < k + 8")
  case True
  then have "n - k < 8" "k + (n - k) = n" "n < LENGTH('a)" "n - k < LENGTH('a)" using assms by auto
  then show ?thesis using True by (auto simp: bit_simps)
qed (auto simp: bit_simps)

lemma bit_octet_low:
  assumes "8 \<le> LENGTH('a::len)"
  shows "bit (ucast (ucast (w :: 'a word) :: u8) :: 'a word) n \<longleftrightarrow> n < 8 \<and> bit w n"
  using bit_octet_back [of 0 w n] assms by simp

lemma word_of_be16: "word_of_octets (be16 w) = w"
proof (rule bit_word_eqI)
  fix n assume "n < LENGTH(16)"
  then have "8 \<le> n \<and> n < 16 \<or> n < 8" by simp linarith
  then show "bit (word_of_octets (be16 w)) n = bit w n"
    by (auto simp: word_of_octets_def be16_def bit_or_iff bit_octet_back bit_octet_low)
qed

lemma long_of_be32: "long_of_octets (be32 w) = w"
proof (rule bit_word_eqI)
  fix n assume "n < LENGTH(32)"
  then have "24 \<le> n \<and> n < 32 \<or> 16 \<le> n \<and> n < 24 \<or> 8 \<le> n \<and> n < 16 \<or> n < 8" by simp linarith
  then show "bit (long_of_octets (be32 w)) n = bit w n"
    by (auto simp: long_of_octets_def be32_def bit_or_iff bit_octet_back bit_octet_low)
qed

lemma quad_of_be64: "quad_of_octets (be64 w) = w"
proof (rule bit_word_eqI)
  fix n assume "n < LENGTH(64)"
  then have "56 \<le> n \<and> n < 64 \<or> 48 \<le> n \<and> n < 56 \<or> 40 \<le> n \<and> n < 48 \<or> 32 \<le> n \<and> n < 40 \<or>
    24 \<le> n \<and> n < 32 \<or> 16 \<le> n \<and> n < 24 \<or> 8 \<le> n \<and> n < 16 \<or> n < 8" by simp linarith
  then show "bit (quad_of_octets (be64 w)) n = bit w n"
    by (auto simp: quad_of_octets_def be64_def bit_or_iff bit_octet_back bit_octet_low)
qed

lemmas put_defs = stream_putc_def stream_putw_def stream_putl_def stream_putq_def stream_put_ipv4_def
lemmas get_defs = stream_getc_def stream_getw_def stream_getl_def stream_getq_def stream_get_ipv4_def

interpretation codec_c: stream_codec 1 "\<lambda>_. True" "\<lambda>c. [c]" "\<lambda>bs. bs ! 0" stream_putc stream_getc
  by unfold_locales (auto simp: put_defs get_defs put_octets_ok sane_ok STREAM_READABLE_def peek_unread)

interpretation codec_w: stream_codec 2 "\<lambda>_. True" be16 word_of_octets stream_putw stream_getw
  by unfold_locales
    (auto simp: put_defs get_defs put_octets_ok sane_ok STREAM_READABLE_def peek_unread word_of_be16 simp flip: be16_def)

interpretation codec_l: stream_codec 4 "\<lambda>_. True" be32 long_of_octets stream_putl stream_getl
  by unfold_locales
    (auto simp: put_defs get_defs put_octets_ok sane_ok STREAM_READABLE_def peek_unread long_of_be32 simp flip: be32_def)

interpretation codec_q: stream_codec 8 "\<lambda>_. True" be64 quad_of_octets stream_putq stream_getq
  by unfold_locales
    (auto simp: put_defs get_defs put_octets_ok sane_ok STREAM_READABLE_def peek_unread quad_of_be64 simp flip: be64_def)

interpretation codec_a: stream_codec 4 "\<lambda>a. length a = 4" "\<lambda>a. a" "\<lambda>bs. bs" stream_put_ipv4 stream_get_ipv4
  by unfold_locales (auto simp: put_defs get_defs put_octets_ok sane_ok STREAM_READABLE_def peek_unread)

section \<open>Records of fields\<close>

text \<open>A message as its sender writes it, field by field, and as a receiver that knows its layout reads it.\<close>

datatype field = Field_c u8 | Field_w u16 | Field_l u32 | Field_q u64 | Field_a in_addr

fun field_ok :: "field \<Rightarrow> bool" where
  "field_ok (Field_a a) \<longleftrightarrow> length a = 4"
| "field_ok _ \<longleftrightarrow> True"

fun field_octets :: "field \<Rightarrow> u8 list" where
  "field_octets (Field_c c) = [c]"
| "field_octets (Field_w w) = be16 w"
| "field_octets (Field_l l) = be32 l"
| "field_octets (Field_q q) = be64 q"
| "field_octets (Field_a a) = a"

fun put_field :: "field \<Rightarrow> stream_t \<Rightarrow> stream_t option" where
  "put_field (Field_c c) s = map_option snd (stream_putc c s)"
| "put_field (Field_w w) s = map_option snd (stream_putw w s)"
| "put_field (Field_l l) s = map_option snd (stream_putl l s)"
| "put_field (Field_q q) s = map_option snd (stream_putq q s)"
| "put_field (Field_a a) s = map_option snd (stream_put_ipv4 a s)"

fun get_field :: "field \<Rightarrow> stream_t \<Rightarrow> (field \<times> stream_t) option" where
  "get_field (Field_c _) s = map_option (\<lambda>(c, s1). (Field_c c, s1)) (stream_getc s)"
| "get_field (Field_w _) s = map_option (\<lambda>(w, s1). (Field_w w, s1)) (stream_getw s)"
| "get_field (Field_l _) s = map_option (\<lambda>(l, s1). (Field_l l, s1)) (stream_getl s)"
| "get_field (Field_q _) s = map_option (\<lambda>(q, s1). (Field_q q, s1)) (stream_getq s)"
| "get_field (Field_a _) s = map_option (\<lambda>(a, s1). (Field_a a, s1)) (stream_get_ipv4 s)"

fun put_fields :: "field list \<Rightarrow> stream_t \<Rightarrow> stream_t option" where
  "put_fields [] s = Some s"
| "put_fields (f # fs) s = Option.bind (put_field f s) (put_fields fs)"

fun get_fields :: "field list \<Rightarrow> stream_t \<Rightarrow> (field list \<times> stream_t) option" where
  "get_fields [] s = Some ([], s)"
| "get_fields (f # fs) s =
     Option.bind (get_field f s) (\<lambda>(v, s1). map_option (\<lambda>(vs, s2). (v # vs, s2)) (get_fields fs s1))"

fun blank :: "field \<Rightarrow> field" where
  "blank (Field_c _) = Field_c 0"
| "blank (Field_w _) = Field_w 0"
| "blank (Field_l _) = Field_l 0"
| "blank (Field_q _) = Field_q 0"
| "blank (Field_a _) = Field_a []"

lemma put_field_spec:
  assumes "stream_ok s" "field_ok f" "length (field_octets f) \<le> ssize s - endp s"
  shows "\<exists>s'. put_field f s = Some s' \<and> stream_ok s' \<and> unread s' = unread s @ field_octets f \<and>
    endp s' = endp s + length (field_octets f) \<and> ssize s' = ssize s"
proof (cases f)
  case (Field_c c)
  then show ?thesis using assms codec_c.put_unread [of s c] by auto
next
  case (Field_w w)
  then show ?thesis using assms codec_w.put_unread [of s w] by auto
next
  case (Field_l l)
  then show ?thesis using assms codec_l.put_unread [of s l] by auto
next
  case (Field_q q)
  then show ?thesis using assms codec_q.put_unread [of s q] by auto
next
  case (Field_a a)
  then show ?thesis using assms codec_a.put_unread [of s a] by auto
qed

lemma get_field_spec:
  assumes "stream_ok s" "field_ok f" "unread s = field_octets f @ rest"
  shows "\<exists>s'. get_field (blank f) s = Some (f, s') \<and> stream_ok s' \<and> unread s' = rest"
proof (cases f)
  case (Field_c c)
  then show ?thesis using assms codec_c.get_unread [of s c rest] by auto
next
  case (Field_w w)
  then show ?thesis using assms codec_w.get_unread [of s w rest] by auto
next
  case (Field_l l)
  then show ?thesis using assms codec_l.get_unread [of s l rest] by auto
next
  case (Field_q q)
  then show ?thesis using assms codec_q.get_unread [of s q rest] by auto
next
  case (Field_a a)
  then show ?thesis using assms codec_a.get_unread [of s a rest] by auto
qed

lemma put_fields_spec:
  "stream_ok s \<Longrightarrow> list_all field_ok fs \<Longrightarrow> length (concat (map field_octets fs)) \<le> ssize s - endp s \<Longrightarrow>
   \<exists>s'. put_fields fs s = Some s' \<and> stream_ok s' \<and> unread s' = unread s @ concat (map field_octets fs)"
proof (induction fs arbitrary: s)
  case (Cons f fs)
  have "length (field_octets f) \<le> ssize s - endp s" using Cons.prems(3) by simp
  then obtain s1 where s1: "put_field f s = Some s1" "stream_ok s1" "unread s1 = unread s @ field_octets f"
    "endp s1 = endp s + length (field_octets f)" "ssize s1 = ssize s"
    using put_field_spec [of s f] Cons.prems by auto
  then show ?case using Cons.IH [of s1] Cons.prems by auto
qed simp

lemma get_fields_spec:
  "stream_ok s \<Longrightarrow> list_all field_ok fs \<Longrightarrow> unread s = concat (map field_octets fs) @ rest \<Longrightarrow>
   \<exists>s'. get_fields (map blank fs) s = Some (fs, s') \<and> stream_ok s' \<and> unread s' = rest"
proof (induction fs arbitrary: s)
  case (Cons f fs)
  then obtain s1 where "get_field (blank f) s = Some (f, s1)" "stream_ok s1" "unread s1 = concat (map field_octets fs) @ rest"
    using get_field_spec [of s f "concat (map field_octets fs) @ rest"] by auto
  then show ?case using Cons.IH [of s1] Cons.prems by auto
qed simp

section \<open>Reachable buffers\<close>

text \<open>
  What a client can make of a buffer.  Positions it passes in do not wrap around, and a system call
  delivers no more than it was asked for.
\<close>

inductive stream_reach :: "stream_t \<Rightarrow> bool" where
  new: "n < 2 ^ 64 \<Longrightarrow> length fresh \<ge> n \<Longrightarrow> stream_new fresh n = Some s \<Longrightarrow> stream_reach s"
| copy: "stream_reach s \<Longrightarrow> stream_reach src \<Longrightarrow> stream_copy s src = Some s' \<Longrightarrow> stream_reach s'"
| resize: "stream_reach s \<Longrightarrow> n < 2 ^ 64 \<Longrightarrow> n \<le> length fresh \<Longrightarrow> stream_resize fresh n s = Some (r, s') \<Longrightarrow> stream_reach s'"
| set_getp: "stream_reach s \<Longrightarrow> stream_set_getp n s = Some s' \<Longrightarrow> stream_reach s'"
| set_endp: "stream_reach s \<Longrightarrow> stream_set_endp n s = Some s' \<Longrightarrow> stream_reach s'"
| forward_getp: "stream_reach s \<Longrightarrow> getp s + n < 2 ^ 64 \<Longrightarrow> stream_forward_getp n s = Some s' \<Longrightarrow> stream_reach s'"
| forward_endp: "stream_reach s \<Longrightarrow> endp s + n < 2 ^ 64 \<Longrightarrow> stream_forward_endp n s = Some s' \<Longrightarrow> stream_reach s'"
| get: "stream_reach s \<Longrightarrow> stream_get n s = Some (bs, s') \<Longrightarrow> stream_reach s'"
| get_field: "stream_reach s \<Longrightarrow> get_field f s = Some (v, s') \<Longrightarrow> stream_reach s'"
| put: "stream_reach s \<Longrightarrow> stream_put src n s = Some s' \<Longrightarrow> stream_reach s'"
| put_field: "stream_reach s \<Longrightarrow> put_field f s = Some s' \<Longrightarrow> stream_reach s'"
| put_at: "stream_reach s \<Longrightarrow> put_octets_at n bs s = Some (r, s') \<Longrightarrow> stream_reach s'"
| put_prefix: "stream_reach s \<Longrightarrow> stream_put_prefix p s = Some (r, s') \<Longrightarrow> stream_reach s'"
| write_buf: "stream_reach s \<Longrightarrow> stream_write bs n s = Some (k, s') \<Longrightarrow> stream_reach s'"
| read_try: "stream_reach s \<Longrightarrow> (\<And>bs. ans = IO_octets bs \<Longrightarrow> length bs \<le> n) \<Longrightarrow>
    stream_read_try ans n s = Some (r, s') \<Longrightarrow> stream_reach s'"
| recvmsg: "stream_reach s \<Longrightarrow> (\<And>bs. ans = IO_octets bs \<Longrightarrow> length bs \<le> n) \<Longrightarrow>
    stream_recvmsg k ans n s = Some (r, s') \<Longrightarrow> stream_reach s'"
| reset: "stream_reach s \<Longrightarrow> stream_reset s = Some s' \<Longrightarrow> stream_reach s'"
| discard: "stream_reach s \<Longrightarrow> stream_discard s = Some s' \<Longrightarrow> stream_reach s'"

lemma poke_keeps: "poke i bs s = Some s' \<Longrightarrow> getp s' = getp s \<and> endp s' = endp s \<and> ssize s' = ssize s \<and> length (sdata s') = length (sdata s)"
  by (auto simp: poke_def split: if_splits)

lemma poke_ok: "stream_ok s \<Longrightarrow> poke i bs s = Some s' \<Longrightarrow> stream_ok s'"
  using poke_keeps [of i bs s s'] by (auto simp: stream_ok_def)

lemma poke_grow_ok:
  "stream_ok s \<Longrightarrow> poke (endp s) bs s = Some s1 \<Longrightarrow> length bs = n \<Longrightarrow> stream_ok (s1\<lparr>endp := endp s1 + n\<rparr>)"
  using poke_keeps [of "endp s" bs s s1] by (auto simp: stream_ok_def poke_def split: if_splits)

lemma put_octets_keeps: "stream_ok s \<Longrightarrow> put_octets bs s = Some (r, s') \<Longrightarrow> stream_ok s'"
  by (auto simp: put_octets_ok split: if_splits intro: ok_appended)

lemma getp_ok: "stream_ok s \<Longrightarrow> \<not> STREAM_READABLE s < n \<Longrightarrow> stream_ok (s\<lparr>getp := getp s + n\<rparr>)"
  by (rule forward_ok(1)) (simp_all add: STREAM_READABLE_def)

lemma put_field_keeps: "stream_ok s \<Longrightarrow> put_field f s = Some s' \<Longrightarrow> stream_ok s'"
  by (cases f) (auto simp: put_defs intro: put_octets_keeps)

lemma get_field_keeps: "stream_ok s \<Longrightarrow> get_field f s = Some (v, s') \<Longrightarrow> stream_ok s'"
  using getp_ok [of s 1] getp_ok [of s 2] by (cases f) (auto simp: get_defs split: if_splits intro: getp_ok)

lemma stream_reach_ok: "stream_reach s \<Longrightarrow> stream_ok s"
proof (induction rule: stream_reach.induct)
  case (new n fresh s)
  then show ?case by (auto simp: stream_new_def stream_ok_def split: if_splits)
next
  case (copy s src s')
  then show ?case by (auto simp: stream_copy_def stream_ok_def peek_def poke_def split: if_splits)
next
  case (resize s n fresh r s')
  then show ?case by (auto simp: stream_resize_def Let_def stream_ok_def STREAM_VERIFY_SANE_def GETP_VALID_def ENDP_VALID_def split: if_splits)
next
  case (set_getp s n s')
  then show ?case by (auto simp: stream_set_getp_def stream_ok_def GETP_VALID_def split: if_splits)
next
  case (set_endp s n s')
  then show ?case by (auto simp: stream_set_endp_def Let_def stream_ok_def ENDP_VALID_def split: if_splits)
next
  case (forward_getp s n s')
  then show ?case by (auto simp: stream_forward_getp_def size_add_def stream_ok_def GETP_VALID_def split: if_splits)
next
  case (forward_endp s n s')
  then show ?case by (auto simp: stream_forward_endp_def size_add_def stream_ok_def ENDP_VALID_def split: if_splits)
next
  case (get s n bs s')
  then show ?case by (auto simp: stream_get_def split: if_splits intro: getp_ok)
next
  case (get_field s f v s')
  then show ?case by (blast intro: get_field_keeps)
next
  case (put s src n s')
  then show ?case
    by (auto simp: stream_put_def Let_def bind_eq_Some_conv split: if_splits option.splits intro: poke_grow_ok)
next
  case (put_field s f s')
  then show ?case by (blast intro: put_field_keeps)
next
  case (put_at s n bs r s')
  then show ?case by (auto simp: put_octets_at_def split: if_splits intro: poke_ok)
next
  case (put_prefix s p r s')
  then show ?case
    using poke_grow_ok [of s "of_nat (prefixlen p) # take (PSIZE (prefixlen p)) (p_u p)" _ "1 + PSIZE (prefixlen p)"]
    by (auto simp: stream_put_prefix_def Let_def split: if_splits)
next
  case (write_buf s bs n k s')
  then show ?case by (auto simp: stream_write_def Let_def split: if_splits intro: poke_grow_ok)
next
  case (read_try s ans n r s')
  then show ?case by (auto simp: stream_read_try_def split: if_splits io_result.splits intro: poke_grow_ok)
next
  case (recvmsg s ans n k r s')
  then show ?case by (auto simp: stream_recvmsg_def split: if_splits io_result.splits intro: poke_grow_ok)
next
  case (reset s s')
  then show ?case by (auto simp: stream_reset_def stream_ok_def split: if_splits)
next
  case (discard s s')
  then show ?case
    by (auto simp: stream_discard_def stream_reset_def stream_ok_def poke_def peek_def split: if_splits)
qed

section \<open>Splicing and moving data\<close>

lemma peek_written: "stream_ok s \<Longrightarrow> i + n \<le> endp s \<Longrightarrow> peek s i n = Some (take n (drop i (written s)))"
  by (auto simp: peek_def written_def stream_ok_def drop_take min_def)

lemma poke_0: "length bs \<le> length (sdata s) \<Longrightarrow> poke 0 bs s = Some (s\<lparr>sdata := bs @ drop (length bs) (sdata s)\<rparr>)"
  by (simp add: poke_def)

lemma stream_dupcat_spec:
  assumes "stream_ok s1" "stream_ok s2" "0 < endp s1 + endp s2" "endp s1 + endp s2 < 2 ^ 64"
    "endp s1 + endp s2 \<le> length fresh" "k \<le> endp s1"
  shows "\<exists>s. stream_dupcat fresh s1 s2 k = Some s \<and> stream_ok s \<and> getp s = 0 \<and>
    written s = take k (written s1) @ written s2 @ drop k (written s1)"
proof -
  let ?n = "endp s1 + endp s2"
  let ?b1 = "take k (written s1)" and ?b3 = "drop k (written s1)"
  have n: "size_add (endp s1) (endp s2) = ?n" using assms(4) by (simp add: size_add_def)
  have len: "length ?b1 = k" "length (written s2) = endp s2" "length ?b3 = endp s1 - k"
    using length_written [OF assms(1)] length_written [OF assms(2)] assms(6) by auto
  have p1: "peek s1 0 k = Some ?b1" using peek_written [OF assms(1), of 0 k] assms(6) by simp
  have p2: "peek s2 0 (endp s2) = Some (written s2)" using peek_written [OF assms(2), of 0 "endp s2"] len(2) by simp
  have p3: "peek s1 k (endp s1 - k) = Some ?b3" using peek_written [OF assms(1), of k "endp s1 - k"] assms(6) len(3) by simp
  define new where "new = \<lparr>next_s = None, getp = 0, endp = 0, ssize = ?n, sdata = take ?n fresh\<rparr>"
  define n1 where "n1 = new\<lparr>sdata := ?b1 @ drop k (take ?n fresh)\<rparr>"
  define n2 where "n2 = new\<lparr>sdata := ?b1 @ written s2 @ drop (k + endp s2) (take ?n fresh)\<rparr>"
  define n3 where "n3 = new\<lparr>sdata := ?b1 @ written s2 @ ?b3\<rparr>"
  have new: "stream_new fresh ?n = Some new" using assms(3) by (simp add: stream_new_def new_def)
  have q1: "poke 0 ?b1 new = Some n1" using assms(5,6) len(1) by (simp add: poke_0 new_def n1_def)
  have q2: "poke k (written s2) n1 = Some n2" using assms(5,6) len(1,2) by (simp add: poke_def new_def n1_def n2_def add.commute)
  have q3: "poke (k + endp s2) ?b3 n2 = Some n3" using assms(5,6) len by (simp add: poke_def new_def n2_def n3_def)
  have "stream_dupcat fresh s1 s2 k = Some (n3\<lparr>endp := ?n\<rparr>)"
    using assms(6) by (simp add: stream_dupcat_def sane_ok [OF assms(1)] sane_ok [OF assms(2)] n new p1 q1 p2 q2 p3 q3)
  moreover have "stream_ok (n3\<lparr>endp := ?n\<rparr>)" using len assms(4,6) by (simp add: stream_ok_def n3_def new_def)
  moreover have "written (n3\<lparr>endp := ?n\<rparr>) = ?b1 @ written s2 @ ?b3"
    unfolding written_def [of "n3\<lparr>endp := ?n\<rparr>"] using len assms(6) by (simp add: n3_def new_def)
  ultimately show ?thesis by (intro exI [of _ "n3\<lparr>endp := ?n\<rparr>"]) (simp add: n3_def new_def)
qed

lemma stream_discard_spec:
  assumes "stream_ok s"
  shows "\<exists>s'. stream_discard s = Some s' \<and> stream_ok s' \<and> getp s' = 0 \<and> written s' = unread s \<and> ssize s' = ssize s"
proof (cases "getp s = 0 \<or> getp s = endp s")
  case True
  then show ?thesis using assms length_unread [OF assms]
    by (auto simp: stream_discard_def stream_reset_def sane_ok stream_ok_def unread_def written_def)
next
  case False
  let ?b = "unread s"
  have len: "length ?b = endp s - getp s" by (rule length_unread [OF assms])
  have pk: "peek s (getp s) (endp s - getp s) = Some ?b" using peek_unread [OF assms, of "endp s - getp s"] len by simp
  define s' where "s' = s\<lparr>sdata := ?b @ drop (length ?b) (sdata s), endp := endp s - getp s, getp := 0\<rparr>"
  have "length ?b \<le> length (sdata s)" using len assms by (auto simp: stream_ok_def)
  then have "stream_discard s = Some s'" using False assms pk len
    by (simp add: stream_discard_def sane_ok poke_0 s'_def)
  moreover have "stream_ok s'" using assms len by (auto simp: stream_ok_def s'_def)
  moreover have "written s' = ?b" unfolding written_def [of s'] using len by (simp add: s'_def)
  ultimately show ?thesis by (intro exI [of _ s']) (simp add: s'_def)
qed

lemma stream_put_spec:
  assumes "stream_ok s" "endp s + n < 2 ^ 64" "n \<le> length bs"
  shows "stream_put (Some bs) n s = Some (appended (take (min n (ssize s - endp s)) bs) s)"
proof -
  have sz: "CHECK_SIZE s n = min n (ssize s - endp s)" using assms(1,2) by (auto simp: CHECK_SIZE_def size_add_def stream_ok_def)
  let ?b = "take (min n (ssize s - endp s)) bs"
  have len: "length ?b = min n (ssize s - endp s)" using assms(3) by simp
  then have "length ?b \<le> ssize s - endp s" by simp
  from poke_end [OF assms(1) this] len show ?thesis using assms(3)
    by (simp add: stream_put_def sz sane_ok [OF assms(1)] STREAM_WRITEABLE_def Let_def)
qed

section \<open>Queues\<close>

text \<open>The buffers of a queue, in order, each linked to the next one.\<close>

fun fifo_chain :: "streams \<Rightarrow> nat option \<Rightarrow> nat list \<Rightarrow> bool" where
  "fifo_chain m h [] \<longleftrightarrow> h = None"
| "fifo_chain m h (a # as) \<longleftrightarrow> h = Some a \<and> (\<exists>x. m a = Some x \<and> fifo_chain m (next_s x) as)"

definition fifo_holds :: "stream_fifo \<Rightarrow> streams \<Rightarrow> nat list \<Rightarrow> bool" where
  "fifo_holds f m as \<longleftrightarrow> fifo_chain m (sf_head f) as \<and> distinct as \<and> sf_count f = length as \<and>
     sf_tail f = (if as = [] then None else Some (last as))"

lemma fifo_chain_cong: "(\<And>a. a \<in> set as \<Longrightarrow> m' a = m a) \<Longrightarrow> fifo_chain m' h as = fifo_chain m h as"
  by (induction as arbitrary: h) auto

lemma fifo_chain_dom: "fifo_chain m h as \<Longrightarrow> a \<in> set as \<Longrightarrow> m a \<noteq> None"
  by (induction as arbitrary: h) auto

lemma fifo_chain_snoc:
  assumes "fifo_chain m h (as @ [b])" "b \<notin> set as" "m b = Some x" "m a = Some y" "next_s y = None" "a \<notin> set as" "a \<noteq> b"
  shows "fifo_chain (m(b \<mapsto> x\<lparr>next_s := Some a\<rparr>)) h (as @ [b, a])"
  using assms by (induction as arbitrary: h) auto

lemma stream_fifo_push_spec:
  assumes h: "fifo_holds f m as" and a: "a \<notin> set as" "m a = Some y" "next_s y = None"
  shows "\<exists>f' m'. stream_fifo_push f a m = Some (f', m') \<and> fifo_holds f' m' (as @ [a]) \<and>
    (\<forall>z. map_option (\<lambda>x. x\<lparr>next_s := None\<rparr>) (m' z) = map_option (\<lambda>x. x\<lparr>next_s := None\<rparr>) (m z))"
proof (cases as rule: rev_cases)
  case Nil
  then show ?thesis using assms by (auto simp: stream_fifo_push_def fifo_holds_def)
next
  case (snoc bs b)
  then obtain x where x: "m b = Some x" using fifo_chain_dom [of m "sf_head f" as b] h by (auto simp: fifo_holds_def)
  define m' where "m' = m(b \<mapsto> x\<lparr>next_s := Some a\<rparr>)"
  have "fifo_chain m' (sf_head f) (bs @ [b, a])" unfolding m'_def
    by (rule fifo_chain_snoc [OF _ _ x a(2,3)]) (use h snoc a in \<open>auto simp: fifo_holds_def\<close>)
  then show ?thesis using h snoc x a
    by (intro exI [of _ "f\<lparr>sf_tail := Some a, sf_count := sf_count f + 1\<rparr>"] exI [of _ m'])
      (auto simp: stream_fifo_push_def fifo_holds_def m'_def)
qed

lemma stream_fifo_pop_spec:
  assumes "fifo_holds f m as"
  shows "\<exists>f'. stream_fifo_pop f m = Some (case as of [] \<Rightarrow> None | a # _ \<Rightarrow> Some a, f') \<and> fifo_holds f' m (tl as)"
proof (cases as)
  case Nil
  then show ?thesis using assms by (auto simp: stream_fifo_pop_def fifo_holds_def)
next
  case (Cons a bs)
  then obtain x where x: "m a = Some x" "fifo_chain m (next_s x) bs" using assms by (auto simp: fifo_holds_def)
  have "next_s x = None \<longleftrightarrow> bs = []" using x(2) by (cases bs) auto
  then show ?thesis using assms Cons x by (auto simp: stream_fifo_pop_def fifo_holds_def Let_def)
qed

lemma fifo_clean_loop_spec:
  "fifo_chain m h as \<Longrightarrow> distinct as \<Longrightarrow> fifo_clean_loop h m = Some (m |` (- set as))"
proof (induction as arbitrary: h m)
  case Nil
  then show ?case by (simp add: fifo_clean_loop.simps [of None])
next
  case (Cons a as)
  then obtain x where x: "h = Some a" "m a = Some x" "fifo_chain m (next_s x) as" by auto
  have "fifo_chain (m(a := None)) (next_s x) as = fifo_chain m (next_s x) as"
    by (rule fifo_chain_cong) (use Cons.prems(2) in auto)
  then have "fifo_clean_loop (next_s x) (m(a := None)) = Some ((m(a := None)) |` (- set as))"
    using x(3) Cons.prems(2) by (intro Cons.IH) (auto simp: fun_upd_def)
  moreover have "(m(a := None)) |` (- set as) = m |` (- set (a # as))" by (auto simp: restrict_map_def)
  ultimately show ?case using x(1,2) by (simp add: fifo_clean_loop.simps [of "Some a"] stream_free_def)
qed

text \<open>Buffers that are linked from \<open>h\<close> on, with the link of the last one.\<close>

fun fifo_path :: "streams \<Rightarrow> nat option \<Rightarrow> nat list \<Rightarrow> nat option \<Rightarrow> bool" where
  "fifo_path m h [] e \<longleftrightarrow> h = e"
| "fifo_path m h (a # as) e \<longleftrightarrow> h = Some a \<and> (\<exists>x. m a = Some x \<and> fifo_path m (next_s x) as e)"

lemma fifo_chain_path: "fifo_chain m h as \<longleftrightarrow> fifo_path m h as None"
  by (induction as arbitrary: h) auto

lemma fifo_path_append: "fifo_path m h (as @ bs) e \<longleftrightarrow> (\<exists>c. fifo_path m h as c \<and> fifo_path m c bs e)"
  by (induction as arbitrary: h) auto

lemma fifo_path_cong: "(\<And>a. a \<in> set as \<Longrightarrow> m' a = m a) \<Longrightarrow> fifo_path m' h as e = fifo_path m h as e"
  by (induction as arbitrary: h) auto

lemma fifo_path_relink:
  assumes "fifo_path m h (as @ [b]) e" "b \<notin> set as"
  shows "\<exists>x. m b = Some x \<and> next_s x = e \<and> fifo_path (m(b \<mapsto> x\<lparr>next_s := c\<rparr>)) h (as @ [b]) c"
proof -
  obtain x where x: "fifo_path m h as (Some b)" "m b = Some x" "next_s x = e" using assms(1) by (auto simp: fifo_path_append)
  have "fifo_path (m(b \<mapsto> x\<lparr>next_s := c\<rparr>)) h as (Some b)" using x(1) assms(2) by (subst fifo_path_cong) auto
  then show ?thesis using x(2,3) by (auto simp: fifo_path_append)
qed

text \<open>Freeing follows the links, so it comes to a buffer that is freed when the links lead back.\<close>

lemma clean_loop_path_freed:
  "fifo_path m h as (Some b) \<Longrightarrow> distinct as \<Longrightarrow> b \<in> set as \<or> m b = None \<Longrightarrow> fifo_clean_loop h m = None"
proof (induction as arbitrary: h m)
  case Nil
  then show ?case by (simp add: fifo_clean_loop.simps [of "Some b"])
next
  case (Cons a as)
  then obtain x where x: "h = Some a" "m a = Some x" "fifo_path m (next_s x) as (Some b)" by auto
  have "fifo_path (m(a := None)) (next_s x) as (Some b)" using x(3) Cons.prems(2) by (subst fifo_path_cong) auto
  then have "fifo_clean_loop (next_s x) (m(a := None)) = None" using Cons.prems(2,3) by (intro Cons.IH) (auto simp: fun_upd_def)
  then show ?case using x(1,2) by (simp add: fifo_clean_loop.simps [of "Some a"] stream_free_def)
qed

section \<open>Properties\<close>

text \<open>C19: whatever record of octets, words, longs, quads and addresses is written to a buffer with nothing left to
  read and enough room, a reader that knows the layout gets the same values back, and nothing is left over.\<close>

theorem stream_fields_roundtrip:
  assumes "stream_ok s" "unread s = []" "list_all field_ok fs" "length (concat (map field_octets fs)) \<le> ssize s - endp s"
  shows "\<exists>s1 s2. put_fields fs s = Some s1 \<and> get_fields (map blank fs) s1 = Some (fs, s2) \<and> stream_ok s2 \<and> unread s2 = []"
proof -
  obtain s1 where s1: "put_fields fs s = Some s1" "stream_ok s1" "unread s1 = concat (map field_octets fs)"
    using put_fields_spec [OF assms(1,3,4)] assms(2) by auto
  then show ?thesis using get_fields_spec [OF s1(2) assms(3), of "[]"] by auto
qed

definition example_stream :: stream_t where
  "example_stream = \<lparr>next_s = None, getp = 0, endp = 0, ssize = 16, sdata = replicate 16 0\<rparr>"

lemma example_stream_ok: "stream_ok example_stream" "unread example_stream = []"
  by (simp_all add: example_stream_def stream_ok_def unread_def written_def)

theorem stream_fields_roundtrip_witness:
  "\<exists>s1 s2. put_fields [Field_w 0xBEEF, Field_a [10, 0, 0, 1], Field_q 1] example_stream = Some s1 \<and>
     get_fields [Field_w 0, Field_a [], Field_q 0] s1 = Some ([Field_w 0xBEEF, Field_a [10, 0, 0, 1], Field_q 1], s2)"
  using stream_fields_roundtrip [OF example_stream_ok, of "[Field_w 0xBEEF, Field_a [10, 0, 0, 1], Field_q 1]"]
  by (auto simp: example_stream_def)

text \<open>Every buffer a client can make with the operations of the library keeps the read position before the
  write position and both inside of the array, so that no later assertion of \<^verbatim>\<open>STREAM_VERIFY_SANE\<close> fails.\<close>

theorem stream_positions_invariant:
  assumes "stream_reach s"
  shows "STREAM_VERIFY_SANE s \<and> length (sdata s) = ssize s"
  using stream_reach_ok [OF assms] sane_ok by (simp add: stream_ok_def)

theorem stream_positions_invariant_witness:
  "STREAM_VERIFY_SANE example_stream \<and> length (sdata example_stream) = ssize example_stream"
proof (rule stream_positions_invariant)
  show "stream_reach example_stream"
    by (rule stream_reach.new [of 16 "replicate 16 0"]) (simp_all add: stream_new_def example_stream_def)
qed

text \<open>The operations that read at a given position return the octets there exactly when they lie before the write
  position, and otherwise fail their assertion; the position must not be so large that its sum with the
  width wraps around.\<close>

theorem stream_get_from_bounds:
  assumes "stream_ok s" "pos + 4 < 2 ^ 64"
  shows "stream_getl_from pos s =
    (if pos + 4 \<le> endp s then Some (long_of_octets (take 4 (drop pos (written s)))) else None)"
  using assms peek_written [OF assms(1), of pos 4]
  by (simp add: stream_getl_from_def sane_ok size_add_def GETP_VALID_def)

theorem stream_get_from_bounds_witness:
  "stream_getl_from 0 (example_stream\<lparr>endp := 4\<rparr>) = Some 0"
proof -
  have "stream_ok (example_stream\<lparr>endp := 4\<rparr>)" by (simp add: stream_ok_def example_stream_def)
  from stream_get_from_bounds [OF this, of 0] show ?thesis
    by (simp add: example_stream_def written_def long_of_octets_def)
qed

text \<open>\<^verbatim>\<open>stream_dupcat\<close> returns a buffer with the first \<open>k\<close> octets of \<open>s1\<close>, all of \<open>s2\<close> and the rest of \<open>s1\<close>.\<close>

theorem stream_dupcat_splices:
  assumes "stream_ok s1" "stream_ok s2" "0 < endp s1 + endp s2" "endp s1 + endp s2 < 2 ^ 64"
    "endp s1 + endp s2 \<le> length fresh" "k \<le> endp s1"
  shows "\<exists>s. stream_dupcat fresh s1 s2 k = Some s \<and> stream_ok s \<and> getp s = 0 \<and>
    written s = take k (written s1) @ written s2 @ drop k (written s1)"
  using assms by (rule stream_dupcat_spec)

theorem stream_dupcat_splices_witness:
  "\<exists>s. stream_dupcat [0, 0] (example_stream\<lparr>endp := 1\<rparr>) (example_stream\<lparr>endp := 1\<rparr>) 1 = Some s \<and> written s = [0, 0]"
proof -
  have ok: "stream_ok (example_stream\<lparr>endp := 1\<rparr>)" by (simp add: stream_ok_def example_stream_def)
  have "written (example_stream\<lparr>endp := 1\<rparr>) = [0]" by (simp add: written_def example_stream_def)
  then show ?thesis using stream_dupcat_splices [OF ok ok, of "[0, 0]" 1] by (auto simp: example_stream_def)
qed

text \<open>\<^verbatim>\<open>stream_put\<close> of more octets than there is room for does not fail: it silently writes what fits.\<close>

theorem stream_put_truncates:
  assumes "stream_ok s" "endp s + n < 2 ^ 64" "n \<le> length bs"
  shows "\<exists>s'. stream_put (Some bs) n s = Some s' \<and> stream_ok s' \<and> written s' = written s @ take (min n (ssize s - endp s)) bs"
proof -
  have "length (take (min n (ssize s - endp s)) bs) \<le> ssize s - endp s" by simp
  then show ?thesis using stream_put_spec [OF assms] ok_appended [OF assms(1)] written_appended [OF assms(1)] by simp
qed

theorem stream_put_truncates_witness:
  "\<exists>s'. stream_put (Some [1, 2, 3]) 3 (example_stream\<lparr>endp := 15\<rparr>) = Some s' \<and> written s' = replicate 15 0 @ [1]"
proof -
  have ok: "stream_ok (example_stream\<lparr>endp := 15\<rparr>)" by (simp add: stream_ok_def example_stream_def)
  have "written (example_stream\<lparr>endp := 15\<rparr>) = replicate 15 0" by (simp add: written_def example_stream_def)
  then show ?thesis using stream_put_truncates [OF ok, of 3 "[1, 2, 3]"] by (auto simp: example_stream_def)
qed

text \<open>\<^verbatim>\<open>stream_discard\<close> moves the unread octets to the start of the array and keeps them.\<close>

theorem stream_discard_keeps_unread:
  assumes "stream_ok s"
  shows "\<exists>s'. stream_discard s = Some s' \<and> stream_ok s' \<and> getp s' = 0 \<and> written s' = unread s \<and> ssize s' = ssize s"
  using assms by (rule stream_discard_spec)

theorem stream_discard_keeps_unread_witness:
  "\<exists>s'. stream_discard (example_stream\<lparr>getp := 1, endp := 3\<rparr>) = Some s' \<and> written s' = [0, 0]"
proof -
  have ok: "stream_ok (example_stream\<lparr>getp := 1, endp := 3\<rparr>)" by (simp add: stream_ok_def example_stream_def)
  have "unread (example_stream\<lparr>getp := 1, endp := 3\<rparr>) = [0, 0]" by code_simp
  then show ?thesis using stream_discard_keeps_unread [OF ok] by auto
qed

text \<open>C28: a queue of buffers is a list: a push of a buffer whose link is null adds it at the end, a pop takes the
  first one, and cleaning the queue frees exactly its buffers.\<close>

theorem stream_fifo_is_queue:
  assumes "fifo_holds f m as"
  shows "(\<forall>a y. a \<notin> set as \<and> m a = Some y \<and> next_s y = None \<longrightarrow>
      (\<exists>f' m'. stream_fifo_push f a m = Some (f', m') \<and> fifo_holds f' m' (as @ [a]))) \<and>
    (\<exists>f'. stream_fifo_pop f m = Some (case as of [] \<Rightarrow> None | a # _ \<Rightarrow> Some a, f') \<and> fifo_holds f' m (tl as)) \<and>
    stream_fifo_free f m = Some (m |` (- set as))"
proof (intro conjI allI impI)
  show "\<exists>f' m'. stream_fifo_push f a m = Some (f', m') \<and> fifo_holds f' m' (as @ [a])"
    if "a \<notin> set as \<and> m a = Some y \<and> next_s y = None" for a y
  proof -
    from that have "a \<notin> set as" "m a = Some y" "next_s y = None" by auto
    from stream_fifo_push_spec [OF assms this] show ?thesis by blast
  qed
  show "\<exists>f'. stream_fifo_pop f m = Some (case as of [] \<Rightarrow> None | a # _ \<Rightarrow> Some a, f') \<and> fifo_holds f' m (tl as)"
    by (rule stream_fifo_pop_spec [OF assms])
  show "stream_fifo_free f m = Some (m |` (- set as))"
    using assms fifo_clean_loop_spec [of m "sf_head f" as] by (simp add: stream_fifo_free_def stream_fifo_clean_def fifo_holds_def)
qed

theorem stream_fifo_is_queue_witness:
  "\<exists>f' m'. stream_fifo_push stream_fifo_new 5 [5 \<mapsto> example_stream] = Some (f', m') \<and> fifo_holds f' m' [5]"
proof -
  have "fifo_holds stream_fifo_new [5 \<mapsto> example_stream] []" by (simp add: fifo_holds_def stream_fifo_new_def)
  from stream_fifo_is_queue [OF this] show ?thesis by (simp add: example_stream_def)
qed

text \<open>C29: a buffer taken off a queue keeps its link to the next one, and a push does not clear it.  Pushing the buffer back on the queue it
  came from is right only when it was alone; otherwise the links of all the buffers become a cycle, and freeing the queue reads a buffer that was freed.\<close>

theorem stream_fifo_pop_push_cycle:
  assumes "fifo_holds f m (a # as)"
  shows "\<exists>f1 f2 m2. stream_fifo_pop f m = Some (Some a, f1) \<and> stream_fifo_push f1 a m = Some (f2, m2) \<and>
    (if as = [] then fifo_holds f2 m2 [a]
     else fifo_path m2 (sf_head f2) (as @ [a]) (sf_head f2) \<and> stream_fifo_free f2 m2 = None)"
proof (cases as rule: rev_cases)
  case Nil
  then show ?thesis using assms by (auto simp: fifo_holds_def stream_fifo_pop_def stream_fifo_push_def Let_def)
next
  case (snoc bs b)
  have ch: "sf_head f = Some a" "fifo_path m (Some a) (a # bs @ [b]) None" "distinct (a # bs @ [b])" "sf_tail f = Some b"
    using assms snoc by (auto simp: fifo_holds_def fifo_chain_path)
  then obtain y where y: "m a = Some y" "fifo_path m (next_s y) (bs @ [b]) None" by auto
  obtain x where x: "m b = Some x" "fifo_path (m(b \<mapsto> x\<lparr>next_s := Some a\<rparr>)) (next_s y) (bs @ [b]) (Some a)"
    using fifo_path_relink [OF y(2), of "Some a"] ch(3) by auto
  have h: "next_s y = Some (hd (bs @ [b]))" using y(2) by (cases bs) auto
  define f1 where "f1 = f\<lparr>sf_head := next_s y, sf_count := sf_count f - 1\<rparr>"
  define f2 where "f2 = f1\<lparr>sf_tail := Some a, sf_count := sf_count f1 + 1\<rparr>"
  define m2 where "m2 = m(b \<mapsto> x\<lparr>next_s := Some a\<rparr>)"
  have run: "stream_fifo_pop f m = Some (Some a, f1)" "stream_fifo_push f1 a m = Some (f2, m2)"
    using ch(1,4) y(1) x(1) h by (simp_all add: stream_fifo_pop_def stream_fifo_push_def f1_def f2_def m2_def Let_def)
  have "fifo_path m2 (sf_head f2) ((bs @ [b]) @ [a]) (sf_head f2)"
    unfolding fifo_path_append [of m2 _ "bs @ [b]"] using x(2) y(1) ch(3) by (auto simp: m2_def f1_def f2_def)
  moreover from this have "fifo_clean_loop (sf_head f2) m2 = None"
    using ch(3) by (intro clean_loop_path_freed [of m2 _ "(bs @ [b]) @ [a]" "hd (bs @ [b])"]) (auto simp: f2_def f1_def h, cases bs, auto)
  ultimately show ?thesis using run snoc by (auto simp: stream_fifo_free_def stream_fifo_clean_def)
qed

theorem stream_fifo_pop_push_cycle_witness:
  "\<exists>f1 f2 m2. stream_fifo_pop \<lparr>sf_count = 2, sf_head = Some 1, sf_tail = Some 2\<rparr>
       [1 \<mapsto> example_stream\<lparr>next_s := Some 2\<rparr>, 2 \<mapsto> example_stream] = Some (Some 1, f1) \<and>
     stream_fifo_push f1 1 [1 \<mapsto> example_stream\<lparr>next_s := Some 2\<rparr>, 2 \<mapsto> example_stream] = Some (f2, m2) \<and>
     fifo_path m2 (sf_head f2) [2, 1] (sf_head f2) \<and> stream_fifo_free f2 m2 = None"
  using stream_fifo_pop_push_cycle [of "\<lparr>sf_count = 2, sf_head = Some 1, sf_tail = Some 2\<rparr>"
      "[1 \<mapsto> example_stream\<lparr>next_s := Some 2\<rparr>, 2 \<mapsto> example_stream]" 1 "[2]"]
  by (simp add: fifo_holds_def example_stream_def)

end
