(* ===== verification/Prefix_List.thy ===== *)
theory Prefix_List
  imports Access_List Stream_Buffer "HOL-Library.Monad_Syntax"
begin

text \<open>
  \<^verbatim>\<open>lib/plist.c\<close>: prefix lists, the numbered filters of the routing protocols.  The entries of a list, and the
  lists of a master, are the sequences of the linked chains; a pointer to a list is its place in a master.  The field
  \<^verbatim>\<open>recent\<close> of a master is the name of the list it points to.  The hooks of the daemons are recorded as the calls
  made to them.  \<open>None\<close> is an undefined conversion or overflow of an \<^verbatim>\<open>int\<close>.
\<close>

section \<open>Data\<close>

datatype prefix_list_type = PREFIX_DENY | PREFIX_PERMIT

datatype prefix_name_type = PREFIX_TYPE_STRING | PREFIX_TYPE_NUMBER

record prefix_list_entry =
  pe_seq :: int
  pe_le :: int
  pe_ge :: int
  pe_type :: prefix_list_type
  pe_any :: bool
  pe_prefix :: prefix_t
  pe_refcnt :: "64 word"
  pe_hitcnt :: "64 word"

record prefix_list =
  pl_name :: string
  pl_desc :: "string option"
  pl_type :: prefix_name_type
  pl_count :: int
  pl_entries :: "prefix_list_entry list"

datatype plist_call = Plist_add string | Plist_delete "string option"

record prefix_master =
  pm_num :: "prefix_list list"
  pm_str :: "prefix_list list"
  pm_seqnum :: bool
  pm_recent :: "string option"
  pm_add_hook :: bool
  pm_delete_hook :: bool
  pm_calls :: "plist_call list"

text \<open>The four static masters.\<close>

datatype master_id = Ipv4 | Ipv6 | Orf_v4 | Orf_v6

type_synonym plist_state = "master_id \<Rightarrow> prefix_master"

type_synonym plist_ref = "master_id \<times> prefix_name_type \<times> nat"

definition prefix_master_get :: "nat \<Rightarrow> bool \<Rightarrow> master_id option" where
  "prefix_master_get afi orf =
     (if afi = AFI_IP then Some (if orf then Orf_v4 else Ipv4)
      else if afi = AFI_IP6 then Some (if orf then Orf_v6 else Ipv6)
      else None)"

definition plist_init :: plist_state where
  "plist_init = (\<lambda>_. \<lparr>pm_num = [], pm_str = [], pm_seqnum = True, pm_recent = None, pm_add_hook = False,
                       pm_delete_hook = False, pm_calls = []\<rparr>)"

definition chain :: "prefix_name_type \<Rightarrow> prefix_master \<Rightarrow> prefix_list list" where
  "chain ty m = (if ty = PREFIX_TYPE_NUMBER then pm_num m else pm_str m)"

definition set_chain :: "prefix_name_type \<Rightarrow> prefix_list list \<Rightarrow> prefix_master \<Rightarrow> prefix_master" where
  "set_chain ty xs m = (if ty = PREFIX_TYPE_NUMBER then m\<lparr>pm_num := xs\<rparr> else m\<lparr>pm_str := xs\<rparr>)"

definition in_master :: "master_id \<Rightarrow> (prefix_master \<Rightarrow> prefix_master) \<Rightarrow> plist_state \<Rightarrow> plist_state" where
  "in_master k f s = s(k := f (s k))"

fun plist_at :: "plist_state \<Rightarrow> plist_ref \<Rightarrow> prefix_list" where
  "plist_at s (k, ty, i) = chain ty (s k) ! i"

fun plist_upd :: "plist_ref \<Rightarrow> (prefix_list \<Rightarrow> prefix_list) \<Rightarrow> plist_state \<Rightarrow> plist_state" where
  "plist_upd (k, ty, i) f s = in_master k (\<lambda>m. set_chain ty ((chain ty m)[i := f (chain ty m ! i)]) m) s"

section \<open>Lists of a master\<close>

definition prefix_list_lookup_do :: "nat \<Rightarrow> bool \<Rightarrow> string option \<Rightarrow> plist_state \<Rightarrow> plist_ref option" where
  "prefix_list_lookup_do afi orf name s = do {
     nm \<leftarrow> name;
     k \<leftarrow> prefix_master_get afi orf;
     case index_of (\<lambda>x. pl_name x = nm) (pm_num (s k)) of
       Some i \<Rightarrow> Some (k, PREFIX_TYPE_NUMBER, i)
     | None \<Rightarrow> map_option (\<lambda>i. (k, PREFIX_TYPE_STRING, i)) (index_of (\<lambda>x. pl_name x = nm) (pm_str (s k)))
   }"

definition prefix_list_lookup :: "nat \<Rightarrow> string option \<Rightarrow> plist_state \<Rightarrow> plist_ref option" where
  "prefix_list_lookup afi name s = prefix_list_lookup_do afi False name s"

definition prefix_bgp_orf_lookup :: "nat \<Rightarrow> string option \<Rightarrow> plist_state \<Rightarrow> plist_ref option" where
  "prefix_bgp_orf_lookup afi name s = prefix_list_lookup_do afi True name s"

definition prefix_list_new :: prefix_list where
  "prefix_list_new = \<lparr>pl_name = [], pl_desc = None, pl_type = PREFIX_TYPE_STRING, pl_count = 0, pl_entries = []\<rparr>"

definition prefix_list_insert :: "nat \<Rightarrow> bool \<Rightarrow> string \<Rightarrow> plist_state \<Rightarrow> (plist_ref \<times> plist_state) option" where
  "prefix_list_insert afi orf name s = do {
     k \<leftarrow> prefix_master_get afi orf;
     let plist = prefix_list_new\<lparr>pl_name := name\<rparr>;
     if all_digit name then
       let number = dec_val 0 name;
           (i, xs) = insert_at (\<lambda>x. atoi (pl_name x) \<ge> number) (plist\<lparr>pl_type := PREFIX_TYPE_NUMBER\<rparr>) (pm_num (s k))
       in Some ((k, PREFIX_TYPE_NUMBER, i), in_master k (\<lambda>m. m\<lparr>pm_num := xs\<rparr>) s)
     else
       let (i, xs) = insert_at (\<lambda>x. pl_name x \<ge> name) (plist\<lparr>pl_type := PREFIX_TYPE_STRING\<rparr>) (pm_str (s k))
       in Some ((k, PREFIX_TYPE_STRING, i), in_master k (\<lambda>m. m\<lparr>pm_str := xs\<rparr>) s)
   }"

definition prefix_list_get :: "nat \<Rightarrow> bool \<Rightarrow> string \<Rightarrow> plist_state \<Rightarrow> (plist_ref \<times> plist_state) option" where
  "prefix_list_get afi orf name s =
     (case prefix_list_lookup_do afi orf (Some name) s of
        Some r \<Rightarrow> Some (r, s)
      | None \<Rightarrow> prefix_list_insert afi orf name s)"

definition plist_hook_call :: "plist_call \<Rightarrow> prefix_master \<Rightarrow> prefix_master" where
  "plist_hook_call c m = m\<lparr>pm_calls := pm_calls m @ [c]\<rparr>"

text \<open>The list is unlinked and freed with its entries; the chain is chosen by the type stored in the list.\<close>

fun prefix_list_delete :: "plist_ref \<Rightarrow> plist_state \<Rightarrow> plist_state" where
  "prefix_list_delete (k, ty, i) s =
     in_master k (\<lambda>m.
       let m1 = (set_chain ty (unlink i (chain ty m)) m)\<lparr>pm_recent := None\<rparr>
       in if pm_delete_hook m1 then plist_hook_call (Plist_delete None) m1 else m1) s"

definition prefix_list_add_hook :: "plist_state \<Rightarrow> plist_state" where
  "prefix_list_add_hook s = in_master Ipv6 (\<lambda>m. m\<lparr>pm_add_hook := True\<rparr>) (in_master Ipv4 (\<lambda>m. m\<lparr>pm_add_hook := True\<rparr>) s)"

definition prefix_list_delete_hook :: "plist_state \<Rightarrow> plist_state" where
  "prefix_list_delete_hook s = in_master Ipv6 (\<lambda>m. m\<lparr>pm_delete_hook := True\<rparr>) (in_master Ipv4 (\<lambda>m. m\<lparr>pm_delete_hook := True\<rparr>) s)"

section \<open>Entries of a list\<close>

definition prefix_list_entry_make ::
    "prefix_t \<Rightarrow> prefix_list_type \<Rightarrow> int \<Rightarrow> int \<Rightarrow> int \<Rightarrow> bool \<Rightarrow> prefix_list_entry option" where
  "prefix_list_entry_make p type sequence le ge any = do {
     q \<leftarrow> prefix_copy prefix_new p;
     Some \<lparr>pe_seq = sequence, pe_le = le, pe_ge = ge, pe_type = type, pe_any = any, pe_prefix = q, pe_refcnt = 0, pe_hitcnt = 0\<rparr>
   }"

abbreviation INT_MAX :: int where "INT_MAX \<equiv> 2 ^ 31 - 1"

fun max_seq :: "int \<Rightarrow> prefix_list_entry list \<Rightarrow> int" where
  "max_seq maxseq [] = maxseq"
| "max_seq maxseq (e # es) = max_seq (if maxseq < pe_seq e then pe_seq e else maxseq) es"

definition prefix_new_seq_get :: "prefix_list \<Rightarrow> int option" where
  "prefix_new_seq_get plist =
     (let newseq = ((max_seq 0 (pl_entries plist) div 5) * 5) + 5 in if newseq > INT_MAX then None else Some newseq)"

definition prefix_seq_check :: "prefix_list \<Rightarrow> int \<Rightarrow> nat option" where
  "prefix_seq_check plist sequence = index_of (\<lambda>e. pe_seq e = sequence) (pl_entries plist)"

definition prefix_list_entry_lookup :: "prefix_list \<Rightarrow> prefix_t \<Rightarrow> prefix_list_type \<Rightarrow> int \<Rightarrow> int \<Rightarrow> int \<Rightarrow> nat option" where
  "prefix_list_entry_lookup plist p type sequence le ge =
     index_of (\<lambda>e. prefix_same (pe_prefix e) p \<and> pe_type e = type \<and> \<not> (sequence \<ge> 0 \<and> pe_seq e \<noteq> sequence) \<and>
                   pe_le e = le \<and> pe_ge e = ge) (pl_entries plist)"

definition prefix_list_entry_delete :: "plist_ref \<Rightarrow> nat \<Rightarrow> bool \<Rightarrow> plist_state \<Rightarrow> plist_state" where
  "prefix_list_entry_delete r i update_list s =
     (let s1 = plist_upd r (\<lambda>pl. pl\<lparr>pl_entries := unlink i (pl_entries pl), pl_count := pl_count pl - 1\<rparr>) s
      in if update_list then
           let s2 = in_master (fst r)
                      (\<lambda>m. if pm_delete_hook m then plist_hook_call (Plist_delete (Some (pl_name (plist_at s1 r)))) m else m) s1
           in if pl_entries (plist_at s2 r) = [] \<and> pl_desc (plist_at s2 r) = None
              then prefix_list_delete r s2
              else in_master (fst r) (\<lambda>m. m\<lparr>pm_recent := Some (pl_name (plist_at s2 r))\<rparr>) s2
         else s1)"

definition prefix_list_entry_add :: "plist_ref \<Rightarrow> prefix_list_entry \<Rightarrow> plist_state \<Rightarrow> plist_state option" where
  "prefix_list_entry_add r pentry s = do {
     sequence \<leftarrow> (if pe_seq pentry = -1 then prefix_new_seq_get (plist_at s r) else Some (pe_seq pentry));
     let e = pentry\<lparr>pe_seq := sequence\<rparr>;
     let s1 = (case prefix_seq_check (plist_at s r) sequence of None \<Rightarrow> s | Some i \<Rightarrow> prefix_list_entry_delete r i False s);
     let s2 = plist_upd r (\<lambda>pl. pl\<lparr>pl_entries := snd (insert_at (\<lambda>x. pe_seq x \<ge> sequence) e (pl_entries pl)),
                                  pl_count := pl_count pl + 1\<rparr>) s1;
     let s3 = in_master (fst r) (\<lambda>m. if pm_add_hook m then plist_hook_call (Plist_add (pl_name (plist_at s2 r))) m else m) s2;
     Some (in_master (fst r) (\<lambda>m. m\<lparr>pm_recent := Some (pl_name (plist_at s3 r))\<rparr>) s3)
   }"

definition prefix_list_entry_match :: "prefix_list_entry \<Rightarrow> prefix_t \<Rightarrow> bool" where
  "prefix_list_entry_match pentry p =
     (if \<not> prefix_match (pe_prefix pentry) p then False
      else if pe_le pentry = 0 \<and> pe_ge pentry = 0 then prefixlen (pe_prefix pentry) = prefixlen p
      else if pe_le pentry \<noteq> 0 \<and> int (prefixlen p) > pe_le pentry then False
      else if pe_ge pentry \<noteq> 0 \<and> int (prefixlen p) < pe_ge pentry then False
      else True)"

text \<open>The loop of \<^verbatim>\<open>prefix_list_apply\<close> counts the entries it looks at and the one that matches.\<close>

fun entries_apply :: "prefix_list_entry list \<Rightarrow> prefix_t \<Rightarrow> prefix_list_type \<times> prefix_list_entry list" where
  "entries_apply [] p = (PREFIX_DENY, [])"
| "entries_apply (e # es) p =
     (let e1 = e\<lparr>pe_refcnt := pe_refcnt e + 1\<rparr> in
      if prefix_list_entry_match e p then (pe_type e, e1\<lparr>pe_hitcnt := pe_hitcnt e + 1\<rparr> # es)
      else let (r, es1) = entries_apply es p in (r, e1 # es1))"

definition prefix_list_apply :: "prefix_list option \<Rightarrow> prefix_t \<Rightarrow> prefix_list_type \<times> prefix_list option" where
  "prefix_list_apply plist p =
     (case plist of
        None \<Rightarrow> (PREFIX_DENY, None)
      | Some pl \<Rightarrow>
          if pl_count pl = 0 then (PREFIX_PERMIT, Some pl)
          else let (r, es) = entries_apply (pl_entries pl) p in (r, Some (pl\<lparr>pl_entries := es\<rparr>)))"

definition prefix_entry_dup_check :: "prefix_list \<Rightarrow> prefix_list_entry \<Rightarrow> nat option option" where
  "prefix_entry_dup_check plist new = do {
     sequence \<leftarrow> (if pe_seq new = -1 then prefix_new_seq_get plist else Some (pe_seq new));
     Some (index_of (\<lambda>e. prefix_same (pe_prefix e) (pe_prefix new) \<and> pe_type e = pe_type new \<and> pe_le e = pe_le new \<and>
                         pe_ge e = pe_ge new \<and> pe_seq e \<noteq> sequence) (pl_entries plist))
   }"

section \<open>Commands\<close>

text \<open>\<^verbatim>\<open>atoi\<close> is undefined on a number that an \<^verbatim>\<open>int\<close> does not hold.\<close>

definition atoi_int :: "string \<Rightarrow> int option" where
  "atoi_int str = (let v = atoi str in if - (2 ^ 31) \<le> v \<and> v \<le> INT_MAX then Some v else None)"

definition number_arg :: "int \<Rightarrow> string option \<Rightarrow> int option" where
  "number_arg missing arg = (case arg of None \<Rightarrow> Some missing | Some str \<Rightarrow> atoi_int str)"

text \<open>\<^verbatim>\<open>strncmp ("permit", typestr, 1) == 0\<close>: the first letter decides.\<close>

definition str2plist_type :: "string \<Rightarrow> prefix_list_type option" where
  "str2plist_type typestr =
     (if take 1 typestr = ''p'' then Some PREFIX_PERMIT
      else if take 1 typestr = ''d'' then Some PREFIX_DENY else None)"

text \<open>\<^verbatim>\<open>strncmp ("any", prefix, strlen (prefix)) == 0\<close>: any initial part of the word will do.\<close>

definition is_any :: "string \<Rightarrow> bool" where
  "is_any str \<longleftrightarrow> prefix str ''any''"

abbreviation max_len :: "nat \<Rightarrow> nat" where
  "max_len afi \<equiv> (if afi = AFI_IP then IPV4_MAX_BITLEN else IPV6_MAX_BITLEN)"

definition plist_prefix_arg ::
    "(string \<Rightarrow> in_addr option) \<Rightarrow> (string \<Rightarrow> u8 list option) \<Rightarrow> nat \<Rightarrow> string \<Rightarrow> prefix_t \<Rightarrow> nat \<times> prefix_t" where
  "plist_prefix_arg inet_aton inet_pton afi str p0 =
     (if afi = AFI_IP then str2prefix_ipv4 inet_aton (if is_any str then ''0.0.0.0/0'' else str) p0
      else str2prefix_ipv6 inet_pton (if is_any str then ''::/0'' else str) p0)"

text \<open>
  \<open>p0\<close> is the local variable \<^verbatim>\<open>p\<close> before the parser fills it.
\<close>

definition vty_prefix_list_install ::
    "(string \<Rightarrow> in_addr option) \<Rightarrow> (string \<Rightarrow> u8 list option) \<Rightarrow> prefix_t \<Rightarrow> nat \<Rightarrow> string \<Rightarrow> string option \<Rightarrow> string \<Rightarrow>
     string \<Rightarrow> string option \<Rightarrow> string option \<Rightarrow> plist_state \<Rightarrow> (cmd_result \<times> plist_state) option" where
  "vty_prefix_list_install inet_aton inet_pton p0 afi name seq_str typestr pstr ge le s =
     (if \<not> (afi = AFI_IP \<or> afi = AFI_IP6) then Some (CMD_WARNING, s)
      else do {
        seqnum \<leftarrow> number_arg (-1) seq_str;
        genum0 \<leftarrow> number_arg 0 ge;
        lenum0 \<leftarrow> number_arg 0 le;
        case str2plist_type typestr of
          None \<Rightarrow> Some (CMD_WARNING, s)
        | Some type \<Rightarrow>
            let any = is_any pstr;
                (ret, p) = plist_prefix_arg inet_aton inet_pton afi pstr p0;
                genum = (if any then 0 else genum0);
                lenum = (if any then int (max_len afi) else lenum0)
            in if ret = 0 then Some (CMD_WARNING, s)
               else if genum \<noteq> 0 \<and> genum \<le> int (prefixlen p) then Some (CMD_WARNING, s)
               else if lenum \<noteq> 0 \<and> lenum \<le> int (prefixlen p) then Some (CMD_WARNING, s)
               else if lenum \<noteq> 0 \<and> genum > lenum then Some (CMD_WARNING, s)
               else do {
                 (r, s1) \<leftarrow> prefix_list_get afi False name s;
                 pentry \<leftarrow> prefix_list_entry_make p type seqnum (if genum \<noteq> 0 \<and> lenum = int (max_len afi) then 0 else lenum) genum any;
                 dup \<leftarrow> prefix_entry_dup_check (plist_at s1 r) pentry;
                 if dup \<noteq> None then Some (CMD_WARNING, s1)
                 else map_option (Pair CMD_SUCCESS) (prefix_list_entry_add r pentry s1)
               }
      })"

definition vty_prefix_list_uninstall ::
    "(string \<Rightarrow> in_addr option) \<Rightarrow> (string \<Rightarrow> u8 list option) \<Rightarrow> prefix_t \<Rightarrow> nat \<Rightarrow> string \<Rightarrow> string option \<Rightarrow> string option \<Rightarrow>
     string option \<Rightarrow> string option \<Rightarrow> string option \<Rightarrow> plist_state \<Rightarrow> (cmd_result \<times> plist_state) option" where
  "vty_prefix_list_uninstall inet_aton inet_pton p0 afi name seq_str typestr pstr ge le s =
     (case prefix_list_lookup afi (Some name) s of
        None \<Rightarrow> Some (CMD_WARNING, s)
      | Some r \<Rightarrow>
          if seq_str = None \<and> typestr = None \<and> pstr = None \<and> ge = None \<and> le = None then Some (CMD_SUCCESS, prefix_list_delete r s)
          else
            (case (typestr, pstr) of
               (Some tstr, Some str) \<Rightarrow> do {
                 seqnum \<leftarrow> number_arg (-1) seq_str;
                 genum0 \<leftarrow> number_arg 0 ge;
                 lenum0 \<leftarrow> number_arg 0 le;
                 case str2plist_type tstr of
                   None \<Rightarrow> Some (CMD_WARNING, s)
                 | Some type \<Rightarrow>
                     let (ret, p) = plist_prefix_arg inet_aton inet_pton afi str p0;
                         genum = (if is_any str then 0 else genum0);
                         lenum = (if is_any str then int (max_len afi) else lenum0)
                     in if ret = 0 then Some (CMD_WARNING, s)
                        else
                          (case prefix_list_entry_lookup (plist_at s r) p type seqnum lenum genum of
                             None \<Rightarrow> Some (CMD_WARNING, s)
                           | Some i \<Rightarrow> Some (CMD_SUCCESS, prefix_list_entry_delete r i True s))
               }
             | _ \<Rightarrow> Some (CMD_WARNING, s)))"

definition ip_prefix_list_description :: "nat \<Rightarrow> string \<Rightarrow> string \<Rightarrow> plist_state \<Rightarrow> (cmd_result \<times> plist_state) option" where
  "ip_prefix_list_description afi name desc s = do {
     (r, s1) \<leftarrow> prefix_list_get afi False name s;
     Some (CMD_SUCCESS, plist_upd r (\<lambda>pl. pl\<lparr>pl_desc := Some desc\<rparr>) s1)
   }"

definition vty_prefix_list_desc_unset :: "nat \<Rightarrow> string \<Rightarrow> plist_state \<Rightarrow> cmd_result \<times> plist_state" where
  "vty_prefix_list_desc_unset afi name s =
     (case prefix_list_lookup afi (Some name) s of
        None \<Rightarrow> (CMD_WARNING, s)
      | Some r \<Rightarrow>
          let s1 = plist_upd r (\<lambda>pl. pl\<lparr>pl_desc := None\<rparr>) s
          in (CMD_SUCCESS, if pl_entries (plist_at s1 r) = [] \<and> pl_desc (plist_at s1 r) = None then prefix_list_delete r s1 else s1))"

definition ip_prefix_list_sequence_number :: "nat \<Rightarrow> bool \<Rightarrow> plist_state \<Rightarrow> plist_state" where
  "ip_prefix_list_sequence_number afi on s =
     (case prefix_master_get afi False of None \<Rightarrow> s | Some k \<Rightarrow> in_master k (\<lambda>m. m\<lparr>pm_seqnum := on\<rparr>) s)"

definition clear_hits :: "(prefix_list_entry \<Rightarrow> bool) \<Rightarrow> prefix_list \<Rightarrow> prefix_list" where
  "clear_hits P pl = pl\<lparr>pl_entries := map (\<lambda>e. if P e then e\<lparr>pe_hitcnt := 0\<rparr> else e) (pl_entries pl)\<rparr>"

definition vty_clear_prefix_list ::
    "(string \<Rightarrow> nat \<times> prefix_t) \<Rightarrow> nat \<Rightarrow> string option \<Rightarrow> string option \<Rightarrow> plist_state \<Rightarrow> cmd_result \<times> plist_state" where
  "vty_clear_prefix_list parse afi name pstr s =
     (case prefix_master_get afi False of
        None \<Rightarrow> (CMD_WARNING, s)
      | Some k \<Rightarrow>
          if name = None \<and> pstr = None then
            (CMD_SUCCESS, in_master k (\<lambda>m. m\<lparr>pm_num := map (clear_hits (\<lambda>_. True)) (pm_num m),
                                              pm_str := map (clear_hits (\<lambda>_. True)) (pm_str m)\<rparr>) s)
          else
            (case prefix_list_lookup afi name s of
               None \<Rightarrow> (CMD_WARNING, s)
             | Some r \<Rightarrow>
                 (case pstr of
                    None \<Rightarrow> (CMD_SUCCESS, plist_upd r (clear_hits (\<lambda>_. True)) s)
                  | Some str \<Rightarrow>
                      let (ret, p) = parse str
                      in if ret = 0 then (CMD_WARNING, s)
                         else (CMD_SUCCESS, plist_upd r (clear_hits (\<lambda>e. prefix_match (pe_prefix e) p)) s))))"

section \<open>Outbound route filters\<close>

record orf_prefix =
  orf_seq :: u32
  orf_ge :: u8
  orf_le :: u8
  orf_p :: prefix_t

text \<open>The sequence number is converted from unsigned to signed.\<close>

definition prefix_bgp_orf_set :: "string \<Rightarrow> nat \<Rightarrow> orf_prefix \<Rightarrow> bool \<Rightarrow> bool \<Rightarrow> plist_state \<Rightarrow> (cmd_result \<times> plist_state) option" where
  "prefix_bgp_orf_set name afi orfp permit set_f s =
     (let ge = uint (orf_ge orfp); le = uint (orf_le orfp); len = int (prefixlen (orf_p orfp)) in
      if ge \<noteq> 0 \<and> ge \<le> len then Some (CMD_WARNING, s)
      else if le \<noteq> 0 \<and> le \<le> len then Some (CMD_WARNING, s)
      else if le \<noteq> 0 \<and> ge > le then Some (CMD_WARNING, s)
      else
        let le1 = (if ge \<noteq> 0 \<and> le = int (max_len afi) then 0 else le);
            type = (if permit then PREFIX_PERMIT else PREFIX_DENY)
        in case prefix_list_get afi True name s of
             None \<Rightarrow> Some (CMD_WARNING, s)
           | Some (r, s1) \<Rightarrow>
               if set_f then do {
                 pentry \<leftarrow> prefix_list_entry_make (orf_p orfp) type (sint (orf_seq orfp)) le1 ge False;
                 dup \<leftarrow> prefix_entry_dup_check (plist_at s1 r) pentry;
                 if dup \<noteq> None then Some (CMD_WARNING, s1)
                 else map_option (Pair CMD_SUCCESS) (prefix_list_entry_add r pentry s1)
               } else
                 (case prefix_list_entry_lookup (plist_at s1 r) (orf_p orfp) type (sint (orf_seq orfp)) le1 ge of
                    None \<Rightarrow> Some (CMD_WARNING, s1)
                  | Some i \<Rightarrow> Some (CMD_SUCCESS, prefix_list_entry_delete r i True s1)))"

definition prefix_bgp_orf_remove_all :: "nat \<Rightarrow> string \<Rightarrow> plist_state \<Rightarrow> plist_state" where
  "prefix_bgp_orf_remove_all afi name s =
     (case prefix_bgp_orf_lookup afi (Some name) s of None \<Rightarrow> s | Some r \<Rightarrow> prefix_list_delete r s)"

fun orf_entries :: "u8 \<Rightarrow> u8 \<Rightarrow> u8 \<Rightarrow> prefix_list_entry list \<Rightarrow> stream_t \<Rightarrow> stream_t option" where
  "orf_entries init permit deny [] st = Some st"
| "orf_entries init permit deny (e # es) st = do {
     (_, st1) \<leftarrow> stream_putc (init OR (if pe_type e = PREFIX_PERMIT then permit else deny)) st;
     (_, st2) \<leftarrow> stream_putl (of_int (pe_seq e)) st1;
     (_, st3) \<leftarrow> stream_putc (of_int (pe_ge e)) st2;
     (_, st4) \<leftarrow> stream_putc (of_int (pe_le e)) st3;
     (_, st5) \<leftarrow> stream_put_prefix (pe_prefix e) st4;
     orf_entries init permit deny es st5
   }"

definition prefix_bgp_orf_entry :: "stream_t \<Rightarrow> prefix_list option \<Rightarrow> u8 \<Rightarrow> u8 \<Rightarrow> u8 \<Rightarrow> stream_t option" where
  "prefix_bgp_orf_entry st plist init_flag permit_flag deny_flag =
     (case plist of None \<Rightarrow> Some st | Some pl \<Rightarrow> orf_entries init_flag permit_flag deny_flag (pl_entries pl) st)"

section \<open>Reset\<close>

text \<open>The loop keeps the successor of a list before it deletes the list, so it deletes the heads one by one.\<close>

fun delete_heads :: "nat \<Rightarrow> master_id \<Rightarrow> prefix_name_type \<Rightarrow> plist_state \<Rightarrow> plist_state" where
  "delete_heads 0 k ty s = s"
| "delete_heads (Suc n) k ty s = delete_heads n k ty (prefix_list_delete (k, ty, 0) s)"

definition prefix_list_reset_afi :: "nat \<Rightarrow> bool \<Rightarrow> plist_state \<Rightarrow> plist_state option" where
  "prefix_list_reset_afi afi orf s =
     (case prefix_master_get afi orf of
        None \<Rightarrow> Some s
      | Some k \<Rightarrow>
          let s1 = delete_heads (length (pm_num (s k))) k PREFIX_TYPE_NUMBER s;
              s2 = delete_heads (length (pm_str (s1 k))) k PREFIX_TYPE_STRING s1
          in if pm_num (s2 k) = [] \<and> pm_str (s2 k) = [] then Some (in_master k (\<lambda>m. m\<lparr>pm_seqnum := True, pm_recent := None\<rparr>) s2)
             else None)"

definition prefix_list_reset :: "plist_state \<Rightarrow> plist_state option" where
  "prefix_list_reset s = do {
     s1 \<leftarrow> prefix_list_reset_afi AFI_IP False s;
     s2 \<leftarrow> prefix_list_reset_afi AFI_IP6 False s1;
     s3 \<leftarrow> prefix_list_reset_afi AFI_IP True s2;
     prefix_list_reset_afi AFI_IP6 True s3
   }"

section \<open>Entries in order\<close>

interpretation np: named_lists pl_name "\<lambda>x. pl_type x = PREFIX_TYPE_NUMBER" .

abbreviation in_order :: "prefix_list_entry list \<Rightarrow> bool" where
  "in_order es \<equiv> sorted_wrt (\<lambda>x y. pe_seq x < pe_seq y) es"

definition plist_ok :: "prefix_list \<Rightarrow> bool" where
  "plist_ok pl \<longleftrightarrow> in_order (pl_entries pl) \<and> pl_count pl = int (length (pl_entries pl))"

lemma unlink_index:
  assumes "in_order es" "index_of (\<lambda>e. pe_seq e = q) es = Some i"
  shows "unlink i es = filter (\<lambda>e. pe_seq e \<noteq> q) es"
proof -
  have i: "i < length es" "pe_seq (es ! i) = q" using index_of_Some [OF assms(2)] by auto
  have es: "es = take i es @ es ! i # drop (Suc i) es" using i(1) by (rule id_take_nth_drop)
  have "in_order (take i es @ es ! i # drop (Suc i) es)" using assms(1) es by simp
  then have "\<forall>e \<in> set (take i es). pe_seq e \<noteq> q" "\<forall>e \<in> set (drop (Suc i) es). pe_seq e \<noteq> q" using i(2) by (fastforce simp: sorted_wrt_append)+
  then show ?thesis by (subst (2) es) (simp add: unlink_def i(2))
qed

lemma insert_in_order:
  assumes "in_order es" "\<forall>x \<in> set es. pe_seq x \<noteq> q"
  shows "snd (insert_at (\<lambda>x. pe_seq x \<ge> q) e es) = filter (\<lambda>x. pe_seq x < q) es @ e # filter (\<lambda>x. pe_seq x > q) es"
  using assms
proof (induction es)
  case Nil
  then show ?case by (simp add: insert_at_def)
next
  case (Cons x es)
  show ?case
  proof (cases "pe_seq x \<ge> q")
    case True
    then have "\<forall>y \<in> set (x # es). pe_seq y > q" using Cons.prems by fastforce
    then have "filter (\<lambda>x. pe_seq x < q) (x # es) = []" "filter (\<lambda>x. pe_seq x > q) (x # es) = x # es" by (auto simp: filter_empty_conv)
    then show ?thesis using True by (simp add: insert_at_Cons)
  next
    case False
    then show ?thesis using Cons by (simp add: insert_at_Cons)
  qed
qed

text \<open>The entries after an entry with the sequence number \<open>q\<close> was added: it replaces the one with that number.\<close>

definition put_entry :: "int \<Rightarrow> prefix_list_entry \<Rightarrow> prefix_list_entry list \<Rightarrow> prefix_list_entry list" where
  "put_entry q e es = filter (\<lambda>x. pe_seq x < q) es @ e # filter (\<lambda>x. pe_seq x > q) es"

lemma put_entry_in_order: "in_order es \<Longrightarrow> pe_seq e = q \<Longrightarrow> in_order (put_entry q e es)"
  by (auto simp: put_entry_def sorted_wrt_append sorted_wrt_filter)

lemma in_order_unlink: "in_order es \<Longrightarrow> in_order (unlink i es)"
  by (rule sorted_wrt_unlink)

lemma plist_ok_unlink: "plist_ok pl \<Longrightarrow> i < length (pl_entries pl) \<Longrightarrow> plist_ok (pl\<lparr>pl_entries := unlink i (pl_entries pl), pl_count := pl_count pl - 1\<rparr>)"
  by (auto simp: plist_ok_def in_order_unlink length_unlink)

section \<open>Well-formed masters\<close>

definition master_ok :: "prefix_master \<Rightarrow> bool" where
  "master_ok m \<longleftrightarrow> np.chains_wf (pm_num m) (pm_str m) \<and> (\<forall>pl \<in> set (pm_num m) \<union> set (pm_str m). plist_ok pl) \<and>
     (\<forall>nm. pm_recent m = Some nm \<longrightarrow> np.by_name (pm_num m) (pm_str m) nm \<noteq> None)"

definition state_ok :: "plist_state \<Rightarrow> bool" where
  "state_ok s \<longleftrightarrow> (\<forall>k. master_ok (s k))"

definition plists :: "plist_state \<Rightarrow> master_id \<Rightarrow> string \<rightharpoonup> prefix_list" where
  "plists s k = np.by_name (pm_num (s k)) (pm_str (s k))"

fun valid_plist :: "plist_state \<Rightarrow> plist_ref \<Rightarrow> bool" where
  "valid_plist s (k, ty, i) \<longleftrightarrow> i < length (chain ty (s k))"

lemma in_master_simps [simp]: "in_master k f s k = f (s k)" "k' \<noteq> k \<Longrightarrow> in_master k f s k' = s k'"
  by (simp_all add: in_master_def)

lemma chain_simps [simp]: "chain ty (set_chain ty xs m) = xs"
  "pm_recent (set_chain ty xs m) = pm_recent m" "pm_delete_hook (set_chain ty xs m) = pm_delete_hook m" "pm_add_hook (set_chain ty xs m) = pm_add_hook m"
  by (simp_all add: chain_def set_chain_def)

lemma state_ok_init: "state_ok plist_init"
  by (simp add: state_ok_def plist_init_def master_ok_def)

lemma state_okD: "state_ok s \<Longrightarrow> master_ok (s k)"
  by (simp add: state_ok_def)

lemma state_ok_in_master: "state_ok s \<Longrightarrow> master_ok (f (s k)) \<Longrightarrow> state_ok (in_master k f s)"
  by (auto simp: state_ok_def in_master_def)

lemma plists_in_master: "plists (in_master k f s) k' = (if k' = k then np.by_name (pm_num (f (s k))) (pm_str (f (s k))) else plists s k')"
  by (simp add: plists_def in_master_def)

lemma plist_at_ok:
  assumes "state_ok s" "valid_plist s r"
  shows "plist_ok (plist_at s r)" "plists s (fst r) (pl_name (plist_at s r)) = Some (plist_at s r)"
proof -
  obtain k ty i where r: "r = (k, ty, i)" by (cases r)
  have m: "master_ok (s k)" by (rule state_okD [OF assms(1)])
  show "plist_ok (plist_at s r)" using m assms(2) by (auto simp: r chain_def master_ok_def dest: nth_mem split: if_splits)
  show "plists s (fst r) (pl_name (plist_at s r)) = Some (plist_at s r)"
    using m assms(2) np.lookup_num [of "pm_num (s k)" "pm_str (s k)" i] np.lookup_str [of "pm_num (s k)" "pm_str (s k)" i]
    by (auto simp: r chain_def master_ok_def plists_def split: if_splits)
qed

lemma master_change:
  assumes m: "master_ok m" and i: "i < length (chain ty m)" and f: "pl_name x = pl_name (chain ty m ! i)" "pl_type x = pl_type (chain ty m ! i)" "plist_ok x"
  shows "master_ok (set_chain ty ((chain ty m)[i := x]) m) \<and>
    np.by_name (pm_num (set_chain ty ((chain ty m)[i := x]) m)) (pm_str (set_chain ty ((chain ty m)[i := x]) m)) = (np.by_name (pm_num m) (pm_str m))(pl_name x \<mapsto> x)"
proof (cases "ty = PREFIX_TYPE_NUMBER")
  case True
  have "set ((pm_num m)[i := x]) \<subseteq> insert x (set (pm_num m))" by (rule set_update_subset_insert)
  then show ?thesis using m i f True np.change_num [of "pm_num m" "pm_str m" i x] by (auto simp: master_ok_def chain_def set_chain_def)
next
  case False
  have "set ((pm_str m)[i := x]) \<subseteq> insert x (set (pm_str m))" by (rule set_update_subset_insert)
  then show ?thesis using m i f False np.change_str [of "pm_num m" "pm_str m" i x] by (auto simp: master_ok_def chain_def set_chain_def)
qed

lemma plist_upd_spec:
  assumes s: "state_ok s" and v: "valid_plist s r"
    and f: "pl_name (f (plist_at s r)) = pl_name (plist_at s r)" "pl_type (f (plist_at s r)) = pl_type (plist_at s r)" "plist_ok (f (plist_at s r))"
  shows "state_ok (plist_upd r f s) \<and> valid_plist (plist_upd r f s) r \<and> plist_at (plist_upd r f s) r = f (plist_at s r) \<and>
    plists (plist_upd r f s) (fst r) = (plists s (fst r))(pl_name (plist_at s r) \<mapsto> f (plist_at s r)) \<and>
    (\<forall>k. k \<noteq> fst r \<longrightarrow> plist_upd r f s k = s k)"
proof -
  obtain k ty i where r: "r = (k, ty, i)" by (cases r)
  have "master_ok (set_chain ty ((chain ty (s k))[i := f (chain ty (s k) ! i)]) (s k)) \<and>
    np.by_name (pm_num (set_chain ty ((chain ty (s k))[i := f (chain ty (s k) ! i)]) (s k))) (pm_str (set_chain ty ((chain ty (s k))[i := f (chain ty (s k) ! i)]) (s k))) =
    (plists s k)(pl_name (chain ty (s k) ! i) \<mapsto> f (chain ty (s k) ! i))"
    using master_change [OF state_okD [OF s, of k], of i ty "f (chain ty (s k) ! i)"] v f by (simp add: r plists_def)
  then show ?thesis using s v by (simp add: r state_ok_in_master plists_in_master)
qed

lemma plist_delete_spec:
  assumes s: "state_ok s" and v: "valid_plist s r"
  shows "state_ok (prefix_list_delete r s) \<and> plists (prefix_list_delete r s) (fst r) = (plists s (fst r))(pl_name (plist_at s r) := None) \<and>
    (\<forall>k. k \<noteq> fst r \<longrightarrow> prefix_list_delete r s k = s k)"
proof -
  obtain k ty i where r: "r = (k, ty, i)" by (cases r)
  let ?m = "s k"
  have m: "master_ok ?m" by (rule state_okD [OF s])
  have i: "i < length (chain ty ?m)" using v by (simp add: r)
  have "set (unlink i (chain ty ?m)) \<subseteq> set (chain ty ?m)" by (rule set_unlink_subset)
  then have u: "np.chains_wf (pm_num (set_chain ty (unlink i (chain ty ?m)) ?m)) (pm_str (set_chain ty (unlink i (chain ty ?m)) ?m))"
    "\<forall>pl \<in> set (pm_num (set_chain ty (unlink i (chain ty ?m)) ?m)) \<union> set (pm_str (set_chain ty (unlink i (chain ty ?m)) ?m)). plist_ok pl"
    "np.by_name (pm_num (set_chain ty (unlink i (chain ty ?m)) ?m)) (pm_str (set_chain ty (unlink i (chain ty ?m)) ?m)) = (plists s k)(pl_name (chain ty ?m ! i) := None)"
    using m i np.unlink_num [of "pm_num ?m" "pm_str ?m" i] np.unlink_str [of "pm_num ?m" "pm_str ?m" i]
    by (auto simp: master_ok_def chain_def set_chain_def plists_def split: if_splits)
  then show ?thesis using s by (auto simp: r Let_def plist_hook_call_def plists_in_master master_ok_def intro!: state_ok_in_master)
qed

abbreviation new_plist :: "string \<Rightarrow> prefix_list" where
  "new_plist nm \<equiv> \<lparr>pl_name = nm, pl_desc = None, pl_type = (if all_digit nm then PREFIX_TYPE_NUMBER else PREFIX_TYPE_STRING),
     pl_count = 0, pl_entries = []\<rparr>"

lemma plist_lookup_spec:
  assumes s: "state_ok s" and k: "prefix_master_get afi orf = Some k"
  shows "case prefix_list_lookup_do afi orf (Some nm) s of
      None \<Rightarrow> plists s k nm = None
    | Some r \<Rightarrow> fst r = k \<and> valid_plist s r \<and> pl_name (plist_at s r) = nm \<and> plists s k nm = Some (plist_at s r)"
proof -
  let ?P = "\<lambda>x. pl_name x = nm"
  have found: "fst r = k \<and> valid_plist s r \<and> pl_name (plist_at s r) = nm \<and> plists s k nm = Some (plist_at s r)"
    if "index_of ?P (chain ty (s k)) = Some i" "r = (k, ty, i)" for ty i r
    using index_of_Some [OF that(1)] that(2) plist_at_ok(2) [OF s, of r] by auto
  show ?thesis
  proof (cases "index_of ?P (pm_num (s k))")
    case (Some i)
    then show ?thesis using found [of PREFIX_TYPE_NUMBER i] k by (simp add: prefix_list_lookup_do_def chain_def)
  next
    case num: None
    show ?thesis
    proof (cases "index_of ?P (pm_str (s k))")
      case (Some i)
      then show ?thesis using num found [of PREFIX_TYPE_STRING i] k by (simp add: prefix_list_lookup_do_def chain_def)
    next
      case None
      then have "plists s k nm = None" using num unfolding plists_def np.by_name_None by (auto simp: index_of_None)
      then show ?thesis using num None k by (simp add: prefix_list_lookup_do_def)
    qed
  qed
qed

lemma master_insert:
  fixes m :: prefix_master
  assumes m: "master_ok m" and none: "np.by_name (pm_num m) (pm_str m) nm = None"
  defines "ty \<equiv> (if all_digit nm then PREFIX_TYPE_NUMBER else PREFIX_TYPE_STRING)"
  defines "ins \<equiv> insert_at (if all_digit nm then (\<lambda>x. atoi (pl_name x) \<ge> dec_val 0 nm) else (\<lambda>x. pl_name x \<ge> nm)) (new_plist nm) (chain ty m)"
  shows "master_ok (set_chain ty (snd ins) m) \<and>
    np.by_name (pm_num (set_chain ty (snd ins) m)) (pm_str (set_chain ty (snd ins) m)) = (np.by_name (pm_num m) (pm_str m))(nm \<mapsto> new_plist nm)"
  using m none np.insert_num [of "pm_num m" "pm_str m" "new_plist nm"] np.insert_str [of "pm_num m" "pm_str m" "new_plist nm"]
  by (cases "all_digit nm") (auto simp: master_ok_def ty_def ins_def chain_def set_chain_def set_insert_at plist_ok_def)

lemma plist_insert_spec:
  assumes s: "state_ok s" and k: "prefix_master_get afi orf = Some k" and none: "plists s k nm = None"
  shows "\<exists>r s'. prefix_list_insert afi orf nm s = Some (r, s') \<and> fst r = k \<and> state_ok s' \<and> valid_plist s' r \<and> plist_at s' r = new_plist nm \<and>
    plists s' k = (plists s k)(nm \<mapsto> new_plist nm) \<and> (\<forall>k'. k' \<noteq> k \<longrightarrow> s' k' = s k')"
proof -
  define ty where "ty = (if all_digit nm then PREFIX_TYPE_NUMBER else PREFIX_TYPE_STRING)"
  define ins where "ins = insert_at (if all_digit nm then (\<lambda>x. atoi (pl_name x) \<ge> dec_val 0 nm) else (\<lambda>x. pl_name x \<ge> nm)) (new_plist nm) (chain ty (s k))"
  define s' where "s' = in_master k (set_chain ty (snd ins)) s"
  have "prefix_list_insert afi orf nm s = Some ((k, ty, fst ins), s')"
    using k by (simp add: prefix_list_insert_def Let_def split_def ty_def ins_def s'_def chain_def set_chain_def in_master_def prefix_list_new_def)
  moreover have i: "master_ok (set_chain ty (snd ins) (s k))"
    "np.by_name (pm_num (set_chain ty (snd ins) (s k))) (pm_str (set_chain ty (snd ins) (s k))) = (plists s k)(nm \<mapsto> new_plist nm)"
    using master_insert [OF state_okD [OF s, of k], of nm] none by (simp_all add: plists_def ty_def ins_def)
  moreover have "fst ins < length (snd ins) \<and> snd ins ! fst ins = new_plist nm"
    by (simp only: ins_def nth_insert_at simp_thms)
  ultimately show ?thesis using s by (simp add: s'_def state_ok_in_master plists_in_master)
qed

lemma plist_get_spec:
  fixes nm :: string
  assumes s: "state_ok s" and k: "prefix_master_get afi orf = Some k"
  defines "pl \<equiv> (case plists s k nm of None \<Rightarrow> new_plist nm | Some pl \<Rightarrow> pl)"
  shows "\<exists>r s'. prefix_list_get afi orf nm s = Some (r, s') \<and> fst r = k \<and> state_ok s' \<and> valid_plist s' r \<and> plist_at s' r = pl \<and> pl_name pl = nm \<and>
    plists s' k = (plists s k)(nm \<mapsto> pl) \<and> (\<forall>k'. k' \<noteq> k \<longrightarrow> s' k' = s k') \<and> (plists s k nm \<noteq> None \<longrightarrow> s' = s)"
proof (cases "prefix_list_lookup_do afi orf (Some nm) s")
  case None
  then have none: "plists s k nm = None" using plist_lookup_spec [OF s k, of nm] by simp
  then show ?thesis using plist_insert_spec [OF s k none] None by (simp add: prefix_list_get_def pl_def)
next
  case (Some r)
  then have r: "fst r = k" "valid_plist s r" "pl_name (plist_at s r) = nm" "plists s k nm = Some (plist_at s r)"
    using plist_lookup_spec [OF s k, of nm] by simp_all
  then have "(plists s k)(nm \<mapsto> plist_at s r) = plists s k" by (metis fun_upd_triv)
  then show ?thesis using Some r s by (simp add: prefix_list_get_def pl_def)
qed

text \<open>Steps that leave the chains alone.\<close>

lemma same_chains:
  assumes "pm_num (f (s k)) = pm_num (s k)" "pm_str (f (s k)) = pm_str (s k)"
  shows "plists (in_master k f s) = plists s" "valid_plist (in_master k f s) r = valid_plist s r" "plist_at (in_master k f s) r = plist_at s r"
  using assms by (cases r; auto simp: plists_def in_master_def chain_def fun_eq_iff)+

lemma hook_state:
  assumes "state_ok s"
  shows "state_ok (in_master k (\<lambda>m. if P m then plist_hook_call c m else m) s)" "plists (in_master k (\<lambda>m. if P m then plist_hook_call c m else m) s) = plists s"
    "valid_plist (in_master k (\<lambda>m. if P m then plist_hook_call c m else m) s) r = valid_plist s r" "plist_at (in_master k (\<lambda>m. if P m then plist_hook_call c m else m) s) r = plist_at s r"
proof -
  show "state_ok (in_master k (\<lambda>m. if P m then plist_hook_call c m else m) s)"
    using state_okD [OF assms, of k] by (intro state_ok_in_master [OF assms]) (simp add: master_ok_def plist_hook_call_def)
qed (rule same_chains; simp add: plist_hook_call_def)+

lemma recent_state:
  assumes "state_ok s" "valid_plist s r"
  shows "state_ok (in_master (fst r) (\<lambda>m. m\<lparr>pm_recent := Some (pl_name (plist_at s r))\<rparr>) s)"
    "plists (in_master (fst r) (\<lambda>m. m\<lparr>pm_recent := Some (pl_name (plist_at s r))\<rparr>) s) = plists s"
proof -
  show "state_ok (in_master (fst r) (\<lambda>m. m\<lparr>pm_recent := Some (pl_name (plist_at s r))\<rparr>) s)"
    using state_okD [OF assms(1), of "fst r"] plist_at_ok(2) [OF assms] by (intro state_ok_in_master [OF assms(1)]) (simp add: master_ok_def plists_def)
qed (rule same_chains; simp)

lemma entry_delete_spec:
  assumes s: "state_ok s" and v: "valid_plist s r" and i: "i < length (pl_entries (plist_at s r))"
  defines "pl \<equiv> (plist_at s r)\<lparr>pl_entries := unlink i (pl_entries (plist_at s r)), pl_count := pl_count (plist_at s r) - 1\<rparr>"
  shows "state_ok (prefix_list_entry_delete r i True s) \<and>
    plists (prefix_list_entry_delete r i True s) (fst r) =
      (plists s (fst r))(pl_name pl := (if pl_entries pl = [] \<and> pl_desc pl = None then None else Some pl)) \<and>
    (\<forall>k. k \<noteq> fst r \<longrightarrow> prefix_list_entry_delete r i True s k = s k)"
proof -
  define s1 where "s1 = plist_upd r (\<lambda>pl. pl\<lparr>pl_entries := unlink i (pl_entries pl), pl_count := pl_count pl - 1\<rparr>) s"
  have u: "state_ok s1" "valid_plist s1 r" "plist_at s1 r = pl" "plists s1 (fst r) = (plists s (fst r))(pl_name pl \<mapsto> pl)" "\<forall>k. k \<noteq> fst r \<longrightarrow> s1 k = s k"
    using plist_upd_spec [OF s v, of "\<lambda>pl. pl\<lparr>pl_entries := unlink i (pl_entries pl), pl_count := pl_count pl - 1\<rparr>"]
      plist_ok_unlink [OF plist_at_ok(1) [OF s v] i] by (simp_all add: s1_def pl_def)
  define s2 where "s2 = in_master (fst r) (\<lambda>m. if pm_delete_hook m then plist_hook_call (Plist_delete (Some (pl_name pl))) m else m) s1"
  have h: "state_ok s2" "plists s2 = plists s1" "valid_plist s2 r" "plist_at s2 r = pl" "\<forall>k. k \<noteq> fst r \<longrightarrow> s2 k = s k"
    unfolding s2_def using hook_state [OF u(1)] u(2,3,5) by auto
  have run: "prefix_list_entry_delete r i True s = (if pl_entries pl = [] \<and> pl_desc pl = None then prefix_list_delete r s2
      else in_master (fst r) (\<lambda>m. m\<lparr>pm_recent := Some (pl_name pl)\<rparr>) s2)"
    unfolding prefix_list_entry_delete_def Let_def s1_def [symmetric] u(3) s2_def [symmetric] h(4) by simp
  show ?thesis
  proof (cases "pl_entries pl = [] \<and> pl_desc pl = None")
    case True
    then show ?thesis using run plist_delete_spec [OF h(1,3)] h u by simp
  next
    case False
    have "prefix_list_entry_delete r i True s = in_master (fst r) (\<lambda>m. m\<lparr>pm_recent := Some (pl_name pl)\<rparr>) s2" using run unfolding if_not_P [OF False] .
    then show ?thesis unfolding if_not_P [OF False] using recent_state [OF h(1,3)] h u by simp
  qed
qed

lemma insert_put_entry:
  assumes "in_order es"
  shows "snd (insert_at (\<lambda>x. pe_seq x \<ge> q) e (filter (\<lambda>x. pe_seq x \<noteq> q) es)) = put_entry q e es"
proof -
  let ?es = "filter (\<lambda>x. pe_seq x \<noteq> q) es"
  have f: "filter (\<lambda>x. pe_seq x < q) ?es = filter (\<lambda>x. pe_seq x < q) es" "filter (\<lambda>x. pe_seq x > q) ?es = filter (\<lambda>x. pe_seq x > q) es"
    unfolding filter_filter by (rule filter_cong; auto)+
  have "in_order ?es" by (rule sorted_wrt_filter [OF assms])
  then have "snd (insert_at (\<lambda>x. pe_seq x \<ge> q) e ?es) = filter (\<lambda>x. pe_seq x < q) ?es @ e # filter (\<lambda>x. pe_seq x > q) ?es"
    by (rule insert_in_order) simp
  then show ?thesis unfolding put_entry_def f .
qed

text \<open>The entry with the same sequence number goes first.\<close>

lemma drop_same_seq:
  fixes q :: int
  assumes s: "state_ok s" and v: "valid_plist s r"
  defines "s1 \<equiv> (case prefix_seq_check (plist_at s r) q of None \<Rightarrow> s | Some i \<Rightarrow> prefix_list_entry_delete r i False s)"
  defines "pl \<equiv> (plist_at s r)\<lparr>pl_entries := filter (\<lambda>e. pe_seq e \<noteq> q) (pl_entries (plist_at s r)),
    pl_count := int (length (filter (\<lambda>e. pe_seq e \<noteq> q) (pl_entries (plist_at s r))))\<rparr>"
  shows "state_ok s1 \<and> valid_plist s1 r \<and> plist_at s1 r = pl \<and> plists s1 (fst r) = (plists s (fst r))(pl_name (plist_at s r) \<mapsto> pl) \<and> (\<forall>k. k \<noteq> fst r \<longrightarrow> s1 k = s k)"
proof -
  let ?pl = "plist_at s r"
  let ?es = "filter (\<lambda>e. pe_seq e \<noteq> q) (pl_entries ?pl)"
  have pl_ok: "plist_ok ?pl" by (rule plist_at_ok(1) [OF s v])
  then have ord: "in_order (pl_entries ?pl)" by (simp add: plist_ok_def)
  show ?thesis
  proof (cases "prefix_seq_check ?pl q")
    case None
    then have "?es = pl_entries ?pl" by (auto simp: prefix_seq_check_def index_of_None filter_id_conv)
    moreover have "?pl\<lparr>pl_entries := pl_entries ?pl, pl_count := int (length (pl_entries ?pl))\<rparr> = ?pl" using pl_ok by (simp add: plist_ok_def)
    ultimately show ?thesis using s v None plist_at_ok(2) [OF s v] by (simp add: s1_def pl_def fun_upd_idem)
  next
    case (Some i)
    then have i: "i < length (pl_entries ?pl)" "unlink i (pl_entries ?pl) = ?es"
      using index_of_Some unlink_index [OF ord] by (auto simp: prefix_seq_check_def)
    have ok: "plist_ok (?pl\<lparr>pl_entries := unlink i (pl_entries ?pl), pl_count := pl_count ?pl - 1\<rparr>)" by (rule plist_ok_unlink [OF pl_ok i(1)])
    then have c: "pl_count ?pl - 1 = int (length ?es)" using i(2) by (simp add: plist_ok_def)
    show ?thesis using plist_upd_spec [OF s v, of "\<lambda>pl. pl\<lparr>pl_entries := unlink i (pl_entries pl), pl_count := pl_count pl - 1\<rparr>"] ok Some
      by (simp add: s1_def pl_def prefix_list_entry_delete_def i(2) c)
  qed
qed

text \<open>The sequence number an entry gets.\<close>

definition seq_for :: "prefix_list \<Rightarrow> int \<Rightarrow> int option" where
  "seq_for pl q = (if q = -1 then prefix_new_seq_get pl else Some q)"

lemma entry_add_spec:
  assumes s: "state_ok s" and v: "valid_plist s r" and q: "seq_for (plist_at s r) (pe_seq e) = Some q"
  defines "pl \<equiv> (plist_at s r)\<lparr>pl_entries := put_entry q (e\<lparr>pe_seq := q\<rparr>) (pl_entries (plist_at s r)),
    pl_count := int (length (put_entry q (e\<lparr>pe_seq := q\<rparr>) (pl_entries (plist_at s r))))\<rparr>"
  shows "\<exists>s'. prefix_list_entry_add r e s = Some s' \<and> state_ok s' \<and> plists s' (fst r) = (plists s (fst r))(pl_name pl \<mapsto> pl) \<and>
    (\<forall>k. k \<noteq> fst r \<longrightarrow> s' k = s k)"
proof -
  let ?pl = "plist_at s r"
  let ?es = "filter (\<lambda>e. pe_seq e \<noteq> q) (pl_entries ?pl)"
  have pl_ok: "plist_ok ?pl" by (rule plist_at_ok(1) [OF s v])
  then have ord: "in_order (pl_entries ?pl)" by (simp add: plist_ok_def)
  define s1 where "s1 = (case prefix_seq_check ?pl q of None \<Rightarrow> s | Some i \<Rightarrow> prefix_list_entry_delete r i False s)"
  note 1 = drop_same_seq [OF s v, of q, folded s1_def]
  note put = insert_put_entry [OF ord, of q "e\<lparr>pe_seq := q\<rparr>"]
  have len: "int (length ?es) + 1 = int (length (put_entry q (e\<lparr>pe_seq := q\<rparr>) (pl_entries ?pl)))"
    unfolding put [symmetric] by (simp add: snd_insert_at fst_insert_at min_absorb2)
  define g :: "prefix_list \<Rightarrow> prefix_list" where "g = (\<lambda>pl. pl\<lparr>pl_entries := snd (insert_at (\<lambda>x. pe_seq x \<ge> q) (e\<lparr>pe_seq := q\<rparr>) (pl_entries pl)), pl_count := pl_count pl + 1\<rparr>)"
  define s2 where "s2 = plist_upd r g s1"
  have g: "g (plist_at s1 r) = pl" using 1 put len by (simp add: g_def pl_def)
  have n: "pl_name pl = pl_name (plist_at s1 r)" "pl_type pl = pl_type (plist_at s1 r)" "pl_name (plist_at s1 r) = pl_name ?pl" using 1 by (simp_all add: pl_def)
  have ok: "plist_ok pl" using put_entry_in_order [OF ord, of "e\<lparr>pe_seq := q\<rparr>" q] by (simp add: plist_ok_def pl_def)
  have "state_ok s2 \<and> valid_plist s2 r \<and> plist_at s2 r = g (plist_at s1 r) \<and> plists s2 (fst r) = (plists s1 (fst r))(pl_name (plist_at s1 r) \<mapsto> g (plist_at s1 r)) \<and>
      (\<forall>k. k \<noteq> fst r \<longrightarrow> s2 k = s1 k)"
    unfolding s2_def by (rule plist_upd_spec; (unfold g)?) (use 1 n ok in blast)+
  then have 2: "state_ok s2" "valid_plist s2 r" "plist_at s2 r = pl" "plists s2 (fst r) = (plists s (fst r))(pl_name pl \<mapsto> pl)" "\<forall>k. k \<noteq> fst r \<longrightarrow> s2 k = s k"
    unfolding g using 1 n by simp_all
  define s3 where "s3 = in_master (fst r) (\<lambda>m. if pm_add_hook m then plist_hook_call (Plist_add (pl_name (plist_at s2 r))) m else m) s2"
  have 3: "state_ok s3" "plists s3 = plists s2" "valid_plist s3 r" "\<forall>k. k \<noteq> fst r \<longrightarrow> s3 k = s k"
    unfolding s3_def using hook_state [OF 2(1)] 2(2,5) by auto
  have "prefix_list_entry_add r e s = Some (in_master (fst r) (\<lambda>m. m\<lparr>pm_recent := Some (pl_name (plist_at s3 r))\<rparr>) s3)"
    using q unfolding s3_def s2_def s1_def g_def by (simp add: prefix_list_entry_add_def seq_for_def Let_def)
  then show ?thesis using recent_state [OF 3(1,3)] 3 2(4) by simp
qed

section \<open>Commands on well-formed masters\<close>

text \<open>The list of a name before a command; a command that needs one makes it.\<close>

definition plist_before :: "plist_state \<Rightarrow> master_id \<Rightarrow> string \<Rightarrow> prefix_list" where
  "plist_before s k nm = (case plists s k nm of None \<Rightarrow> new_plist nm | Some pl \<Rightarrow> pl)"

definition with_entries :: "prefix_list_entry list \<Rightarrow> prefix_list \<Rightarrow> prefix_list" where
  "with_entries es pl = pl\<lparr>pl_entries := es, pl_count := int (length es)\<rparr>"

definition same_entry :: "prefix_list_entry \<Rightarrow> prefix_list_entry \<Rightarrow> bool" where
  "same_entry x e \<longleftrightarrow> prefix_same (pe_prefix x) (pe_prefix e) \<and> pe_type x = pe_type e \<and> pe_le x = pe_le e \<and> pe_ge x = pe_ge e"

lemma set_entry_spec:
  assumes s: "state_ok s" and k: "prefix_master_get afi orf = Some k" and g: "prefix_list_get afi orf nm s = Some (r, s1)"
    and dup: "prefix_entry_dup_check (plist_at s1 r) e = Some dup"
    and run: "(if dup \<noteq> None then Some (CMD_WARNING, s1) else map_option (Pair CMD_SUCCESS) (prefix_list_entry_add r e s1)) = Some (res, s')"
  shows "state_ok s' \<and> (\<forall>k'. k' \<noteq> k \<longrightarrow> s' k' = s k') \<and> (res = CMD_WARNING \<longrightarrow> s' = s) \<and>
    (res = CMD_SUCCESS \<longrightarrow> (\<exists>q. seq_for (plist_before s k nm) (pe_seq e) = Some q \<and>
      (\<forall>x \<in> set (pl_entries (plist_before s k nm)). same_entry x e \<longrightarrow> pe_seq x = q) \<and>
      plists s' k = (plists s k)(nm \<mapsto> with_entries (put_entry q (e\<lparr>pe_seq := q\<rparr>) (pl_entries (plist_before s k nm))) (plist_before s k nm))))"
proof -
  let ?pl = "plist_before s k nm"
  have g1: "fst r = k" "state_ok s1" "valid_plist s1 r" "plist_at s1 r = ?pl" "pl_name ?pl = nm" "plists s1 k = (plists s k)(nm \<mapsto> ?pl)"
    "\<forall>k'. k' \<noteq> k \<longrightarrow> s1 k' = s k'" "plists s k nm \<noteq> None \<longrightarrow> s1 = s"
    using plist_get_spec [OF s k, of nm] g by (auto simp: plist_before_def)
  obtain q where q: "seq_for ?pl (pe_seq e) = Some q" using dup g1(4) by (auto simp: prefix_entry_dup_check_def seq_for_def bind_eq_Some_conv)
  show ?thesis
  proof (cases dup)
    case (Some i)
    then have "pl_entries ?pl \<noteq> []" using dup g1(4) by (auto simp: prefix_entry_dup_check_def bind_eq_Some_conv dest!: index_of_Some)
    then have "s1 = s" using g1(8) by (auto simp: plist_before_def split: option.splits)
    then show ?thesis using run Some s by simp
  next
    case None
    obtain s2 where "prefix_list_entry_add r e s1 = Some s2" "state_ok s2" "plists s2 k = (plists s1 k)(nm \<mapsto> with_entries (put_entry q (e\<lparr>pe_seq := q\<rparr>) (pl_entries ?pl)) ?pl)"
      "\<forall>k'. k' \<noteq> k \<longrightarrow> s2 k' = s1 k'" using entry_add_spec [OF g1(2,3), of e q] q g1 by (auto simp: with_entries_def)
    moreover have "\<forall>x \<in> set (pl_entries ?pl). same_entry x e \<longrightarrow> pe_seq x = q"
      using dup None q g1(4) by (auto simp: prefix_entry_dup_check_def seq_for_def bind_eq_Some_conv index_of_None same_entry_def)
    ultimately show ?thesis using run None q g1 by auto
  qed
qed

lemma set_entry_run:
  assumes "do {
      (r, s1) \<leftarrow> get_s;
      e \<leftarrow> made;
      dup \<leftarrow> prefix_entry_dup_check (plist_at s1 r) e;
      if dup \<noteq> None then Some (CMD_WARNING, s1) else map_option (Pair CMD_SUCCESS) (prefix_list_entry_add r e s1) } = Some (res, s')"
  obtains r s1 e dup where "get_s = Some (r, s1)" "made = Some e" "prefix_entry_dup_check (plist_at s1 r) e = Some dup"
    "(if dup \<noteq> None then Some (CMD_WARNING, s1) else map_option (Pair CMD_SUCCESS) (prefix_list_entry_add r e s1)) = Some (res, s')"
proof (cases get_s)
  case (Some rs)
  obtain r s1 where rs: "rs = (r, s1)" by (cases rs)
  obtain e where e: "made = Some e" using assms Some rs by (cases made) auto
  obtain dup where d: "prefix_entry_dup_check (plist_at s1 r) e = Some dup" using assms Some rs e by (cases "prefix_entry_dup_check (plist_at s1 r) e") auto
  have "get_s = Some (r, s1)" using Some rs by simp
  moreover have "(if dup \<noteq> None then Some (CMD_WARNING, s1) else map_option (Pair CMD_SUCCESS) (prefix_list_entry_add r e s1)) = Some (res, s')"
    using assms unfolding Some rs e by (simp add: d)
  ultimately show thesis by (intro that [OF _ e d])
qed (use assms in simp)

lemma master_get_cases: "prefix_master_get afi orf = Some k \<Longrightarrow> afi = AFI_IP \<or> afi = AFI_IP6"
  by (auto simp: prefix_master_get_def split: if_splits)

text \<open>The entries that \<^verbatim>\<open>vty_prefix_list_install\<close> makes.\<close>

definition range_ok :: "prefix_list_entry \<Rightarrow> bool" where
  "range_ok e \<longleftrightarrow> (pe_ge e \<noteq> 0 \<longrightarrow> int (prefixlen (pe_prefix e)) < pe_ge e) \<and> (pe_le e \<noteq> 0 \<longrightarrow> int (prefixlen (pe_prefix e)) < pe_le e \<and> pe_ge e \<le> pe_le e)"

lemma prefix_copy_len: "prefix_copy d p = Some q \<Longrightarrow> prefixlen q = prefixlen p"
  by (auto simp: prefix_copy_def Let_def split: if_splits)

text \<open>The bounds a command line stands for.\<close>

definition ge_of :: "string \<Rightarrow> string option \<Rightarrow> int" where
  "ge_of str ge = (if is_any str then 0 else the (number_arg 0 ge))"

definition le_of :: "nat \<Rightarrow> string \<Rightarrow> string option \<Rightarrow> int" where
  "le_of afi str le = (if is_any str then int (max_len afi) else the (number_arg 0 le))"

lemma install_spec:
  assumes s: "state_ok s" and run: "vty_prefix_list_install aton pton p0 afi nm sq ty str ge le s = Some (res, s')"
  shows "state_ok s' \<and> (res = CMD_WARNING \<longrightarrow> s' = s) \<and>
    (res = CMD_SUCCESS \<longrightarrow> (\<exists>k q e. prefix_master_get afi False = Some k \<and> range_ok e \<and> pe_seq e = q \<and>
      Some (pe_type e) = str2plist_type ty \<and> prefix_copy prefix_new (snd (plist_prefix_arg aton pton afi str p0)) = Some (pe_prefix e) \<and>
      fst (plist_prefix_arg aton pton afi str p0) \<noteq> 0 \<and> seq_for (plist_before s k nm) (the (number_arg (-1) sq)) = Some q \<and>
      pe_ge e = ge_of str ge \<and> pe_le e = (if ge_of str ge \<noteq> 0 \<and> le_of afi str le = int (max_len afi) then 0 else le_of afi str le) \<and>
      (\<forall>x \<in> set (pl_entries (plist_before s k nm)). same_entry x e \<longrightarrow> pe_seq x = q) \<and>
      plists s' k = (plists s k)(nm \<mapsto> with_entries (put_entry q e (pl_entries (plist_before s k nm))) (plist_before s k nm)) \<and>
      (\<forall>k'. k' \<noteq> k \<longrightarrow> s' k' = s k')))"
proof (cases "afi = AFI_IP \<or> afi = AFI_IP6")
  case False
  then show ?thesis using run s by (simp add: vty_prefix_list_install_def)
next
  case True
  then obtain k where k: "prefix_master_get afi False = Some k" by (auto simp: prefix_master_get_def)
  have af: "(\<not> (afi = AFI_IP \<or> afi = AFI_IP6)) = False" using True by simp
  obtain seqnum genum0 lenum0 where n: "number_arg (-1) sq = Some seqnum" "number_arg 0 ge = Some genum0" "number_arg 0 le = Some lenum0"
    using run True by (auto simp: vty_prefix_list_install_def bind_eq_Some_conv)
  show ?thesis
  proof (cases "str2plist_type ty")
    case None
    then show ?thesis using run True n s by (auto simp: vty_prefix_list_install_def)
  next
    case (Some type)
    obtain ret p where p: "plist_prefix_arg aton pton afi str p0 = (ret, p)" by fastforce
    define genum where "genum = (if is_any str then 0 else genum0)"
    define lenum where "lenum = (if is_any str then int (max_len afi) else lenum0)"
    define le' where "le' = (if genum \<noteq> 0 \<and> lenum = int (max_len afi) then 0 else lenum)"
    show ?thesis
    proof (cases "ret = 0 \<or> genum \<noteq> 0 \<and> genum \<le> int (prefixlen p) \<or> lenum \<noteq> 0 \<and> lenum \<le> int (prefixlen p) \<or> lenum \<noteq> 0 \<and> genum > lenum")
      case bad: True
      then have "vty_prefix_list_install aton pton p0 afi nm sq ty str ge le s = Some (CMD_WARNING, s)"
        unfolding vty_prefix_list_install_def af if_False n bind.bind_lunit Some option.case p Let_def prod.case genum_def [symmetric] lenum_def [symmetric]
        by (auto simp del: int_eq_iff_numeral)
      then show ?thesis using run s by simp
    next
      case ok: False
      then have no: "(ret = 0) = False" "(genum \<noteq> 0 \<and> genum \<le> int (prefixlen p)) = False" "(lenum \<noteq> 0 \<and> lenum \<le> int (prefixlen p)) = False"
        "(lenum \<noteq> 0 \<and> genum > lenum) = False" by simp_all
      have eqn: "vty_prefix_list_install aton pton p0 afi nm sq ty str ge le s = do {
          (r, s1) \<leftarrow> prefix_list_get afi False nm s;
          pentry \<leftarrow> prefix_list_entry_make p type seqnum le' genum (is_any str);
          dup \<leftarrow> prefix_entry_dup_check (plist_at s1 r) pentry;
          if dup \<noteq> None then Some (CMD_WARNING, s1) else map_option (Pair CMD_SUCCESS) (prefix_list_entry_add r pentry s1) }"
        unfolding vty_prefix_list_install_def af if_False n bind.bind_lunit Some option.case p Let_def prod.case genum_def [symmetric] lenum_def [symmetric] no le'_def
        by (rule refl)
      obtain r s1 e dup where e: "prefix_list_get afi False nm s = Some (r, s1)" "prefix_list_entry_make p type seqnum le' genum (is_any str) = Some e"
        "prefix_entry_dup_check (plist_at s1 r) e = Some dup"
        "(if dup \<noteq> None then Some (CMD_WARNING, s1) else map_option (Pair CMD_SUCCESS) (prefix_list_entry_add r e s1)) = Some (res, s')"
        by (rule set_entry_run [OF run [unfolded eqn]])
      have f: "pe_type e = type" "pe_le e = le'" "pe_ge e = genum" "prefix_copy prefix_new p = Some (pe_prefix e)" "pe_seq e = seqnum"
        using e(2) by (auto simp: prefix_list_entry_make_def bind_eq_Some_conv)
      have range: "range_ok (e\<lparr>pe_seq := q\<rparr>)" for q using ok f(2,3) prefix_copy_len [OF f(4)] by (auto simp: range_ok_def le'_def)
      note spec = set_entry_spec [OF s k e(1,3,4)]
      have "\<exists>q e'. range_ok e' \<and> pe_seq e' = q \<and> pe_type e' = type \<and> prefix_copy prefix_new p = Some (pe_prefix e') \<and>
          seq_for (plist_before s k nm) seqnum = Some q \<and> pe_ge e' = genum \<and> pe_le e' = le' \<and>
          (\<forall>x \<in> set (pl_entries (plist_before s k nm)). same_entry x e' \<longrightarrow> pe_seq x = q) \<and>
          plists s' k = (plists s k)(nm \<mapsto> with_entries (put_entry q e' (pl_entries (plist_before s k nm))) (plist_before s k nm))" if succ: "res = CMD_SUCCESS"
      proof -
        obtain q where q: "seq_for (plist_before s k nm) seqnum = Some q" "\<forall>x \<in> set (pl_entries (plist_before s k nm)). same_entry x (e\<lparr>pe_seq := q\<rparr>) \<longrightarrow> pe_seq x = q" "plists s' k = (plists s k)(nm \<mapsto> with_entries (put_entry q (e\<lparr>pe_seq := q\<rparr>) (pl_entries (plist_before s k nm))) (plist_before s k nm))"
          using spec succ f(5) by (auto simp: same_entry_def)
        show ?thesis by (rule exI [of _ q], rule exI [of _ "e\<lparr>pe_seq := q\<rparr>"]) (simp add: q range f)
      qed
      moreover have "genum = ge_of str ge" using n by (simp add: genum_def ge_of_def)
      moreover have "le' = (if ge_of str ge \<noteq> 0 \<and> le_of afi str le = int (max_len afi) then 0 else le_of afi str le)"
        using n by (simp add: genum_def lenum_def le'_def ge_of_def le_of_def)
      ultimately show ?thesis using spec k Some p n(1) no(1) by simp
    qed
  qed
qed

lemma entry_lookup_bound: "prefix_list_entry_lookup pl p ty sq le ge = Some i \<Longrightarrow> i < length (pl_entries pl)"
  by (auto simp: prefix_list_entry_lookup_def dest: index_of_Some)

lemma lookup_valid:
  assumes "state_ok s" "prefix_list_lookup_do afi orf nm s = Some r"
  shows "valid_plist s r"
proof -
  obtain n k where n: "nm = Some n" "prefix_master_get afi orf = Some k" using assms(2) by (auto simp: prefix_list_lookup_do_def bind_eq_Some_conv)
  show ?thesis using plist_lookup_spec [OF assms(1) n(2), of n] assms(2) by (simp add: n(1))
qed

lemma entry_delete_ok: "state_ok s \<Longrightarrow> valid_plist s r \<Longrightarrow> prefix_list_entry_lookup (plist_at s r) p ty sq le ge = Some i \<Longrightarrow> state_ok (prefix_list_entry_delete r i True s)"
  using entry_delete_spec entry_lookup_bound by blast

lemma uninstall_ok:
  assumes s: "state_ok s" and run: "vty_prefix_list_uninstall aton pton p0 afi nm sq ty str ge le s = Some (res, s')"
  shows "state_ok s' \<and> (res = CMD_WARNING \<longrightarrow> s' = s)"
proof (cases "prefix_list_lookup_do afi False (Some nm) s")
  case None
  then show ?thesis using run s by (simp add: vty_prefix_list_uninstall_def prefix_list_lookup_def)
next
  case (Some r)
  have v: "valid_plist s r" by (rule lookup_valid [OF s Some])
  show ?thesis using run Some s plist_delete_spec [OF s v] entry_delete_ok [OF s v]
    by (auto simp: vty_prefix_list_uninstall_def prefix_list_lookup_def Let_def bind_eq_Some_conv split: if_splits option.splits prod.splits)
qed

lemma plist_change_ok:
  assumes "state_ok s" "valid_plist s r" "\<And>pl. pl_name (f pl) = pl_name pl" "\<And>pl. pl_type (f pl) = pl_type pl" "\<And>pl. plist_ok pl \<Longrightarrow> plist_ok (f pl)"
  shows "state_ok (plist_upd r f s)" "valid_plist (plist_upd r f s) r"
  using plist_upd_spec [OF assms(1,2), of f] assms plist_at_ok(1) [OF assms(1,2)] by auto

lemma description_ok:
  assumes s: "state_ok s" and run: "ip_prefix_list_description afi nm desc s = Some (res, s')"
  shows "state_ok s'"
proof -
  obtain r s1 where g: "prefix_list_get afi False nm s = Some (r, s1)" "s' = plist_upd r (\<lambda>pl. pl\<lparr>pl_desc := Some desc\<rparr>) s1"
    using run by (auto simp: ip_prefix_list_description_def bind_eq_Some_conv)
  then obtain k where "prefix_master_get afi False = Some k"
    by (auto simp: prefix_list_get_def prefix_list_lookup_do_def prefix_list_insert_def bind_eq_Some_conv split: option.splits)
  then have "state_ok s1" "valid_plist s1 r" using plist_get_spec [OF s, of afi False k nm] g(1) by auto
  then show ?thesis unfolding g(2) by (rule plist_change_ok) (auto simp: plist_ok_def)
qed

lemma desc_unset_ok:
  assumes s: "state_ok s"
  shows "state_ok (snd (vty_prefix_list_desc_unset afi nm s))"
proof (cases "prefix_list_lookup_do afi False (Some nm) s")
  case None
  then show ?thesis using s by (simp add: vty_prefix_list_desc_unset_def prefix_list_lookup_def)
next
  case (Some r)
  have "state_ok (plist_upd r (\<lambda>pl. pl\<lparr>pl_desc := None\<rparr>) s)" "valid_plist (plist_upd r (\<lambda>pl. pl\<lparr>pl_desc := None\<rparr>) s) r"
    using plist_change_ok [OF s lookup_valid [OF s Some], of "\<lambda>pl. pl\<lparr>pl_desc := None\<rparr>"] by (auto simp: plist_ok_def)
  then show ?thesis using Some plist_delete_spec by (auto simp: vty_prefix_list_desc_unset_def prefix_list_lookup_def Let_def)
qed

lemma clear_hits_ok: "plist_ok pl \<Longrightarrow> plist_ok (clear_hits P pl)"
proof -
  assume "plist_ok pl"
  then have "in_order (map (\<lambda>e. if P e then e\<lparr>pe_hitcnt := 0\<rparr> else e) (pl_entries pl))"
    unfolding plist_ok_def sorted_wrt_map by (elim conjE sorted_wrt_mono_rel [rotated]) auto
  then show ?thesis using \<open>plist_ok pl\<close> by (simp add: plist_ok_def clear_hits_def)
qed

lemma clear_hits_simps [simp]: "pl_name (clear_hits P pl) = pl_name pl" "pl_type (clear_hits P pl) = pl_type pl"
  by (simp_all add: clear_hits_def)

lemma clear_all_ok:
  assumes "master_ok m"
  shows "master_ok (m\<lparr>pm_num := map (clear_hits P) (pm_num m), pm_str := map (clear_hits P) (pm_str m)\<rparr>)"
proof -
  have names: "map pl_name (map (clear_hits P) xs) = map pl_name xs" "map (\<lambda>x. atoi (pl_name x)) (map (clear_hits P) xs) = map (\<lambda>x. atoi (pl_name x)) xs" for xs
    by simp_all
  have wf: "np.chains_wf (map (clear_hits P) (pm_num m)) (map (clear_hits P) (pm_str m))"
    using assms unfolding master_ok_def np.chains_wf_def by (simp add: comp_def)
  have dom: "np.by_name (map (clear_hits P) (pm_num m)) (map (clear_hits P) (pm_str m)) nm = None \<longleftrightarrow> np.by_name (pm_num m) (pm_str m) nm = None" for nm
    unfolding np.by_name_None by (force simp: ball_Un)
  show ?thesis using assms wf clear_hits_ok by (auto simp: master_ok_def dom)
qed

lemma clear_ok:
  assumes s: "state_ok s"
  shows "state_ok (snd (vty_clear_prefix_list parse afi nm str s))"
proof -
  have "state_ok (plist_upd r (clear_hits P) s)" if "prefix_list_lookup_do afi False nm s = Some r" for r P
    by (rule plist_change_ok(1) [OF s lookup_valid [OF s that]]) (simp_all add: clear_hits_ok)
  moreover have "state_ok (in_master k (\<lambda>m. m\<lparr>pm_num := map (clear_hits (\<lambda>_. True)) (pm_num m), pm_str := map (clear_hits (\<lambda>_. True)) (pm_str m)\<rparr>) s)" for k
    by (rule state_ok_in_master [OF s]) (rule clear_all_ok [OF state_okD [OF s]])
  ultimately show ?thesis using s
    by (cases "prefix_list_lookup_do afi False nm s"; cases "prefix_master_get afi False"; cases str)
      (simp_all add: vty_clear_prefix_list_def prefix_list_lookup_def split_def Let_def del: plist_upd.simps split_paired_All)
qed

lemma orf_set_ok:
  assumes s: "state_ok s" and run: "prefix_bgp_orf_set nm afi orfp permit set_f s = Some (res, s')"
  shows "state_ok s'"
proof -
  define ge where "ge = uint (orf_ge orfp)"
  define le where "le = uint (orf_le orfp)"
  define len where "len = int (prefixlen (orf_p orfp))"
  define le1 where "le1 = (if ge \<noteq> 0 \<and> le = int (max_len afi) then 0 else le)"
  define ty where "ty = (if permit then PREFIX_PERMIT else PREFIX_DENY)"
  note defs = ge_def [symmetric] le_def [symmetric] len_def [symmetric] le1_def [symmetric] ty_def [symmetric]
  show ?thesis
  proof (cases "ge \<noteq> 0 \<and> ge \<le> len \<or> le \<noteq> 0 \<and> le \<le> len \<or> le \<noteq> 0 \<and> ge > le \<or> prefix_list_get afi True nm s = None")
    case True
    then have "prefix_bgp_orf_set nm afi orfp permit set_f s = Some (CMD_WARNING, s)"
      unfolding prefix_bgp_orf_set_def Let_def defs by (elim disjE) simp_all
    then show ?thesis using run s by simp
  next
    case False
    then have no: "(ge \<noteq> 0 \<and> ge \<le> len) = False" "(le \<noteq> 0 \<and> le \<le> len) = False" "(le \<noteq> 0 \<and> ge > le) = False" by simp_all
    obtain r s1 where g: "prefix_list_get afi True nm s = Some (r, s1)" using False by auto
    then obtain k where k: "prefix_master_get afi True = Some k"
      by (auto simp: prefix_list_get_def prefix_list_lookup_do_def prefix_list_insert_def bind_eq_Some_conv split: option.splits)
    then have ok: "state_ok s1" "valid_plist s1 r" using plist_get_spec [OF s k, of nm] g by auto
    note body = run [unfolded prefix_bgp_orf_set_def Let_def defs no if_False g option.case prod.case]
    show ?thesis
    proof (cases set_f)
      case True
      then obtain e dup where e: "prefix_entry_dup_check (plist_at s1 r) e = Some dup"
        "(if dup \<noteq> None then Some (CMD_WARNING, s1) else map_option (Pair CMD_SUCCESS) (prefix_list_entry_add r e s1)) = Some (res, s')"
        using body by (auto simp: bind_eq_Some_conv simp del: not_None_eq)
      show ?thesis using set_entry_spec [OF s k g e] by blast
    next
      case False
      then show ?thesis using body ok entry_delete_ok [OF ok]
        by (cases "prefix_list_entry_lookup (plist_at s1 r) (orf_p orfp) ty (sint (orf_seq orfp)) le1 ge") auto
    qed
  qed
qed

lemma orf_remove_ok: "state_ok s \<Longrightarrow> state_ok (prefix_bgp_orf_remove_all afi nm s)"
  using plist_delete_spec lookup_valid by (auto simp: prefix_bgp_orf_remove_all_def prefix_bgp_orf_lookup_def split: option.splits)

text \<open>Deleting the heads empties a chain, and only that chain.\<close>

lemma delete_heads_spec:
  "state_ok s \<Longrightarrow> n \<le> length (chain ty (s k)) \<Longrightarrow> state_ok (delete_heads n k ty s) \<and> chain ty (delete_heads n k ty s k) = drop n (chain ty (s k)) \<and>
     (\<forall>ty'. ty' \<noteq> ty \<longrightarrow> chain ty' (delete_heads n k ty s k) = chain ty' (s k)) \<and> (\<forall>k'. k' \<noteq> k \<longrightarrow> delete_heads n k ty s k' = s k')"
proof (induction n arbitrary: s)
  case (Suc n)
  let ?s = "prefix_list_delete (k, ty, 0) s"
  have c: "chain ty (?s k) = drop 1 (chain ty (s k))" "\<forall>ty'. ty' \<noteq> ty \<longrightarrow> chain ty' (?s k) = chain ty' (s k)"
    by (auto simp: Let_def chain_def set_chain_def plist_hook_call_def unlink_def)
      (metis prefix_name_type.exhaust)+
  have "valid_plist s (k, ty, 0)" using Suc.prems(2) by (cases "chain ty (s k)") simp_all
  then have "state_ok ?s" "\<forall>k'. k' \<noteq> k \<longrightarrow> ?s k' = s k'" using plist_delete_spec [OF Suc.prems(1), of "(k, ty, 0)"]
    by (simp_all del: prefix_list_delete.simps)
  then show ?case using Suc.IH [of ?s] c Suc.prems(2) by (simp add: drop_Suc [of n] del: prefix_list_delete.simps)
qed simp

lemma plist_reset_afi_spec:
  assumes s: "state_ok s" and k: "prefix_master_get afi orf = Some k"
  shows "\<exists>s'. prefix_list_reset_afi afi orf s = Some s' \<and> state_ok s' \<and> pm_num (s' k) = [] \<and> pm_str (s' k) = [] \<and> pm_recent (s' k) = None \<and>
    (\<forall>k'. k' \<noteq> k \<longrightarrow> s' k' = s k')"
proof -
  define s1 where "s1 = delete_heads (length (pm_num (s k))) k PREFIX_TYPE_NUMBER s"
  define s2 where "s2 = delete_heads (length (pm_str (s1 k))) k PREFIX_TYPE_STRING s1"
  have 1: "state_ok s1" "pm_num (s1 k) = []" "\<forall>k'. k' \<noteq> k \<longrightarrow> s1 k' = s k'"
    using delete_heads_spec [OF s, of "length (pm_num (s k))" PREFIX_TYPE_NUMBER k] by (simp_all add: chain_def s1_def)
  have 2: "state_ok s2" "pm_num (s2 k) = []" "pm_str (s2 k) = []" "\<forall>k'. k' \<noteq> k \<longrightarrow> s2 k' = s1 k'"
    using delete_heads_spec [OF 1(1), of "length (pm_str (s1 k))" PREFIX_TYPE_STRING k] 1(2) by (auto simp: chain_def s2_def)
  have "master_ok (s2 k\<lparr>pm_seqnum := True, pm_recent := None\<rparr>)" by (simp add: master_ok_def 2(2,3))
  then have "state_ok (in_master k (\<lambda>m. m\<lparr>pm_seqnum := True, pm_recent := None\<rparr>) s2)" using state_ok_in_master [OF 2(1), of _ k] by simp
  then show ?thesis using k 1(3) 2(2-4) by (simp add: prefix_list_reset_afi_def s1_def [symmetric] s2_def [symmetric] Let_def)
qed

lemma plist_reset_spec:
  assumes s: "state_ok s"
  shows "\<exists>s'. prefix_list_reset s = Some s' \<and> state_ok s' \<and> (\<forall>k. pm_num (s' k) = [] \<and> pm_str (s' k) = [] \<and> pm_recent (s' k) = None)"
proof -
  have k: "prefix_master_get AFI_IP False = Some Ipv4" "prefix_master_get AFI_IP6 False = Some Ipv6"
    "prefix_master_get AFI_IP True = Some Orf_v4" "prefix_master_get AFI_IP6 True = Some Orf_v6" by (simp_all add: prefix_master_get_def)
  let ?E = "\<lambda>s k. pm_num (s k) = [] \<and> pm_str (s k) = [] \<and> pm_recent (s k) = None"
  obtain s1 where 1: "prefix_list_reset_afi AFI_IP False s = Some s1" "state_ok s1" "?E s1 Ipv4" using plist_reset_afi_spec [OF s k(1)] by blast
  obtain s2 where 2: "prefix_list_reset_afi AFI_IP6 False s1 = Some s2" "state_ok s2" "?E s2 Ipv6" "s2 Ipv4 = s1 Ipv4"
    using plist_reset_afi_spec [OF 1(2) k(2)] by blast
  obtain s3 where 3: "prefix_list_reset_afi AFI_IP True s2 = Some s3" "state_ok s3" "?E s3 Orf_v4" "s3 Ipv4 = s2 Ipv4" "s3 Ipv6 = s2 Ipv6"
    using plist_reset_afi_spec [OF 2(2) k(3)] by blast
  obtain s4 where 4: "prefix_list_reset_afi AFI_IP6 True s3 = Some s4" "state_ok s4" "?E s4 Orf_v6" "s4 Ipv4 = s3 Ipv4" "s4 Ipv6 = s3 Ipv6" "s4 Orf_v4 = s3 Orf_v4"
    using plist_reset_afi_spec [OF 3(2) k(4)] by blast
  have "?E s4 k" for k using 1 2 3 4 by (cases k) simp_all
  then show ?thesis using 1(1) 2(1) 3(1) 4(1,2) by (simp add: prefix_list_reset_def)
qed

section \<open>Lists under use\<close>

text \<open>\<^verbatim>\<open>prefix_list_apply\<close> writes the counters of the entries into the list.\<close>

definition plist_used :: "plist_ref \<Rightarrow> prefix_t \<Rightarrow> plist_state \<Rightarrow> plist_state" where
  "plist_used r p s = plist_upd r (\<lambda>pl. the (snd (prefix_list_apply (Some pl) p))) s"

lemma entries_apply_snd: "map pe_seq (snd (entries_apply es p)) = map pe_seq es"
  by (induction es) (auto simp: Let_def split_def)

lemma in_order_seqs: "in_order es \<longleftrightarrow> sorted_wrt (<) (map pe_seq es)"
  by (simp add: sorted_wrt_map)

lemma apply_keeps:
  defines "f \<equiv> \<lambda>pl p. the (snd (prefix_list_apply (Some pl) p))"
  shows "pl_name (f pl p) = pl_name pl" "pl_type (f pl p) = pl_type pl" "plist_ok pl \<Longrightarrow> plist_ok (f pl p)"
proof -
  have "length (snd (entries_apply es p)) = length es" for es using arg_cong [OF entries_apply_snd, of length es p] by simp
  then show "plist_ok pl \<Longrightarrow> plist_ok (f pl p)" by (auto simp: f_def prefix_list_apply_def split_def Let_def plist_ok_def in_order_seqs entries_apply_snd)
qed (auto simp: f_def prefix_list_apply_def split_def Let_def)

text \<open>The states of the prefix lists in a daemon: every way the code changes a list.\<close>

inductive plist_reach :: "plist_state \<Rightarrow> bool" where
  init: "plist_reach plist_init"
| add_hook: "plist_reach s \<Longrightarrow> plist_reach (prefix_list_add_hook s)"
| delete_hook: "plist_reach s \<Longrightarrow> plist_reach (prefix_list_delete_hook s)"
| install: "plist_reach s \<Longrightarrow> vty_prefix_list_install aton pton p0 afi nm sq ty str ge le s = Some (res, s') \<Longrightarrow> plist_reach s'"
| uninstall: "plist_reach s \<Longrightarrow> vty_prefix_list_uninstall aton pton p0 afi nm sq ty' str' ge le s = Some (res, s') \<Longrightarrow> plist_reach s'"
| description: "plist_reach s \<Longrightarrow> ip_prefix_list_description afi nm desc s = Some (res, s') \<Longrightarrow> plist_reach s'"
| desc_unset: "plist_reach s \<Longrightarrow> plist_reach (snd (vty_prefix_list_desc_unset afi nm s))"
| sequence_number: "plist_reach s \<Longrightarrow> plist_reach (ip_prefix_list_sequence_number afi on s)"
| clear: "plist_reach s \<Longrightarrow> plist_reach (snd (vty_clear_prefix_list parse afi nm' str' s))"
| used: "plist_reach s \<Longrightarrow> prefix_list_lookup_do afi orf nm' s = Some r \<Longrightarrow> plist_reach (plist_used r p s)"
| orf_set: "plist_reach s \<Longrightarrow> prefix_bgp_orf_set nm afi orfp permit set_f s = Some (res, s') \<Longrightarrow> plist_reach s'"
| orf_remove_all: "plist_reach s \<Longrightarrow> plist_reach (prefix_bgp_orf_remove_all afi nm s)"
| reset: "plist_reach s \<Longrightarrow> prefix_list_reset s = Some s' \<Longrightarrow> plist_reach s'"

lemma hooks_ok: "state_ok s \<Longrightarrow> state_ok (prefix_list_add_hook s)" "state_ok s \<Longrightarrow> state_ok (prefix_list_delete_hook s)"
  "state_ok s \<Longrightarrow> state_ok (ip_prefix_list_sequence_number afi on s)"
  by (auto simp: prefix_list_add_hook_def prefix_list_delete_hook_def ip_prefix_list_sequence_number_def state_ok_def in_master_def master_ok_def split: option.splits)

lemma reach_ok: "plist_reach s \<Longrightarrow> state_ok s"
proof (induction rule: plist_reach.induct)
  case (used s afi orf nm' r p)
  show ?case unfolding plist_used_def by (rule plist_change_ok [OF used.IH lookup_valid [OF used.IH used.hyps(2)]]) (rule apply_keeps; assumption?)+
next
  case (install s aton pton p0 afi nm sq ty str ge le res s')
  then show ?case using install_spec by blast
next
  case (uninstall s aton pton p0 afi nm sq ty' str' ge le res s')
  then show ?case using uninstall_ok by blast
next
  case (reset s s')
  then show ?case using plist_reset_spec by fastforce
qed (auto simp: state_ok_init hooks_ok desc_unset_ok clear_ok orf_remove_ok intro: description_ok orf_set_ok)

section \<open>Which prefixes an entry matches\<close>

definition entry_covers :: "prefix_list_entry \<Rightarrow> prefix_t \<Rightarrow> bool" where
  "entry_covers e p \<longleftrightarrow> prefix (pbits (pe_prefix e)) (pbits p) \<and>
     (if pe_le e = 0 \<and> pe_ge e = 0 then prefixlen p = prefixlen (pe_prefix e)
      else (pe_ge e \<noteq> 0 \<longrightarrow> pe_ge e \<le> int (prefixlen p)) \<and> (pe_le e \<noteq> 0 \<longrightarrow> int (prefixlen p) \<le> pe_le e))"

lemma entry_match_covers: "prefix_list_entry_match e p \<longleftrightarrow> entry_covers e p"
  by (auto simp: prefix_list_entry_match_def entry_covers_def prefix_match_iff)

lemma entries_apply_fst: "fst (entries_apply es p) = (case List.find (\<lambda>e. entry_covers e p) es of None \<Rightarrow> PREFIX_DENY | Some e \<Rightarrow> pe_type e)"
  by (induction es) (auto simp: Let_def split_def entry_match_covers)

lemma find_in_order:
  assumes "in_order es"
  shows "List.find P es = Some e \<longleftrightarrow> e \<in> set es \<and> P e \<and> (\<forall>e' \<in> set es. P e' \<longrightarrow> pe_seq e \<le> pe_seq e')"
  using assms
proof (induction es)
  case (Cons x es)
  have x: "\<forall>y \<in> set es. pe_seq x < pe_seq y" using Cons.prems by simp
  show ?case
  proof (cases "P x")
    case True
    then show ?thesis using x by (auto simp: less_imp_le dest: leD)
  qed (use Cons in auto)
qed simp

lemma apply_first:
  assumes "plist_ok pl"
  shows "fst (prefix_list_apply (Some pl) p) = PREFIX_PERMIT \<longleftrightarrow> pl_entries pl = [] \<or>
    (\<exists>e \<in> set (pl_entries pl). entry_covers e p \<and> pe_type e = PREFIX_PERMIT \<and> (\<forall>e' \<in> set (pl_entries pl). entry_covers e' p \<longrightarrow> pe_seq e \<le> pe_seq e'))"
proof (cases "pl_entries pl = []")
  case True
  then show ?thesis using assms by (simp add: prefix_list_apply_def plist_ok_def)
next
  case False
  let ?f = "List.find (\<lambda>e. entry_covers e p) (pl_entries pl)"
  have "fst (prefix_list_apply (Some pl) p) = PREFIX_PERMIT \<longleftrightarrow> (\<exists>e. ?f = Some e \<and> pe_type e = PREFIX_PERMIT)"
    using assms False by (auto simp: prefix_list_apply_def plist_ok_def split_def Let_def entries_apply_fst split: option.splits)
  then show ?thesis using False find_in_order [of "pl_entries pl"] assms by (auto simp: plist_ok_def)
qed

section \<open>Taking a command back\<close>

lemma install_numbers:
  assumes "vty_prefix_list_install aton pton p0 afi nm sq ty str ge le s = Some (CMD_SUCCESS, s')"
  obtains sn g l type where "number_arg (-1) sq = Some sn" "number_arg 0 ge = Some g" "number_arg 0 le = Some l" "str2plist_type ty = Some type"
  using assms by (cases "str2plist_type ty") (auto simp: vty_prefix_list_install_def bind_eq_Some_conv split: if_splits)

lemma plist_prefix_copy:
  assumes "\<And>x a. aton x = Some a \<Longrightarrow> length a = 4" "\<And>x a. pton x = Some a \<Longrightarrow> length a = 16" "length (p_u p0) = 16"
    "plist_prefix_arg aton pton afi str p0 = (ret, p)" "ret \<noteq> 0" "prefix_copy prefix_new p = Some q"
  shows "prefix_same q p"
proof -
  have "length (p_u p) = 16 \<and> family p \<in> {AF_INET, AF_INET6}"
  proof (cases "afi = AFI_IP")
    case True
    then have s: "str2prefix_ipv4 aton (if is_any str then ''0.0.0.0/0'' else str) p0 = (ret, p)" using assms(4) by (simp add: plist_prefix_arg_def)
    then have "family p = AF_INET" using assms(5) by (auto simp: str2prefix_ipv4_def Let_def split: option.splits if_splits)
    then show ?thesis using str2prefix_ipv4_wf(1) [OF assms(1,3) s] by simp
  next
    case False
    then have s: "str2prefix_ipv6 pton (if is_any str then ''::/0'' else str) p0 = (ret, p)" using assms(4) by (simp add: plist_prefix_arg_def)
    then have "family p = AF_INET6" using assms(5) by (auto simp: str2prefix_ipv6_def Let_def split: option.splits if_splits)
    then show ?thesis using str2prefix_ipv6_wf(1) [OF assms(2,3) s] by simp
  qed
  then show ?thesis using assms(6) by (auto simp: prefix_copy_def Let_def prefix_same_def member_copy_def)
qed

text \<open>What is left of a list when the entry with a sequence number goes: a list without entries is deleted, unless it has a description.\<close>

definition without_entry :: "int \<Rightarrow> prefix_list \<Rightarrow> prefix_list option" where
  "without_entry q pl = (let es = filter (\<lambda>e. pe_seq e \<noteq> q) (pl_entries pl) in
     if es = [] \<and> pl_desc pl = None then None else Some (with_entries es pl))"

lemma index_of_cong: "(\<And>x. x \<in> set xs \<Longrightarrow> P x = Q x) \<Longrightarrow> index_of P xs = index_of Q xs"
proof -
  assume e: "\<And>x. x \<in> set xs \<Longrightarrow> P x = Q x"
  have "takeWhile (\<lambda>x. \<not> P x) xs = takeWhile (\<lambda>x. \<not> Q x) xs" by (rule takeWhile_cong) (use e in auto)
  then show ?thesis by (simp add: index_of_def Let_def)
qed

lemma filter_put_entry:
  assumes "in_order es" "pe_seq e = q"
  shows "filter (\<lambda>x. pe_seq x \<noteq> q) (put_entry q e es) = filter (\<lambda>x. pe_seq x \<noteq> q) es"
  using assms(1)
proof (induction es)
  case Nil
  then show ?case using assms(2) by (simp add: put_entry_def)
next
  case (Cons x es)
  have "filter (\<lambda>x. pe_seq x < q) es = []" if "\<not> pe_seq x < q" using Cons.prems that by (auto simp: filter_empty_conv)
  then show ?case using Cons assms(2) by (cases "pe_seq x" q rule: linorder_cases) (auto simp: put_entry_def)
qed

lemma prefix_same_copy: "prefix_same q p \<Longrightarrow> prefix_same x q = prefix_same x p"
  by (auto simp: prefix_same_def)

lemma plists_in_order:
  assumes "state_ok s" "prefix_master_get afi orf = Some k" "plists s k nm = Some pl"
  shows "in_order (pl_entries pl)"
  using plist_lookup_spec [OF assms(1,2), of nm] plist_at_ok(1) [OF assms(1)] assms(3) by (auto simp: plist_ok_def split: option.splits)

text \<open>The words give both bounds, and the upper one says nothing.\<close>

definition le_dropped :: "nat \<Rightarrow> string \<Rightarrow> string option \<Rightarrow> string option \<Rightarrow> bool" where
  "le_dropped afi str ge le \<longleftrightarrow> ge_of str ge \<noteq> 0 \<and> le_of afi str le = int (max_len afi)"

text \<open>After an accepted command, the \<^verbatim>\<open>no\<close> form looks for an entry with a predicate \<open>P\<close> that the new entry meets alone, unless a bound was dropped.\<close>

lemma uninstall_run:
  assumes io: "\<And>x a. aton x = Some a \<Longrightarrow> length a = 4" "\<And>x a. pton x = Some a \<Longrightarrow> length a = 16" "length (p_u p0) = 16"
    and s: "state_ok s" and k: "prefix_master_get afi False = Some k"
    and run: "vty_prefix_list_install aton pton p0 afi nm sq ty str ge le s = Some (CMD_SUCCESS, s')"
  obtains q e r P where "seq_for (plist_before s k nm) (the (number_arg (-1) sq)) = Some q" "pe_seq e = q"
    "state_ok s'" "fst r = k" "valid_plist s' r" "plist_at s' r = with_entries (put_entry q e (pl_entries (plist_before s k nm))) (plist_before s k nm)"
    "plists s' k = (plists s k)(nm \<mapsto> plist_at s' r)" "pl_name (plist_before s k nm) = nm"
    "vty_prefix_list_uninstall aton pton p0 afi nm sq (Some ty) (Some str) ge le s' =
      Some (case index_of P (pl_entries (plist_at s' r)) of None \<Rightarrow> (CMD_WARNING, s') | Some i \<Rightarrow> (CMD_SUCCESS, prefix_list_entry_delete r i True s'))"
    "P e \<longleftrightarrow> \<not> le_dropped afi str ge le"
    "\<And>x. \<not> le_dropped afi str ge le \<Longrightarrow> x \<in> set (pl_entries (plist_before s k nm)) \<Longrightarrow> P x \<Longrightarrow> pe_seq x = q"
proof -
  obtain sn g l type where n: "number_arg (-1) sq = Some sn" "number_arg 0 ge = Some g" "number_arg 0 le = Some l" "str2plist_type ty = Some type"
    by (rule install_numbers [OF run])
  obtain ret p where p: "plist_prefix_arg aton pton afi str p0 = (ret, p)" by fastforce
  define le' where "le' = (if ge_of str ge \<noteq> 0 \<and> le_of afi str le = int (max_len afi) then 0 else le_of afi str le)"
  note spec = install_spec [OF s run, folded le'_def]
  let ?before = "plist_before s k nm"
  obtain q e where e: "pe_seq e = q" "pe_type e = type" "prefix_copy prefix_new p = Some (pe_prefix e)" "ret \<noteq> 0"
      "seq_for ?before sn = Some q" "pe_ge e = ge_of str ge" "pe_le e = le'"
      "\<forall>x \<in> set (pl_entries ?before). same_entry x e \<longrightarrow> pe_seq x = q"
      "plists s' k = (plists s k)(nm \<mapsto> with_entries (put_entry q e (pl_entries ?before)) ?before)"
    using spec k n p by auto
  have s': "state_ok s'" using spec by blast
  obtain r where r: "prefix_list_lookup_do afi False (Some nm) s' = Some r" "fst r = k" "valid_plist s' r"
      "plist_at s' r = with_entries (put_entry q e (pl_entries ?before)) ?before" "pl_name (plist_at s' r) = nm"
    using plist_lookup_spec [OF s' k, of nm] e(9) by (auto split: option.splits)
  have same: "prefix_same (pe_prefix e) p" by (rule plist_prefix_copy [OF io p e(4,3)])
  have sn: "0 \<le> sn \<longrightarrow> q = sn" using e(5) by (auto simp: seq_for_def split: if_splits)
  define P :: "prefix_list_entry \<Rightarrow> bool"
    where "P = (\<lambda>x. prefix_same (pe_prefix x) p \<and> pe_type x = type \<and> \<not> (sn \<ge> 0 \<and> pe_seq x \<noteq> sn) \<and> pe_le x = le_of afi str le \<and> pe_ge x = ge_of str ge)"
  show thesis
  proof (rule that [of q e r P])
    show "vty_prefix_list_uninstall aton pton p0 afi nm sq (Some ty) (Some str) ge le s' =
        Some (case index_of P (pl_entries (plist_at s' r)) of None \<Rightarrow> (CMD_WARNING, s') | Some i \<Rightarrow> (CMD_SUCCESS, prefix_list_entry_delete r i True s'))"
      using n p e(4) r(1) by (auto simp: vty_prefix_list_uninstall_def prefix_list_lookup_def prefix_list_entry_lookup_def ge_of_def le_of_def P_def split: option.splits)
    have max: "int (max_len afi) \<noteq> 0" by simp
    show "P e \<longleftrightarrow> \<not> le_dropped afi str ge le"
      using e(1,2,6,7) same sn max unfolding P_def le'_def le_dropped_def by (cases "ge_of str ge \<noteq> 0 \<and> le_of afi str le = int (max_len afi)") auto
    show "pe_seq x = q" if "\<not> le_dropped afi str ge le" "x \<in> set (pl_entries ?before)" "P x" for x
      using that e(2,6-8) prefix_same_copy [OF same] unfolding P_def le'_def le_dropped_def same_entry_def by auto
  qed (use e n(1) r s' in \<open>simp_all add: with_entries_def\<close>)
qed

lemma uninstall_same_words:
  assumes io: "\<And>x a. aton x = Some a \<Longrightarrow> length a = 4" "\<And>x a. pton x = Some a \<Longrightarrow> length a = 16" "length (p_u p0) = 16"
    and s: "state_ok s" and k: "prefix_master_get afi False = Some k"
    and run: "vty_prefix_list_install aton pton p0 afi nm sq ty str ge le s = Some (CMD_SUCCESS, s')"
  shows "\<exists>q res s''. seq_for (plist_before s k nm) (the (number_arg (-1) sq)) = Some q \<and>
    vty_prefix_list_uninstall aton pton p0 afi nm sq (Some ty) (Some str) ge le s' = Some (res, s'') \<and>
    (if le_dropped afi str ge le
     then (\<exists>pl. plists s'' k nm = Some pl \<and> q \<in> pe_seq ` set (pl_entries pl)) \<and> (plists s k nm = None \<longrightarrow> res = CMD_WARNING \<and> s'' = s')
     else res = CMD_SUCCESS \<and> plists s'' k = (plists s k)(nm := without_entry q (plist_before s k nm)))"
proof -
  let ?before = "plist_before s k nm"
  obtain q e r P where e: "seq_for ?before (the (number_arg (-1) sq)) = Some q" "pe_seq e = q" "state_ok s'" "fst r = k" "valid_plist s' r"
    "plist_at s' r = with_entries (put_entry q e (pl_entries ?before)) ?before" "plists s' k = (plists s k)(nm \<mapsto> plist_at s' r)" "pl_name ?before = nm"
    and un: "vty_prefix_list_uninstall aton pton p0 afi nm sq (Some ty) (Some str) ge le s' =
      Some (case index_of P (pl_entries (plist_at s' r)) of None \<Rightarrow> (CMD_WARNING, s') | Some i \<Rightarrow> (CMD_SUCCESS, prefix_list_entry_delete r i True s'))"
    and P: "P e \<longleftrightarrow> \<not> le_dropped afi str ge le" "\<And>x. \<not> le_dropped afi str ge le \<Longrightarrow> x \<in> set (pl_entries ?before) \<Longrightarrow> P x \<Longrightarrow> pe_seq x = q"
    by (rule uninstall_run [OF _ _ io(3) s k run]) (erule io(1), erule io(2), rule that)
  define es where "es = pl_entries (plist_at s' r)"
  have es: "es = put_entry q e (pl_entries ?before)" using e(6) by (simp add: es_def with_entries_def)
  have ord: "in_order (pl_entries ?before)" using plists_in_order [OF s k] by (auto simp: plist_before_def split: option.splits)
  have mem: "set es = insert e {x \<in> set (pl_entries ?before). pe_seq x \<noteq> q}" by (auto simp: es put_entry_def)
  have del: "plists (prefix_list_entry_delete r i True s') k = (plists s k)(nm := (if unlink i es = [] \<and> pl_desc ?before = None then None else Some (with_entries (unlink i es) ?before)))"
    if i: "i < length es" for i
  proof -
    have "(plist_at s' r)\<lparr>pl_entries := unlink i es, pl_count := pl_count (plist_at s' r) - 1\<rparr> = with_entries (unlink i es) ?before"
      using length_unlink [OF i] i by (simp add: e(6) es with_entries_def)
    then show ?thesis using entry_delete_spec [OF e(3,5), of i] i e(4,7,8) by (simp add: es_def [symmetric] with_entries_def [of "unlink i es"])
  qed
  show ?thesis
  proof (cases "le_dropped afi str ge le")
    case False
    then have ix: "index_of P es = index_of (\<lambda>x. pe_seq x = q) es" using P e(2) unfolding mem by (intro index_of_cong) (auto simp: mem)
    moreover have "index_of (\<lambda>x. pe_seq x = q) es \<noteq> None" using mem e(2) by (auto simp: index_of_None)
    ultimately obtain i where i: "index_of P es = Some i" "index_of (\<lambda>x. pe_seq x = q) es = Some i" by auto
    have es1: "unlink i es = filter (\<lambda>x. pe_seq x \<noteq> q) (pl_entries ?before)"
      using unlink_index [OF _ i(2)] put_entry_in_order [OF ord e(2)] filter_put_entry [OF ord e(2)] by (simp add: es)
    have "plists (prefix_list_entry_delete r i True s') k = (plists s k)(nm := without_entry q ?before)"
      using del [of i] index_of_Some [OF i(1)] unfolding without_entry_def Let_def es1 by blast
    then show ?thesis using False e(1) un i(1) by (simp add: es_def)
  next
    case True
    have in_es: "e \<in> set es" using mem by simp
    show ?thesis
    proof (cases "index_of P es")
      case None
      then show ?thesis using True e(1,7) e(2) un in_es by (force simp: es_def)
    next
      case (Some i)
      have i: "i < length es" "es ! i \<noteq> e" using index_of_Some [OF Some] P(1) True by auto
      have "e \<in> set (unlink i es)" using in_es i id_take_nth_drop [OF i(1)] by (metis Un_iff insert_iff list.simps(15) set_append unlink_def)
      then have "unlink i es \<noteq> []" "q \<in> pe_seq ` set (unlink i es)" using e(2) by force+
      moreover have "es = [e]" if "plists s k nm = None" using that by (simp add: es plist_before_def put_entry_def)
      then have "plists s k nm \<noteq> None" using i by (cases "plists s k nm") auto
      ultimately show ?thesis using True e(1) un Some del [OF i(1)] by (simp add: es_def with_entries_def)
    qed
  qed
qed

section \<open>Properties\<close>

text \<open>A list with one entry, \<^verbatim>\<open>ip prefix-list 10 permit 10.0.0.0/8 ge 16 le 32\<close>.\<close>

definition example_entry :: prefix_list_entry where
  "example_entry = \<lparr>pe_seq = 5, pe_le = 0, pe_ge = 16, pe_type = PREFIX_PERMIT, pe_any = False,
     pe_prefix = \<lparr>family = AF_INET, prefixlen = 8, p_u = 10 # replicate 15 0\<rparr>, pe_refcnt = 0, pe_hitcnt = 0\<rparr>"

definition example_install :: "(cmd_result \<times> plist_state) option" where
  "example_install = vty_prefix_list_install (\<lambda>_. Some [10, 0, 0, 0]) (\<lambda>_. None) prefix_new AFI_IP ''10'' None ''permit'' ''10.0.0.0/8'' (Some ''16'') (Some ''32'') plist_init"

lemma example_run: "map_option (\<lambda>(res, s). (res, pm_num (s Ipv4))) example_install =
  Some (CMD_SUCCESS, [\<lparr>pl_name = ''10'', pl_desc = None, pl_type = PREFIX_TYPE_NUMBER, pl_count = 1, pl_entries = [example_entry]\<rparr>])"
  by code_simp

lemma example_obtain:
  obtains s where "example_install = Some (CMD_SUCCESS, s)" "plist_reach s"
    "pm_num (s Ipv4) = [\<lparr>pl_name = ''10'', pl_desc = None, pl_type = PREFIX_TYPE_NUMBER, pl_count = 1, pl_entries = [example_entry]\<rparr>]"
  using example_run by (auto simp: example_install_def intro: plist_reach.install [OF plist_reach.init])

lemma master_okD:
  assumes "master_ok m"
  shows "distinct (map pl_name (pm_num m @ pm_str m))" "pl \<in> set (pm_num m @ pm_str m) \<Longrightarrow> plist_ok pl"
    "pm_recent m = Some nm \<Longrightarrow> nm \<in> pl_name ` set (pm_num m @ pm_str m)"
  using assms np.by_name_None [of "pm_num m" "pm_str m" nm] by (auto simp: master_ok_def np.chains_wf_def)

text \<open>C10: in every state the prefix lists can get into, through the commands, the outbound route filters,
  the use of the lists and the reset, the names of a master differ, the entries of each list stand in strictly
  ascending order of their sequence numbers, the count of a list is the number of its entries, and the list
  that was changed last still exists; and a reset succeeds, with no list left.\<close>

theorem prefix_lists_reachable:
  assumes "plist_reach s"
  shows "(\<forall>k. distinct (map pl_name (pm_num (s k) @ pm_str (s k))) \<and>
      (\<forall>pl \<in> set (pm_num (s k) @ pm_str (s k)). sorted_wrt (\<lambda>x y. pe_seq x < pe_seq y) (pl_entries pl) \<and> pl_count pl = int (length (pl_entries pl))) \<and>
      (\<forall>nm. pm_recent (s k) = Some nm \<longrightarrow> nm \<in> pl_name ` set (pm_num (s k) @ pm_str (s k)))) \<and>
    (\<exists>s'. prefix_list_reset s = Some s' \<and> (\<forall>k. pm_num (s' k) = [] \<and> pm_str (s' k) = []))"
proof -
  have ok: "state_ok s" using assms by (rule reach_ok)
  note m = state_okD [OF ok]
  show ?thesis using master_okD [OF m] plist_reset_spec [OF ok] unfolding plist_ok_def by blast
qed

theorem prefix_lists_reachable_witness:
  "\<exists>s. plist_reach s \<and> pl_entries (hd (pm_num (s Ipv4))) = [example_entry] \<and> pl_count (hd (pm_num (s Ipv4))) = 1 \<and>
     (\<exists>s'. prefix_list_reset s = Some s' \<and> pm_num (s' Ipv4) = [])"
proof -
  obtain s where s: "plist_reach s" "pm_num (s Ipv4) = [\<lparr>pl_name = ''10'', pl_desc = None, pl_type = PREFIX_TYPE_NUMBER, pl_count = 1, pl_entries = [example_entry]\<rparr>]"
    by (rule example_obtain)
  show ?thesis using s prefix_lists_reachable [OF s(1)] by (intro exI [of _ s]) auto
qed

text \<open>C32: a prefix list that exists permits a prefix when it has no entry or when, of the entries that cover the prefix,
  the one with the least sequence number is a permit entry; an entry covers the prefixes whose bits
  continue its own and whose length is in its range, or equals its own length when it has no range. A list that does not exist
  denies every prefix.  The manual (\<^verbatim>\<open>doc/filter.texi\<close>) has it the other way round: no prefix list permits, and a list in which
  no entry matches denies, which the code does for every list but the empty one.\<close>

theorem prefix_list_apply_first:
  assumes "plist_reach s" "prefix_list_lookup afi (Some nm) s = Some r"
  shows "(fst (prefix_list_apply (Some (plist_at s r)) p) = PREFIX_PERMIT \<longleftrightarrow>
      (let es = pl_entries (plist_at s r) in es = [] \<or>
        (\<exists>e \<in> set es. entry_covers e p \<and> pe_type e = PREFIX_PERMIT \<and> (\<forall>e' \<in> set es. entry_covers e' p \<longrightarrow> pe_seq e \<le> pe_seq e')))) \<and>
    fst (prefix_list_apply None p) = PREFIX_DENY"
proof -
  have ok: "state_ok s" using assms(1) by (rule reach_ok)
  have "plist_ok (plist_at s r)" using plist_at_ok(1) [OF ok lookup_valid [OF ok]] assms(2) by (simp add: prefix_list_lookup_def)
  then show ?thesis unfolding Let_def using apply_first [of "plist_at s r" p] by (simp add: prefix_list_apply_def)
qed

theorem prefix_list_apply_first_witness:
  "\<exists>s r. plist_reach s \<and> prefix_list_lookup AFI_IP (Some ''10'') s = Some r \<and>
     fst (prefix_list_apply (Some (plist_at s r)) \<lparr>family = AF_INET, prefixlen = 24, p_u = 10 # 1 # replicate 14 0\<rparr>) = PREFIX_PERMIT \<and>
     fst (prefix_list_apply (Some (plist_at s r)) \<lparr>family = AF_INET, prefixlen = 24, p_u = 11 # 1 # replicate 14 0\<rparr>) \<noteq> PREFIX_PERMIT"
proof -
  obtain s where s: "plist_reach s" "pm_num (s Ipv4) = [\<lparr>pl_name = ''10'', pl_desc = None, pl_type = PREFIX_TYPE_NUMBER, pl_count = 1, pl_entries = [example_entry]\<rparr>]"
    by (rule example_obtain)
  let ?r = "(Ipv4, PREFIX_TYPE_NUMBER, 0)"
  have r: "prefix_list_lookup AFI_IP (Some ''10'') s = Some ?r"
    using s(2) by (simp add: prefix_list_lookup_def prefix_list_lookup_do_def prefix_master_get_def index_of_def)
  have es: "pl_entries (plist_at s ?r) = [example_entry]" using s(2) by (simp add: chain_def)
  have c: "entry_covers example_entry \<lparr>family = AF_INET, prefixlen = 24, p_u = 10 # 1 # replicate 14 0\<rparr>"
    "\<not> entry_covers example_entry \<lparr>family = AF_INET, prefixlen = 24, p_u = 11 # 1 # replicate 14 0\<rparr>" "pe_type example_entry = PREFIX_PERMIT" by code_simp+
  show ?thesis by (intro exI [of _ s] exI [of _ ?r]) (simp only: s(1) r es c prefix_list_apply_first [OF s(1) r] Let_def; simp add: c)
qed

text \<open>A \<^verbatim>\<open>prefix-list\<close> command that fails with a warning changes nothing; one that succeeds changes the list of that
  name in the master of its address family and nothing else: the list, new if there was none, now has an entry of the given kind with the prefix of the
  command, and a range above its length, in place of whichever entry had the same sequence number.\<close>

theorem prefix_list_install_refines:
  assumes "plist_reach s" "vty_prefix_list_install aton pton p0 afi nm sq ty str ge le s = Some (res, s')"
  shows "(res = CMD_WARNING \<longrightarrow> s' = s) \<and>
    (res = CMD_SUCCESS \<longrightarrow> (\<exists>k q e. prefix_master_get afi False = Some k \<and> range_ok e \<and> pe_seq e = q \<and>
      Some (pe_type e) = str2plist_type ty \<and> prefix_copy prefix_new (snd (plist_prefix_arg aton pton afi str p0)) = Some (pe_prefix e) \<and>
      seq_for (plist_before s k nm) (the (number_arg (-1) sq)) = Some q \<and>
      plists s' k = (plists s k)(nm \<mapsto> with_entries (put_entry q e (pl_entries (plist_before s k nm))) (plist_before s k nm)) \<and>
      (\<forall>k'. k' \<noteq> k \<longrightarrow> s' k' = s k')))"
  using install_spec [OF reach_ok [OF assms(1)] assms(2)] by blast

theorem prefix_list_install_refines_witness:
  "\<exists>s. example_install = Some (CMD_SUCCESS, s) \<and> (\<forall>k. k \<noteq> Ipv4 \<longrightarrow> s k = plist_init k)"
proof -
  obtain s where s: "example_install = Some (CMD_SUCCESS, s)" by (rule example_obtain)
  have "prefix_master_get AFI_IP False = Some Ipv4" by (simp add: prefix_master_get_def)
  then show ?thesis using s prefix_list_install_refines [OF plist_reach.init s [unfolded example_install_def]] by (intro exI [of _ s]) auto
qed

text \<open>C33: a \<^verbatim>\<open>no prefix-list\<close> command with the words of a command that was accepted just before takes it back: the list has the entries it had, except
  for one with the same sequence number, which the first command replaced; a list left without entries and description is deleted.  The exception are
  words that give both bounds of which the upper one is the longest length there is: then the entry stays, and, if the list was new, the command warns.\<close>

theorem prefix_list_uninstall_same_words:
  assumes "\<And>x a. aton x = Some a \<Longrightarrow> length a = 4" "\<And>x a. pton x = Some a \<Longrightarrow> length a = 16" "length (p_u p0) = 16"
    and "plist_reach s" "prefix_master_get afi False = Some k"
    and "vty_prefix_list_install aton pton p0 afi nm sq ty str ge le s = Some (CMD_SUCCESS, s')"
  shows "\<exists>q res s''. seq_for (plist_before s k nm) (the (number_arg (-1) sq)) = Some q \<and>
    vty_prefix_list_uninstall aton pton p0 afi nm sq (Some ty) (Some str) ge le s' = Some (res, s'') \<and>
    (if le_dropped afi str ge le
     then (\<exists>pl. plists s'' k nm = Some pl \<and> q \<in> pe_seq ` set (pl_entries pl)) \<and> (plists s k nm = None \<longrightarrow> res = CMD_WARNING \<and> s'' = s')
     else res = CMD_SUCCESS \<and> plists s'' k = (plists s k)(nm := without_entry q (plist_before s k nm)))"
  by (rule uninstall_same_words [OF assms(1-3) reach_ok [OF assms(4)] assms(5,6)])

theorem prefix_list_uninstall_same_words_witness:
  "\<exists>s. example_install = Some (CMD_SUCCESS, s) \<and>
    vty_prefix_list_uninstall (\<lambda>_. Some [10, 0, 0, 0]) (\<lambda>_. None) prefix_new AFI_IP ''10'' None (Some ''permit'') (Some ''10.0.0.0/8'') (Some ''16'') (Some ''32'') s =
      Some (CMD_WARNING, s)"
proof -
  obtain s where s: "example_install = Some (CMD_SUCCESS, s)" by (rule example_obtain)
  have io: "\<And>x a. Some [10, 0, 0, 0 :: u8] = Some a \<Longrightarrow> length a = 4" "\<And>x a. None = Some (a :: u8 list) \<Longrightarrow> length a = 16" "length (p_u prefix_new) = 16" by (auto simp: prefix_new_def)
  have k: "prefix_master_get AFI_IP False = Some Ipv4" "plists plist_init Ipv4 ''10'' = None" by (simp_all add: prefix_master_get_def plists_def plist_init_def)
  have "le_dropped AFI_IP ''10.0.0.0/8'' (Some ''16'') (Some ''32'')" by code_simp
  then show ?thesis using s k(2) prefix_list_uninstall_same_words [OF io plist_reach.init k(1) s [unfolded example_install_def]] by (intro exI [of _ s]) auto
qed

end
