(* ===== verification/Pqueue.thy ===== *)
theory Pqueue
  imports Quagga_Prelude "HOL-Library.Multiset"
begin

text \<open>
  The priority queue of \<^verbatim>\<open>lib/pqueue.c\<close>: a binary heap in an array.  The order is the comparison function of
  the queue, an argument of the operations here.  The \<^verbatim>\<open>update\<close> hook tells the owner of an element where it
  is; its effect in the daemons is to store the position in the element, which is the map \<open>pq_pos\<close>.
  \<open>None\<close> is an access outside of the array.  Sizes and positions are natural numbers.
\<close>

section \<open>Model\<close>

record 'a pqueue =
  pq_array :: "'a list"
  array_size :: nat
  pq_size :: nat
  pq_update :: bool
  pq_pos :: "'a \<rightharpoonup> nat"

definition PARENT_OF :: "nat \<Rightarrow> nat" where
  "PARENT_OF x = (x - 1) div 2"

definition LEFT_OF :: "nat \<Rightarrow> nat" where
  "LEFT_OF x = 2 * x + 1"

definition RIGHT_OF :: "nat \<Rightarrow> nat" where
  "RIGHT_OF x = 2 * x + 2"

definition HAVE_CHILD :: "nat \<Rightarrow> 'a pqueue \<Rightarrow> bool" where
  "HAVE_CHILD x q \<longleftrightarrow> x < pq_size q div 2"

text \<open>A write to a slot with the call of the hook.\<close>

definition put_slot :: "nat \<Rightarrow> 'a \<Rightarrow> 'a pqueue \<Rightarrow> 'a pqueue" where
  "put_slot i x q =
     q\<lparr>pq_array := (pq_array q)[i := x], pq_pos := (if pq_update q then (pq_pos q)(x \<mapsto> i) else pq_pos q)\<rparr>"

function trickle_up_loop :: "('a \<Rightarrow> 'a \<Rightarrow> int) \<Rightarrow> 'a \<Rightarrow> nat \<Rightarrow> 'a pqueue \<Rightarrow> nat \<times> 'a pqueue" where
  "trickle_up_loop cmp tmp index q =
     (if index > 0 \<and> cmp tmp (pq_array q ! PARENT_OF index) < 0
      then trickle_up_loop cmp tmp (PARENT_OF index) (put_slot index (pq_array q ! PARENT_OF index) q)
      else (index, q))"
  by auto
termination by (relation "measure (\<lambda>(_, _, i, _). i)") (auto simp: PARENT_OF_def)

definition trickle_up :: "('a \<Rightarrow> 'a \<Rightarrow> int) \<Rightarrow> nat \<Rightarrow> 'a pqueue \<Rightarrow> 'a pqueue option" where
  "trickle_up cmp index q =
     (if index \<ge> length (pq_array q) then None
      else let tmp = pq_array q ! index; (i, q1) = trickle_up_loop cmp tmp index q in Some (put_slot i tmp q1))"

definition which_child :: "('a \<Rightarrow> 'a \<Rightarrow> int) \<Rightarrow> nat \<Rightarrow> 'a pqueue \<Rightarrow> nat" where
  "which_child cmp index q =
     (if RIGHT_OF index < pq_size q \<and> cmp (pq_array q ! LEFT_OF index) (pq_array q ! RIGHT_OF index) > 0
      then RIGHT_OF index else LEFT_OF index)"

function trickle_down_loop :: "('a \<Rightarrow> 'a \<Rightarrow> int) \<Rightarrow> 'a \<Rightarrow> nat \<Rightarrow> 'a pqueue \<Rightarrow> nat \<times> 'a pqueue" where
  "trickle_down_loop cmp tmp index q =
     (if HAVE_CHILD index q then
        let which = which_child cmp index q in
        if cmp (pq_array q ! which) tmp > 0 then (index, q)
        else trickle_down_loop cmp tmp which (put_slot index (pq_array q ! which) q)
      else (index, q))"
  by auto
termination
  by (relation "measure (\<lambda>(_, _, i, q). pq_size q - i)")
    (auto simp: HAVE_CHILD_def which_child_def LEFT_OF_def RIGHT_OF_def put_slot_def)

definition trickle_down :: "('a \<Rightarrow> 'a \<Rightarrow> int) \<Rightarrow> nat \<Rightarrow> 'a pqueue \<Rightarrow> 'a pqueue option" where
  "trickle_down cmp index q =
     (if index \<ge> length (pq_array q) then None
      else let tmp = pq_array q ! index; (i, q1) = trickle_down_loop cmp tmp index q in Some (put_slot i tmp q1))"

abbreviation PQUEUE_INIT_ARRAYSIZE :: nat where "PQUEUE_INIT_ARRAYSIZE \<equiv> 32"

text \<open>\<open>null\<close> is the null pointer, which fills the slots of a new array.\<close>

definition pqueue_create :: "'a \<Rightarrow> 'a pqueue" where
  "pqueue_create null =
     \<lparr>pq_array = replicate PQUEUE_INIT_ARRAYSIZE null, array_size = PQUEUE_INIT_ARRAYSIZE, pq_size = 0,
      pq_update = False, pq_pos = Map.empty\<rparr>"

definition pqueue_expand :: "'a \<Rightarrow> 'a pqueue \<Rightarrow> 'a pqueue" where
  "pqueue_expand null q =
     q\<lparr>pq_array := take (array_size q) (pq_array q) @ replicate (array_size q) null, array_size := array_size q * 2\<rparr>"

definition pqueue_enqueue :: "('a \<Rightarrow> 'a \<Rightarrow> int) \<Rightarrow> 'a \<Rightarrow> 'a \<Rightarrow> 'a pqueue \<Rightarrow> 'a pqueue option" where
  "pqueue_enqueue cmp null data q =
     (let q1 = (if pq_size q + 2 \<ge> array_size q then pqueue_expand null q else q) in
      if pq_size q1 \<ge> length (pq_array q1) then None
      else map_option (\<lambda>q2. q2\<lparr>pq_size := pq_size q2 + 1\<rparr>)
             (trickle_up cmp (pq_size q1) (put_slot (pq_size q1) data q1)))"

text \<open>With an empty queue both of these read the slot before the array.\<close>

definition pqueue_dequeue :: "('a \<Rightarrow> 'a \<Rightarrow> int) \<Rightarrow> 'a pqueue \<Rightarrow> ('a \<times> 'a pqueue) option" where
  "pqueue_dequeue cmp q =
     (if pq_size q = 0 \<or> pq_size q > length (pq_array q) then None
      else
        let data = pq_array q ! 0;
            q1 = q\<lparr>pq_size := pq_size q - 1\<rparr>;
            q2 = q1\<lparr>pq_array := (pq_array q1)[0 := pq_array q1 ! pq_size q1]\<rparr>
        in map_option (Pair data) (trickle_down cmp 0 q2))"

definition pqueue_remove_at :: "('a \<Rightarrow> 'a \<Rightarrow> int) \<Rightarrow> nat \<Rightarrow> 'a pqueue \<Rightarrow> 'a pqueue option" where
  "pqueue_remove_at cmp index q =
     (if pq_size q = 0 \<or> pq_size q > length (pq_array q) \<or> index \<ge> length (pq_array q) then None
      else
        let q1 = q\<lparr>pq_size := pq_size q - 1\<rparr>;
            q2 = q1\<lparr>pq_array := (pq_array q1)[index := pq_array q1 ! pq_size q1]\<rparr>
        in if index > 0 \<and> cmp (pq_array q2 ! index) (pq_array q2 ! PARENT_OF index) < 0
           then trickle_up cmp index q2 else trickle_down cmp index q2)"

section \<open>Slots\<close>

lemma put_slot_simps [simp]:
  "pq_array (put_slot i x q) = (pq_array q)[i := x]" "array_size (put_slot i x q) = array_size q"
  "pq_size (put_slot i x q) = pq_size q" "pq_update (put_slot i x q) = pq_update q"
  "pq_pos (put_slot i x q) = (if pq_update q then (pq_pos q)(x \<mapsto> i) else pq_pos q)"
  by (simp_all add: put_slot_def)

lemma PARENT_OF_less: "0 < i \<Longrightarrow> PARENT_OF i < i"
  by (auto simp: PARENT_OF_def)

lemma PARENT_OF_child: "0 < i \<Longrightarrow> PARENT_OF i = k \<longleftrightarrow> i = LEFT_OF k \<or> i = RIGHT_OF k"
  by (auto simp: PARENT_OF_def LEFT_OF_def RIGHT_OF_def)

lemma PARENT_OF_LEFT [simp]: "PARENT_OF (LEFT_OF k) = k" "PARENT_OF (RIGHT_OF k) = k"
  by (simp_all add: PARENT_OF_def LEFT_OF_def RIGHT_OF_def)

lemma mset_take_swap:
  assumes "i < n" "j < n" "n \<le> length xs"
  shows "mset (take n (xs[i := xs ! j, j := xs ! i])) = mset (take n xs)"
proof -
  have "take n (xs[i := xs ! j, j := xs ! i]) = (take n xs)[i := take n xs ! j, j := take n xs ! i]"
    using assms by (simp add: take_update_swap)
  also have "mset \<dots> = mset (take n xs)" by (rule mset_swap) (use assms in auto)
  finally show ?thesis .
qed

text \<open>
  While an element trickles, its slot is a hole: \<open>with_hole tmp k q\<close> is the array with the element in the hole,
  and \<open>hole\<close> says what is known of the queue meanwhile, \<open>M\<close> being the elements of the first \<open>n\<close> slots.
\<close>

definition with_hole :: "'a \<Rightarrow> nat \<Rightarrow> 'a pqueue \<Rightarrow> 'a list" where
  "with_hole tmp k q = (pq_array q)[k := tmp]"

definition hole :: "'a pqueue \<Rightarrow> nat \<Rightarrow> 'a multiset \<Rightarrow> 'a \<Rightarrow> nat \<Rightarrow> 'a pqueue \<Rightarrow> bool" where
  "hole q0 n M tmp k q \<longleftrightarrow>
     k < n \<and> n \<le> length (pq_array q) \<and> length (pq_array q) = length (pq_array q0) \<and> array_size q = array_size q0 \<and>
     pq_size q = pq_size q0 \<and> pq_update q = pq_update q0 \<and> mset (take n (with_hole tmp k q)) = M \<and>
     (pq_update q \<longrightarrow> distinct (take n (with_hole tmp k q)) \<longrightarrow>
        (\<forall>i<n. i \<noteq> k \<longrightarrow> pq_pos q (with_hole tmp k q ! i) = Some i))"

lemma slide_array:
  assumes "k < length (pq_array q)" "p < length (pq_array q)" "p \<noteq> k"
  shows "with_hole tmp p (put_slot k (pq_array q ! p) q) =
    (with_hole tmp k q)[k := with_hole tmp k q ! p, p := with_hole tmp k q ! k]"
  using assms by (simp add: with_hole_def list_eq_iff_nth_eq nth_list_update)

lemma distinct_mset_cong: "mset xs = mset ys \<Longrightarrow> distinct xs \<longleftrightarrow> distinct ys"
  by (metis mset_eq_imp_distinct_iff)

lemma distinct_take_neq:
  assumes "distinct (take n xs)" "i < n" "j < n" "n \<le> length xs" "i \<noteq> j"
  shows "xs ! i \<noteq> xs ! j"
proof -
  have "take n xs ! i \<noteq> take n xs ! j" using assms by (subst nth_eq_iff_index_eq [OF assms(1)]) auto
  then show ?thesis using assms by simp
qed

lemma hole_slide:
  assumes h: "hole q0 n M tmp k q" and p: "p < n" "p \<noteq> k"
  shows "hole q0 n M tmp p (put_slot k (pq_array q ! p) q)"
proof -
  let ?v = "with_hole tmp k q" and ?q = "put_slot k (pq_array q ! p) q"
  have k: "k < n" "n \<le> length (pq_array q)" using h by (auto simp: hole_def)
  have len: "length ?v = length (pq_array q)" by (simp add: with_hole_def)
  have v': "with_hole tmp p ?q = ?v[k := ?v ! p, p := ?v ! k]" by (rule slide_array) (use k p in auto)
  have vp: "?v ! p = pq_array q ! p" using p(2) by (simp add: with_hole_def)
  have m: "mset (take n (with_hole tmp p ?q)) = mset (take n ?v)" unfolding v' by (rule mset_take_swap) (use k p len in auto)
  have "pq_pos ?q (with_hole tmp p ?q ! i) = Some i"
    if u: "pq_update q" and d: "distinct (take n (with_hole tmp p ?q))" and i: "i < n" "i \<noteq> p" for i
  proof (cases "i = k")
    case True
    then show ?thesis using u k p len vp by (simp add: v' nth_list_update)
  next
    case False
    have dv: "distinct (take n ?v)" using d distinct_mset_cong [OF m] by simp
    then have "?v ! i \<noteq> ?v ! p" using distinct_take_neq [of n ?v i p] i p k len by simp
    moreover have "pq_pos q (?v ! i) = Some i" using h u dv i(1) False by (simp add: hole_def)
    ultimately show ?thesis using u i False vp by (simp add: v' nth_list_update)
  qed
  then show ?thesis using h p m by (simp add: hole_def)
qed

text \<open>Closing the hole.\<close>

definition pos_ok :: "'a pqueue \<Rightarrow> nat \<Rightarrow> bool" where
  "pos_ok q n \<longleftrightarrow> (pq_update q \<longrightarrow> distinct (take n (pq_array q)) \<longrightarrow> (\<forall>i<n. pq_pos q (pq_array q ! i) = Some i))"

lemma hole_close:
  assumes h: "hole q0 n M tmp k q"
  shows "pq_array (put_slot k tmp q) = with_hole tmp k q" "mset (take n (pq_array (put_slot k tmp q))) = M"
    "pos_ok (put_slot k tmp q) n"
proof -
  show a: "pq_array (put_slot k tmp q) = with_hole tmp k q" by (simp add: with_hole_def)
  show "mset (take n (pq_array (put_slot k tmp q))) = M" using h a by (simp add: hole_def with_hole_def)
  have "pq_pos (put_slot k tmp q) (with_hole tmp k q ! i) = Some i"
    if u: "pq_update q" and d: "distinct (take n (with_hole tmp k q))" and i: "i < n" for i
  proof (cases "i = k")
    case True
    then show ?thesis using u h by (simp add: with_hole_def hole_def)
  next
    case False
    have k: "k < n" "n \<le> length (pq_array q)" using h by (auto simp: hole_def)
    then have "with_hole tmp k q ! k = tmp" by (simp add: with_hole_def)
    moreover have "with_hole tmp k q ! i \<noteq> with_hole tmp k q ! k"
      using distinct_take_neq [OF d i k(1)] k(2) False by (simp add: with_hole_def)
    moreover have "pq_pos q (with_hole tmp k q ! i) = Some i" using h u d i False by (simp add: hole_def)
    ultimately show ?thesis using u by simp
  qed
  then show "pos_ok (put_slot k tmp q) n" unfolding pos_ok_def a by simp
qed

lemma hole_open:
  assumes "k < n" "n \<le> length (pq_array q)"
    "pq_update q \<longrightarrow> distinct (take n (pq_array q)) \<longrightarrow> (\<forall>i<n. i \<noteq> k \<longrightarrow> pq_pos q (pq_array q ! i) = Some i)"
  shows "hole q n (mset (take n (pq_array q))) (pq_array q ! k) k q"
  using assms by (simp add: hole_def with_hole_def)

section \<open>Heaps\<close>

text \<open>What a comparison function must satisfy: its sign is a total preorder.\<close>

locale pq_order =
  fixes cmp :: "'a \<Rightarrow> 'a \<Rightarrow> int"
  assumes cmp_neg: "cmp x y < 0 \<longleftrightarrow> cmp y x > 0"
    and cmp_trans: "cmp x y \<le> 0 \<Longrightarrow> cmp y z \<le> 0 \<Longrightarrow> cmp x z \<le> 0"
begin

lemma cmp_refl: "cmp x x \<le> 0"
  using cmp_neg [of x x] by linarith

lemma cmp_pos: "cmp x y > 0 \<Longrightarrow> cmp y x \<le> 0"
  using cmp_neg [of y x] by linarith

lemma cmp_not_neg: "\<not> cmp x y < 0 \<Longrightarrow> cmp y x \<le> 0"
  using cmp_neg [of x y] by linarith

definition heap :: "'a list \<Rightarrow> nat \<Rightarrow> bool" where
  "heap xs n \<longleftrightarrow> (\<forall>i. 0 < i \<longrightarrow> i < n \<longrightarrow> cmp (xs ! PARENT_OF i) (xs ! i) \<le> 0)"

text \<open>A heap but for the slot \<open>k\<close>, whose element may be too small, or too large, for its place.\<close>

definition above :: "'a list \<Rightarrow> nat \<Rightarrow> nat \<Rightarrow> bool" where
  "above xs n k \<longleftrightarrow> (\<forall>i. 0 < i \<longrightarrow> i < n \<longrightarrow> 0 < k \<longrightarrow> PARENT_OF i = k \<longrightarrow> cmp (xs ! PARENT_OF k) (xs ! i) \<le> 0)"

definition up_heap :: "'a list \<Rightarrow> nat \<Rightarrow> nat \<Rightarrow> bool" where
  "up_heap xs n k \<longleftrightarrow> (\<forall>i. 0 < i \<longrightarrow> i < n \<longrightarrow> i \<noteq> k \<longrightarrow> cmp (xs ! PARENT_OF i) (xs ! i) \<le> 0) \<and> above xs n k"

definition down_heap :: "'a list \<Rightarrow> nat \<Rightarrow> nat \<Rightarrow> bool" where
  "down_heap xs n k \<longleftrightarrow>
     (\<forall>i. 0 < i \<longrightarrow> i < n \<longrightarrow> PARENT_OF i \<noteq> k \<longrightarrow> cmp (xs ! PARENT_OF i) (xs ! i) \<le> 0) \<and> above xs n k"

lemma up_heap_swap:
  assumes h: "up_heap xs n k" and k: "0 < k" "k < n" "n \<le> length xs"
    and less: "cmp (xs ! k) (xs ! PARENT_OF k) < 0"
  shows "up_heap (xs[k := xs ! PARENT_OF k, PARENT_OF k := xs ! k]) n (PARENT_OF k)"
proof -
  let ?p = "PARENT_OF k" and ?ys = "xs[k := xs ! PARENT_OF k, PARENT_OF k := xs ! k]"
  have p: "?p < k" by (rule PARENT_OF_less [OF k(1)])
  have nth: "?ys ! i = (if i = ?p then xs ! k else if i = k then xs ! ?p else xs ! i)" if "i < n" for i
    using that k p by (simp add: nth_list_update)
  have ord: "cmp (xs ! PARENT_OF i) (xs ! i) \<le> 0" if "0 < i" "i < n" "i \<noteq> k" for i
    using h that by (simp add: up_heap_def)
  have abv: "cmp (xs ! ?p) (xs ! i) \<le> 0" if "0 < i" "i < n" "PARENT_OF i = k" for i
    using h that k(1) by (simp add: up_heap_def above_def)
  have kp: "cmp (xs ! k) (xs ! ?p) \<le> 0" using less by simp
  have "cmp (?ys ! PARENT_OF i) (?ys ! i) \<le> 0" if i: "0 < i" "i < n" "i \<noteq> ?p" for i
  proof -
    have "PARENT_OF i < n" using PARENT_OF_less [OF i(1)] i(2) by simp
    then show ?thesis
      using nth [of i] nth [of "PARENT_OF i"] i p k kp ord [of i] abv [of i] cmp_trans [of "xs ! k" "xs ! ?p" "xs ! i"] by auto
  qed
  moreover have "cmp (?ys ! PARENT_OF ?p) (?ys ! i) \<le> 0" if i: "0 < i" "i < n" "0 < ?p" "PARENT_OF i = ?p" for i
  proof -
    have pp: "PARENT_OF ?p < ?p" by (rule PARENT_OF_less [OF i(3)])
    have "cmp (xs ! PARENT_OF ?p) (xs ! ?p) \<le> 0" using ord [of ?p] i p k by simp
    moreover have "cmp (xs ! PARENT_OF ?p) (xs ! i) \<le> 0" if "i \<noteq> k"
      using ord [of i] ord [of ?p] i p k that cmp_trans [of "xs ! PARENT_OF ?p" "xs ! ?p" "xs ! i"] by simp
    moreover have "i \<noteq> ?p" using i PARENT_OF_less [OF i(1)] by auto
    ultimately show ?thesis using nth [of i] nth [of "PARENT_OF ?p"] i p pp k by auto
  qed
  ultimately show ?thesis by (simp add: up_heap_def above_def)
qed

lemma up_heap_done:
  assumes "up_heap xs n k" "\<not> (0 < k \<and> cmp (xs ! k) (xs ! PARENT_OF k) < 0)"
  shows "heap xs n"
  using assms cmp_not_neg [of "xs ! k" "xs ! PARENT_OF k"] by (auto simp: up_heap_def heap_def)

lemma trickle_up_loop_spec:
  assumes "hole q0 n M tmp k q" "up_heap (with_hole tmp k q) n k" "trickle_up_loop cmp tmp k q = (j, q1)"
  shows "hole q0 n M tmp j q1 \<and> heap (with_hole tmp j q1) n"
  using assms
proof (induction k arbitrary: q rule: less_induct)
  case (less k)
  let ?v = "with_hole tmp k q" and ?p = "PARENT_OF k"
  have k: "k < n" "n \<le> length (pq_array q)" using less.prems(1) by (auto simp: hole_def)
  have vk: "?v ! k = tmp" using k by (simp add: with_hole_def)
  show ?case
  proof (cases "0 < k \<and> cmp tmp (pq_array q ! ?p) < 0")
    case True
    then have p: "?p < k" using PARENT_OF_less by simp
    then have vp: "?v ! ?p = pq_array q ! ?p" by (simp add: with_hole_def)
    let ?q = "put_slot k (pq_array q ! ?p) q"
    have "hole q0 n M tmp ?p ?q" by (rule hole_slide [OF less.prems(1)]) (use p k in auto)
    moreover have "up_heap (with_hole tmp ?p ?q) n ?p"
    proof -
      have "with_hole tmp ?p ?q = ?v[k := ?v ! ?p, ?p := ?v ! k]" by (rule slide_array) (use k p in auto)
      moreover have "n \<le> length ?v" using k by (simp add: with_hole_def)
      ultimately show ?thesis using up_heap_swap [OF less.prems(2), of] True k vk vp by simp
    qed
    moreover have "trickle_up_loop cmp tmp ?p ?q = (j, q1)" using less.prems(3) True by (simp add: trickle_up_loop.simps [of _ _ k])
    ultimately show ?thesis using less.IH [OF p] by blast
  next
    case False
    then have "j = k" "q1 = q" using less.prems(3) by (auto simp: trickle_up_loop.simps [of _ _ k] split: if_splits)
    moreover have "heap ?v n"
    proof (rule up_heap_done [OF less.prems(2)])
      show "\<not> (0 < k \<and> cmp (?v ! k) (?v ! ?p) < 0)"
        using False vk PARENT_OF_less [of k] by (auto simp: with_hole_def)
    qed
    ultimately show ?thesis using less.prems(1) by simp
  qed
qed

lemma which_child_spec:
  assumes "HAVE_CHILD k q" "pq_size q = n"
  shows "k < which_child cmp k q" "which_child cmp k q < n" "PARENT_OF (which_child cmp k q) = k"
    "\<And>i. 0 < i \<Longrightarrow> i < n \<Longrightarrow> PARENT_OF i = k \<Longrightarrow> cmp (pq_array q ! which_child cmp k q) (pq_array q ! i) \<le> 0"
proof -
  have k: "2 * k + 1 < n" using assms by (auto simp: HAVE_CHILD_def)
  show "k < which_child cmp k q" "which_child cmp k q < n" "PARENT_OF (which_child cmp k q) = k"
    using k assms(2) by (auto simp: which_child_def LEFT_OF_def RIGHT_OF_def) (auto simp: PARENT_OF_def)
  show "cmp (pq_array q ! which_child cmp k q) (pq_array q ! i) \<le> 0" if i: "0 < i" "i < n" "PARENT_OF i = k" for i
  proof -
    have "i = LEFT_OF k \<or> i = RIGHT_OF k" using PARENT_OF_child i by simp
    then show ?thesis
      using i(2) assms(2) cmp_refl cmp_pos [of "pq_array q ! LEFT_OF k" "pq_array q ! RIGHT_OF k"]
      by (auto simp: which_child_def)
  qed
qed

lemma down_heap_swap:
  assumes h: "down_heap xs n k" and c: "k < c" "c < n" "n \<le> length xs" "PARENT_OF c = k" "cmp (xs ! c) (xs ! k) \<le> 0"
    and least: "\<And>i. 0 < i \<Longrightarrow> i < n \<Longrightarrow> PARENT_OF i = k \<Longrightarrow> cmp (xs ! c) (xs ! i) \<le> 0"
  shows "down_heap (xs[k := xs ! c, c := xs ! k]) n c"
proof -
  let ?ys = "xs[k := xs ! c, c := xs ! k]"
  have nth: "?ys ! i = (if i = c then xs ! k else if i = k then xs ! c else xs ! i)" if "i < n" for i
    using that c by (simp add: nth_list_update)
  have ord: "cmp (xs ! PARENT_OF i) (xs ! i) \<le> 0" if "0 < i" "i < n" "PARENT_OF i \<noteq> k" for i
    using h that by (simp add: down_heap_def)
  have abv: "cmp (xs ! PARENT_OF k) (xs ! c) \<le> 0" if "0 < k" using h that c by (simp add: down_heap_def above_def)
  have "cmp (?ys ! PARENT_OF i) (?ys ! i) \<le> 0" if i: "0 < i" "i < n" "PARENT_OF i \<noteq> c" for i
  proof -
    have pi: "PARENT_OF i < i" by (rule PARENT_OF_less [OF i(1)])
    consider "i = c" | "i = k" | "i \<noteq> c" "i \<noteq> k" "PARENT_OF i = k" | "i \<noteq> c" "i \<noteq> k" "PARENT_OF i \<noteq> k" by blast
    then show ?thesis
    proof cases
      case 1
      then show ?thesis using nth c by simp
    next
      case 2
      then show ?thesis using nth c abv i pi by simp
    next
      case 3
      then show ?thesis using nth c least i by simp
    next
      case 4
      then show ?thesis using nth ord i pi by simp
    qed
  qed
  moreover have "cmp (?ys ! PARENT_OF c) (?ys ! i) \<le> 0" if i: "0 < i" "i < n" "PARENT_OF i = c" for i
    using nth [of i] nth [of k] c ord [of i] i PARENT_OF_less [of i] by auto
  ultimately show ?thesis by (simp add: down_heap_def above_def)
qed

lemma trickle_down_loop_spec:
  assumes "hole q0 n M tmp k q" "pq_size q = n" "down_heap (with_hole tmp k q) n k" "trickle_down_loop cmp tmp k q = (j, q1)"
  shows "hole q0 n M tmp j q1 \<and> heap (with_hole tmp j q1) n"
  using assms
proof (induction "n - k" arbitrary: q k rule: less_induct)
  case less
  let ?v = "with_hole tmp k q" and ?c = "which_child cmp k q"
  have k: "k < n" "n \<le> length (pq_array q)" using less.prems(1) by (auto simp: hole_def)
  have vk: "?v ! k = tmp" using k by (simp add: with_hole_def)
  have vi: "?v ! i = pq_array q ! i" if "i \<noteq> k" for i using that by (simp add: with_hole_def)
  show ?case
  proof (cases "HAVE_CHILD k q")
    case True
    note c = which_child_spec [OF True less.prems(2)]
    have least: "cmp (?v ! ?c) (?v ! i) \<le> 0" if "0 < i" "i < n" "PARENT_OF i = k" for i
      using c(1,4) that vi [of i] vi [of ?c] PARENT_OF_less [of i] by auto
    show ?thesis
    proof (cases "cmp (pq_array q ! ?c) tmp > 0")
      case brk: True
      then have eq: "j = k" "q1 = q" using less.prems(4) True by (simp_all add: trickle_down_loop.simps [of _ _ k] Let_def)
      have "cmp tmp (?v ! ?c) \<le> 0" using cmp_pos [OF brk] vi [of ?c] c(1) by simp
      then have "cmp (?v ! k) (?v ! i) \<le> 0" if "0 < i" "i < n" "PARENT_OF i = k" for i
        using cmp_trans least [OF that] vk by metis
      then have "heap ?v n" using less.prems(3) by (auto simp: heap_def down_heap_def)
      then show ?thesis using eq less.prems(1) by simp
    next
      case False
      let ?q = "put_slot k (pq_array q ! ?c) q"
      have "with_hole tmp ?c ?q = ?v[k := ?v ! ?c, ?c := ?v ! k]" by (rule slide_array) (use k c in auto)
      moreover have "down_heap (?v[k := ?v ! ?c, ?c := ?v ! k]) n ?c"
        by (rule down_heap_swap [OF less.prems(3) c(1,2) _ c(3) _ least])
          (use False k vk vi [of ?c] c(1) in \<open>simp_all add: with_hole_def\<close>)
      moreover have "hole q0 n M tmp ?c ?q" by (rule hole_slide [OF less.prems(1)]) (use c in auto)
      moreover have "trickle_down_loop cmp tmp ?c ?q = (j, q1)" using less.prems(4) True False
        by (simp add: trickle_down_loop.simps [of _ _ k] Let_def)
      moreover have "n - ?c < n - k" using c(1) k by linarith
      ultimately show ?thesis using less.hyps [of ?c ?q] less.prems(2) by simp
    qed
  next
    case False
    then have eq: "j = k" "q1 = q" using less.prems(4) by (simp_all add: trickle_down_loop.simps [of _ _ k])
    have "\<not> (0 < i \<and> i < n \<and> PARENT_OF i = k)" for i
      using False less.prems(2) PARENT_OF_child [of i k] by (auto simp: HAVE_CHILD_def LEFT_OF_def RIGHT_OF_def)
    then have "heap ?v n" using less.prems(3) by (auto simp: heap_def down_heap_def)
    then show ?thesis using eq less.prems(1) by simp
  qed
qed

end

section \<open>The queue\<close>

definition contents :: "'a pqueue \<Rightarrow> 'a multiset" where
  "contents q = mset (take (pq_size q) (pq_array q))"

text \<open>A multiset without repetitions.\<close>

definition once :: "'a multiset \<Rightarrow> bool" where
  "once M \<longleftrightarrow> (\<forall>x. count M x \<le> 1)"

lemma once_add [simp]: "once (add_mset x M) \<longleftrightarrow> x \<notin># M \<and> once M"
proof
  assume h: "once (add_mset x M)"
  have "count (add_mset x M) x \<le> 1" using h unfolding once_def by blast
  then have "x \<notin># M" by (simp add: count_eq_zero_iff)
  moreover have "count M y \<le> 1" for y
    using h [unfolded once_def, rule_format, of y] by (simp split: if_splits)
  ultimately show "x \<notin># M \<and> once M" by (simp add: once_def)
next
  assume "x \<notin># M \<and> once M"
  then show "once (add_mset x M)" by (simp add: once_def not_in_iff)
qed

lemma once_mset [simp]: "once (mset xs) \<longleftrightarrow> distinct xs"
  by (induction xs) (auto simp: once_def [of "{#}"])

lemma mset_take_Suc: "n < length xs \<Longrightarrow> mset (take (Suc n) xs) = add_mset (xs ! n) (mset (take n xs))"
  by (simp add: take_Suc_conv_app_nth)

lemma mset_take_fill:
  assumes "k \<le> n" "n < length xs"
  shows "mset (take (Suc n) xs) = add_mset (xs ! k) (mset (take n (xs[k := xs ! n])))"
proof (cases "k = n")
  case True
  then show ?thesis using assms by (simp add: mset_take_Suc)
next
  case False
  then have k: "k < n" using assms by simp
  have "take n (xs[k := xs ! n]) = (take n xs)[k := xs ! n]" by (rule take_update_swap)
  moreover have "mset ((take n xs)[k := xs ! n]) = add_mset (xs ! n) (mset (take n xs) - {# take n xs ! k #})"
    by (rule mset_update) (use k assms in simp)
  moreover have "xs ! k \<in># mset (take n xs)" using k assms by (metis length_take min.absorb4 nth_mem nth_take set_mset_mset)
  ultimately show ?thesis using k assms by (simp add: mset_take_Suc insert_DiffM)
qed

lemma distinct_fill:
  assumes "k \<le> n" "n < length xs" "distinct (take (Suc n) xs)"
  shows "distinct (take n (xs[k := xs ! n]))" "\<And>i. i < n \<Longrightarrow> i \<noteq> k \<Longrightarrow> xs[k := xs ! n] ! i = xs ! i"
proof -
  have "mset (take (Suc n) xs) = mset (xs ! k # take n (xs[k := xs ! n]))" using mset_take_fill [OF assms(1,2)] by simp
  then show "distinct (take n (xs[k := xs ! n]))" using assms(3) distinct_mset_cong by (metis distinct.simps(2))
qed simp

lemma hole_frame:
  assumes "hole q0 n M tmp k q"
  shows "length (with_hole tmp k q) = length (pq_array q0)" "array_size q = array_size q0" "pq_size q = pq_size q0"
    "pq_update q = pq_update q0"
  using assms by (auto simp: hole_def with_hole_def)

context pq_order
begin

definition pq_ok :: "'a pqueue \<Rightarrow> bool" where
  "pq_ok q \<longleftrightarrow> length (pq_array q) = array_size q \<and> pq_size q < array_size q \<and> heap (pq_array q) (pq_size q) \<and>
     pos_ok q (pq_size q) \<and> (pq_update q \<longrightarrow> once (contents q))"

lemma pq_ok_create: "pq_ok (pqueue_create null)"
  by (simp add: pq_ok_def pqueue_create_def heap_def pos_ok_def contents_def)

lemma heap_root: "heap xs n \<Longrightarrow> i < n \<Longrightarrow> cmp (xs ! 0) (xs ! i) \<le> 0"
proof (induction i rule: less_induct)
  case (less i)
  show ?case
  proof (cases "i = 0")
    case False
    then have "PARENT_OF i < i" using PARENT_OF_less by simp
    then have "cmp (xs ! 0) (xs ! PARENT_OF i) \<le> 0" using less by simp
    moreover have "cmp (xs ! PARENT_OF i) (xs ! i) \<le> 0" using less.prems False by (simp add: heap_def)
    ultimately show ?thesis by (rule cmp_trans)
  qed (simp add: cmp_refl)
qed

lemma trickle_up_spec:
  assumes "k < n" "n \<le> length (pq_array q)" "up_heap (pq_array q) n k"
    "pq_update q \<longrightarrow> distinct (take n (pq_array q)) \<longrightarrow> (\<forall>i<n. i \<noteq> k \<longrightarrow> pq_pos q (pq_array q ! i) = Some i)"
  shows "\<exists>q'. trickle_up cmp k q = Some q' \<and> heap (pq_array q') n \<and> mset (take n (pq_array q')) = mset (take n (pq_array q)) \<and>
    pos_ok q' n \<and> length (pq_array q') = length (pq_array q) \<and> array_size q' = array_size q \<and> pq_size q' = pq_size q \<and>
    pq_update q' = pq_update q"
proof -
  let ?tmp = "pq_array q ! k"
  obtain j q1 where l: "trickle_up_loop cmp ?tmp k q = (j, q1)" by fastforce
  have w: "with_hole ?tmp k q = pq_array q" by (simp add: with_hole_def)
  from trickle_up_loop_spec [OF hole_open [OF assms(1,2,4)] _ l] assms(3) w
  have s: "hole q n (mset (take n (pq_array q))) ?tmp j q1" "heap (with_hole ?tmp j q1) n" by auto
  have "trickle_up cmp k q = Some (put_slot j ?tmp q1)" using assms(1,2) l by (simp add: trickle_up_def Let_def)
  then show ?thesis using hole_close [OF s(1)] hole_frame [OF s(1)] s(2) by simp
qed

lemma trickle_down_spec:
  assumes "k < n" "n \<le> length (pq_array q)" "pq_size q = n" "down_heap (pq_array q) n k"
    "pq_update q \<longrightarrow> distinct (take n (pq_array q)) \<longrightarrow> (\<forall>i<n. i \<noteq> k \<longrightarrow> pq_pos q (pq_array q ! i) = Some i)"
  shows "\<exists>q'. trickle_down cmp k q = Some q' \<and> heap (pq_array q') n \<and> mset (take n (pq_array q')) = mset (take n (pq_array q)) \<and>
    pos_ok q' n \<and> length (pq_array q') = length (pq_array q) \<and> array_size q' = array_size q \<and> pq_size q' = pq_size q \<and>
    pq_update q' = pq_update q"
proof -
  let ?tmp = "pq_array q ! k"
  obtain j q1 where l: "trickle_down_loop cmp ?tmp k q = (j, q1)" by fastforce
  have w: "with_hole ?tmp k q = pq_array q" by (simp add: with_hole_def)
  from trickle_down_loop_spec [OF hole_open [OF assms(1,2,5)] assms(3) _ l] assms(4) w
  have s: "hole q n (mset (take n (pq_array q))) ?tmp j q1" "heap (with_hole ?tmp j q1) n" by auto
  have "trickle_down cmp k q = Some (put_slot j ?tmp q1)" using assms(1,2) l by (simp add: trickle_down_def Let_def)
  then show ?thesis using hole_close [OF s(1)] hole_frame [OF s(1)] s(2) by simp
qed

lemma pqueue_enqueue_spec:
  assumes ok: "pq_ok q" and x: "pq_update q \<Longrightarrow> x \<notin># contents q"
  shows "\<exists>q'. pqueue_enqueue cmp null x q = Some q' \<and> pq_ok q' \<and> contents q' = add_mset x (contents q) \<and> pq_update q' = pq_update q"
proof -
  let ?n = "pq_size q"
  define q1 where "q1 = (if ?n + 2 \<ge> array_size q then pqueue_expand null q else q)"
  have q: "length (pq_array q) = array_size q" "?n < array_size q" "heap (pq_array q) ?n" "pos_ok q ?n"
    "pq_update q \<Longrightarrow> once (contents q)" using ok by (auto simp: pq_ok_def)
  have q1: "pq_size q1 = ?n" "length (pq_array q1) = array_size q1" "?n + 1 < array_size q1" "pq_pos q1 = pq_pos q"
    "pq_update q1 = pq_update q" "\<And>i. i < ?n \<Longrightarrow> pq_array q1 ! i = pq_array q ! i" "take ?n (pq_array q1) = take ?n (pq_array q)"
    using q(1,2) by (auto simp: q1_def pqueue_expand_def nth_append)
  define q2 where "q2 = put_slot ?n x q1"
  have a2: "pq_array q2 = (pq_array q1)[?n := x]" "length (pq_array q2) = array_size q1" using q1(2) by (simp_all add: q2_def)
  have nth2: "pq_array q2 ! i = (if i = ?n then x else pq_array q ! i)" if "i \<le> ?n" for i
    using that q1(2,3,6) by (simp add: a2(1) nth_list_update)
  have "up_heap (pq_array q2) (Suc ?n) ?n"
  proof -
    have "cmp (pq_array q2 ! PARENT_OF i) (pq_array q2 ! i) \<le> 0" if "0 < i" "i < Suc ?n" "i \<noteq> ?n" for i
      using that nth2 [of i] nth2 [of "PARENT_OF i"] PARENT_OF_less [of i] q(3) by (simp add: heap_def)
    moreover have "PARENT_OF i \<noteq> ?n" if "0 < i" "i < Suc ?n" for i using that PARENT_OF_less [of i] by simp
    ultimately show ?thesis by (auto simp: up_heap_def above_def)
  qed
  moreover have "pq_pos q2 (pq_array q2 ! i) = Some i"
    if u: "pq_update q2" and d: "distinct (take (Suc ?n) (pq_array q2))" and i: "i < Suc ?n" "i \<noteq> ?n" for i
  proof -
    have "pq_array q2 ! i \<noteq> pq_array q2 ! ?n" using distinct_take_neq [OF d i(1), of ?n] i(2) a2(2) q1(3) by simp
    moreover have "distinct (take ?n (pq_array q))"
    proof -
      have "take ?n (pq_array q) = take ?n (take (Suc ?n) (pq_array q2))" using a2(1) q1(7) by (simp add: min_def)
      then show ?thesis using d by (metis distinct_take)
    qed
    ultimately show ?thesis using q(4) u i nth2 [of i] nth2 [of ?n] q1(4,5) by (simp add: q2_def pos_ok_def)
  qed
  ultimately obtain q3 where q3: "trickle_up cmp ?n q2 = Some q3" "heap (pq_array q3) (Suc ?n)"
    "mset (take (Suc ?n) (pq_array q3)) = mset (take (Suc ?n) (pq_array q2))" "pos_ok q3 (Suc ?n)"
    "length (pq_array q3) = length (pq_array q2)" "array_size q3 = array_size q2" "pq_size q3 = pq_size q2" "pq_update q3 = pq_update q2"
    using trickle_up_spec [of ?n "Suc ?n" q2] a2(2) q1(3) by auto
  have "pqueue_enqueue cmp null x q = Some (q3\<lparr>pq_size := Suc ?n\<rparr>)"
    unfolding pqueue_enqueue_def q1_def [symmetric] using q3(1,7) q1(1-3) by (simp add: q2_def)
  moreover have "mset (take (Suc ?n) (pq_array q2)) = add_mset x (mset (take ?n (pq_array q)))"
    using a2 q1(3,7) by (simp add: mset_take_Suc)
  moreover from this have c: "contents (q3\<lparr>pq_size := Suc ?n\<rparr>) = add_mset x (contents q)" using q3(3) by (simp add: contents_def)
  moreover have "pq_ok (q3\<lparr>pq_size := Suc ?n\<rparr>)"
    unfolding pq_ok_def c using q3(2,4-8) q1(3,5) a2(2) x q(5) by (simp add: pos_ok_def q2_def)
  ultimately show ?thesis using q3(8) q1(5) by (simp add: q2_def)
qed

end

context pq_order
begin

text \<open>
  The last element in the slot of one that was taken out.
\<close>

definition filled :: "nat \<Rightarrow> 'a pqueue \<Rightarrow> 'a pqueue" where
  "filled k q = q\<lparr>pq_size := pq_size q - 1, pq_array := (pq_array q)[k := pq_array q ! (pq_size q - 1)]\<rparr>"

lemma heap_mono: "heap xs n \<Longrightarrow> m \<le> n \<Longrightarrow> heap xs m"
  by (simp add: heap_def)

lemma fill_above:
  assumes "heap xs (Suc n)" "k < n" "n < length xs"
  shows "above (xs[k := xs ! n]) n k"
    "\<And>i. 0 < i \<Longrightarrow> i < n \<Longrightarrow> i \<noteq> k \<Longrightarrow> PARENT_OF i \<noteq> k \<Longrightarrow> cmp (xs[k := xs ! n] ! PARENT_OF i) (xs[k := xs ! n] ! i) \<le> 0"
proof -
  show "cmp (xs[k := xs ! n] ! PARENT_OF i) (xs[k := xs ! n] ! i) \<le> 0" if "0 < i" "i < n" "i \<noteq> k" "PARENT_OF i \<noteq> k" for i
    using assms(1) that by (simp add: heap_def)
  have "cmp (xs ! PARENT_OF k) (xs ! i) \<le> 0" if i: "0 < i" "i < n" "0 < k" "PARENT_OF i = k" for i
  proof -
    have "cmp (xs ! PARENT_OF k) (xs ! k) \<le> 0" "cmp (xs ! k) (xs ! i) \<le> 0" using assms i by (auto simp: heap_def)
    then show ?thesis by (rule cmp_trans)
  qed
  moreover have "PARENT_OF k \<noteq> k" if "0 < k" using PARENT_OF_less [OF that] by simp
  moreover have "i \<noteq> k" if "0 < i" "PARENT_OF i = k" for i using PARENT_OF_less [OF that(1)] that(2) by simp
  ultimately show "above (xs[k := xs ! n]) n k" unfolding above_def by (metis nth_list_update_neq)
qed

lemma fill_up_heap:
  assumes h: "heap xs (Suc n)" "k < n" "n < length xs" and less: "0 < k" "cmp (xs[k := xs ! n] ! k) (xs[k := xs ! n] ! PARENT_OF k) < 0"
  shows "up_heap (xs[k := xs ! n]) n k"
proof -
  let ?ys = "xs[k := xs ! n]"
  have "cmp (?ys ! k) (?ys ! i) \<le> 0" if "0 < i" "i < n" "PARENT_OF i = k" for i
    using less fill_above(1) [OF h] that cmp_trans [of "?ys ! k" "?ys ! PARENT_OF k" "?ys ! i"] by (simp add: above_def)
  then show ?thesis using fill_above [OF h] unfolding up_heap_def by metis
qed

lemma fill_down_heap:
  assumes h: "heap xs (Suc n)" "k < n" "n < length xs" and ge: "\<not> (0 < k \<and> cmp (xs[k := xs ! n] ! k) (xs[k := xs ! n] ! PARENT_OF k) < 0)"
  shows "down_heap (xs[k := xs ! n]) n k"
proof -
  let ?ys = "xs[k := xs ! n]"
  have "cmp (?ys ! PARENT_OF k) (?ys ! k) \<le> 0" if "0 < k" using ge that cmp_not_neg by blast
  then show ?thesis using fill_above [OF h] unfolding down_heap_def by metis
qed

lemma filled_facts:
  assumes "pq_ok q" "pq_size q = Suc n" "k \<le> n"
  shows "contents q = add_mset (pq_array q ! k) (contents (filled k q))" "n < length (pq_array q)"
    "pq_update q \<Longrightarrow> i < n \<Longrightarrow> i \<noteq> k \<Longrightarrow> pq_pos q (pq_array (filled k q) ! i) = Some i"
    "pq_update q \<Longrightarrow> once (contents (filled k q)) \<and> pq_array q ! k \<notin># contents (filled k q)"
proof -
  have q: "length (pq_array q) = array_size q" "Suc n < array_size q" "pos_ok q (Suc n)" "pq_update q \<Longrightarrow> once (contents q)"
    using assms by (auto simp: pq_ok_def)
  show n: "n < length (pq_array q)" using q by simp
  show c: "contents q = add_mset (pq_array q ! k) (contents (filled k q))"
    using mset_take_fill [OF assms(3) n] assms(2) by (simp add: contents_def filled_def)
  show "pq_update q \<Longrightarrow> once (contents (filled k q)) \<and> pq_array q ! k \<notin># contents (filled k q)"
    using q(4) c by simp
  show "pq_pos q (pq_array (filled k q) ! i) = Some i" if "pq_update q" "i < n" "i \<noteq> k"
    using q(3,4) that assms(2) by (simp add: pos_ok_def filled_def contents_def)
qed

lemma filled_last:
  assumes "pq_ok q" "pq_size q = Suc n"
  shows "\<exists>q'. trickle_down cmp n (filled n q) = Some q' \<and> pq_ok q' \<and> contents q' = contents (filled n q) \<and> pq_update q' = pq_update q"
proof -
  have q: "length (pq_array q) = array_size q" "Suc n < array_size q" "heap (pq_array q) (Suc n)"
    using assms by (auto simp: pq_ok_def)
  note f = filled_facts [OF assms order_refl]
  let ?q = "put_slot n (pq_array q ! n) (filled n q)"
  have a: "pq_array ?q = pq_array q" "pq_size ?q = n" using assms(2) by (simp_all add: filled_def)
  have run: "trickle_down cmp n (filled n q) = Some ?q"
    using assms(2) q(1,2) by (simp add: trickle_down_def filled_def trickle_down_loop.simps HAVE_CHILD_def Let_def)
  have c: "contents ?q = contents (filled n q)" using assms(2) by (simp add: contents_def filled_def)
  have "pq_pos ?q (pq_array ?q ! i) = Some i" if u: "pq_update q" and i: "i < n" for i
  proof -
    have "pq_array q ! i \<in># contents (filled n q)" using i q(1,2) assms(2)
      by (auto simp: contents_def filled_def in_set_conv_nth intro!: exI [of _ i])
    then have "pq_array q ! i \<noteq> pq_array q ! n" using f(4) [OF u] by auto
    then show ?thesis using f(3) [OF u i] i u by (simp add: filled_def)
  qed
  then have "pos_ok ?q n" by (simp add: pos_ok_def filled_def)
  then have "pq_ok ?q" using a c f(4) q heap_mono [OF q(3), of n] by (simp add: pq_ok_def) (simp add: filled_def)
  then show ?thesis using run c by (intro exI [of _ ?q]) (simp add: filled_def)
qed

lemma filled_middle:
  assumes ok: "pq_ok q" "pq_size q = Suc n" and k: "k < n"
  shows "\<exists>q'. (if 0 < k \<and> cmp (pq_array (filled k q) ! k) (pq_array (filled k q) ! PARENT_OF k) < 0
      then trickle_up cmp k (filled k q) else trickle_down cmp k (filled k q)) = Some q' \<and>
    pq_ok q' \<and> contents q' = contents (filled k q) \<and> pq_update q' = pq_update q"
proof -
  have q: "length (pq_array q) = array_size q" "Suc n < array_size q" "heap (pq_array q) (Suc n)"
    using ok by (auto simp: pq_ok_def)
  let ?f = "filled k q"
  have kn: "k \<le> n" using k by simp
  note f = filled_facts [OF ok kn]
  have a: "pq_array ?f = (pq_array q)[k := pq_array q ! n]" "pq_size ?f = n" "array_size ?f = array_size q" "pq_update ?f = pq_update q"
    "pq_pos ?f = pq_pos q" using ok(2) by (simp_all add: filled_def)
  have len: "n \<le> length (pq_array ?f)" "length (pq_array ?f) = array_size q" using f(2) a(1) q(1) by auto
  have pos: "pq_update ?f \<longrightarrow> distinct (take n (pq_array ?f)) \<longrightarrow> (\<forall>i<n. i \<noteq> k \<longrightarrow> pq_pos ?f (pq_array ?f ! i) = Some i)"
    using f(3) a(4,5) by simp
  obtain q' where q': "(if 0 < k \<and> cmp (pq_array ?f ! k) (pq_array ?f ! PARENT_OF k) < 0
      then trickle_up cmp k ?f else trickle_down cmp k ?f) = Some q'" "heap (pq_array q') n"
    "mset (take n (pq_array q')) = mset (take n (pq_array ?f))" "pos_ok q' n" "length (pq_array q') = length (pq_array ?f)"
    "array_size q' = array_size ?f" "pq_size q' = pq_size ?f" "pq_update q' = pq_update ?f"
  proof (cases "0 < k \<and> cmp (pq_array ?f ! k) (pq_array ?f ! PARENT_OF k) < 0")
    case True
    then have "up_heap (pq_array ?f) n k" using fill_up_heap [OF q(3) k f(2)] a(1) by simp
    from trickle_up_spec [OF k len(1) this pos] show ?thesis using True that by auto
  next
    case False
    then have "down_heap (pq_array ?f) n k" using fill_down_heap [OF q(3) k f(2)] a(1) by simp
    from trickle_down_spec [OF k len(1) a(2) this pos] show ?thesis using False that by auto
  qed
  have "contents q' = contents ?f" using q'(3,7) a(2) by (simp add: contents_def)
  moreover have "pq_ok q'" using q' a len q f(4) calculation by (simp add: pq_ok_def)
  ultimately show ?thesis using q'(1,8) a(4) by auto
qed

lemma pqueue_dequeue_spec:
  assumes ok: "pq_ok q" and ne: "contents q \<noteq> {#}"
  shows "\<exists>x q'. pqueue_dequeue cmp q = Some (x, q') \<and> pq_ok q' \<and> contents q = add_mset x (contents q') \<and>
    pq_update q' = pq_update q \<and> (\<forall>y \<in># contents q. cmp x y \<le> 0)"
proof -
  have q: "length (pq_array q) = array_size q" "pq_size q < array_size q" "heap (pq_array q) (pq_size q)"
    using ok by (auto simp: pq_ok_def)
  obtain n where n: "pq_size q = Suc n" using ne by (cases "pq_size q") (auto simp: contents_def)
  have "\<exists>q'. trickle_down cmp 0 (filled 0 q) = Some q' \<and> pq_ok q' \<and> contents q' = contents (filled 0 q) \<and> pq_update q' = pq_update q"
  proof (cases n)
    case 0
    then show ?thesis using filled_last [OF ok, of 0] n by simp
  next
    case (Suc m)
    then show ?thesis using filled_middle [OF ok n, of 0] by simp
  qed
  then obtain q' where q': "trickle_down cmp 0 (filled 0 q) = Some q'" "pq_ok q'" "contents q' = contents (filled 0 q)"
    "pq_update q' = pq_update q" by blast
  have "pqueue_dequeue cmp q = Some (pq_array q ! 0, q')"
    using q' n q(1,2) by (simp add: pqueue_dequeue_def Let_def filled_def)
  moreover have "cmp (pq_array q ! 0) y \<le> 0" if "y \<in># contents q" for y
    using that heap_root [OF q(3)] q(1,2) by (auto simp: contents_def in_set_conv_nth)
  ultimately show ?thesis using q' filled_facts(1) [OF ok n, of 0] by auto
qed

lemma pqueue_remove_at_spec:
  assumes ok: "pq_ok q" and k: "k < pq_size q"
  shows "\<exists>q'. pqueue_remove_at cmp k q = Some q' \<and> pq_ok q' \<and> contents q = add_mset (pq_array q ! k) (contents q') \<and>
    pq_update q' = pq_update q"
proof -
  have q: "length (pq_array q) = array_size q" "pq_size q < array_size q" "heap (pq_array q) (pq_size q)"
    using ok by (auto simp: pq_ok_def)
  obtain n where n: "pq_size q = Suc n" using k by (cases "pq_size q") auto
  have kn: "k \<le> n" using k n by simp
  let ?step = "\<lambda>f. if 0 < k \<and> cmp (pq_array f ! k) (pq_array f ! PARENT_OF k) < 0 then trickle_up cmp k f else trickle_down cmp k f"
  have "\<exists>q'. ?step (filled k q) = Some q' \<and> pq_ok q' \<and> contents q' = contents (filled k q) \<and> pq_update q' = pq_update q"
  proof (cases "k = n")
    case True
    have "\<not> (0 < k \<and> cmp (pq_array (filled k q) ! k) (pq_array (filled k q) ! PARENT_OF k) < 0)"
    proof (cases "k = 0")
      case False
      then have "cmp (pq_array q ! PARENT_OF k) (pq_array q ! k) \<le> 0" using q(3) k by (simp add: heap_def)
      then show ?thesis using cmp_neg [of "pq_array q ! k" "pq_array q ! PARENT_OF k"] True n by (simp add: filled_def)
    qed simp
    then have "?step (filled k q) = trickle_down cmp k (filled k q)" by (rule if_not_P)
    then show ?thesis using filled_last [OF ok n] True by simp
  next
    case False
    then show ?thesis using filled_middle [OF ok n, of k] kn by simp
  qed
  moreover have "pqueue_remove_at cmp k q = ?step (filled k q)"
    using n q(1,2) k by (simp add: pqueue_remove_at_def Let_def filled_def)
  ultimately show ?thesis using filled_facts(1) [OF ok n kn] by auto
qed

end

section \<open>The contract of a priority queue\<close>

text \<open>Putting a list of elements into a queue, and taking elements out of it.\<close>

fun put_all :: "('a \<Rightarrow> 'q \<Rightarrow> 'q option) \<Rightarrow> 'a list \<Rightarrow> 'q \<Rightarrow> 'q option" where
  "put_all enq [] q = Some q"
| "put_all enq (x # xs) q = (case enq x q of None \<Rightarrow> None | Some q' \<Rightarrow> put_all enq xs q')"

fun take_all :: "('q \<Rightarrow> ('a \<times> 'q) option) \<Rightarrow> nat \<Rightarrow> 'q \<Rightarrow> ('a list \<times> 'q) option" where
  "take_all deq 0 q = Some ([], q)"
| "take_all deq (Suc n) q =
     (case deq q of None \<Rightarrow> None | Some (x, q') \<Rightarrow> map_option (\<lambda>(xs, q''). (x # xs, q'')) (take_all deq n q'))"

text \<open>The element at the front, as the clients look at it.\<close>

definition pqueue_first :: "'a pqueue \<Rightarrow> 'a option" where
  "pqueue_first q = (if pq_size q = 0 then None else Some (pq_array q ! 0))"

locale priority_queue =
  fixes ok :: "'q \<Rightarrow> bool"
    and content :: "'q \<Rightarrow> 'a multiset"
    and ord :: "'a \<Rightarrow> 'a \<Rightarrow> bool"
    and front :: "'q \<Rightarrow> 'a option"
    and enq :: "'a \<Rightarrow> 'q \<Rightarrow> 'q option"
    and deq :: "'q \<Rightarrow> ('a \<times> 'q) option"
  assumes enq_law: "ok q \<Longrightarrow> x \<notin># content q \<Longrightarrow> \<exists>q'. enq x q = Some q' \<and> ok q' \<and> content q' = add_mset x (content q)"
    and deq_law: "ok q \<Longrightarrow> content q \<noteq> {#} \<Longrightarrow>
      \<exists>x q'. deq q = Some (x, q') \<and> front q = Some x \<and> ok q' \<and> content q = add_mset x (content q') \<and> (\<forall>y \<in># content q. ord x y)"
    and front_empty: "ok q \<Longrightarrow> content q = {#} \<Longrightarrow> front q = None"
begin

lemma take_all_spec:
  assumes "ok q"
  shows "\<exists>xs q'. take_all deq (size (content q)) q = Some (xs, q') \<and> mset xs = content q \<and> sorted_wrt ord xs \<and> ok q' \<and> content q' = {#}"
  using assms
proof (induction "size (content q)" arbitrary: q)
  case 0
  then show ?case by simp
next
  case (Suc n)
  then have "content q \<noteq> {#}" by auto
  then obtain x q1 where d: "deq q = Some (x, q1)" "ok q1" "content q = add_mset x (content q1)" "\<forall>y \<in># content q. ord x y"
    using deq_law [OF Suc.prems] by blast
  have n: "n = size (content q1)" using Suc.hyps(2) d(3) by simp
  obtain xs q' where r: "take_all deq n q1 = Some (xs, q')" "mset xs = content q1" "sorted_wrt ord xs" "ok q'" "content q' = {#}"
    using Suc.hyps(1) [OF n d(2)] n by auto
  have "\<forall>y \<in> set xs. ord x y" using d(3,4) r(2) by (metis set_mset_mset insert_iff set_mset_add_mset_insert)
  then show ?case using d r Suc.hyps(2) [symmetric] by simp
qed

end

text \<open>The heap implements it, for every comparison function that is an order.\<close>

locale pq_heap = pq_order cmp for cmp :: "'a \<Rightarrow> 'a \<Rightarrow> int" +
  fixes null :: 'a

sublocale pq_heap \<subseteq> heap_queue: priority_queue pq_ok contents "\<lambda>x y. cmp x y \<le> 0" pqueue_first "pqueue_enqueue cmp null" "pqueue_dequeue cmp"
proof unfold_locales
  fix q :: "'a pqueue" and x
  assume ok: "pq_ok q"
  show "\<exists>q'. pqueue_enqueue cmp null x q = Some q' \<and> pq_ok q' \<and> contents q' = add_mset x (contents q)" if "x \<notin># contents q"
    using pqueue_enqueue_spec [OF ok, of x null] that by blast
  show "pqueue_first q = None" if e: "contents q = {#}"
  proof -
    have "pq_size q = 0" using e ok by (auto simp: contents_def pq_ok_def)
    then show ?thesis by (simp add: pqueue_first_def)
  qed
  show "\<exists>x q'. pqueue_dequeue cmp q = Some (x, q') \<and> pqueue_first q = Some x \<and> pq_ok q' \<and> contents q = add_mset x (contents q') \<and>
      (\<forall>y \<in># contents q. cmp x y \<le> 0)" if ne: "contents q \<noteq> {#}"
  proof -
    obtain x q' where d: "pqueue_dequeue cmp q = Some (x, q')" "pq_ok q'" "contents q = add_mset x (contents q')"
      "\<forall>y \<in># contents q. cmp x y \<le> 0" using pqueue_dequeue_spec [OF ok ne] by blast
    have "pqueue_first q = Some x" using d(1) by (auto simp: pqueue_dequeue_def pqueue_first_def Let_def split: if_splits)
    then show ?thesis using d by blast
  qed
qed

context pq_heap
begin

lemma put_all_spec:
  assumes "pq_ok q" "distinct xs" "set xs \<inter> set_mset (contents q) = {}"
  shows "\<exists>q'. put_all (pqueue_enqueue cmp null) xs q = Some q' \<and> pq_ok q' \<and> contents q' = contents q + mset xs \<and> pq_update q' = pq_update q"
  using assms
proof (induction xs arbitrary: q)
  case Nil
  then show ?case by simp
next
  case (Cons x xs)
  obtain q1 where q1: "pqueue_enqueue cmp null x q = Some q1" "pq_ok q1" "contents q1 = add_mset x (contents q)" "pq_update q1 = pq_update q"
    using pqueue_enqueue_spec [OF Cons.prems(1), of x null] Cons.prems(3) by auto
  then show ?case using Cons.IH [OF q1(2)] Cons.prems by auto
qed

lemma position_of:
  assumes "pq_ok q" "pq_update q" "x \<in># contents q"
  shows "\<exists>i < pq_size q. pq_pos q x = Some i \<and> pq_array q ! i = x"
proof -
  have q: "pq_size q \<le> length (pq_array q)" "pos_ok q (pq_size q)" "once (contents q)" using assms by (auto simp: pq_ok_def)
  then obtain i where "i < pq_size q" "pq_array q ! i = x" using assms(3) by (auto simp: contents_def in_set_conv_nth)
  then show ?thesis using q(2,3) assms(2) by (auto simp: pos_ok_def contents_def)
qed

lemma heap_sorts:
  assumes "distinct xs"
  shows "\<exists>q ys q'. put_all (pqueue_enqueue cmp null) xs ((pqueue_create null)\<lparr>pq_update := u\<rparr>) = Some q \<and>
    (u \<longrightarrow> (\<forall>x \<in> set xs. \<exists>i < pq_size q. pq_pos q x = Some i \<and> pq_array q ! i = x)) \<and>
    take_all (pqueue_dequeue cmp) (length xs) q = Some (ys, q') \<and> mset ys = mset xs \<and> sorted_wrt (\<lambda>x y. cmp x y \<le> 0) ys \<and> pq_size q' = 0"
proof -
  let ?q0 = "(pqueue_create null)\<lparr>pq_update := u\<rparr>"
  have e: "contents ?q0 = {#}" "pq_ok ?q0" by (simp_all add: contents_def pqueue_create_def pq_ok_def heap_def pos_ok_def once_def)
  obtain q where q: "put_all (pqueue_enqueue cmp null) xs ?q0 = Some q" "pq_ok q" "contents q = mset xs" "pq_update q = u"
    using put_all_spec [OF e(2) assms] e(1) by auto
  obtain ys q' where t: "take_all (pqueue_dequeue cmp) (length xs) q = Some (ys, q')" "mset ys = mset xs" "sorted_wrt (\<lambda>x y. cmp x y \<le> 0) ys"
    "pq_ok q'" "contents q' = {#}" using heap_queue.take_all_spec [OF q(2)] q(3) by auto
  have "pq_size q' = 0" using t(4,5) by (auto simp: contents_def pq_ok_def)
  then show ?thesis using q t position_of [OF q(2)] by auto
qed

end

section \<open>Properties\<close>

text \<open>C17: The heap is a priority queue, for any comparison function that is a preorder.  Enqueueing any list of different elements
  into a new queue succeeds, whatever the number of times the array must grow; with an \<^verbatim>\<open>update\<close> hook every element then knows its
  slot; dequeueing as often gives back exactly these elements in the order of the comparison, and leaves the queue empty.\<close>

theorem pqueue_sorts:
  assumes "\<forall>x y. cmp x y < 0 \<longleftrightarrow> cmp y x > 0" "\<forall>x y z. cmp x y \<le> 0 \<longrightarrow> cmp y z \<le> 0 \<longrightarrow> cmp x z \<le> 0" "distinct xs"
  shows "\<exists>q ys q'. put_all (pqueue_enqueue cmp null) xs ((pqueue_create null)\<lparr>pq_update := u\<rparr>) = Some q \<and>
    (u \<longrightarrow> (\<forall>x \<in> set xs. \<exists>i < pq_size q. pq_pos q x = Some i \<and> pq_array q ! i = x)) \<and>
    take_all (pqueue_dequeue cmp) (length xs) q = Some (ys, q') \<and> mset ys = mset xs \<and> sorted_wrt (\<lambda>x y. cmp x y \<le> 0) ys \<and> pq_size q' = 0"
proof -
  have "pq_heap cmp" by unfold_locales (use assms(1,2) in blast)+
  from pq_heap.heap_sorts [OF this assms(3)] show ?thesis .
qed

theorem pqueue_sorts_witness:
  "\<exists>q ys q'. put_all (pqueue_enqueue (\<lambda>x y. int x - int y) 0) [5, 3, 9, 1] ((pqueue_create (0 :: nat))\<lparr>pq_update := True\<rparr>) = Some q \<and>
    take_all (pqueue_dequeue (\<lambda>x y. int x - int y)) 4 q = Some (ys, q') \<and> mset ys = {#1, 3, 5, 9#} \<and> sorted_wrt (\<lambda>x y. int x - int y \<le> 0) ys"
proof -
  have "\<forall>x y. int x - int y < 0 \<longleftrightarrow> int y - int x > 0" "\<forall>x y z. int x - int y \<le> 0 \<longrightarrow> int y - int z \<le> 0 \<longrightarrow> int x - int z \<le> 0" "distinct [5, 3, 9, 1 :: nat]" by auto
  from pqueue_sorts [OF this, of 0 True] obtain q ys q' where
    "put_all (pqueue_enqueue (\<lambda>x y. int x - int y) 0) [5, 3, 9, 1] ((pqueue_create (0 :: nat))\<lparr>pq_update := True\<rparr>) = Some q"
    "take_all (pqueue_dequeue (\<lambda>x y. int x - int y)) (length [5, 3, 9, 1 :: nat]) q = Some (ys, q')" "mset ys = mset [5, 3, 9, 1]"
    "sorted_wrt (\<lambda>x y. int x - int y \<le> 0) ys" by blast
  then show ?thesis by (intro exI [of _ q] exI [of _ ys] exI [of _ q']) (simp add: eval_nat_numeral add_mset_commute)
qed

end
