(* ===== verification/Thread.thy ===== *)
theory Thread
  imports Pqueue "HOL-Library.Monad_Syntax" "HOL-Library.Word"
begin

text \<open>
  The scheduler of \<^verbatim>\<open>lib/thread.c\<close>, the event loop of every daemon.  Threads are in a store; the lists of
  threads (\<^verbatim>\<open>event\<close>, \<^verbatim>\<open>ready\<close>, \<^verbatim>\<open>unuse\<close>) are the sequences of their members, the two timer queues are heaps
  of \<^verbatim>\<open>lib/pqueue.c\<close>, and the position that a queue reports of a thread stands for its \<^verbatim>\<open>index\<close> field.
  A thread that is on no list has null links.  \<open>None\<close> is a failed assertion or an access outside of an array.
  What the environment does is an argument: the time, the result of \<^verbatim>\<open>select\<close> and the effect of the signal
  handlers.
\<close>

section \<open>Model\<close>

subsection \<open>Times\<close>

record timeval =
  tv_sec :: int
  tv_usec :: int

abbreviation TIMER_SECOND_MICRO :: int where "TIMER_SECOND_MICRO \<equiv> 1000000"

function usec_down :: "timeval \<Rightarrow> timeval" where
  "usec_down a =
     (if tv_usec a \<ge> TIMER_SECOND_MICRO
      then usec_down (a\<lparr>tv_usec := tv_usec a - TIMER_SECOND_MICRO, tv_sec := tv_sec a + 1\<rparr>) else a)"
  by auto
termination by (relation "measure (\<lambda>a. nat (tv_usec a))") auto

function usec_up :: "timeval \<Rightarrow> timeval" where
  "usec_up a =
     (if tv_usec a < 0
      then usec_up (a\<lparr>tv_usec := tv_usec a + TIMER_SECOND_MICRO, tv_sec := tv_sec a - 1\<rparr>) else a)"
  by auto
termination by (relation "measure (\<lambda>a. nat (- tv_usec a))") auto

declare usec_down.simps [simp del] usec_up.simps [simp del]

definition timeval_adjust :: "timeval \<Rightarrow> timeval" where
  "timeval_adjust a =
     (let a1 = usec_up (usec_down a) in if tv_sec a1 < 0 then a1\<lparr>tv_sec := 0, tv_usec := 0\<rparr> else a1)"

definition timeval_subtract :: "timeval \<Rightarrow> timeval \<Rightarrow> timeval" where
  "timeval_subtract a b = timeval_adjust \<lparr>tv_sec = tv_sec a - tv_sec b, tv_usec = tv_usec a - tv_usec b\<rparr>"

definition timeval_cmp :: "timeval \<Rightarrow> timeval \<Rightarrow> int" where
  "timeval_cmp a b = (if tv_sec a = tv_sec b then tv_usec a - tv_usec b else tv_sec a - tv_sec b)"

text \<open>An \<^verbatim>\<open>unsigned long\<close> of 64 bits: a time that is earlier than \<open>b\<close> wraps around.\<close>

definition timeval_elapsed :: "timeval \<Rightarrow> timeval \<Rightarrow> 64 word" where
  "timeval_elapsed a b = word_of_int ((tv_sec a - tv_sec b) * TIMER_SECOND_MICRO + (tv_usec a - tv_usec b))"

subsection \<open>The clock without a monotonic source\<close>

record clock =
  recent_time :: timeval
  last_recent_time :: timeval
  relative_time :: timeval
  relative_time_base :: timeval
  timers_inited :: bool

definition quagga_gettimeofday_relative_adjust :: "clock \<Rightarrow> clock" where
  "quagga_gettimeofday_relative_adjust c =
     (let rel = relative_time c;
          rel' = (if timeval_cmp (recent_time c) (last_recent_time c) < 0
                  then rel\<lparr>tv_sec := tv_sec rel + 1, tv_usec := 0\<rparr>
                  else let diff = timeval_subtract (recent_time c) (last_recent_time c)
                       in timeval_adjust (rel\<lparr>tv_sec := tv_sec rel + tv_sec diff, tv_usec := tv_usec rel + tv_usec diff\<rparr>))
      in c\<lparr>relative_time := rel', last_recent_time := recent_time c\<rparr>)"

text \<open>The argument is the answer of \<^verbatim>\<open>gettimeofday\<close>, \<open>None\<close> when it fails; the first result is the returned status.\<close>

definition quagga_gettimeofday :: "timeval option \<Rightarrow> clock \<Rightarrow> bool \<times> clock" where
  "quagga_gettimeofday answer c =
     (case answer of
        None \<Rightarrow> (False, c)
      | Some tv \<Rightarrow>
          let c1 = c\<lparr>recent_time := tv\<rparr>
          in (True, if timers_inited c1 then c1
                    else c1\<lparr>relative_time_base := tv, last_recent_time := tv, timers_inited := True\<rparr>))"

definition quagga_get_relative :: "timeval option \<Rightarrow> clock \<Rightarrow> bool \<times> clock" where
  "quagga_get_relative answer c =
     (let (ok, c1) = quagga_gettimeofday answer c
      in (ok, if ok then quagga_gettimeofday_relative_adjust c1 else c1))"

text \<open>With \<^verbatim>\<open>HAVE_CLOCK_MONOTONIC\<close> the relative time is that of the system clock, in nanoseconds.\<close>

definition get_relative_monotonic :: "(int \<times> int) option \<Rightarrow> clock \<Rightarrow> bool \<times> clock" where
  "get_relative_monotonic answer c =
     (case answer of
        None \<Rightarrow> (False, c)
      | Some (sec, nsec) \<Rightarrow> (True, c\<lparr>relative_time := \<lparr>tv_sec = sec, tv_usec = nsec div 1000\<rparr>\<rparr>))"

definition quagga_real_stabilised :: "clock \<Rightarrow> timeval" where
  "quagga_real_stabilised c =
     timeval_adjust \<lparr>tv_sec = tv_sec (relative_time_base c) + tv_sec (relative_time c),
                     tv_usec = tv_usec (relative_time_base c) + tv_usec (relative_time c)\<rparr>"

datatype quagga_clkid = QUAGGA_CLK_REALTIME | QUAGGA_CLK_MONOTONIC | QUAGGA_CLK_REALTIME_STABILISED | QUAGGA_CLK_other

text \<open>The time is the one that the call stores, \<open>None\<close> when it stores none.\<close>

definition quagga_gettime :: "quagga_clkid \<Rightarrow> timeval option \<Rightarrow> clock \<Rightarrow> bool \<times> timeval option \<times> clock" where
  "quagga_gettime clkid answer c =
     (case clkid of
        QUAGGA_CLK_REALTIME \<Rightarrow>
          let (ok, c1) = quagga_gettimeofday answer c in (ok, if ok then Some (recent_time c1) else None, c1)
      | QUAGGA_CLK_MONOTONIC \<Rightarrow> let (ok, c1) = quagga_get_relative answer c in (ok, Some (relative_time c1), c1)
      | QUAGGA_CLK_REALTIME_STABILISED \<Rightarrow> (True, Some (quagga_real_stabilised c), c)
      | QUAGGA_CLK_other \<Rightarrow> (False, None, c))"

definition quagga_time :: "clock \<Rightarrow> int" where
  "quagga_time c = tv_sec (quagga_real_stabilised c)"

subsection \<open>Threads and their master\<close>

datatype thread_type = THREAD_READ | THREAD_WRITE | THREAD_TIMER | THREAD_EVENT | THREAD_READY
  | THREAD_BACKGROUND | THREAD_UNUSED | THREAD_EXECUTE

text \<open>Functions and their arguments are names.  The members of the union \<open>u\<close> are three fields.\<close>

record thread =
  th_type :: thread_type
  th_add_type :: thread_type
  th_func :: nat
  th_arg :: nat
  th_val :: int
  th_fd :: nat
  th_sands :: timeval

record thread_master =
  tm_read :: "nat \<rightharpoonup> nat"
  tm_write :: "nat \<rightharpoonup> nat"
  tm_timer :: "nat pqueue"
  tm_event :: "nat list"
  tm_ready :: "nat list"
  tm_unuse :: "nat list"
  tm_background :: "nat pqueue"
  fd_limit :: nat
  tm_readfd :: "nat set"
  tm_writefd :: "nat set"
  tm_alloc :: nat
  tm_mem :: "nat \<rightharpoonup> thread"
  tm_brk :: nat

definition thread_timer_cmp :: "(nat \<rightharpoonup> thread) \<Rightarrow> nat \<Rightarrow> nat \<Rightarrow> int" where
  "thread_timer_cmp mem a b =
     (let c = timeval_cmp (th_sands (the (mem a))) (th_sands (the (mem b)))
      in if c < 0 then -1 else if c > 0 then 1 else 0)"

text \<open>Address 0 is the null pointer.\<close>

definition thread_master_create :: "nat \<Rightarrow> thread_master" where
  "thread_master_create limit =
     \<lparr>tm_read = Map.empty, tm_write = Map.empty, tm_timer = (pqueue_create 0)\<lparr>pq_update := True\<rparr>, tm_event = [],
      tm_ready = [], tm_unuse = [], tm_background = (pqueue_create 0)\<lparr>pq_update := True\<rparr>, fd_limit = limit,
      tm_readfd = {}, tm_writefd = {}, tm_alloc = 0, tm_mem = Map.empty, tm_brk = 1\<rparr>"

definition thread_upd :: "nat \<Rightarrow> (thread \<Rightarrow> thread) \<Rightarrow> thread_master \<Rightarrow> thread_master option" where
  "thread_upd a f m = (case tm_mem m a of None \<Rightarrow> None | Some t \<Rightarrow> Some (m\<lparr>tm_mem := (tm_mem m)(a \<mapsto> f t)\<rparr>))"

subsection \<open>Lists of threads\<close>

definition thread_list_add :: "nat list \<Rightarrow> nat \<Rightarrow> nat list" where
  "thread_list_add list a = list @ [a]"

definition thread_list_delete :: "nat list \<Rightarrow> nat \<Rightarrow> nat list option" where
  "thread_list_delete list a = (if a \<in> set list then Some (remove1 a list) else None)"

definition thread_delete_fd :: "(nat \<rightharpoonup> nat) \<Rightarrow> nat \<Rightarrow> (nat \<rightharpoonup> nat)" where
  "thread_delete_fd thread_array fd = thread_array(fd := None)"

definition thread_add_fd :: "(nat \<rightharpoonup> nat) \<Rightarrow> nat \<Rightarrow> nat \<Rightarrow> (nat \<rightharpoonup> nat)" where
  "thread_add_fd thread_array fd a = thread_array(fd \<mapsto> a)"

definition on_list :: "thread_master \<Rightarrow> nat \<Rightarrow> bool" where
  "on_list m a \<longleftrightarrow> a \<in> set (tm_event m) \<union> set (tm_ready m) \<union> set (tm_unuse m)"

definition thread_add_unuse :: "nat \<Rightarrow> thread_master \<Rightarrow> thread_master option" where
  "thread_add_unuse a m =
     (case tm_mem m a of
        None \<Rightarrow> None
      | Some t \<Rightarrow>
          if on_list m a then None
          else if th_type t \<noteq> THREAD_UNUSED then None
          else Some (m\<lparr>tm_unuse := thread_list_add (tm_unuse m) a\<rparr>))"

definition thread_trim_head :: "nat list \<Rightarrow> (nat \<times> nat list) option" where
  "thread_trim_head list = (case list of [] \<Rightarrow> None | a # _ \<Rightarrow> map_option (Pair a) (thread_list_delete list a))"

subsection \<open>Adding threads\<close>

definition thread_get :: "thread_type \<Rightarrow> nat \<Rightarrow> nat \<Rightarrow> thread_master \<Rightarrow> nat \<times> thread_master" where
  "thread_get type func arg m =
     (let (a, old, m1) =
            (case thread_trim_head (tm_unuse m) of
               Some (a, rest) \<Rightarrow> (a, the (tm_mem m a), m\<lparr>tm_unuse := rest\<rparr>)
             | None \<Rightarrow> (tm_brk m, \<lparr>th_type = THREAD_READ, th_add_type = THREAD_READ, th_func = 0, th_arg = 0, th_val = 0,
                                  th_fd = 0, th_sands = \<lparr>tv_sec = 0, tv_usec = 0\<rparr>\<rparr>,
                        m\<lparr>tm_brk := tm_brk m + 1, tm_alloc := tm_alloc m + 1\<rparr>));
          t = old\<lparr>th_type := type, th_add_type := type, th_func := func, th_arg := arg\<rparr>
      in (a, m1\<lparr>tm_mem := (tm_mem m1)(a \<mapsto> t),
               tm_timer := (tm_timer m1)\<lparr>pq_pos := (pq_pos (tm_timer m1))(a := None)\<rparr>,
               tm_background := (tm_background m1)\<lparr>pq_pos := (pq_pos (tm_background m1))(a := None)\<rparr>\<rparr>))"

text \<open>
  A \<^verbatim>\<open>fd_set\<close> has \<^verbatim>\<open>FD_SETSIZE\<close> bits and the arrays have \<^verbatim>\<open>fd_limit\<close> entries.
  The inner \<open>None\<close> is the null pointer of a descriptor that has a thread already.
\<close>

abbreviation FD_SETSIZE :: nat where "FD_SETSIZE \<equiv> 1024"

definition funcname_thread_add_read_write ::
    "thread_type \<Rightarrow> nat \<Rightarrow> nat \<Rightarrow> nat \<Rightarrow> thread_master \<Rightarrow> (nat option \<times> thread_master) option" where
  "funcname_thread_add_read_write dir func arg fd m =
     (if fd \<ge> fd_limit m \<or> fd \<ge> FD_SETSIZE then None
      else if fd \<in> (if dir = THREAD_READ then tm_readfd m else tm_writefd m) then Some (None, m)
      else
        let m1 = (if dir = THREAD_READ then m\<lparr>tm_readfd := insert fd (tm_readfd m)\<rparr>
                  else m\<lparr>tm_writefd := insert fd (tm_writefd m)\<rparr>);
            (a, m2) = thread_get dir func arg m1
        in do {
             m3 \<leftarrow> thread_upd a (\<lambda>t. t\<lparr>th_fd := fd\<rparr>) m2;
             Some (Some a, if dir = THREAD_READ then m3\<lparr>tm_read := thread_add_fd (tm_read m3) fd a\<rparr>
                           else m3\<lparr>tm_write := thread_add_fd (tm_write m3) fd a\<rparr>)
           })"

definition funcname_thread_add_read :: "nat \<Rightarrow> nat \<Rightarrow> nat \<Rightarrow> thread_master \<Rightarrow> (nat option \<times> thread_master) option" where
  "funcname_thread_add_read func arg fd m = funcname_thread_add_read_write THREAD_READ func arg fd m"

definition funcname_thread_add_write :: "nat \<Rightarrow> nat \<Rightarrow> nat \<Rightarrow> thread_master \<Rightarrow> (nat option \<times> thread_master) option" where
  "funcname_thread_add_write func arg fd m = funcname_thread_add_read_write THREAD_WRITE func arg fd m"

definition funcname_thread_add_timer_timeval ::
    "timeval \<Rightarrow> nat \<Rightarrow> thread_type \<Rightarrow> nat \<Rightarrow> timeval \<Rightarrow> thread_master \<Rightarrow> (nat \<times> thread_master) option" where
  "funcname_thread_add_timer_timeval now func type arg time_relative m =
     (if \<not> (type = THREAD_TIMER \<or> type = THREAD_BACKGROUND) then None
      else
        let (a, m1) = thread_get type func arg m;
            alarm_time = \<lparr>tv_sec = tv_sec now + tv_sec time_relative, tv_usec = tv_usec now + tv_usec time_relative\<rparr>
        in do {
             m2 \<leftarrow> thread_upd a (\<lambda>t. t\<lparr>th_sands := timeval_adjust alarm_time\<rparr>) m1;
             if type = THREAD_TIMER then do {
               q \<leftarrow> pqueue_enqueue (thread_timer_cmp (tm_mem m2)) 0 a (tm_timer m2);
               Some (a, m2\<lparr>tm_timer := q\<rparr>)
             } else do {
               q \<leftarrow> pqueue_enqueue (thread_timer_cmp (tm_mem m2)) 0 a (tm_background m2);
               Some (a, m2\<lparr>tm_background := q\<rparr>)
             }
           })"

definition funcname_thread_add_timer :: "timeval \<Rightarrow> nat \<Rightarrow> nat \<Rightarrow> int \<Rightarrow> thread_master \<Rightarrow> (nat \<times> thread_master) option" where
  "funcname_thread_add_timer now func arg timer m =
     funcname_thread_add_timer_timeval now func THREAD_TIMER arg \<lparr>tv_sec = timer, tv_usec = 0\<rparr> m"

text \<open>C divides towards zero.\<close>

definition msec_timeval :: "int \<Rightarrow> timeval" where
  "msec_timeval t = (if t \<ge> 0 then \<lparr>tv_sec = t div 1000, tv_usec = 1000 * (t mod 1000)\<rparr>
     else \<lparr>tv_sec = - ((- t) div 1000), tv_usec = - (1000 * ((- t) mod 1000))\<rparr>)"

definition funcname_thread_add_timer_msec :: "timeval \<Rightarrow> nat \<Rightarrow> nat \<Rightarrow> int \<Rightarrow> thread_master \<Rightarrow> (nat \<times> thread_master) option" where
  "funcname_thread_add_timer_msec now func arg timer m =
     funcname_thread_add_timer_timeval now func THREAD_TIMER arg (msec_timeval timer) m"

definition funcname_thread_add_timer_tv :: "timeval \<Rightarrow> nat \<Rightarrow> nat \<Rightarrow> timeval \<Rightarrow> thread_master \<Rightarrow> (nat \<times> thread_master) option" where
  "funcname_thread_add_timer_tv now func arg tv m = funcname_thread_add_timer_timeval now func THREAD_TIMER arg tv m"

definition funcname_thread_add_background :: "timeval \<Rightarrow> nat \<Rightarrow> nat \<Rightarrow> int \<Rightarrow> thread_master \<Rightarrow> (nat \<times> thread_master) option" where
  "funcname_thread_add_background now func arg delay m =
     funcname_thread_add_timer_timeval now func THREAD_BACKGROUND arg
       (if delay \<noteq> 0 then msec_timeval delay else \<lparr>tv_sec = 0, tv_usec = 0\<rparr>) m"

definition funcname_thread_add_event :: "nat \<Rightarrow> nat \<Rightarrow> int \<Rightarrow> thread_master \<Rightarrow> (nat \<times> thread_master) option" where
  "funcname_thread_add_event func arg val m =
     (let (a, m1) = thread_get THREAD_EVENT func arg m in do {
        m2 \<leftarrow> thread_upd a (\<lambda>t. t\<lparr>th_val := val\<rparr>) m1;
        Some (a, m2\<lparr>tm_event := thread_list_add (tm_event m2) a\<rparr>)
      })"

subsection \<open>Cancelling\<close>

definition queue_remove :: "nat \<Rightarrow> (nat \<rightharpoonup> thread) \<Rightarrow> nat pqueue \<Rightarrow> nat pqueue option" where
  "queue_remove a mem q =
     (case pq_pos q a of
        None \<Rightarrow> None
      | Some i \<Rightarrow>
          if i \<ge> length (pq_array q) \<or> pq_array q ! i \<noteq> a then None
          else pqueue_remove_at (thread_timer_cmp mem) i q)"

definition thread_unused :: "nat \<Rightarrow> thread_master \<Rightarrow> thread_master option" where
  "thread_unused a m = do { m1 \<leftarrow> thread_upd a (\<lambda>t. t\<lparr>th_type := THREAD_UNUSED\<rparr>) m; thread_add_unuse a m1 }"

definition thread_cancel :: "nat \<Rightarrow> thread_master \<Rightarrow> thread_master option" where
  "thread_cancel a m = do {
     t \<leftarrow> tm_mem m a;
     case th_type t of
       THREAD_READ \<Rightarrow>
         if th_fd t \<notin> tm_readfd m then None
         else thread_unused a (m\<lparr>tm_readfd := tm_readfd m - {th_fd t}, tm_read := thread_delete_fd (tm_read m) (th_fd t)\<rparr>)
     | THREAD_WRITE \<Rightarrow>
         if th_fd t \<notin> tm_writefd m then None
         else thread_unused a (m\<lparr>tm_writefd := tm_writefd m - {th_fd t}, tm_write := thread_delete_fd (tm_write m) (th_fd t)\<rparr>)
     | THREAD_TIMER \<Rightarrow> do { q \<leftarrow> queue_remove a (tm_mem m) (tm_timer m); thread_unused a (m\<lparr>tm_timer := q\<rparr>) }
     | THREAD_EVENT \<Rightarrow> do { l \<leftarrow> thread_list_delete (tm_event m) a; thread_unused a (m\<lparr>tm_event := l\<rparr>) }
     | THREAD_READY \<Rightarrow> do { l \<leftarrow> thread_list_delete (tm_ready m) a; thread_unused a (m\<lparr>tm_ready := l\<rparr>) }
     | THREAD_BACKGROUND \<Rightarrow> do { q \<leftarrow> queue_remove a (tm_mem m) (tm_background m); thread_unused a (m\<lparr>tm_background := q\<rparr>) }
     | _ \<Rightarrow> Some m
   }"

fun cancel_events :: "nat \<Rightarrow> nat list \<Rightarrow> nat \<times> thread_master \<Rightarrow> (nat \<times> thread_master) option" where
  "cancel_events arg [] (ret, m) = Some (ret, m)"
| "cancel_events arg (a # as) (ret, m) = do {
     t \<leftarrow> tm_mem m a;
     if th_arg t = arg then do {
       l \<leftarrow> thread_list_delete (tm_event m) a;
       m1 \<leftarrow> thread_unused a (m\<lparr>tm_event := l\<rparr>);
       cancel_events arg as (ret + 1, m1)
     } else cancel_events arg as (ret, m)
   }"

fun cancel_ready :: "nat \<Rightarrow> nat list \<Rightarrow> nat \<times> thread_master \<Rightarrow> (nat \<times> thread_master) option" where
  "cancel_ready arg [] (ret, m) = Some (ret, m)"
| "cancel_ready arg (a # as) (ret, m) = do {
     t \<leftarrow> tm_mem m a;
     if th_arg t = arg then do {
       l \<leftarrow> thread_list_delete (tm_ready m) a;
       m1 \<leftarrow> thread_unused a (m\<lparr>tm_ready := l\<rparr>);
       cancel_ready arg as (ret + 1, m1)
     } else cancel_ready arg as (ret, m)
   }"

text \<open>Each loop takes the link to the next thread before it moves the current one, so it runs along the old list.\<close>

definition thread_cancel_event :: "nat \<Rightarrow> thread_master \<Rightarrow> (nat \<times> thread_master) option" where
  "thread_cancel_event arg m = do {
     (ret, m1) \<leftarrow> cancel_events arg (tm_event m) (0, m);
     cancel_ready arg (tm_ready m1) (ret, m1)
   }"

subsection \<open>Fetching\<close>

definition thread_timer_wait :: "(nat \<rightharpoonup> thread) \<Rightarrow> timeval \<Rightarrow> nat pqueue \<Rightarrow> timeval option" where
  "thread_timer_wait mem now q =
     (case pqueue_first q of None \<Rightarrow> None | Some a \<Rightarrow> Some (timeval_subtract (th_sands (the (mem a))) now))"

definition thread_run :: "nat \<Rightarrow> thread_master \<Rightarrow> (thread \<times> thread_master) option" where
  "thread_run a m = do { t \<leftarrow> tm_mem m a; m1 \<leftarrow> thread_unused a m; Some (t, m1) }"

definition make_ready :: "nat \<Rightarrow> thread_master \<Rightarrow> thread_master option" where
  "make_ready a m = thread_upd a (\<lambda>t. t\<lparr>th_type := THREAD_READY\<rparr>) (m\<lparr>tm_ready := thread_list_add (tm_ready m) a\<rparr>)"

definition thread_process_fds_helper :: "nat option \<Rightarrow> nat set \<Rightarrow> thread_master \<Rightarrow> (nat \<times> thread_master) option" where
  "thread_process_fds_helper th fdset m =
     (case th of
        None \<Rightarrow> Some (0, m)
      | Some a \<Rightarrow> do {
          t \<leftarrow> tm_mem m a;
          if th_fd t \<in> fdset then do {
            let m1 = (if th_type t = THREAD_READ
                      then m\<lparr>tm_readfd := tm_readfd m - {th_fd t}, tm_read := thread_delete_fd (tm_read m) (th_fd t)\<rparr>
                      else m\<lparr>tm_writefd := tm_writefd m - {th_fd t}, tm_write := thread_delete_fd (tm_write m) (th_fd t)\<rparr>);
            m2 \<leftarrow> make_ready a m1;
            Some (1, m2)
          } else Some (0, m)
        })"

function process_fds_loop ::
    "nat \<Rightarrow> nat \<Rightarrow> nat \<Rightarrow> nat set \<Rightarrow> nat set \<Rightarrow> nat \<Rightarrow> thread_master \<Rightarrow> (nat \<times> thread_master) option" where
  "process_fds_loop limit index ready rset wset num m =
     (if index < limit \<and> ready < num then do {
        (r1, m1) \<leftarrow> thread_process_fds_helper (tm_read m index) rset m;
        (r2, m2) \<leftarrow> thread_process_fds_helper (tm_write m1 index) wset m1;
        process_fds_loop limit (index + 1) (ready + r1 + r2) rset wset num m2
      } else Some (ready, m))"
  by auto
termination by (relation "measure (\<lambda>(l, i, _). l - i)") auto

declare process_fds_loop.simps [simp del]

definition thread_process_fds :: "nat set \<Rightarrow> nat set \<Rightarrow> nat \<Rightarrow> thread_master \<Rightarrow> (int \<times> thread_master) option" where
  "thread_process_fds rset wset num m = do {
     (ready, m1) \<leftarrow> process_fds_loop (fd_limit m) 0 0 rset wset num m;
     Some (int num - int ready, m1)
   }"

text \<open>
  \<^verbatim>\<open>thread_timer_process\<close> gets the queue of a type; a queue that does not shrink would not let it end.
\<close>

definition queue_of :: "thread_type \<Rightarrow> thread_master \<Rightarrow> nat pqueue" where
  "queue_of type m = (if type = THREAD_TIMER then tm_timer m else tm_background m)"

definition set_queue :: "thread_type \<Rightarrow> nat pqueue \<Rightarrow> thread_master \<Rightarrow> thread_master" where
  "set_queue type q m = (if type = THREAD_TIMER then m\<lparr>tm_timer := q\<rparr> else m\<lparr>tm_background := q\<rparr>)"

partial_function (option) thread_timer_process ::
    "thread_type \<Rightarrow> timeval \<Rightarrow> nat \<Rightarrow> thread_master \<Rightarrow> (nat \<times> thread_master) option" where
  "thread_timer_process type timenow ready m =
     (case pqueue_first (queue_of type m) of
        None \<Rightarrow> Some (ready, m)
      | Some a \<Rightarrow> do {
          t \<leftarrow> tm_mem m a;
          if timeval_cmp timenow (th_sands t) < 0 then Some (ready, m)
          else do {
            (_, q) \<leftarrow> pqueue_dequeue (thread_timer_cmp (tm_mem m)) (queue_of type m);
            m1 \<leftarrow> make_ready a (set_queue type q m);
            thread_timer_process type timenow (ready + 1) m1
          }
        })"

fun process_events :: "nat list \<Rightarrow> nat \<Rightarrow> thread_master \<Rightarrow> (nat \<times> thread_master) option" where
  "process_events [] ready m = Some (ready, m)"
| "process_events (a # as) ready m = do {
     l \<leftarrow> thread_list_delete (tm_event m) a;
     m1 \<leftarrow> make_ready a (m\<lparr>tm_event := l\<rparr>);
     process_events as (ready + 1) m1
   }"

definition thread_process :: "thread_master \<Rightarrow> (nat \<times> thread_master) option" where
  "thread_process m = process_events (tm_event m) 0 m"

text \<open>
  One turn of the loop of \<^verbatim>\<open>thread_fetch\<close>: what the signal handlers do, the time before the call of \<^verbatim>\<open>select\<close>, its
  result, the time it leaves in its timeout, and the time after it.
\<close>

datatype select_result = Select_fds nat "nat set" "nat set" | Select_EINTR | Select_error

record turn =
  sigevent :: "thread_master \<Rightarrow> thread_master"
  time_before :: timeval
  selected :: select_result
  time_left :: timeval
  time_after :: timeval

datatype fetch_result = Fetched thread thread_master | Fetch_error thread_master | Fetch_waiting thread_master

definition select_wait :: "timeval \<Rightarrow> timeval option \<Rightarrow> thread_master \<Rightarrow> timeval option" where
  "select_wait now timer_wait m =
     (if tm_ready m = [] then
        let w = thread_timer_wait (tm_mem m) now (tm_timer m);
            bg = thread_timer_wait (tm_mem m) now (tm_background m)
        in case bg of
             None \<Rightarrow> w
           | Some b \<Rightarrow> (case w of None \<Rightarrow> bg | Some t \<Rightarrow> if timeval_cmp t b > 0 then bg else w)
      else timer_wait)"

text \<open>The part of a turn after the call of \<^verbatim>\<open>select\<close>.\<close>

definition serve :: "timeval \<Rightarrow> nat \<Rightarrow> nat set \<Rightarrow> nat set \<Rightarrow> thread_master \<Rightarrow> thread_master option" where
  "serve now num rset wset m1 = do {
     (_, m2) \<leftarrow> thread_timer_process THREAD_TIMER now 0 m1;
     (_, m3) \<leftarrow> (if num > 0 then thread_process_fds rset wset num m2 else Some (0, m2));
     (_, m4) \<leftarrow> thread_timer_process THREAD_BACKGROUND now 0 m3;
     Some m4
   }"

text \<open>\<open>fetch_turns\<close> also returns the timeouts that were given to \<^verbatim>\<open>select\<close>; \<open>None\<close> waits without a limit.\<close>

fun fetch_turns :: "turn list \<Rightarrow> timeval option \<Rightarrow> thread_master \<Rightarrow> (timeval option list \<times> fetch_result) option" where
  "fetch_turns [] timer_wait m = Some ([], Fetch_waiting m)"
| "fetch_turns (e # es) timer_wait m0 = do {
     let m = sigevent e m0;
     case thread_trim_head (tm_ready m) of
       Some (a, rest) \<Rightarrow> do { (t, m1) \<leftarrow> thread_run a (m\<lparr>tm_ready := rest\<rparr>); Some ([], Fetched t m1) }
     | None \<Rightarrow> do {
         (_, m1) \<leftarrow> thread_process m;
         let wait = select_wait (time_before e) timer_wait m1;
         (case selected e of
            Select_error \<Rightarrow> Some ([wait], Fetch_error m1)
          | Select_EINTR \<Rightarrow> do {
              (ws, r) \<leftarrow> fetch_turns es (map_option (\<lambda>_. time_left e) wait) m1;
              Some (wait # ws, r)
            }
          | Select_fds num rset wset \<Rightarrow> do {
              m4 \<leftarrow> serve (time_after e) num rset wset m1;
              (case thread_trim_head (tm_ready m4) of
                 Some (a, rest) \<Rightarrow> do { (t, m5) \<leftarrow> thread_run a (m4\<lparr>tm_ready := rest\<rparr>); Some ([wait], Fetched t m5) }
               | None \<Rightarrow> do {
                   (ws, r) \<leftarrow> fetch_turns es (map_option (\<lambda>_. time_left e) wait) m4;
                   Some (wait # ws, r)
                 })
            })
       }
   }"

definition thread_fetch :: "turn list \<Rightarrow> thread_master \<Rightarrow> (timeval option list \<times> fetch_result) option" where
  "thread_fetch turns m = fetch_turns turns (Some \<lparr>tv_sec = 0, tv_usec = 0\<rparr>) m"

subsection \<open>Times of a thread\<close>

definition thread_timer_remain_second :: "timeval \<Rightarrow> thread \<Rightarrow> int" where
  "thread_timer_remain_second now t =
     (if tv_sec (th_sands t) - tv_sec now > 0 then tv_sec (th_sands t) - tv_sec now else 0)"

definition thread_timer_remain :: "timeval \<Rightarrow> thread \<Rightarrow> timeval" where
  "thread_timer_remain now t = timeval_subtract (th_sands t) now"

abbreviation THREAD_YIELD_TIME_SLOT :: "64 word" where "THREAD_YIELD_TIME_SLOT \<equiv> 10 * 1000"

text \<open>The result is an \<^verbatim>\<open>int\<close> of 32 bits.\<close>

definition thread_should_yield :: "timeval \<Rightarrow> timeval \<Rightarrow> 32 word" where
  "thread_should_yield now real = (let t = timeval_elapsed now real in if t > THREAD_YIELD_TIME_SLOT then ucast t else 0)"

subsection \<open>Stopping the scheduler\<close>

text \<open>Freeing a thread that is not allocated is \<open>None\<close>; the counter is unsigned.\<close>

definition thread_free :: "nat \<Rightarrow> thread_master \<Rightarrow> thread_master option" where
  "thread_free a m =
     (case tm_mem m a of
        None \<Rightarrow> None
      | Some _ \<Rightarrow> Some (m\<lparr>tm_mem := (tm_mem m)(a := None),
                           tm_alloc := (if tm_alloc m = 0 then 2 ^ 64 - 1 else tm_alloc m - 1)\<rparr>))"

fun thread_list_free :: "nat list \<Rightarrow> thread_master \<Rightarrow> thread_master option" where
  "thread_list_free [] m = Some m"
| "thread_list_free (a # as) m = do { m1 \<leftarrow> thread_free a m; thread_list_free as m1 }"

definition thread_array_free :: "(nat \<rightharpoonup> nat) \<Rightarrow> thread_master \<Rightarrow> thread_master option" where
  "thread_array_free arr m = thread_list_free (List.map_filter arr [0..<fd_limit m]) m"

text \<open>\<^verbatim>\<open>thread_queue_free\<close> takes the size off the counter at once.\<close>

definition thread_queue_free :: "nat pqueue \<Rightarrow> thread_master \<Rightarrow> thread_master option" where
  "thread_queue_free q m = thread_list_free (take (pq_size q) (pq_array q)) m"

definition thread_master_free :: "thread_master \<Rightarrow> thread_master option" where
  "thread_master_free m0 = do {
     m1 \<leftarrow> thread_array_free (tm_read m0) m0;
     m2 \<leftarrow> thread_array_free (tm_write m0) (m1\<lparr>tm_read := Map.empty\<rparr>);
     m3 \<leftarrow> thread_queue_free (tm_timer m0) (m2\<lparr>tm_write := Map.empty\<rparr>);
     m4 \<leftarrow> thread_list_free (tm_event m0) m3;
     m5 \<leftarrow> thread_list_free (tm_ready m0) m4;
     m6 \<leftarrow> thread_list_free (tm_unuse m0) m5;
     thread_queue_free (tm_background m0) m6
   }"

section \<open>Times\<close>

text \<open>The microseconds of a time.\<close>

definition usecs :: "timeval \<Rightarrow> int" where
  "usecs a = tv_sec a * TIMER_SECOND_MICRO + tv_usec a"

definition normal_time :: "timeval \<Rightarrow> bool" where
  "normal_time a \<longleftrightarrow> 0 \<le> tv_usec a \<and> tv_usec a < TIMER_SECOND_MICRO"

lemma usec_down_spec: "usecs (usec_down a) = usecs a \<and> tv_usec (usec_down a) < TIMER_SECOND_MICRO \<and>
  (tv_usec a < 0 \<longrightarrow> usec_down a = a) \<and> (0 \<le> tv_usec a \<longrightarrow> 0 \<le> tv_usec (usec_down a))"
proof (induction a rule: usec_down.induct)
  case (1 a)
  then show ?case by (cases "tv_usec a \<ge> TIMER_SECOND_MICRO") (auto simp: usec_down.simps [of a] usecs_def)
qed

lemma usec_up_spec: "tv_usec a < TIMER_SECOND_MICRO \<Longrightarrow> usecs (usec_up a) = usecs a \<and> normal_time (usec_up a)"
proof (induction a rule: usec_up.induct)
  case (1 a)
  then show ?case by (cases "tv_usec a < 0") (auto simp: usec_up.simps [of a] usecs_def normal_time_def)
qed

lemma timeval_adjust_spec:
  "normal_time (timeval_adjust a)" "0 \<le> tv_sec (timeval_adjust a)" "usecs (timeval_adjust a) = max 0 (usecs a)"
proof -
  let ?b = "usec_up (usec_down a)"
  have b: "usecs ?b = usecs a" "normal_time ?b" using usec_down_spec [of a] usec_up_spec [of "usec_down a"] by auto
  have "tv_sec ?b < 0 \<longleftrightarrow> usecs ?b < 0" using b(2) by (auto simp: usecs_def normal_time_def)
  then show "normal_time (timeval_adjust a)" "0 \<le> tv_sec (timeval_adjust a)" "usecs (timeval_adjust a) = max 0 (usecs a)"
    using b by (auto simp: timeval_adjust_def Let_def normal_time_def usecs_def)
qed

lemma timeval_cmp_usecs: "normal_time a \<Longrightarrow> normal_time b \<Longrightarrow> timeval_cmp a b < 0 \<longleftrightarrow> usecs a < usecs b"
  by (auto simp: timeval_cmp_def usecs_def normal_time_def)

section \<open>Timer queues\<close>

lemma timeval_cmp_order:
  "timeval_cmp x y < 0 \<longleftrightarrow> timeval_cmp y x > 0" "timeval_cmp x y \<le> 0 \<Longrightarrow> timeval_cmp y z \<le> 0 \<Longrightarrow> timeval_cmp x z \<le> 0"
  by (auto simp: timeval_cmp_def split: if_splits)

interpretation tq: pq_heap "thread_timer_cmp mem" 0 for mem
proof unfold_locales
  fix x y z
  let ?a = "timeval_cmp (th_sands (the (mem x))) (th_sands (the (mem y)))"
  let ?b = "timeval_cmp (th_sands (the (mem y))) (th_sands (the (mem x)))"
  have "?a < 0 \<and> ?b > 0 \<or> ?a > 0 \<and> ?b < 0 \<or> ?a = 0 \<and> ?b = 0"
    using timeval_cmp_order(1) [of "th_sands (the (mem x))" "th_sands (the (mem y))"]
      timeval_cmp_order(1) [of "th_sands (the (mem y))" "th_sands (the (mem x))"] by linarith
  then show "thread_timer_cmp mem x y < 0 \<longleftrightarrow> 0 < thread_timer_cmp mem y x"
    unfolding thread_timer_cmp_def Let_def by (elim disjE conjE) simp_all
  show "thread_timer_cmp mem x z \<le> 0" if "thread_timer_cmp mem x y \<le> 0" "thread_timer_cmp mem y z \<le> 0"
  proof -
    have le: "thread_timer_cmp mem a b \<le> 0 \<longleftrightarrow> timeval_cmp (th_sands (the (mem a))) (th_sands (the (mem b))) \<le> 0" for a b
      by (auto simp: thread_timer_cmp_def Let_def)
    show ?thesis using that timeval_cmp_order(2) unfolding le by blast
  qed
qed

definition queue_ok :: "(nat \<rightharpoonup> thread) \<Rightarrow> nat pqueue \<Rightarrow> bool" where
  "queue_ok mem q \<longleftrightarrow> tq.pq_ok mem q \<and> pq_update q"

lemma slot_contents: "i < pq_size q \<Longrightarrow> pq_size q \<le> length (pq_array q) \<Longrightarrow> pq_array q ! i \<in># contents q"
  by (auto simp: contents_def in_set_conv_nth intro!: exI [of _ i])

lemma queue_ok_cong:
  assumes "\<And>a. a \<in># contents q \<Longrightarrow> th_sands (the (mem' a)) = th_sands (the (mem a))"
  shows "queue_ok mem' q \<longleftrightarrow> queue_ok mem q"
proof -
  have c: "thread_timer_cmp mem' x y = thread_timer_cmp mem x y" if "x \<in># contents q" "y \<in># contents q" for x y
    using that assms by (simp add: thread_timer_cmp_def)
  have "tq.heap mem' (pq_array q) (pq_size q) = tq.heap mem (pq_array q) (pq_size q)" if "pq_size q \<le> length (pq_array q)"
  proof -
    have "thread_timer_cmp mem' (pq_array q ! PARENT_OF i) (pq_array q ! i) = thread_timer_cmp mem (pq_array q ! PARENT_OF i) (pq_array q ! i)"
      if "0 < i" "i < pq_size q" for i
      using that c slot_contents [of i q] slot_contents [of "PARENT_OF i" q] \<open>pq_size q \<le> length (pq_array q)\<close> PARENT_OF_less [of i] by simp
    then show ?thesis unfolding tq.heap_def by metis
  qed
  then show ?thesis unfolding queue_ok_def tq.pq_ok_def by (metis less_imp_le)
qed

lemma queue_enqueue_spec:
  assumes "queue_ok mem q" "a \<notin># contents q"
  shows "\<exists>q'. pqueue_enqueue (thread_timer_cmp mem) 0 a q = Some q' \<and> queue_ok mem q' \<and> contents q' = add_mset a (contents q)"
  using tq.pqueue_enqueue_spec [of mem q a 0] assms by (auto simp: queue_ok_def)

lemma queue_once: "queue_ok mem q \<Longrightarrow> once (contents q)"
  by (simp add: queue_ok_def tq.pq_ok_def)

lemma queue_remove_spec:
  assumes ok: "queue_ok mem q" and a: "a \<in># contents q"
  shows "\<exists>q'. queue_remove a mem q = Some q' \<and> queue_ok mem q' \<and> contents q = add_mset a (contents q')"
proof -
  have q: "tq.pq_ok mem q" "pq_update q" "length (pq_array q) = array_size q" "pq_size q < array_size q" "pos_ok q (pq_size q)" "once (contents q)"
    using ok by (auto simp: queue_ok_def tq.pq_ok_def)
  obtain i where i: "i < pq_size q" "pq_array q ! i = a" using a q(3,4) by (auto simp: contents_def in_set_conv_nth)
  have "pq_pos q a = Some i" using q(2,5,6) i by (auto simp: pos_ok_def contents_def)
  then show ?thesis using tq.pqueue_remove_at_spec [OF q(1) i(1)] i q(2-4) by (auto simp: queue_remove_def queue_ok_def)
qed

lemma queue_dequeue_spec:
  assumes ok: "queue_ok mem q" and f: "pqueue_first q = Some a"
  shows "\<exists>q'. pqueue_dequeue (thread_timer_cmp mem) q = Some (a, q') \<and> queue_ok mem q' \<and> contents q = add_mset a (contents q') \<and>
    (\<forall>b \<in># contents q. thread_timer_cmp mem a b \<le> 0)"
proof -
  have q: "tq.pq_ok mem q" "pq_update q" using ok by (auto simp: queue_ok_def)
  then have ne: "contents q \<noteq> {#}" using f tq.heap_queue.front_empty [of mem q] by auto
  from tq.heap_queue.deq_law [OF q(1) ne] tq.pqueue_dequeue_spec [OF q(1) ne] f q(2) show ?thesis by (auto simp: queue_ok_def)
qed

lemma queue_first_in: "queue_ok mem q \<Longrightarrow> pqueue_first q = Some a \<Longrightarrow> a \<in># contents q"
  using queue_dequeue_spec by fastforce

lemma queue_first_None: "queue_ok mem q \<Longrightarrow> pqueue_first q = None \<Longrightarrow> contents q = {#}"
  by (auto simp: pqueue_first_def contents_def split: if_splits)

section \<open>The invariant of the scheduler\<close>

definition typed :: "(nat \<rightharpoonup> thread) \<Rightarrow> thread_type \<Rightarrow> nat \<Rightarrow> bool" where
  "typed mem ty a \<longleftrightarrow> (\<exists>t. mem a = Some t \<and> th_type t = ty)"

text \<open>
  The three kinds of places hold exactly the threads of their type, but for those in \<open>B\<close>, which are between
  two places.
\<close>

definition queue_at :: "(nat \<rightharpoonup> thread) \<Rightarrow> nat pqueue \<Rightarrow> thread_type \<Rightarrow> nat set \<Rightarrow> bool" where
  "queue_at mem q ty B \<longleftrightarrow> queue_ok mem q \<and> (\<forall>a. a \<in># contents q \<longleftrightarrow> a \<notin> B \<and> typed mem ty a)"

definition list_at :: "(nat \<rightharpoonup> thread) \<Rightarrow> nat list \<Rightarrow> thread_type \<Rightarrow> nat set \<Rightarrow> bool" where
  "list_at mem l ty B \<longleftrightarrow> distinct l \<and> (\<forall>a. a \<in> set l \<longleftrightarrow> a \<notin> B \<and> typed mem ty a)"

definition array_at :: "(nat \<rightharpoonup> thread) \<Rightarrow> nat \<Rightarrow> (nat \<rightharpoonup> nat) \<Rightarrow> nat set \<Rightarrow> thread_type \<Rightarrow> nat set \<Rightarrow> bool" where
  "array_at mem limit arr fds ty B \<longleftrightarrow> fds = dom arr \<and> (\<forall>fd \<in> fds. fd < limit) \<and>
     (\<forall>fd a. arr fd = Some a \<longleftrightarrow> a \<notin> B \<and> (\<exists>t. mem a = Some t \<and> th_type t = ty \<and> th_fd t = fd))"

definition store_ok :: "thread_master \<Rightarrow> bool" where
  "store_ok m \<longleftrightarrow> finite (dom (tm_mem m)) \<and> tm_alloc m = card (dom (tm_mem m)) \<and>
     (\<forall>a \<in> dom (tm_mem m). 0 < a \<and> a < tm_brk m) \<and> 0 < tm_brk m"

definition sched_but :: "nat set \<Rightarrow> thread_master \<Rightarrow> bool" where
  "sched_but B m \<longleftrightarrow> store_ok m \<and> B \<subseteq> dom (tm_mem m) \<and> (\<forall>a t. tm_mem m a = Some t \<longrightarrow> a \<notin> B \<longrightarrow> th_type t \<noteq> THREAD_EXECUTE) \<and>
     queue_at (tm_mem m) (tm_timer m) THREAD_TIMER B \<and> queue_at (tm_mem m) (tm_background m) THREAD_BACKGROUND B \<and>
     list_at (tm_mem m) (tm_event m) THREAD_EVENT B \<and> list_at (tm_mem m) (tm_ready m) THREAD_READY B \<and>
     list_at (tm_mem m) (tm_unuse m) THREAD_UNUSED B \<and>
     array_at (tm_mem m) (fd_limit m) (tm_read m) (tm_readfd m) THREAD_READ B \<and>
     array_at (tm_mem m) (fd_limit m) (tm_write m) (tm_writefd m) THREAD_WRITE B"

abbreviation sched_inv :: "thread_master \<Rightarrow> bool" where "sched_inv m \<equiv> sched_but {} m"

text \<open>The places do not depend on the threads that are in none.\<close>

lemma typed_cong: "mem' a = mem a \<Longrightarrow> typed mem' ty a = typed mem ty a"
  by (simp add: typed_def)

lemma list_at_cong: "(\<And>a. a \<notin> B \<Longrightarrow> mem' a = mem a) \<Longrightarrow> list_at mem' l ty B = list_at mem l ty B"
  unfolding list_at_def using typed_cong by metis

lemma array_at_cong:
  assumes "\<And>a. a \<notin> B \<Longrightarrow> mem' a = mem a"
  shows "array_at mem' n arr fds ty B = array_at mem n arr fds ty B"
proof -
  have "(a \<notin> B \<and> (\<exists>t. mem' a = Some t \<and> th_type t = ty \<and> th_fd t = fd)) =
    (a \<notin> B \<and> (\<exists>t. mem a = Some t \<and> th_type t = ty \<and> th_fd t = fd))" for a fd
    using assms [of a] by (cases "a \<in> B") simp_all
  then show ?thesis unfolding array_at_def by simp
qed

lemma queue_at_cong:
  assumes "\<And>a. a \<notin> B \<Longrightarrow> mem' a = mem a"
  shows "queue_at mem' q ty B = queue_at mem q ty B"
proof -
  have eq: "(a \<notin> B \<and> typed mem' ty a) = (a \<notin> B \<and> typed mem ty a)" for a using assms typed_cong by metis
  show ?thesis
  proof (cases "\<forall>a. a \<in># contents q \<longleftrightarrow> a \<notin> B \<and> typed mem ty a")
    case True
    then have "queue_ok mem' q = queue_ok mem q" using assms by (intro queue_ok_cong) auto
    then show ?thesis unfolding queue_at_def eq by simp
  next
    case False
    then show ?thesis unfolding queue_at_def eq by blast
  qed
qed

text \<open>A thread of another type is in none of the places of a type.\<close>

lemma other_type:
  assumes "typed mem ty' a" "ty' \<noteq> ty"
  shows "(x \<notin> {a} \<and> typed mem ty x) = typed mem ty x"
  using assms by (auto simp: typed_def)

lemma list_at_other: "typed mem ty' a \<Longrightarrow> ty' \<noteq> ty \<Longrightarrow> list_at mem l ty {a} = list_at mem l ty {}"
  unfolding list_at_def using other_type by simp

lemma queue_at_other: "typed mem ty' a \<Longrightarrow> ty' \<noteq> ty \<Longrightarrow> queue_at mem q ty {a} = queue_at mem q ty {}"
  unfolding queue_at_def using other_type by simp

lemma array_at_other:
  assumes "typed mem ty' a" "ty' \<noteq> ty"
  shows "array_at mem n arr fds ty {a} = array_at mem n arr fds ty {}"
proof -
  have "(x \<notin> {a} \<and> (\<exists>t. mem x = Some t \<and> th_type t = ty \<and> th_fd t = fd)) = (\<exists>t. mem x = Some t \<and> th_type t = ty \<and> th_fd t = fd)" for x fd
    using assms by (auto simp: typed_def)
  then show ?thesis unfolding array_at_def by simp
qed

lemmas other_places = list_at_other queue_at_other array_at_other

text \<open>Entering and leaving a place.\<close>

lemma list_enter: "list_at mem l ty {a} \<Longrightarrow> typed mem ty a \<Longrightarrow> list_at mem (l @ [a]) ty {}"
  by (auto simp: list_at_def)

lemma list_leave: "list_at mem l ty {} \<Longrightarrow> list_at mem (remove1 a l) ty {a}"
  by (auto simp: list_at_def)

lemma queue_leave:
  assumes "queue_at mem q ty {}" "queue_ok mem q'" "contents q = add_mset a (contents q')"
  shows "queue_at mem q' ty {a}"
proof -
  have "a \<notin># contents q'" using queue_once [of mem q] assms(1,3) by (simp add: queue_at_def)
  then have "x \<in># contents q' \<longleftrightarrow> x \<noteq> a \<and> x \<in># contents q" for x using assms(3) by auto
  then show ?thesis using assms(1,2) by (simp add: queue_at_def)
qed

lemma queue_enter:
  assumes "queue_at mem q ty {a}" "queue_ok mem q'" "contents q' = add_mset a (contents q)" "typed mem ty a"
  shows "queue_at mem q' ty {}"
  using assms by (auto simp: queue_at_def)

lemma array_enter:
  assumes "array_at mem n arr fds ty {a}" "mem a = Some t" "th_type t = ty" "th_fd t = fd" "fd \<notin> fds" "fd < n"
  shows "array_at mem n (arr(fd \<mapsto> a)) (insert fd fds) ty {}"
proof -
  have arr: "arr f = Some x \<longleftrightarrow> x \<noteq> a \<and> (\<exists>t. mem x = Some t \<and> th_type t = ty \<and> th_fd t = f)" for f x
    using assms(1) by (simp add: array_at_def)
  have none: "arr fd = None" using assms(1,5) by (auto simp: array_at_def)
  have "(arr(fd \<mapsto> a)) f = Some x \<longleftrightarrow> (\<exists>t. mem x = Some t \<and> th_type t = ty \<and> th_fd t = f)" for f x
  proof (cases "f = fd")
    case True
    then show ?thesis using arr [of fd x] none assms(2-4) by auto
  next
    case False
    then show ?thesis using arr [of f x] assms(2-4) by auto
  qed
  moreover have "\<forall>f \<in> insert fd fds. f < n" "insert fd fds = dom (arr(fd \<mapsto> a))" using assms(1,6) by (auto simp: array_at_def)
  ultimately show ?thesis by (simp add: array_at_def)
qed

lemma array_leave:
  assumes "array_at mem n arr fds ty {}" "mem a = Some t" "th_type t = ty"
  shows "array_at mem n (arr(th_fd t := None)) (fds - {th_fd t}) ty {a}" "th_fd t \<in> fds" "arr (th_fd t) = Some a"
proof -
  have arr: "arr f = Some x \<longleftrightarrow> (\<exists>t. mem x = Some t \<and> th_type t = ty \<and> th_fd t = f)" for f x
    using assms(1) by (simp add: array_at_def)
  show at: "arr (th_fd t) = Some a" using arr assms(2,3) by auto
  then show "th_fd t \<in> fds" using assms(1) by (auto simp: array_at_def)
  have "(arr(th_fd t := None)) f = Some x \<longleftrightarrow> x \<noteq> a \<and> (\<exists>t. mem x = Some t \<and> th_type t = ty \<and> th_fd t = f)" for f x
  proof (cases "f = th_fd t")
    case True
    have "x = a" if "\<exists>t. mem x = Some t \<and> th_type t = ty \<and> th_fd t = f" using arr [of f x] that at True by auto
    then show ?thesis using True by auto
  next
    case False
    then have "x \<noteq> a" if "\<exists>t. mem x = Some t \<and> th_type t = ty \<and> th_fd t = f" using that assms(2) by auto
    then show ?thesis using False arr [of f x] by auto
  qed
  then show "array_at mem n (arr(th_fd t := None)) (fds - {th_fd t}) ty {a}" using assms(1) by (auto simp: array_at_def)
qed

section \<open>Moving threads\<close>

lemmas cong_places = list_at_cong queue_at_cong array_at_cong

lemma store_ok_upd: "store_ok m \<Longrightarrow> tm_mem m a \<noteq> None \<Longrightarrow> store_ok (m\<lparr>tm_mem := (tm_mem m)(a \<mapsto> t)\<rparr>)"
  by (auto simp: store_ok_def insert_absorb [OF domI])

lemma sched_but_running: "sched_but B m \<Longrightarrow> tm_mem m x = Some t \<Longrightarrow> x \<notin> B \<Longrightarrow> th_type t \<noteq> THREAD_EXECUTE"
  by (auto simp: sched_but_def)

lemma sched_but_mem:
  assumes "sched_but {a} m"
  obtains t where "tm_mem m a = Some t"
  using assms by (auto simp: sched_but_def)

text \<open>The thread that is between two places may change in any way.\<close>

lemma sched_but_change:
  assumes "sched_but {a} m"
  shows "sched_but {a} (m\<lparr>tm_mem := (tm_mem m)(a \<mapsto> t)\<rparr>)"
proof -
  let ?mem = "(tm_mem m)(a \<mapsto> t)"
  have c: "list_at ?mem l ty {a} = list_at (tm_mem m) l ty {a}" "queue_at ?mem q ty {a} = queue_at (tm_mem m) q ty {a}"
    "array_at ?mem n arr fds ty {a} = array_at (tm_mem m) n arr fds ty {a}" for l q n arr fds ty
    by (rule cong_places; simp)+
  have "store_ok (m\<lparr>tm_mem := ?mem\<rparr>)" using assms by (intro store_ok_upd) (auto simp: sched_but_def)
  then show ?thesis using assms by (auto simp: sched_but_def c)
qed

lemma typed_upd [simp]: "typed ((tm_mem m)(a \<mapsto> t)) ty a \<longleftrightarrow> th_type t = ty"
  by (simp add: typed_def)

lemma not_on_list: "sched_but {a} m \<Longrightarrow> \<not> on_list m a"
  by (auto simp: sched_but_def on_list_def list_at_def)

lemma thread_upd_Some: "tm_mem m a = Some t \<Longrightarrow> thread_upd a f m = Some (m\<lparr>tm_mem := (tm_mem m)(a \<mapsto> f t)\<rparr>)"
  by (simp add: thread_upd_def)

text \<open>What is left of the invariant once the type of the thread is set: the place of its type is open.\<close>

lemma sched_enter_list:
  assumes s: "sched_but {a} m" and t: "tm_mem m a = Some t" "th_type t = ty"
  shows "ty = THREAD_EVENT \<Longrightarrow> sched_inv (m\<lparr>tm_event := tm_event m @ [a]\<rparr>)"
    "ty = THREAD_READY \<Longrightarrow> sched_inv (m\<lparr>tm_ready := tm_ready m @ [a]\<rparr>)"
    "ty = THREAD_UNUSED \<Longrightarrow> sched_inv (m\<lparr>tm_unuse := tm_unuse m @ [a]\<rparr>)"
proof -
  have ty: "typed (tm_mem m) ty a" using t by (simp add: typed_def)
  have ex: "\<forall>x t. tm_mem m x = Some t \<longrightarrow> th_type t \<noteq> THREAD_EXECUTE" if "ty \<noteq> THREAD_EXECUTE"
    using sched_but_running [OF s] t that by (metis option.inject singletonD)
  note o = other_places [OF ty]
  show "sched_inv (m\<lparr>tm_event := tm_event m @ [a]\<rparr>)" if "ty = THREAD_EVENT"
    using s that ex ty list_enter [of "tm_mem m" "tm_event m" THREAD_EVENT a] o by (simp add: sched_but_def store_ok_def)
  show "sched_inv (m\<lparr>tm_ready := tm_ready m @ [a]\<rparr>)" if "ty = THREAD_READY"
    using s that ex ty list_enter [of "tm_mem m" "tm_ready m" THREAD_READY a] o by (simp add: sched_but_def store_ok_def)
  show "sched_inv (m\<lparr>tm_unuse := tm_unuse m @ [a]\<rparr>)" if "ty = THREAD_UNUSED"
    using s that ex ty list_enter [of "tm_mem m" "tm_unuse m" THREAD_UNUSED a] o by (simp add: sched_but_def store_ok_def)
qed

lemma thread_unused_spec:
  assumes s: "sched_but {a} m" and t: "tm_mem m a = Some t"
  shows "\<exists>m'. thread_unused a m = Some m' \<and> sched_inv m' \<and>
    m' = m\<lparr>tm_mem := (tm_mem m)(a \<mapsto> t\<lparr>th_type := THREAD_UNUSED\<rparr>), tm_unuse := tm_unuse m @ [a]\<rparr>"
proof -
  let ?m = "m\<lparr>tm_mem := (tm_mem m)(a \<mapsto> t\<lparr>th_type := THREAD_UNUSED\<rparr>)\<rparr>"
  have s1: "sched_but {a} ?m" by (rule sched_but_change [OF s])
  have "thread_unused a m = Some (?m\<lparr>tm_unuse := tm_unuse ?m @ [a]\<rparr>)"
    using t not_on_list [OF s1] by (simp add: thread_unused_def thread_upd_Some thread_add_unuse_def thread_list_add_def)
  moreover have "sched_inv (?m\<lparr>tm_unuse := tm_unuse ?m @ [a]\<rparr>)"
    by (rule sched_enter_list(3) [OF s1, where t = "t\<lparr>th_type := THREAD_UNUSED\<rparr>" and ty = THREAD_UNUSED]) simp_all
  ultimately show ?thesis by simp
qed

lemma make_ready_spec:
  assumes s: "sched_but {a} m" and t: "tm_mem m a = Some t"
  shows "\<exists>m'. make_ready a m = Some m' \<and> sched_inv m' \<and>
    m' = m\<lparr>tm_mem := (tm_mem m)(a \<mapsto> t\<lparr>th_type := THREAD_READY\<rparr>), tm_ready := tm_ready m @ [a]\<rparr>"
proof -
  let ?m = "m\<lparr>tm_mem := (tm_mem m)(a \<mapsto> t\<lparr>th_type := THREAD_READY\<rparr>)\<rparr>"
  have "sched_inv (?m\<lparr>tm_ready := tm_ready ?m @ [a]\<rparr>)"
    by (rule sched_enter_list(2) [OF sched_but_change [OF s], where t = "t\<lparr>th_type := THREAD_READY\<rparr>" and ty = THREAD_READY]) simp_all
  moreover have "make_ready a m = Some (?m\<lparr>tm_ready := tm_ready ?m @ [a]\<rparr>)"
    using t by (simp add: make_ready_def thread_upd_def thread_list_add_def)
  ultimately show ?thesis by simp
qed

text \<open>Leaving a place.\<close>

lemma list_at_mem: "list_at mem l ty {} \<Longrightarrow> typed mem ty a \<Longrightarrow> a \<in> set l"
  by (simp add: list_at_def)

lemma sched_leave:
  assumes s: "sched_inv m" and t: "tm_mem m a = Some t" "th_type t = ty"
  shows "ty = THREAD_EVENT \<Longrightarrow> a \<in> set (tm_event m) \<and> sched_but {a} (m\<lparr>tm_event := remove1 a (tm_event m)\<rparr>)"
    "ty = THREAD_READY \<Longrightarrow> a \<in> set (tm_ready m) \<and> sched_but {a} (m\<lparr>tm_ready := remove1 a (tm_ready m)\<rparr>)"
    "ty = THREAD_UNUSED \<Longrightarrow> a \<in> set (tm_unuse m) \<and> sched_but {a} (m\<lparr>tm_unuse := remove1 a (tm_unuse m)\<rparr>)"
    "ty = THREAD_READ \<Longrightarrow> th_fd t \<in> tm_readfd m \<and>
      sched_but {a} (m\<lparr>tm_readfd := tm_readfd m - {th_fd t}, tm_read := (tm_read m)(th_fd t := None)\<rparr>)"
    "ty = THREAD_WRITE \<Longrightarrow> th_fd t \<in> tm_writefd m \<and>
      sched_but {a} (m\<lparr>tm_writefd := tm_writefd m - {th_fd t}, tm_write := (tm_write m)(th_fd t := None)\<rparr>)"
    "ty = THREAD_TIMER \<Longrightarrow> queue_ok (tm_mem m) q \<Longrightarrow> contents (tm_timer m) = add_mset a (contents q) \<Longrightarrow>
      sched_but {a} (m\<lparr>tm_timer := q\<rparr>)"
    "ty = THREAD_BACKGROUND \<Longrightarrow> queue_ok (tm_mem m) q \<Longrightarrow> contents (tm_background m) = add_mset a (contents q) \<Longrightarrow>
      sched_but {a} (m\<lparr>tm_background := q\<rparr>)"
proof -
  have ty: "typed (tm_mem m) ty a" using t by (simp add: typed_def)
  note o = other_places [OF ty]
  note places = s [unfolded sched_but_def]
  show "a \<in> set (tm_event m) \<and> sched_but {a} (m\<lparr>tm_event := remove1 a (tm_event m)\<rparr>)" if "ty = THREAD_EVENT"
    using places that ty t(1) list_leave [of "tm_mem m" "tm_event m" THREAD_EVENT a] list_at_mem [of "tm_mem m" "tm_event m" THREAD_EVENT a] o
    by (auto simp: sched_but_def store_ok_def)
  show "a \<in> set (tm_ready m) \<and> sched_but {a} (m\<lparr>tm_ready := remove1 a (tm_ready m)\<rparr>)" if "ty = THREAD_READY"
    using places that ty t(1) list_leave [of "tm_mem m" "tm_ready m" THREAD_READY a] list_at_mem [of "tm_mem m" "tm_ready m" THREAD_READY a] o
    by (auto simp: sched_but_def store_ok_def)
  show "a \<in> set (tm_unuse m) \<and> sched_but {a} (m\<lparr>tm_unuse := remove1 a (tm_unuse m)\<rparr>)" if "ty = THREAD_UNUSED"
    using places that ty t(1) list_leave [of "tm_mem m" "tm_unuse m" THREAD_UNUSED a] list_at_mem [of "tm_mem m" "tm_unuse m" THREAD_UNUSED a] o
    by (auto simp: sched_but_def store_ok_def)
  show "th_fd t \<in> tm_readfd m \<and> sched_but {a} (m\<lparr>tm_readfd := tm_readfd m - {th_fd t}, tm_read := (tm_read m)(th_fd t := None)\<rparr>)" if "ty = THREAD_READ"
    using places that t array_leave(1,2) [of "tm_mem m" "fd_limit m" "tm_read m" "tm_readfd m" THREAD_READ a t] o by (auto simp: sched_but_def store_ok_def)
  show "th_fd t \<in> tm_writefd m \<and> sched_but {a} (m\<lparr>tm_writefd := tm_writefd m - {th_fd t}, tm_write := (tm_write m)(th_fd t := None)\<rparr>)" if "ty = THREAD_WRITE"
    using places that t array_leave(1,2) [of "tm_mem m" "fd_limit m" "tm_write m" "tm_writefd m" THREAD_WRITE a t] o by (auto simp: sched_but_def store_ok_def)
  show "sched_but {a} (m\<lparr>tm_timer := q\<rparr>)" if "ty = THREAD_TIMER" "queue_ok (tm_mem m) q" "contents (tm_timer m) = add_mset a (contents q)"
    using places that t(1) queue_leave [of "tm_mem m" "tm_timer m" THREAD_TIMER q a] o by (auto simp: sched_but_def store_ok_def)
  show "sched_but {a} (m\<lparr>tm_background := q\<rparr>)" if "ty = THREAD_BACKGROUND" "queue_ok (tm_mem m) q" "contents (tm_background m) = add_mset a (contents q)"
    using places that t(1) queue_leave [of "tm_mem m" "tm_background m" THREAD_BACKGROUND q a] o by (auto simp: sched_but_def store_ok_def)
qed

section \<open>Adding and cancelling\<close>

lemma contents_pos [simp]: "contents (q\<lparr>pq_pos := p'\<rparr>) = contents q"
  by (simp add: contents_def)

lemma queue_forget:
  assumes "queue_ok mem q" "a \<notin># contents q"
  shows "queue_ok mem (q\<lparr>pq_pos := (pq_pos q)(a := None)\<rparr>)"
proof -
  have "pq_size q \<le> length (pq_array q)" using assms(1) by (auto simp: queue_ok_def tq.pq_ok_def)
  then have "pq_array q ! i \<noteq> a" if "i < pq_size q" for i using slot_contents [of i q] that assms(2) by auto
  then show ?thesis using assms(1) by (auto simp: queue_ok_def tq.pq_ok_def pos_ok_def)
qed

lemma queue_at_forget: "queue_at mem q ty B \<Longrightarrow> a \<in> B \<Longrightarrow> queue_at mem (q\<lparr>pq_pos := (pq_pos q)(a := None)\<rparr>) ty B"
  by (simp add: queue_at_def queue_forget)

lemma sched_but_forget:
  assumes "sched_but {a} m"
  shows "sched_but {a} (m\<lparr>tm_timer := (tm_timer m)\<lparr>pq_pos := (pq_pos (tm_timer m))(a := None)\<rparr>,
    tm_background := (tm_background m)\<lparr>pq_pos := (pq_pos (tm_background m))(a := None)\<rparr>\<rparr>)"
  using assms by (simp add: sched_but_def store_ok_def queue_at_forget)

text \<open>A new thread is in no place yet.\<close>

lemma sched_but_alloc:
  assumes s: "sched_inv m"
  shows "sched_but {tm_brk m} (m\<lparr>tm_brk := tm_brk m + 1, tm_alloc := tm_alloc m + 1, tm_mem := (tm_mem m)(tm_brk m \<mapsto> t)\<rparr>)"
proof -
  let ?b = "tm_brk m"
  let ?mem = "(tm_mem m)(?b \<mapsto> t)"
  have st: "store_ok m" using s by (simp add: sched_but_def)
  then have new: "tm_mem m ?b = None" by (auto simp: store_ok_def dom_def)
  then have nt: "\<not> typed (tm_mem m) ty ?b" for ty by (simp add: typed_def)
  have eq: "(x \<noteq> ?b \<and> typed ?mem ty x) = typed (tm_mem m) ty x" for x ty using nt [of ty] by (auto simp: typed_def)
  have l: "list_at ?mem l ty {?b} = list_at (tm_mem m) l ty {}" for l ty by (simp add: list_at_def eq)
  have q: "queue_at ?mem q ty {?b}" if "queue_at (tm_mem m) q ty {}" for q ty
  proof -
    have "queue_ok ?mem q = queue_ok (tm_mem m) q" using that new by (intro queue_ok_cong) (auto simp: queue_at_def typed_def)
    then show ?thesis using that by (simp add: queue_at_def eq)
  qed
  have e: "(x \<noteq> ?b \<and> (\<exists>t'. ?mem x = Some t' \<and> th_type t' = ty \<and> th_fd t' = fd)) = (\<exists>t'. tm_mem m x = Some t' \<and> th_type t' = ty \<and> th_fd t' = fd)" for x ty fd
    using new by auto
  have a: "array_at ?mem n arr fds ty {?b} = array_at (tm_mem m) n arr fds ty {}" for n arr fds ty
    unfolding array_at_def using e by simp
  have "store_ok (m\<lparr>tm_brk := tm_brk m + 1, tm_alloc := tm_alloc m + 1, tm_mem := ?mem\<rparr>)"
    using st new by (auto simp: store_ok_def less_Suc_eq domIff)
  then show ?thesis using s by (simp add: sched_but_def l q a)
qed

text \<open>What getting a thread leaves as it is.\<close>

definition same_places :: "nat \<Rightarrow> thread_master \<Rightarrow> thread_master \<Rightarrow> bool" where
  "same_places a m m' \<longleftrightarrow> (\<forall>x. x \<noteq> a \<longrightarrow> tm_mem m' x = tm_mem m x) \<and> (tm_mem m a = None \<or> typed (tm_mem m) THREAD_UNUSED a) \<and>
     tm_event m' = tm_event m \<and> tm_ready m' = tm_ready m \<and> contents (tm_timer m') = contents (tm_timer m) \<and>
     contents (tm_background m') = contents (tm_background m) \<and> tm_read m' = tm_read m \<and> tm_write m' = tm_write m \<and>
     tm_readfd m' = tm_readfd m \<and> tm_writefd m' = tm_writefd m \<and> fd_limit m' = fd_limit m"

lemma thread_get_spec:
  assumes s: "sched_inv m" and g: "thread_get type func arg m = (a, m')"
  shows "sched_but {a} m' \<and> same_places a m m' \<and>
    (\<exists>t. tm_mem m' a = Some t \<and> th_type t = type \<and> th_add_type t = type \<and> th_func t = func \<and> th_arg t = arg)"
proof (cases "tm_unuse m")
  case Nil
  have new: "tm_mem m (tm_brk m) = None" using s by (auto simp: sched_but_def store_ok_def dom_def)
  show ?thesis
    using g Nil new sched_but_forget [OF sched_but_alloc [OF s]]
    by (auto simp: thread_get_def thread_trim_head_def same_places_def)
next
  case (Cons b rest)
  have b: "typed (tm_mem m) THREAD_UNUSED b" using s Cons by (auto simp: sched_but_def list_at_def)
  then obtain t where t: "tm_mem m b = Some t" "th_type t = THREAD_UNUSED" by (auto simp: typed_def)
  have "sched_but {b} (m\<lparr>tm_unuse := rest\<rparr>)" using sched_leave(3) [OF s t] Cons by simp
  from sched_but_forget [OF sched_but_change [OF this]] show ?thesis
    using g Cons b by (auto simp: thread_get_def thread_trim_head_def thread_list_delete_def same_places_def)
qed

lemma thread_get_fds:
  "thread_get type func arg (m\<lparr>tm_readfd := F\<rparr>) = map_prod id (\<lambda>m'. m'\<lparr>tm_readfd := F\<rparr>) (thread_get type func arg m)"
  "thread_get type func arg (m\<lparr>tm_writefd := F\<rparr>) = map_prod id (\<lambda>m'. m'\<lparr>tm_writefd := F\<rparr>) (thread_get type func arg m)"
  by (auto simp: thread_get_def Let_def split: option.splits prod.splits)

lemma sched_enter:
  assumes s: "sched_but {a} m" and t: "tm_mem m a = Some t" "th_type t = ty"
  shows "ty = THREAD_TIMER \<Longrightarrow> queue_ok (tm_mem m) q \<Longrightarrow> contents q = add_mset a (contents (tm_timer m)) \<Longrightarrow> sched_inv (m\<lparr>tm_timer := q\<rparr>)"
    "ty = THREAD_BACKGROUND \<Longrightarrow> queue_ok (tm_mem m) q \<Longrightarrow> contents q = add_mset a (contents (tm_background m)) \<Longrightarrow> sched_inv (m\<lparr>tm_background := q\<rparr>)"
    "ty = THREAD_READ \<Longrightarrow> th_fd t = fd \<Longrightarrow> fd \<notin> tm_readfd m \<Longrightarrow> fd < fd_limit m \<Longrightarrow>
       sched_inv (m\<lparr>tm_read := (tm_read m)(fd \<mapsto> a), tm_readfd := insert fd (tm_readfd m)\<rparr>)"
    "ty = THREAD_WRITE \<Longrightarrow> th_fd t = fd \<Longrightarrow> fd \<notin> tm_writefd m \<Longrightarrow> fd < fd_limit m \<Longrightarrow>
       sched_inv (m\<lparr>tm_write := (tm_write m)(fd \<mapsto> a), tm_writefd := insert fd (tm_writefd m)\<rparr>)"
proof -
  have ty: "typed (tm_mem m) ty a" using t by (simp add: typed_def)
  have ex: "\<forall>x t. tm_mem m x = Some t \<longrightarrow> th_type t \<noteq> THREAD_EXECUTE" if "ty \<noteq> THREAD_EXECUTE"
    using sched_but_running [OF s] t that by (metis option.inject singletonD)
  note o = other_places [OF ty]
  show "sched_inv (m\<lparr>tm_timer := q\<rparr>)" if "ty = THREAD_TIMER" "queue_ok (tm_mem m) q" "contents q = add_mset a (contents (tm_timer m))"
    using s that ex ty queue_enter [of "tm_mem m" "tm_timer m" THREAD_TIMER a q] o by (simp add: sched_but_def store_ok_def)
  show "sched_inv (m\<lparr>tm_background := q\<rparr>)" if "ty = THREAD_BACKGROUND" "queue_ok (tm_mem m) q" "contents q = add_mset a (contents (tm_background m))"
    using s that ex ty queue_enter [of "tm_mem m" "tm_background m" THREAD_BACKGROUND a q] o by (simp add: sched_but_def store_ok_def)
  show "sched_inv (m\<lparr>tm_read := (tm_read m)(fd \<mapsto> a), tm_readfd := insert fd (tm_readfd m)\<rparr>)"
    if "ty = THREAD_READ" "th_fd t = fd" "fd \<notin> tm_readfd m" "fd < fd_limit m"
    using s that ex t array_enter [of "tm_mem m" "fd_limit m" "tm_read m" "tm_readfd m" THREAD_READ a t fd] o by (simp add: sched_but_def store_ok_def)
  show "sched_inv (m\<lparr>tm_write := (tm_write m)(fd \<mapsto> a), tm_writefd := insert fd (tm_writefd m)\<rparr>)"
    if "ty = THREAD_WRITE" "th_fd t = fd" "fd \<notin> tm_writefd m" "fd < fd_limit m"
    using s that ex t array_enter [of "tm_mem m" "fd_limit m" "tm_write m" "tm_writefd m" THREAD_WRITE a t fd] o by (simp add: sched_but_def store_ok_def)
qed

text \<open>The thread \<open>a\<close> was not scheduled and is now \<open>t\<close>; no other thread changes.\<close>

definition added :: "nat \<Rightarrow> thread \<Rightarrow> thread_master \<Rightarrow> thread_master \<Rightarrow> bool" where
  "added a t m m' \<longleftrightarrow> (tm_mem m a = None \<or> typed (tm_mem m) THREAD_UNUSED a) \<and> tm_mem m' a = Some t \<and>
     (\<forall>x. x \<noteq> a \<longrightarrow> tm_mem m' x = tm_mem m x)"

lemma add_event_spec:
  assumes s: "sched_inv m"
  shows "\<exists>a m' t. funcname_thread_add_event func arg val m = Some (a, m') \<and> sched_inv m' \<and> added a t m m' \<and>
    th_type t = THREAD_EVENT \<and> th_func t = func \<and> th_arg t = arg \<and> th_val t = val \<and> tm_event m' = tm_event m @ [a] \<and> tm_ready m' = tm_ready m"
proof -
  obtain a m1 where g: "thread_get THREAD_EVENT func arg m = (a, m1)" by fastforce
  obtain t where b: "sched_but {a} m1" "same_places a m m1" "tm_mem m1 a = Some t" "th_type t = THREAD_EVENT" "th_func t = func" "th_arg t = arg"
    using thread_get_spec [OF s g] by blast
  let ?m2 = "m1\<lparr>tm_mem := (tm_mem m1)(a \<mapsto> t\<lparr>th_val := val\<rparr>)\<rparr>"
  have "sched_inv (?m2\<lparr>tm_event := tm_event ?m2 @ [a]\<rparr>)"
    by (rule sched_enter_list(1) [OF sched_but_change [OF b(1)], where t = "t\<lparr>th_val := val\<rparr>" and ty = THREAD_EVENT]) (simp_all add: b(4))
  moreover have "funcname_thread_add_event func arg val m = Some (a, ?m2\<lparr>tm_event := tm_event ?m2 @ [a]\<rparr>)"
    by (simp add: funcname_thread_add_event_def g thread_upd_Some [OF b(3)] thread_list_add_def)
  moreover have "added a (t\<lparr>th_val := val\<rparr>) m (?m2\<lparr>tm_event := tm_event ?m2 @ [a]\<rparr>)"
    using b(2) by (simp add: added_def same_places_def)
  ultimately show ?thesis using b(2,4-6) by (auto simp: same_places_def)
qed

lemma add_timer_spec:
  assumes s: "sched_inv m" and ty: "type = THREAD_TIMER \<or> type = THREAD_BACKGROUND"
  shows "\<exists>a m' t. funcname_thread_add_timer_timeval now func type arg rel m = Some (a, m') \<and> sched_inv m' \<and> added a t m m' \<and>
    th_type t = type \<and> th_func t = func \<and> th_arg t = arg \<and> normal_time (th_sands t) \<and> usecs (th_sands t) = max 0 (usecs now + usecs rel)"
proof -
  obtain a m1 where g: "thread_get type func arg m = (a, m1)" by fastforce
  obtain t where b: "sched_but {a} m1" "same_places a m m1" "tm_mem m1 a = Some t" "th_type t = type" "th_func t = func" "th_arg t = arg"
    using thread_get_spec [OF s g] by blast
  let ?time = "\<lparr>tv_sec = tv_sec now + tv_sec rel, tv_usec = tv_usec now + tv_usec rel\<rparr>"
  let ?t = "t\<lparr>th_sands := timeval_adjust ?time\<rparr>"
  let ?m2 = "m1\<lparr>tm_mem := (tm_mem m1)(a \<mapsto> ?t)\<rparr>"
  have b2: "sched_but {a} ?m2" by (rule sched_but_change [OF b(1)])
  have t2: "tm_mem ?m2 a = Some ?t" "th_type ?t = type" using b(4) by simp_all
  have time: "normal_time (th_sands ?t)" "usecs (th_sands ?t) = max 0 (usecs now + usecs rel)"
    using timeval_adjust_spec [of ?time] by (simp_all add: usecs_def algebra_simps)
  have add: "added a ?t m (?m2\<lparr>tm_timer := q\<rparr>)" "added a ?t m (?m2\<lparr>tm_background := q\<rparr>)" for q
    using b(2) by (simp_all add: added_def same_places_def)
  show ?thesis using ty
  proof
    assume ty: "type = THREAD_TIMER"
    have "queue_ok (tm_mem ?m2) (tm_timer ?m2)" "a \<notin># contents (tm_timer ?m2)" using b2 by (auto simp: sched_but_def queue_at_def)
    from queue_enqueue_spec [OF this] obtain q where q: "pqueue_enqueue (thread_timer_cmp (tm_mem ?m2)) 0 a (tm_timer ?m2) = Some q"
      "queue_ok (tm_mem ?m2) q" "contents q = add_mset a (contents (tm_timer ?m2))" by blast
    have "sched_inv (?m2\<lparr>tm_timer := q\<rparr>)" by (rule sched_enter(1) [OF b2 t2 ty q(2,3)])
    moreover have "funcname_thread_add_timer_timeval now func type arg rel m = Some (a, ?m2\<lparr>tm_timer := q\<rparr>)"
      using q(1) ty g by (simp add: funcname_thread_add_timer_timeval_def thread_upd_Some [OF b(3)])
    ultimately show ?thesis using add(1) time b(4-6) by (intro exI [of _ a] exI [of _ "?m2\<lparr>tm_timer := q\<rparr>"] exI [of _ ?t]) simp
  next
    assume ty: "type = THREAD_BACKGROUND"
    have "queue_ok (tm_mem ?m2) (tm_background ?m2)" "a \<notin># contents (tm_background ?m2)" using b2 by (auto simp: sched_but_def queue_at_def)
    from queue_enqueue_spec [OF this] obtain q where q: "pqueue_enqueue (thread_timer_cmp (tm_mem ?m2)) 0 a (tm_background ?m2) = Some q"
      "queue_ok (tm_mem ?m2) q" "contents q = add_mset a (contents (tm_background ?m2))" by blast
    have "sched_inv (?m2\<lparr>tm_background := q\<rparr>)" by (rule sched_enter(2) [OF b2 t2 ty q(2,3)])
    moreover have "funcname_thread_add_timer_timeval now func type arg rel m = Some (a, ?m2\<lparr>tm_background := q\<rparr>)"
      using q(1) ty g by (simp add: funcname_thread_add_timer_timeval_def thread_upd_Some [OF b(3)])
    ultimately show ?thesis using add(2) time b(4-6) by (intro exI [of _ a] exI [of _ "?m2\<lparr>tm_background := q\<rparr>"] exI [of _ ?t]) simp
  qed
qed

lemma add_read_write_busy:
  assumes "fd < fd_limit m" "fd < FD_SETSIZE" "fd \<in> (if dir = THREAD_READ then tm_readfd m else tm_writefd m)"
  shows "funcname_thread_add_read_write dir func arg fd m = Some (None, m)"
  using assms by (simp add: funcname_thread_add_read_write_def)

lemma add_read_write_spec:
  assumes s: "sched_inv m" and dir: "dir = THREAD_READ \<or> dir = THREAD_WRITE" and fd: "fd < fd_limit m" "fd < FD_SETSIZE"
    and free: "fd \<notin> (if dir = THREAD_READ then tm_readfd m else tm_writefd m)"
  shows "\<exists>a m' t. funcname_thread_add_read_write dir func arg fd m = Some (Some a, m') \<and> sched_inv m' \<and> added a t m m' \<and>
    th_type t = dir \<and> th_func t = func \<and> th_arg t = arg \<and> th_fd t = fd"
proof -
  obtain a m1 where g: "thread_get dir func arg m = (a, m1)" by fastforce
  obtain t where b: "sched_but {a} m1" "same_places a m m1" "tm_mem m1 a = Some t" "th_type t = dir" "th_func t = func" "th_arg t = arg"
    using thread_get_spec [OF s g] by blast
  have same: "tm_readfd m1 = tm_readfd m" "tm_writefd m1 = tm_writefd m" "fd_limit m1 = fd_limit m" using b(2) by (simp_all add: same_places_def)
  let ?t = "t\<lparr>th_fd := fd\<rparr>"
  let ?m2 = "m1\<lparr>tm_mem := (tm_mem m1)(a \<mapsto> ?t)\<rparr>"
  have b2: "sched_but {a} ?m2" by (rule sched_but_change [OF b(1)])
  have t2: "tm_mem ?m2 a = Some ?t" "th_type ?t = dir" using b(4) by simp_all
  show ?thesis using dir
  proof
    assume d: "dir = THREAD_READ"
    let ?m3 = "?m2\<lparr>tm_read := (tm_read ?m2)(fd \<mapsto> a), tm_readfd := insert fd (tm_readfd ?m2)\<rparr>"
    have "sched_inv ?m3" by (rule sched_enter(3) [OF b2 t2 d]) (use free fd same d in simp_all)
    moreover have "funcname_thread_add_read_write dir func arg fd m = Some (Some a, ?m3)"
      using g fd free d same by (simp add: funcname_thread_add_read_write_def thread_get_fds thread_upd_def b(3) thread_add_fd_def)
    moreover have "added a ?t m ?m3" using b(2) by (simp add: added_def same_places_def)
    ultimately show ?thesis using b(4-6) by (intro exI [of _ a] exI [of _ ?m3] exI [of _ ?t]) simp
  next
    assume d: "dir = THREAD_WRITE"
    let ?m3 = "?m2\<lparr>tm_write := (tm_write ?m2)(fd \<mapsto> a), tm_writefd := insert fd (tm_writefd ?m2)\<rparr>"
    have "sched_inv ?m3" by (rule sched_enter(4) [OF b2 t2 d]) (use free fd same d in simp_all)
    moreover have "funcname_thread_add_read_write dir func arg fd m = Some (Some a, ?m3)"
      using g fd free d same by (simp add: funcname_thread_add_read_write_def thread_get_fds thread_upd_def b(3) thread_add_fd_def)
    moreover have "added a ?t m ?m3" using b(2) by (simp add: added_def same_places_def)
    ultimately show ?thesis using b(4-6) by (intro exI [of _ a] exI [of _ ?m3] exI [of _ ?t]) simp
  qed
qed

text \<open>The store after the threads of \<open>S\<close> got the type \<open>ty\<close>.\<close>

definition retype :: "thread_type \<Rightarrow> nat set \<Rightarrow> (nat \<rightharpoonup> thread) \<Rightarrow> (nat \<rightharpoonup> thread)" where
  "retype ty S mem = (\<lambda>x. if x \<in> S then map_option (\<lambda>t. t\<lparr>th_type := ty\<rparr>) (mem x) else mem x)"

lemma retype_empty [simp]: "retype ty {} mem = mem"
  by (simp add: retype_def)

lemma retype_single: "mem a = Some t \<Longrightarrow> mem(a \<mapsto> t\<lparr>th_type := ty\<rparr>) = retype ty {a} mem"
  by (auto simp: retype_def)

lemma retype_twice [simp]: "retype ty S (retype ty T mem) = retype ty (S \<union> T) mem"
  by (auto simp: retype_def fun_eq_iff option.map_comp comp_def)

lemma retype_same_fields [simp]:
  "mem x \<noteq> None \<Longrightarrow> th_arg (the (retype ty S mem x)) = th_arg (the (mem x))"
  "mem x \<noteq> None \<Longrightarrow> th_sands (the (retype ty S mem x)) = th_sands (the (mem x))"
  "mem x \<noteq> None \<Longrightarrow> th_fd (the (retype ty S mem x)) = th_fd (the (mem x))"
  by (auto simp: retype_def)

lemma retype_None [simp]: "retype ty S mem x = None \<longleftrightarrow> mem x = None"
  by (simp add: retype_def)

lemma retype_other [simp]: "x \<notin> S \<Longrightarrow> retype ty S mem x = mem x"
  by (simp add: retype_def)

lemma thread_unused_at:
  assumes "sched_but {a} m" "tm_mem m a \<noteq> None"
  shows "\<exists>m'. thread_unused a m = Some m' \<and> sched_inv m' \<and> m' = m\<lparr>tm_mem := retype THREAD_UNUSED {a} (tm_mem m), tm_unuse := tm_unuse m @ [a]\<rparr>"
proof -
  obtain t where t: "tm_mem m a = Some t" using assms(2) by auto
  show ?thesis using thread_unused_spec [OF assms(1) t] retype_single [of "tm_mem m", OF t] by simp
qed

lemma make_ready_at:
  assumes "sched_but {a} m" "tm_mem m a \<noteq> None"
  shows "\<exists>m'. make_ready a m = Some m' \<and> sched_inv m' \<and> m' = m\<lparr>tm_mem := retype THREAD_READY {a} (tm_mem m), tm_ready := tm_ready m @ [a]\<rparr>"
proof -
  obtain t where t: "tm_mem m a = Some t" using assms(2) by auto
  show ?thesis using make_ready_spec [OF assms(1) t] retype_single [of "tm_mem m", OF t] by simp
qed

lemma timer_places:
  assumes "sched_inv m" "tm_mem m a = Some t"
  shows "th_type t = THREAD_TIMER \<Longrightarrow> queue_ok (tm_mem m) (tm_timer m) \<and> a \<in># contents (tm_timer m)"
    "th_type t = THREAD_BACKGROUND \<Longrightarrow> queue_ok (tm_mem m) (tm_background m) \<and> a \<in># contents (tm_background m)"
  using assms by (auto simp: sched_but_def queue_at_def typed_def)

lemma thread_cancel_spec:
  assumes s: "sched_inv m" and t: "tm_mem m a = Some t"
  shows "\<exists>m'. thread_cancel a m = Some m' \<and> sched_inv m' \<and> tm_mem m' = retype THREAD_UNUSED {a} (tm_mem m)"
proof -
  have go: "\<exists>m'. thread_unused a m1 = Some m' \<and> sched_inv m' \<and> tm_mem m' = retype THREAD_UNUSED {a} (tm_mem m)"
    if "sched_but {a} m1" "tm_mem m1 = tm_mem m" for m1
    using thread_unused_at [of a m1] that t by auto
  have stay: "retype THREAD_UNUSED {a} (tm_mem m) = tm_mem m" if "th_type t = THREAD_UNUSED"
    using retype_single [of "tm_mem m" a t THREAD_UNUSED, OF t] t that by (auto simp: fun_upd_idem)
  note leave = sched_leave [OF s t refl]
  show ?thesis
  proof (cases "th_type t")
    case THREAD_TIMER
    then obtain q where "queue_remove a (tm_mem m) (tm_timer m) = Some q" "queue_ok (tm_mem m) q" "contents (tm_timer m) = add_mset a (contents q)"
      using queue_remove_spec timer_places(1) [OF s t] by blast
    then show ?thesis using THREAD_TIMER go [of "m\<lparr>tm_timer := q\<rparr>"] leave(6) t by (simp add: thread_cancel_def)
  next
    case THREAD_BACKGROUND
    then obtain q where "queue_remove a (tm_mem m) (tm_background m) = Some q" "queue_ok (tm_mem m) q" "contents (tm_background m) = add_mset a (contents q)"
      using queue_remove_spec timer_places(2) [OF s t] by blast
    then show ?thesis using THREAD_BACKGROUND go [of "m\<lparr>tm_background := q\<rparr>"] leave(7) t by (simp add: thread_cancel_def)
  next
    case THREAD_EXECUTE
    then show ?thesis using sched_but_running [OF s t] by simp
  next
    case THREAD_READ
    then show ?thesis using leave(4) go t by (simp add: thread_cancel_def thread_delete_fd_def)
  next
    case THREAD_WRITE
    then show ?thesis using leave(5) go t by (simp add: thread_cancel_def thread_delete_fd_def)
  next
    case THREAD_EVENT
    then show ?thesis using leave(1) go t by (simp add: thread_cancel_def thread_list_delete_def)
  next
    case THREAD_READY
    then show ?thesis using leave(2) go t by (simp add: thread_cancel_def thread_list_delete_def)
  next
    case THREAD_UNUSED
    then show ?thesis using s t stay by (simp add: thread_cancel_def)
  qed
qed

lemma list_member:
  assumes "sched_inv m"
  shows "a \<in> set (tm_event m) \<Longrightarrow> \<exists>t. tm_mem m a = Some t \<and> th_type t = THREAD_EVENT"
    "a \<in> set (tm_ready m) \<Longrightarrow> \<exists>t. tm_mem m a = Some t \<and> th_type t = THREAD_READY"
    "distinct (tm_event m)" "distinct (tm_ready m)"
  using assms by (auto simp: sched_but_def list_at_def typed_def)

lemma cancel_event_step:
  assumes s: "sched_inv m" and a: "a \<in> set (tm_event m)"
  shows "\<exists>m'. thread_list_delete (tm_event m) a = Some (remove1 a (tm_event m)) \<and>
    thread_unused a (m\<lparr>tm_event := remove1 a (tm_event m)\<rparr>) = Some m' \<and> sched_inv m' \<and>
    m' = m\<lparr>tm_mem := retype THREAD_UNUSED {a} (tm_mem m), tm_event := remove1 a (tm_event m), tm_unuse := tm_unuse m @ [a]\<rparr>"
proof -
  obtain t where t: "tm_mem m a = Some t" "th_type t = THREAD_EVENT" using list_member(1) [OF s a] by blast
  have "sched_but {a} (m\<lparr>tm_event := remove1 a (tm_event m)\<rparr>)" using sched_leave(1) [OF s t] by simp
  from thread_unused_at [OF this] show ?thesis using t a by (simp add: thread_list_delete_def)
qed

lemma cancel_ready_step:
  assumes s: "sched_inv m" and a: "a \<in> set (tm_ready m)"
  shows "\<exists>m'. thread_list_delete (tm_ready m) a = Some (remove1 a (tm_ready m)) \<and>
    thread_unused a (m\<lparr>tm_ready := remove1 a (tm_ready m)\<rparr>) = Some m' \<and> sched_inv m' \<and>
    m' = m\<lparr>tm_mem := retype THREAD_UNUSED {a} (tm_mem m), tm_ready := remove1 a (tm_ready m), tm_unuse := tm_unuse m @ [a]\<rparr>"
proof -
  obtain t where t: "tm_mem m a = Some t" "th_type t = THREAD_READY" using list_member(2) [OF s a] by blast
  have "sched_but {a} (m\<lparr>tm_ready := remove1 a (tm_ready m)\<rparr>)" using sched_leave(2) [OF s t] by simp
  from thread_unused_at [OF this] show ?thesis using t a by (simp add: thread_list_delete_def)
qed

definition hits :: "nat \<Rightarrow> thread_master \<Rightarrow> nat list \<Rightarrow> nat list" where
  "hits arg m as = filter (\<lambda>a. th_arg (the (tm_mem m a)) = arg) as"

lemma hits_cong: "(\<And>a. a \<in> set as \<Longrightarrow> tm_mem m' a = tm_mem m a) \<Longrightarrow> hits arg m' as = hits arg m as"
  by (simp add: hits_def cong: filter_cong)

lemma remove1_filter: "distinct xs \<Longrightarrow> filter (\<lambda>x. x \<notin> S) (remove1 a xs) = filter (\<lambda>x. x \<notin> insert a S) xs"
  by (auto simp: distinct_remove1_removeAll removeAll_filter_not_eq intro: filter_cong)

lemma cancel_events_spec:
  assumes "sched_inv m" "set as \<subseteq> set (tm_event m)" "distinct as"
  shows "\<exists>m'. cancel_events arg as (ret, m) = Some (ret + length (hits arg m as), m') \<and> sched_inv m' \<and>
    m' = m\<lparr>tm_mem := retype THREAD_UNUSED (set (hits arg m as)) (tm_mem m), tm_event := filter (\<lambda>x. x \<notin> set (hits arg m as)) (tm_event m),
           tm_unuse := tm_unuse m @ hits arg m as\<rparr>"
  using assms
proof (induction as arbitrary: ret m)
  case Nil
  then show ?case by (simp add: hits_def)
next
  case (Cons a as)
  have a: "a \<in> set (tm_event m)" and ad: "a \<notin> set as" using Cons.prems by auto
  obtain t where t: "tm_mem m a = Some t" using list_member(1) [OF Cons.prems(1) a] by blast
  show ?case
  proof (cases "th_arg t = arg")
    case True
    let ?m1 = "m\<lparr>tm_mem := retype THREAD_UNUSED {a} (tm_mem m), tm_event := remove1 a (tm_event m), tm_unuse := tm_unuse m @ [a]\<rparr>"
    have st: "thread_list_delete (tm_event m) a = Some (remove1 a (tm_event m))"
      "thread_unused a (m\<lparr>tm_event := remove1 a (tm_event m)\<rparr>) = Some ?m1" "sched_inv ?m1"
      using cancel_event_step [OF Cons.prems(1) a] by auto
    have d: "distinct (tm_event m)" by (rule list_member(3) [OF Cons.prems(1)])
    have sub: "set as \<subseteq> set (tm_event ?m1)" using Cons.prems(2) d ad by auto
    have h: "hits arg ?m1 as = hits arg m as" by (rule hits_cong) (use ad in \<open>auto simp: retype_def\<close>)
    have h2: "hits arg m (a # as) = a # hits arg m as" using t True by (simp add: hits_def)
    from Cons.IH [OF st(3) sub, of "ret + 1"] Cons.prems(3) obtain m' where m': "cancel_events arg as (ret + 1, ?m1) = Some (ret + 1 + length (hits arg m as), m')"
      "sched_inv m'" "m' = ?m1\<lparr>tm_mem := retype THREAD_UNUSED (set (hits arg m as)) (tm_mem ?m1), tm_event := filter (\<lambda>x. x \<notin> set (hits arg m as)) (tm_event ?m1),
           tm_unuse := tm_unuse ?m1 @ hits arg m as\<rparr>" unfolding h by auto
    have "cancel_events arg (a # as) (ret, m) = cancel_events arg as (ret + 1, ?m1)" using t True st by simp
    then show ?thesis using m' h2 remove1_filter [OF d, of "set (hits arg m as)" a] by simp
  next
    case False
    then have "hits arg m (a # as) = hits arg m as" using t by (simp add: hits_def)
    then show ?thesis using Cons.IH [OF Cons.prems(1), of ret] Cons.prems(2,3) t False by simp
  qed
qed

lemma cancel_ready_spec:
  assumes "sched_inv m" "set as \<subseteq> set (tm_ready m)" "distinct as"
  shows "\<exists>m'. cancel_ready arg as (ret, m) = Some (ret + length (hits arg m as), m') \<and> sched_inv m' \<and>
    m' = m\<lparr>tm_mem := retype THREAD_UNUSED (set (hits arg m as)) (tm_mem m), tm_ready := filter (\<lambda>x. x \<notin> set (hits arg m as)) (tm_ready m),
           tm_unuse := tm_unuse m @ hits arg m as\<rparr>"
  using assms
proof (induction as arbitrary: ret m)
  case Nil
  then show ?case by (simp add: hits_def)
next
  case (Cons a as)
  have a: "a \<in> set (tm_ready m)" and ad: "a \<notin> set as" using Cons.prems by auto
  obtain t where t: "tm_mem m a = Some t" using list_member(2) [OF Cons.prems(1) a] by blast
  show ?case
  proof (cases "th_arg t = arg")
    case True
    let ?m1 = "m\<lparr>tm_mem := retype THREAD_UNUSED {a} (tm_mem m), tm_ready := remove1 a (tm_ready m), tm_unuse := tm_unuse m @ [a]\<rparr>"
    have st: "thread_list_delete (tm_ready m) a = Some (remove1 a (tm_ready m))"
      "thread_unused a (m\<lparr>tm_ready := remove1 a (tm_ready m)\<rparr>) = Some ?m1" "sched_inv ?m1"
      using cancel_ready_step [OF Cons.prems(1) a] by auto
    have d: "distinct (tm_ready m)" by (rule list_member(4) [OF Cons.prems(1)])
    have sub: "set as \<subseteq> set (tm_ready ?m1)" using Cons.prems(2) d ad by auto
    have h: "hits arg ?m1 as = hits arg m as" by (rule hits_cong) (use ad in \<open>auto simp: retype_def\<close>)
    have h2: "hits arg m (a # as) = a # hits arg m as" using t True by (simp add: hits_def)
    from Cons.IH [OF st(3) sub, of "ret + 1"] Cons.prems(3) obtain m' where m': "cancel_ready arg as (ret + 1, ?m1) = Some (ret + 1 + length (hits arg m as), m')"
      "sched_inv m'" "m' = ?m1\<lparr>tm_mem := retype THREAD_UNUSED (set (hits arg m as)) (tm_mem ?m1), tm_ready := filter (\<lambda>x. x \<notin> set (hits arg m as)) (tm_ready ?m1),
           tm_unuse := tm_unuse ?m1 @ hits arg m as\<rparr>" unfolding h by auto
    have "cancel_ready arg (a # as) (ret, m) = cancel_ready arg as (ret + 1, ?m1)" using t True st by simp
    then show ?thesis using m' h2 remove1_filter [OF d, of "set (hits arg m as)" a] by simp
  next
    case False
    then have "hits arg m (a # as) = hits arg m as" using t by (simp add: hits_def)
    then show ?thesis using Cons.IH [OF Cons.prems(1), of ret] Cons.prems(2,3) t False by simp
  qed
qed

lemma thread_cancel_event_spec:
  assumes s: "sched_inv m"
  shows "\<exists>m'. thread_cancel_event arg m = Some (length (hits arg m (tm_event m @ tm_ready m)), m') \<and> sched_inv m' \<and>
    tm_mem m' = retype THREAD_UNUSED (set (hits arg m (tm_event m @ tm_ready m))) (tm_mem m)"
proof -
  let ?h = "hits arg m (tm_event m)"
  obtain m1 where m1: "cancel_events arg (tm_event m) (0, m) = Some (length ?h, m1)" "sched_inv m1"
    "m1 = m\<lparr>tm_mem := retype THREAD_UNUSED (set ?h) (tm_mem m), tm_event := filter (\<lambda>x. x \<notin> set ?h) (tm_event m), tm_unuse := tm_unuse m @ ?h\<rparr>"
    using cancel_events_spec [OF s subset_refl list_member(3) [OF s], of arg 0] by auto
  have "set ?h \<inter> set (tm_ready m) = {}" using list_member(1,2) [OF s] by (fastforce simp: hits_def)
  then have h: "hits arg m1 (tm_ready m1) = hits arg m (tm_ready m)" unfolding m1(3) by (simp, intro hits_cong) (auto simp: retype_def)
  have "hits arg m (tm_event m @ tm_ready m) = ?h @ hits arg m (tm_ready m)" by (simp add: hits_def)
  then show ?thesis
    using cancel_ready_spec [OF m1(2) subset_refl list_member(4) [OF m1(2)], of arg "length ?h"] m1(1,3) h
    by (auto simp: thread_cancel_event_def Un_commute)
qed

end
