(* ===== verification/Thread_Fetch.thy ===== *)
theory Thread_Fetch
  imports Thread
begin

text \<open>
  What a turn of the scheduler of \<^verbatim>\<open>lib/thread.c\<close> does: events, due timers and descriptors become ready, in this order, and
  \<^verbatim>\<open>thread_fetch\<close> takes the first ready thread.  The states of a daemon are the closure of the operations; every one
  satisfies the invariant of theory \<open>Thread\<close>, so cancelling, fetching and stopping never fail.
\<close>

section \<open>Making threads ready\<close>

lemma process_event_step:
  assumes s: "sched_inv m" and a: "a \<in> set (tm_event m)"
  shows "\<exists>m'. thread_list_delete (tm_event m) a = Some (remove1 a (tm_event m)) \<and>
    make_ready a (m\<lparr>tm_event := remove1 a (tm_event m)\<rparr>) = Some m' \<and> sched_inv m' \<and>
    m' = m\<lparr>tm_mem := retype THREAD_READY {a} (tm_mem m), tm_event := remove1 a (tm_event m), tm_ready := tm_ready m @ [a]\<rparr>"
proof -
  obtain t where t: "tm_mem m a = Some t" "th_type t = THREAD_EVENT" using list_member(1) [OF s a] by blast
  have "sched_but {a} (m\<lparr>tm_event := remove1 a (tm_event m)\<rparr>)" using sched_leave(1) [OF s t] by simp
  from make_ready_at [OF this] show ?thesis using t a by (simp add: thread_list_delete_def)
qed

lemma process_events_spec:
  assumes "sched_inv m" "tm_event m = as"
  shows "\<exists>m'. process_events as ready m = Some (ready + length as, m') \<and> sched_inv m' \<and>
    m' = m\<lparr>tm_mem := retype THREAD_READY (set as) (tm_mem m), tm_event := [], tm_ready := tm_ready m @ as\<rparr>"
  using assms
proof (induction as arbitrary: ready m)
  case Nil
  then show ?case by simp
next
  case (Cons a as)
  let ?m1 = "m\<lparr>tm_mem := retype THREAD_READY {a} (tm_mem m), tm_event := as, tm_ready := tm_ready m @ [a]\<rparr>"
  have st: "thread_list_delete (tm_event m) a = Some as" "make_ready a (m\<lparr>tm_event := as\<rparr>) = Some ?m1" "sched_inv ?m1"
    using process_event_step [OF Cons.prems(1), of a] Cons.prems(2) by auto
  have "process_events (a # as) ready m = process_events as (ready + 1) ?m1" using st(1,2) by simp
  then show ?case using Cons.IH [OF st(3), of "ready + 1"] by simp
qed

abbreviation sands :: "thread_master \<Rightarrow> nat \<Rightarrow> timeval" where
  "sands m a \<equiv> th_sands (the (tm_mem m a))"

lemma timeval_cmp_trans: "timeval_cmp x y < 0 \<Longrightarrow> timeval_cmp y z \<le> 0 \<Longrightarrow> timeval_cmp x z < 0"
  by (auto simp: timeval_cmp_def split: if_splits)

lemma thread_timer_cmp_le: "thread_timer_cmp mem a b \<le> 0 \<longleftrightarrow> timeval_cmp (th_sands (the (mem a))) (th_sands (the (mem b))) \<le> 0"
  by (auto simp: thread_timer_cmp_def Let_def)

lemma timer_member:
  assumes "sched_inv m"
  shows "a \<in># contents (tm_timer m) \<Longrightarrow> \<exists>t. tm_mem m a = Some t \<and> th_type t = THREAD_TIMER"
    "a \<in># contents (tm_background m) \<Longrightarrow> \<exists>t. tm_mem m a = Some t \<and> th_type t = THREAD_BACKGROUND"
    "queue_ok (tm_mem m) (tm_timer m)" "queue_ok (tm_mem m) (tm_background m)"
  using assms by (auto simp: sched_but_def queue_at_def typed_def)

text \<open>
  What a run over a timer queue does: \<open>as\<close> are the threads whose time has come, in the order of their times;
  the ones that stay are all in the future.
\<close>

definition popped :: "timeval \<Rightarrow> thread_master \<Rightarrow> nat multiset \<Rightarrow> nat list \<Rightarrow> nat multiset \<Rightarrow> bool" where
  "popped now m before as after \<longleftrightarrow> before = mset as + after \<and>
     sorted_wrt (\<lambda>a b. timeval_cmp (sands m a) (sands m b) \<le> 0) as \<and>
     (\<forall>a \<in> set as. timeval_cmp now (sands m a) \<ge> 0) \<and> (\<forall>b \<in># after. timeval_cmp now (sands m b) < 0)"

lemma popped_stop:
  assumes "\<forall>b \<in># before. timeval_cmp (sands m a) (sands m b) \<le> 0" "timeval_cmp now (sands m a) < 0"
  shows "popped now m before [] before"
  using assms timeval_cmp_trans by (auto simp: popped_def)

lemma popped_more:
  assumes "popped now m' before as after" "before' = add_mset a before" "\<forall>b \<in># before'. timeval_cmp (sands m a) (sands m b) \<le> 0"
    "\<not> timeval_cmp now (sands m a) < 0" "\<And>b. b \<in># before' \<Longrightarrow> sands m' b = sands m b"
  shows "popped now m before' (a # as) after"
proof -
  have b: "before = mset as + after" using assms(1) by (simp add: popped_def)
  then have mem: "x \<in># before'" if "x \<in> set as \<or> x \<in># after" for x using assms(2) that by auto
  have "sorted_wrt (\<lambda>a b. timeval_cmp (sands m a) (sands m b) \<le> 0) as"
    using assms(1) unfolding popped_def by (elim conjE sorted_wrt_mono_rel [rotated]) (use assms(5) mem in auto)
  then show ?thesis using assms b mem by (auto simp: popped_def)
qed

lemma queue_simps [simp]:
  "tm_mem (set_queue ty q m) = tm_mem m" "tm_ready (set_queue ty q m) = tm_ready m" "queue_of ty (set_queue ty q m) = q"
  "queue_of ty (m\<lparr>tm_mem := mem\<rparr>) = queue_of ty m" "queue_of ty (m\<lparr>tm_ready := l\<rparr>) = queue_of ty m"
  "(set_queue ty q m)\<lparr>tm_mem := mem\<rparr> = set_queue ty q (m\<lparr>tm_mem := mem\<rparr>)"
  "(set_queue ty q m)\<lparr>tm_ready := l\<rparr> = set_queue ty q (m\<lparr>tm_ready := l\<rparr>)"
  "set_queue ty q (set_queue ty q' m) = set_queue ty q m" "set_queue ty (queue_of ty m) m = m"
  by (simp_all add: queue_of_def set_queue_def)

lemma queue_member:
  assumes "sched_inv m" "ty = THREAD_TIMER \<or> ty = THREAD_BACKGROUND"
  shows "a \<in># contents (queue_of ty m) \<Longrightarrow> \<exists>t. tm_mem m a = Some t \<and> th_type t = ty" "queue_ok (tm_mem m) (queue_of ty m)"
  using assms timer_member [OF assms(1)] by (auto simp: queue_of_def)

lemma queue_pop:
  assumes "sched_inv m" "ty = THREAD_TIMER \<or> ty = THREAD_BACKGROUND" "tm_mem m a = Some t" "th_type t = ty"
    "queue_ok (tm_mem m) q" "contents (queue_of ty m) = add_mset a (contents q)"
  shows "\<exists>m1. make_ready a (set_queue ty q m) = Some m1 \<and> sched_inv m1 \<and>
    m1 = set_queue ty q (m\<lparr>tm_mem := retype THREAD_READY {a} (tm_mem m), tm_ready := tm_ready m @ [a]\<rparr>)"
proof -
  have "sched_but {a} (set_queue ty q m)"
    using assms sched_leave(6,7) [OF assms(1,3,4) _ assms(5)] by (auto simp: set_queue_def queue_of_def)
  from make_ready_at [OF this] show ?thesis using assms(3) by simp
qed

lemma thread_timer_process_spec:
  assumes "sched_inv m" and ty: "ty = THREAD_TIMER \<or> ty = THREAD_BACKGROUND"
  shows "\<exists>as m'. thread_timer_process ty now ready m = Some (ready + length as, m') \<and> sched_inv m' \<and>
    popped now m (contents (queue_of ty m)) as (contents (queue_of ty m')) \<and>
    m' = set_queue ty (queue_of ty m') (m\<lparr>tm_mem := retype THREAD_READY (set as) (tm_mem m), tm_ready := tm_ready m @ as\<rparr>)"
  using assms(1)
proof (induction "size (contents (queue_of ty m))" arbitrary: ready m)
  case 0
  then have e: "contents (queue_of ty m) = {#}" by simp
  have "pqueue_first (queue_of ty m) = None" using queue_first_in [OF queue_member(2) [OF 0(2) ty]] e by (cases "pqueue_first (queue_of ty m)") auto
  then show ?case using 0 e by (intro exI [of _ "[]"] exI [of _ m]) (simp add: thread_timer_process.simps popped_def)
next
  case (Suc n)
  let ?q = "queue_of ty m"
  have ok: "queue_ok (tm_mem m) ?q" by (rule queue_member(2) [OF Suc.prems ty])
  obtain a where f: "pqueue_first ?q = Some a" using queue_first_None [OF ok] Suc.hyps(2) by (cases "pqueue_first ?q") auto
  have a: "a \<in># contents ?q" by (rule queue_first_in [OF ok f])
  obtain t where t: "tm_mem m a = Some t" "th_type t = ty" using queue_member(1) [OF Suc.prems ty a] by blast
  obtain q where q: "pqueue_dequeue (thread_timer_cmp (tm_mem m)) ?q = Some (a, q)" "queue_ok (tm_mem m) q" "contents ?q = add_mset a (contents q)"
    "\<forall>b \<in># contents ?q. timeval_cmp (sands m a) (sands m b) \<le> 0"
    using queue_dequeue_spec [OF ok f] unfolding thread_timer_cmp_le by blast
  show ?case
  proof (cases "timeval_cmp now (sands m a) < 0")
    case True
    then show ?thesis using popped_stop [OF q(4) True] f t Suc.prems by (intro exI [of _ "[]"] exI [of _ m]) (simp add: thread_timer_process.simps)
  next
    case False
    obtain m1 where m1: "make_ready a (set_queue ty q m) = Some m1" "sched_inv m1"
      "m1 = set_queue ty q (m\<lparr>tm_mem := retype THREAD_READY {a} (tm_mem m), tm_ready := tm_ready m @ [a]\<rparr>)"
      using queue_pop [OF Suc.prems ty t q(2,3)] by blast
    have "n = size (contents (queue_of ty m1))" using Suc.hyps(2) q(3) m1(3) by simp
    from Suc.hyps(1) [OF this m1(2), of "ready + 1"] obtain as m' where m': "thread_timer_process ty now (ready + 1) m1 = Some (ready + 1 + length as, m')"
      "sched_inv m'" "popped now m1 (contents (queue_of ty m1)) as (contents (queue_of ty m'))"
      "m' = set_queue ty (queue_of ty m') (m1\<lparr>tm_mem := retype THREAD_READY (set as) (tm_mem m1), tm_ready := tm_ready m1 @ as\<rparr>)" by blast
    have "sands m1 b = sands m b" if "b \<in># contents ?q" for b using queue_member(1) [OF Suc.prems ty that] m1(3) by auto
    then have "popped now m (contents ?q) (a # as) (contents (queue_of ty m'))"
      using popped_more [OF m'(3) _ q(4) False] q(3) m1(3) by simp
    moreover have "thread_timer_process ty now ready m = Some (ready + length (a # as), m')"
      using f t False q(1) m1(1) m'(1) by (simp add: thread_timer_process.simps [of ty now ready])
    ultimately show ?thesis using m'(2) m'(4) unfolding m1(3) by (intro exI [of _ "a # as"] exI [of _ m']) simp
  qed
qed

text \<open>\<open>as\<close> were made ready; nothing else but the arrays of descriptors changed.\<close>

definition moved :: "nat list \<Rightarrow> thread_master \<Rightarrow> thread_master \<Rightarrow> bool" where
  "moved as m m' \<longleftrightarrow> tm_ready m' = tm_ready m @ as \<and> tm_mem m' = retype THREAD_READY (set as) (tm_mem m) \<and> tm_timer m' = tm_timer m \<and>
     tm_background m' = tm_background m \<and> tm_event m' = tm_event m \<and> tm_unuse m' = tm_unuse m \<and> fd_limit m' = fd_limit m"

lemma moved_none [simp]: "moved [] m m"
  by (simp add: moved_def)

lemma moved_trans: "moved as m m1 \<Longrightarrow> moved bs m1 m' \<Longrightarrow> moved (as @ bs) m m'"
  by (simp add: moved_def Un_commute)

lemma array_member:
  assumes "sched_inv m"
  shows "tm_read m i = Some a \<longleftrightarrow> (\<exists>t. tm_mem m a = Some t \<and> th_type t = THREAD_READ \<and> th_fd t = i)"
    "tm_write m i = Some a \<longleftrightarrow> (\<exists>t. tm_mem m a = Some t \<and> th_type t = THREAD_WRITE \<and> th_fd t = i)"
    "tm_readfd m = dom (tm_read m)" "tm_writefd m = dom (tm_write m)" "i \<in> dom (tm_read m) \<Longrightarrow> i < fd_limit m" "i \<in> dom (tm_write m) \<Longrightarrow> i < fd_limit m"
  using assms by (auto simp: sched_but_def array_at_def)

definition io_hits :: "thread_master \<Rightarrow> nat set \<Rightarrow> nat set \<Rightarrow> nat set" where
  "io_hits m rset wset = {a. (\<exists>i \<in> rset. tm_read m i = Some a) \<or> (\<exists>i \<in> wset. tm_write m i = Some a)}"

lemma helper_read:
  assumes s: "sched_inv m"
  shows "\<exists>as m'. thread_process_fds_helper (tm_read m i) rset m = Some (length as, m') \<and> sched_inv m' \<and> moved as m m' \<and>
    (i \<in> rset \<longrightarrow> tm_read m' i = None) \<and> (\<forall>j. j \<noteq> i \<longrightarrow> tm_read m' j = tm_read m j) \<and> tm_write m' = tm_write m \<and> set as \<subseteq> io_hits m rset {}"
proof (cases "\<exists>a. tm_read m i = Some a \<and> i \<in> rset")
  case True
  then obtain a where a: "tm_read m i = Some a" "i \<in> rset" by blast
  then obtain t where t: "tm_mem m a = Some t" "th_type t = THREAD_READ" and fd: "th_fd t = i" using array_member(1) [OF s] by blast
  let ?m1 = "m\<lparr>tm_readfd := tm_readfd m - {i}, tm_read := (tm_read m)(i := None)\<rparr>"
  have "sched_but {a} ?m1" using sched_leave(4) [OF s t refl] fd by simp
  from make_ready_at [OF this] obtain m' where m': "make_ready a ?m1 = Some m'" "sched_inv m'"
    "m' = ?m1\<lparr>tm_mem := retype THREAD_READY {a} (tm_mem m), tm_ready := tm_ready m @ [a]\<rparr>" using t by auto
  have "thread_process_fds_helper (tm_read m i) rset m = Some (length [a], m')"
    using a t fd m'(1) by (simp add: thread_process_fds_helper_def thread_delete_fd_def)
  then show ?thesis using m'(2) a by (intro exI [of _ "[a]"] exI [of _ m']) (auto simp: moved_def m'(3) io_hits_def)
next
  case False
  have "thread_process_fds_helper (tm_read m i) rset m = Some (0, m)"
  proof (cases "tm_read m i")
    case None
    then show ?thesis by (simp add: thread_process_fds_helper_def)
  next
    case (Some a)
    then obtain t where t: "tm_mem m a = Some t" "th_fd t = i" using array_member(1) [OF s] by blast
    then show ?thesis using Some False by (simp add: thread_process_fds_helper_def)
  qed
  then show ?thesis using s False by (intro exI [of _ "[]"] exI [of _ m]) auto
qed

lemma helper_write:
  assumes s: "sched_inv m"
  shows "\<exists>as m'. thread_process_fds_helper (tm_write m i) wset m = Some (length as, m') \<and> sched_inv m' \<and> moved as m m' \<and>
    (i \<in> wset \<longrightarrow> tm_write m' i = None) \<and> (\<forall>j. j \<noteq> i \<longrightarrow> tm_write m' j = tm_write m j) \<and> tm_read m' = tm_read m \<and> set as \<subseteq> io_hits m {} wset"
proof (cases "\<exists>a. tm_write m i = Some a \<and> i \<in> wset")
  case True
  then obtain a where a: "tm_write m i = Some a" "i \<in> wset" by blast
  then obtain t where t: "tm_mem m a = Some t" "th_type t = THREAD_WRITE" and fd: "th_fd t = i" using array_member(2) [OF s] by blast
  let ?m1 = "m\<lparr>tm_writefd := tm_writefd m - {i}, tm_write := (tm_write m)(i := None)\<rparr>"
  have "sched_but {a} ?m1" using sched_leave(5) [OF s t refl] fd by simp
  from make_ready_at [OF this] obtain m' where m': "make_ready a ?m1 = Some m'" "sched_inv m'"
    "m' = ?m1\<lparr>tm_mem := retype THREAD_READY {a} (tm_mem m), tm_ready := tm_ready m @ [a]\<rparr>" using t by auto
  have "thread_process_fds_helper (tm_write m i) wset m = Some (length [a], m')"
    using a t fd m'(1) by (simp add: thread_process_fds_helper_def thread_delete_fd_def)
  then show ?thesis using m'(2) a by (intro exI [of _ "[a]"] exI [of _ m']) (auto simp: moved_def m'(3) io_hits_def)
next
  case False
  have "thread_process_fds_helper (tm_write m i) wset m = Some (0, m)"
  proof (cases "tm_write m i")
    case None
    then show ?thesis by (simp add: thread_process_fds_helper_def)
  next
    case (Some a)
    then obtain t where t: "tm_mem m a = Some t" "th_fd t = i" using array_member(2) [OF s] by blast
    then show ?thesis using Some False by (simp add: thread_process_fds_helper_def)
  qed
  then show ?thesis using s False by (intro exI [of _ "[]"] exI [of _ m]) auto
qed

definition clear_between :: "nat \<Rightarrow> nat \<Rightarrow> nat set \<Rightarrow> nat set \<Rightarrow> thread_master \<Rightarrow> bool" where
  "clear_between lo hi rset wset m \<longleftrightarrow> (\<forall>i. lo \<le> i \<and> i < hi \<longrightarrow> (i \<in> rset \<longrightarrow> tm_read m i = None) \<and> (i \<in> wset \<longrightarrow> tm_write m i = None))"

lemma process_fds_loop_spec:
  assumes "sched_inv m"
  shows "\<exists>as m'. process_fds_loop limit index ready rset wset num m = Some (ready + length as, m') \<and> sched_inv m' \<and> moved as m m' \<and>
    (ready + length as < num \<longrightarrow> clear_between index limit rset wset m') \<and>
    (\<forall>j < index. tm_read m' j = tm_read m j \<and> tm_write m' j = tm_write m j) \<and> set as \<subseteq> io_hits m rset wset"
  using assms
proof (induction "limit - index" arbitrary: index ready m)
  case 0
  then show ?case by (intro exI [of _ "[]"] exI [of _ m]) (auto simp: process_fds_loop.simps [of limit index] clear_between_def)
next
  case (Suc n)
  show ?case
  proof (cases "ready < num")
    case False
    then show ?thesis using Suc.prems by (intro exI [of _ "[]"] exI [of _ m]) (simp add: process_fds_loop.simps [of limit index])
  next
    case True
    obtain a1 m1 where h1: "thread_process_fds_helper (tm_read m index) rset m = Some (length a1, m1)" "sched_inv m1" "moved a1 m m1"
      "index \<in> rset \<longrightarrow> tm_read m1 index = None" "\<forall>j. j \<noteq> index \<longrightarrow> tm_read m1 j = tm_read m j" "tm_write m1 = tm_write m" "set a1 \<subseteq> io_hits m rset {}"
      using helper_read [OF Suc.prems] by blast
    obtain a2 m2 where h2: "thread_process_fds_helper (tm_write m1 index) wset m1 = Some (length a2, m2)" "sched_inv m2" "moved a2 m1 m2"
      "index \<in> wset \<longrightarrow> tm_write m2 index = None" "\<forall>j. j \<noteq> index \<longrightarrow> tm_write m2 j = tm_write m1 j" "tm_read m2 = tm_read m1" "set a2 \<subseteq> io_hits m1 {} wset"
      using helper_write [OF h1(2)] by blast
    have n: "n = limit - (index + 1)" using Suc.hyps(2) by simp
    obtain as m' where l: "process_fds_loop limit (index + 1) (ready + length a1 + length a2) rset wset num m2 = Some (ready + length a1 + length a2 + length as, m')"
      "sched_inv m'" "moved as m2 m'" "ready + length a1 + length a2 + length as < num \<longrightarrow> clear_between (index + 1) limit rset wset m'"
      "\<forall>j < index + 1. tm_read m' j = tm_read m2 j \<and> tm_write m' j = tm_write m2 j" "set as \<subseteq> io_hits m2 rset wset"
      using Suc.hyps(1) [OF n h2(2)] by blast
    have "moved ((a1 @ a2) @ as) m m'" by (rule moved_trans [OF moved_trans [OF h1(3) h2(3)] l(3)])
    moreover have "io_hits m1 {} wset \<subseteq> io_hits m rset wset" "io_hits m rset {} \<subseteq> io_hits m rset wset" using h1(6) by (auto simp: io_hits_def)
    moreover have "io_hits m2 rset wset \<subseteq> io_hits m rset wset"
    proof -
      have "tm_read m2 j = Some x \<Longrightarrow> j \<in> rset \<Longrightarrow> tm_read m j = Some x" "tm_write m2 j = Some x \<Longrightarrow> j \<in> wset \<Longrightarrow> tm_write m j = Some x" for j x
        using h1(4-6) h2(4-6) by (cases "j = index"; simp)+
      then show ?thesis unfolding io_hits_def by blast
    qed
    moreover have "clear_between index limit rset wset m'" if "clear_between (index + 1) limit rset wset m'"
      using that l(5) h1(4) h2(4,6) unfolding clear_between_def by (metis Suc_eq_plus1 Suc_leI le_neq_implies_less lessI)
    ultimately show ?thesis using True Suc.hyps(2) h1 h2 l
      by (intro exI [of _ "(a1 @ a2) @ as"] exI [of _ m']) (auto simp: process_fds_loop.simps [of limit index] add.assoc)
  qed
qed

text \<open>
  With the number that \<^verbatim>\<open>select\<close> returns, the count of the descriptors in its two results, every thread of such a
  descriptor is made ready.
\<close>

lemma card_io_hits:
  assumes s: "sched_inv m"
  shows "finite (io_hits m rset wset)" "card (io_hits m rset wset) \<le> card (rset \<inter> tm_readfd m) + card (wset \<inter> tm_writefd m)"
proof -
  have "tm_readfd m \<subseteq> {..<fd_limit m}" "tm_writefd m \<subseteq> {..<fd_limit m}" unfolding array_member(3,4) [OF s] using array_member(5,6) [OF s] by blast+
  then have fin: "finite (rset \<inter> tm_readfd m)" "finite (wset \<inter> tm_writefd m)" by (auto dest: finite_subset)
  have eq: "io_hits m rset wset = (the \<circ> tm_read m) ` (rset \<inter> tm_readfd m) \<union> (the \<circ> tm_write m) ` (wset \<inter> tm_writefd m)"
    unfolding io_hits_def array_member(3,4) [OF s] by (auto simp: image_iff) (metis IntI domI option.sel)+
  show "finite (io_hits m rset wset)" unfolding eq using fin by simp
  show "card (io_hits m rset wset) \<le> card (rset \<inter> tm_readfd m) + card (wset \<inter> tm_writefd m)"
    unfolding eq by (rule order_trans [OF card_Un_le add_mono]) (auto intro!: card_image_le fin)
qed

lemma moved_clear:
  assumes s: "sched_inv m" and s': "sched_inv m'" and mv: "moved as m m'" and c: "clear_between 0 (fd_limit m) rset wset m'"
  shows "io_hits m rset wset \<subseteq> set as"
proof
  fix a
  assume "a \<in> io_hits m rset wset"
  then obtain i where i: "i \<in> rset \<and> tm_read m i = Some a \<or> i \<in> wset \<and> tm_write m i = Some a" by (auto simp: io_hits_def)
  then have "i < fd_limit m" using array_member(5,6) [OF s] by blast
  then have n: "i \<in> rset \<longrightarrow> tm_read m' i = None" "i \<in> wset \<longrightarrow> tm_write m' i = None" using c by (simp_all add: clear_between_def)
  show "a \<in> set as"
  proof (rule ccontr)
    assume "a \<notin> set as"
    then have "tm_mem m' a = tm_mem m a" using mv by (simp add: moved_def)
    then show False using i n array_member(1,2) [OF s] array_member(1,2) [OF s'] by (metis option.distinct(1))
  qed
qed

lemma thread_process_fds_spec:
  assumes s: "sched_inv m"
  shows "\<exists>as m'. thread_process_fds rset wset num m = Some (int num - int (length as), m') \<and> sched_inv m' \<and> moved as m m' \<and>
    set as \<subseteq> io_hits m rset wset \<and>
    (num = card (rset \<inter> tm_readfd m) + card (wset \<inter> tm_writefd m) \<longrightarrow> set as = io_hits m rset wset)"
proof -
  obtain as m' where l: "process_fds_loop (fd_limit m) 0 0 rset wset num m = Some (length as, m')" "sched_inv m'" "moved as m m'"
    "length as < num \<longrightarrow> clear_between 0 (fd_limit m) rset wset m'" "set as \<subseteq> io_hits m rset wset"
    using process_fds_loop_spec [OF s, of "fd_limit m" 0 0 rset wset num] by auto
  have d: "distinct as" using list_member(4) [OF l(2)] l(3) by (simp add: moved_def)
  have "set as = io_hits m rset wset" if num: "num = card (rset \<inter> tm_readfd m) + card (wset \<inter> tm_writefd m)"
  proof (cases "length as < num")
    case True
    then show ?thesis using moved_clear [OF s l(2,3)] l(4,5) by blast
  next
    case False
    then have "card (io_hits m rset wset) \<le> card (set as)" using card_io_hits(2) [OF s, of rset wset] num distinct_card [OF d] by linarith
    then show ?thesis using card_seteq [OF card_io_hits(1) [OF s] l(5)] by simp
  qed
  then show ?thesis using l by (intro exI [of _ as] exI [of _ m']) (simp add: thread_process_fds_def)
qed

section \<open>Fetching\<close>

lemma run_ready:
  assumes s: "sched_inv m" and r: "tm_ready m = a # rest"
  shows "thread_trim_head (tm_ready m) = Some (a, rest)"
    "\<exists>t m'. tm_mem m a = Some t \<and> th_type t = THREAD_READY \<and> thread_run a (m\<lparr>tm_ready := rest\<rparr>) = Some (t, m') \<and> sched_inv m' \<and>
      m' = m\<lparr>tm_ready := rest, tm_mem := retype THREAD_UNUSED {a} (tm_mem m), tm_unuse := tm_unuse m @ [a]\<rparr>"
proof -
  show "thread_trim_head (tm_ready m) = Some (a, rest)" using r by (simp add: thread_trim_head_def thread_list_delete_def)
  obtain t where t: "tm_mem m a = Some t" "th_type t = THREAD_READY" using list_member(2) [OF s, of a] r by auto
  have "sched_but {a} (m\<lparr>tm_ready := rest\<rparr>)" using sched_leave(2) [OF s t] r by simp
  from thread_unused_at [OF this] t show "\<exists>t m'. tm_mem m a = Some t \<and> th_type t = THREAD_READY \<and> thread_run a (m\<lparr>tm_ready := rest\<rparr>) = Some (t, m') \<and> sched_inv m' \<and>
      m' = m\<lparr>tm_ready := rest, tm_mem := retype THREAD_UNUSED {a} (tm_mem m), tm_unuse := tm_unuse m @ [a]\<rparr>"
    by (auto simp: thread_run_def)
qed

lemma trim_head_Nil [simp]: "thread_trim_head [] = None"
  by (simp add: thread_trim_head_def)

definition due :: "thread_type \<Rightarrow> timeval \<Rightarrow> thread_master \<Rightarrow> nat set" where
  "due ty now m = {a. \<exists>t. tm_mem m a = Some t \<and> th_type t = ty \<and> timeval_cmp now (th_sands t) \<ge> 0}"

text \<open>The due threads of a type, each once, in the order of their times.\<close>

definition due_order :: "thread_type \<Rightarrow> timeval \<Rightarrow> thread_master \<Rightarrow> nat list \<Rightarrow> bool" where
  "due_order ty now m as \<longleftrightarrow> distinct as \<and> set as = due ty now m \<and>
     sorted_wrt (\<lambda>a b. timeval_cmp (sands m a) (sands m b) \<le> 0) as"

lemma popped_due:
  assumes s: "sched_inv m" and ty: "ty = THREAD_TIMER \<or> ty = THREAD_BACKGROUND" and pop: "popped now m (contents (queue_of ty m)) as after"
  shows "due_order ty now m as"
proof -
  let ?M = "contents (queue_of ty m)"
  have M: "?M = mset as + after" using pop by (simp add: popped_def)
  have "once ?M" by (rule queue_once [OF queue_member(2) [OF s ty]])
  then have "count (mset as) x \<le> 1" for x unfolding M once_def by (metis count_union le_add1 le_trans)
  then have d: "distinct as" by (metis One_nat_def count_mset_0_iff distinct_count_atmost_1 le_neq_implies_less less_Suc0)
  have in_M: "a \<in># ?M \<longleftrightarrow> (\<exists>t. tm_mem m a = Some t \<and> th_type t = ty)" for a
    using s ty by (auto simp: sched_but_def queue_at_def typed_def queue_of_def)
  have "a \<in> set as \<longleftrightarrow> a \<in> due ty now m" for a
  proof
    assume a: "a \<in> set as"
    then have "timeval_cmp now (sands m a) \<ge> 0" "a \<in># ?M" using pop M by (auto simp: popped_def)
    then show "a \<in> due ty now m" using in_M by (auto simp: due_def)
  next
    assume a: "a \<in> due ty now m"
    then have "a \<in># ?M" "\<not> timeval_cmp now (sands m a) < 0" using in_M by (auto simp: due_def)
    then show "a \<in> set as" using pop M by (auto simp: popped_def)
  qed
  then show ?thesis using d pop by (auto simp: due_order_def popped_def)
qed

lemma due_cong:
  assumes "\<And>a t. tm_mem m' a = Some t \<and> th_type t = ty \<longleftrightarrow> tm_mem m a = Some t \<and> th_type t = ty"
  shows "due_order ty now m' as \<longleftrightarrow> due_order ty now m as"
proof -
  have d: "due ty now m' = due ty now m" unfolding due_def using assms by blast
  have "sands m' a = sands m a" if "a \<in> due ty now m" for a
  proof -
    obtain t where "tm_mem m a = Some t" "th_type t = ty" using \<open>a \<in> due ty now m\<close> by (auto simp: due_def)
    then show ?thesis using assms [of a t] by simp
  qed
  then have "sorted_wrt (\<lambda>a b. timeval_cmp (sands m' a) (sands m' b) \<le> 0) as \<longleftrightarrow> sorted_wrt (\<lambda>a b. timeval_cmp (sands m a) (sands m b) \<le> 0) as"
    if "set as = due ty now m" using that by (intro iffI; elim sorted_wrt_mono_rel [rotated]; auto)
  then show ?thesis unfolding due_order_def d by blast
qed

lemma retype_ready_other:
  assumes "ty \<noteq> THREAD_READY" "\<And>a t. a \<in> S \<Longrightarrow> mem a = Some t \<Longrightarrow> th_type t \<noteq> ty"
  shows "retype THREAD_READY S mem a = Some t \<and> th_type t = ty \<longleftrightarrow> mem a = Some t \<and> th_type t = ty"
  using assms by (auto simp: retype_def)

lemma io_hits_type:
  assumes "sched_inv m" "a \<in> io_hits m rset wset" "tm_mem m a = Some t"
  shows "th_type t = THREAD_READ \<or> th_type t = THREAD_WRITE"
  using assms array_member(1,2) [OF assms(1)] by (auto simp: io_hits_def)

lemma io_hits_cong:
  "tm_read m' = tm_read m \<Longrightarrow> tm_write m' = tm_write m \<Longrightarrow> io_hits m' rset wset = io_hits m rset wset"
  by (simp add: io_hits_def)

lemma process_fds_maybe:
  assumes s: "sched_inv m"
  shows "\<exists>r as m'. (if num > 0 then thread_process_fds rset wset num m else Some (0, m)) = Some (r, m') \<and> sched_inv m' \<and> moved as m m' \<and>
    set as \<subseteq> io_hits m rset wset \<and>
    (num = card (rset \<inter> tm_readfd m) + card (wset \<inter> tm_writefd m) \<longrightarrow> set as = io_hits m rset wset)"
proof (cases "num > 0")
  case True
  then show ?thesis using thread_process_fds_spec [OF s, of rset wset num] by auto
next
  case False
  then show ?thesis using s card_io_hits [OF s, of rset wset] by (intro exI [of _ 0] exI [of _ "[]"] exI [of _ m]) auto
qed

lemma serve_spec:
  assumes s: "sched_inv m"
  shows "\<exists>ts ios bgs m'. serve now num rset wset m = Some m' \<and> sched_inv m' \<and> tm_ready m' = tm_ready m @ ts @ ios @ bgs \<and>
    tm_mem m' = retype THREAD_READY (set (ts @ ios @ bgs)) (tm_mem m) \<and>
    due_order THREAD_TIMER now m ts \<and> due_order THREAD_BACKGROUND now m bgs \<and> set ios \<subseteq> io_hits m rset wset \<and>
    (num = card (rset \<inter> tm_readfd m) + card (wset \<inter> tm_writefd m) \<longrightarrow> set ios = io_hits m rset wset)"
proof -
  obtain ts m1 where 1: "thread_timer_process THREAD_TIMER now 0 m = Some (length ts, m1)" "sched_inv m1"
    "popped now m (contents (queue_of THREAD_TIMER m)) ts (contents (queue_of THREAD_TIMER m1))"
    "m1 = set_queue THREAD_TIMER (queue_of THREAD_TIMER m1) (m\<lparr>tm_mem := retype THREAD_READY (set ts) (tm_mem m), tm_ready := tm_ready m @ ts\<rparr>)"
    using thread_timer_process_spec [OF s, of THREAD_TIMER now 0] by auto
  have ts: "due_order THREAD_TIMER now m ts" by (rule popped_due [OF s _ 1(3)]) simp
  have same1: "tm_read m1 = tm_read m" "tm_write m1 = tm_write m" "tm_readfd m1 = tm_readfd m" "tm_writefd m1 = tm_writefd m"
    "tm_ready m1 = tm_ready m @ ts" "tm_mem m1 = retype THREAD_READY (set ts) (tm_mem m)" by (subst 1(4); simp add: set_queue_def)+
  obtain r ios m2 where 2: "(if num > 0 then thread_process_fds rset wset num m1 else Some (0, m1)) = Some (r, m2)" "sched_inv m2" "moved ios m1 m2"
    "set ios \<subseteq> io_hits m rset wset" "num = card (rset \<inter> tm_readfd m) + card (wset \<inter> tm_writefd m) \<longrightarrow> set ios = io_hits m rset wset"
    using process_fds_maybe [OF 1(2), of num rset wset] io_hits_cong [OF same1(1,2)] same1(3,4) by auto
  obtain bgs m3 where 3: "thread_timer_process THREAD_BACKGROUND now 0 m2 = Some (length bgs, m3)" "sched_inv m3"
    "popped now m2 (contents (queue_of THREAD_BACKGROUND m2)) bgs (contents (queue_of THREAD_BACKGROUND m3))"
    "m3 = set_queue THREAD_BACKGROUND (queue_of THREAD_BACKGROUND m3) (m2\<lparr>tm_mem := retype THREAD_READY (set bgs) (tm_mem m2), tm_ready := tm_ready m2 @ bgs\<rparr>)"
    using thread_timer_process_spec [OF 2(2), of THREAD_BACKGROUND now 0] by auto
  have mem2: "tm_mem m2 = retype THREAD_READY (set ts \<union> set ios) (tm_mem m)" using 2(3) same1(6) by (simp add: moved_def Un_commute)
  have nb: "th_type t \<noteq> THREAD_BACKGROUND" if "a \<in> set ts \<union> set ios" "tm_mem m a = Some t" for a t
    using that ts io_hits_type [OF s _ that(2), of rset wset] 2(4) by (auto simp: due_order_def due_def)
  have "due_order THREAD_BACKGROUND now m2 bgs \<longleftrightarrow> due_order THREAD_BACKGROUND now m bgs"
    by (rule due_cong, unfold mem2, rule retype_ready_other) (simp, rule nb)
  then have "due_order THREAD_BACKGROUND now m bgs" using popped_due [OF 2(2) _ 3(3)] by simp
  moreover have "tm_ready m3 = tm_ready m @ ts @ ios @ bgs" "tm_mem m3 = retype THREAD_READY (set (ts @ ios @ bgs)) (tm_mem m)"
    using 2(3) same1(5,6) by (subst 3(4); simp add: moved_def Un_ac)+
  ultimately show ?thesis using 1(1) 2 3(1,2) ts by (intro exI [of _ ts] exI [of _ ios] exI [of _ bgs] exI [of _ m3]) (simp add: serve_def)
qed

lemma thread_process_spec:
  assumes "sched_inv m"
  shows "\<exists>m'. thread_process m = Some (length (tm_event m), m') \<and> sched_inv m' \<and>
    m' = m\<lparr>tm_mem := retype THREAD_READY (set (tm_event m)) (tm_mem m), tm_event := [], tm_ready := tm_ready m @ tm_event m\<rparr>"
  using process_events_spec [OF assms refl, of 0] by (auto simp: thread_process_def)

fun fetch_state :: "fetch_result \<Rightarrow> thread_master" where
  "fetch_state (Fetched t m) = m"
| "fetch_state (Fetch_error m) = m"
| "fetch_state (Fetch_waiting m) = m"

text \<open>A result is good if the master satisfies the invariant and a fetched thread was ready.\<close>

definition good_fetch :: "fetch_result \<Rightarrow> bool" where
  "good_fetch r \<longleftrightarrow> sched_inv (fetch_state r) \<and> (\<forall>t m. r = Fetched t m \<longrightarrow> th_type t = THREAD_READY)"

lemma good_fetch_simps [simp]:
  "good_fetch (Fetched t m) \<longleftrightarrow> sched_inv m \<and> th_type t = THREAD_READY" "good_fetch (Fetch_error m) \<longleftrightarrow> sched_inv m"
  "good_fetch (Fetch_waiting m) \<longleftrightarrow> sched_inv m"
  by (auto simp: good_fetch_def)

lemma fetch_turns_good:
  assumes "sched_inv m" "\<forall>e \<in> set turns. \<forall>x. sched_inv x \<longrightarrow> sched_inv (sigevent e x)"
  shows "\<exists>ws r. fetch_turns turns w m = Some (ws, r) \<and> good_fetch r"
  using assms
proof (induction turns arbitrary: w m)
  case Nil
  then show ?case by simp
next
  case (Cons e es)
  let ?m = "sigevent e m"
  have s: "sched_inv ?m" using Cons.prems by simp
  have ih: "\<exists>ws r. fetch_turns es w' x = Some (ws, r) \<and> good_fetch r" if "sched_inv x" for w' x
    using Cons.IH [OF that] Cons.prems(2) by simp
  show ?case
  proof (cases "tm_ready ?m")
    case (Cons a rest)
    then show ?thesis using run_ready [OF s Cons] by (auto simp: Let_def)
  next
    case Nil
    obtain m1 where m1: "thread_process ?m = Some (length (tm_event ?m), m1)" "sched_inv m1" using thread_process_spec [OF s] by blast
    let ?w = "select_wait (time_before e) w m1"
    show ?thesis
    proof (cases "selected e")
      case (Select_fds num rset wset)
      obtain m2 where m2: "serve (time_after e) num rset wset m1 = Some m2" "sched_inv m2" using serve_spec [OF m1(2)] by blast
      show ?thesis
      proof (cases "tm_ready m2")
        case Nil2: Nil
        then show ?thesis using ih [OF m2(2), of "map_option (\<lambda>_. time_left e) ?w"] Nil Select_fds m1 m2 by (auto simp: Let_def)
      next
        case (Cons a rest)
        then show ?thesis using run_ready [OF m2(2) Cons] Nil Select_fds m1 m2 by (auto simp: Let_def)
      qed
    next
      case Select_EINTR
      then show ?thesis using ih [OF m1(2), of "map_option (\<lambda>_. time_left e) ?w"] Nil m1 by (auto simp: Let_def)
    next
      case Select_error
      then show ?thesis using Nil m1 by (auto simp: Let_def)
    qed
  qed
qed

section \<open>Reachable schedulers\<close>

lemma sched_inv_create: "sched_inv (thread_master_create limit)"
proof -
  let ?q = "(pqueue_create 0)\<lparr>pq_update := True\<rparr>"
  have "queue_ok Map.empty ?q" "contents ?q = {#}"
    by (simp_all add: queue_ok_def tq.pq_ok_def tq.heap_def pqueue_create_def pos_ok_def contents_def once_def)
  then show ?thesis
    by (simp add: thread_master_create_def sched_but_def store_ok_def queue_at_def list_at_def array_at_def typed_def)
qed

text \<open>
  The states of a daemon.  A fetch that is still waiting is one too, so what the signal handlers call while it
  waits is covered; the argument \<open>wait\<close> stands for the rest of that fetch.
\<close>

inductive sched_reach :: "thread_master \<Rightarrow> bool" where
  create: "sched_reach (thread_master_create limit)"
| add_read: "sched_reach m \<Longrightarrow> funcname_thread_add_read func arg fd m = Some (r, m') \<Longrightarrow> sched_reach m'"
| add_write: "sched_reach m \<Longrightarrow> funcname_thread_add_write func arg fd m = Some (r, m') \<Longrightarrow> sched_reach m'"
| add_timer: "sched_reach m \<Longrightarrow> funcname_thread_add_timer now func arg timer m = Some (a, m') \<Longrightarrow> sched_reach m'"
| add_timer_msec: "sched_reach m \<Longrightarrow> funcname_thread_add_timer_msec now func arg timer m = Some (a, m') \<Longrightarrow> sched_reach m'"
| add_timer_tv: "sched_reach m \<Longrightarrow> funcname_thread_add_timer_tv now func arg tv m = Some (a, m') \<Longrightarrow> sched_reach m'"
| add_background: "sched_reach m \<Longrightarrow> funcname_thread_add_background now func arg delay m = Some (a, m') \<Longrightarrow> sched_reach m'"
| add_event: "sched_reach m \<Longrightarrow> funcname_thread_add_event func arg val m = Some (a, m') \<Longrightarrow> sched_reach m'"
| cancel: "sched_reach m \<Longrightarrow> thread_cancel a m = Some m' \<Longrightarrow> sched_reach m'"
| cancel_event: "sched_reach m \<Longrightarrow> thread_cancel_event arg m = Some (n, m') \<Longrightarrow> sched_reach m'"
| fetch: "sched_reach m \<Longrightarrow> \<forall>e \<in> set turns. sigevent e = id \<Longrightarrow> fetch_turns turns wait m = Some (ws, r) \<Longrightarrow> sched_reach (fetch_state r)"

lemma add_read_write_inv:
  assumes s: "sched_inv m" and dir: "dir = THREAD_READ \<or> dir = THREAD_WRITE" and r: "funcname_thread_add_read_write dir func arg fd m = Some (r, m')"
  shows "sched_inv m'"
proof (cases "fd \<in> (if dir = THREAD_READ then tm_readfd m else tm_writefd m)")
  case True
  then show ?thesis using s r by (auto simp: funcname_thread_add_read_write_def split: if_splits)
next
  case False
  have "fd < fd_limit m" "fd < FD_SETSIZE" using r by (auto simp: funcname_thread_add_read_write_def split: if_splits)
  from add_read_write_spec [OF s dir this False, of func arg] r show ?thesis by auto
qed

lemma add_timer_inv:
  assumes "sched_inv m" "type = THREAD_TIMER \<or> type = THREAD_BACKGROUND" "funcname_thread_add_timer_timeval now func type arg rel m = Some (a, m')"
  shows "sched_inv m'"
  using add_timer_spec [OF assms(1,2), of now func arg rel] assms(3) by auto

lemmas add_defs = funcname_thread_add_read_def funcname_thread_add_write_def funcname_thread_add_timer_def
  funcname_thread_add_timer_msec_def funcname_thread_add_timer_tv_def funcname_thread_add_background_def

lemma sched_reach_inv: "sched_reach m \<Longrightarrow> sched_inv m"
proof (induction rule: sched_reach.induct)
  case (create limit)
  show ?case by (rule sched_inv_create)
next
  case (add_event m func arg val a m')
  then show ?case using add_event_spec [OF add_event.IH, of func arg val] by auto
next
  case (cancel m a m')
  then obtain t where "tm_mem m a = Some t" by (auto simp: thread_cancel_def bind_eq_Some_conv)
  then show ?case using thread_cancel_spec [OF cancel.IH] cancel.hyps(2) by fastforce
next
  case (cancel_event m arg n m')
  then show ?case using thread_cancel_event_spec [OF cancel_event.IH, of arg] by auto
next
  case (fetch m turns wait ws r)
  then show ?case using fetch_turns_good [OF fetch.IH, of turns wait] by (auto simp: good_fetch_def)
qed (auto simp: add_defs intro: add_read_write_inv add_timer_inv)

section \<open>Freeing\<close>

definition freeable :: "thread_master \<Rightarrow> nat list \<Rightarrow> bool" where
  "freeable m as \<longleftrightarrow> distinct as \<and> dom (tm_mem m) = set as \<and> tm_alloc m = length as"

lemma list_free_spec:
  assumes "freeable m (as @ bs)"
  shows "\<exists>m'. thread_list_free as m = Some m' \<and> freeable m' bs \<and> fd_limit m' = fd_limit m"
  using assms
proof (induction as arbitrary: m)
  case Nil
  then show ?case by simp
next
  case (Cons a as)
  obtain t where t: "tm_mem m a = Some t" using Cons.prems by (force simp: freeable_def)
  then obtain m1 where m1: "thread_free a m = Some m1" "tm_mem m1 = (tm_mem m)(a := None)" "tm_alloc m1 = length (as @ bs)" "fd_limit m1 = fd_limit m"
    using Cons.prems by (auto simp: thread_free_def freeable_def)
  have "freeable m1 (as @ bs)" using Cons.prems m1 by (auto simp: freeable_def)
  then show ?case using Cons.IH m1 by fastforce
qed

lemma freeable_cong: "freeable (m\<lparr>tm_read := r\<rparr>) as \<longleftrightarrow> freeable m as" "freeable (m\<lparr>tm_write := r\<rparr>) as \<longleftrightarrow> freeable m as"
  by (simp_all add: freeable_def)

lemma typed_unique: "ty \<noteq> ty' \<Longrightarrow> {a. typed mem ty a} \<inter> {a. typed mem ty' a} = {}"
  by (auto simp: typed_def)

lemma array_list:
  assumes "array_at mem n arr fds ty {}"
  shows "distinct (List.map_filter arr [0..<n])" "set (List.map_filter arr [0..<n]) = {a. typed mem ty a}"
proof -
  have arr: "arr i = Some a \<longleftrightarrow> (\<exists>t. mem a = Some t \<and> th_type t = ty \<and> th_fd t = i)" and lim: "i \<in> dom arr \<Longrightarrow> i < n" for i a
    using assms by (auto simp: array_at_def)
  have "inj_on (the \<circ> arr) (set (filter (\<lambda>x. arr x \<noteq> None) [0..<n]))"
  proof (rule inj_onI)
    fix x y
    assume "x \<in> set (filter (\<lambda>x. arr x \<noteq> None) [0..<n])" "y \<in> set (filter (\<lambda>x. arr x \<noteq> None) [0..<n])" "(the \<circ> arr) x = (the \<circ> arr) y"
    then obtain a where "arr x = Some a" "arr y = Some a" by auto
    then show "x = y" unfolding arr by auto
  qed
  then show "distinct (List.map_filter arr [0..<n])" by (simp add: List.map_filter_def distinct_map)
  show "set (List.map_filter arr [0..<n]) = {a. typed mem ty a}"
  proof (intro set_eqI)
    fix a
    have "a \<in> set (List.map_filter arr [0..<n]) \<longleftrightarrow> (\<exists>i. arr i = Some a)" using lim by (force simp: List.map_filter_def image_iff domIff)
    then show "a \<in> set (List.map_filter arr [0..<n]) \<longleftrightarrow> a \<in> {a. typed mem ty a}" unfolding arr by (auto simp: typed_def)
  qed
qed

lemma queue_list:
  assumes "queue_at mem q ty {}"
  shows "distinct (take (pq_size q) (pq_array q))" "set (take (pq_size q) (pq_array q)) = {a. typed mem ty a}"
proof -
  have "once (contents q)" using assms queue_once by (auto simp: queue_at_def)
  then show "distinct (take (pq_size q) (pq_array q))" by (auto simp: contents_def)
  have "a \<in> set (take (pq_size q) (pq_array q)) \<longleftrightarrow> a \<in># contents q" for a by (simp add: contents_def)
  then show "set (take (pq_size q) (pq_array q)) = {a. typed mem ty a}" using assms by (auto simp: queue_at_def)
qed

definition all_threads :: "thread_master \<Rightarrow> nat list" where
  "all_threads m = List.map_filter (tm_read m) [0..<fd_limit m] @ List.map_filter (tm_write m) [0..<fd_limit m] @
     take (pq_size (tm_timer m)) (pq_array (tm_timer m)) @ tm_event m @ tm_ready m @ tm_unuse m @
     take (pq_size (tm_background m)) (pq_array (tm_background m))"

lemma all_threads_freeable:
  assumes s: "sched_inv m"
  shows "freeable m (all_threads m)"
proof -
  let ?T = "\<lambda>ty. {a. typed (tm_mem m) ty a}"
  have l: "distinct (tm_event m)" "set (tm_event m) = ?T THREAD_EVENT" "distinct (tm_ready m)" "set (tm_ready m) = ?T THREAD_READY"
    "distinct (tm_unuse m)" "set (tm_unuse m) = ?T THREAD_UNUSED"
    using s by (auto simp: sched_but_def list_at_def)
  have at: "array_at (tm_mem m) (fd_limit m) (tm_read m) (tm_readfd m) THREAD_READ {}" "array_at (tm_mem m) (fd_limit m) (tm_write m) (tm_writefd m) THREAD_WRITE {}"
    "queue_at (tm_mem m) (tm_timer m) THREAD_TIMER {}" "queue_at (tm_mem m) (tm_background m) THREAD_BACKGROUND {}"
    using s by (simp_all add: sched_but_def)
  note places = l array_list [OF at(1)] array_list [OF at(2)] queue_list [OF at(3)] queue_list [OF at(4)]
  have d: "distinct (all_threads m)"
    unfolding all_threads_def by (simp only: distinct_append set_append places Int_Un_distrib Un_empty) (simp add: typed_unique)
  have "set (all_threads m) = ?T THREAD_READ \<union> ?T THREAD_WRITE \<union> ?T THREAD_TIMER \<union> ?T THREAD_EVENT \<union> ?T THREAD_READY \<union> ?T THREAD_UNUSED \<union> ?T THREAD_BACKGROUND"
    unfolding all_threads_def by (simp only: set_append places Un_assoc)
  also have "\<dots> = dom (tm_mem m)"
  proof (intro set_eqI)
    fix a
    have "th_type t \<in> {THREAD_READ, THREAD_WRITE, THREAD_TIMER, THREAD_EVENT, THREAD_READY, THREAD_UNUSED, THREAD_BACKGROUND}" if "tm_mem m a = Some t" for t
      using sched_but_running [OF s that] by (cases "th_type t") simp_all
    then show "a \<in> ?T THREAD_READ \<union> ?T THREAD_WRITE \<union> ?T THREAD_TIMER \<union> ?T THREAD_EVENT \<union> ?T THREAD_READY \<union> ?T THREAD_UNUSED \<union> ?T THREAD_BACKGROUND \<longleftrightarrow> a \<in> dom (tm_mem m)"
      by (auto simp: typed_def)
  qed
  finally have "set (all_threads m) = dom (tm_mem m)" .
  moreover have "tm_alloc m = card (dom (tm_mem m))" using s by (simp add: sched_but_def store_ok_def)
  ultimately show ?thesis using distinct_card [OF d] d by (simp add: freeable_def)
qed

lemma thread_master_free_spec:
  assumes s: "sched_inv m"
  shows "\<exists>m'. thread_master_free m = Some m' \<and> tm_mem m' = Map.empty \<and> tm_alloc m' = 0"
proof -
  note go = list_free_spec [where as = as and bs = bs for as bs]
  obtain m1 where 1: "thread_array_free (tm_read m) m = Some m1" "fd_limit m1 = fd_limit m"
    "freeable m1 (List.map_filter (tm_write m) [0..<fd_limit m] @ take (pq_size (tm_timer m)) (pq_array (tm_timer m)) @ tm_event m @ tm_ready m @ tm_unuse m @
       take (pq_size (tm_background m)) (pq_array (tm_background m)))"
    using go [OF all_threads_freeable [OF s, unfolded all_threads_def]] by (auto simp: thread_array_free_def)
  obtain m2 where 2: "thread_array_free (tm_write m) (m1\<lparr>tm_read := Map.empty\<rparr>) = Some m2"
    "freeable m2 (take (pq_size (tm_timer m)) (pq_array (tm_timer m)) @ tm_event m @ tm_ready m @ tm_unuse m @ take (pq_size (tm_background m)) (pq_array (tm_background m)))"
    using go [of "m1\<lparr>tm_read := Map.empty\<rparr>", unfolded freeable_cong, OF 1(3)] 1(2) by (auto simp: thread_array_free_def)
  obtain m3 where 3: "thread_queue_free (tm_timer m) (m2\<lparr>tm_write := Map.empty\<rparr>) = Some m3"
    "freeable m3 (tm_event m @ tm_ready m @ tm_unuse m @ take (pq_size (tm_background m)) (pq_array (tm_background m)))"
    using go [of "m2\<lparr>tm_write := Map.empty\<rparr>", unfolded freeable_cong, OF 2(2)] by (auto simp: thread_queue_free_def)
  obtain m4 where 4: "thread_list_free (tm_event m) m3 = Some m4"
    "freeable m4 (tm_ready m @ tm_unuse m @ take (pq_size (tm_background m)) (pq_array (tm_background m)))" using go [OF 3(2)] by blast
  obtain m5 where 5: "thread_list_free (tm_ready m) m4 = Some m5"
    "freeable m5 (tm_unuse m @ take (pq_size (tm_background m)) (pq_array (tm_background m)))" using go [OF 4(2)] by blast
  obtain m6 where 6: "thread_list_free (tm_unuse m) m5 = Some m6"
    "freeable m6 (take (pq_size (tm_background m)) (pq_array (tm_background m)) @ [])" using go [OF 5(2)] by auto
  obtain m7 where 7: "thread_queue_free (tm_background m) m6 = Some m7" "freeable m7 []" using go [OF 6(2)] by (auto simp: thread_queue_free_def)
  show ?thesis using 1(1) 2(1) 3(1) 4(1) 5(1) 6(1) 7 by (simp add: thread_master_free_def freeable_def)
qed

section \<open>The clock\<close>

definition clock_ok :: "clock \<Rightarrow> bool" where
  "clock_ok c \<longleftrightarrow> normal_time (relative_time c) \<and> 0 \<le> tv_sec (relative_time c)"

lemma relative_adjust_monotone:
  assumes "clock_ok c"
  shows "clock_ok (quagga_gettimeofday_relative_adjust c) \<and>
    usecs (relative_time c) \<le> usecs (relative_time (quagga_gettimeofday_relative_adjust c))"
proof (cases "timeval_cmp (recent_time c) (last_recent_time c) < 0")
  case True
  then show ?thesis using assms by (auto simp: quagga_gettimeofday_relative_adjust_def clock_ok_def normal_time_def usecs_def Let_def)
next
  case False
  let ?d = "timeval_subtract (recent_time c) (last_recent_time c)"
  let ?r = "(relative_time c)\<lparr>tv_sec := tv_sec (relative_time c) + tv_sec ?d, tv_usec := tv_usec (relative_time c) + tv_usec ?d\<rparr>"
  have rel: "relative_time (quagga_gettimeofday_relative_adjust c) = timeval_adjust ?r"
    using False by (simp add: quagga_gettimeofday_relative_adjust_def Let_def)
  have "0 \<le> usecs ?d" unfolding timeval_subtract_def timeval_adjust_spec(3) by simp
  then have "usecs (relative_time c) \<le> usecs ?r" by (simp add: usecs_def algebra_simps)
  then show ?thesis unfolding clock_ok_def rel using timeval_adjust_spec [of ?r] by simp
qed

lemma quagga_get_relative_monotone:
  assumes "clock_ok c" "quagga_get_relative answer c = (ret, c')"
  shows "clock_ok c' \<and> usecs (relative_time c) \<le> usecs (relative_time c')"
proof (cases answer)
  case None
  then show ?thesis using assms by (simp add: quagga_get_relative_def quagga_gettimeofday_def)
next
  case (Some tv)
  define c1 where "c1 = snd (quagga_gettimeofday answer c)"
  have "relative_time c1 = relative_time c" by (simp add: c1_def quagga_gettimeofday_def Some Let_def)
  moreover have "c' = quagga_gettimeofday_relative_adjust c1" using assms(2) by (auto simp: c1_def quagga_get_relative_def quagga_gettimeofday_def Some Let_def)
  ultimately show ?thesis using relative_adjust_monotone [of c1] assms(1) by (simp add: clock_ok_def)
qed

lemma due_order_events:
  assumes s: "sched_inv m" and ty: "ty = THREAD_TIMER \<or> ty = THREAD_BACKGROUND"
    and m1: "tm_mem m1 = retype THREAD_READY (set (tm_event m)) (tm_mem m)"
  shows "due_order ty now m1 as \<longleftrightarrow> due_order ty now m as"
proof (rule due_cong, unfold m1, rule retype_ready_other)
  show "ty \<noteq> THREAD_READY" using ty by auto
  show "th_type t \<noteq> ty" if "a \<in> set (tm_event m)" "tm_mem m a = Some t" for a t
    using list_member(1) [OF s that(1)] that(2) ty by auto
qed

lemma fetch_turn_order:
  assumes s: "sched_inv m" and r: "tm_ready m = []" and sig: "sigevent e = id" and sel: "selected e = Select_fds num rset wset"
    and num: "num = card (rset \<inter> tm_readfd m) + card (wset \<inter> tm_writefd m)"
  shows "\<exists>ts ios bgs. due_order THREAD_TIMER (time_after e) m ts \<and> set ios = io_hits m rset wset \<and> due_order THREAD_BACKGROUND (time_after e) m bgs \<and>
    (case tm_event m @ ts @ ios @ bgs of
       [] \<Rightarrow> \<exists>w m'. fetch_turns [e] (Some zero) m = Some ([w], Fetch_waiting m') \<and> sched_inv m' \<and> tm_mem m' = tm_mem m
     | a # rest \<Rightarrow> \<exists>w t m'. tm_mem m a = Some t \<and> fetch_turns (e # es) (Some zero) m = Some ([w], Fetched (t\<lparr>th_type := THREAD_READY\<rparr>) m') \<and>
         sched_inv m' \<and> tm_ready m' = rest \<and> (tm_event m \<noteq> [] \<longrightarrow> w = Some zero))"
proof -
  define m1 where "m1 = m\<lparr>tm_mem := retype THREAD_READY (set (tm_event m)) (tm_mem m), tm_event := [], tm_ready := tm_event m\<rparr>"
  have p: "thread_process m = Some (length (tm_event m), m1)" and s1: "sched_inv m1"
    using thread_process_spec [OF s] r by (auto simp: m1_def)
  obtain ts ios bgs m2 where v: "serve (time_after e) num rset wset m1 = Some m2" "sched_inv m2" "tm_ready m2 = tm_event m @ ts @ ios @ bgs"
    "tm_mem m2 = retype THREAD_READY (set (ts @ ios @ bgs)) (tm_mem m1)" "due_order THREAD_TIMER (time_after e) m1 ts"
    "due_order THREAD_BACKGROUND (time_after e) m1 bgs" "set ios = io_hits m1 rset wset"
    using serve_spec [OF s1, of "time_after e" num rset wset] num by (auto simp: m1_def)
  have mem1: "tm_mem m1 = retype THREAD_READY (set (tm_event m)) (tm_mem m)" by (simp add: m1_def)
  have mem2: "tm_mem m2 = retype THREAD_READY (set (tm_event m @ ts @ ios @ bgs)) (tm_mem m)" using v(4) mem1 by (simp add: Un_ac)
  let ?w = "select_wait (time_before e) (Some zero) m1"
  have w: "tm_event m \<noteq> [] \<longrightarrow> ?w = Some zero" by (simp add: select_wait_def m1_def)
  have ev: "due_order THREAD_TIMER (time_after e) m ts" "due_order THREAD_BACKGROUND (time_after e) m bgs" "set ios = io_hits m rset wset"
    using v(5-7) due_order_events [OF s _ mem1] by (auto simp: io_hits_def m1_def)
  have "case tm_event m @ ts @ ios @ bgs of
       [] \<Rightarrow> \<exists>w m'. fetch_turns [e] (Some zero) m = Some ([w], Fetch_waiting m') \<and> sched_inv m' \<and> tm_mem m' = tm_mem m
     | a # rest \<Rightarrow> \<exists>w t m'. tm_mem m a = Some t \<and> fetch_turns (e # es) (Some zero) m = Some ([w], Fetched (t\<lparr>th_type := THREAD_READY\<rparr>) m') \<and>
         sched_inv m' \<and> tm_ready m' = rest \<and> (tm_event m \<noteq> [] \<longrightarrow> w = Some zero)"
  proof (cases "tm_event m @ ts @ ios @ bgs")
    case Nil
    then show ?thesis using v(1-3) mem2 sel sig r p by (simp add: Let_def)
  next
    case (Cons a rest)
    have r2: "tm_ready m2 = a # rest" using v(3) Cons by simp
    obtain t m' where t: "tm_mem m2 a = Some t" "th_type t = THREAD_READY" "thread_run a (m2\<lparr>tm_ready := rest\<rparr>) = Some (t, m')" "sched_inv m'" "tm_ready m' = rest"
      using run_ready(2) [OF v(2) r2] by auto
    have "a \<in> set (tm_event m @ ts @ ios @ bgs)" using Cons by simp
    then obtain t0 where t0: "tm_mem m a = Some t0" "t = t0\<lparr>th_type := THREAD_READY\<rparr>" using t(1) unfolding mem2 retype_def by auto
    have "fetch_turns (e # es) (Some zero) m = Some ([?w], Fetched t m')"
      using run_ready(1) [OF v(2) r2] v(1) t(3) sel sig r p by (simp add: Let_def)
    then show ?thesis using Cons t0 t(4,5) w by auto
  qed
  then show ?thesis using ev by blast
qed

lemma select_wait_None:
  assumes "sched_inv m" "tm_ready m = []"
  shows "select_wait now w m = None \<longleftrightarrow> contents (tm_timer m) = {#} \<and> contents (tm_background m) = {#}"
proof -
  have first: "pqueue_first (tm_timer m) = None \<longleftrightarrow> contents (tm_timer m) = {#}" "pqueue_first (tm_background m) = None \<longleftrightarrow> contents (tm_background m) = {#}"
    using queue_first_in [OF timer_member(3) [OF assms(1)]] queue_first_None [OF timer_member(3) [OF assms(1)]]
      queue_first_in [OF timer_member(4) [OF assms(1)]] queue_first_None [OF timer_member(4) [OF assms(1)]]
    by (cases "pqueue_first (tm_timer m)"; cases "pqueue_first (tm_background m)"; fastforce)+
  have wait: "thread_timer_wait (tm_mem m) now (tm_timer m) = None \<longleftrightarrow> contents (tm_timer m) = {#}"
    "thread_timer_wait (tm_mem m) now (tm_background m) = None \<longleftrightarrow> contents (tm_background m) = {#}"
    unfolding first [symmetric] by (simp_all add: thread_timer_wait_def split: option.splits)
  then show ?thesis unfolding wait [symmetric] using assms(2)
    by (cases "thread_timer_wait (tm_mem m) now (tm_timer m)"; cases "thread_timer_wait (tm_mem m) now (tm_background m)") (simp_all add: select_wait_def)
qed

section \<open>Properties\<close>

text \<open>C8: In every state that a daemon can reach, cancelling any allocated thread, whatever its type, passes all the
  assertions of \<^verbatim>\<open>thread_cancel\<close> (the descriptor is in its set, the position stored in the thread is its position
  in the timer queue): the thread becomes unused, no other thread changes and the invariant of the scheduler holds again.\<close>

theorem thread_cancel_never_fails:
  assumes "sched_reach m" "tm_mem m a = Some t"
  shows "\<exists>m'. thread_cancel a m = Some m' \<and> sched_inv m' \<and> tm_mem m' = retype THREAD_UNUSED {a} (tm_mem m)"
  using thread_cancel_spec [OF sched_reach_inv [OF assms(1)] assms(2)] .

theorem thread_cancel_never_fails_witness:
  "\<exists>a t m m'. funcname_thread_add_timer \<lparr>tv_sec = 3, tv_usec = 0\<rparr> 1 2 5 (thread_master_create 64) = Some (a, m) \<and>
    tm_mem m a = Some t \<and> th_type t = THREAD_TIMER \<and> thread_cancel a m = Some m' \<and> tm_mem m' a = Some (t\<lparr>th_type := THREAD_UNUSED\<rparr>)"
proof -
  let ?c = "thread_master_create 64"
  obtain a m t where a: "funcname_thread_add_timer \<lparr>tv_sec = 3, tv_usec = 0\<rparr> 1 2 5 ?c = Some (a, m)" "added a t ?c m" "th_type t = THREAD_TIMER"
    using add_timer_spec [OF sched_inv_create [of 64], of THREAD_TIMER "\<lparr>tv_sec = 3, tv_usec = 0\<rparr>" 1 2 "\<lparr>tv_sec = 5, tv_usec = 0\<rparr>"]
    by (auto simp: funcname_thread_add_timer_def)
  then have t: "tm_mem m a = Some t" by (simp add: added_def)
  obtain m' where "thread_cancel a m = Some m'" "tm_mem m' = retype THREAD_UNUSED {a} (tm_mem m)"
    using thread_cancel_never_fails [OF sched_reach.add_timer [OF sched_reach.create a(1)] t] by blast
  then show ?thesis using a t by (auto simp: retype_def)
qed

text \<open>C9: Whatever \<^verbatim>\<open>select\<close> answers, however the times pass and whatever invariant-preserving calls the signal handlers make,
  \<^verbatim>\<open>thread_fetch\<close> on a reachable master violates no assertion and no list or queue; what it fetches was ready, and the
  master it leaves satisfies the invariant.\<close>

theorem thread_fetch_safe:
  assumes "sched_reach m" "\<forall>e \<in> set turns. \<forall>x. sched_inv x \<longrightarrow> sched_inv (sigevent e x)"
  shows "\<exists>ws r. thread_fetch turns m = Some (ws, r) \<and> good_fetch r"
  unfolding thread_fetch_def by (rule fetch_turns_good [OF sched_reach_inv [OF assms(1)] assms(2)])

definition event_handler :: "thread_master \<Rightarrow> thread_master" where
  "event_handler m = (case funcname_thread_add_event 1 2 3 m of None \<Rightarrow> m | Some (a, m') \<Rightarrow> m')"

lemma event_handler_inv: "sched_inv x \<Longrightarrow> sched_inv (event_handler x)"
  using add_event_spec [of x 1 2 3] by (auto simp: event_handler_def)

theorem thread_fetch_safe_witness:
  "\<exists>ws r. thread_fetch [\<lparr>sigevent = event_handler, time_before = \<lparr>tv_sec = 1, tv_usec = 0\<rparr>, selected = Select_fds 1 {4} {},
      time_left = \<lparr>tv_sec = 0, tv_usec = 0\<rparr>, time_after = \<lparr>tv_sec = 2, tv_usec = 0\<rparr>\<rparr>] (thread_master_create 64) = Some (ws, r) \<and> good_fetch r"
  using thread_fetch_safe [OF sched_reach.create [of 64], of "[\<lparr>sigevent = event_handler, time_before = \<lparr>tv_sec = 1, tv_usec = 0\<rparr>, selected = Select_fds 1 {4} {},
      time_left = \<lparr>tv_sec = 0, tv_usec = 0\<rparr>, time_after = \<lparr>tv_sec = 2, tv_usec = 0\<rparr>\<rparr>]"] event_handler_inv by simp

text \<open>C30: The order of service.  When no thread is ready, one turn of \<^verbatim>\<open>thread_fetch\<close> makes ready the pending events in the order of
  their scheduling, then exactly the timers that are due in the order of their times, then the threads of exactly the descriptors that
  \<^verbatim>\<open>select\<close> reported, then exactly the due background threads in the order of their times.  It returns the first of them and leaves
  the others on the ready list in that order; if there is none it goes on waiting.  With an event pending it does not let \<^verbatim>\<open>select\<close> block.\<close>

theorem thread_fetch_order:
  assumes "sched_reach m" "tm_ready m = []" "sigevent e = id" "selected e = Select_fds num rset wset"
    "num = card (rset \<inter> tm_readfd m) + card (wset \<inter> tm_writefd m)"
  shows "\<exists>ts ios bgs. due_order THREAD_TIMER (time_after e) m ts \<and> set ios = io_hits m rset wset \<and> due_order THREAD_BACKGROUND (time_after e) m bgs \<and>
    (case tm_event m @ ts @ ios @ bgs of
       [] \<Rightarrow> \<exists>w m'. thread_fetch [e] m = Some ([w], Fetch_waiting m') \<and> sched_inv m' \<and> tm_mem m' = tm_mem m
     | a # rest \<Rightarrow> \<exists>w t m'. tm_mem m a = Some t \<and> thread_fetch (e # es) m = Some ([w], Fetched (t\<lparr>th_type := THREAD_READY\<rparr>) m') \<and>
         sched_inv m' \<and> tm_ready m' = rest \<and> (tm_event m \<noteq> [] \<longrightarrow> w = Some \<lparr>tv_sec = 0, tv_usec = 0\<rparr>))"
proof -
  have s: "sched_inv m" by (rule sched_reach_inv [OF assms(1)])
  show ?thesis using fetch_turn_order [OF s assms(2-5), of "\<lparr>tv_sec = 0, tv_usec = 0\<rparr>" es] unfolding thread_fetch_def .
qed

theorem thread_fetch_order_witness:
  "\<exists>a m w t m'. funcname_thread_add_event 7 8 9 (thread_master_create 64) = Some (a, m) \<and> tm_mem m a = Some t \<and>
    thread_fetch [\<lparr>sigevent = id, time_before = \<lparr>tv_sec = 1, tv_usec = 0\<rparr>, selected = Select_fds 0 {} {}, time_left = \<lparr>tv_sec = 0, tv_usec = 0\<rparr>,
      time_after = \<lparr>tv_sec = 1, tv_usec = 5\<rparr>\<rparr>] m = Some ([w], Fetched (t\<lparr>th_type := THREAD_READY\<rparr>) m') \<and> w = Some \<lparr>tv_sec = 0, tv_usec = 0\<rparr>"
proof -
  obtain a m where m: "funcname_thread_add_event 7 8 9 (thread_master_create 64) = Some (a, m)" "tm_event m = [a]" "tm_ready m = []" "tm_readfd m = {}" "tm_writefd m = {}"
    by (simp add: funcname_thread_add_event_def thread_get_def thread_master_create_def thread_trim_head_def thread_upd_def thread_list_add_def)
  show ?thesis
    using thread_fetch_order [OF sched_reach.add_event [OF sched_reach.create m(1)] m(3), of "\<lparr>sigevent = id, time_before = \<lparr>tv_sec = 1, tv_usec = 0\<rparr>,
      selected = Select_fds 0 {} {}, time_left = \<lparr>tv_sec = 0, tv_usec = 0\<rparr>, time_after = \<lparr>tv_sec = 1, tv_usec = 5\<rparr>\<rparr>" 0 "{}" "{}" "[]"] m by auto
qed

text \<open>C31: a lost wake-up.  \<^verbatim>\<open>thread_fetch\<close> computes the timeout of \<^verbatim>\<open>select\<close> only when no thread is ready, and keeps the one of the turn
  before otherwise.  If a signal interrupts the wait of a scheduler with nothing to do but its timers and its handler schedules an event, the event is ready and
  \<^verbatim>\<open>select\<close> is called again with what the first call left of its timeout, and without any if there is neither a timer nor a background thread.\<close>

theorem thread_fetch_stale_wait:
  assumes "sched_reach m" "tm_ready m = []" "tm_event m = []"
    "sigevent e1 = id" "selected e1 = Select_EINTR"
    "sigevent e2 = (\<lambda>x. snd (the (funcname_thread_add_event func arg val x)))" "selected e2 = Select_EINTR"
  shows "\<exists>w a m'. thread_fetch [e1, e2] m = Some ([w, map_option (\<lambda>_. time_left e1) w], Fetch_waiting m') \<and> tm_ready m' = [a] \<and>
    (w = None \<longleftrightarrow> contents (tm_timer m) = {#} \<and> contents (tm_background m) = {#})"
proof -
  have s: "sched_inv m" by (rule sched_reach_inv [OF assms(1)])
  define w where "w = select_wait (time_before e1) (Some \<lparr>tv_sec = 0, tv_usec = 0\<rparr>) m"
  have p1: "thread_process m = Some (0, m)" using thread_process_spec [OF s] assms(2,3) by auto
  obtain a m1 where m1: "funcname_thread_add_event func arg val m = Some (a, m1)" "sched_inv m1" "tm_event m1 = [a]" "tm_ready m1 = []"
    using add_event_spec [OF s, of func arg val] assms(2,3) by auto
  obtain m2 where m2: "thread_process m1 = Some (1, m2)" "tm_ready m2 = [a]" using thread_process_spec [OF m1(2)] m1(3,4) by auto
  have "select_wait (time_before e2) w2 m2 = w2" for w2 using m2(2) by (simp add: select_wait_def)
  then have "thread_fetch [e1, e2] m = Some ([w, map_option (\<lambda>_. time_left e1) w], Fetch_waiting m2)"
    using assms p1 m1 m2 by (simp add: thread_fetch_def Let_def w_def)
  then show ?thesis using m2(2) select_wait_None [OF s assms(2)] by (auto simp: w_def)
qed

theorem thread_fetch_stale_wait_witness:
  "\<exists>a m'. thread_fetch
    [\<lparr>sigevent = id, time_before = \<lparr>tv_sec = 1, tv_usec = 0\<rparr>, selected = Select_EINTR, time_left = \<lparr>tv_sec = 0, tv_usec = 0\<rparr>, time_after = \<lparr>tv_sec = 1, tv_usec = 0\<rparr>\<rparr>,
     \<lparr>sigevent = \<lambda>x. snd (the (funcname_thread_add_event 1 2 3 x)), time_before = \<lparr>tv_sec = 2, tv_usec = 0\<rparr>, selected = Select_EINTR,
      time_left = \<lparr>tv_sec = 0, tv_usec = 0\<rparr>, time_after = \<lparr>tv_sec = 2, tv_usec = 0\<rparr>\<rparr>]
    (thread_master_create 64) = Some ([None, None], Fetch_waiting m') \<and> tm_ready m' = [a]"
proof -
  let ?e1 = "\<lparr>sigevent = id, time_before = \<lparr>tv_sec = 1, tv_usec = 0\<rparr>, selected = Select_EINTR, time_left = \<lparr>tv_sec = 0, tv_usec = 0\<rparr>, time_after = \<lparr>tv_sec = 1, tv_usec = 0\<rparr>\<rparr>"
  have c: "contents (tm_timer (thread_master_create 64)) = {#}" "contents (tm_background (thread_master_create 64)) = {#}"
    "tm_ready (thread_master_create 64) = []" "tm_event (thread_master_create 64) = []"
    by (simp_all add: thread_master_create_def contents_def pqueue_create_def)
  show ?thesis
    using thread_fetch_stale_wait [OF sched_reach.create c(3,4), of ?e1 "\<lparr>sigevent = \<lambda>x. snd (the (funcname_thread_add_event 1 2 3 x)), time_before = \<lparr>tv_sec = 2, tv_usec = 0\<rparr>,
      selected = Select_EINTR, time_left = \<lparr>tv_sec = 0, tv_usec = 0\<rparr>, time_after = \<lparr>tv_sec = 2, tv_usec = 0\<rparr>\<rparr>" 1 2 3] c(1,2) by auto
qed

text \<open>Stopping the scheduler in any reachable state frees every thread exactly once: no thread is freed twice and none is lost,
  and the counter of allocated threads ends at zero.\<close>

theorem thread_master_free_frees_all:
  assumes "sched_reach m"
  shows "\<exists>m'. thread_master_free m = Some m' \<and> tm_mem m' = Map.empty \<and> tm_alloc m' = 0"
  by (rule thread_master_free_spec [OF sched_reach_inv [OF assms]])

theorem thread_master_free_frees_all_witness:
  "\<exists>a m m'. funcname_thread_add_event 7 8 9 (thread_master_create 64) = Some (a, m) \<and> tm_mem m a \<noteq> None \<and> thread_master_free m = Some m' \<and> tm_alloc m' = 0"
proof -
  obtain a m where m: "funcname_thread_add_event 7 8 9 (thread_master_create 64) = Some (a, m)" "tm_mem m a \<noteq> None"
    by (simp add: funcname_thread_add_event_def thread_get_def thread_master_create_def thread_trim_head_def thread_upd_def thread_list_add_def)
  then show ?thesis using thread_master_free_frees_all [OF sched_reach.add_event [OF sched_reach.create m(1)]] by blast
qed

end
