(* ===== verification/Vector.thy ===== *)
theory Vector
  imports Quagga_Prelude "HOL-Library.Monad_Syntax"
begin

text \<open>
  \<^verbatim>\<open>lib/vector.c\<close>: the growing arrays of pointers in which the library keeps its tables of commands, rules and
  interfaces.  A pointer is an element of \<open>'a\<close> and \<^verbatim>\<open>NULL\<close> is \<open>None\<close>; the outer \<open>None\<close> of an operation is an access
  outside of the memory, an allocation whose size an \<^verbatim>\<open>unsigned int\<close> does not hold, or a recursion without end.
\<close>

section \<open>Operations\<close>

record 'a vec =
  active :: nat
  alloced :: nat
  index :: "'a option list"

definition vector_init :: "nat \<Rightarrow> 'a vec" where
  "vector_init n = (let n1 = (if n = 0 then 1 else n) in \<lparr>active = 0, alloced = n1, index = replicate n1 None\<rparr>)"

definition vector_copy :: "'a vec \<Rightarrow> 'a vec option" where
  "vector_copy v = (if alloced v \<le> length (index v) then Some \<lparr>active = active v, alloced = alloced v, index = take (alloced v) (index v)\<rparr> else None)"

function vector_ensure :: "'a vec \<Rightarrow> nat \<Rightarrow> 'a vec option" where
  "vector_ensure v num =
     (if alloced v > num then Some v
      else if alloced v = 0 \<or> alloced v \<ge> 2 ^ 31 then None
      else
        let v1 = v\<lparr>index := take (alloced v) (index v) @ replicate (alloced v) None, alloced := alloced v * 2\<rparr>
        in if alloced v1 \<le> num then vector_ensure v1 num else Some v1)"
  by pat_completeness auto
termination by (relation "measure (\<lambda>(v, num). Suc num - alloced v)") (auto simp: diff_less_mono2)

declare vector_ensure.simps [simp del]

definition slot :: "'a vec \<Rightarrow> nat \<Rightarrow> 'a option option" where
  "slot v i = (if i < length (index v) then Some (index v ! i) else None)"

definition put_in :: "nat \<Rightarrow> 'a option \<Rightarrow> 'a vec \<Rightarrow> 'a vec option" where
  "put_in i val v = (if i < length (index v) then Some (v\<lparr>index := (index v)[i := val]\<rparr>) else None)"

text \<open>The loop \<^verbatim>\<open>for (i = 0; i < v->active; i++)\<close>, with \<open>n\<close> rounds left.\<close>

fun empty_slot_loop :: "'a vec \<Rightarrow> nat \<Rightarrow> nat \<Rightarrow> nat option" where
  "empty_slot_loop v i 0 = Some i"
| "empty_slot_loop v i (Suc n) = do {
     x \<leftarrow> slot v i;
     if x = None then Some i else empty_slot_loop v (Suc i) n
   }"

definition vector_empty_slot :: "'a vec \<Rightarrow> nat option" where
  "vector_empty_slot v = (if active v = 0 then Some 0 else empty_slot_loop v 0 (active v))"

definition vector_set_index :: "'a vec \<Rightarrow> nat \<Rightarrow> 'a option \<Rightarrow> (nat \<times> 'a vec) option" where
  "vector_set_index v i val = do {
     v1 \<leftarrow> vector_ensure v i;
     v2 \<leftarrow> put_in i val v1;
     Some (i, if active v2 \<le> i then v2\<lparr>active := i + 1\<rparr> else v2)
   }"

definition vector_set :: "'a vec \<Rightarrow> 'a option \<Rightarrow> (nat \<times> 'a vec) option" where
  "vector_set v val = do {
     i \<leftarrow> vector_empty_slot v;
     v1 \<leftarrow> vector_ensure v i;
     v2 \<leftarrow> put_in i val v1;
     Some (i, if active v2 \<le> i then v2\<lparr>active := i + 1\<rparr> else v2)
   }"

definition vector_lookup :: "'a vec \<Rightarrow> nat \<Rightarrow> 'a option option" where
  "vector_lookup v i = (if i \<ge> active v then Some None else slot v i)"

definition vector_lookup_ensure :: "'a vec \<Rightarrow> nat \<Rightarrow> ('a option \<times> 'a vec) option" where
  "vector_lookup_ensure v i = do {
     v1 \<leftarrow> vector_ensure v i;
     x \<leftarrow> slot v1 i;
     Some (x, v1)
   }"

text \<open>
  \<^verbatim>\<open>while (i && v->index[--i] == NULL && v->active--);\<close>: the count goes down for every empty slot
  below the one that was emptied.  It is not zero there, since a slot below it was in use.
\<close>

fun unset_loop :: "nat \<Rightarrow> 'a vec \<Rightarrow> 'a vec option" where
  "unset_loop 0 v = Some v"
| "unset_loop (Suc i) v = do {
     x \<leftarrow> slot v i;
     if x = None then
       (if active v = 0 then Some (v\<lparr>active := 2 ^ 32 - 1\<rparr>) else unset_loop i (v\<lparr>active := active v - 1\<rparr>))
     else Some v
   }"

definition vector_unset :: "'a vec \<Rightarrow> nat \<Rightarrow> 'a vec option" where
  "vector_unset v i =
     (if i \<ge> alloced v then Some v
      else do {
        v1 \<leftarrow> put_in i None v;
        if i + 1 = active v1 then unset_loop i (v1\<lparr>active := active v1 - 1\<rparr>) else Some v1
      })"

fun count_loop :: "'a vec \<Rightarrow> nat \<Rightarrow> nat \<Rightarrow> nat \<Rightarrow> nat option" where
  "count_loop v i 0 count = Some count"
| "count_loop v i (Suc n) count = do {
     x \<leftarrow> slot v i;
     count_loop v (Suc i) n (if x \<noteq> None then count + 1 else count)
   }"

definition vector_count :: "'a vec \<Rightarrow> nat option" where
  "vector_count v = count_loop v 0 (active v) 0"

section \<open>Vectors as finite maps\<close>

definition vec_ok :: "'a vec \<Rightarrow> bool" where
  "vec_ok v \<longleftrightarrow> alloced v = length (index v) \<and> 0 < alloced v \<and> active v \<le> alloced v \<and> (\<forall>i. active v \<le> i \<and> i < alloced v \<longrightarrow> index v ! i = None)"

definition vec_map :: "'a vec \<Rightarrow> nat \<rightharpoonup> 'a" where
  "vec_map v i = (if i < length (index v) then index v ! i else None)"

text \<open>No empty slot at the end.\<close>

definition trimmed :: "'a vec \<Rightarrow> bool" where
  "trimmed v \<longleftrightarrow> active v = 0 \<or> vec_map v (active v - 1) \<noteq> None"

lemma vec_map_above: "vec_ok v \<Longrightarrow> active v \<le> i \<Longrightarrow> vec_map v i = None"
  by (auto simp: vec_ok_def vec_map_def)

lemma slot_map: "i < length (index v) \<Longrightarrow> slot v i = Some (vec_map v i)"
  by (simp add: slot_def vec_map_def)

lemma init_ok: "vec_ok (vector_init n)" "vec_map (vector_init n) = Map.empty" "active (vector_init n) = 0"
  by (auto simp: vec_ok_def vec_map_def vector_init_def Let_def fun_eq_iff)

lemma copy_spec: "vec_ok v \<Longrightarrow> vector_copy v = Some v"
  by (simp add: vec_ok_def vector_copy_def)

text \<open>The memory doubles until it holds the slot; what it held stays.\<close>

lemma ensure_spec:
  assumes "vec_ok v" "num < 2 ^ 31"
  shows "\<exists>v'. vector_ensure v num = Some v' \<and> vec_ok v' \<and> vec_map v' = vec_map v \<and> active v' = active v \<and> num < alloced v'"
  using assms
proof (induction v num rule: vector_ensure.induct)
  case (1 v num)
  show ?case
  proof (cases "alloced v > num")
    case True
    then show ?thesis using 1 by (simp add: vector_ensure.simps [of v num])
  next
    case False
    define v1 where "v1 = v\<lparr>index := take (alloced v) (index v) @ replicate (alloced v) None, alloced := alloced v * 2\<rparr>"
    have a: "\<not> (alloced v = 0 \<or> alloced v \<ge> 2 ^ 31)" using 1(2,3) False by (auto simp: vec_ok_def)
    have 2: "vec_ok v1" "active v1 = active v" using 1(2) by (auto simp: vec_ok_def v1_def nth_append)
    have 3: "vec_map v1 = vec_map v" using 1(2) by (auto simp: vec_ok_def vec_map_def v1_def nth_append fun_eq_iff)
    have eq: "vector_ensure v num = (if alloced v1 \<le> num then vector_ensure v1 num else Some v1)"
      using False a by (simp add: vector_ensure.simps [of v num] v1_def Let_def)
    show ?thesis
    proof (cases "alloced v1 \<le> num")
      case True
      then show ?thesis using 1(1) [OF False a v1_def True 2(1) 1(3)] eq 2(2) 3 by simp
    next
      case False
      then show ?thesis using eq 2 3 by simp
    qed
  qed
qed

lemma put_active:
  fixes val :: "'a option"
  assumes v: "vec_ok v" and i: "i < alloced v"
  defines "w \<equiv> (let v2 = v\<lparr>index := (index v)[i := val]\<rparr> in if active v2 \<le> i then v2\<lparr>active := i + 1\<rparr> else v2)"
  shows "put_in i val v = Some (v\<lparr>index := (index v)[i := val]\<rparr>) \<and> vec_ok w \<and> vec_map w = (vec_map v)(i := val) \<and> active w = max (active v) (Suc i)"
  using v i by (auto simp: vec_ok_def vec_map_def w_def put_in_def Let_def fun_eq_iff nth_list_update)

lemma set_index_spec:
  assumes "vec_ok v" "i < 2 ^ 31"
  shows "\<exists>v'. vector_set_index v i val = Some (i, v') \<and> vec_ok v' \<and> vec_map v' = (vec_map v)(i := val) \<and> active v' = max (active v) (Suc i)"
proof -
  obtain v1 where v1: "vector_ensure v i = Some v1" "vec_ok v1" "vec_map v1 = vec_map v" "active v1 = active v" "i < alloced v1" using ensure_spec [OF assms] by auto
  then show ?thesis using put_active [OF v1(2,5), of val] by (simp add: vector_set_index_def Let_def)
qed

lemma empty_slot_loop_spec:
  assumes "i + n \<le> length (index v)"
  shows "\<exists>j. empty_slot_loop v i n = Some j \<and> i \<le> j \<and> j \<le> i + n \<and> (j < i + n \<longrightarrow> vec_map v j = None) \<and> (\<forall>k. i \<le> k \<and> k < j \<longrightarrow> vec_map v k \<noteq> None)"
  using assms
proof (induction n arbitrary: i)
  case (Suc n)
  show ?case
  proof (cases "vec_map v i")
    case None
    then show ?thesis using Suc.prems by (auto simp: slot_map)
  next
    case (Some x)
    obtain j where j: "empty_slot_loop v (Suc i) n = Some j" "Suc i \<le> j" "j \<le> Suc i + n" "j < Suc i + n \<longrightarrow> vec_map v j = None"
      "\<forall>k. Suc i \<le> k \<and> k < j \<longrightarrow> vec_map v k \<noteq> None" using Suc.IH [of "Suc i"] Suc.prems by auto
    have "vec_map v k \<noteq> None" if "i \<le> k" "k < j" for k using j(5) that Some by (cases "k = i") auto
    then show ?thesis using j Some Suc.prems by (auto simp: slot_map)
  qed
qed auto

text \<open>\<^verbatim>\<open>vector_set\<close> takes the first free slot.\<close>

lemma set_spec:
  assumes "vec_ok v" "active v < 2 ^ 31"
  shows "\<exists>i v'. vector_set v val = Some (i, v') \<and> vec_ok v' \<and> vec_map v i = None \<and> (\<forall>k<i. vec_map v k \<noteq> None) \<and> vec_map v' = (vec_map v)(i := val) \<and>
    active v' = max (active v) (Suc i) \<and> i \<le> active v"
proof -
  have len: "0 + active v \<le> length (index v)" using assms(1) by (simp add: vec_ok_def)
  obtain i where i: "vector_empty_slot v = Some i" "i \<le> active v" "i < active v \<longrightarrow> vec_map v i = None" "\<forall>k<i. vec_map v k \<noteq> None"
    using empty_slot_loop_spec [OF len] by (cases "active v = 0") (fastforce simp: vector_empty_slot_def)+
  have "vec_map v i = None" using i(2,3) vec_map_above [OF assms(1), of i] by linarith
  moreover have "vector_set v val = vector_set_index v i val" by (simp add: vector_set_def vector_set_index_def i(1))
  ultimately show ?thesis using set_index_spec [OF assms(1), of i val] i assms(2) by auto
qed

lemma lookup_spec: "vec_ok v \<Longrightarrow> vector_lookup v i = Some (vec_map v i)"
  by (auto simp: vector_lookup_def slot_map vec_map_above vec_ok_def)

lemma unset_loop_spec:
  assumes "vec_ok v" "active v = i"
  shows "\<exists>v'. unset_loop i v = Some v' \<and> vec_ok v' \<and> vec_map v' = vec_map v \<and> trimmed v' \<and> active v' \<le> i"
  using assms
proof (induction i arbitrary: v)
  case (Suc i)
  have len: "i < length (index v)" using Suc.prems by (simp add: vec_ok_def)
  show ?case
  proof (cases "vec_map v i")
    case None
    let ?v = "v\<lparr>active := i\<rparr>"
    have "vec_ok ?v" using Suc.prems None len by (auto simp: vec_ok_def vec_map_def) (metis Suc_leI le_neq_implies_less)
    moreover have "vec_map ?v = vec_map v" by (simp add: vec_map_def fun_eq_iff)
    ultimately show ?thesis using Suc.IH [of ?v] None Suc.prems(2) by (auto simp: slot_map [OF len])
  next
    case (Some x)
    then show ?thesis using Suc.prems by (simp add: slot_map [OF len] trimmed_def)
  qed
qed (simp add: trimmed_def)

lemma unset_spec:
  assumes v: "vec_ok v"
  shows "\<exists>v'. vector_unset v i = Some v' \<and> vec_ok v' \<and> vec_map v' = (vec_map v)(i := None) \<and> (trimmed v \<longrightarrow> trimmed v') \<and> active v' \<le> active v"
proof (cases "i < alloced v")
  case False
  then have "(vec_map v)(i := None) = vec_map v" using v by (auto simp: vec_ok_def vec_map_def)
  then show ?thesis using False v by (simp add: vector_unset_def)
next
  case True
  let ?v = "v\<lparr>index := (index v)[i := None]\<rparr>"
  have p: "put_in i None v = Some ?v" "vec_ok ?v" using v True by (auto simp: put_in_def vec_ok_def nth_list_update)
  have m: "vec_map ?v = (vec_map v)(i := None)" using v True by (auto simp: vec_map_def vec_ok_def fun_eq_iff nth_list_update)
  show ?thesis
  proof (cases "i + 1 = active v")
    case last: True
    have "vec_ok (?v\<lparr>active := i\<rparr>)" "vec_map (?v\<lparr>active := i\<rparr>) = vec_map ?v" using p(2) last True
      by (auto simp: vec_ok_def vec_map_def fun_eq_iff nth_list_update) 
    then obtain v' where "unset_loop i (?v\<lparr>active := i\<rparr>) = Some v'" "vec_ok v'" "vec_map v' = vec_map ?v" "trimmed v'" "active v' \<le> i"
      using unset_loop_spec [of "?v\<lparr>active := i\<rparr>" i] by auto
    moreover have "vector_unset v i = unset_loop i (?v\<lparr>active := i\<rparr>)" using p(1) last [symmetric] True by (simp add: vector_unset_def)
    ultimately show ?thesis using m last by simp
  next
    case False
    then have "trimmed v \<longrightarrow> trimmed ?v" using m by (auto simp: trimmed_def)
    then show ?thesis using p m False True by (simp add: vector_unset_def)
  qed
qed

lemma count_loop_spec:
  "i + n \<le> length (index v) \<Longrightarrow> count_loop v i n c = Some (c + card {k. i \<le> k \<and> k < i + n \<and> vec_map v k \<noteq> None})"
proof (induction n arbitrary: i c)
  case (Suc n)
  let ?A = "\<lambda>i n. {k. i \<le> k \<and> k < i + n \<and> vec_map v k \<noteq> None}"
  have "?A i (Suc n) = (if vec_map v i = None then ?A (Suc i) n else insert i (?A (Suc i) n))" by (auto simp: le_eq_less_or_eq Suc_le_eq)
  then have "card (?A i (Suc n)) = card (?A (Suc i) n) + (if vec_map v i = None then 0 else 1)" by simp
  then show ?case using Suc by (simp add: slot_map)
qed simp

lemma count_spec:
  assumes "vec_ok v"
  shows "vector_count v = Some (card (dom (vec_map v)))"
proof -
  have "dom (vec_map v) = {k. 0 \<le> k \<and> k < 0 + active v \<and> vec_map v k \<noteq> None}" using vec_map_above [OF assms] by (auto simp: dom_def not_le [symmetric])
  then show ?thesis using assms count_loop_spec [of 0 "active v" v 0] by (simp add: vector_count_def vec_ok_def)
qed

section \<open>Tables filled one by one\<close>

text \<open>The interface of the tables of commands: an element put in takes a free slot.\<close>

locale slot_table =
  fixes ok :: "'v \<Rightarrow> bool" and slots :: "'v \<Rightarrow> nat \<rightharpoonup> 'a" and used :: "'v \<Rightarrow> nat" and room :: nat and add :: "'v \<Rightarrow> 'a \<Rightarrow> 'v option"
  assumes add_spec: "ok v \<Longrightarrow> used v < room \<Longrightarrow>
    \<exists>v' i. add v x = Some v' \<and> ok v' \<and> slots v i = None \<and> slots v' = (slots v)(i \<mapsto> x) \<and> used v' \<le> Suc (used v)"
begin

fun add_all :: "'a list \<Rightarrow> 'v \<Rightarrow> 'v option" where
  "add_all [] v = Some v"
| "add_all (x # xs) v = (case add v x of None \<Rightarrow> None | Some v1 \<Rightarrow> add_all xs v1)"

lemma add_all_spec:
  "ok v \<Longrightarrow> used v + length xs \<le> room \<Longrightarrow> \<exists>v'. add_all xs v = Some v' \<and> ok v' \<and> ran (slots v') = ran (slots v) \<union> set xs \<and> used v' \<le> used v + length xs"
proof (induction xs arbitrary: v)
  case (Cons x xs)
  obtain v1 i where v1: "add v x = Some v1" "ok v1" "slots v i = None" "slots v1 = (slots v)(i \<mapsto> x)" "used v1 \<le> Suc (used v)"
    using add_spec [of v x] Cons.prems by auto
  have "ran (slots v1) = insert x (ran (slots v))" using v1(3,4) by (simp add: ran_map_upd)
  then show ?case using Cons.IH [OF v1(2)] Cons.prems v1(1,5) by auto
qed simp

end

definition vector_add :: "'a vec \<Rightarrow> 'a \<Rightarrow> 'a vec option" where
  "vector_add v x = map_option snd (vector_set v (Some x))"

interpretation st: slot_table vec_ok vec_map active "2 ^ 31" vector_add
proof
  fix v :: "'a vec" and x :: 'a
  assume "vec_ok v" "active v < 2 ^ 31"
  then obtain i v' where "vector_set v (Some x) = Some (i, v')" "vec_ok v'" "vec_map v i = None" "vec_map v' = (vec_map v)(i \<mapsto> x)"
    "active v' = max (active v) (Suc i)" "i \<le> active v" using set_spec by blast
  then show "\<exists>v' i. vector_add v x = Some v' \<and> vec_ok v' \<and> vec_map v i = None \<and> vec_map v' = (vec_map v)(i \<mapsto> x) \<and> active v' \<le> Suc (active v)"
    by (auto simp: vector_add_def)
qed

section \<open>Properties\<close>

text \<open>C20: a vector is a finite map from slot numbers to pointers: with fewer than 2 to the 31 slots, no operation fails, a
  slot that is set or emptied changes only there, \<^verbatim>\<open>vector_set\<close> takes the first free slot, and the count is the number of
  pointers.\<close>

theorem vector_implements_map:
  assumes "vec_ok v" "active v < 2 ^ 31" "i < 2 ^ 31"
  shows "vector_lookup v i = Some (vec_map v i) \<and>
    (\<exists>v'. vector_set_index v i val = Some (i, v') \<and> vec_ok v' \<and> vec_map v' = (vec_map v)(i := val)) \<and>
    (\<exists>j v'. vector_set v val = Some (j, v') \<and> vec_ok v' \<and> vec_map v j = None \<and> (\<forall>k<j. vec_map v k \<noteq> None) \<and> vec_map v' = (vec_map v)(j := val)) \<and>
    (\<exists>v'. vector_unset v i = Some v' \<and> vec_ok v' \<and> vec_map v' = (vec_map v)(i := None) \<and> (trimmed v \<longrightarrow> trimmed v')) \<and>
    vector_count v = Some (card (dom (vec_map v)))"
  using lookup_spec [OF assms(1)] set_index_spec [OF assms(1,3), of val] set_spec [OF assms(1,2), of val] unset_spec [OF assms(1), of i] count_spec [OF assms(1)]
  by blast

theorem vector_implements_map_witness:
  "vec_ok (vector_init 0 :: nat vec) \<and> (\<exists>v'. vector_set_index (vector_init 0 :: nat vec) 5 (Some 7) = Some (5, v') \<and> vec_map v' = [5 \<mapsto> 7]) \<and>
    vector_count (vector_init 0 :: nat vec) = Some 0"
  using vector_implements_map [of "vector_init 0 :: nat vec" 5 "Some 7"] by (auto simp: init_ok)

end
