(* ===== verification/Route_Map.thy ===== *)
theory Route_Map
  imports Access_List Vector "HOL-Library.Monad_Syntax"
begin

text \<open>
  \<^verbatim>\<open>lib/routemap.c\<close>: route maps, the programs of clauses that decide about a route and change it.  The route maps of
  the master, the clauses of a route map and the rules of a clause are the sequences of the linked chains.  A clause has an
  address, which no later clause gets again, so that a pointer kept in a terminal can be told to dangle.  The rules are
  made of function pointers: a table \<open>cmds\<close> gives, for every structure \<^verbatim>\<open>route_map_rule_cmd\<close> of the daemons, its
  name and its functions; a rule may change the object \<open>'o\<close> it is applied to.  The hooks are recorded as the calls made to them.
\<close>

section \<open>Data\<close>

datatype route_map_type = RMAP_PERMIT | RMAP_DENY | RMAP_ANY

datatype route_map_result_t = RMAP_MATCH | RMAP_DENYMATCH | RMAP_NOMATCH | RMAP_ERROR | RMAP_OKAY

datatype route_map_object_t = RMAP_RIP | RMAP_RIPNG | RMAP_BABEL | RMAP_OSPF | RMAP_OSPF6 | RMAP_BGP | RMAP_ZEBRA | RMAP_ISIS

datatype route_map_end_t = RMAP_EXIT | RMAP_GOTO | RMAP_NEXT

datatype route_map_event_t =
  RMAP_EVENT_SET_ADDED | RMAP_EVENT_SET_DELETED | RMAP_EVENT_SET_REPLACED | RMAP_EVENT_MATCH_ADDED | RMAP_EVENT_MATCH_DELETED |
  RMAP_EVENT_MATCH_REPLACED | RMAP_EVENT_INDEX_ADDED | RMAP_EVENT_INDEX_DELETED

datatype rmap_hook = Hook_add string | Hook_delete string | Hook_event route_map_event_t string

type_synonym cmd_ptr = nat

record ('v, 'o) route_map_rule_cmd =
  rc_str :: string
  rc_apply :: "'v option \<Rightarrow> prefix_t \<Rightarrow> route_map_object_t \<Rightarrow> 'o \<Rightarrow> route_map_result_t \<times> 'o"
  rc_compile :: "(string option \<Rightarrow> 'v option) option"

type_synonym ('v, 'o) rule_cmds = "cmd_ptr \<Rightarrow> ('v, 'o) route_map_rule_cmd"

record 'v route_map_rule =
  ru_cmd :: cmd_ptr
  ru_str :: "string option"
  ru_value :: "'v option"

record 'v route_map_index =
  ri_addr :: nat
  ri_description :: "string option"
  ri_pref :: int
  ri_type :: route_map_type
  ri_exitpolicy :: route_map_end_t
  ri_nextpref :: int
  ri_nextrm :: "string option"
  ri_match :: "'v route_map_rule list"
  ri_set :: "'v route_map_rule list"

record 'v route_map =
  rm_name :: string
  rm_indexes :: "'v route_map_index list"

record 'v rmap_state =
  rs_maps :: "'v route_map list"
  rs_add_hook :: bool
  rs_delete_hook :: bool
  rs_event_hook :: bool
  rs_calls :: "rmap_hook list"
  rs_next :: nat
  route_match_vec :: "cmd_ptr vec"
  route_set_vec :: "cmd_ptr vec"

abbreviation RMAP_RECURSION_LIMIT :: int where "RMAP_RECURSION_LIMIT \<equiv> 10"

abbreviation RMAP_RULE_MISSING :: nat where "RMAP_RULE_MISSING \<equiv> 1"

abbreviation RMAP_COMPILE_ERROR :: nat where "RMAP_COMPILE_ERROR \<equiv> 2"

section \<open>Route maps\<close>

definition rmap_call_hook :: "bool \<Rightarrow> rmap_hook \<Rightarrow> 'v rmap_state \<Rightarrow> 'v rmap_state" where
  "rmap_call_hook on h s = (if on then s\<lparr>rs_calls := rs_calls s @ [h]\<rparr> else s)"

definition in_map :: "nat \<Rightarrow> ('v route_map \<Rightarrow> 'v route_map) \<Rightarrow> 'v rmap_state \<Rightarrow> 'v rmap_state" where
  "in_map m f s = s\<lparr>rs_maps := (rs_maps s)[m := f (rs_maps s ! m)]\<rparr>"

definition route_map_new :: "string \<Rightarrow> 'v route_map" where
  "route_map_new name = \<lparr>rm_name = name, rm_indexes = []\<rparr>"

definition route_map_add :: "string \<Rightarrow> 'v rmap_state \<Rightarrow> nat \<times> 'v rmap_state" where
  "route_map_add name s =
     (length (rs_maps s), rmap_call_hook (rs_add_hook s) (Hook_add name) (s\<lparr>rs_maps := rs_maps s @ [route_map_new name]\<rparr>))"

definition route_map_lookup_by_name :: "string \<Rightarrow> 'v rmap_state \<Rightarrow> nat option" where
  "route_map_lookup_by_name name s = index_of (\<lambda>m. rm_name m = name) (rs_maps s)"

definition route_map_get :: "string \<Rightarrow> 'v rmap_state \<Rightarrow> nat \<times> 'v rmap_state" where
  "route_map_get name s = (case route_map_lookup_by_name name s of Some m \<Rightarrow> (m, s) | None \<Rightarrow> route_map_add name s)"

definition route_map_empty :: "'v route_map \<Rightarrow> bool" where
  "route_map_empty rm = (rm_indexes rm = [])"

section \<open>Clauses\<close>

definition route_map_index_new :: "nat \<Rightarrow> 'v route_map_index" where
  "route_map_index_new a =
     \<lparr>ri_addr = a, ri_description = None, ri_pref = 0, ri_type = RMAP_PERMIT, ri_exitpolicy = RMAP_EXIT, ri_nextpref = 0,
      ri_nextrm = None, ri_match = [], ri_set = []\<rparr>"

text \<open>The clause is unlinked and freed with its rules.\<close>

definition route_map_index_delete :: "nat \<Rightarrow> nat \<Rightarrow> bool \<Rightarrow> 'v rmap_state \<Rightarrow> 'v rmap_state" where
  "route_map_index_delete m i notify s =
     rmap_call_hook (rs_event_hook s \<and> notify) (Hook_event RMAP_EVENT_INDEX_DELETED (rm_name (rs_maps s ! m)))
       (in_map m (\<lambda>map. map\<lparr>rm_indexes := unlink i (rm_indexes map)\<rparr>) s)"

definition route_map_index_lookup :: "'v route_map \<Rightarrow> route_map_type \<Rightarrow> int \<Rightarrow> nat option" where
  "route_map_index_lookup rm type pref =
     index_of (\<lambda>i. (ri_type i = type \<or> type = RMAP_ANY) \<and> ri_pref i = pref) (rm_indexes rm)"

definition route_map_index_add :: "nat \<Rightarrow> route_map_type \<Rightarrow> int \<Rightarrow> 'v rmap_state \<Rightarrow> nat \<times> 'v rmap_state" where
  "route_map_index_add m type pref s =
     (let new = (route_map_index_new (rs_next s))\<lparr>ri_type := type, ri_pref := pref\<rparr>;
          (i, xs) = insert_at (\<lambda>x. ri_pref x \<ge> pref) new (rm_indexes (rs_maps s ! m));
          s1 = in_map m (\<lambda>map. map\<lparr>rm_indexes := xs\<rparr>) (s\<lparr>rs_next := rs_next s + 1\<rparr>)
      in (i, rmap_call_hook (rs_event_hook s) (Hook_event RMAP_EVENT_INDEX_ADDED (rm_name (rs_maps s ! m))) s1))"

definition route_map_index_get :: "nat \<Rightarrow> route_map_type \<Rightarrow> int \<Rightarrow> 'v rmap_state \<Rightarrow> nat \<times> 'v rmap_state" where
  "route_map_index_get m type pref s =
     (case route_map_index_lookup (rs_maps s ! m) RMAP_ANY pref of
        Some i \<Rightarrow>
          if ri_type (rm_indexes (rs_maps s ! m) ! i) \<noteq> type
          then route_map_index_add m type pref (route_map_index_delete m i True s)
          else (i, s)
      | None \<Rightarrow> route_map_index_add m type pref s)"

text \<open>\<^verbatim>\<open>while ((index = map->head) != NULL) route_map_index_delete (index, 0);\<close>\<close>

fun index_delete_all :: "nat \<Rightarrow> nat \<Rightarrow> 'v rmap_state \<Rightarrow> 'v rmap_state" where
  "index_delete_all 0 m s = s"
| "index_delete_all (Suc n) m s = index_delete_all n m (route_map_index_delete m 0 False s)"

definition route_map_delete :: "nat \<Rightarrow> 'v rmap_state \<Rightarrow> 'v rmap_state" where
  "route_map_delete m s =
     (let name = rm_name (rs_maps s ! m);
          s1 = index_delete_all (length (rm_indexes (rs_maps s ! m))) m s;
          s2 = s1\<lparr>rs_maps := unlink m (rs_maps s1)\<rparr>
      in rmap_call_hook (rs_delete_hook s2) (Hook_delete name) s2)"

section \<open>Rules\<close>

definition route_map_install_match :: "cmd_ptr \<Rightarrow> 'v rmap_state \<Rightarrow> 'v rmap_state option" where
  "route_map_install_match c s = map_option (\<lambda>(_, v). s\<lparr>route_match_vec := v\<rparr>) (vector_set (route_match_vec s) (Some c))"

definition route_map_install_set :: "cmd_ptr \<Rightarrow> 'v rmap_state \<Rightarrow> 'v rmap_state option" where
  "route_map_install_set c s = map_option (\<lambda>(_, v). s\<lparr>route_set_vec := v\<rparr>) (vector_set (route_set_vec s) (Some c))"

fun rule_lookup_loop :: "('v, 'o) rule_cmds \<Rightarrow> string \<Rightarrow> cmd_ptr option list \<Rightarrow> cmd_ptr option" where
  "rule_lookup_loop cmds name [] = None"
| "rule_lookup_loop cmds name (x # xs) =
     (case x of
        None \<Rightarrow> rule_lookup_loop cmds name xs
      | Some c \<Rightarrow> if rc_str (cmds c) = name then Some c else rule_lookup_loop cmds name xs)"

definition route_map_lookup_match :: "('v, 'o) rule_cmds \<Rightarrow> string \<Rightarrow> 'v rmap_state \<Rightarrow> cmd_ptr option" where
  "route_map_lookup_match cmds name s = rule_lookup_loop cmds name (take (active (route_match_vec s)) (index (route_match_vec s)))"

definition route_map_lookup_set :: "('v, 'o) rule_cmds \<Rightarrow> string \<Rightarrow> 'v rmap_state \<Rightarrow> cmd_ptr option" where
  "route_map_lookup_set cmds name s = rule_lookup_loop cmds name (take (active (route_set_vec s)) (index (route_set_vec s)))"

text \<open>Where the clause at an address is: its route map and its place in it; \<open>None\<close> for a freed clause.\<close>

fun find_addr :: "nat \<Rightarrow> nat \<Rightarrow> 'v route_map list \<Rightarrow> (nat \<times> nat) option" where
  "find_addr a m [] = None"
| "find_addr a m (x # xs) =
     (case index_of (\<lambda>i. ri_addr i = a) (rm_indexes x) of Some i \<Rightarrow> Some (m, i) | None \<Rightarrow> find_addr a (Suc m) xs)"

definition index_at :: "nat option \<Rightarrow> 'v rmap_state \<Rightarrow> 'v route_map_index option" where
  "index_at ptr s = do {
     a \<leftarrow> ptr;
     (m, i) \<leftarrow> find_addr a 0 (rs_maps s);
     Some (rm_indexes (rs_maps s ! m) ! i)
   }"

definition index_upd :: "nat option \<Rightarrow> ('v route_map_index \<Rightarrow> 'v route_map_index) \<Rightarrow> 'v rmap_state \<Rightarrow> 'v rmap_state option" where
  "index_upd ptr f s = do {
     a \<leftarrow> ptr;
     (m, i) \<leftarrow> find_addr a 0 (rs_maps s);
     Some (in_map m (\<lambda>map. map\<lparr>rm_indexes := (rm_indexes map)[i := f (rm_indexes map ! i)]\<rparr>) s)
   }"

definition map_name_of :: "nat option \<Rightarrow> 'v rmap_state \<Rightarrow> string option" where
  "map_name_of ptr s = do {
     a \<leftarrow> ptr;
     (m, i) \<leftarrow> find_addr a 0 (rs_maps s);
     Some (rm_name (rs_maps s ! m))
   }"

definition rulecmp :: "string option \<Rightarrow> string option \<Rightarrow> bool" where
  "rulecmp dst src = (case (dst, src) of (None, None) \<Rightarrow> True | (Some d, Some x) \<Rightarrow> d = x | _ \<Rightarrow> False)"

text \<open>The answer of a compile function; a command without one has no value.\<close>

definition rule_compile :: "('v, 'o) route_map_rule_cmd \<Rightarrow> string option \<Rightarrow> 'v option option" where
  "rule_compile c arg = (case rc_compile c of None \<Rightarrow> Some None | Some f \<Rightarrow> (case f arg of None \<Rightarrow> None | Some v \<Rightarrow> Some (Some v)))"

text \<open>The rules of the same command are deleted, and the new one goes to the end.\<close>

definition rule_replace :: "cmd_ptr \<Rightarrow> string option \<Rightarrow> 'v option \<Rightarrow> 'v route_map_rule list \<Rightarrow> 'v route_map_rule list" where
  "rule_replace c arg v rules = filter (\<lambda>r. ru_cmd r \<noteq> c) rules @ [\<lparr>ru_cmd = c, ru_str = arg, ru_value = v\<rparr>]"

definition rule_find :: "cmd_ptr \<Rightarrow> string option \<Rightarrow> 'v route_map_rule list \<Rightarrow> nat option" where
  "rule_find c arg rules = index_of (\<lambda>r. ru_cmd r = c \<and> (rulecmp (ru_str r) arg \<or> arg = None)) rules"

definition route_map_add_match :: "('v, 'o) rule_cmds \<Rightarrow> nat option \<Rightarrow> string \<Rightarrow> string option \<Rightarrow> 'v rmap_state \<Rightarrow> (nat \<times> 'v rmap_state) option" where
  "route_map_add_match cmds a name arg s =
     (case route_map_lookup_match cmds name s of
        None \<Rightarrow> Some (RMAP_RULE_MISSING, s)
      | Some c \<Rightarrow>
          (case rule_compile (cmds c) arg of
             None \<Rightarrow> Some (RMAP_COMPILE_ERROR, s)
           | Some v \<Rightarrow> do {
               ix \<leftarrow> index_at a s;
               nm \<leftarrow> map_name_of a s;
               s1 \<leftarrow> index_upd a (\<lambda>i. i\<lparr>ri_match := rule_replace c arg v (ri_match i)\<rparr>) s;
               let replaced = (\<exists>r \<in> set (ri_match ix). ru_cmd r = c);
               Some (0, rmap_call_hook (rs_event_hook s)
                          (Hook_event (if replaced then RMAP_EVENT_MATCH_REPLACED else RMAP_EVENT_MATCH_ADDED) nm) s1)
             }))"

definition route_map_delete_match :: "('v, 'o) rule_cmds \<Rightarrow> nat option \<Rightarrow> string \<Rightarrow> string option \<Rightarrow> 'v rmap_state \<Rightarrow> (nat \<times> 'v rmap_state) option" where
  "route_map_delete_match cmds a name arg s =
     (case route_map_lookup_match cmds name s of
        None \<Rightarrow> Some (1, s)
      | Some c \<Rightarrow> do {
          ix \<leftarrow> index_at a s;
          nm \<leftarrow> map_name_of a s;
          case rule_find c arg (ri_match ix) of
            None \<Rightarrow> Some (1, s)
          | Some j \<Rightarrow> do {
              s1 \<leftarrow> index_upd a (\<lambda>i. i\<lparr>ri_match := unlink j (ri_match i)\<rparr>) s;
              Some (0, rmap_call_hook (rs_event_hook s) (Hook_event RMAP_EVENT_MATCH_DELETED nm) s1)
            }
        })"

definition route_map_add_set :: "('v, 'o) rule_cmds \<Rightarrow> nat option \<Rightarrow> string \<Rightarrow> string option \<Rightarrow> 'v rmap_state \<Rightarrow> (nat \<times> 'v rmap_state) option" where
  "route_map_add_set cmds a name arg s =
     (case route_map_lookup_set cmds name s of
        None \<Rightarrow> Some (RMAP_RULE_MISSING, s)
      | Some c \<Rightarrow>
          (case rule_compile (cmds c) arg of
             None \<Rightarrow> Some (RMAP_COMPILE_ERROR, s)
           | Some v \<Rightarrow> do {
               ix \<leftarrow> index_at a s;
               nm \<leftarrow> map_name_of a s;
               s1 \<leftarrow> index_upd a (\<lambda>i. i\<lparr>ri_set := rule_replace c arg v (ri_set i)\<rparr>) s;
               let replaced = (\<exists>r \<in> set (ri_set ix). ru_cmd r = c);
               Some (0, rmap_call_hook (rs_event_hook s)
                          (Hook_event (if replaced then RMAP_EVENT_SET_REPLACED else RMAP_EVENT_SET_ADDED) nm) s1)
             }))"

definition route_map_delete_set :: "('v, 'o) rule_cmds \<Rightarrow> nat option \<Rightarrow> string \<Rightarrow> string option \<Rightarrow> 'v rmap_state \<Rightarrow> (nat \<times> 'v rmap_state) option" where
  "route_map_delete_set cmds a name arg s =
     (case route_map_lookup_set cmds name s of
        None \<Rightarrow> Some (1, s)
      | Some c \<Rightarrow> do {
          ix \<leftarrow> index_at a s;
          nm \<leftarrow> map_name_of a s;
          case rule_find c arg (ri_set ix) of
            None \<Rightarrow> Some (1, s)
          | Some j \<Rightarrow> do {
              s1 \<leftarrow> index_upd a (\<lambda>i. i\<lparr>ri_set := unlink j (ri_set i)\<rparr>) s;
              Some (0, rmap_call_hook (rs_event_hook s) (Hook_event RMAP_EVENT_SET_DELETED nm) s1)
            }
        })"

section \<open>Applying a route map\<close>

fun match_rules :: "('v, 'o) rule_cmds \<Rightarrow> prefix_t \<Rightarrow> route_map_object_t \<Rightarrow> 'v route_map_rule list \<Rightarrow> 'o \<Rightarrow> route_map_result_t \<times> 'o" where
  "match_rules cmds p type [] ob = (RMAP_MATCH, ob)"
| "match_rules cmds p type (r # rs) ob =
     (let (ret, ob1) = rc_apply (cmds (ru_cmd r)) (ru_value r) p type ob
      in if ret \<noteq> RMAP_MATCH then (ret, ob1) else match_rules cmds p type rs ob1)"

definition route_map_apply_match ::
    "('v, 'o) rule_cmds \<Rightarrow> prefix_t \<Rightarrow> route_map_object_t \<Rightarrow> 'v route_map_rule list \<Rightarrow> 'o \<Rightarrow> route_map_result_t \<times> 'o" where
  "route_map_apply_match cmds p type rules ob = (if rules = [] then (RMAP_MATCH, ob) else match_rules cmds p type rules ob)"

fun set_rules ::
    "('v, 'o) rule_cmds \<Rightarrow> prefix_t \<Rightarrow> route_map_object_t \<Rightarrow> 'v route_map_rule list \<Rightarrow> route_map_result_t \<Rightarrow> 'o \<Rightarrow> route_map_result_t \<times> 'o" where
  "set_rules cmds p type [] ret ob = (ret, ob)"
| "set_rules cmds p type (r # rs) ret ob =
     (let (ret1, ob1) = rc_apply (cmds (ru_cmd r)) (ru_value r) p type ob in set_rules cmds p type rs ret1 ob1)"

text \<open>\<^verbatim>\<open>while (next && next->pref < nextpref)\<close>\<close>

fun goto_clause :: "int \<Rightarrow> 'v route_map_index list \<Rightarrow> 'v route_map_index list" where
  "goto_clause nextpref [] = []"
| "goto_clause nextpref (i # is) = (if ri_pref i < nextpref then goto_clause nextpref is else i # is)"

text \<open>
  The loop over the clauses of a route map, from a clause on.  The static counter \<^verbatim>\<open>recursion\<close> is an argument and a
  result; a call of a route map below the limit runs the loop over its clauses.
\<close>

partial_function (option) apply_clauses ::
    "('v, 'o) rule_cmds \<Rightarrow> 'v rmap_state \<Rightarrow> prefix_t \<Rightarrow> route_map_object_t \<Rightarrow> 'v route_map_index list \<Rightarrow> int \<Rightarrow> 'o \<Rightarrow>
     (route_map_result_t \<times> int \<times> 'o) option" where
  "apply_clauses cmds s p type clauses recursion ob =
     (case clauses of
        [] \<Rightarrow> Some (RMAP_DENYMATCH, recursion, ob)
      | i # rest \<Rightarrow>
          let (ret, ob1) = route_map_apply_match cmds p type (ri_match i) ob in
          if ret = RMAP_NOMATCH then apply_clauses cmds s p type rest recursion ob1
          else if ret = RMAP_MATCH then
            (if ri_type i = RMAP_PERMIT then
               (let (ret2, ob2) = set_rules cmds p type (ri_set i) ret ob1 in do {
                  (ret3, recursion3, ob3) \<leftarrow>
                    (case Option.bind (ri_nextrm i) (\<lambda>name. route_map_lookup_by_name name s) of
                       None \<Rightarrow> Some (ret2, recursion, ob2)
                     | Some m \<Rightarrow> do {
                         (ret', recursion', ob') \<leftarrow>
                           (if recursion + 1 > RMAP_RECURSION_LIMIT then Some (RMAP_DENYMATCH, 0, ob2)
                            else apply_clauses cmds s p type (rm_indexes (rs_maps s ! m)) (recursion + 1) ob2);
                         Some (ret', recursion' - 1, ob')
                       });
                  if ri_nextrm i \<noteq> None \<and> ret3 = RMAP_DENYMATCH then Some (ret3, recursion3, ob3)
                  else
                    (case ri_exitpolicy i of
                       RMAP_EXIT \<Rightarrow> Some (ret3, recursion3, ob3)
                     | RMAP_NEXT \<Rightarrow> apply_clauses cmds s p type rest recursion3 ob3
                     | RMAP_GOTO \<Rightarrow>
                         if goto_clause (ri_nextpref i) rest = [] then Some (ret3, recursion3, ob3)
                         else apply_clauses cmds s p type (goto_clause (ri_nextpref i) rest) recursion3 ob3)
                })
             else if ri_type i = RMAP_DENY then Some (RMAP_DENYMATCH, recursion, ob1)
             else apply_clauses cmds s p type rest recursion ob1)
          else apply_clauses cmds s p type rest recursion ob1)"

definition route_map_apply ::
    "('v, 'o) rule_cmds \<Rightarrow> 'v rmap_state \<Rightarrow> 'v route_map option \<Rightarrow> prefix_t \<Rightarrow> route_map_object_t \<Rightarrow> int \<Rightarrow> 'o \<Rightarrow>
     (route_map_result_t \<times> int \<times> 'o) option" where
  "route_map_apply cmds s rmap p type recursion ob =
     (if recursion > RMAP_RECURSION_LIMIT then Some (RMAP_DENYMATCH, 0, ob)
      else
        (case rmap of
           None \<Rightarrow> Some (RMAP_DENYMATCH, recursion, ob)
         | Some rm \<Rightarrow> apply_clauses cmds s p type (rm_indexes rm) recursion ob))"

text \<open>\<^verbatim>\<open>route_map_init\<close> makes the two vectors; the chains are empty and no hook is set.\<close>

definition route_map_init :: "'v rmap_state" where
  "route_map_init = \<lparr>rs_maps = [], rs_add_hook = False, rs_delete_hook = False, rs_event_hook = False, rs_calls = [], rs_next = 0,
     route_match_vec = vector_init 1, route_set_vec = vector_init 1\<rparr>"

definition route_map_add_hook :: "'v rmap_state \<Rightarrow> 'v rmap_state" where
  "route_map_add_hook s = s\<lparr>rs_add_hook := True\<rparr>"

definition route_map_delete_hook :: "'v rmap_state \<Rightarrow> 'v rmap_state" where
  "route_map_delete_hook s = s\<lparr>rs_delete_hook := True\<rparr>"

definition route_map_event_hook :: "'v rmap_state \<Rightarrow> 'v rmap_state" where
  "route_map_event_hook s = s\<lparr>rs_event_hook := True\<rparr>"

text \<open>\<^verbatim>\<open>while (route_map_master.head) route_map_delete (route_map_master.head);\<close>\<close>

fun delete_maps :: "nat \<Rightarrow> 'v rmap_state \<Rightarrow> 'v rmap_state" where
  "delete_maps 0 s = s"
| "delete_maps (Suc n) s = delete_maps n (route_map_delete 0 s)"

definition route_map_finish :: "'v rmap_state \<Rightarrow> 'v rmap_state" where
  "route_map_finish s = delete_maps (length (rs_maps s)) s"

section \<open>Commands\<close>

text \<open>
  \<^verbatim>\<open>strtoul\<close> with base 10: the value, the rest of the string and whether the value did not fit.  A minus sign negates
  the value modulo the word size; without digits the rest is the whole string.
\<close>

abbreviation ULONG_MAX :: int where "ULONG_MAX \<equiv> 2 ^ 64 - 1"

abbreviation is_digit :: "char \<Rightarrow> bool" where "is_digit c \<equiv> CHR ''0'' \<le> c \<and> c \<le> CHR ''9''"

definition strtoul :: "string \<Rightarrow> int \<times> string \<times> bool" where
  "strtoul str =
     (let t = dropWhile isspace str;
          neg = (t \<noteq> [] \<and> hd t = CHR ''-'');
          u = (if t \<noteq> [] \<and> (hd t = CHR ''-'' \<or> hd t = CHR ''+'') then tl t else t);
          digits = takeWhile is_digit u;
          v = dec_val 0 digits
      in if digits = [] then (0, str, False)
         else if v > ULONG_MAX then (ULONG_MAX, dropWhile is_digit u, True)
         else (if neg then (- v) mod 2 ^ 64 else v, dropWhile is_digit u, False))"

definition rmap_type_arg :: "string \<Rightarrow> route_map_type option" where
  "rmap_type_arg arg = (if prefix arg ''permit'' then Some RMAP_PERMIT else if prefix arg ''deny'' then Some RMAP_DENY else None)"

definition rmap_pref_arg :: "string \<Rightarrow> int option" where
  "rmap_pref_arg arg =
     (let (pref, endptr, _) = strtoul arg
      in if pref = ULONG_MAX \<or> endptr \<noteq> [] then None else if pref = 0 \<or> pref > 65535 then None else Some pref)"

definition VTY_GET_INTEGER_RANGE :: "string \<Rightarrow> int \<Rightarrow> int \<Rightarrow> int option" where
  "VTY_GET_INTEGER_RANGE str lo hi =
     (let (v, endptr, errno) = strtoul str
      in if str \<noteq> [] \<and> hd str = CHR ''-'' \<or> endptr \<noteq> [] \<or> errno then None
         else if v < lo \<or> v > hi then None else Some v)"

datatype node_type = CONFIG_NODE | RMAP_NODE

record 'v rmap_vty =
  vty_node :: node_type
  vty_index :: "nat option"
  vty_rmap :: "'v rmap_state"

definition route_map_cmd :: "string \<Rightarrow> string \<Rightarrow> string \<Rightarrow> 'v rmap_vty \<Rightarrow> cmd_result \<times> 'v rmap_vty" where
  "route_map_cmd name typ num v =
     (case rmap_type_arg typ of
        None \<Rightarrow> (CMD_WARNING, v)
      | Some permit \<Rightarrow>
          (case rmap_pref_arg num of
             None \<Rightarrow> (CMD_WARNING, v)
           | Some pref \<Rightarrow>
               let (m, s1) = route_map_get name (vty_rmap v);
                   (i, s2) = route_map_index_get m permit pref s1
               in (CMD_SUCCESS, \<lparr>vty_node = RMAP_NODE, vty_index = Some (ri_addr (rm_indexes (rs_maps s2 ! m) ! i)), vty_rmap = s2\<rparr>)))"

definition no_route_map_all :: "string \<Rightarrow> 'v rmap_vty \<Rightarrow> cmd_result \<times> 'v rmap_vty" where
  "no_route_map_all name v =
     (case route_map_lookup_by_name name (vty_rmap v) of
        None \<Rightarrow> (CMD_WARNING, v)
      | Some m \<Rightarrow> (CMD_SUCCESS, v\<lparr>vty_rmap := route_map_delete m (vty_rmap v)\<rparr>))"

definition no_route_map :: "string \<Rightarrow> string \<Rightarrow> string \<Rightarrow> 'v rmap_vty \<Rightarrow> cmd_result \<times> 'v rmap_vty" where
  "no_route_map name typ num v =
     (case rmap_type_arg typ of
        None \<Rightarrow> (CMD_WARNING, v)
      | Some permit \<Rightarrow>
          (case rmap_pref_arg num of
             None \<Rightarrow> (CMD_WARNING, v)
           | Some pref \<Rightarrow>
               (case route_map_lookup_by_name name (vty_rmap v) of
                  None \<Rightarrow> (CMD_WARNING, v)
                | Some m \<Rightarrow>
                    (case route_map_index_lookup (rs_maps (vty_rmap v) ! m) permit pref of
                       None \<Rightarrow> (CMD_WARNING, v)
                     | Some i \<Rightarrow>
                         let s1 = route_map_index_delete m i True (vty_rmap v)
                         in (CMD_SUCCESS, v\<lparr>vty_rmap := if route_map_empty (rs_maps s1 ! m) then route_map_delete m s1 else s1\<rparr>)))))"

text \<open>\<^verbatim>\<open>if (index) index->... = ...;\<close>\<close>

definition on_index :: "('v route_map_index \<Rightarrow> 'v route_map_index) \<Rightarrow> 'v rmap_vty \<Rightarrow> (cmd_result \<times> 'v rmap_vty) option" where
  "on_index f v =
     (if vty_index v = None then Some (CMD_SUCCESS, v)
      else map_option (\<lambda>s. (CMD_SUCCESS, v\<lparr>vty_rmap := s\<rparr>)) (index_upd (vty_index v) f (vty_rmap v)))"

definition rmap_onmatch_next :: "'v rmap_vty \<Rightarrow> (cmd_result \<times> 'v rmap_vty) option" where
  "rmap_onmatch_next v = on_index (\<lambda>i. i\<lparr>ri_exitpolicy := RMAP_NEXT\<rparr>) v"

definition no_rmap_onmatch_next :: "'v rmap_vty \<Rightarrow> (cmd_result \<times> 'v rmap_vty) option" where
  "no_rmap_onmatch_next v = on_index (\<lambda>i. i\<lparr>ri_exitpolicy := RMAP_EXIT\<rparr>) v"

definition rmap_onmatch_goto :: "string option \<Rightarrow> 'v rmap_vty \<Rightarrow> (cmd_result \<times> 'v rmap_vty) option" where
  "rmap_onmatch_goto arg v =
     (if vty_index v = None then Some (CMD_SUCCESS, v)
      else do {
        ix \<leftarrow> index_at (vty_index v) (vty_rmap v);
        case (case arg of Some str \<Rightarrow> VTY_GET_INTEGER_RANGE str 1 65536 | None \<Rightarrow> Some (ri_pref ix + 1)) of
          None \<Rightarrow> Some (CMD_WARNING, v)
        | Some d \<Rightarrow>
            if d \<le> ri_pref ix then Some (CMD_WARNING, v)
            else on_index (\<lambda>i. i\<lparr>ri_exitpolicy := RMAP_GOTO, ri_nextpref := d\<rparr>) v
      })"

definition no_rmap_onmatch_goto :: "'v rmap_vty \<Rightarrow> (cmd_result \<times> 'v rmap_vty) option" where
  "no_rmap_onmatch_goto v = on_index (\<lambda>i. i\<lparr>ri_exitpolicy := RMAP_EXIT\<rparr>) v"

definition rmap_call :: "string \<Rightarrow> 'v rmap_vty \<Rightarrow> (cmd_result \<times> 'v rmap_vty) option" where
  "rmap_call name v = on_index (\<lambda>i. i\<lparr>ri_nextrm := Some name\<rparr>) v"

text \<open>This command does not test the pointer.\<close>

definition no_rmap_call :: "'v rmap_vty \<Rightarrow> (cmd_result \<times> 'v rmap_vty) option" where
  "no_rmap_call v = map_option (\<lambda>s. (CMD_SUCCESS, v\<lparr>vty_rmap := s\<rparr>)) (index_upd (vty_index v) (\<lambda>i. i\<lparr>ri_nextrm := None\<rparr>) (vty_rmap v))"

definition rmap_description :: "string \<Rightarrow> 'v rmap_vty \<Rightarrow> (cmd_result \<times> 'v rmap_vty) option" where
  "rmap_description text v = on_index (\<lambda>i. i\<lparr>ri_description := Some text\<rparr>) v"

definition no_rmap_description :: "'v rmap_vty \<Rightarrow> (cmd_result \<times> 'v rmap_vty) option" where
  "no_rmap_description v = on_index (\<lambda>i. i\<lparr>ri_description := None\<rparr>) v"

text \<open>The commands \<^verbatim>\<open>match\<close> and \<^verbatim>\<open>set\<close> of the daemons: a return value other than 0 gives a warning.\<close>

definition rule_result :: "'v rmap_vty \<Rightarrow> (nat \<times> 'v rmap_state) option \<Rightarrow> (cmd_result \<times> 'v rmap_vty) option" where
  "rule_result v r = map_option (\<lambda>(ret, s). (if ret \<noteq> 0 then CMD_WARNING else CMD_SUCCESS, v\<lparr>vty_rmap := s\<rparr>)) r"

definition zebra_route_match_add :: "('v, 'o) rule_cmds \<Rightarrow> string \<Rightarrow> string option \<Rightarrow> 'v rmap_vty \<Rightarrow> (cmd_result \<times> 'v rmap_vty) option" where
  "zebra_route_match_add cmds command arg v = rule_result v (route_map_add_match cmds (vty_index v) command arg (vty_rmap v))"

definition zebra_route_match_delete :: "('v, 'o) rule_cmds \<Rightarrow> string \<Rightarrow> string option \<Rightarrow> 'v rmap_vty \<Rightarrow> (cmd_result \<times> 'v rmap_vty) option" where
  "zebra_route_match_delete cmds command arg v = rule_result v (route_map_delete_match cmds (vty_index v) command arg (vty_rmap v))"

definition zebra_route_set_add :: "('v, 'o) rule_cmds \<Rightarrow> string \<Rightarrow> string option \<Rightarrow> 'v rmap_vty \<Rightarrow> (cmd_result \<times> 'v rmap_vty) option" where
  "zebra_route_set_add cmds command arg v = rule_result v (route_map_add_set cmds (vty_index v) command arg (vty_rmap v))"

definition zebra_route_set_delete :: "('v, 'o) rule_cmds \<Rightarrow> string \<Rightarrow> string option \<Rightarrow> 'v rmap_vty \<Rightarrow> (cmd_result \<times> 'v rmap_vty) option" where
  "zebra_route_set_delete cmds command arg v = rule_result v (route_map_delete_set cmds (vty_index v) command arg (vty_rmap v))"

datatype rmap_cmd =
  Route_map string string string | No_route_map_all string | No_route_map string string string
| Onmatch_next | No_onmatch_next | Onmatch_goto "string option" | No_onmatch_goto | Call string | No_call
| Description string | No_description
| Match string "string option" | No_match string "string option" | Set string "string option" | No_set string "string option"
| Exit

text \<open>The nodes in which a command is installed.\<close>

fun installed :: "node_type \<Rightarrow> rmap_cmd \<Rightarrow> bool" where
  "installed nd (Route_map _ _ _) = True"
| "installed nd (No_route_map_all _) = (nd = CONFIG_NODE)"
| "installed nd (No_route_map _ _ _) = (nd = CONFIG_NODE)"
| "installed nd _ = (nd = RMAP_NODE)"

fun cmd_run :: "('v, 'o) rule_cmds \<Rightarrow> rmap_cmd \<Rightarrow> 'v rmap_vty \<Rightarrow> (cmd_result \<times> 'v rmap_vty) option" where
  "cmd_run cmds (Route_map name typ num) v = Some (route_map_cmd name typ num v)"
| "cmd_run cmds (No_route_map_all name) v = Some (no_route_map_all name v)"
| "cmd_run cmds (No_route_map name typ num) v = Some (no_route_map name typ num v)"
| "cmd_run cmds Onmatch_next v = rmap_onmatch_next v"
| "cmd_run cmds No_onmatch_next v = no_rmap_onmatch_next v"
| "cmd_run cmds (Onmatch_goto arg) v = rmap_onmatch_goto arg v"
| "cmd_run cmds No_onmatch_goto v = no_rmap_onmatch_goto v"
| "cmd_run cmds (Call name) v = rmap_call name v"
| "cmd_run cmds No_call v = no_rmap_call v"
| "cmd_run cmds (Description text) v = rmap_description text v"
| "cmd_run cmds No_description v = no_rmap_description v"
| "cmd_run cmds (Match command arg) v = zebra_route_match_add cmds command arg v"
| "cmd_run cmds (No_match command arg) v = zebra_route_match_delete cmds command arg v"
| "cmd_run cmds (Set command arg) v = zebra_route_set_add cmds command arg v"
| "cmd_run cmds (No_set command arg) v = zebra_route_set_delete cmds command arg v"
| "cmd_run cmds Exit v = Some (CMD_SUCCESS, v\<lparr>vty_node := CONFIG_NODE\<rparr>)"

text \<open>
  \<^verbatim>\<open>cmd_execute_command\<close>: a command that the node of the terminal does not have is tried in the parent node, which
  becomes the node of the terminal if it has the command.  The inner \<open>None\<close> of the result is the answer that there is no such command.
\<close>

definition cmd_execute_command :: "('v, 'o) rule_cmds \<Rightarrow> rmap_cmd \<Rightarrow> 'v rmap_vty \<Rightarrow> (cmd_result option \<times> 'v rmap_vty) option" where
  "cmd_execute_command cmds c v =
     (if installed (vty_node v) c then map_option (\<lambda>(r, w). (Some r, w)) (cmd_run cmds c v)
      else if vty_node v = RMAP_NODE \<and> installed CONFIG_NODE c
      then map_option (\<lambda>(r, w). (Some r, w)) (cmd_run cmds c (v\<lparr>vty_node := CONFIG_NODE\<rparr>))
      else Some (None, v))"

section \<open>One clause at a time\<close>

text \<open>The call of a clause, and what its exit policy does with the answer.\<close>

definition call_map :: "('v, 'o) rule_cmds \<Rightarrow> 'v rmap_state \<Rightarrow> prefix_t \<Rightarrow> route_map_object_t \<Rightarrow> 'v route_map_index \<Rightarrow> int \<Rightarrow> route_map_result_t \<Rightarrow> 'o \<Rightarrow>
    (route_map_result_t \<times> int \<times> 'o) option" where
  "call_map cmds s p type i recursion ret ob =
     (case Option.bind (ri_nextrm i) (\<lambda>name. route_map_lookup_by_name name s) of
        None \<Rightarrow> Some (ret, recursion, ob)
      | Some m \<Rightarrow> do {
          (ret', recursion', ob') \<leftarrow> route_map_apply cmds s (Some (rs_maps s ! m)) p type (recursion + 1) ob;
          Some (ret', recursion' - 1, ob')
        })"

definition call_denied :: "'v route_map_index \<Rightarrow> route_map_result_t \<Rightarrow> bool" where
  "call_denied i ret \<longleftrightarrow> ri_nextrm i \<noteq> None \<and> ret = RMAP_DENYMATCH"

lemma apply_Nil [simp]: "apply_clauses cmds s p type [] r ob = Some (RMAP_DENYMATCH, r, ob)"
  by (simp add: apply_clauses.simps)

lemma apply_skip:
  assumes "route_map_apply_match cmds p type (ri_match i) ob = (ret, ob1)" "ret \<noteq> RMAP_MATCH \<or> ri_type i = RMAP_ANY"
  shows "apply_clauses cmds s p type (i # rest) r ob = apply_clauses cmds s p type rest r ob1"
  using assms by (subst apply_clauses.simps) auto

lemma apply_deny:
  assumes "route_map_apply_match cmds p type (ri_match i) ob = (RMAP_MATCH, ob1)" "ri_type i = RMAP_DENY"
  shows "apply_clauses cmds s p type (i # rest) r ob = Some (RMAP_DENYMATCH, r, ob1)"
  using assms by (subst apply_clauses.simps) simp

lemma apply_permit:
  assumes "route_map_apply_match cmds p type (ri_match i) ob = (RMAP_MATCH, ob1)" "ri_type i = RMAP_PERMIT"
    "set_rules cmds p type (ri_set i) RMAP_MATCH ob1 = (ret2, ob2)" "call_map cmds s p type i r ret2 ob2 = Some (ret3, r3, ob3)"
  shows "apply_clauses cmds s p type (i # rest) r ob =
    (if call_denied i ret3 then Some (ret3, r3, ob3)
     else case ri_exitpolicy i of
       RMAP_EXIT \<Rightarrow> Some (ret3, r3, ob3)
     | RMAP_NEXT \<Rightarrow> apply_clauses cmds s p type rest r3 ob3
     | RMAP_GOTO \<Rightarrow> if goto_clause (ri_nextpref i) rest = [] then Some (ret3, r3, ob3)
                   else apply_clauses cmds s p type (goto_clause (ri_nextpref i) rest) r3 ob3)"
proof -
  have "(case Option.bind (ri_nextrm i) (\<lambda>name. route_map_lookup_by_name name s) of
         None \<Rightarrow> Some (ret2, r, ob2)
       | Some m \<Rightarrow> do {
           (ret', r', ob') \<leftarrow> (if r + 1 > RMAP_RECURSION_LIMIT then Some (RMAP_DENYMATCH, 0, ob2)
              else apply_clauses cmds s p type (rm_indexes (rs_maps s ! m)) (r + 1) ob2);
           Some (ret', r' - 1, ob') }) = Some (ret3, r3, ob3)"
    using assms(4) unfolding call_map_def route_map_apply_def option.case .
  then show ?thesis using assms(1-3) by (subst apply_clauses.simps) (simp add: call_denied_def)
qed

lemma goto_length: "length (goto_clause n is) \<le> length is"
  by (induction "is") auto

lemma match_result_cases:
  obtains (skip) ret ob1 where "route_map_apply_match cmds p type (ri_match i) ob = (ret, ob1)" "ret \<noteq> RMAP_MATCH \<or> ri_type i = RMAP_ANY"
  | (deny) ob1 where "route_map_apply_match cmds p type (ri_match i) ob = (RMAP_MATCH, ob1)" "ri_type i = RMAP_DENY"
  | (permit) ob1 ret2 ob2 where "route_map_apply_match cmds p type (ri_match i) ob = (RMAP_MATCH, ob1)" "ri_type i = RMAP_PERMIT"
      "set_rules cmds p type (ri_set i) RMAP_MATCH ob1 = (ret2, ob2)"
  by (cases "route_map_apply_match cmds p type (ri_match i) ob"; cases "ri_type i")
    (metis surj_pair)+

section \<open>Every route map returns\<close>

text \<open>What the counter can be afterwards: as before, or, when the limit was met, eleven less.\<close>

definition counter_after :: "int \<Rightarrow> route_map_result_t \<Rightarrow> int \<Rightarrow> bool" where
  "counter_after r ret r' \<longleftrightarrow> r' = r \<or> r' = r - (RMAP_RECURSION_LIMIT + 1) \<and> ret = RMAP_DENYMATCH"

definition returns :: "(route_map_result_t \<times> int \<times> 'o) option \<Rightarrow> int \<Rightarrow> bool" where
  "returns x r \<longleftrightarrow> (\<exists>ret r' ob. x = Some (ret, r', ob) \<and> counter_after r ret r')"

lemma call_returns:
  assumes "\<And>rm ob. returns (route_map_apply cmds s (Some rm) p type (r + 1) ob) (r + 1)"
  shows "\<exists>ret3 r3 ob3. call_map cmds s p type i r ret ob = Some (ret3, r3, ob3) \<and> (r3 = r \<or> r3 = r - (RMAP_RECURSION_LIMIT + 1) \<and> call_denied i ret3)"
proof (cases "Option.bind (ri_nextrm i) (\<lambda>name. route_map_lookup_by_name name s)")
  case None
  then show ?thesis by (simp add: call_map_def)
next
  case (Some m)
  then have "ri_nextrm i \<noteq> None" by (cases "ri_nextrm i") auto
  then show ?thesis using assms [of "rs_maps s ! m" ob] Some by (auto simp: call_map_def returns_def counter_after_def call_denied_def)
qed

lemma clauses_return:
  assumes calls: "\<And>rm ob. returns (route_map_apply cmds s (Some rm) p type (r + 1) ob) (r + 1)"
  shows "returns (apply_clauses cmds s p type clauses r ob) r"
proof (induction "length clauses" arbitrary: clauses ob rule: less_induct)
  case less
  show ?case
  proof (cases clauses)
    case Nil
    then show ?thesis by (simp add: returns_def counter_after_def)
  next
    case (Cons i rest)
    have shorter: "returns (apply_clauses cmds s p type rest r ob') r" "returns (apply_clauses cmds s p type (goto_clause n rest) r ob') r" for ob' n
      using less [of rest] less [of "goto_clause n rest"] goto_length [of n rest] by (simp_all add: Cons)
    show ?thesis
    proof (cases rule: match_result_cases [of cmds p type i ob])
      case (skip ret ob1)
      then show ?thesis using shorter(1) by (simp add: Cons apply_skip)
    next
      case (deny ob1)
      then show ?thesis by (simp add: Cons apply_deny returns_def counter_after_def)
    next
      case (permit ob1 ret2 ob2)
      obtain ret3 r3 ob3 where c: "call_map cmds s p type i r ret2 ob2 = Some (ret3, r3, ob3)" "r3 = r \<or> r3 = r - (RMAP_RECURSION_LIMIT + 1) \<and> call_denied i ret3"
        using call_returns [OF calls, of i ret2 ob2] by blast
      have stop: "returns (Some (ret3, r3, ob3)) r" using c(2) by (auto simp: returns_def counter_after_def call_denied_def)
      show ?thesis
      proof (cases "call_denied i ret3")
        case True
        then show ?thesis using stop by (simp add: Cons apply_permit [OF permit c(1)])
      next
        case False
        then show ?thesis using stop shorter c(2) by (auto simp: Cons apply_permit [OF permit c(1)] split: route_map_end_t.split)
      qed
    qed
  qed
qed

lemma route_map_returns: "r \<le> RMAP_RECURSION_LIMIT + 1 \<Longrightarrow> returns (route_map_apply cmds s rm p type r ob) r"
proof (induction "nat (RMAP_RECURSION_LIMIT + 1 - r)" arbitrary: r rm ob rule: less_induct)
  case less
  show ?case
  proof (cases "r > RMAP_RECURSION_LIMIT")
    case True
    then show ?thesis using less.prems by (simp add: route_map_apply_def returns_def counter_after_def)
  next
    case False
    then have "returns (route_map_apply cmds s (Some rm') p type (r + 1) ob') (r + 1)" for rm' ob' using less.hyps [of "r + 1"] by simp
    then show ?thesis using False by (cases rm) (auto simp: route_map_apply_def clauses_return, simp add: returns_def counter_after_def)
  qed
qed

section \<open>A route map by its sequence numbers\<close>

text \<open>
  The meaning of a route map, without a loop: from a sequence number on, the clause with the least number decides.
  The depth is the number of calls that are still allowed.
\<close>

definition first_clause :: "'v route_map_index list \<Rightarrow> int \<Rightarrow> 'v route_map_index \<Rightarrow> bool" where
  "first_clause is n i \<longleftrightarrow> i \<in> set is \<and> n \<le> ri_pref i \<and> (\<forall>j \<in> set is. n \<le> ri_pref j \<longrightarrow> ri_pref i \<le> ri_pref j)"

inductive rmap_eval :: "('v, 'o) rule_cmds \<Rightarrow> 'v rmap_state \<Rightarrow> prefix_t \<Rightarrow> route_map_object_t \<Rightarrow> nat \<Rightarrow> 'v route_map_index list \<Rightarrow> int \<Rightarrow> 'o \<Rightarrow>
    route_map_result_t \<Rightarrow> 'o \<Rightarrow> bool"
  and rmap_eval_call :: "('v, 'o) rule_cmds \<Rightarrow> 'v rmap_state \<Rightarrow> prefix_t \<Rightarrow> route_map_object_t \<Rightarrow> nat \<Rightarrow> string option \<Rightarrow> route_map_result_t \<Rightarrow> 'o \<Rightarrow>
    route_map_result_t \<Rightarrow> 'o \<Rightarrow> bool"
  for cmds s p type where
  no_clause: "\<forall>j \<in> set is. ri_pref j < n \<Longrightarrow> rmap_eval cmds s p type d is n ob RMAP_DENYMATCH ob"
| no_match: "first_clause is n i \<Longrightarrow> route_map_apply_match cmds p type (ri_match i) ob = (ret, ob1) \<Longrightarrow> ret \<noteq> RMAP_MATCH \<Longrightarrow>
    rmap_eval cmds s p type d is (ri_pref i + 1) ob1 res ob' \<Longrightarrow> rmap_eval cmds s p type d is n ob res ob'"
| deny: "first_clause is n i \<Longrightarrow> route_map_apply_match cmds p type (ri_match i) ob = (RMAP_MATCH, ob1) \<Longrightarrow> ri_type i = RMAP_DENY \<Longrightarrow>
    rmap_eval cmds s p type d is n ob RMAP_DENYMATCH ob1"
| call_deny: "first_clause is n i \<Longrightarrow> route_map_apply_match cmds p type (ri_match i) ob = (RMAP_MATCH, ob1) \<Longrightarrow> ri_type i = RMAP_PERMIT \<Longrightarrow>
    set_rules cmds p type (ri_set i) RMAP_MATCH ob1 = (ret2, ob2) \<Longrightarrow> rmap_eval_call cmds s p type d (ri_nextrm i) ret2 ob2 ret3 ob3 \<Longrightarrow>
    call_denied i ret3 \<Longrightarrow> rmap_eval cmds s p type d is n ob ret3 ob3"
| on_exit: "first_clause is n i \<Longrightarrow> route_map_apply_match cmds p type (ri_match i) ob = (RMAP_MATCH, ob1) \<Longrightarrow> ri_type i = RMAP_PERMIT \<Longrightarrow>
    set_rules cmds p type (ri_set i) RMAP_MATCH ob1 = (ret2, ob2) \<Longrightarrow> rmap_eval_call cmds s p type d (ri_nextrm i) ret2 ob2 ret3 ob3 \<Longrightarrow>
    \<not> call_denied i ret3 \<Longrightarrow> ri_exitpolicy i = RMAP_EXIT \<Longrightarrow> rmap_eval cmds s p type d is n ob ret3 ob3"
| on_next: "first_clause is n i \<Longrightarrow> route_map_apply_match cmds p type (ri_match i) ob = (RMAP_MATCH, ob1) \<Longrightarrow> ri_type i = RMAP_PERMIT \<Longrightarrow>
    set_rules cmds p type (ri_set i) RMAP_MATCH ob1 = (ret2, ob2) \<Longrightarrow> rmap_eval_call cmds s p type d (ri_nextrm i) ret2 ob2 ret3 ob3 \<Longrightarrow>
    \<not> call_denied i ret3 \<Longrightarrow> ri_exitpolicy i = RMAP_NEXT \<Longrightarrow> rmap_eval cmds s p type d is (ri_pref i + 1) ob3 res ob' \<Longrightarrow>
    rmap_eval cmds s p type d is n ob res ob'"
| on_goto_end: "first_clause is n i \<Longrightarrow> route_map_apply_match cmds p type (ri_match i) ob = (RMAP_MATCH, ob1) \<Longrightarrow> ri_type i = RMAP_PERMIT \<Longrightarrow>
    set_rules cmds p type (ri_set i) RMAP_MATCH ob1 = (ret2, ob2) \<Longrightarrow> rmap_eval_call cmds s p type d (ri_nextrm i) ret2 ob2 ret3 ob3 \<Longrightarrow>
    \<not> call_denied i ret3 \<Longrightarrow> ri_exitpolicy i = RMAP_GOTO \<Longrightarrow> \<forall>j \<in> set is. ri_pref j < ri_nextpref i \<Longrightarrow>
    rmap_eval cmds s p type d is n ob ret3 ob3"
| on_goto: "first_clause is n i \<Longrightarrow> route_map_apply_match cmds p type (ri_match i) ob = (RMAP_MATCH, ob1) \<Longrightarrow> ri_type i = RMAP_PERMIT \<Longrightarrow>
    set_rules cmds p type (ri_set i) RMAP_MATCH ob1 = (ret2, ob2) \<Longrightarrow> rmap_eval_call cmds s p type d (ri_nextrm i) ret2 ob2 ret3 ob3 \<Longrightarrow>
    \<not> call_denied i ret3 \<Longrightarrow> ri_exitpolicy i = RMAP_GOTO \<Longrightarrow> \<exists>j \<in> set is. ri_nextpref i \<le> ri_pref j \<Longrightarrow>
    rmap_eval cmds s p type d is (ri_nextpref i) ob3 res ob' \<Longrightarrow> rmap_eval cmds s p type d is n ob res ob'"
| no_call: "Option.bind nm (\<lambda>name. route_map_lookup_by_name name s) = None \<Longrightarrow> rmap_eval_call cmds s p type d nm ret ob ret ob"
| too_deep: "Option.bind nm (\<lambda>name. route_map_lookup_by_name name s) = Some m \<Longrightarrow> rmap_eval_call cmds s p type 0 nm ret ob RMAP_DENYMATCH ob"
| call: "Option.bind nm (\<lambda>name. route_map_lookup_by_name name s) = Some m \<Longrightarrow> rmap_eval cmds s p type d (rm_indexes (rs_maps s ! m)) 1 ob res ob' \<Longrightarrow>
    rmap_eval_call cmds s p type (Suc d) nm ret ob res ob'"

text \<open>What the commands keep true of the clauses of a route map.\<close>

definition clause_ok :: "'v route_map_index \<Rightarrow> bool" where
  "clause_ok i \<longleftrightarrow> 1 \<le> ri_pref i \<and> ri_pref i \<le> 65535 \<and> ri_type i \<noteq> RMAP_ANY \<and> (ri_exitpolicy i = RMAP_GOTO \<longrightarrow> ri_pref i < ri_nextpref i) \<and>
     distinct (map ru_cmd (ri_match i)) \<and> distinct (map ru_cmd (ri_set i))"

definition clauses_ok :: "'v route_map_index list \<Rightarrow> bool" where
  "clauses_ok is \<longleftrightarrow> sorted_wrt (\<lambda>x y. ri_pref x < ri_pref y) is \<and> (\<forall>i \<in> set is. clause_ok i)"

text \<open>The rest of the clauses are those from a sequence number on.\<close>

definition rest_from :: "'v route_map_index list \<Rightarrow> int \<Rightarrow> 'v route_map_index list" where
  "rest_from is n = filter (\<lambda>i. n \<le> ri_pref i) is"

lemma rest_from_cases:
  assumes "clauses_ok is"
  shows "case rest_from is n of [] \<Rightarrow> \<forall>j \<in> set is. ri_pref j < n | i # rest \<Rightarrow> first_clause is n i \<and> rest = rest_from is (ri_pref i + 1)"
proof (cases "rest_from is n")
  case Nil
  then show ?thesis by (auto simp: rest_from_def filter_empty_conv)
next
  case (Cons i rest)
  have ord: "sorted_wrt (\<lambda>x y. ri_pref x < ri_pref y) (rest_from is n)" using assms unfolding rest_from_def clauses_ok_def by (blast intro: sorted_wrt_filter)
  have i: "i \<in> set is" "n \<le> ri_pref i" using Cons unfolding rest_from_def by (metis filter_eq_Cons_iff in_set_conv_decomp)+
  have "\<forall>j \<in> set rest. ri_pref i < ri_pref j" using ord by (simp add: Cons)
  moreover from this have "rest_from is (ri_pref i + 1) = filter (\<lambda>j. ri_pref i + 1 \<le> ri_pref j) (rest_from is n)"
    unfolding rest_from_def filter_filter using i(2) by (intro filter_cong) auto
  moreover have "filter (\<lambda>j. ri_pref i + 1 \<le> ri_pref j) rest = rest" unfolding filter_id_conv using calculation(1) by auto
  ultimately have "rest = rest_from is (ri_pref i + 1)" by (simp add: Cons)
  moreover have "\<forall>j \<in> set is. n \<le> ri_pref j \<longrightarrow> ri_pref i \<le> ri_pref j"
  proof (intro ballI impI)
    fix j assume "j \<in> set is" "n \<le> ri_pref j"
    then have "j \<in> set (rest_from is n)" by (simp add: rest_from_def)
    then show "ri_pref i \<le> ri_pref j" using ord by (auto simp: Cons)
  qed
  ultimately show ?thesis using i Cons by (simp add: first_clause_def)
qed

lemma goto_rest:
  assumes "clauses_ok is" "m < n"
  shows "goto_clause n (rest_from is (m + 1)) = rest_from is n"
proof -
  have "goto_clause n xs = filter (\<lambda>i. n \<le> ri_pref i) xs" if "sorted_wrt (\<lambda>x y. ri_pref x < ri_pref y) xs" for xs :: "'a route_map_index list"
    using that
  proof (induction xs)
    case (Cons x xs)
    show ?case
    proof (cases "ri_pref x < n")
      case False
      then have "\<forall>y \<in> set (x # xs). n \<le> ri_pref y" using Cons.prems by fastforce
      then have "filter (\<lambda>i. n \<le> ri_pref i) (x # xs) = x # xs" unfolding filter_id_conv .
      then show ?thesis using False by simp
    qed (use Cons in simp)
  qed simp
  moreover have "sorted_wrt (\<lambda>x y. ri_pref x < ri_pref y) (rest_from is (m + 1))" using assms unfolding rest_from_def clauses_ok_def by (blast intro: sorted_wrt_filter)
  moreover have "filter (\<lambda>i. n \<le> ri_pref i) (rest_from is (m + 1)) = rest_from is n"
    unfolding rest_from_def filter_filter using assms(2) by (intro filter_cong) auto
  ultimately show ?thesis by simp
qed

lemma rest_from_all: "clauses_ok is \<Longrightarrow> rest_from is 1 = is"
  by (auto simp: rest_from_def clauses_ok_def clause_ok_def filter_id_conv)

definition maps_ok :: "'v rmap_state \<Rightarrow> bool" where
  "maps_ok s \<longleftrightarrow> (\<forall>rm \<in> set (rs_maps s). clauses_ok (rm_indexes rm))"

definition depth :: "int \<Rightarrow> nat" where
  "depth r = nat (RMAP_RECURSION_LIMIT - r)"

lemma call_sound:
  assumes calls: "\<And>rm ob res r' ob'. r + 1 \<le> RMAP_RECURSION_LIMIT \<Longrightarrow> rm \<in> set (rs_maps s) \<Longrightarrow>
      route_map_apply cmds s (Some rm) p type (r + 1) ob = Some (res, r', ob') \<Longrightarrow> rmap_eval cmds s p type (depth (r + 1)) (rm_indexes rm) 1 ob res ob'"
    and r: "r \<le> RMAP_RECURSION_LIMIT" and run: "call_map cmds s p type i r ret ob = Some (ret3, r3, ob3)"
  shows "rmap_eval_call cmds s p type (depth r) (ri_nextrm i) ret ob ret3 ob3"
proof (cases "Option.bind (ri_nextrm i) (\<lambda>name. route_map_lookup_by_name name s)")
  case None
  then show ?thesis using run by (auto simp: call_map_def intro: no_call)
next
  case (Some m)
  then have m: "rs_maps s ! m \<in> set (rs_maps s)" by (cases "ri_nextrm i") (auto simp: route_map_lookup_by_name_def dest: index_of_Some)
  show ?thesis
  proof (cases "r + 1 \<le> RMAP_RECURSION_LIMIT")
    case True
    obtain r' where "route_map_apply cmds s (Some (rs_maps s ! m)) p type (r + 1) ob = Some (ret3, r', ob3)"
      using run Some by (auto simp: call_map_def bind_eq_Some_conv)
    then have "rmap_eval cmds s p type (depth (r + 1)) (rm_indexes (rs_maps s ! m)) 1 ob ret3 ob3" by (rule calls [OF True m])
    moreover have "depth r = Suc (depth (r + 1))" using True by (simp add: depth_def nat_diff_distrib')
    ultimately show ?thesis using Some by (auto intro: call)
  next
    case False
    then have "depth r = 0" "ret3 = RMAP_DENYMATCH" "ob3 = ob" using run Some r by (auto simp: call_map_def route_map_apply_def depth_def)
    then show ?thesis using Some by (auto intro: too_deep)
  qed
qed

lemma clauses_sound:
  assumes calls: "\<And>rm ob res r' ob'. r + 1 \<le> RMAP_RECURSION_LIMIT \<Longrightarrow> rm \<in> set (rs_maps s) \<Longrightarrow>
      route_map_apply cmds s (Some rm) p type (r + 1) ob = Some (res, r', ob') \<Longrightarrow> rmap_eval cmds s p type (depth (r + 1)) (rm_indexes rm) 1 ob res ob'"
    and r: "r \<le> RMAP_RECURSION_LIMIT" and "is": "clauses_ok is"
  shows "apply_clauses cmds s p type (rest_from is n) r ob = Some (res, r', ob') \<Longrightarrow> rmap_eval cmds s p type (depth r) is n ob res ob'"
proof (induction "length (rest_from is n)" arbitrary: n ob res r' ob' rule: less_induct)
  case less
  note first = rest_from_cases [OF "is", of n]
  show ?case
  proof (cases "rest_from is n")
    case Nil
    then show ?thesis using less.prems first by (auto intro: no_clause)
  next
    case (Cons i rest)
    have f: "first_clause is n i" "rest = rest_from is (ri_pref i + 1)" using first by (simp_all add: Cons)
    have ok: "clause_ok i" using f(1) "is" by (auto simp: first_clause_def clauses_ok_def)
    have run: "apply_clauses cmds s p type (i # rest) r ob = Some (res, r', ob')" using less.prems by (simp add: Cons)
    have go: "apply_clauses cmds s p type (rest_from is m) r ob1 = Some (res, r', ob') \<Longrightarrow> rmap_eval cmds s p type (depth r) is m ob1 res ob'"
      if "ri_pref i < m" for m ob1
    proof (rule less.hyps)
      have "rest_from is m = filter (\<lambda>j. m \<le> ri_pref j) rest" using that unfolding f(2) rest_from_def filter_filter by (intro filter_cong) auto
      then show "length (rest_from is m) < length (rest_from is n)" by (simp add: Cons le_imp_less_Suc)
    qed
    show ?thesis
    proof (cases rule: match_result_cases [of cmds p type i ob])
      case (skip ret ob1)
      then have "ret \<noteq> RMAP_MATCH" using ok by (simp add: clause_ok_def)
      then show ?thesis using skip run go [of "ri_pref i + 1" ob1] f by (intro no_match [OF f(1) skip(1)]) (simp_all add: apply_skip)
    next
      case (deny ob1)
      then show ?thesis using run rmap_eval_rmap_eval_call.deny [OF f(1) deny] by (simp add: apply_deny)
    next
      case (permit ob1 ret2 ob2)
      have "\<exists>ret3 r3 ob3. call_map cmds s p type i r ret2 ob2 = Some (ret3, r3, ob3) \<and> (r3 = r \<or> call_denied i ret3)"
        using call_returns [OF route_map_returns, of r cmds s p type i ret2 ob2] r by auto
      then obtain ret3 r3 ob3 where c: "call_map cmds s p type i r ret2 ob2 = Some (ret3, r3, ob3)" "r3 = r \<or> call_denied i ret3" by blast
      note e = call_sound [OF calls r c(1)]
      note run' = run [unfolded apply_permit [OF permit c(1)]]
      show ?thesis
      proof (cases "call_denied i ret3")
        case True
        then show ?thesis using run' call_deny [OF f(1) permit e] by simp
      next
        case False
        note rules = f(1) permit e False
        show ?thesis
        proof (cases "ri_exitpolicy i")
          case RMAP_EXIT
          then show ?thesis using run' False on_exit [OF rules] by simp
        next
          case RMAP_NEXT
          then show ?thesis using run' False c(2) go [of "ri_pref i + 1" ob3] f(2) on_next [OF rules] by simp
        next
          case RMAP_GOTO
          have less: "ri_pref i < ri_nextpref i" using ok RMAP_GOTO by (simp add: clause_ok_def)
          have jump: "goto_clause (ri_nextpref i) rest = rest_from is (ri_nextpref i)" unfolding f(2) by (rule goto_rest [OF "is" less])
          show ?thesis
          proof (cases "rest_from is (ri_nextpref i) = []")
            case True
            then have "\<forall>j \<in> set is. ri_pref j < ri_nextpref i" by (auto simp: rest_from_def filter_empty_conv)
            then show ?thesis using run' False True jump RMAP_GOTO on_goto_end [OF rules] by simp
          next
            case some: False
            then have "\<exists>j \<in> set is. ri_nextpref i \<le> ri_pref j" by (auto simp: rest_from_def filter_empty_conv)
            then show ?thesis using run' False some jump RMAP_GOTO c(2) go [OF less, of ob3] on_goto [OF rules] by simp
          qed
        qed
      qed
    qed
  qed
qed

lemma apply_sound:
  assumes ok: "maps_ok s"
  shows "r \<le> RMAP_RECURSION_LIMIT \<Longrightarrow> clauses_ok (rm_indexes rm) \<Longrightarrow> route_map_apply cmds s (Some rm) p type r ob = Some (res, r', ob') \<Longrightarrow>
    rmap_eval cmds s p type (depth r) (rm_indexes rm) 1 ob res ob'"
proof (induction "depth r" arbitrary: r rm ob res r' ob' rule: less_induct)
  case less
  have "depth (r + 1) < depth r" if "r + 1 \<le> RMAP_RECURSION_LIMIT" using that by (simp add: depth_def)
  then have calls: "rmap_eval cmds s p type (depth (r + 1)) (rm_indexes rm') 1 ob1 res1 ob1'"
    if "r + 1 \<le> RMAP_RECURSION_LIMIT" "rm' \<in> set (rs_maps s)" "route_map_apply cmds s (Some rm') p type (r + 1) ob1 = Some (res1, r1, ob1')" for rm' ob1 res1 r1 ob1'
    using less.hyps [of "r + 1" rm' ob1 res1 r1 ob1'] that ok by (simp add: maps_ok_def)
  show ?case
  proof (rule clauses_sound)
    show "apply_clauses cmds s p type (rest_from (rm_indexes rm) 1) r ob = Some (res, r', ob')"
      using less.prems by (simp add: route_map_apply_def rest_from_all)
  qed (use less.prems calls in blast)+
qed

section \<open>Results, falling off the end, and the counter\<close>

lemma set_rules_result:
  assumes "\<And>r ob. r \<in> set rs \<Longrightarrow> fst (rc_apply (cmds (ru_cmd r)) (ru_value r) p type ob) = RMAP_OKAY"
  shows "fst (set_rules cmds p type rs ret ob) \<in> {ret, RMAP_OKAY}"
  using assms
proof (induction rs arbitrary: ret ob)
  case (Cons r rs)
  obtain ob1 where "rc_apply (cmds (ru_cmd r)) (ru_value r) p type ob = (RMAP_OKAY, ob1)" using Cons.prems [of r ob] by (cases "rc_apply (cmds (ru_cmd r)) (ru_value r) p type ob") simp
  then show ?case using Cons.IH [of RMAP_OKAY ob1] Cons.prems by simp
qed simp

definition final_results :: "route_map_result_t set" where
  "final_results = {RMAP_MATCH, RMAP_OKAY, RMAP_DENYMATCH}"

definition sets_okay :: "('v, 'o) rule_cmds \<Rightarrow> prefix_t \<Rightarrow> route_map_object_t \<Rightarrow> 'v route_map_index list \<Rightarrow> bool" where
  "sets_okay cmds p type is \<longleftrightarrow> (\<forall>i \<in> set is. \<forall>r \<in> set (ri_set i). \<forall>ob. fst (rc_apply (cmds (ru_cmd r)) (ru_value r) p type ob) = RMAP_OKAY)"

lemma lookup_in_maps: "Option.bind nm (\<lambda>name. route_map_lookup_by_name name s) = Some m \<Longrightarrow> rs_maps s ! m \<in> set (rs_maps s)"
  by (cases nm) (auto simp: route_map_lookup_by_name_def dest: index_of_Some)

lemma set_rules_final:
  assumes "sets_okay cmds p type is" "first_clause is n i" "set_rules cmds p type (ri_set i) RMAP_MATCH ob1 = (ret2, ob2)"
  shows "ret2 \<in> final_results"
  using set_rules_result [of "ri_set i" cmds p type RMAP_MATCH ob1] assms by (auto simp: sets_okay_def first_clause_def final_results_def)

lemma eval_final:
  assumes maps: "\<forall>rm \<in> set (rs_maps s). sets_okay cmds p type (rm_indexes rm)"
  shows "rmap_eval cmds s p type d is n ob res ob' \<Longrightarrow> sets_okay cmds p type is \<Longrightarrow> res \<in> final_results"
    and "rmap_eval_call cmds s p type d nm ret ob res ob' \<Longrightarrow> ret \<in> final_results \<Longrightarrow> res \<in> final_results"
proof (induction rule: rmap_eval_rmap_eval_call.inducts)
  case (call nm m d ob res ob' ret)
  then show ?case using maps lookup_in_maps [OF call(1)] by blast
qed (auto simp: set_rules_final, auto simp: final_results_def)

text \<open>A route map whose clauses all go on to the next one never permits.\<close>

lemma next_only_denies:
  assumes "\<forall>i \<in> set clauses. ri_type i = RMAP_PERMIT \<and> ri_exitpolicy i = RMAP_NEXT \<and> ri_nextrm i = None"
  shows "\<exists>ob'. apply_clauses cmds s p type clauses r ob = Some (RMAP_DENYMATCH, r, ob')"
  using assms
proof (induction clauses arbitrary: ob)
  case (Cons i rest)
  show ?case
  proof (cases rule: match_result_cases [of cmds p type i ob])
    case (skip ret ob1)
    then show ?thesis using Cons by (simp add: apply_skip)
  next
    case (deny ob1)
    then show ?thesis using Cons.prems by simp
  next
    case (permit ob1 ret2 ob2)
    then have "call_map cmds s p type i r ret2 ob2 = Some (ret2, r, ob2)" using Cons.prems by (simp add: call_map_def)
    then show ?thesis using Cons permit by (simp add: apply_permit [OF permit] call_denied_def)
  qed
qed simp

text \<open>A route map whose first clause permits, matches and calls the route map itself, what the rules of that clause make of the
  object, and a list of routes that pass through the map one after the other.\<close>

definition self_calling :: "('v, 'o) rule_cmds \<Rightarrow> prefix_t \<Rightarrow> route_map_object_t \<Rightarrow> 'v rmap_state \<Rightarrow> 'v route_map \<Rightarrow> 'v route_map_index \<Rightarrow> bool" where
  "self_calling cmds p type s rm i \<longleftrightarrow> (\<exists>rest. rm_indexes rm = i # rest) \<and> ri_type i = RMAP_PERMIT \<and>
     (\<forall>ob. fst (route_map_apply_match cmds p type (ri_match i) ob) = RMAP_MATCH) \<and> ri_nextrm i = Some (rm_name rm) \<and>
     (\<exists>m. route_map_lookup_by_name (rm_name rm) s = Some m \<and> rs_maps s ! m = rm)"

definition clause_effect :: "('v, 'o) rule_cmds \<Rightarrow> prefix_t \<Rightarrow> route_map_object_t \<Rightarrow> 'v route_map_index \<Rightarrow> 'o \<Rightarrow> 'o" where
  "clause_effect cmds p type i ob = snd (set_rules cmds p type (ri_set i) RMAP_MATCH (snd (route_map_apply_match cmds p type (ri_match i) ob)))"

fun apply_routes :: "('v, 'o) rule_cmds \<Rightarrow> 'v rmap_state \<Rightarrow> 'v route_map \<Rightarrow> prefix_t \<Rightarrow> route_map_object_t \<Rightarrow> int \<Rightarrow> 'o list \<Rightarrow>
    ((route_map_result_t \<times> 'o) list \<times> int) option" where
  "apply_routes cmds s rm p type r [] = Some ([], r)"
| "apply_routes cmds s rm p type r (ob # obs) = do {
     (ret, r1, ob1) \<leftarrow> route_map_apply cmds s (Some rm) p type r ob;
     (xs, r2) \<leftarrow> apply_routes cmds s rm p type r1 obs;
     Some ((ret, ob1) # xs, r2)
   }"

lemma self_calling_apply:
  assumes loop: "self_calling cmds p type s rm i"
  shows "r \<le> RMAP_RECURSION_LIMIT + 1 \<Longrightarrow> route_map_apply cmds s (Some rm) p type r ob =
    Some (RMAP_DENYMATCH, r - (RMAP_RECURSION_LIMIT + 1), (clause_effect cmds p type i ^^ nat (RMAP_RECURSION_LIMIT + 1 - r)) ob)"
proof (induction "nat (RMAP_RECURSION_LIMIT + 1 - r)" arbitrary: r ob)
  case 0
  then show ?case by (simp add: route_map_apply_def)
next
  case (Suc n)
  obtain m rest where i: "rm_indexes rm = i # rest" "ri_type i = RMAP_PERMIT" "ri_nextrm i = Some (rm_name rm)"
    "route_map_lookup_by_name (rm_name rm) s = Some m" "rs_maps s ! m = rm" using loop by (auto simp: self_calling_def)
  obtain ob1 where match: "route_map_apply_match cmds p type (ri_match i) ob = (RMAP_MATCH, ob1)"
    using loop by (metis self_calling_def prod.collapse)
  obtain ret2 ob2 where set: "set_rules cmds p type (ri_set i) RMAP_MATCH ob1 = (ret2, ob2)" by fastforce
  have ob2: "ob2 = clause_effect cmds p type i ob" by (simp add: clause_effect_def match set)
  have n: "n = nat (RMAP_RECURSION_LIMIT + 1 - (r + 1))" "r + 1 \<le> RMAP_RECURSION_LIMIT + 1" using Suc.hyps(2) by auto
  have call: "call_map cmds s p type i r ret2 ob2 = Some (RMAP_DENYMATCH, r - (RMAP_RECURSION_LIMIT + 1), (clause_effect cmds p type i ^^ n) ob2)"
    using Suc.hyps(1) [OF n] i by (simp add: call_map_def n(1))
  have "apply_clauses cmds s p type (i # rest) r ob = Some (RMAP_DENYMATCH, r - (RMAP_RECURSION_LIMIT + 1), (clause_effect cmds p type i ^^ n) ob2)"
    using i(3) by (subst apply_permit [OF match i(2) set call]) (simp add: call_denied_def)
  then show ?case using n(2) unfolding Suc.hyps(2) [symmetric] by (simp add: route_map_apply_def i(1) ob2 funpow_swap1)
qed

lemma self_calling_routes:
  assumes loop: "self_calling cmds p type s rm i"
  shows "apply_routes cmds s rm p type (- (RMAP_RECURSION_LIMIT + 1) * int k) obs =
    Some (map (\<lambda>(j, ob). (RMAP_DENYMATCH, (clause_effect cmds p type i ^^ (11 * (j + 1))) ob)) (enumerate k obs), - (RMAP_RECURSION_LIMIT + 1) * int (k + length obs))"
proof (induction obs arbitrary: k)
  case (Cons ob obs)
  have "nat (RMAP_RECURSION_LIMIT + 1 - (- (RMAP_RECURSION_LIMIT + 1) * int k)) = 11 * (k + 1)" by simp
  moreover have "- (RMAP_RECURSION_LIMIT + 1) * int k - (RMAP_RECURSION_LIMIT + 1) = - (RMAP_RECURSION_LIMIT + 1) * int (Suc k)" by simp
  ultimately have "route_map_apply cmds s (Some rm) p type (- (RMAP_RECURSION_LIMIT + 1) * int k) ob =
      Some (RMAP_DENYMATCH, - (RMAP_RECURSION_LIMIT + 1) * int (Suc k), (clause_effect cmds p type i ^^ (11 * (k + 1))) ob)"
    using self_calling_apply [OF loop, of "- (RMAP_RECURSION_LIMIT + 1) * int k" ob] by simp
  then show ?case using Cons.IH [of "Suc k"] by simp
qed simp

end
