(* ===== verification/Route_Map_Config.thy ===== *)
theory Route_Map_Config
  imports Route_Map
begin

text \<open>
  The configuration of the route maps: what the commands of a terminal keep true of the clauses and their numbers, that the pointer of a terminal to the clause it
  edits never dangles, and the properties of route maps.
\<close>

section \<open>The configuration\<close>

abbreviation addrs :: "'v route_map \<Rightarrow> nat set" where
  "addrs rm \<equiv> ri_addr ` set (rm_indexes rm)"

definition apart :: "'v route_map \<Rightarrow> 'v route_map \<Rightarrow> bool" where
  "apart x y \<longleftrightarrow> rm_name x \<noteq> rm_name y \<and> addrs x \<inter> addrs y = {}"

definition rmap_good :: "nat \<Rightarrow> 'v route_map \<Rightarrow> bool" where
  "rmap_good n rm \<longleftrightarrow> clauses_ok (rm_indexes rm) \<and> distinct (map ri_addr (rm_indexes rm)) \<and> (\<forall>a \<in> addrs rm. a < n)"

definition rmap_ok :: "'v rmap_state \<Rightarrow> bool" where
  "rmap_ok s \<longleftrightarrow> sorted_wrt apart (rs_maps s) \<and> (\<forall>rm \<in> set (rs_maps s). rmap_good (rs_next s) rm)"

definition all_addrs :: "'v rmap_state \<Rightarrow> nat set" where
  "all_addrs s = (\<Union>rm \<in> set (rs_maps s). addrs rm)"

lemma hook_simps [simp]: "rs_maps (rmap_call_hook on h s) = rs_maps s" "rs_next (rmap_call_hook on h s) = rs_next s"
  by (simp_all add: rmap_call_hook_def)

lemma rmap_ok_hook [simp]: "rmap_ok (rmap_call_hook on h s) = rmap_ok s" "all_addrs (rmap_call_hook on h s) = all_addrs s"
  by (simp_all add: rmap_ok_def all_addrs_def)

lemma in_map_split: "m < length (rs_maps s) \<Longrightarrow> rs_maps (in_map m f s) = take m (rs_maps s) @ f (rs_maps s ! m) # drop (Suc m) (rs_maps s)"
  by (simp add: in_map_def upd_conv_take_nth_drop)

lemma rmap_good_mono: "rmap_good n rm \<Longrightarrow> n \<le> n' \<Longrightarrow> rmap_good n' rm"
  by (auto simp: rmap_good_def)

text \<open>A route map may change its clauses, and get new ones with fresh addresses.\<close>

lemma in_map_ok:
  assumes s: "rmap_ok s" and m: "m < length (rs_maps s)" and n: "rs_next s \<le> n"
    and f: "rm_name (f (rs_maps s ! m)) = rm_name (rs_maps s ! m)" "rmap_good n (f (rs_maps s ! m))"
      "addrs (f (rs_maps s ! m)) \<subseteq> addrs (rs_maps s ! m) \<union> {rs_next s..}"
  shows "rmap_ok ((in_map m f s)\<lparr>rs_next := n\<rparr>)"
proof -
  let ?rm = "rs_maps s ! m"
  have split: "rs_maps s = take m (rs_maps s) @ ?rm # drop (Suc m) (rs_maps s)" using m by (rule id_take_nth_drop)
  have ord: "sorted_wrt apart (take m (rs_maps s) @ ?rm # drop (Suc m) (rs_maps s))" using s split unfolding rmap_ok_def by simp
  have old: "rmap_good (rs_next s) x" if "x \<in> set (take m (rs_maps s)) \<union> set (drop (Suc m) (rs_maps s))" for x
    using s that by (auto simp: rmap_ok_def dest: in_set_takeD in_set_dropD)
  have "apart x (f ?rm)" if "x \<in> set (take m (rs_maps s))" for x
  proof -
    have "apart x ?rm" using ord that by (simp add: sorted_wrt_append)
    then show ?thesis using f(1,3) old [of x] that unfolding apart_def rmap_good_def by fastforce
  qed
  moreover have "apart (f ?rm) x" if "x \<in> set (drop (Suc m) (rs_maps s))" for x
  proof -
    have "apart ?rm x" using ord that by (simp add: sorted_wrt_append)
    then show ?thesis using f(1,3) old [of x] that unfolding apart_def rmap_good_def by fastforce
  qed
  ultimately have "sorted_wrt apart (rs_maps (in_map m f s))" using ord unfolding in_map_split [OF m] by (simp add: sorted_wrt_append)
  moreover have "\<forall>x \<in> set (rs_maps (in_map m f s)). rmap_good n x" unfolding in_map_split [OF m] using f(2) old rmap_good_mono [OF _ n] by auto
  ultimately show ?thesis by (simp add: rmap_ok_def)
qed

lemma in_map_next: "rs_next (in_map m f s) = rs_next s"
  by (simp add: in_map_def)

lemma unlink_map_ok: "rmap_ok s \<Longrightarrow> rmap_ok (s\<lparr>rs_maps := unlink m (rs_maps s)\<rparr>)"
proof (cases "m < length (rs_maps s)")
  case True
  assume s: "rmap_ok s"
  have "sorted_wrt apart (take m (rs_maps s) @ rs_maps s ! m # drop (Suc m) (rs_maps s))" using s id_take_nth_drop [OF True] unfolding rmap_ok_def by simp
  then show ?thesis using s by (auto simp: rmap_ok_def unlink_def sorted_wrt_append dest: in_set_takeD in_set_dropD)
qed (auto simp: rmap_ok_def unlink_def)

lemma good_unlink: "rmap_good n rm \<Longrightarrow> rmap_good n (rm\<lparr>rm_indexes := unlink i (rm_indexes rm)\<rparr>)"
  using set_unlink_subset [of i "rm_indexes rm"] by (auto simp: rmap_good_def clauses_ok_def sorted_wrt_unlink map_unlink distinct_unlink)

lemma rmap_okD: "rmap_ok s \<Longrightarrow> m < length (rs_maps s) \<Longrightarrow> rmap_good (rs_next s) (rs_maps s ! m)"
  by (simp add: rmap_ok_def)

lemma index_delete_ok:
  assumes "rmap_ok s" "m < length (rs_maps s)"
  shows "rmap_ok (route_map_index_delete m i b s)" "rs_maps (route_map_index_delete m i b s) =
    (rs_maps s)[m := (rs_maps s ! m)\<lparr>rm_indexes := unlink i (rm_indexes (rs_maps s ! m))\<rparr>]" "rs_next (route_map_index_delete m i b s) = rs_next s"
proof -
  have "rmap_ok ((in_map m (\<lambda>map. map\<lparr>rm_indexes := unlink i (rm_indexes map)\<rparr>) s)\<lparr>rs_next := rs_next s\<rparr>)"
    using set_unlink_subset [of i "rm_indexes (rs_maps s ! m)"] by (intro in_map_ok assms) (auto simp: good_unlink rmap_okD [OF assms])
  moreover have "(in_map m (\<lambda>map. map\<lparr>rm_indexes := unlink i (rm_indexes map)\<rparr>) s)\<lparr>rs_next := rs_next s\<rparr> = in_map m (\<lambda>map. map\<lparr>rm_indexes := unlink i (rm_indexes map)\<rparr>) s"
    by (simp add: in_map_def)
  ultimately show "rmap_ok (route_map_index_delete m i b s)" by (simp add: route_map_index_delete_def)
  show "rs_maps (route_map_index_delete m i b s) = (rs_maps s)[m := (rs_maps s ! m)\<lparr>rm_indexes := unlink i (rm_indexes (rs_maps s ! m))\<rparr>]"
    "rs_next (route_map_index_delete m i b s) = rs_next s" by (simp_all add: route_map_index_delete_def in_map_def)
qed

lemma index_delete_all_ok:
  "rmap_ok s \<Longrightarrow> m < length (rs_maps s) \<Longrightarrow> rmap_ok (index_delete_all n m s) \<and> rs_maps (index_delete_all n m s) =
     (rs_maps s)[m := (rs_maps s ! m)\<lparr>rm_indexes := drop n (rm_indexes (rs_maps s ! m))\<rparr>] \<and> rs_next (index_delete_all n m s) = rs_next s"
proof (induction n arbitrary: s)
  case (Suc n)
  note d = index_delete_ok [OF Suc.prems, of 0 False]
  have "drop n (unlink 0 xs) = drop (Suc n) xs" for xs :: "'a route_map_index list" by (simp add: unlink_def drop_Suc)
  then show ?case using Suc.IH [OF d(1)] Suc.prems by (simp add: d(2,3))
qed simp

lemma delete_ok:
  assumes "rmap_ok s" "m < length (rs_maps s)"
  shows "rmap_ok (route_map_delete m s)" "rs_maps (route_map_delete m s) = unlink m (rs_maps s)"
proof -
  note a = index_delete_all_ok [OF assms, of "length (rm_indexes (rs_maps s ! m))"]
  have u: "unlink m (xs[m := x]) = unlink m xs" for xs :: "'a route_map list" and x by (simp add: unlink_def)
  show "rs_maps (route_map_delete m s) = unlink m (rs_maps s)" by (simp add: route_map_delete_def Let_def a u)
  let ?s = "index_delete_all (length (rm_indexes (rs_maps s ! m))) m s"
  have "rmap_ok (?s\<lparr>rs_maps := unlink m (rs_maps ?s)\<rparr>)" by (rule unlink_map_ok) (use a in blast)
  then show "rmap_ok (route_map_delete m s)" by (simp add: route_map_delete_def Let_def)
qed

lemma strict_insert_at:
  fixes k :: "'a \<Rightarrow> 'k :: linorder"
  assumes "sorted_wrt (\<lambda>x y. k x < k y) xs" "k a \<notin> k ` set xs"
  shows "sorted_wrt (\<lambda>x y. k x < k y) (snd (insert_at (\<lambda>x. k x \<ge> k a) a xs))"
proof -
  have eq: "sorted_wrt (\<lambda>x y. k x < k y) ys \<longleftrightarrow> sorted (map k ys) \<and> distinct (map k ys)" for ys
    using strict_sorted_iff [of "map k ys"] by (simp add: sorted_wrt_map)
  show ?thesis using assms sorted_insert_at [of k xs a] distinct_insert_at [of k xs a "\<lambda>x. k x \<ge> k a"] unfolding eq by simp
qed

lemma in_map_comm: "in_map m f (s\<lparr>rs_next := n\<rparr>) = (in_map m f s)\<lparr>rs_next := n\<rparr>"
  by (cases s) (simp add: in_map_def)

lemma index_add_ok:
  assumes s: "rmap_ok s" and m: "m < length (rs_maps s)" and pref: "1 \<le> pref" "pref \<le> 65535" "type \<noteq> RMAP_ANY"
    and new: "pref \<notin> ri_pref ` set (rm_indexes (rs_maps s ! m))" and run: "route_map_index_add m type pref s = (i, s')"
  shows "rmap_ok s'" "length (rs_maps s') = length (rs_maps s)" "i < length (rm_indexes (rs_maps s' ! m))" "\<forall>j. j \<noteq> m \<longrightarrow> rs_maps s' ! j = rs_maps s ! j"
proof -
  let ?rm = "rs_maps s ! m"
  define x :: "'a route_map_index" where "x = (route_map_index_new (rs_next s))\<lparr>ri_type := type, ri_pref := pref\<rparr>"
  define xs where "xs = snd (insert_at (\<lambda>y. ri_pref y \<ge> ri_pref x) x (rm_indexes ?rm))"
  have x: "ri_pref x = pref" "ri_addr x = rs_next s" "clause_ok x" using pref by (simp_all add: x_def route_map_index_new_def clause_ok_def)
  have good: "rmap_good (rs_next s) ?rm" by (rule rmap_okD [OF s m])
  have fresh: "rs_next s \<notin> addrs ?rm" using good by (auto simp: rmap_good_def)
  have "clauses_ok xs" using strict_insert_at [of ri_pref "rm_indexes ?rm" x] good new x by (auto simp: rmap_good_def clauses_ok_def xs_def set_insert_at)
  moreover have "distinct (map ri_addr xs)" unfolding xs_def by (rule distinct_insert_at) (use good fresh in \<open>auto simp: rmap_good_def x(2)\<close>)
  ultimately have "rmap_good (rs_next s + 1) (?rm\<lparr>rm_indexes := xs\<rparr>)" using good by (auto simp: rmap_good_def xs_def set_insert_at x(2))
  then have "rmap_ok ((in_map m (\<lambda>map. map\<lparr>rm_indexes := xs\<rparr>) s)\<lparr>rs_next := rs_next s + 1\<rparr>)"
    by (intro in_map_ok s m) (auto simp: xs_def set_insert_at x(2))
  moreover have s': "s' = rmap_call_hook (rs_event_hook s) (Hook_event RMAP_EVENT_INDEX_ADDED (rm_name ?rm)) ((in_map m (\<lambda>map. map\<lparr>rm_indexes := xs\<rparr>) s)\<lparr>rs_next := rs_next s + 1\<rparr>)"
    and i: "i = fst (insert_at (\<lambda>y. ri_pref y \<ge> ri_pref x) x (rm_indexes ?rm))"
    using run by (auto simp: route_map_index_add_def Let_def split_def x(1) x_def xs_def in_map_comm)
  ultimately show "rmap_ok s'" by simp
  show "length (rs_maps s') = length (rs_maps s)" "\<forall>j. j \<noteq> m \<longrightarrow> rs_maps s' ! j = rs_maps s ! j" by (simp_all add: s' in_map_def)
  show "i < length (rm_indexes (rs_maps s' ! m))" using nth_insert_at(1) m by (simp add: s' in_map_def i xs_def)
qed

lemma index_get_ok:
  assumes s: "rmap_ok s" and m: "m < length (rs_maps s)" and pref: "1 \<le> pref" "pref \<le> 65535" "type \<noteq> RMAP_ANY"
    and run: "route_map_index_get m type pref s = (i, s')"
  shows "rmap_ok s' \<and> length (rs_maps s') = length (rs_maps s) \<and> i < length (rm_indexes (rs_maps s' ! m)) \<and> (\<forall>j. j \<noteq> m \<longrightarrow> rs_maps s' ! j = rs_maps s ! j)"
proof (cases "route_map_index_lookup (rs_maps s ! m) RMAP_ANY pref")
  case None
  then have "pref \<notin> ri_pref ` set (rm_indexes (rs_maps s ! m))" by (auto simp: route_map_index_lookup_def index_of_None)
  then show ?thesis using index_add_ok [OF s m pref, of i s'] run None by (simp add: route_map_index_get_def)
next
  case (Some k)
  then have k: "k < length (rm_indexes (rs_maps s ! m))" "ri_pref (rm_indexes (rs_maps s ! m) ! k) = pref"
    by (auto simp: route_map_index_lookup_def dest: index_of_Some)
  show ?thesis
  proof (cases "ri_type (rm_indexes (rs_maps s ! m) ! k) = type")
    case True
    then show ?thesis using s k Some run by (simp add: route_map_index_get_def)
  next
    case False
    let ?s = "route_map_index_delete m k True s"
    note d = index_delete_ok [OF s m, of k True]
    have "distinct (map ri_pref (rm_indexes (rs_maps s ! m)))" using rmap_okD [OF s m]
      by (simp add: rmap_good_def clauses_ok_def sorted_wrt_map [symmetric] strict_sorted_iff)
    then have "set (unlink k (map ri_pref (rm_indexes (rs_maps s ! m)))) = set (map ri_pref (rm_indexes (rs_maps s ! m))) - {pref}"
      using set_unlink [of "map ri_pref (rm_indexes (rs_maps s ! m))" k] k by simp
    then have "pref \<notin> ri_pref ` set (unlink k (rm_indexes (rs_maps s ! m)))" unfolding map_unlink [symmetric] set_map by blast
    then have "pref \<notin> ri_pref ` set (rm_indexes (rs_maps ?s ! m))" using m by (simp add: d(2))
    then show ?thesis using index_add_ok [OF d(1) _ pref, of m i s'] run Some False m by (simp add: route_map_index_get_def d(2))
  qed
qed

lemma lookup_by_name_bound: "route_map_lookup_by_name nm s = Some m \<Longrightarrow> m < length (rs_maps s) \<and> rm_name (rs_maps s ! m) = nm"
  by (auto simp: route_map_lookup_by_name_def dest: index_of_Some)

lemma map_get_ok:
  assumes s: "rmap_ok s" and run: "route_map_get nm s = (m, s')"
  shows "rmap_ok s' \<and> m < length (rs_maps s') \<and> (\<forall>j < length (rs_maps s'). j \<noteq> m \<longrightarrow> rs_maps s' ! j \<in> set (rs_maps s))"
proof (cases "route_map_lookup_by_name nm s")
  case (Some k)
  then show ?thesis using s run lookup_by_name_bound [OF Some] by (auto simp: route_map_get_def)
next
  case None
  then have "nm \<notin> rm_name ` set (rs_maps s)" by (auto simp: route_map_lookup_by_name_def index_of_None)
  then have "sorted_wrt apart (rs_maps s @ [route_map_new nm])" using s by (auto simp: rmap_ok_def sorted_wrt_append apart_def route_map_new_def)
  then have "rmap_ok s'" using s run None by (auto simp: route_map_get_def route_map_add_def rmap_ok_def rmap_good_def clauses_ok_def route_map_new_def)
  then show ?thesis using run None by (auto simp: route_map_get_def route_map_add_def nth_append)
qed

section \<open>Clauses by their address\<close>

lemma find_addr_Some: "find_addr a m ms = Some (k, i) \<Longrightarrow> m \<le> k \<and> k - m < length ms \<and> i < length (rm_indexes (ms ! (k - m))) \<and> ri_addr (rm_indexes (ms ! (k - m)) ! i) = a"
proof (induction ms arbitrary: m)
  case (Cons x xs)
  show ?case
  proof (cases "index_of (\<lambda>i. ri_addr i = a) (rm_indexes x)")
    case None
    then have "find_addr a (Suc m) xs = Some (k, i)" using Cons.prems by simp
    note IH = Cons.IH [OF this]
    then have "k - m = Suc (k - Suc m)" by arith
    then show ?thesis using IH by simp
  next
    case (Some j)
    then show ?thesis using Cons.prems index_of_Some [OF Some] by auto
  qed
qed simp

lemma find_addr_None: "find_addr a m ms = None \<longleftrightarrow> (\<forall>rm \<in> set ms. a \<notin> addrs rm)"
  by (induction ms arbitrary: m) (auto simp: index_of_None split: option.split dest!: index_of_Some)

lemma find_addr_all: "a \<in> all_addrs s \<longleftrightarrow> find_addr a 0 (rs_maps s) \<noteq> None"
  by (simp add: find_addr_None all_addrs_def)

text \<open>A clause changes in place when its number, its address and what makes it well-formed stay.\<close>

lemma index_upd_ok:
  assumes s: "rmap_ok s" and a: "a \<in> all_addrs s"
    and f: "\<And>i. ri_addr (f i) = ri_addr i" "\<And>i. ri_pref (f i) = ri_pref i"
    and ok: "\<And>i. index_at (Some a) s = Some i \<Longrightarrow> clause_ok i \<Longrightarrow> clause_ok (f i)"
  shows "\<exists>s'. index_upd (Some a) f s = Some s' \<and> rmap_ok s' \<and> map addrs (rs_maps s') = map addrs (rs_maps s)"
proof -
  obtain m i where mi: "find_addr a 0 (rs_maps s) = Some (m, i)" using a unfolding find_addr_all by auto
  then have m: "m < length (rs_maps s)" and i: "i < length (rm_indexes (rs_maps s ! m))" using find_addr_Some [OF mi] by simp_all
  let ?rm = "rs_maps s ! m"
  let ?g = "\<lambda>map. map\<lparr>rm_indexes := (rm_indexes map)[i := f (rm_indexes map ! i)]\<rparr>"
  have good: "rmap_good (rs_next s) ?rm" by (rule rmap_okD [OF s m])
  have same: "map ri_addr (rm_indexes (?g ?rm)) = map ri_addr (rm_indexes ?rm)" "map ri_pref (rm_indexes (?g ?rm)) = map ri_pref (rm_indexes ?rm)"
    using i by (simp_all add: map_update f list_update_same_conv)
  have "clause_ok (rm_indexes ?rm ! i)" using good i by (simp add: rmap_good_def clauses_ok_def)
  then have "clause_ok (f (rm_indexes ?rm ! i))" using ok mi by (simp add: index_at_def)
  then have "\<forall>x \<in> set (rm_indexes (?g ?rm)). clause_ok x" using good set_update_subset_insert [of "rm_indexes ?rm" i] by (auto simp: rmap_good_def clauses_ok_def)
  moreover have "sorted_wrt (\<lambda>x y. ri_pref x < ri_pref y) (rm_indexes (?g ?rm))"
    using good unfolding rmap_good_def clauses_ok_def by (metis same(2) sorted_wrt_map)
  moreover have ad: "addrs (?g ?rm) = addrs ?rm" using arg_cong [OF same(1), of set] by simp
  ultimately have "rmap_good (rs_next s) (?g ?rm)" using good same(1) unfolding rmap_good_def clauses_ok_def by auto
  then have "rmap_ok ((in_map m ?g s)\<lparr>rs_next := rs_next s\<rparr>)" using ad by (intro in_map_ok s m) auto
  moreover have "(in_map m ?g s)\<lparr>rs_next := rs_next s\<rparr> = in_map m ?g s" by (simp add: in_map_def)
  ultimately have "rmap_ok (in_map m ?g s)" by simp
  moreover have "map addrs (rs_maps (in_map m ?g s)) = map addrs (rs_maps s)" using m ad by (simp add: in_map_def map_update list_update_same_conv)
  ultimately show ?thesis by (simp add: index_upd_def mi)
qed

section \<open>Commands never use a freed clause\<close>

definition vty_ok :: "'v rmap_vty \<Rightarrow> bool" where
  "vty_ok v \<longleftrightarrow> rmap_ok (vty_rmap v) \<and> (\<forall>rm \<in> set (rs_maps (vty_rmap v)). rm_indexes rm \<noteq> []) \<and>
     (vty_node v = RMAP_NODE \<longrightarrow> (\<exists>a \<in> all_addrs (vty_rmap v). vty_index v = Some a))"

lemma same_addrs:
  fixes s s' :: "'b rmap_state"
  assumes "map addrs (rs_maps s') = map addrs (rs_maps s)"
  shows "all_addrs s' = all_addrs s" "(\<forall>rm \<in> set (rs_maps s'). rm_indexes rm \<noteq> []) \<longleftrightarrow> (\<forall>rm \<in> set (rs_maps s). rm_indexes rm \<noteq> [])"
proof -
  have a: "all_addrs x = \<Union> (set (map addrs (rs_maps x)))" for x :: "'b rmap_state" by (simp add: all_addrs_def)
  show "all_addrs s' = all_addrs s" unfolding a assms ..
  have b: "(\<forall>rm \<in> set (rs_maps x). rm_indexes rm \<noteq> []) \<longleftrightarrow> {} \<notin> set (map addrs (rs_maps x))" for x :: "'b rmap_state" by auto
  show "(\<forall>rm \<in> set (rs_maps s'). rm_indexes rm \<noteq> []) \<longleftrightarrow> (\<forall>rm \<in> set (rs_maps s). rm_indexes rm \<noteq> [])" unfolding b assms ..
qed

lemma vty_keep:
  assumes "vty_ok v" "rmap_ok s'" "map addrs (rs_maps s') = map addrs (rs_maps (vty_rmap v))"
  shows "vty_ok (v\<lparr>vty_rmap := s'\<rparr>)"
  using assms same_addrs [OF assms(3)] by (auto simp: vty_ok_def)

lemma upd_in_node:
  assumes v: "vty_ok v" "vty_node v = RMAP_NODE" and f: "\<And>i. ri_addr (f i) = ri_addr i" "\<And>i. ri_pref (f i) = ri_pref i"
    "\<And>i. index_at (vty_index v) (vty_rmap v) = Some i \<Longrightarrow> clause_ok i \<Longrightarrow> clause_ok (f i)"
  obtains s' where "index_upd (vty_index v) f (vty_rmap v) = Some s'" "vty_ok (v\<lparr>vty_rmap := s'\<rparr>)" "rmap_ok s'" "map addrs (rs_maps s') = map addrs (rs_maps (vty_rmap v))"
proof -
  obtain a where a: "a \<in> all_addrs (vty_rmap v)" "vty_index v = Some a" using v by (auto simp: vty_ok_def)
  have "rmap_ok (vty_rmap v)" using v by (simp add: vty_ok_def)
  then obtain s' where "index_upd (Some a) f (vty_rmap v) = Some s'" "rmap_ok s'" "map addrs (rs_maps s') = map addrs (rs_maps (vty_rmap v))"
    using index_upd_ok [of "vty_rmap v" a f] a f by auto
  then show thesis using that vty_keep [OF v(1)] a(2) by simp
qed

lemma on_index_ok:
  assumes "vty_ok v" "vty_node v = RMAP_NODE" "\<And>i. ri_addr (f i) = ri_addr i" "\<And>i. ri_pref (f i) = ri_pref i"
    "\<And>i. index_at (vty_index v) (vty_rmap v) = Some i \<Longrightarrow> clause_ok i \<Longrightarrow> clause_ok (f i)"
  shows "\<exists>w. on_index f v = Some (CMD_SUCCESS, w) \<and> vty_ok w"
proof -
  obtain s' where "index_upd (vty_index v) f (vty_rmap v) = Some s'" "vty_ok (v\<lparr>vty_rmap := s'\<rparr>)" using upd_in_node [OF assms] by blast
  moreover have "vty_index v \<noteq> None" using assms(1,2) by (auto simp: vty_ok_def)
  ultimately show ?thesis by (auto simp: on_index_def)
qed

lemma at_in_node:
  assumes "vty_ok v" "vty_node v = RMAP_NODE"
  obtains i nm where "index_at (vty_index v) (vty_rmap v) = Some i" "map_name_of (vty_index v) (vty_rmap v) = Some nm"
proof -
  obtain a where a: "a \<in> all_addrs (vty_rmap v)" "vty_index v = Some a" using assms by (auto simp: vty_ok_def)
  then obtain m i where "find_addr a 0 (rs_maps (vty_rmap v)) = Some (m, i)" unfolding find_addr_all by auto
  then show thesis using that a(2) by (simp add: index_at_def map_name_of_def)
qed

lemma goto_ok:
  assumes v: "vty_ok v" "vty_node v = RMAP_NODE"
  shows "\<exists>res w. rmap_onmatch_goto arg v = Some (res, w) \<and> vty_ok w"
proof -
  obtain ix where ix: "index_at (vty_index v) (vty_rmap v) = Some ix" using at_in_node [OF v] by blast
  have idx: "vty_index v \<noteq> None" using v by (auto simp: vty_ok_def)
  define num where "num = (case arg of Some str \<Rightarrow> VTY_GET_INTEGER_RANGE str 1 65536 | None \<Rightarrow> Some (ri_pref ix + 1))"
  have eq: "rmap_onmatch_goto arg v = (case num of None \<Rightarrow> Some (CMD_WARNING, v) | Some d \<Rightarrow>
      if d \<le> ri_pref ix then Some (CMD_WARNING, v) else on_index (\<lambda>i. i\<lparr>ri_exitpolicy := RMAP_GOTO, ri_nextpref := d\<rparr>) v)"
    using idx ix by (auto simp: rmap_onmatch_goto_def num_def)
  show ?thesis
  proof (cases "num = None \<or> the num \<le> ri_pref ix")
    case True
    then show ?thesis using v(1) by (cases num) (auto simp: eq)
  next
    case False
    then obtain d where d: "num = Some d" "\<not> d \<le> ri_pref ix" by auto
    have "\<exists>w. on_index (\<lambda>i. i\<lparr>ri_exitpolicy := RMAP_GOTO, ri_nextpref := d\<rparr>) v = Some (CMD_SUCCESS, w) \<and> vty_ok w"
      by (rule on_index_ok [OF v]) (use d(2) ix in \<open>auto simp: clause_ok_def\<close>)
    then show ?thesis using d by (auto simp: eq)
  qed
qed

lemma distinct_replace: "distinct (map ru_cmd rs) \<Longrightarrow> distinct (map ru_cmd (rule_replace c arg v rs))"
  by (induction rs) (auto simp: rule_replace_def)

text \<open>The four operations on the rules of a clause.\<close>

lemma rule_change_ok:
  assumes v: "vty_ok v" "vty_node v = RMAP_NODE" and f: "\<And>i. ri_addr (f i) = ri_addr i" "\<And>i. ri_pref (f i) = ri_pref i" "\<And>i. clause_ok i \<Longrightarrow> clause_ok (f i)"
  obtains s' where "index_upd (vty_index v) f (vty_rmap v) = Some s'" "\<forall>on h. vty_ok (v\<lparr>vty_rmap := rmap_call_hook on h s'\<rparr>)"
proof -
  obtain s' where s': "index_upd (vty_index v) f (vty_rmap v) = Some s'" "rmap_ok s'" "map addrs (rs_maps s') = map addrs (rs_maps (vty_rmap v))"
    by (rule upd_in_node [OF v, of f]) (use f in auto)
  then have "\<forall>on h. vty_ok (v\<lparr>vty_rmap := rmap_call_hook on h s'\<rparr>)" by (intro allI vty_keep v(1)) simp_all
  then show thesis using that s'(1) by blast
qed

lemma rules_ok:
  assumes v: "vty_ok v" "vty_node v = RMAP_NODE"
  shows "\<exists>res w. zebra_route_match_add cmds c arg v = Some (res, w) \<and> vty_ok w" "\<exists>res w. zebra_route_match_delete cmds c arg v = Some (res, w) \<and> vty_ok w"
    "\<exists>res w. zebra_route_set_add cmds c arg v = Some (res, w) \<and> vty_ok w" "\<exists>res w. zebra_route_set_delete cmds c arg v = Some (res, w) \<and> vty_ok w"
proof -
  obtain ix nm where at: "index_at (vty_index v) (vty_rmap v) = Some ix" "map_name_of (vty_index v) (vty_rmap v) = Some nm" by (rule at_in_node [OF v])
  note defs = rule_result_def Let_def at

  have 1: "\<exists>s'. index_upd (vty_index v) (\<lambda>i. i\<lparr>ri_match := rule_replace k arg x (ri_match i)\<rparr>) (vty_rmap v) = Some s' \<and> (\<forall>on h. vty_ok (v\<lparr>vty_rmap := rmap_call_hook on h s'\<rparr>))" for k x
    by (rule rule_change_ok [OF v, of "\<lambda>i. i\<lparr>ri_match := rule_replace k arg x (ri_match i)\<rparr>"]) (auto simp: clause_ok_def distinct_replace)
  have 2: "\<exists>s'. index_upd (vty_index v) (\<lambda>i. i\<lparr>ri_match := unlink j (ri_match i)\<rparr>) (vty_rmap v) = Some s' \<and> (\<forall>on h. vty_ok (v\<lparr>vty_rmap := rmap_call_hook on h s'\<rparr>))" for j
    by (rule rule_change_ok [OF v, of "\<lambda>i. i\<lparr>ri_match := unlink j (ri_match i)\<rparr>"]) (auto simp: clause_ok_def map_unlink distinct_unlink)
  have 3: "\<exists>s'. index_upd (vty_index v) (\<lambda>i. i\<lparr>ri_set := rule_replace k arg x (ri_set i)\<rparr>) (vty_rmap v) = Some s' \<and> (\<forall>on h. vty_ok (v\<lparr>vty_rmap := rmap_call_hook on h s'\<rparr>))" for k x
    by (rule rule_change_ok [OF v, of "\<lambda>i. i\<lparr>ri_set := rule_replace k arg x (ri_set i)\<rparr>"]) (auto simp: clause_ok_def distinct_replace)
  have 4: "\<exists>s'. index_upd (vty_index v) (\<lambda>i. i\<lparr>ri_set := unlink j (ri_set i)\<rparr>) (vty_rmap v) = Some s' \<and> (\<forall>on h. vty_ok (v\<lparr>vty_rmap := rmap_call_hook on h s'\<rparr>))" for j
    by (rule rule_change_ok [OF v, of "\<lambda>i. i\<lparr>ri_set := unlink j (ri_set i)\<rparr>"]) (auto simp: clause_ok_def map_unlink distinct_unlink)
  show "\<exists>res w. zebra_route_match_add cmds c arg v = Some (res, w) \<and> vty_ok w"
  proof (cases "route_map_lookup_match cmds c (vty_rmap v)")
    case (Some k)
    then show ?thesis using v(1) 1 [of k "the (rule_compile (cmds k) arg)"]
      by (cases "rule_compile (cmds k) arg") (auto simp: zebra_route_match_add_def route_map_add_match_def defs)
  qed (simp add: zebra_route_match_add_def route_map_add_match_def defs v(1))
  show "\<exists>res w. zebra_route_match_delete cmds c arg v = Some (res, w) \<and> vty_ok w"
  proof (cases "route_map_lookup_match cmds c (vty_rmap v)")
    case (Some k)
    then show ?thesis using v(1) 2 [of "the (rule_find k arg (ri_match ix))"]
      by (cases "rule_find k arg (ri_match ix)") (auto simp: zebra_route_match_delete_def route_map_delete_match_def defs)
  qed (simp add: zebra_route_match_delete_def route_map_delete_match_def defs v(1))
  show "\<exists>res w. zebra_route_set_add cmds c arg v = Some (res, w) \<and> vty_ok w"
  proof (cases "route_map_lookup_set cmds c (vty_rmap v)")
    case (Some k)
    then show ?thesis using v(1) 3 [of k "the (rule_compile (cmds k) arg)"]
      by (cases "rule_compile (cmds k) arg") (auto simp: zebra_route_set_add_def route_map_add_set_def defs)
  qed (simp add: zebra_route_set_add_def route_map_add_set_def defs v(1))
  show "\<exists>res w. zebra_route_set_delete cmds c arg v = Some (res, w) \<and> vty_ok w"
  proof (cases "route_map_lookup_set cmds c (vty_rmap v)")
    case (Some k)
    then show ?thesis using v(1) 4 [of "the (rule_find k arg (ri_set ix))"]
      by (cases "rule_find k arg (ri_set ix)") (auto simp: zebra_route_set_delete_def route_map_delete_set_def defs)
  qed (simp add: zebra_route_set_delete_def route_map_delete_set_def defs v(1))
qed

lemma dec_val_nonneg: "0 \<le> acc \<Longrightarrow> 0 \<le> dec_val acc str"
  by (induction acc str rule: dec_val.induct) auto

lemma pref_arg_range: "rmap_pref_arg arg = Some n \<Longrightarrow> 1 \<le> n \<and> n \<le> 65535"
proof -
  have "0 \<le> fst (strtoul arg)" by (simp add: strtoul_def Let_def dec_val_nonneg)
  then show "rmap_pref_arg arg = Some n \<Longrightarrow> 1 \<le> n \<and> n \<le> 65535" by (auto simp: rmap_pref_arg_def split: prod.splits if_splits)
qed

lemma type_arg_any: "rmap_type_arg arg = Some t \<Longrightarrow> t \<noteq> RMAP_ANY"
  by (auto simp: rmap_type_arg_def split: if_splits)

lemma route_map_cmd_ok:
  assumes v: "vty_ok v"
  shows "vty_ok (snd (route_map_cmd nm ty num v))"
proof (cases "rmap_type_arg ty = None \<or> rmap_pref_arg num = None")
  case True
  then show ?thesis using v by (auto simp: route_map_cmd_def split: option.split)
next
  case False
  then obtain t n where a: "rmap_type_arg ty = Some t" "rmap_pref_arg num = Some n" by auto
  have s: "rmap_ok (vty_rmap v)" using v by (simp add: vty_ok_def)
  obtain m s1 where g: "route_map_get nm (vty_rmap v) = (m, s1)" by fastforce
  obtain i s2 where x: "route_map_index_get m t n s1 = (i, s2)" by fastforce
  note g1 = map_get_ok [OF s g]
  have x1: "rmap_ok s2" "length (rs_maps s2) = length (rs_maps s1)" "i < length (rm_indexes (rs_maps s2 ! m))" "\<forall>j. j \<noteq> m \<longrightarrow> rs_maps s2 ! j = rs_maps s1 ! j"
    using index_get_ok [OF _ _ _ _ type_arg_any [OF a(1)] x] g1 pref_arg_range [OF a(2)] by auto
  have m: "m < length (rs_maps s2)" using g1 x1(2) by simp
  have "rm_indexes (rs_maps s2 ! j) \<noteq> []" if "j < length (rs_maps s2)" for j
    using v g1 x1 that by (cases "j = m") (auto simp: vty_ok_def)
  then have "\<forall>rm \<in> set (rs_maps s2). rm_indexes rm \<noteq> []" by (auto simp: in_set_conv_nth)
  moreover have "ri_addr (rm_indexes (rs_maps s2 ! m) ! i) \<in> all_addrs s2" using m x1(3) by (auto simp: all_addrs_def intro!: bexI [of _ "rs_maps s2 ! m"])
  ultimately show ?thesis using a x1(1) by (simp add: route_map_cmd_def g x vty_ok_def)
qed

lemma no_all_ok:
  assumes "vty_ok v" "vty_node v = CONFIG_NODE"
  shows "vty_ok (snd (no_route_map_all nm v))"
proof (cases "route_map_lookup_by_name nm (vty_rmap v)")
  case (Some m)
  have "rmap_ok (vty_rmap v)" "m < length (rs_maps (vty_rmap v))" using assms lookup_by_name_bound [OF Some] by (auto simp: vty_ok_def)
  then show ?thesis using assms Some delete_ok [of "vty_rmap v" m] set_unlink_subset [of m "rs_maps (vty_rmap v)"] by (auto simp: no_route_map_all_def vty_ok_def)
qed (use assms in \<open>simp add: no_route_map_all_def\<close>)

lemma delete_clause_ok:
  fixes i :: nat
  assumes s: "rmap_ok s" "\<forall>rm \<in> set (rs_maps s). rm_indexes rm \<noteq> []" "m < length (rs_maps s)"
  defines "s1 \<equiv> route_map_index_delete m i True s"
  defines "s2 \<equiv> (if route_map_empty (rs_maps s1 ! m) then route_map_delete m s1 else s1)"
  shows "rmap_ok s2 \<and> (\<forall>rm \<in> set (rs_maps s2). rm_indexes rm \<noteq> [])"
proof -
  note d = index_delete_ok [OF s(1,3), of i True, folded s1_def]
  have m: "m < length (rs_maps s1)" using s(3) by (simp add: d(2))
  let ?x = "(rs_maps s ! m)\<lparr>rm_indexes := unlink i (rm_indexes (rs_maps s ! m))\<rparr>"
  show ?thesis
  proof (cases "route_map_empty (rs_maps s1 ! m)")
    case True
    have "unlink m ((rs_maps s)[m := ?x]) = unlink m (rs_maps s)" by (simp add: unlink_def)
    then have "set (rs_maps s2) \<subseteq> set (rs_maps s)" using True delete_ok(2) [OF d(1) m] set_unlink_subset [of m "rs_maps s"] by (simp add: s2_def d(2))
    then show ?thesis using True delete_ok(1) [OF d(1) m] s(2) by (auto simp: s2_def)
  next
    case False
    then have "rm_indexes ?x \<noteq> []" using s(3) by (simp add: route_map_empty_def d(2))
    then have "\<forall>rm \<in> set (rs_maps s1). rm_indexes rm \<noteq> []" using s(2) set_update_subset_insert [of "rs_maps s" m ?x] by (auto simp: d(2))
    then show ?thesis using False d(1) by (simp add: s2_def)
  qed
qed

lemma no_route_map_ok:
  assumes v: "vty_ok v" "vty_node v = CONFIG_NODE"
  shows "vty_ok (snd (no_route_map nm ty num v))"
proof (cases "rmap_type_arg ty = None \<or> rmap_pref_arg num = None \<or> route_map_lookup_by_name nm (vty_rmap v) = None")
  case True
  then show ?thesis using v by (auto simp: no_route_map_def split: option.split)
next
  case False
  then obtain t n m where a: "rmap_type_arg ty = Some t" "rmap_pref_arg num = Some n" "route_map_lookup_by_name nm (vty_rmap v) = Some m" by auto
  have "rmap_ok (vty_rmap v)" "\<forall>rm \<in> set (rs_maps (vty_rmap v)). rm_indexes rm \<noteq> []" "m < length (rs_maps (vty_rmap v))"
    using v lookup_by_name_bound [OF a(3)] by (auto simp: vty_ok_def)
  note d = delete_clause_ok [OF this]
  show ?thesis
  proof (cases "route_map_index_lookup (rs_maps (vty_rmap v) ! m) t n")
    case None
    then show ?thesis using v a by (simp add: no_route_map_def)
  next
    case (Some i)
    then have "snd (no_route_map nm ty num v) = v\<lparr>vty_rmap := if route_map_empty (rs_maps (route_map_index_delete m i True (vty_rmap v)) ! m)
        then route_map_delete m (route_map_index_delete m i True (vty_rmap v)) else route_map_index_delete m i True (vty_rmap v)\<rparr>"
      using a by (simp add: no_route_map_def Let_def)
    then show ?thesis using d [of i] v(2) by (simp add: vty_ok_def del: if_split)
  qed
qed

lemma run_ok:
  assumes v: "vty_ok v" "installed (vty_node v) c"
  shows "\<exists>res w. cmd_run cmds c v = Some (res, w) \<and> vty_ok w"
proof (cases c)
  case (Route_map nm ty num)
  then show ?thesis using route_map_cmd_ok [OF v(1), of nm ty num] by (cases "route_map_cmd nm ty num v") simp
next
  case (No_route_map_all nm)
  then show ?thesis using v no_all_ok [OF v(1), of nm] by (cases "no_route_map_all nm v") simp
next
  case (No_route_map nm ty num)
  then show ?thesis using v no_route_map_ok [OF v(1), of nm ty num] by (cases "no_route_map nm ty num v") simp
next
  case No_call
  then have n: "vty_node v = RMAP_NODE" using v by simp
  obtain s' where "index_upd (vty_index v) (\<lambda>i. i\<lparr>ri_nextrm := None\<rparr>) (vty_rmap v) = Some s'" "vty_ok (v\<lparr>vty_rmap := s'\<rparr>)"
    by (rule upd_in_node [OF v(1) n, of "\<lambda>i. i\<lparr>ri_nextrm := None\<rparr>"]) (auto simp: clause_ok_def)
  then show ?thesis using No_call by (simp add: no_rmap_call_def)
next
  case Exit
  then show ?thesis using v by (simp add: vty_ok_def)
next
  case (Onmatch_goto arg)
  then show ?thesis using v goto_ok by simp
next
  case (Match command arg)
  then show ?thesis using v rules_ok(1) [OF v(1)] by simp
next
  case (No_match command arg)
  then show ?thesis using v rules_ok(2) [OF v(1)] by simp
next
  case (Set command arg)
  then show ?thesis using v rules_ok(3) [OF v(1)] by simp
next
  case (No_set command arg)
  then show ?thesis using v rules_ok(4) [OF v(1)] by simp
qed (use v in \<open>auto simp: rmap_onmatch_next_def no_rmap_onmatch_next_def no_rmap_onmatch_goto_def rmap_call_def rmap_description_def no_rmap_description_def clause_ok_def
    intro!: exI [of _ CMD_SUCCESS] on_index_ok\<close>)

lemma execute_ok:
  assumes v: "vty_ok v"
  shows "\<exists>res w. cmd_execute_command cmds c v = Some (res, w) \<and> vty_ok w"
proof -
  have "vty_ok (v\<lparr>vty_node := CONFIG_NODE\<rparr>)" using v by (simp add: vty_ok_def)
  then show ?thesis using run_ok [OF v, of c cmds] run_ok [of "v\<lparr>vty_node := CONFIG_NODE\<rparr>" c cmds] v by (auto simp: cmd_execute_command_def)
qed

section \<open>Reachable configurations\<close>

text \<open>
  A daemon installs its rules and hooks, and then a terminal gives commands.  Only one terminal
  configures at a time, so one terminal is enough.
\<close>

inductive rmap_reach :: "('v, 'o) rule_cmds \<Rightarrow> 'v rmap_vty \<Rightarrow> bool" for cmds where
  init: "rmap_reach cmds \<lparr>vty_node = CONFIG_NODE, vty_index = None, vty_rmap = route_map_init\<rparr>"
| hooks: "rmap_reach cmds v \<Longrightarrow> f \<in> {route_map_add_hook, route_map_delete_hook, route_map_event_hook} \<Longrightarrow> rmap_reach cmds (v\<lparr>vty_rmap := f (vty_rmap v)\<rparr>)"
| install_match: "rmap_reach cmds v \<Longrightarrow> route_map_install_match c (vty_rmap v) = Some s \<Longrightarrow> rmap_reach cmds (v\<lparr>vty_rmap := s\<rparr>)"
| install_set: "rmap_reach cmds v \<Longrightarrow> route_map_install_set c (vty_rmap v) = Some s \<Longrightarrow> rmap_reach cmds (v\<lparr>vty_rmap := s\<rparr>)"
| command: "rmap_reach cmds v \<Longrightarrow> cmd_execute_command cmds c v = Some (res, w) \<Longrightarrow> rmap_reach cmds w"

lemma same_maps: "vty_ok v \<Longrightarrow> rs_maps s = rs_maps (vty_rmap v) \<Longrightarrow> rs_next s = rs_next (vty_rmap v) \<Longrightarrow> vty_ok (v\<lparr>vty_rmap := s\<rparr>)"
  by (simp add: vty_ok_def rmap_ok_def all_addrs_def)

lemma rmap_reach_ok: "rmap_reach cmds v \<Longrightarrow> vty_ok v"
proof (induction rule: rmap_reach.induct)
  case init
  then show ?case by (simp add: vty_ok_def rmap_ok_def route_map_init_def)
next
  case (hooks v f)
  then show ?case by (auto simp: route_map_add_hook_def route_map_delete_hook_def route_map_event_hook_def intro: same_maps)
next
  case (install_match v c s)
  then show ?case by (auto simp: route_map_install_match_def intro: same_maps)
next
  case (install_set v c s)
  then show ?case by (auto simp: route_map_install_set_def intro: same_maps)
next
  case (command v c res w)
  then show ?case using execute_ok [of v cmds c] by auto
qed

lemma reach_clauses:
  assumes "rmap_reach cmds v"
  shows "maps_ok (vty_rmap v)" "rm \<in> set (rs_maps (vty_rmap v)) \<Longrightarrow> clauses_ok (rm_indexes rm)"
  using rmap_reach_ok [OF assms] by (auto simp: vty_ok_def rmap_ok_def rmap_good_def maps_ok_def)

text \<open>\<^verbatim>\<open>route_map_finish\<close> leaves no route map.\<close>

lemma finish_empty: "rmap_ok s \<Longrightarrow> rs_maps (route_map_finish s) = []"
proof -
  have "rmap_ok s \<Longrightarrow> n \<le> length (rs_maps s) \<Longrightarrow> rs_maps (delete_maps n s) = drop n (rs_maps s)" for n and s :: "'a rmap_state"
  proof (induction n arbitrary: s)
    case (Suc n)
    have "0 < length (rs_maps s)" using Suc.prems(2) by linarith
    note d = delete_ok [OF Suc.prems(1) this]
    then show ?case using Suc.IH [OF d(1)] Suc.prems(2) by (simp add: unlink_def)
  qed simp
  then show "rmap_ok s \<Longrightarrow> rs_maps (route_map_finish s) = []" by (simp add: route_map_finish_def)
qed

section \<open>Properties\<close>

text \<open>C14: applying a route map always returns, whatever the route maps call and wherever they jump, for every value of the recursion
  counter up to one above the limit; afterwards the counter is what it was, or, when the limit of calls was met and the route
  denied, eleven less.\<close>

theorem route_map_apply_returns:
  assumes "r \<le> RMAP_RECURSION_LIMIT + 1"
  shows "\<exists>ret r' ob'. route_map_apply cmds s rm p type r ob = Some (ret, r', ob') \<and>
    (r' = r \<or> r' = r - (RMAP_RECURSION_LIMIT + 1) \<and> ret = RMAP_DENYMATCH)"
  using route_map_returns [OF assms] by (simp add: returns_def counter_after_def)

definition example_cmds :: "(unit, nat) rule_cmds" where
  "example_cmds c = \<lparr>rc_str = ''metric'', rc_apply = (\<lambda>v p type n. (RMAP_OKAY, n + 1)), rc_compile = None\<rparr>"

definition example_clause :: "unit route_map_index" where
  "example_clause = (route_map_index_new 0)\<lparr>ri_pref := 10, ri_nextrm := Some ''loop'', ri_set := [\<lparr>ru_cmd = 0, ru_str = None, ru_value = None\<rparr>]\<rparr>"

definition example_rmap :: "unit route_map" where
  "example_rmap = \<lparr>rm_name = ''loop'', rm_indexes = [example_clause]\<rparr>"

definition example_rmaps :: "unit rmap_state" where
  "example_rmaps = route_map_init\<lparr>rs_maps := [example_rmap]\<rparr>"

theorem route_map_apply_returns_witness:
  "(0 :: int) \<le> RMAP_RECURSION_LIMIT + 1 \<and> (\<exists>ret r' ob'. route_map_apply example_cmds example_rmaps (Some example_rmap) prefix_new RMAP_BGP 0 0 = Some (ret, r', ob'))"
  using route_map_apply_returns [of 0 example_cmds example_rmaps "Some example_rmap" prefix_new RMAP_BGP 0] by auto

text \<open>C7: in every configuration the commands can make, applying a route map gives the answer of its clauses by their sequence numbers:
  the clause with the least number decides, a clause that does not match leaves the decision to the next one, a jump goes to the least
  number that is not below the target, and a called route map that denies ends everything.\<close>

theorem route_map_apply_by_sequence:
  assumes "rmap_reach cmds v" "rm \<in> set (rs_maps (vty_rmap v))" "r \<le> RMAP_RECURSION_LIMIT"
  shows "\<exists>res r' ob'. route_map_apply cmds (vty_rmap v) (Some rm) p type r ob = Some (res, r', ob') \<and>
    rmap_eval cmds (vty_rmap v) p type (nat (RMAP_RECURSION_LIMIT - r)) (rm_indexes rm) 1 ob res ob'"
proof -
  obtain res r' ob' where run: "route_map_apply cmds (vty_rmap v) (Some rm) p type r ob = Some (res, r', ob')"
    using route_map_returns [of r cmds "vty_rmap v" "Some rm" p type ob] assms(3) by (auto simp: returns_def)
  then show ?thesis using apply_sound [OF reach_clauses(1) [OF assms(1)] assms(3) reach_clauses(2) [OF assms(1,2)] run] by (auto simp: depth_def)
qed

lemma example_configuration:
  obtains v where "rmap_reach example_cmds v" "map rm_name (rs_maps (vty_rmap v)) = [''loop'']" "vty_node v = RMAP_NODE"
proof -
  let ?v = "\<lparr>vty_node = CONFIG_NODE, vty_index = None, vty_rmap = route_map_init\<rparr> :: unit rmap_vty"
  have "map_option (\<lambda>(res, w). (res, map rm_name (rs_maps (vty_rmap w)), vty_node w)) (cmd_execute_command example_cmds (Route_map ''loop'' ''permit'' ''10'') ?v) =
      Some (Some CMD_SUCCESS, [''loop''], RMAP_NODE)" by code_simp
  then obtain w where w: "cmd_execute_command example_cmds (Route_map ''loop'' ''permit'' ''10'') ?v = Some (Some CMD_SUCCESS, w)"
    "map rm_name (rs_maps (vty_rmap w)) = [''loop'']" "vty_node w = RMAP_NODE" by auto
  show thesis by (rule that [OF rmap_reach.command [OF rmap_reach.init w(1)] w(2,3)])
qed

theorem route_map_apply_by_sequence_witness:
  "\<exists>v rm res ob'. rmap_reach example_cmds v \<and> rm \<in> set (rs_maps (vty_rmap v)) \<and>
     rmap_eval example_cmds (vty_rmap v) prefix_new RMAP_BGP 10 (rm_indexes rm) 1 0 res ob'"
proof -
  obtain v where v: "rmap_reach example_cmds v" "map rm_name (rs_maps (vty_rmap v)) = [''loop'']" by (rule example_configuration)
  then obtain rm where rm: "rm \<in> set (rs_maps (vty_rmap v))" by (cases "rs_maps (vty_rmap v)") auto
  then show ?thesis using v(1) route_map_apply_by_sequence [OF v(1) rm, of 0 prefix_new RMAP_BGP 0] by auto
qed

text \<open>C34: meeting the limit sets the counter to zero in the innermost call, and the outer calls still count down. Applying any route map
  leaves the counter as it was, or denies the route and leaves the counter eleven lower. A route map whose first clause permits, matches
  whatever the object and calls the route map itself always takes the second way: of the routes that pass it, the first goes through the
  rules of the clause eleven times, the second twenty-two times, and so on: the depth of the recursion grows with every such route,
  and the limit no longer limits it.\<close>

theorem route_map_counter_leaks:
  assumes "r \<le> RMAP_RECURSION_LIMIT + 1"
  shows "(\<exists>ret r' ob'. route_map_apply cmds s rmap p type r ob = Some (ret, r', ob') \<and> (r' = r \<or> r' = r - 11 \<and> ret = RMAP_DENYMATCH)) \<and>
    (self_calling cmds p type s rm i \<longrightarrow> apply_routes cmds s rm p type 0 obs =
      Some (map (\<lambda>(k, ob). (RMAP_DENYMATCH, (clause_effect cmds p type i ^^ (11 * (k + 1))) ob)) (enumerate 0 obs), - 11 * int (length obs)))"
proof (intro conjI impI)
  show "\<exists>ret r' ob'. route_map_apply cmds s rmap p type r ob = Some (ret, r', ob') \<and> (r' = r \<or> r' = r - 11 \<and> ret = RMAP_DENYMATCH)"
    using route_map_returns [OF assms, of cmds s rmap p type ob] by (auto simp: returns_def counter_after_def)
  assume "self_calling cmds p type s rm i"
  from self_calling_routes [OF this, of 0 obs] show "apply_routes cmds s rm p type 0 obs =
      Some (map (\<lambda>(k, ob). (RMAP_DENYMATCH, (clause_effect cmds p type i ^^ (11 * (k + 1))) ob)) (enumerate 0 obs), - 11 * int (length obs))" by simp
qed

theorem route_map_counter_leaks_witness:
  "(0 :: int) \<le> RMAP_RECURSION_LIMIT + 1 \<and>
   (\<exists>ret r' ob'. route_map_apply example_cmds example_rmaps (Some example_rmap) prefix_new RMAP_BGP 0 0 = Some (ret, r', ob') \<and> (r' = 0 \<or> r' = - 11 \<and> ret = RMAP_DENYMATCH)) \<and>
   apply_routes example_cmds example_rmaps example_rmap prefix_new RMAP_BGP 0 [0, 0, 0] =
     Some ([(RMAP_DENYMATCH, 11), (RMAP_DENYMATCH, 22), (RMAP_DENYMATCH, 33)], - 33)"
proof -
  have "self_calling example_cmds prefix_new RMAP_BGP example_rmaps example_rmap example_clause"
    by (simp add: self_calling_def example_rmaps_def example_rmap_def example_clause_def route_map_index_new_def route_map_lookup_by_name_def index_of_def
      route_map_apply_match_def)
  moreover have "clause_effect example_cmds prefix_new RMAP_BGP example_clause = Suc"
    by (simp add: fun_eq_iff clause_effect_def example_cmds_def example_clause_def route_map_index_new_def route_map_apply_match_def)
  ultimately show ?thesis
    using route_map_counter_leaks [of 0 example_cmds example_rmaps "Some example_rmap" prefix_new RMAP_BGP 0 example_rmap example_clause "[0, 0, 0]"]
    by (simp add: numeral_eq_Suc)
qed

text \<open>C15: no command of a terminal uses a freed clause: in every configuration the commands can make, each command returns;
  the numbers of the clauses ascend strictly, jumps go forward, every clause has at most one rule of a kind, and while
  the terminal edits a clause, that clause exists.\<close>

theorem route_map_commands_safe:
  assumes "rmap_reach cmds v"
  shows "(\<exists>res w. cmd_execute_command cmds c v = Some (res, w)) \<and>
    (\<forall>rm \<in> set (rs_maps (vty_rmap v)). sorted_wrt (\<lambda>x y. ri_pref x < ri_pref y) (rm_indexes rm) \<and>
      (\<forall>i \<in> set (rm_indexes rm). (ri_exitpolicy i = RMAP_GOTO \<longrightarrow> ri_pref i < ri_nextpref i) \<and> distinct (map ru_cmd (ri_match i)) \<and> distinct (map ru_cmd (ri_set i)))) \<and>
    (vty_node v = RMAP_NODE \<longrightarrow> (\<exists>rm \<in> set (rs_maps (vty_rmap v)). \<exists>i \<in> set (rm_indexes rm). vty_index v = Some (ri_addr i)))"
proof -
  have ok: "vty_ok v" by (rule rmap_reach_ok [OF assms])
  then show ?thesis using execute_ok [OF ok, of cmds c] reach_clauses(2) [OF assms] by (fastforce simp: clauses_ok_def clause_ok_def vty_ok_def all_addrs_def)
qed

theorem route_map_commands_safe_witness:
  "\<exists>v. rmap_reach example_cmds v \<and> vty_node v = RMAP_NODE \<and> (\<exists>res w. cmd_execute_command example_cmds (No_route_map_all ''loop'') v = Some (res, w)) \<and>
     (\<exists>rm \<in> set (rs_maps (vty_rmap v)). \<exists>i \<in> set (rm_indexes rm). vty_index v = Some (ri_addr i))"
proof -
  obtain v where v: "rmap_reach example_cmds v" "vty_node v = RMAP_NODE" by (rule example_configuration)
  then show ?thesis using route_map_commands_safe [OF v(1), of "No_route_map_all ''loop''"] by (intro exI [of _ v]) simp
qed

text \<open>\<^verbatim>\<open>on-match next\<close> alone never permits: a route map in which every clause permits and goes on to the next one
  denies every route, also one that all its clauses match.\<close>

theorem on_match_next_denies:
  assumes "\<forall>i \<in> set (rm_indexes rm). ri_type i = RMAP_PERMIT \<and> ri_exitpolicy i = RMAP_NEXT \<and> ri_nextrm i = None" "r \<le> RMAP_RECURSION_LIMIT"
  shows "\<exists>ob'. route_map_apply cmds s (Some rm) p type r ob = Some (RMAP_DENYMATCH, r, ob')"
  using next_only_denies [OF assms(1), of cmds s p type r ob] assms(2) by (simp add: route_map_apply_def)

theorem on_match_next_denies_witness:
  "\<exists>ob'. route_map_apply example_cmds route_map_init (Some \<lparr>rm_name = ''n'', rm_indexes = [(route_map_index_new 0)\<lparr>ri_exitpolicy := RMAP_NEXT\<rparr>]\<rparr>) prefix_new RMAP_BGP 0 0 =
     Some (RMAP_DENYMATCH, 0, ob')"
  by (rule on_match_next_denies) (simp_all add: route_map_index_new_def)

text \<open>C35: when the set rules answer \<^verbatim>\<open>RMAP_OKAY\<close>, the answer of a route map is one of
  \<^verbatim>\<open>RMAP_MATCH\<close>, \<^verbatim>\<open>RMAP_OKAY\<close> and \<^verbatim>\<open>RMAP_DENYMATCH\<close>, whatever the match rules answer.\<close>

theorem route_map_apply_result:
  assumes "rmap_reach cmds v" "rm \<in> set (rs_maps (vty_rmap v))" "\<forall>x \<in> set (rs_maps (vty_rmap v)). sets_okay cmds p type (rm_indexes x)"
    "r \<le> RMAP_RECURSION_LIMIT" "route_map_apply cmds (vty_rmap v) (Some rm) p type r ob = Some (res, r', ob')"
  shows "res \<in> {RMAP_MATCH, RMAP_OKAY, RMAP_DENYMATCH}"
proof -
  note eval = apply_sound [OF reach_clauses(1) [OF assms(1)] assms(4) reach_clauses(2) [OF assms(1,2)] assms(5)]
  show ?thesis using eval_final(1) [OF assms(3) eval] assms(2,3) unfolding final_results_def by blast
qed

theorem route_map_apply_result_witness:
  "\<exists>v rm res r' ob'. rmap_reach example_cmds v \<and> route_map_apply example_cmds (vty_rmap v) (Some rm) prefix_new RMAP_BGP 0 0 = Some (res, r', ob') \<and>
     res \<in> {RMAP_MATCH, RMAP_OKAY, RMAP_DENYMATCH}"
proof -
  obtain v where v: "rmap_reach example_cmds v" "map rm_name (rs_maps (vty_rmap v)) = [''loop'']" by (rule example_configuration)
  then obtain rm where rm: "rm \<in> set (rs_maps (vty_rmap v))" by (cases "rs_maps (vty_rmap v)") auto
  have okay: "\<forall>x \<in> set (rs_maps (vty_rmap v)). sets_okay example_cmds prefix_new RMAP_BGP (rm_indexes x)" by (simp add: sets_okay_def example_cmds_def)
  obtain res r' ob' where run: "route_map_apply example_cmds (vty_rmap v) (Some rm) prefix_new RMAP_BGP 0 0 = Some (res, r', ob')"
    using route_map_returns [of 0 example_cmds "vty_rmap v" "Some rm" prefix_new RMAP_BGP 0] by (auto simp: returns_def)
  have "res \<in> {RMAP_MATCH, RMAP_OKAY, RMAP_DENYMATCH}" by (rule route_map_apply_result [OF v(1) rm okay _ run]) simp
  then show ?thesis using v(1) run by blast
qed

end
