(* ===== verification/Aspath.thy ===== *)
theory Aspath
  imports Stream_Buffer "HOL-Library.Monad_Syntax"
begin

text \<open>
  \<^verbatim>\<open>bgpd/bgp_aspath.c\<close>: the AS paths of BGP.  The chain of segments of a path is a list.  The array of a segment is
  the list of its first \<^verbatim>\<open>length\<close> numbers; \<^verbatim>\<open>length\<close> is an unsigned short, so it wraps around.  \<open>None\<close> is a failed
  assertion, a null pointer or an access outside of an array; where the code itself returns a null pointer, the result is an option inside.
\<close>

section \<open>Data\<close>

type_synonym as_t = u32

abbreviation AS_SET :: u8 where "AS_SET \<equiv> 1"

abbreviation AS_SEQUENCE :: u8 where "AS_SEQUENCE \<equiv> 2"

abbreviation AS_CONFED_SEQUENCE :: u8 where "AS_CONFED_SEQUENCE \<equiv> 3"

abbreviation AS_CONFED_SET :: u8 where "AS_CONFED_SET \<equiv> 4"

abbreviation AS_HEADER_SIZE :: nat where "AS_HEADER_SIZE \<equiv> 2"

abbreviation AS_SEGMENT_MAX :: nat where "AS_SEGMENT_MAX \<equiv> 255"

abbreviation BGP_AS_MAX :: as_t where "BGP_AS_MAX \<equiv> 65535"

abbreviation BGP_AS_TRANS :: as_t where "BGP_AS_TRANS \<equiv> 23456"

abbreviation ASPATH_STR_DEFAULT_LEN :: nat where "ASPATH_STR_DEFAULT_LEN \<equiv> 32"

record assegment =
  seg_type :: u8
  seg_as :: "as_t list"

record aspath =
  refcnt :: nat
  segments :: "assegment list"
  as_str :: "string option"
  str_len :: u16

abbreviation seg_len :: "assegment \<Rightarrow> nat" where
  "seg_len seg \<equiv> length (seg_as seg)"

definition BGP_AS_IS_PRIVATE :: "as_t \<Rightarrow> bool" where
  "BGP_AS_IS_PRIVATE a \<longleftrightarrow> a \<ge> 64512 \<and> a \<le> 65535 \<or> a \<ge> 4200000000 \<and> a \<le> 4294967294"

definition ASSEGMENT_SIZE :: "nat \<Rightarrow> bool \<Rightarrow> nat" where
  "ASSEGMENT_SIZE n use32bit = AS_HEADER_SIZE + n * (if use32bit then 4 else 2)"

definition ASSEGMENT_TYPES_PACKABLE :: "assegment \<Rightarrow> assegment \<Rightarrow> bool" where
  "ASSEGMENT_TYPES_PACKABLE x y \<longleftrightarrow> seg_type x = seg_type y \<and> seg_type x = AS_SEQUENCE"

definition ASSEGMENTS_PACKABLE :: "assegment \<Rightarrow> assegment \<Rightarrow> bool" where
  "ASSEGMENTS_PACKABLE x y \<longleftrightarrow> ASSEGMENT_TYPES_PACKABLE x y \<and> seg_len x + seg_len y \<le> AS_SEGMENT_MAX"

definition aspath_new :: aspath where
  "aspath_new = \<lparr>refcnt = 0, segments = [], as_str = None, str_len = 0\<rparr>"

section \<open>Segments\<close>

text \<open>A segment without numbers; the callers that ask for room fill it at once.\<close>

definition assegment_new :: "u8 \<Rightarrow> assegment" where
  "assegment_new type = \<lparr>seg_type = type, seg_as = []\<rparr>"

text \<open>The numbers of a segment after \<^verbatim>\<open>seg->length\<close> was set to \<open>n\<close>.\<close>

definition set_asns :: "as_t list \<Rightarrow> assegment \<Rightarrow> assegment" where
  "set_asns as seg = seg\<lparr>seg_as := take (length as mod 2 ^ 16) as\<rparr>"

definition assegment_prepend_asns :: "assegment \<Rightarrow> as_t \<Rightarrow> int \<Rightarrow> assegment option" where
  "assegment_prepend_asns seg asnum num =
     (if num = 0 then Some seg
      else if num \<ge> int AS_SEGMENT_MAX then Some seg
      else if num < 0 then None
      else Some (set_asns (replicate (nat num) asnum @ seg_as seg) seg))"

definition assegment_append_asns :: "assegment \<Rightarrow> as_t list \<Rightarrow> assegment" where
  "assegment_append_asns seg asnos = set_asns (seg_as seg @ asnos) seg"

text \<open>The loop that drops repeated numbers of a sorted array in place; \<open>n\<close> rounds are left.\<close>

fun weed_loop :: "as_t list \<Rightarrow> nat \<Rightarrow> nat \<Rightarrow> nat \<Rightarrow> as_t list \<times> nat" where
  "weed_loop as tail i 0 = (as, tail)"
| "weed_loop as tail i (Suc n) =
     (if as ! tail = as ! i then weed_loop as tail (Suc i) n
      else
        let t = Suc tail;
            as1 = (if t < i then as[t := as ! i] else as)
        in weed_loop as1 t (Suc i) n)"

definition weed_dupes :: "as_t list \<Rightarrow> as_t list" where
  "weed_dupes as =
     (if as = [] then []
      else let (as1, tail) = weed_loop as 0 1 (length as - 1) in take (tail + 1) as1)"

definition sort_segment :: "assegment \<Rightarrow> assegment" where
  "sort_segment seg =
     (if seg_type seg = AS_SET \<or> seg_type seg = AS_CONFED_SET then seg\<lparr>seg_as := weed_dupes (sort (seg_as seg))\<rparr>
      else seg)"

text \<open>The segments that follow the pinned one are appended to it while they are sequences as it is.\<close>

fun pack_next :: "assegment \<Rightarrow> assegment list \<Rightarrow> assegment \<times> assegment list" where
  "pack_next pin [] = (pin, [])"
| "pack_next pin (seg # segs) =
     (if ASSEGMENT_TYPES_PACKABLE pin seg then pack_next (assegment_append_asns pin (seg_as seg)) segs
      else (pin, seg # segs))"

lemma pack_next_length: "length (snd (pack_next pin segs)) \<le> length segs"
  by (induction pin segs rule: pack_next.induct) auto

function assegment_normalise :: "assegment list \<Rightarrow> assegment list" where
  "assegment_normalise [] = []"
| "assegment_normalise (seg # segs) =
     (let r = pack_next (sort_segment seg) segs in fst r # assegment_normalise (snd r))"
  by pat_completeness auto
termination
  by (relation "measure length") (auto simp: less_Suc_eq_le pack_next_length)

section \<open>Measures of a path\<close>

fun assegment_count_asns :: "assegment list \<Rightarrow> int \<Rightarrow> int" where
  "assegment_count_asns [] n = 0"
| "assegment_count_asns (seg # segs) n =
     (if n = 0 then int (seg_len seg) else int (seg_len seg) - n) + assegment_count_asns segs 0"

fun count_confeds :: "assegment list \<Rightarrow> nat" where
  "count_confeds [] = 0"
| "count_confeds (seg # segs) =
     (if seg_type seg = AS_CONFED_SEQUENCE then seg_len seg else if seg_type seg = AS_CONFED_SET then 1 else 0) +
     count_confeds segs"

definition aspath_count_confeds :: "aspath \<Rightarrow> nat" where
  "aspath_count_confeds p = count_confeds (segments p)"

fun count_hops :: "assegment list \<Rightarrow> nat" where
  "count_hops [] = 0"
| "count_hops (seg # segs) =
     (if seg_type seg = AS_SEQUENCE then seg_len seg else if seg_type seg = AS_SET then 1 else 0) + count_hops segs"

definition aspath_count_hops :: "aspath \<Rightarrow> nat" where
  "aspath_count_hops p = count_hops (segments p)"

fun segments_size :: "assegment list \<Rightarrow> nat" where
  "segments_size [] = 0"
| "segments_size (seg # segs) = ASSEGMENT_SIZE (seg_len seg) True + segments_size segs"

definition aspath_size :: "aspath \<Rightarrow> nat" where
  "aspath_size p = segments_size (segments p)"

fun highest_as :: "as_t \<Rightarrow> as_t list \<Rightarrow> as_t" where
  "highest_as highest [] = highest"
| "highest_as highest (a # as) = highest_as (if a > highest \<and> \<not> BGP_AS_IS_PRIVATE a then a else highest) as"

fun highest_loop :: "as_t \<Rightarrow> assegment list \<Rightarrow> as_t" where
  "highest_loop highest [] = highest"
| "highest_loop highest (seg # segs) = highest_loop (highest_as highest (seg_as seg)) segs"

definition aspath_highest :: "aspath \<Rightarrow> as_t" where
  "aspath_highest p = highest_loop 0 (segments p)"

definition aspath_leftmost :: "aspath \<Rightarrow> as_t" where
  "aspath_leftmost p =
     (case segments p of
        [] \<Rightarrow> 0
      | seg # _ \<Rightarrow> if seg_as seg \<noteq> [] \<and> seg_type seg = AS_SEQUENCE then hd (seg_as seg) else 0)"

fun has_as4 :: "assegment list \<Rightarrow> bool" where
  "has_as4 [] = False"
| "has_as4 (seg # segs) = (if list_ex (\<lambda>a. a > BGP_AS_MAX) (seg_as seg) then True else has_as4 segs)"

definition aspath_has_as4 :: "aspath \<Rightarrow> bool" where
  "aspath_has_as4 p = has_as4 (segments p)"

section \<open>Checks and comparison\<close>

text \<open>\<^verbatim>\<open>as[0]\<close>; a segment without numbers has no array.\<close>

definition first_as :: "assegment \<Rightarrow> as_t option" where
  "first_as seg = (case seg_as seg of [] \<Rightarrow> None | a # _ \<Rightarrow> Some a)"

definition aspath_firstas_check :: "aspath option \<Rightarrow> as_t \<Rightarrow> bool option" where
  "aspath_firstas_check p asno =
     (case p of
        None \<Rightarrow> Some False
      | Some as \<Rightarrow>
          (case segments as of
             [] \<Rightarrow> Some False
           | seg # _ \<Rightarrow> if seg_type seg = AS_SEQUENCE then map_option (\<lambda>a. a = asno) (first_as seg) else Some False))"

fun loop_count :: "assegment list \<Rightarrow> as_t \<Rightarrow> nat" where
  "loop_count [] asno = 0"
| "loop_count (seg # segs) asno = length (filter (\<lambda>a. a = asno) (seg_as seg)) + loop_count segs asno"

definition aspath_loop_check :: "aspath option \<Rightarrow> as_t \<Rightarrow> nat" where
  "aspath_loop_check p asno =
     (case p of None \<Rightarrow> 0 | Some as \<Rightarrow> if segments as = [] then 0 else loop_count (segments as) asno)"

fun all_private :: "assegment list \<Rightarrow> bool" where
  "all_private [] = True"
| "all_private (seg # segs) = (if list_ex (\<lambda>a. \<not> BGP_AS_IS_PRIVATE a) (seg_as seg) then False else all_private segs)"

definition aspath_private_as_check :: "aspath option \<Rightarrow> bool" where
  "aspath_private_as_check p =
     (case p of None \<Rightarrow> False | Some as \<Rightarrow> if segments as = [] then False else all_private (segments as))"

abbreviation is_confed :: "assegment \<Rightarrow> bool" where
  "is_confed seg \<equiv> seg_type seg = AS_CONFED_SEQUENCE \<or> seg_type seg = AS_CONFED_SET"

fun some_confed :: "assegment list \<Rightarrow> bool" where
  "some_confed [] = False"
| "some_confed (seg # segs) = (if is_confed seg then True else some_confed segs)"

definition aspath_confed_check :: "aspath option \<Rightarrow> bool" where
  "aspath_confed_check p = (case p of None \<Rightarrow> False | Some as \<Rightarrow> some_confed (segments as))"

definition aspath_left_confed_check :: "aspath option \<Rightarrow> bool" where
  "aspath_left_confed_check p =
     (case p of
        None \<Rightarrow> False
      | Some as \<Rightarrow> (case segments as of [] \<Rightarrow> False | seg # _ \<Rightarrow> is_confed seg))"

fun segments_cmp :: "assegment list \<Rightarrow> assegment list \<Rightarrow> bool" where
  "segments_cmp [] [] = True"
| "segments_cmp (x # xs) [] = False"
| "segments_cmp [] (y # ys) = False"
| "segments_cmp (x # xs) (y # ys) =
     (if seg_type x \<noteq> seg_type y then False
      else if seg_len x \<noteq> seg_len y then False
      else if list_ex (\<lambda>i. seg_as x ! i \<noteq> seg_as y ! i) [0..<seg_len x] then False
      else segments_cmp xs ys)"

definition aspath_cmp :: "aspath \<Rightarrow> aspath \<Rightarrow> bool" where
  "aspath_cmp p q = segments_cmp (segments p) (segments q)"

definition aspath_cmp_left :: "aspath option \<Rightarrow> aspath option \<Rightarrow> bool option" where
  "aspath_cmp_left aspath1 aspath2 =
     (case (aspath1, aspath2) of
        (Some p1, Some p2) \<Rightarrow>
          if segments p1 = [] \<and> segments p2 = [] then Some True
          else
            (case (dropWhile is_confed (segments p1), dropWhile is_confed (segments p2)) of
               (seg1 # _, seg2 # _) \<Rightarrow>
                 if seg_type seg1 = AS_SEQUENCE \<and> seg_type seg2 = AS_SEQUENCE
                 then do { a \<leftarrow> first_as seg1; b \<leftarrow> first_as seg2; Some (a = b) }
                 else Some False
             | _ \<Rightarrow> Some False)
      | _ \<Rightarrow> Some False)"

definition aspath_cmp_left_confed :: "aspath option \<Rightarrow> aspath option \<Rightarrow> bool option" where
  "aspath_cmp_left_confed aspath1 aspath2 =
     (case (aspath1, aspath2) of
        (Some p1, Some p2) \<Rightarrow>
          (case (segments p1, segments p2) of
             (seg1 # _, seg2 # _) \<Rightarrow>
               if seg_type seg1 \<noteq> AS_CONFED_SEQUENCE \<or> seg_type seg2 \<noteq> AS_CONFED_SEQUENCE then Some False
               else do { a \<leftarrow> first_as seg1; b \<leftarrow> first_as seg2; Some (a = b) }
           | _ \<Rightarrow> Some False)
      | _ \<Rightarrow> Some False)"

section \<open>Text of a path\<close>

definition aspath_delimiter_char :: "u8 \<Rightarrow> bool \<Rightarrow> char" where
  "aspath_delimiter_char type at_end =
     (if type = AS_SET then (if at_end then CHR ''}'' else CHR ''{'')
      else if type = AS_CONFED_SET then (if at_end then CHR '']'' else CHR ''['')
      else if type = AS_CONFED_SEQUENCE then (if at_end then CHR '')'' else CHR ''('')
      else CHR '' '')"

text \<open>
  \<^verbatim>\<open>snprintf\<close> at the end of the text in a buffer of \<open>n\<close> characters; \<open>None\<close> is a text that does not fit with its
  terminating zero.
\<close>

definition snprintf_end :: "nat \<Rightarrow> string \<Rightarrow> string \<Rightarrow> string option" where
  "snprintf_end n text buf = (if length buf + length text < n then Some (buf @ text) else None)"

fun print_asns :: "nat \<Rightarrow> char \<Rightarrow> as_t list \<Rightarrow> string \<Rightarrow> string option" where
  "print_asns n seperator [] buf = Some buf"
| "print_asns n seperator (a # as) buf = do {
     buf1 \<leftarrow> snprintf_end n (dec_str (unat a)) buf;
     buf2 \<leftarrow> if as \<noteq> [] then snprintf_end n [seperator] buf1 else Some buf1;
     print_asns n seperator as buf2 }"

definition print_segment :: "nat \<Rightarrow> assegment \<Rightarrow> string \<Rightarrow> string option" where
  "print_segment n seg buf =
     (let seperator = (if seg_type seg = AS_SET \<or> seg_type seg = AS_CONFED_SET then CHR '','' else CHR '' '') in do {
      buf1 \<leftarrow> if seg_type seg \<noteq> AS_SEQUENCE then snprintf_end n [aspath_delimiter_char (seg_type seg) False] buf else Some buf;
      buf2 \<leftarrow> print_asns n seperator (seg_as seg) buf1;
      if seg_type seg \<noteq> AS_SEQUENCE then snprintf_end n [aspath_delimiter_char (seg_type seg) True] buf2 else Some buf2 })"

text \<open>The size of the buffer is an int.  The inner \<open>None\<close> is a segment of an unknown type.\<close>

definition SEGMENT_STR_LEN :: "assegment \<Rightarrow> nat" where
  "SEGMENT_STR_LEN seg = seg_len seg * 11 + 2 + 1 + 1"

fun make_str_loop :: "assegment list \<Rightarrow> nat \<Rightarrow> string \<Rightarrow> (nat \<times> string) option option" where
  "make_str_loop [] str_size buf = Some (Some (str_size, buf))"
| "make_str_loop (seg # segs) str_size buf =
     (if seg_type seg \<notin> {AS_SET, AS_CONFED_SET, AS_SEQUENCE, AS_CONFED_SEQUENCE} then Some None
      else if length buf + SEGMENT_STR_LEN seg \<ge> 2 ^ 31 then None
      else
        let str_size1 = max str_size (length buf + SEGMENT_STR_LEN seg) in do {
        buf1 \<leftarrow> print_segment str_size1 seg buf;
        buf2 \<leftarrow> if segs \<noteq> [] then snprintf_end str_size1 '' '' buf1 else Some buf1;
        make_str_loop segs str_size1 buf2 })"

definition aspath_make_str_count :: "aspath \<Rightarrow> aspath option" where
  "aspath_make_str_count as =
     (if segments as = [] then Some (as\<lparr>as_str := Some [], str_len := 0\<rparr>)
      else
        let str_size = max (nat (assegment_count_asns (segments as) 0) * 11 + 2 + 1) ASPATH_STR_DEFAULT_LEN in
        if str_size \<ge> 2 ^ 31 then None
        else do {
          r \<leftarrow> make_str_loop (segments as) str_size [];
          case r of
            None \<Rightarrow> Some (as\<lparr>as_str := None, str_len := 0\<rparr>)
          | Some (sz, buf) \<Rightarrow>
              if length buf < sz then Some (as\<lparr>as_str := Some buf, str_len := word_of_nat (length buf)\<rparr>) else None })"

definition aspath_str_update :: "aspath \<Rightarrow> aspath option" where
  "aspath_str_update as = aspath_make_str_count as"

text \<open>The copy of a text that is longer than its length field says has no terminating zero: it is not a string.\<close>

definition aspath_dup :: "aspath \<Rightarrow> aspath option" where
  "aspath_dup p =
     (case as_str p of
        None \<Rightarrow> Some (aspath_new\<lparr>segments := segments p\<rparr>)
      | Some s \<Rightarrow>
          let buflen = str_len p + 1 in
          if str_len p = 0 then Some (aspath_new\<lparr>segments := segments p, as_str := Some [], str_len := 0\<rparr>)
          else if unat buflen = length s + 1 then Some (aspath_new\<lparr>segments := segments p, as_str := Some s, str_len := str_len p\<rparr>)
          else None)"

definition aspath_empty_get :: "aspath option" where
  "aspath_empty_get = aspath_make_str_count aspath_new"

definition aspath_print :: "aspath option \<Rightarrow> string option" where
  "aspath_print p = (case p of None \<Rightarrow> None | Some as \<Rightarrow> as_str as)"

subsection \<open>Reading a text\<close>

datatype as_token =
    as_token_asval as_t
  | as_token_set_start
  | as_token_set_end
  | as_token_confed_seq_start
  | as_token_confed_seq_end
  | as_token_confed_set_start
  | as_token_confed_set_end
  | as_token_unknown

definition isdigit :: "char \<Rightarrow> bool" where
  "isdigit c \<longleftrightarrow> CHR ''0'' \<le> c \<and> c \<le> CHR ''9''"

definition digit_val :: "char \<Rightarrow> as_t" where
  "digit_val c = word_of_nat (of_char c - of_char CHR ''0'')"

fun asval_loop :: "as_t \<Rightarrow> string \<Rightarrow> as_t \<times> string" where
  "asval_loop asval [] = (asval, [])"
| "asval_loop asval (c # cs) = (if isdigit c then asval_loop (asval * 10 + digit_val c) cs else (asval, c # cs))"

text \<open>The next token and the rest of the text, or \<open>None\<close> at the end.\<close>

definition aspath_gettoken :: "string \<Rightarrow> (as_token \<times> string) option" where
  "aspath_gettoken buf =
     (case dropWhile (\<lambda>c. isspace c \<or> c = CHR '','') buf of
        [] \<Rightarrow> None
      | c # cs \<Rightarrow> Some (
          if c = CHR ''{'' then (as_token_set_start, cs)
          else if c = CHR ''}'' then (as_token_set_end, cs)
          else if c = CHR ''('' then (as_token_confed_seq_start, cs)
          else if c = CHR '')'' then (as_token_confed_seq_end, cs)
          else if c = CHR ''['' then (as_token_confed_set_start, cs)
          else if c = CHR '']'' then (as_token_confed_set_end, cs)
          else if isdigit c then (let r = asval_loop (digit_val c) cs in (as_token_asval (fst r), snd r))
          else (as_token_unknown, c # cs)))"

lemma asval_loop_length: "length (snd (asval_loop v cs)) \<le> length cs"
  by (induction v cs rule: asval_loop.induct) auto

lemma aspath_gettoken_shorter:
  assumes "aspath_gettoken buf = Some (t, rest)" "t \<noteq> as_token_unknown"
  shows "length rest < length buf"
proof -
  have "length (dropWhile (\<lambda>c. isspace c \<or> c = CHR '','') buf) \<le> length buf" by (rule length_dropWhile_le)
  then show ?thesis using assms asval_loop_length
    by (auto simp: aspath_gettoken_def Let_def less_Suc_eq_le dest!: Suc_le_lessD split: list.splits if_splits intro: le_less_trans)
qed

definition aspath_as_add :: "as_t \<Rightarrow> assegment list \<Rightarrow> assegment list" where
  "aspath_as_add asno segs = (if segs = [] then segs else butlast segs @ [assegment_append_asns (last segs) [asno]])"

definition aspath_segment_add :: "u8 \<Rightarrow> assegment list \<Rightarrow> assegment list" where
  "aspath_segment_add type segs = segs @ [assegment_new type]"

text \<open>\<open>None\<close> is a text that is not a path.\<close>

function str2aspath_loop :: "string \<Rightarrow> u8 \<Rightarrow> bool \<Rightarrow> assegment list \<Rightarrow> assegment list option" where
  "str2aspath_loop str as_type needtype segs =
     (case aspath_gettoken str of
        None \<Rightarrow> Some segs
      | Some (token, str1) \<Rightarrow>
          (case token of
             as_token_asval asno \<Rightarrow>
               str2aspath_loop str1 as_type False
                 (aspath_as_add asno (if needtype then aspath_segment_add as_type segs else segs))
           | as_token_set_start \<Rightarrow> str2aspath_loop str1 AS_SET False (aspath_segment_add AS_SET segs)
           | as_token_set_end \<Rightarrow> str2aspath_loop str1 AS_SEQUENCE True segs
           | as_token_confed_seq_start \<Rightarrow>
               str2aspath_loop str1 AS_CONFED_SEQUENCE False (aspath_segment_add AS_CONFED_SEQUENCE segs)
           | as_token_confed_seq_end \<Rightarrow> str2aspath_loop str1 AS_SEQUENCE True segs
           | as_token_confed_set_start \<Rightarrow>
               str2aspath_loop str1 AS_CONFED_SET False (aspath_segment_add AS_CONFED_SET segs)
           | as_token_confed_set_end \<Rightarrow> str2aspath_loop str1 AS_SEQUENCE True segs
           | as_token_unknown \<Rightarrow> None))"
  by pat_completeness auto
termination
  by (relation "measure (\<lambda>(str, _). length str)") (auto dest: aspath_gettoken_shorter)

declare str2aspath_loop.simps [simp del]

definition aspath_str2aspath :: "string \<Rightarrow> aspath option option" where
  "aspath_str2aspath str =
     (case str2aspath_loop str AS_SEQUENCE True [] of
        None \<Rightarrow> Some None
      | Some segs \<Rightarrow> map_option Some (aspath_make_str_count (aspath_new\<lparr>segments := segs\<rparr>)))"

section \<open>The wire format\<close>

fun get_asns :: "nat \<Rightarrow> bool \<Rightarrow> stream_t \<Rightarrow> (as_t list \<times> stream_t) option" where
  "get_asns 0 use32bit s = Some ([], s)"
| "get_asns (Suc n) use32bit s = do {
     (a, s1) \<leftarrow> if use32bit then stream_getl s else map_option (\<lambda>(w, s1). (ucast w, s1)) (stream_getw s);
     (as, s2) \<leftarrow> get_asns n use32bit s1;
     Some (a # as, s2) }"

text \<open>The inner \<open>None\<close> is a malformed path.\<close>

function parse_loop :: "stream_t \<Rightarrow> nat \<Rightarrow> nat \<Rightarrow> bool \<Rightarrow> assegment list \<Rightarrow> (assegment list option \<times> stream_t) option" where
  "parse_loop s len bytes use32bit segs =
     (if bytes < len then
        (if len - bytes \<le> AS_HEADER_SIZE then Some (None, s)
         else do {
           (segh_type, s1) \<leftarrow> stream_getc s;
           (segh_length, s2) \<leftarrow> stream_getc s1;
           let seg_size = ASSEGMENT_SIZE (unat segh_length) use32bit in
           if bytes + seg_size > len \<or> segh_length = 0 then Some (None, s2)
           else if segh_type \<notin> {AS_SEQUENCE, AS_SET, AS_CONFED_SEQUENCE, AS_CONFED_SET} then Some (None, s2)
           else do {
             (as, s3) \<leftarrow> get_asns (unat segh_length) use32bit s2;
             parse_loop s3 len (bytes + seg_size) use32bit (segs @ [\<lparr>seg_type = segh_type, seg_as = as\<rparr>]) } })
      else Some (Some segs, s))"
  by pat_completeness auto
termination
  by (relation "measure (\<lambda>(s, len, bytes, _). len - bytes)") (auto simp: ASSEGMENT_SIZE_def)

declare parse_loop.simps [simp del]

definition assegments_parse :: "stream_t option \<Rightarrow> nat \<Rightarrow> bool \<Rightarrow> (assegment list option \<times> stream_t option) option" where
  "assegments_parse sp len use32bit =
     (if len = 0 then Some (Some [], sp)
      else
        (case sp of
           None \<Rightarrow> None
         | Some s \<Rightarrow>
             if STREAM_READABLE s < len \<or> STREAM_READABLE s < AS_HEADER_SIZE \<or> len mod 2 \<noteq> 0 then Some (None, sp)
             else map_option (\<lambda>(r, s1). (map_option assegment_normalise r, Some s1)) (parse_loop s len 0 use32bit [])))"

fun put_asns :: "as_t list \<Rightarrow> bool \<Rightarrow> stream_t \<Rightarrow> stream_t option" where
  "put_asns [] use32bit s = Some s"
| "put_asns (a # as) use32bit s = do {
     (r, s1) \<leftarrow> if use32bit then stream_putl a s
                else if a \<le> BGP_AS_MAX then stream_putw (ucast a) s
                else stream_putw (ucast BGP_AS_TRANS) s;
     put_asns as use32bit s1 }"

definition assegment_data_put :: "as_t list \<Rightarrow> nat \<Rightarrow> bool \<Rightarrow> stream_t \<Rightarrow> stream_t option" where
  "assegment_data_put as num use32bit s =
     (if num > AS_SEGMENT_MAX then None
      else if num > length as then None
      else put_asns (take num as) use32bit s)"

definition assegment_header_put :: "u8 \<Rightarrow> nat \<Rightarrow> stream_t \<Rightarrow> (nat \<times> stream_t) option" where
  "assegment_header_put type len s =
     (if len > AS_SEGMENT_MAX then None
      else do {
        (r, s1) \<leftarrow> stream_putc type s;
        lenp \<leftarrow> stream_get_endp s1;
        (r, s2) \<leftarrow> stream_putc (word_of_nat len) s1;
        Some (lenp, s2) })"

text \<open>The loops of \<^verbatim>\<open>aspath_put\<close>: splitting an overlong segment, and packing the sequences that follow.\<close>

function put_split :: "assegment \<Rightarrow> bool \<Rightarrow> nat \<Rightarrow> nat \<Rightarrow> stream_t \<Rightarrow> (nat \<times> nat \<times> stream_t) option" where
  "put_split seg use32bit wr bytes s =
     (if seg_len seg > AS_SEGMENT_MAX + wr then do {
        (lenp, s1) \<leftarrow> assegment_header_put (seg_type seg) AS_SEGMENT_MAX s;
        s2 \<leftarrow> assegment_data_put (seg_as seg) AS_SEGMENT_MAX use32bit s1;
        let wr1 = wr + AS_SEGMENT_MAX in
        put_split seg use32bit wr1 (bytes + ASSEGMENT_SIZE wr1 use32bit) s2 }
      else Some (wr, bytes, s))"
  by pat_completeness auto
termination
  by (relation "measure (\<lambda>(seg, _, wr, _). seg_len seg - wr)") auto

declare put_split.simps [simp del]

fun put_pack :: "assegment \<Rightarrow> assegment list \<Rightarrow> bool \<Rightarrow> nat \<Rightarrow> nat \<Rightarrow> nat \<Rightarrow> stream_t \<Rightarrow> (nat \<times> assegment list \<times> stream_t) option" where
  "put_pack seg [] use32bit wr lenp packed s = Some (packed, [], s)"
| "put_pack seg (nxt # rest) use32bit wr lenp packed s =
     (if ASSEGMENTS_PACKABLE seg nxt then do {
        s1 \<leftarrow> assegment_data_put (seg_as nxt) (seg_len nxt) use32bit s;
        (r, s2) \<leftarrow> stream_putc_at lenp (word_of_nat (seg_len seg - wr + seg_len nxt)) s1;
        put_pack seg rest use32bit wr lenp (packed + seg_len nxt) s2 }
      else Some (packed, nxt # rest, s))"

lemma put_pack_length: "put_pack seg segs u w l k s = Some (n, rest, s') \<Longrightarrow> length rest \<le> length segs"
  by (induction seg segs u w l k s rule: put_pack.induct) (fastforce simp: bind_eq_Some_conv split: if_splits)+

function put_loop :: "assegment list \<Rightarrow> bool \<Rightarrow> nat \<Rightarrow> stream_t \<Rightarrow> (nat \<times> stream_t) option" where
  "put_loop [] use32bit bytes s = Some (bytes, s)"
| "put_loop (seg # segs) use32bit bytes s =
     (if ASSEGMENT_SIZE (seg_len seg) use32bit \<le> STREAM_WRITEABLE s then
        (case put_split seg use32bit 0 bytes s of
           None \<Rightarrow> None
         | Some (wr, bytes1, s1) \<Rightarrow>
             (case assegment_header_put (seg_type seg) (seg_len seg - wr) s1 of
                None \<Rightarrow> None
              | Some (lenp, s2) \<Rightarrow>
                  (case assegment_data_put (drop wr (seg_as seg)) (seg_len seg - wr) use32bit s2 of
                     None \<Rightarrow> None
                   | Some s3 \<Rightarrow>
                       (case put_pack seg segs use32bit wr lenp 0 s3 of
                          None \<Rightarrow> None
                        | Some (packed, rest, s4) \<Rightarrow>
                            put_loop rest use32bit
                              (bytes1 + ASSEGMENT_SIZE (seg_len seg - wr + packed) use32bit) s4))))
      else Some (bytes, s))"
  by pat_completeness auto
termination
  by (relation "measure (\<lambda>(segs, _). length segs)") (auto dest!: put_pack_length)

declare put_loop.simps(2) [simp del]

definition aspath_put :: "stream_t \<Rightarrow> aspath \<Rightarrow> bool \<Rightarrow> (nat \<times> stream_t) option" where
  "aspath_put s as use32bit =
     (case segments as of
        [] \<Rightarrow> Some (0, s)
      | seg # _ \<Rightarrow> if seg_len seg = 0 then Some (0, s) else put_loop (segments as) use32bit 0 s)"

abbreviation SNMP_PATHSEG_MAX :: nat where "SNMP_PATHSEG_MAX \<equiv> 1024"

text \<open>The result has \<^verbatim>\<open>*varlen\<close>, the position in the static buffer that is returned, and the buffer; \<open>fresh\<close> is new memory.\<close>

definition aspath_snmp_pathseg :: "u8 list \<Rightarrow> stream_t option \<Rightarrow> aspath option \<Rightarrow> (nat \<times> nat option \<times> stream_t) option" where
  "aspath_snmp_pathseg fresh snmp_stream as = do {
     s \<leftarrow> case snmp_stream of None \<Rightarrow> stream_new fresh SNMP_PATHSEG_MAX | Some s \<Rightarrow> stream_reset s;
     case as of
       None \<Rightarrow> Some (0, None, s)
     | Some p \<Rightarrow> do {
         (_, s1) \<leftarrow> aspath_put s p False;
         varlen \<leftarrow> stream_get_endp s1;
         pnt \<leftarrow> stream_pnt s1;
         Some (varlen, Some pnt, s1) } }"

section \<open>Aggregation\<close>

text \<open>\<open>asset\<close> says whether the last segment is the set being collected.\<close>

definition aspath_aggregate_as_set_add :: "assegment list \<Rightarrow> bool \<Rightarrow> as_t \<Rightarrow> (assegment list \<times> bool) option" where
  "aspath_aggregate_as_set_add segs asset a =
     (if \<not> asset then Some (segs @ [\<lparr>seg_type = AS_SET, seg_as = [a]\<rparr>], True)
      else if segs = [] then None
      else if list_ex (\<lambda>x. x = a) (seg_as (last segs)) then Some (segs, True)
      else if seg_len (last segs) + 1 = 2 ^ 16 then None
      else Some (butlast segs @ [(last segs)\<lparr>seg_as := seg_as (last segs) @ [a]\<rparr>], True))"

fun add_asns :: "assegment list \<Rightarrow> bool \<Rightarrow> as_t list \<Rightarrow> (assegment list \<times> bool) option" where
  "add_asns segs asset [] = Some (segs, asset)"
| "add_asns segs asset (a # as) = do {
     (segs1, asset1) \<leftarrow> aspath_aggregate_as_set_add segs asset a;
     add_asns segs1 asset1 as }"

fun match_len :: "as_t list \<Rightarrow> as_t list \<Rightarrow> nat" where
  "match_len (x # xs) (y # ys) = (if x \<noteq> y then 0 else Suc (match_len xs ys))"
| "match_len _ _ = 0"

text \<open>The common leading segments: the path so far, the rests of both chains, and \<^verbatim>\<open>match\<close>, which only \<^verbatim>\<open>aspath_aggregate\<close> resets.\<close>

fun leading :: "bool \<Rightarrow> nat \<Rightarrow> assegment list \<Rightarrow> assegment list \<Rightarrow> assegment list \<Rightarrow>
    assegment list \<times> assegment list \<times> assegment list \<times> nat" where
  "leading reset match acc (seg1 # r1) (seg2 # r2) =
     (if seg_type seg1 \<noteq> seg_type seg2 then (acc, seg1 # r1, seg2 # r2, match)
      else
        let minlen = min (seg_len seg1) (seg_len seg2);
            match1 = match_len (seg_as seg1) (seg_as seg2);
            acc1 = (if match1 \<noteq> 0 then acc @ [assegment_append_asns (assegment_new (seg_type seg1)) (take match1 (seg_as seg1))]
                    else acc)
        in if match1 \<noteq> minlen \<or> match1 \<noteq> seg_len seg1 \<or> seg_len seg1 \<noteq> seg_len seg2
           then (acc1, seg1 # r1, seg2 # r2, match1)
           else leading reset (if reset then 0 else match1) acc1 r1 r2)"
| "leading reset match acc segs1 segs2 = (acc, segs1, segs2, match)"

fun rest_asns :: "nat \<Rightarrow> assegment list \<Rightarrow> as_t list" where
  "rest_asns from1 [] = []"
| "rest_asns from1 (seg # segs) = drop from1 (seg_as seg) @ rest_asns 0 segs"

definition aspath_aggregate :: "aspath \<Rightarrow> aspath \<Rightarrow> aspath option" where
  "aspath_aggregate as1 as2 =
     (case leading True 0 [] (segments as1) (segments as2) of
        (acc, segs1, segs2, match) \<Rightarrow> do {
          (acc1, asset1) \<leftarrow> add_asns acc False (rest_asns match segs1);
          (acc2, asset2) \<leftarrow> add_asns acc1 asset1 (rest_asns match segs2);
          aspath_str_update (aspath_new\<lparr>segments := assegment_normalise acc2\<rparr>) })"

text \<open>One step of one chain in \<^verbatim>\<open>aspath_aggregate_mpath\<close>: one number of a sequence, or all of another segment.\<close>

definition mpath_side :: "assegment list \<times> bool \<Rightarrow> assegment list \<Rightarrow> nat \<Rightarrow>
    ((assegment list \<times> bool) \<times> assegment list \<times> nat) option" where
  "mpath_side st segs n =
     (case segs of
        [] \<Rightarrow> Some (st, [], n)
      | seg # r \<Rightarrow>
          if seg_type seg = AS_SEQUENCE then
            (if n \<ge> seg_len seg then None
             else map_option (\<lambda>st1. if Suc n \<ge> seg_len seg then (st1, r, 0) else (st1, segs, Suc n))
               (aspath_aggregate_as_set_add (fst st) (snd st) (seg_as seg ! n)))
          else map_option (\<lambda>st1. (st1, r, 0)) (add_asns (fst st) (snd st) (drop n (seg_as seg))))"

definition mpath_close :: "assegment list \<times> bool \<Rightarrow> assegment list option" where
  "mpath_close st =
     (if \<not> snd st \<or> fst st = [] then None
      else if seg_len (last (fst st)) = 1 then Some (butlast (fst st) @ [(last (fst st))\<lparr>seg_type := AS_SEQUENCE\<rparr>])
      else Some (fst st))"

definition left_asns :: "assegment list \<Rightarrow> nat \<Rightarrow> nat" where
  "left_asns segs n = (case segs of [] \<Rightarrow> 0 | seg # r \<Rightarrow> Suc (seg_len seg - n) + sum_list (map (\<lambda>x. Suc (seg_len x)) r))"

lemma left_asns_0: "left_asns segs 0 = sum_list (map (\<lambda>x. Suc (seg_len x)) segs)"
  by (simp add: left_asns_def split: list.split)

lemma mpath_side_less:
  assumes "mpath_side st segs n = Some (st', segs', n')" "segs \<noteq> []"
  shows "left_asns segs' n' < left_asns segs n"
  using assms by (auto simp: mpath_side_def left_asns_0 split: list.splits if_splits) (auto simp: left_asns_def)

lemma mpath_side_le: "mpath_side st segs n = Some (st', segs', n') \<Longrightarrow> left_asns segs' n' \<le> left_asns segs n"
  using mpath_side_less [of st segs n st' segs' n'] by (cases "segs = []") (auto simp: mpath_side_def left_asns_def)

function mpath_loop :: "assegment list \<Rightarrow> assegment list \<Rightarrow> nat \<Rightarrow> assegment list \<Rightarrow> nat \<Rightarrow> assegment list option" where
  "mpath_loop acc segs1 from1 segs2 from2 =
     (if segs1 = [] \<and> segs2 = [] then Some acc
      else
        (case mpath_side (acc, False) segs1 from1 of
           None \<Rightarrow> None
         | Some (st1, segs1', from1') \<Rightarrow>
             (case mpath_side st1 segs2 from2 of
                None \<Rightarrow> None
              | Some (st2, segs2', from2') \<Rightarrow>
                  (case mpath_close st2 of
                     None \<Rightarrow> None
                   | Some acc1 \<Rightarrow> mpath_loop acc1 segs1' from1' segs2' from2'))))"
  by pat_completeness auto
termination
proof (relation "measure (\<lambda>(_, segs1, from1, segs2, from2). left_asns segs1 from1 + left_asns segs2 from2)", goal_cases)
  case (2 acc segs1 from1 segs2 from2 x2 st1 y segs1' from1' x2a st2 ya segs2' from2' x2b)
  then show ?case
    using mpath_side_less [of "(acc, False)" segs1 from1 st1 segs1' from1'] mpath_side_less [of st1 segs2 from2 st2 segs2' from2']
      mpath_side_le [of "(acc, False)" segs1 from1 st1 segs1' from1'] mpath_side_le [of st1 segs2 from2 st2 segs2' from2']
    by auto
qed simp

declare mpath_loop.simps [simp del]

definition aspath_aggregate_mpath :: "aspath \<Rightarrow> aspath \<Rightarrow> aspath option" where
  "aspath_aggregate_mpath as1 as2 =
     (case leading False 0 [] (segments as1) (segments as2) of
        (acc, segs1, segs2, match) \<Rightarrow> do {
          acc1 \<leftarrow> mpath_loop acc segs1 match segs2 match;
          aspath_str_update (aspath_new\<lparr>segments := assegment_normalise acc1\<rparr>) })"

section \<open>Composition\<close>

definition aspath_merge :: "aspath option \<Rightarrow> aspath option \<Rightarrow> aspath option option" where
  "aspath_merge as1 as2 =
     (case (as1, as2) of
        (Some p1, Some p2) \<Rightarrow>
          if segments p1 = [] then None
          else map_option Some (aspath_str_update (p2\<lparr>segments := segments p1 @ segments p2\<rparr>))
      | _ \<Rightarrow> Some None)"

definition aspath_delete_confed_seq :: "aspath \<Rightarrow> aspath option" where
  "aspath_delete_confed_seq p =
     (case segments p of
        [] \<Rightarrow> Some p
      | seg # _ \<Rightarrow>
          if seg_type seg \<noteq> AS_CONFED_SEQUENCE then Some p
          else aspath_str_update (p\<lparr>segments := dropWhile is_confed (segments p)\<rparr>))"

definition aspath_prepend :: "aspath option \<Rightarrow> aspath option \<Rightarrow> aspath option option" where
  "aspath_prepend as1 as2 =
     (case (as1, as2) of
        (Some p1, Some p2) \<Rightarrow>
          if segments p2 = [] then map_option Some (aspath_str_update (p2\<lparr>segments := segments p1\<rparr>))
          else if segments p1 = [] then Some (Some p2)
          else
            let seg1 = last (segments p1) in do {
            p3 \<leftarrow> if seg_type seg1 = AS_SEQUENCE \<and> seg_type (hd (segments p2)) = AS_CONFED_SEQUENCE
                  then aspath_delete_confed_seq p2 else Some p2;
            case segments p3 of
              [] \<Rightarrow> map_option Some (aspath_str_update (p3\<lparr>segments := segments p1\<rparr>))
            | seg2 # rest \<Rightarrow>
                if seg_type seg1 \<noteq> seg_type seg2 then aspath_merge (Some p1) (Some p3)
                else if seg_type seg1 = AS_SEQUENCE then
                  map_option Some (aspath_str_update
                    (p3\<lparr>segments := butlast (segments p1) @ [assegment_append_asns seg1 (seg_as seg2)] @ rest\<rparr>))
                else aspath_merge (Some p1) (Some p3) }
      | _ \<Rightarrow> Some None)"

definition excluded :: "assegment list \<Rightarrow> as_t \<Rightarrow> bool" where
  "excluded exclude_segs a = list_ex (\<lambda>exclseg. list_ex (\<lambda>x. a = x) (seg_as exclseg)) exclude_segs"

fun exclude_loop :: "assegment list \<Rightarrow> assegment list \<Rightarrow> assegment list" where
  "exclude_loop excl [] = []"
| "exclude_loop excl (srcseg # segs) =
     (let as = filter (\<lambda>a. \<not> excluded excl a) (seg_as srcseg) in
      if length as = 0 then exclude_loop excl segs
      else \<lparr>seg_type = seg_type srcseg, seg_as = as\<rparr> # exclude_loop excl segs)"

definition aspath_filter_exclude :: "aspath \<Rightarrow> aspath \<Rightarrow> aspath option" where
  "aspath_filter_exclude source exclude_list =
     aspath_str_update (aspath_new\<lparr>segments := exclude_loop (segments exclude_list) (segments source)\<rparr>)"

text \<open>The new segment of \<^verbatim>\<open>aspath_add_asns\<close> has room for \<^verbatim>\<open>num\<close> numbers only when it fits an unsigned short.\<close>

definition aspath_add_asns :: "aspath \<Rightarrow> as_t \<Rightarrow> u8 \<Rightarrow> u32 \<Rightarrow> aspath option" where
  "aspath_add_asns p asno type num =
     (case segments p of
        seg # rest \<Rightarrow>
          if seg_type seg = type then do {
            seg1 \<leftarrow> assegment_prepend_asns seg asno (sint num);
            aspath_str_update (p\<lparr>segments := seg1 # rest\<rparr>) }
          else if unat num \<ge> 2 ^ 16 then None
          else
            let new = \<lparr>seg_type = type, seg_as = replicate (unat num) asno\<rparr> in
            aspath_str_update (p\<lparr>segments := new # (if seg_len seg = 0 then rest else seg # rest)\<rparr>)
      | [] \<Rightarrow>
          if unat num \<ge> 2 ^ 16 then None
          else aspath_str_update (p\<lparr>segments := [\<lparr>seg_type = type, seg_as = replicate (unat num) asno\<rparr>]\<rparr>))"

definition aspath_add_seq_n :: "aspath \<Rightarrow> as_t \<Rightarrow> u32 \<Rightarrow> aspath option" where
  "aspath_add_seq_n p asno num = aspath_add_asns p asno AS_SEQUENCE num"

definition aspath_add_seq :: "aspath \<Rightarrow> as_t \<Rightarrow> aspath option" where
  "aspath_add_seq p asno = aspath_add_asns p asno AS_SEQUENCE 1"

definition aspath_add_confed_seq :: "aspath \<Rightarrow> as_t \<Rightarrow> aspath option" where
  "aspath_add_confed_seq p asno = aspath_add_asns p asno AS_CONFED_SEQUENCE 1"

text \<open>
  The first hops of a path.  A segment of another type leaves \<^verbatim>\<open>hops\<close> and \<^verbatim>\<open>cpasns\<close> as they are; the assertion is that
  \<^verbatim>\<open>cpasns\<close> does not exceed the segment.
\<close>

fun take_hops :: "assegment list \<Rightarrow> int \<Rightarrow> int \<Rightarrow> assegment list option" where
  "take_hops [] hops cpasns = Some []"
| "take_hops (seg # segs) hops cpasns =
     (if hops > 0 then
        let len = int (seg_len seg);
            hops1 = (if seg_type seg = AS_SET \<or> seg_type seg = AS_CONFED_SET then hops - 1
                     else if seg_type seg = AS_CONFED_SEQUENCE then (if hops < len then len else hops) - len
                     else if seg_type seg = AS_SEQUENCE then hops - len
                     else hops);
            cpasns1 = (if seg_type seg = AS_SET \<or> seg_type seg = AS_CONFED_SET then len
                       else if seg_type seg = AS_CONFED_SEQUENCE then min len (if hops < len then len else hops)
                       else if seg_type seg = AS_SEQUENCE then min len hops
                       else cpasns)
        in if cpasns1 > len then None
           else map_option (\<lambda>r. assegment_append_asns (assegment_new (seg_type seg)) (take (nat cpasns1) (seg_as seg)) # r)
             (take_hops segs hops1 cpasns1)
      else Some [])"

definition aspath_reconcile_as4 :: "aspath option \<Rightarrow> aspath \<Rightarrow> aspath option option" where
  "aspath_reconcile_as4 p as4path =
     (case p of
        None \<Rightarrow> Some None
      | Some as \<Rightarrow>
          let d = int (aspath_count_hops as + aspath_count_confeds as) - int (aspath_count_hops as4path);
              hops = (if d < 0 then int (aspath_count_hops as) else d)
          in if hops = 0 then map_option Some (aspath_dup as4path)
             else do {
               newsegs \<leftarrow> take_hops (segments as) hops 0;
               as4 \<leftarrow> aspath_dup as4path;
               merged \<leftarrow> aspath_merge (if newsegs = [] then None else Some (aspath_new\<lparr>segments := newsegs\<rparr>)) (Some as4);
               case merged of
                 None \<Rightarrow> None
               | Some m \<Rightarrow> map_option Some (aspath_str_update (m\<lparr>segments := assegment_normalise (segments m)\<rparr>)) })"

end
