(* ===== verification/Aspath_Text.thy ===== *)
theory Aspath_Text
  imports Aspath
begin

text \<open>
  The text of an AS path.  A path is normal when \<^verbatim>\<open>assegment_normalise\<close> leaves it as it is.  The text of a normal path is
  \<open>path_text\<close>; the lemmas show that \<^verbatim>\<open>aspath_make_str_count\<close> writes it without overrunning the buffer it grows, and that
  \<^verbatim>\<open>aspath_str2aspath\<close> reads it back.
\<close>

section \<open>Normal paths\<close>

definition seg_type_ok :: "assegment \<Rightarrow> bool" where
  "seg_type_ok seg \<longleftrightarrow> seg_type seg \<in> {AS_SET, AS_SEQUENCE, AS_CONFED_SEQUENCE, AS_CONFED_SET}"

abbreviation is_set :: "assegment \<Rightarrow> bool" where
  "is_set seg \<equiv> seg_type seg = AS_SET \<or> seg_type seg = AS_CONFED_SET"

abbreviation is_seq :: "assegment \<Rightarrow> bool" where
  "is_seq seg \<equiv> seg_type seg = AS_SEQUENCE"

definition asns :: "assegment list \<Rightarrow> as_t list" where
  "asns segs = concat (map seg_as segs)"

lemma asns_simps [simp]: "asns [] = []" "asns (seg # segs) = seg_as seg @ asns segs" "asns (xs @ ys) = asns xs @ asns ys"
  by (simp_all add: asns_def)

text \<open>No two sequences follow each other, and sets are sorted and without repetition.\<close>

fun apart :: "assegment list \<Rightarrow> bool" where
  "apart (x # y # segs) \<longleftrightarrow> \<not> (is_seq x \<and> is_seq y) \<and> apart (y # segs)"
| "apart _ \<longleftrightarrow> True"

definition normal :: "assegment list \<Rightarrow> bool" where
  "normal segs \<longleftrightarrow> apart segs \<and> (\<forall>seg \<in> set segs. is_set seg \<longrightarrow> sorted_wrt (<) (seg_as seg))"

lemma set_asns_small: "length as < 2 ^ 16 \<Longrightarrow> set_asns as seg = seg\<lparr>seg_as := as\<rparr>"
  by (simp add: set_asns_def)

lemma seg_type_set_asns [simp]: "seg_type (set_asns as seg) = seg_type seg"
  by (simp add: set_asns_def)

lemma append_asns_simps [simp]:
  "seg_type (assegment_append_asns seg as) = seg_type seg"
  "seg_len seg + length as < 2 ^ 16 \<Longrightarrow> seg_as (assegment_append_asns seg as) = seg_as seg @ as"
  by (simp_all add: assegment_append_asns_def set_asns_small)

lemma append_asns_new [simp]:
  "length as < 2 ^ 16 \<Longrightarrow> assegment_append_asns (assegment_new t) as = \<lparr>seg_type = t, seg_as = as\<rparr>"
  by (simp add: assegment_append_asns_def set_asns_small assegment_new_def)

text \<open>Weeding out the repetitions of a sorted array in place.\<close>

lemma remdups_adj_snoc:
  "ys \<noteq> [] \<Longrightarrow> remdups_adj (ys @ [x]) = (if last ys = x then remdups_adj ys else remdups_adj ys @ [x])"
  by (cases ys rule: rev_cases) (simp_all add: remdups_adj_append_two)

lemma weed_loop_remdups:
  assumes "i + n = length xs" "length as = length xs" "tail < i"
    "take (Suc tail) as = remdups_adj (take i xs)" "drop i as = drop i xs"
  shows "take (Suc (snd (weed_loop as tail i n))) (fst (weed_loop as tail i n)) = remdups_adj xs"
  using assms
proof (induction n arbitrary: as tail i)
  case (Suc n)
  have i: "i < length xs" "tail < length as" using Suc.prems by auto
  have ai: "as ! i = xs ! i"
    using Suc.prems(2,5) i(1) by (metis Cons_nth_drop_Suc list.inject)
  have ne: "take i xs \<noteq> []" using Suc.prems(3) i by auto
  have "as ! tail = last (take (Suc tail) as)" using i by (simp add: take_Suc_conv_app_nth)
  also have "\<dots> = last (take i xs)" using Suc.prems(4) ne by simp
  finally have at: "as ! tail = last (take i xs)" .
  have rem: "remdups_adj (take (Suc i) xs) =
      (if as ! tail = as ! i then remdups_adj (take i xs) else remdups_adj (take i xs) @ [as ! i])"
    using remdups_adj_snoc [OF ne, of "xs ! i"] i(1) by (simp add: take_Suc_conv_app_nth at ai)
  have dr: "drop (Suc i) as = drop (Suc i) xs"
    using Suc.prems(5) by (metis Suc_eq_plus1 drop_drop add.commute)
  show ?case
  proof (cases "as ! tail = as ! i")
    case True
    then show ?thesis using Suc.IH [of "Suc i" as tail] Suc.prems rem dr by simp
  next
    case False
    define as1 where "as1 = (if Suc tail < i then as[Suc tail := as ! i] else as)"
    have st: "Suc tail \<le> i" using Suc.prems(3) by simp
    have "as1 ! Suc tail = as ! i" using st i Suc.prems(2) by (cases "Suc tail = i") (auto simp: as1_def)
    moreover have "take (Suc tail) as1 = take (Suc tail) as" by (simp add: as1_def)
    moreover have "length as1 = length xs" using Suc.prems(2) by (simp add: as1_def)
    ultimately have "take (Suc (Suc tail)) as1 = remdups_adj (take (Suc i) xs)"
      using rem False Suc.prems(4) st i(1) by (simp add: take_Suc_conv_app_nth)
    moreover have "drop (Suc i) as1 = drop (Suc i) xs" using dr st by (simp add: as1_def)
    ultimately show ?thesis
      using Suc.IH [of "Suc i" as1 "Suc tail"] Suc.prems False st \<open>length as1 = length xs\<close> by (simp add: as1_def Let_def)
  qed
qed simp

lemma weed_dupes_remdups: "weed_dupes xs = remdups_adj xs"
proof (cases xs)
  case (Cons x ys)
  then show ?thesis
    using weed_loop_remdups [of 1 "length xs - 1" xs xs 0] by (simp add: weed_dupes_def case_prod_beta)
qed (simp add: weed_dupes_def)

lemma sorted_remdups_adj_strict: "sorted (xs :: as_t list) \<Longrightarrow> sorted_wrt (<) (remdups_adj xs)"
  by (induction xs rule: remdups_adj.induct) (auto simp: order_less_le dest: order_antisym)

lemma weed_sort: "sorted_wrt (<) (weed_dupes (sort xs))" "set (weed_dupes (sort xs)) = set xs"
  by (simp_all add: weed_dupes_remdups sorted_remdups_adj_strict)

lemma weed_sort_id:
  assumes "sorted_wrt (<) xs"
  shows "weed_dupes (sort xs) = xs"
proof -
  have "sorted xs" "distinct xs" using assms by (simp_all add: strict_sorted_iff)
  then show ?thesis by (simp add: weed_dupes_remdups sort_key_id_if_sorted remdups_adj_distinct)
qed

text \<open>What normalisation makes of a path, and that a normal path stays as it is.\<close>

lemma sort_segment_simps [simp]:
  "seg_type (sort_segment seg) = seg_type seg" "set (seg_as (sort_segment seg)) = set (seg_as seg)"
  "is_set seg \<Longrightarrow> sorted_wrt (<) (seg_as (sort_segment seg))" "\<not> is_set seg \<Longrightarrow> sort_segment seg = seg"
  by (simp_all add: sort_segment_def weed_sort)

lemma sort_segment_id: "sorted_wrt (<) (seg_as seg) \<Longrightarrow> sort_segment seg = seg"
  by (simp add: sort_segment_def weed_sort_id)

lemma length_weed: "length (weed_dupes (sort xs)) \<le> length xs"
  using remdups_adj_length [of "sort xs"] by (simp add: weed_dupes_remdups)

lemma length_sort_segment: "seg_len (sort_segment seg) \<le> seg_len seg"
  by (simp add: sort_segment_def length_weed)

lemma pack_next_type: "pack_next pin segs = (p, rest) \<Longrightarrow> seg_type p = seg_type pin"
  by (induction pin segs arbitrary: p rest rule: pack_next.induct) (auto split: if_splits)

lemma pack_next_stop: "pack_next pin segs = (p, rest) \<Longrightarrow> rest = [] \<or> \<not> (is_seq p \<and> is_seq (hd rest))"
  by (induction pin segs arbitrary: p rest rule: pack_next.induct) (auto simp: ASSEGMENT_TYPES_PACKABLE_def split: if_splits)

lemma pack_next_other: "\<not> is_seq pin \<Longrightarrow> pack_next pin segs = (pin, segs)"
  by (cases segs) (auto simp: ASSEGMENT_TYPES_PACKABLE_def)

lemma pack_next_asns:
  "pack_next pin segs = (p, rest) \<Longrightarrow> length (seg_as pin @ asns segs) < 2 ^ 16 \<Longrightarrow> seg_as p @ asns rest = seg_as pin @ asns segs"
proof (induction pin segs arbitrary: p rest rule: pack_next.induct)
  case (2 pin seg segs)
  show ?case
  proof (cases "ASSEGMENT_TYPES_PACKABLE pin seg")
    case True
    have "seg_len pin + seg_len seg < 2 ^ 16" using 2(3) by simp
    then show ?thesis using 2(1) [OF True, of p rest] 2(2,3) True by simp
  next
    case False
    then show ?thesis using 2(2) by auto
  qed
qed simp

lemma pack_next_apart: "apart (pin # segs) \<Longrightarrow> pack_next pin segs = (pin, segs)"
  by (cases segs) (auto simp: ASSEGMENT_TYPES_PACKABLE_def)

lemma pack_next_suffix: "pack_next pin segs = (p, rest) \<Longrightarrow> set rest \<subseteq> set segs"
  by (induction pin segs arbitrary: p rest rule: pack_next.induct) (auto split: if_splits)

lemma normalise_Cons:
  assumes "pack_next (sort_segment seg) segs = (p, rest)"
  shows "assegment_normalise (seg # segs) = p # assegment_normalise rest"
  using assms by simp

lemma hd_normalise: "segs \<noteq> [] \<Longrightarrow> assegment_normalise segs \<noteq> [] \<and> seg_type (hd (assegment_normalise segs)) = seg_type (hd segs)"
proof (cases segs)
  case (Cons seg r)
  obtain p rest where "pack_next (sort_segment seg) r = (p, rest)" by fastforce
  then show ?thesis using pack_next_type [of "sort_segment seg" r p rest] Cons by simp
qed simp

lemma normalise_normal: "normal (assegment_normalise segs)"
proof (induction segs rule: assegment_normalise.induct)
  case (2 seg segs)
  obtain p rest where pk: "pack_next (sort_segment seg) segs = (p, rest)" by fastforce
  note sp = pack_next_type [OF pk] pack_next_stop [OF pk]
  have IH: "normal (assegment_normalise rest)" using 2 pk by simp
  have "sorted_wrt (<) (seg_as p)" if p: "is_set p"
  proof -
    have "is_set seg" "\<not> is_seq (sort_segment seg)" using p sp(1) by auto
    moreover from this(2) have "p = sort_segment seg" using pk pack_next_other by simp
    ultimately show ?thesis using sort_segment_simps(3) by blast
  qed
  moreover have "apart (p # assegment_normalise rest)"
  proof (cases rest)
    case (Cons x xs)
    obtain y ys where y: "assegment_normalise rest = y # ys" "seg_type y = seg_type x"
      using hd_normalise [of rest] Cons by (cases "assegment_normalise rest") auto
    then show ?thesis using sp(2) IH Cons by (simp add: normal_def)
  qed simp
  ultimately show ?case using IH by (auto simp: pk normal_def)
qed (simp add: normal_def)

lemma normalise_id: "normal segs \<Longrightarrow> assegment_normalise segs = segs"
proof (induction segs)
  case (Cons seg segs)
  then have "normal segs" by (cases segs) (auto simp: normal_def)
  moreover have "sort_segment seg = seg" using Cons.prems by (cases "is_set seg") (auto simp: normal_def sort_segment_id)
  moreover have "pack_next seg segs = (seg, segs)" using Cons.prems by (intro pack_next_apart) (simp add: normal_def)
  ultimately show ?case using Cons.IH by simp
qed simp

lemma set_normalise:
  "length (asns segs) < 2 ^ 16 \<Longrightarrow> set (asns (assegment_normalise segs)) = set (asns segs)"
proof (induction segs rule: assegment_normalise.induct)
  case (2 seg segs)
  obtain p rest where pk: "pack_next (sort_segment seg) segs = (p, rest)" by fastforce
  have small: "length (seg_as (sort_segment seg) @ asns segs) < 2 ^ 16"
    using 2(2) length_sort_segment [of seg] by simp
  have eq: "seg_as p @ asns rest = seg_as (sort_segment seg) @ asns segs" using pack_next_asns [OF pk small] .
  have "length (seg_as p) + length (asns rest) < 2 ^ 16" using small unfolding eq [symmetric] length_append .
  then have "length (asns rest) < 2 ^ 16" by linarith
  then have "set (asns (assegment_normalise rest)) = set (asns rest)" using 2(1) pk by simp
  moreover have "set (seg_as p) \<union> set (asns rest) = set (seg_as seg) \<union> set (asns segs)"
    using arg_cong [OF eq, of set] by simp
  ultimately show ?case by (simp add: pk)
qed simp

section \<open>The text of a path\<close>

fun asns_text :: "char \<Rightarrow> as_t list \<Rightarrow> string" where
  "asns_text seperator [] = []"
| "asns_text seperator (a # as) = dec_str (unat a) @ (if as \<noteq> [] then [seperator] else []) @ asns_text seperator as"

definition segment_text :: "assegment \<Rightarrow> string" where
  "segment_text seg =
     (if is_seq seg then asns_text CHR '' '' (seg_as seg)
      else [aspath_delimiter_char (seg_type seg) False] @
        asns_text (if is_set seg then CHR '','' else CHR '' '') (seg_as seg) @ [aspath_delimiter_char (seg_type seg) True])"

fun path_text :: "assegment list \<Rightarrow> string" where
  "path_text [] = []"
| "path_text (seg # segs) = segment_text seg @ (if segs \<noteq> [] then '' '' else []) @ path_text segs"

lemma length_dec_str_pow: "n < 10 ^ Suc k \<Longrightarrow> length (dec_str n) \<le> Suc k"
proof (induction k arbitrary: n)
  case 0
  then show ?case by (simp add: dec_str.simps [of n])
next
  case (Suc k)
  then have "n div 10 < 10 ^ Suc k" by (simp add: less_mult_imp_div_less)
  from Suc.IH [OF this] show ?case by (simp add: dec_str.simps [of n])
qed

lemma length_asn: "length (dec_str (unat (a :: as_t))) \<le> 10"
proof -
  have "unat a < 2 ^ LENGTH(32)" by (rule unsigned_less)
  then have "unat a < 10 ^ Suc 9" by simp
  from length_dec_str_pow [OF this] show ?thesis by simp
qed

lemma length_asns_text: "length (asns_text c as) \<le> 11 * length as"
proof (induction as)
  case (Cons a as)
  then show ?case using length_asn [of a] by simp
qed simp

lemma length_segment_text: "length (segment_text seg) \<le> 11 * seg_len seg + 2"
  using length_asns_text [of _ "seg_as seg"] by (simp add: segment_text_def le_SucI)

lemma print_asns_fits:
  "length buf + 11 * length as < n \<Longrightarrow> print_asns n c as buf = Some (buf @ asns_text c as)"
proof (induction as arbitrary: buf)
  case (Cons a as)
  define buf1 where "buf1 = buf @ dec_str (unat a)"
  define buf2 where "buf2 = (if as \<noteq> [] then buf1 @ [c] else buf1)"
  have l: "length buf1 + 1 + 11 * length as < n" using Cons.prems length_asn [of a] by (simp add: buf1_def)
  have "snprintf_end n (dec_str (unat a)) buf = Some buf1" using l by (simp add: snprintf_end_def buf1_def)
  moreover have "(if as \<noteq> [] then snprintf_end n [c] buf1 else Some buf1) = Some buf2"
    using l by (auto simp: snprintf_end_def buf2_def)
  moreover have "print_asns n c as buf2 = Some (buf2 @ asns_text c as)"
    using Cons.IH [of buf2] l by (simp add: buf2_def)
  ultimately have "print_asns n c (a # as) buf = Some (buf2 @ asns_text c as)" by simp
  then show ?case by (simp add: buf1_def buf2_def)
qed simp

lemma print_segment_fits:
  assumes "length buf + 11 * seg_len seg + 2 < n"
  shows "print_segment n seg buf = Some (buf @ segment_text seg)"
proof -
  have f: "print_asns n c (seg_as seg) b = Some (b @ asns_text c (seg_as seg))" if "length b \<le> length buf + 1" for c b
    using print_asns_fits [of b "seg_as seg" n c] that assms by simp
  have g: "snprintf_end n [x] (buf @ [y] @ asns_text c (seg_as seg)) = Some (buf @ [y] @ asns_text c (seg_as seg) @ [x])" for x y c
    using length_asns_text [of c "seg_as seg"] assms by (simp add: snprintf_end_def)
  show ?thesis
  proof (cases "is_seq seg")
    case True
    then show ?thesis using f [of buf] by (simp add: print_segment_def segment_text_def)
  next
    case False
    have "snprintf_end n [aspath_delimiter_char (seg_type seg) False] buf = Some (buf @ [aspath_delimiter_char (seg_type seg) False])"
      using assms by (simp add: snprintf_end_def)
    then show ?thesis using False f [of "buf @ [aspath_delimiter_char (seg_type seg) False]"] g
      by (simp add: print_segment_def segment_text_def Let_def)
  qed
qed

lemma make_str_loop_fits:
  assumes "length buf + 11 * length (asns segs) + 4 * length segs < 2 ^ 31" "length buf < n"
  shows "\<exists>m. make_str_loop segs n buf = Some (if list_all seg_type_ok segs then Some (m, buf @ path_text segs) else None) \<and>
    (list_all seg_type_ok segs \<longrightarrow> length (buf @ path_text segs) < m)"
  using assms
proof (induction segs arbitrary: n buf)
  case (Cons seg segs)
  define n1 where "n1 = max n (length buf + SEGMENT_STR_LEN seg)"
  define buf1 where "buf1 = buf @ segment_text seg"
  define buf2 where "buf2 = (if segs \<noteq> [] then buf1 @ '' '' else buf1)"
  have r: "(length buf + SEGMENT_STR_LEN seg \<ge> 2 ^ 31) = False" using Cons.prems(1) by (simp add: SEGMENT_STR_LEN_def)
  have n1: "length buf + 11 * seg_len seg + 4 \<le> n1" by (simp add: n1_def SEGMENT_STR_LEN_def)
  have p: "print_segment n1 seg buf = Some buf1" unfolding buf1_def by (rule print_segment_fits) (use n1 in simp)
  have l: "length buf1 \<le> length buf + 11 * seg_len seg + 2" using length_segment_text [of seg] by (simp add: buf1_def)
  have q: "(if segs \<noteq> [] then snprintf_end n1 '' '' buf1 else Some buf1) = Some buf2"
    using l n1 by (auto simp: snprintf_end_def buf2_def)
  have l2: "length buf2 < n1" "length buf2 \<le> length buf + 11 * seg_len seg + 3"
    using l n1 by (auto simp: buf2_def)
  show ?case
  proof (cases "seg_type_ok seg")
    case True
    then have t: "(seg_type seg \<notin> {AS_SET, AS_CONFED_SET, AS_SEQUENCE, AS_CONFED_SEQUENCE}) = False"
      by (auto simp: seg_type_ok_def)
    have e1: "make_str_loop (seg # segs) n buf = make_str_loop segs n1 buf2"
      by (simp only: make_str_loop.simps t r if_False Let_def n1_def [symmetric] p q bind.bind_lunit)
    have e2: "buf @ path_text (seg # segs) = buf2 @ path_text segs" by (simp add: buf2_def buf1_def)
    have e3: "list_all seg_type_ok (seg # segs) = list_all seg_type_ok segs" using True by simp
    have "length buf2 + 11 * length (asns segs) + 4 * length segs < 2 ^ 31" using Cons.prems(1) l2(2) by simp
    then show ?thesis unfolding e1 e2 e3 using l2(1) by (rule Cons.IH)
  next
    case False
    then show ?thesis by (auto simp: seg_type_ok_def)
  qed
qed simp

lemma count_asns: "assegment_count_asns segs 0 = int (length (asns segs))"
  by (induction segs) auto

text \<open>What the buffer of a path can hold at most.\<close>

definition text_bound :: "assegment list \<Rightarrow> nat" where
  "text_bound segs = 11 * length (asns segs) + 4 * length segs"

lemma make_str_text:
  assumes "text_bound (segments p) < 2 ^ 31"
  shows "aspath_make_str_count p = Some (if list_all seg_type_ok (segments p)
    then p\<lparr>as_str := Some (path_text (segments p)), str_len := word_of_nat (length (path_text (segments p)))\<rparr>
    else p\<lparr>as_str := None, str_len := 0\<rparr>)"
proof (cases "segments p = []")
  case False
  define n where "n = max (nat (assegment_count_asns (segments p) 0) * 11 + 2 + 1) ASPATH_STR_DEFAULT_LEN"
  have "1 \<le> length (segments p)" using False by (simp add: Suc_le_eq)
  then have "length (asns (segments p)) * 11 + 2 + 1 < 2 ^ 31" using assms unfolding text_bound_def by linarith
  then have "n < 2 ^ 31" "0 < n" by (simp_all add: n_def count_asns)
  moreover obtain m where "make_str_loop (segments p) n [] =
      Some (if list_all seg_type_ok (segments p) then Some (m, path_text (segments p)) else None)"
    "list_all seg_type_ok (segments p) \<longrightarrow> length (path_text (segments p)) < m"
    using make_str_loop_fits [of "[]" "segments p" n, unfolded append_Nil list.size(3) add_0] assms \<open>0 < n\<close>
    unfolding text_bound_def by blast
  ultimately show ?thesis unfolding aspath_make_str_count_def Let_def n_def [symmetric] using False by simp
qed (simp add: aspath_make_str_count_def)

lemma length_path_text: "length (path_text segs) \<le> text_bound segs"
proof (induction segs)
  case (Cons seg segs)
  then show ?case using length_segment_text [of seg] by (simp add: text_bound_def)
qed (simp add: text_bound_def)

section \<open>Reading the text back\<close>

lemma isdigit_dec_str: "c \<in> set (dec_str n) \<Longrightarrow> isdigit c"
  using dec_str_digits by (simp add: isdigit_def)

lemma digit_not:
  "isdigit c \<Longrightarrow> \<not> isspace c" "isdigit c \<Longrightarrow> c \<noteq> CHR '',''"
  "isdigit c \<Longrightarrow> c \<noteq> CHR ''{'' \<and> c \<noteq> CHR ''}'' \<and> c \<noteq> CHR ''('' \<and> c \<noteq> CHR '')'' \<and> c \<noteq> CHR ''['' \<and> c \<noteq> CHR '']''"
  by (auto simp: isdigit_def isspace_def less_eq_char_def)

lemma asval_loop_dec:
  "list_all isdigit cs \<Longrightarrow> rest = [] \<or> \<not> isdigit (hd rest) \<Longrightarrow>
   asval_loop (word_of_int acc) (cs @ rest) = (word_of_int (dec_val acc cs), rest)"
proof (induction cs arbitrary: acc)
  case Nil
  then show ?case by (cases rest) auto
next
  case (Cons c cs)
  define d where "d = int (of_char c - of_char CHR ''0'')"
  have dv: "(word_of_int acc * 10 + digit_val c :: as_t) = word_of_int (10 * acc + d)"
    by (simp add: digit_val_def mult.commute d_def)
  have c: "isdigit c" "list_all isdigit cs" using Cons.prems by simp_all
  then have "dec_val acc (c # cs) = dec_val (10 * acc + d) cs" by (simp add: isdigit_def d_def)
  moreover have "asval_loop (word_of_int acc) ((c # cs) @ rest) = asval_loop (word_of_int (10 * acc + d)) (cs @ rest)"
    by (simp only: append_Cons asval_loop.simps c(1) if_True dv)
  ultimately show ?case using Cons.IH [OF c(2) Cons.prems(2)] by (simp only:)
qed

lemma gettoken_asval:
  assumes "rest = [] \<or> \<not> isdigit (hd rest)"
  shows "aspath_gettoken (dec_str (unat a) @ rest) = Some (as_token_asval a, rest)"
proof -
  obtain c cs where s: "dec_str (unat a) = c # cs" using dec_str_nonempty [of "unat a"] by (cases "dec_str (unat a)") auto
  have d: "isdigit c" "list_all isdigit cs" using isdigit_dec_str [of _ "unat a"] by (auto simp: s list_all_iff)
  have "digit_val c = word_of_int (int (of_char c - of_char CHR ''0''))" by (simp add: digit_val_def)
  then have "asval_loop (digit_val c) (cs @ rest) = (word_of_int (dec_val (int (of_char c - of_char CHR ''0'')) cs), rest)"
    using asval_loop_dec [OF d(2) assms, of "int (of_char c - of_char CHR ''0'')"] by (simp only:)
  also have "dec_val (int (of_char c - of_char CHR ''0'')) cs = int (unat a)"
    using dec_val_dec_str [of "unat a"] d(1) by (simp add: s isdigit_def)
  finally show ?thesis using digit_not [OF d(1)] d(1) by (simp add: aspath_gettoken_def s)
qed

lemma gettoken_skip: "isspace c \<or> c = CHR '','' \<Longrightarrow> aspath_gettoken (c # s) = aspath_gettoken s"
  by (simp add: aspath_gettoken_def)

lemma str2aspath_skip: "isspace c \<or> c = CHR '','' \<Longrightarrow> str2aspath_loop (c # s) = str2aspath_loop s"
  by (intro ext) (simp add: str2aspath_loop.simps [of "c # s"] str2aspath_loop.simps [of s] gettoken_skip)

lemma str2aspath_asval:
  assumes "rest = [] \<or> \<not> isdigit (hd rest)"
  shows "str2aspath_loop (dec_str (unat a) @ rest) t nt segs =
    str2aspath_loop rest t False (aspath_as_add a (if nt then aspath_segment_add t segs else segs))"
  by (subst str2aspath_loop.simps) (simp add: gettoken_asval [OF assms])

lemma as_add_last:
  "length as + 1 < 2 ^ 16 \<Longrightarrow> aspath_as_add a (segs @ [\<lparr>seg_type = t, seg_as = as\<rparr>]) = segs @ [\<lparr>seg_type = t, seg_as = as @ [a]\<rparr>]"
  by (simp add: aspath_as_add_def assegment_append_asns_def set_asns_small)

lemma str2aspath_asns:
  assumes "isspace c \<or> c = CHR '',''" "\<not> isdigit c" "rest = [] \<or> \<not> isdigit (hd rest)" "length (xs @ as) < 2 ^ 16"
  shows "str2aspath_loop (asns_text c as @ rest) t False (segs @ [\<lparr>seg_type = t, seg_as = xs\<rparr>]) =
    str2aspath_loop rest t False (segs @ [\<lparr>seg_type = t, seg_as = xs @ as\<rparr>])"
  using assms(4)
proof (induction as arbitrary: xs)
  case (Cons a as)
  have tl: "asns_text c (a # as) @ rest = dec_str (unat a) @ ((if as \<noteq> [] then [c] else []) @ asns_text c as @ rest)" by simp
  have nd: "(if as \<noteq> [] then [c] else []) @ asns_text c as @ rest = [] \<or>
      \<not> isdigit (hd ((if as \<noteq> [] then [c] else []) @ asns_text c as @ rest))"
    using assms(2,3) by (cases as) auto
  have "str2aspath_loop ((if as \<noteq> [] then [c] else []) @ asns_text c as @ rest) = str2aspath_loop (asns_text c as @ rest)"
    using str2aspath_skip [OF assms(1)] by (cases as) auto
  moreover have "length (xs @ [a]) + length as < 2 ^ 16" using Cons.prems by simp
  ultimately show ?case
    unfolding tl str2aspath_asval [OF nd] using Cons.IH [of "xs @ [a]"] as_add_last [of xs a segs t] by simp
qed simp

definition path_ok :: "assegment list \<Rightarrow> bool" where
  "path_ok segs \<longleftrightarrow> apart segs \<and>
     (\<forall>seg \<in> set segs. seg_type_ok seg \<and> seg_len seg < 2 ^ 16 \<and> (is_seq seg \<longrightarrow> seg_as seg \<noteq> []))"

lemma str2aspath_sequence:
  assumes "as \<noteq> []" "length as < 2 ^ 16" "rest = [] \<or> \<not> isdigit (hd rest)"
  shows "str2aspath_loop (asns_text CHR '' '' as @ rest) t True segs = str2aspath_loop rest t False (segs @ [\<lparr>seg_type = t, seg_as = as\<rparr>])"
proof -
  obtain a r where as: "as = a # r" using assms(1) by (cases as) auto
  define tl where "tl = (if r \<noteq> [] then '' '' else []) @ asns_text CHR '' '' r @ rest"
  have sp: "isspace CHR '' '' \<or> CHR '' '' = CHR '',''" "\<not> isdigit CHR '' ''" by (simp_all add: isspace_def isdigit_def less_eq_char_def)
  have nd: "tl = [] \<or> \<not> isdigit (hd tl)" using assms(3) sp by (cases r) (auto simp: tl_def)
  have sk: "str2aspath_loop tl = str2aspath_loop (asns_text CHR '' '' r @ rest)"
    using str2aspath_skip [OF sp(1)] by (cases r) (auto simp: tl_def)
  have "str2aspath_loop (asns_text CHR '' '' as @ rest) t True segs =
      str2aspath_loop tl t False (aspath_as_add a (aspath_segment_add t segs))"
    using str2aspath_asval [OF nd, of a t True segs] by (simp add: as tl_def)
  also have "\<dots> = str2aspath_loop (asns_text CHR '' '' r @ rest) t False (segs @ [\<lparr>seg_type = t, seg_as = [a]\<rparr>])"
    using as_add_last [of "[]" a segs t] by (simp add: sk aspath_segment_add_def assegment_new_def)
  also have "\<dots> = str2aspath_loop rest t False (segs @ [\<lparr>seg_type = t, seg_as = as\<rparr>])"
    using str2aspath_asns [OF sp assms(3), of "[a]" r t segs] assms(2) by (simp add: as)
  finally show ?thesis .
qed

lemma str2aspath_bracketed:
  assumes "seg_type_ok seg" "\<not> is_seq seg" "seg_len seg < 2 ^ 16"
  shows "str2aspath_loop (segment_text seg @ rest) t nt segs = str2aspath_loop rest AS_SEQUENCE True (segs @ [seg])"
proof -
  define c where "c = (if is_set seg then CHR '','' else CHR '' '')"
  define e where "e = aspath_delimiter_char (seg_type seg) True # rest"
  have c: "isspace c \<or> c = CHR '',''" "\<not> isdigit c" by (simp_all add: c_def isspace_def isdigit_def less_eq_char_def)
  have e: "e = [] \<or> \<not> isdigit (hd e)" by (simp add: e_def aspath_delimiter_char_def isdigit_def less_eq_char_def)
  have ty: "seg_type seg = AS_SET \<or> seg_type seg = AS_CONFED_SET \<or> seg_type seg = AS_CONFED_SEQUENCE"
    using assms(1,2) by (auto simp: seg_type_ok_def)
  have sg: "segs @ [\<lparr>seg_type = seg_type seg, seg_as = seg_as seg\<rparr>] = segs @ [seg]" by simp
  have "str2aspath_loop (segment_text seg @ rest) t nt segs =
      str2aspath_loop (asns_text c (seg_as seg) @ e) (seg_type seg) False (segs @ [\<lparr>seg_type = seg_type seg, seg_as = []\<rparr>])"
    using ty assms(2)
    by (subst str2aspath_loop.simps)
      (auto simp: segment_text_def aspath_gettoken_def isspace_def aspath_delimiter_char_def aspath_segment_add_def assegment_new_def c_def e_def)
  also have "\<dots> = str2aspath_loop e (seg_type seg) False (segs @ [seg])"
    using str2aspath_asns [OF c e, of "[]" "seg_as seg" "seg_type seg" segs] assms(3) sg by simp
  also have "\<dots> = str2aspath_loop rest AS_SEQUENCE True (segs @ [seg])"
    using ty by (subst str2aspath_loop.simps) (auto simp: e_def aspath_gettoken_def isspace_def aspath_delimiter_char_def)
  finally show ?thesis .
qed

lemma str2aspath_path_text:
  "path_ok segs \<Longrightarrow> nt \<or> segs = [] \<or> \<not> is_seq (hd segs) \<Longrightarrow>
   str2aspath_loop (path_text segs) AS_SEQUENCE nt acc = Some (acc @ segs)"
proof (induction segs arbitrary: acc nt)
  case Nil
  then show ?case by (simp add: str2aspath_loop.simps [of "[]"] aspath_gettoken_def)
next
  case (Cons seg segs)
  define rest where "rest = (if segs \<noteq> [] then '' '' else []) @ path_text segs"
  have sp: "isspace CHR '' ''" "\<not> isdigit CHR '' ''" by (simp_all add: isspace_def isdigit_def less_eq_char_def)
  have rest: "str2aspath_loop rest = str2aspath_loop (path_text segs)" "rest = [] \<or> \<not> isdigit (hd rest)"
    using str2aspath_skip [of "CHR '' ''"] sp by (auto simp: rest_def)
  have tl: "path_ok segs" using Cons.prems(1) by (cases segs) (auto simp: path_ok_def)
  have sg: "seg_type_ok seg" "seg_len seg < 2 ^ 16" "is_seq seg \<Longrightarrow> seg_as seg \<noteq> []"
    "is_seq seg \<Longrightarrow> segs = [] \<or> \<not> is_seq (hd segs)"
    using Cons.prems(1) by (cases segs; auto simp: path_ok_def)+
  have t: "path_text (seg # segs) = segment_text seg @ rest" by (simp add: rest_def)
  show ?case
  proof (cases "is_seq seg")
    case True
    have nt: "nt = True" using Cons.prems(2) True by simp
    have sq: "\<lparr>seg_type = AS_SEQUENCE, seg_as = seg_as seg\<rparr> = seg" using True by simp
    have "str2aspath_loop (path_text (seg # segs)) AS_SEQUENCE nt acc = str2aspath_loop rest AS_SEQUENCE False (acc @ [seg])"
      unfolding t segment_text_def nt if_P [OF True]
      using str2aspath_sequence [OF sg(3) [OF True] sg(2) rest(2), of AS_SEQUENCE acc] unfolding sq .
    then show ?thesis using Cons.IH [OF tl, of False "acc @ [seg]"] sg(4) True by (simp add: rest(1))
  next
    case False
    then show ?thesis
      unfolding t str2aspath_bracketed [OF sg(1) False sg(2)] rest(1) using Cons.IH [OF tl, of True "acc @ [seg]"] by simp
  qed
qed

section \<open>Properties\<close>

text \<open>C36: making the text of a path never runs past the buffer, cuts no text off and passes the assertion on the length, for any numbers
  and any kinds of segments, as long as the size of the buffer is an int; a path with a segment of an unknown kind has no text.\<close>

theorem aspath_text_fits:
  assumes "11 * nat (assegment_count_asns (segments p) 0) + 4 * length (segments p) < 2 ^ 31"
  shows "\<exists>q. aspath_str_update p = Some q \<and> segments q = segments p \<and> (as_str q = None \<longleftrightarrow> \<not> list_all seg_type_ok (segments p)) \<and>
    (\<forall>text. as_str q = Some text \<longrightarrow> length text \<le> 11 * nat (assegment_count_asns (segments p) 0) + 4 * length (segments p))"
  using make_str_text [of p] assms length_path_text [of "segments p"]
  by (simp add: aspath_str_update_def text_bound_def count_asns)

theorem aspath_text_fits_witness:
  "\<exists>q. aspath_str_update (aspath_new\<lparr>segments := [\<lparr>seg_type = AS_SET, seg_as = [4294967295, 4294967294, 4294967293]\<rparr>]\<rparr>) = Some q \<and>
    segments q = [\<lparr>seg_type = AS_SET, seg_as = [4294967295, 4294967294, 4294967293]\<rparr>] \<and> as_str q \<noteq> None"
  using aspath_text_fits [of "aspath_new\<lparr>segments := [\<lparr>seg_type = AS_SET, seg_as = [4294967295, 4294967294, 4294967293]\<rparr>]\<rparr>"]
  by (auto simp: aspath_new_def seg_type_ok_def)

text \<open>C12: the text of a path reads back as the path: for every path of known kinds of segments in which no two sequences follow each
  other and no sequence is empty, \<^verbatim>\<open>aspath_str2aspath\<close> on its text gives the same segments and the same text.\<close>

theorem aspath_text_roundtrip:
  assumes "path_ok (segments p)" "11 * nat (assegment_count_asns (segments p) 0) + 4 * length (segments p) < 2 ^ 31"
  shows "\<exists>q text r. aspath_str_update p = Some q \<and> as_str q = Some text \<and> aspath_str2aspath text = Some (Some r) \<and>
    segments r = segments p \<and> as_str r = Some text"
proof -
  have ok: "list_all seg_type_ok (segments p)" using assms(1) by (auto simp: path_ok_def list_all_iff)
  have bd: "text_bound (segments p) < 2 ^ 31" using assms(2) by (simp add: text_bound_def count_asns)
  have "str2aspath_loop (path_text (segments p)) AS_SEQUENCE True [] = Some (segments p)"
    using str2aspath_path_text [OF assms(1), of True "[]"] by simp
  then show ?thesis
    using make_str_text [OF bd] make_str_text [of "aspath_new\<lparr>segments := segments p\<rparr>"] ok bd
    by (simp add: aspath_str_update_def aspath_str2aspath_def)
qed

theorem aspath_text_roundtrip_witness:
  "\<exists>q text r. aspath_str_update (aspath_new\<lparr>segments := [\<lparr>seg_type = AS_SEQUENCE, seg_as = [7018, 70000]\<rparr>, \<lparr>seg_type = AS_SET, seg_as = [3, 5]\<rparr>]\<rparr>) = Some q \<and>
    as_str q = Some text \<and> aspath_str2aspath text = Some (Some r) \<and>
    segments r = [\<lparr>seg_type = AS_SEQUENCE, seg_as = [7018, 70000]\<rparr>, \<lparr>seg_type = AS_SET, seg_as = [3, 5]\<rparr>] \<and> as_str r = Some text"
  using aspath_text_roundtrip [of "aspath_new\<lparr>segments := [\<lparr>seg_type = AS_SEQUENCE, seg_as = [7018, 70000]\<rparr>, \<lparr>seg_type = AS_SET, seg_as = [3, 5]\<rparr>]\<rparr>"]
  by (simp add: aspath_new_def path_ok_def seg_type_ok_def)

end
