(* ===== verification/Aspath_Wire.thy ===== *)
theory Aspath_Wire
  imports Aspath_Text
begin

text \<open>
  The octets of an AS path.  \<open>seg_wire\<close> is a segment as the attribute has it, and \<open>pieces\<close> are the segments that \<^verbatim>\<open>aspath_put\<close>
  writes: short sequences that follow each other are one segment.  The lemmas follow \<^verbatim>\<open>aspath_put\<close> and
  \<^verbatim>\<open>assegments_parse\<close> segment by segment; \<open>parse_loop_safe\<close> is about octets of any origin.
\<close>

section \<open>Numbers on the wire\<close>

text \<open>What a peer that reads two octets a number sees of it, and the octets of a number.\<close>

definition as_seen :: "bool \<Rightarrow> as_t \<Rightarrow> as_t" where
  "as_seen use32bit a = (if use32bit \<or> a \<le> BGP_AS_MAX then a else BGP_AS_TRANS)"

definition as_wire :: "bool \<Rightarrow> as_t \<Rightarrow> u8 list" where
  "as_wire use32bit a = (if use32bit then be32 a else be16 (ucast (as_seen False a)))"

abbreviation asns_wire :: "bool \<Rightarrow> as_t list \<Rightarrow> u8 list" where
  "asns_wire use32bit as \<equiv> concat (map (as_wire use32bit) as)"

abbreviation as_width :: "bool \<Rightarrow> nat" where
  "as_width use32bit \<equiv> if use32bit then 4 else 2"

lemma length_as_wire [simp]: "length (as_wire u a) = as_width u"
  by (simp add: as_wire_def)

lemma length_asns_wire [simp]: "length (asns_wire u as) = length as * as_width u"
  by (induction as) auto

lemma ucast_as_seen: "ucast (ucast (as_seen False a) :: u16) = as_seen False a"
proof -
  have "as_seen False a \<le> 65535" by (simp add: as_seen_def)
  then have "unat (as_seen False a) < 2 ^ 16" by (simp add: word_le_nat_alt)
  then show ?thesis by (simp add: word_unat_eq_iff unsigned_ucast_eq unsigned_take_bit_eq take_bit_nat_eq_self)
qed

lemma put_asns_spec:
  "stream_ok s \<Longrightarrow> length (asns_wire u as) \<le> ssize s - endp s \<Longrightarrow>
   \<exists>s'. put_asns as u s = Some s' \<and> stream_ok s' \<and> unread s' = unread s @ asns_wire u as \<and> getp s' = getp s \<and>
     endp s' = endp s + length (asns_wire u as) \<and> ssize s' = ssize s"
proof (induction as arbitrary: s)
  case (Cons a as)
  define put where "put = (if u then stream_putl a s
      else if a \<le> BGP_AS_MAX then stream_putw (ucast a) s else stream_putw (ucast BGP_AS_TRANS) s)"
  have w: "as_width u \<le> ssize s - endp s" using Cons.prems(2) by (auto split: if_splits)
  have "put = (if u then stream_putl a s else stream_putw (ucast (as_seen False a)) s)"
    by (simp add: put_def as_seen_def)
  then obtain s1 where s1: "put = Some (int (as_width u), s1)" "stream_ok s1" "unread s1 = unread s @ as_wire u a"
    "getp s1 = getp s" "endp s1 = endp s + as_width u" "ssize s1 = ssize s"
    using codec_l.put_unread [of s a] codec_w.put_unread [of s "ucast (as_seen False a)"] Cons.prems(1) w
    by (auto simp: as_wire_def split: if_splits)
  have "length (asns_wire u as) \<le> ssize s1 - endp s1" using Cons.prems(2) s1(5,6) by simp
  from Cons.IH [OF s1(2) this] obtain s2 where "put_asns as u s1 = Some s2" "stream_ok s2" "unread s2 = unread s1 @ asns_wire u as"
    "getp s2 = getp s1" "endp s2 = endp s1 + length (asns_wire u as)" "ssize s2 = ssize s1" by blast
  moreover have "put_asns (a # as) u s = Option.bind put (\<lambda>(r, s1). put_asns as u s1)" by (simp add: put_def)
  ultimately show ?case using s1 by (auto simp: algebra_simps)
qed simp

lemma get_asns_spec:
  "stream_ok s \<Longrightarrow> unread s = asns_wire u as @ rest \<Longrightarrow>
   \<exists>s'. get_asns (length as) u s = Some (map (as_seen u) as, s') \<and> stream_ok s' \<and> unread s' = rest"
proof (induction as arbitrary: s)
  case (Cons a as)
  define get where "get = (if u then stream_getl s else map_option (\<lambda>(w, s1). (ucast w, s1)) (stream_getw s))"
  have r: "unread s = as_wire u a @ (asns_wire u as @ rest)" using Cons.prems(2) by simp
  obtain s1 where s1: "get = Some (as_seen u a, s1)" "stream_ok s1" "unread s1 = asns_wire u as @ rest"
    using codec_l.get_unread [of s a "asns_wire u as @ rest"] codec_w.get_unread [of s "ucast (as_seen False a)" "asns_wire u as @ rest"]
      Cons.prems(1) r
    by (cases u) (auto simp: get_def as_wire_def ucast_as_seen, auto simp: as_seen_def)
  from Cons.IH [OF s1(2,3)] obtain s2 where "get_asns (length as) u s1 = Some (map (as_seen u) as, s2)" "stream_ok s2" "unread s2 = rest"
    by blast
  moreover have "get_asns (length (a # as)) u s = Option.bind get (\<lambda>(a, s1). Option.bind (get_asns (length as) u s1) (\<lambda>(as, s2). Some (a # as, s2)))"
    by (simp add: get_def)
  ultimately show ?case using s1(1) by simp
qed simp

section \<open>Segments on the wire\<close>

definition seg_wire :: "bool \<Rightarrow> assegment \<Rightarrow> u8 list" where
  "seg_wire use32bit seg = [seg_type seg, word_of_nat (seg_len seg)] @ asns_wire use32bit (seg_as seg)"

abbreviation segs_wire :: "bool \<Rightarrow> assegment list \<Rightarrow> u8 list" where
  "segs_wire use32bit segs \<equiv> concat (map (seg_wire use32bit) segs)"

text \<open>The parts a segment of up to 510 numbers is cut into.\<close>

definition pieces :: "assegment \<Rightarrow> assegment list" where
  "pieces seg = (if seg_len seg > AS_SEGMENT_MAX
     then [seg\<lparr>seg_as := take AS_SEGMENT_MAX (seg_as seg)\<rparr>, seg\<lparr>seg_as := drop AS_SEGMENT_MAX (seg_as seg)\<rparr>] else [seg])"

lemma length_seg_wire [simp]: "length (seg_wire u seg) = ASSEGMENT_SIZE (seg_len seg) u"
  by (simp add: seg_wire_def ASSEGMENT_SIZE_def)

lemma put_piece:
  assumes "stream_ok s" "n \<le> AS_SEGMENT_MAX" "n \<le> length as" "ASSEGMENT_SIZE n u \<le> ssize s - endp s"
  obtains lenp s1 s2 where "assegment_header_put t n s = Some (lenp, s1)" "assegment_data_put as n u s1 = Some s2"
    "stream_ok s2" "unread s2 = unread s @ seg_wire u \<lparr>seg_type = t, seg_as = take n as\<rparr>" "getp s2 = getp s"
    "endp s2 = endp s + ASSEGMENT_SIZE n u" "ssize s2 = ssize s"
proof -
  have room: "2 + length (asns_wire u (take n as)) \<le> ssize s - endp s"
    using assms(3,4) by (simp add: ASSEGMENT_SIZE_def min_absorb2)
  obtain a where a: "stream_putc t s = Some (1, a)" "stream_ok a" "unread a = unread s @ [t]" "getp a = getp s"
    "endp a = endp s + 1" "ssize a = ssize s"
    using codec_c.put_unread [OF assms(1), of t] room by auto
  obtain b where b: "stream_putc (word_of_nat n) a = Some (1, b)" "stream_ok b" "unread b = unread a @ [word_of_nat n]"
    "getp b = getp a" "endp b = endp a + 1" "ssize b = ssize a"
  proof -
    have "1 \<le> ssize a - endp a" using room a(5,6) by linarith
    then show thesis using codec_c.put_unread [OF a(2), of "word_of_nat n"] that by auto
  qed
  have "length (asns_wire u (take n as)) \<le> ssize b - endp b" using room a(5,6) b(5,6) by simp
  from put_asns_spec [OF b(2) this] obtain c where c: "put_asns (take n as) u b = Some c" "stream_ok c"
    "unread c = unread b @ asns_wire u (take n as)" "getp c = getp b"
    "endp c = endp b + length (asns_wire u (take n as))" "ssize c = ssize b" by blast
  have e: "stream_get_endp a = Some (endp a)" using sane_ok [OF a(2)] by (simp add: stream_get_endp_def)
  show thesis
  proof (rule that)
    show "assegment_header_put t n s = Some (endp a, b)" using assms(2) a(1) b(1) e by (simp add: assegment_header_put_def)
    show "assegment_data_put as n u b = Some c" using assms(2,3) c(1) by (simp add: assegment_data_put_def)
    show "unread c = unread s @ seg_wire u \<lparr>seg_type = t, seg_as = take n as\<rparr>"
      using assms(3) a(3) b(3) c(3) by (simp add: seg_wire_def min_absorb2)
    show "endp c = endp s + ASSEGMENT_SIZE n u"
      using assms(3) a(5) b(5) c(5) by (simp add: ASSEGMENT_SIZE_def min_absorb2)
  qed (use a b c in simp_all)
qed

lemma put_split_done: "seg_len seg \<le> AS_SEGMENT_MAX + wr \<Longrightarrow> put_split seg u wr bytes s = Some (wr, bytes, s)"
  by (subst put_split.simps) simp

lemma put_split_step:
  assumes "seg_len seg > AS_SEGMENT_MAX + wr" "stream_ok s" "ASSEGMENT_SIZE AS_SEGMENT_MAX u \<le> ssize s - endp s"
  obtains s1 where "put_split seg u wr bytes s =
      put_split seg u (wr + AS_SEGMENT_MAX) (bytes + ASSEGMENT_SIZE (wr + AS_SEGMENT_MAX) u) s1"
    "stream_ok s1" "unread s1 = unread s @ seg_wire u (seg\<lparr>seg_as := take AS_SEGMENT_MAX (seg_as seg)\<rparr>)" "getp s1 = getp s"
    "endp s1 = endp s + ASSEGMENT_SIZE AS_SEGMENT_MAX u" "ssize s1 = ssize s"
proof -
  have "AS_SEGMENT_MAX \<le> length (seg_as seg)" using assms(1) by simp
  from put_piece [OF assms(2) order_refl this assms(3), of "seg_type seg"] obtain lenp s1 s2
    where p: "assegment_header_put (seg_type seg) AS_SEGMENT_MAX s = Some (lenp, s1)"
      "assegment_data_put (seg_as seg) AS_SEGMENT_MAX u s1 = Some s2"
      "stream_ok s2" "unread s2 = unread s @ seg_wire u \<lparr>seg_type = seg_type seg, seg_as = take AS_SEGMENT_MAX (seg_as seg)\<rparr>"
      "getp s2 = getp s" "endp s2 = endp s + ASSEGMENT_SIZE AS_SEGMENT_MAX u" "ssize s2 = ssize s" .
  have "put_split seg u wr bytes s = put_split seg u (wr + AS_SEGMENT_MAX) (bytes + ASSEGMENT_SIZE (wr + AS_SEGMENT_MAX) u) s2"
    by (subst put_split.simps) (use assms(1) p(1,2) in \<open>simp add: Let_def\<close>)
  moreover have "\<lparr>seg_type = seg_type seg, seg_as = take AS_SEGMENT_MAX (seg_as seg)\<rparr> = seg\<lparr>seg_as := take AS_SEGMENT_MAX (seg_as seg)\<rparr>"
    by simp
  ultimately show thesis using that p by metis
qed

lemma put_pack_apart: "apart (seg # segs) \<Longrightarrow> put_pack seg segs u wr lenp 0 s = Some (0, segs, s)"
  by (cases segs) (auto simp: ASSEGMENTS_PACKABLE_def ASSEGMENT_TYPES_PACKABLE_def)

lemma put_loop_step:
  assumes "put_split seg u 0 bytes s = Some (wr, bytes1, s1)" "ASSEGMENT_SIZE (seg_len seg) u \<le> ssize s - endp s"
    "stream_ok s1" "seg_len seg - wr \<le> AS_SEGMENT_MAX" "ASSEGMENT_SIZE (seg_len seg - wr) u \<le> ssize s1 - endp s1" "apart (seg # segs)"
  obtains s2 where "put_loop (seg # segs) u bytes s = put_loop segs u (bytes1 + ASSEGMENT_SIZE (seg_len seg - wr) u) s2"
    "stream_ok s2" "unread s2 = unread s1 @ seg_wire u (seg\<lparr>seg_as := drop wr (seg_as seg)\<rparr>)" "getp s2 = getp s1"
    "endp s2 = endp s1 + ASSEGMENT_SIZE (seg_len seg - wr) u" "ssize s2 = ssize s1"
proof -
  have "seg_len seg - wr \<le> length (drop wr (seg_as seg))" by simp
  from put_piece [OF assms(3,4) this assms(5), of "seg_type seg"] obtain lenp t s2
    where p: "assegment_header_put (seg_type seg) (seg_len seg - wr) s1 = Some (lenp, t)"
      "assegment_data_put (drop wr (seg_as seg)) (seg_len seg - wr) u t = Some s2" "stream_ok s2"
      "unread s2 = unread s1 @ seg_wire u \<lparr>seg_type = seg_type seg, seg_as = take (seg_len seg - wr) (drop wr (seg_as seg))\<rparr>"
      "getp s2 = getp s1" "endp s2 = endp s1 + ASSEGMENT_SIZE (seg_len seg - wr) u" "ssize s2 = ssize s1" .
  have "put_loop (seg # segs) u bytes s = put_loop segs u (bytes1 + ASSEGMENT_SIZE (seg_len seg - wr) u) s2"
    using assms(1,2) p(1,2) by (simp add: put_loop.simps(2) STREAM_WRITEABLE_def put_pack_apart [OF assms(6)])
  moreover have "\<lparr>seg_type = seg_type seg, seg_as = take (seg_len seg - wr) (drop wr (seg_as seg))\<rparr> = seg\<lparr>seg_as := drop wr (seg_as seg)\<rparr>"
    by simp
  ultimately show thesis using that p by metis
qed

lemma put_seg:
  assumes "stream_ok s" "seg_len seg \<le> 2 * AS_SEGMENT_MAX" "length (segs_wire u (pieces seg)) \<le> ssize s - endp s" "apart (seg # segs)"
  obtains s' where "put_loop (seg # segs) u bytes s = put_loop segs u (bytes + length (segs_wire u (pieces seg))) s'"
    "stream_ok s'" "unread s' = unread s @ segs_wire u (pieces seg)" "getp s' = getp s"
    "endp s' = endp s + length (segs_wire u (pieces seg))" "ssize s' = ssize s"
proof (cases "seg_len seg > AS_SEGMENT_MAX")
  case False
  then have l: "ASSEGMENT_SIZE (seg_len seg - 0) u \<le> ssize s - endp s" "seg_len seg - 0 \<le> AS_SEGMENT_MAX"
    using assms(3) by (simp_all add: pieces_def)
  have "put_split seg u 0 bytes s = Some (0, bytes, s)" using False by (intro put_split_done) simp
  from put_loop_step [OF this _ assms(1) l(2) l(1) assms(4)] l obtain s2 where
    "put_loop (seg # segs) u bytes s = put_loop segs u (bytes + ASSEGMENT_SIZE (seg_len seg - 0) u) s2"
    "stream_ok s2" "unread s2 = unread s @ seg_wire u (seg\<lparr>seg_as := drop 0 (seg_as seg)\<rparr>)" "getp s2 = getp s"
    "endp s2 = endp s + ASSEGMENT_SIZE (seg_len seg - 0) u" "ssize s2 = ssize s" by auto
  then show thesis using that [of s2] False by (simp add: pieces_def)
next
  case True
  define m where "m = seg_len seg - AS_SEGMENT_MAX"
  have w: "length (segs_wire u (pieces seg)) = ASSEGMENT_SIZE AS_SEGMENT_MAX u + ASSEGMENT_SIZE m u"
    using True by (simp add: pieces_def m_def min_absorb2)
  have sz: "ASSEGMENT_SIZE (seg_len seg) u \<le> ASSEGMENT_SIZE AS_SEGMENT_MAX u + ASSEGMENT_SIZE m u"
  proof -
    have "seg_len seg = AS_SEGMENT_MAX + m" using True by (simp add: m_def)
    then show ?thesis by (simp add: ASSEGMENT_SIZE_def add_mult_distrib)
  qed
  have "AS_SEGMENT_MAX + 0 < seg_len seg" "ASSEGMENT_SIZE AS_SEGMENT_MAX u \<le> ssize s - endp s" using True assms(3) w by simp_all
  from put_split_step [OF this(1) assms(1) this(2), of bytes] obtain s1 where s1:
    "put_split seg u 0 bytes s = put_split seg u (0 + AS_SEGMENT_MAX) (bytes + ASSEGMENT_SIZE (0 + AS_SEGMENT_MAX) u) s1"
    "stream_ok s1" "unread s1 = unread s @ seg_wire u (seg\<lparr>seg_as := take AS_SEGMENT_MAX (seg_as seg)\<rparr>)" "getp s1 = getp s"
    "endp s1 = endp s + ASSEGMENT_SIZE AS_SEGMENT_MAX u" "ssize s1 = ssize s" .
  have sp: "put_split seg u 0 bytes s = Some (AS_SEGMENT_MAX, bytes + ASSEGMENT_SIZE AS_SEGMENT_MAX u, s1)"
    unfolding s1(1) using put_split_done [of seg AS_SEGMENT_MAX] assms(2) by simp
  have "m \<le> AS_SEGMENT_MAX" using assms(2) by (simp add: m_def)
  moreover have "ASSEGMENT_SIZE m u \<le> ssize s1 - endp s1" using assms(3) w s1(5,6) by simp
  moreover have "ASSEGMENT_SIZE (seg_len seg) u \<le> ssize s - endp s" using sz assms(3) w by simp
  ultimately obtain s2 where
    "put_loop (seg # segs) u bytes s = put_loop segs u (bytes + ASSEGMENT_SIZE AS_SEGMENT_MAX u + ASSEGMENT_SIZE m u) s2"
    "stream_ok s2" "unread s2 = unread s1 @ seg_wire u (seg\<lparr>seg_as := drop AS_SEGMENT_MAX (seg_as seg)\<rparr>)" "getp s2 = getp s1"
    "endp s2 = endp s1 + ASSEGMENT_SIZE m u" "ssize s2 = ssize s1"
    using put_loop_step [OF sp _ s1(2) _ _ assms(4)] unfolding m_def by metis
  then show thesis using that [of s2] True s1(3-6) w by (simp add: pieces_def add.assoc)
qed

lemma put_loop_spec:
  assumes "stream_ok s" "apart segs" "list_all (\<lambda>seg. seg_len seg \<le> 2 * AS_SEGMENT_MAX) segs"
    "length (segs_wire u (concat (map pieces segs))) \<le> ssize s - endp s"
  shows "\<exists>s'. put_loop segs u bytes s = Some (bytes + length (segs_wire u (concat (map pieces segs))), s') \<and> stream_ok s' \<and>
    unread s' = unread s @ segs_wire u (concat (map pieces segs)) \<and> getp s' = getp s \<and> ssize s' = ssize s"
  using assms
proof (induction segs arbitrary: s bytes)
  case (Cons seg segs)
  have l: "seg_len seg \<le> 2 * AS_SEGMENT_MAX" using Cons.prems(3) by simp
  have r: "length (segs_wire u (pieces seg)) \<le> ssize s - endp s" using Cons.prems(4) by simp
  obtain s1 where s1: "put_loop (seg # segs) u bytes s = put_loop segs u (bytes + length (segs_wire u (pieces seg))) s1"
    "stream_ok s1" "unread s1 = unread s @ segs_wire u (pieces seg)" "getp s1 = getp s"
    "endp s1 = endp s + length (segs_wire u (pieces seg))" "ssize s1 = ssize s"
    by (rule put_seg [OF Cons.prems(1) l r Cons.prems(2)])
  have "apart segs" using Cons.prems(2) by (cases segs) auto
  moreover have "length (segs_wire u (concat (map pieces segs))) \<le> ssize s1 - endp s1" using Cons.prems(4) s1(5,6) by simp
  ultimately show ?case
    using Cons.IH [OF s1(2), of "bytes + length (segs_wire u (pieces seg))"] Cons.prems(3) s1 by (auto simp: add.assoc)
qed simp

section \<open>Reading a path\<close>

definition piece_ok :: "assegment \<Rightarrow> bool" where
  "piece_ok seg \<longleftrightarrow> seg_type_ok seg \<and> 0 < seg_len seg \<and> seg_len seg \<le> AS_SEGMENT_MAX"

definition seg_seen :: "bool \<Rightarrow> assegment \<Rightarrow> assegment" where
  "seg_seen use32bit seg = seg\<lparr>seg_as := map (as_seen use32bit) (seg_as seg)\<rparr>"

lemma parse_piece:
  assumes "stream_ok s" "piece_ok seg" "unread s = seg_wire u seg @ rest" "bytes + ASSEGMENT_SIZE (seg_len seg) u \<le> len"
  obtains s' where "parse_loop s len bytes u acc = parse_loop s' len (bytes + ASSEGMENT_SIZE (seg_len seg) u) u (acc @ [seg_seen u seg])"
    "stream_ok s'" "unread s' = rest"
proof -
  define n :: u8 where "n = word_of_nat (seg_len seg)"
  have n: "unat n = seg_len seg" "n \<noteq> 0"
  proof -
    have "seg_len seg < 2 ^ LENGTH(8)" using assms(2) by (simp add: piece_ok_def)
    then show u: "unat n = seg_len seg" unfolding n_def by (simp add: unat_of_nat take_bit_nat_eq_self)
    show "n \<noteq> 0" using u assms(2) by (auto simp: piece_ok_def)
  qed
  have "unread s = [seg_type seg] @ ([n] @ asns_wire u (seg_as seg) @ rest)" using assms(3) by (simp add: seg_wire_def n_def)
  from codec_c.get_unread [OF assms(1) TrueI this] obtain s1 where s1: "stream_getc s = Some (seg_type seg, s1)" "stream_ok s1"
    "unread s1 = [n] @ (asns_wire u (seg_as seg) @ rest)" by blast
  from codec_c.get_unread [OF s1(2) TrueI s1(3)] obtain s2 where s2: "stream_getc s1 = Some (n, s2)" "stream_ok s2"
    "unread s2 = asns_wire u (seg_as seg) @ rest" by blast
  from get_asns_spec [OF s2(2,3)] obtain s3 where s3: "get_asns (seg_len seg) u s2 = Some (map (as_seen u) (seg_as seg), s3)"
    "stream_ok s3" "unread s3 = rest" by blast
  have "AS_HEADER_SIZE < ASSEGMENT_SIZE (seg_len seg) u" using assms(2) by (simp add: ASSEGMENT_SIZE_def piece_ok_def)
  then have big: "bytes < len" "\<not> len - bytes \<le> AS_HEADER_SIZE" using assms(4) by linarith+
  have ty: "\<not> seg_type seg \<notin> {AS_SEQUENCE, AS_SET, AS_CONFED_SEQUENCE, AS_CONFED_SET}"
    using assms(2) by (auto simp: piece_ok_def seg_type_ok_def)
  have fit: "\<not> (bytes + ASSEGMENT_SIZE (seg_len seg) u > len \<or> n = 0)" using n(2) assms(4) by simp
  have "\<lparr>seg_type = seg_type seg, seg_as = map (as_seen u) (seg_as seg)\<rparr> = seg_seen u seg" by (simp add: seg_seen_def)
  then have "parse_loop s len bytes u acc = parse_loop s3 len (bytes + ASSEGMENT_SIZE (seg_len seg) u) u (acc @ [seg_seen u seg])"
    unfolding parse_loop.simps [of s len bytes] if_P [OF big(1)] if_not_P [OF big(2)] s1(1) s2(1) bind.bind_lunit prod.case n(1) Let_def
      if_not_P [OF fit] if_not_P [OF ty] s3(1)
    by simp
  then show thesis using that s3 by blast
qed

lemma parse_loop_spec:
  assumes "stream_ok s" "list_all piece_ok segs" "unread s = segs_wire u segs @ rest" "len = bytes + length (segs_wire u segs)"
  shows "\<exists>s'. parse_loop s len bytes u acc = Some (Some (acc @ map (seg_seen u) segs), s') \<and> stream_ok s' \<and> unread s' = rest"
  using assms
proof (induction segs arbitrary: s bytes acc)
  case Nil
  then show ?case by (simp add: parse_loop.simps [of s bytes bytes])
next
  case (Cons seg segs)
  have "unread s = seg_wire u seg @ (segs_wire u segs @ rest)" "bytes + ASSEGMENT_SIZE (seg_len seg) u \<le> len" "piece_ok seg"
    using Cons.prems(2,3,4) by simp_all
  from parse_piece [OF Cons.prems(1) this(3,1,2), of acc] obtain s1 where s1:
    "parse_loop s len bytes u acc = parse_loop s1 len (bytes + ASSEGMENT_SIZE (seg_len seg) u) u (acc @ [seg_seen u seg])"
    "stream_ok s1" "unread s1 = segs_wire u segs @ rest" .
  have "len = bytes + ASSEGMENT_SIZE (seg_len seg) u + length (segs_wire u segs)" using Cons.prems(4) by simp
  from Cons.IH [OF s1(2) _ s1(3) this, of "acc @ [seg_seen u seg]"] show ?case using Cons.prems(2) s1(1) by simp
qed

lemma even_segs_wire: "even (length (segs_wire u segs))"
  by (induction segs) (auto simp: ASSEGMENT_SIZE_def)

lemma assegments_parse_spec:
  assumes "stream_ok s" "list_all piece_ok segs" "segs \<noteq> []" "unread s = segs_wire u segs @ rest"
  shows "\<exists>s'. assegments_parse (Some s) (length (segs_wire u segs)) u =
    Some (Some (assegment_normalise (map (seg_seen u) segs)), Some s') \<and> stream_ok s' \<and> unread s' = rest"
proof -
  define len where "len = length (segs_wire u segs)"
  obtain s' where p: "parse_loop s len 0 u [] = Some (Some (map (seg_seen u) segs), s')" "stream_ok s'" "unread s' = rest"
    using parse_loop_spec [OF assms(1,2,4), of len 0 "[]"] by (auto simp: len_def)
  have "AS_HEADER_SIZE \<le> len" using assms(3) by (cases segs) (auto simp: len_def ASSEGMENT_SIZE_def)
  moreover have "len \<le> STREAM_READABLE s" using length_unread [OF assms(1)] assms(4) by (simp add: len_def STREAM_READABLE_def)
  moreover have "len mod 2 = 0" using even_segs_wire [of u segs] by (simp add: len_def even_iff_mod_2_eq_zero)
  ultimately show ?thesis using p unfolding len_def [symmetric] by (simp add: assegments_parse_def)
qed

text \<open>Normalisation puts the parts of an overlong sequence together again.\<close>

lemma normalise_pieces:
  assumes "normal segs" "list_all (\<lambda>seg. is_seq seg \<or> seg_len seg \<le> AS_SEGMENT_MAX) segs" "list_all (\<lambda>seg. seg_len seg < 2 ^ 16) segs"
  shows "assegment_normalise (concat (map pieces segs)) = segs"
  using assms
proof (induction segs)
  case (Cons seg segs)
  define tl where "tl = concat (map pieces segs)"
  have nm: "normal segs" using Cons.prems(1) by (cases segs) (auto simp: normal_def)
  then have IH: "assegment_normalise tl = segs" using Cons by (simp add: tl_def)
  have hd: "tl = [] \<or> \<not> (is_seq seg \<and> is_seq (hd tl))"
  proof (cases segs)
    case (Cons x xs)
    then show ?thesis using Cons.prems(1) by (auto simp: normal_def tl_def pieces_def)
  qed (simp add: tl_def)
  have st: "pack_next x tl = (x, tl)" if "seg_type x = seg_type seg" for x
    using hd that by (cases tl) (auto simp: ASSEGMENT_TYPES_PACKABLE_def)
  show ?case
  proof (cases "seg_len seg > AS_SEGMENT_MAX")
    case False
    have "sort_segment seg = seg" using Cons.prems(1) by (cases "is_set seg") (auto simp: normal_def sort_segment_id)
    moreover have "concat (map pieces (seg # segs)) = seg # tl" using False by (simp add: pieces_def tl_def)
    ultimately show ?thesis using st [of seg] IH by simp
  next
    case True
    then have sq: "is_seq seg" "seg_len seg < 2 ^ 16" using Cons.prems(2,3) by auto
    define a b where "a = seg\<lparr>seg_as := take AS_SEGMENT_MAX (seg_as seg)\<rparr>" and "b = seg\<lparr>seg_as := drop AS_SEGMENT_MAX (seg_as seg)\<rparr>"
    have "assegment_append_asns a (seg_as b) = seg" using sq(2) by (simp add: a_def b_def assegment_append_asns_def set_asns_small)
    moreover have "sort_segment a = a" "ASSEGMENT_TYPES_PACKABLE a b" using sq(1) by (simp_all add: a_def b_def ASSEGMENT_TYPES_PACKABLE_def)
    moreover have "concat (map pieces (seg # segs)) = a # b # tl" using True by (simp add: pieces_def a_def b_def tl_def)
    ultimately show ?thesis using st [of seg] IH by simp
  qed
qed simp

section \<open>Reading any packet\<close>

lemma get_some:
  assumes "stream_ok s" "n \<le> length (unread s)"
  shows "n \<le> endp s - getp s" "stream_ok (s\<lparr>getp := getp s + n\<rparr>)" "unread (s\<lparr>getp := getp s + n\<rparr>) = drop n (unread s)"
proof -
  show n: "n \<le> endp s - getp s" using assms length_unread by simp
  show "stream_ok (s\<lparr>getp := getp s + n\<rparr>)" "unread (s\<lparr>getp := getp s + n\<rparr>) = drop n (unread s)"
    by (rule forward_ok [OF assms(1) n])+
qed

lemma getc_some:
  assumes "stream_ok s" "1 \<le> length (unread s)"
  obtains c s' where "stream_getc s = Some (c, s')" "stream_ok s'" "unread s' = drop 1 (unread s)"
  using codec_c.get_law [OF assms(1)] get_some [OF assms] that by (metis if_P)

lemma get_asns_safe:
  "stream_ok s \<Longrightarrow> n * as_width u \<le> length (unread s) \<Longrightarrow>
   \<exists>as s'. get_asns n u s = Some (as, s') \<and> length as = n \<and> stream_ok s' \<and> unread s' = drop (n * as_width u) (unread s)"
proof (induction n arbitrary: s)
  case (Suc n)
  define get where "get = (if u then stream_getl s else map_option (\<lambda>(w, s1). (ucast w, s1)) (stream_getw s))"
  have w: "as_width u \<le> length (unread s)" using Suc.prems(2) by simp
  note g = get_some [OF Suc.prems(1) w]
  obtain a s1 where s1: "get = Some (a, s1)" "stream_ok s1" "unread s1 = drop (as_width u) (unread s)"
    using codec_l.get_law [OF Suc.prems(1)] codec_w.get_law [OF Suc.prems(1)] g by (cases u) (auto simp: get_def)
  have "n * as_width u \<le> length (unread s1)" using Suc.prems(2) s1(3) by simp
  from Suc.IH [OF s1(2) this] obtain as s2 where "get_asns n u s1 = Some (as, s2)" "length as = n" "stream_ok s2"
    "unread s2 = drop (n * as_width u) (unread s1)" by blast
  moreover have "get_asns (Suc n) u s = Option.bind get (\<lambda>(a, s1). Option.bind (get_asns n u s1) (\<lambda>(as, s2). Some (a # as, s2)))"
    by (simp add: get_def)
  ultimately show ?case using s1 by (simp add: add.commute)
qed simp

definition wire_size :: "bool \<Rightarrow> assegment list \<Rightarrow> nat" where
  "wire_size use32bit segs = sum_list (map (\<lambda>seg. ASSEGMENT_SIZE (seg_len seg) use32bit) segs)"

text \<open>One round of the loop either finds the path malformed or reads a segment that lies within the announced length.\<close>

lemma parse_step:
  assumes "stream_ok s" "len - bytes \<le> length (unread s)" "bytes < len" "\<not> len - bytes \<le> AS_HEADER_SIZE"
  shows "(\<exists>s2. parse_loop s len bytes u acc = Some (None, s2) \<and> stream_ok s2) \<or>
    (\<exists>seg s3. parse_loop s len bytes u acc = parse_loop s3 len (bytes + ASSEGMENT_SIZE (seg_len seg) u) u (acc @ [seg]) \<and> stream_ok s3 \<and>
      seg_type_ok seg \<and> bytes + ASSEGMENT_SIZE (seg_len seg) u \<le> len \<and> len - (bytes + ASSEGMENT_SIZE (seg_len seg) u) \<le> length (unread s3))"
proof -
  have "1 \<le> length (unread s)" using assms(2-4) by linarith
  then obtain t s1 where s1: "stream_getc s = Some (t, s1)" "stream_ok s1" "unread s1 = drop 1 (unread s)"
    using getc_some [OF assms(1)] by blast
  have "1 \<le> length (unread s1)" using assms(2-4) s1(3) by auto
  then obtain n s2 where s2: "stream_getc s1 = Some (n, s2)" "stream_ok s2" "unread s2 = drop 2 (unread s)"
    using getc_some [OF s1(2)] s1(3) by (metis drop_drop one_add_one)
  define sz where "sz = ASSEGMENT_SIZE (unat n) u"
  define bad where "bad \<longleftrightarrow> bytes + sz > len \<or> n = 0"
  define odd where "odd \<longleftrightarrow> t \<notin> {AS_SEQUENCE, AS_SET, AS_CONFED_SEQUENCE, AS_CONFED_SET}"
  have lp: "parse_loop s len bytes u acc = (if bad then Some (None, s2) else if odd then Some (None, s2)
      else Option.bind (get_asns (unat n) u s2) (\<lambda>(as, s3). parse_loop s3 len (bytes + sz) u (acc @ [\<lparr>seg_type = t, seg_as = as\<rparr>])))"
    unfolding parse_loop.simps [of s len bytes] bad_def odd_def sz_def if_P [OF assms(3)] if_not_P [OF assms(4)] s1(1) s2(1)
      bind.bind_lunit prod.case Let_def ..
  show ?thesis
  proof (cases "bad \<or> odd")
    case True
    then show ?thesis using lp s2(2) by auto
  next
    case False
    then have room: "bytes + sz \<le> len" by (simp add: bad_def)
    then have "unat n * as_width u \<le> length (unread s2)" using assms(2) s2(3) by (simp add: sz_def ASSEGMENT_SIZE_def)
    from get_asns_safe [OF s2(2) this] obtain as s3 where s3: "get_asns (unat n) u s2 = Some (as, s3)" "length as = unat n" "stream_ok s3"
      "unread s3 = drop (unat n * as_width u) (unread s2)" by blast
    have "unread s3 = drop sz (unread s)" using s3(4) s2(3) by (simp add: sz_def ASSEGMENT_SIZE_def add.commute)
    then have "len - (bytes + sz) \<le> length (unread s3)" using assms(2) by simp
    moreover have "seg_type_ok \<lparr>seg_type = t, seg_as = as\<rparr>" using False by (auto simp: odd_def seg_type_ok_def)
    ultimately show ?thesis
      using lp False s3(1-3) room by (intro disjI2 exI [of _ "\<lparr>seg_type = t, seg_as = as\<rparr>"] exI [of _ s3]) (simp add: sz_def)
  qed
qed

lemma parse_loop_safe:
  "stream_ok s \<Longrightarrow> len - bytes \<le> length (unread s) \<Longrightarrow>
   \<exists>r s'. parse_loop s len bytes u acc = Some (r, s') \<and> stream_ok s' \<and>
     (\<forall>segs. r = Some segs \<longrightarrow> (\<exists>new. segs = acc @ new \<and> list_all seg_type_ok new \<and> wire_size u new \<le> len - bytes))"
proof (induction "len - bytes" arbitrary: s bytes acc rule: less_induct)
  case less
  show ?case
  proof (cases "bytes < len \<and> \<not> len - bytes \<le> AS_HEADER_SIZE")
    case False
    then show ?thesis using less.prems(1) by (auto simp: parse_loop.simps [of s] wire_size_def)
  next
    case True
    from parse_step [OF less.prems, of u acc] True consider s2 where "parse_loop s len bytes u acc = Some (None, s2)" "stream_ok s2"
      | seg s3 where "parse_loop s len bytes u acc = parse_loop s3 len (bytes + ASSEGMENT_SIZE (seg_len seg) u) u (acc @ [seg])" "stream_ok s3"
        "seg_type_ok seg" "bytes + ASSEGMENT_SIZE (seg_len seg) u \<le> len" "len - (bytes + ASSEGMENT_SIZE (seg_len seg) u) \<le> length (unread s3)"
      by blast
    then show ?thesis
    proof cases
      case 1
      then show ?thesis by auto
    next
      case 2
      define sz where "sz = ASSEGMENT_SIZE (seg_len seg) u"
      have "0 < sz" by (simp add: sz_def ASSEGMENT_SIZE_def)
      then have "len - (bytes + sz) < len - bytes" using True by linarith
      from less.hyps [OF this 2(2) 2(5) [folded sz_def], of "acc @ [seg]"] obtain r s' where r:
        "parse_loop s3 len (bytes + sz) u (acc @ [seg]) = Some (r, s')" "stream_ok s'"
        "\<forall>segs. r = Some segs \<longrightarrow> (\<exists>new. segs = (acc @ [seg]) @ new \<and> list_all seg_type_ok new \<and> wire_size u new \<le> len - (bytes + sz))"
        by blast
      have "\<exists>new. segs = acc @ new \<and> list_all seg_type_ok new \<and> wire_size u new \<le> len - bytes" if "r = Some segs" for segs
      proof -
        obtain new where "segs = (acc @ [seg]) @ new" "list_all seg_type_ok new" "wire_size u new \<le> len - (bytes + sz)" using r(3) \<open>r = Some segs\<close> by blast
        then show ?thesis using 2(3,4) by (intro exI [of _ "seg # new"]) (simp add: wire_size_def sz_def)
      qed
      then show ?thesis using 2(1) r by (auto simp: sz_def)
    qed
  qed
qed

section \<open>Properties\<close>

lemma seg_seen_id: "(\<And>a. a \<in> set (seg_as seg) \<Longrightarrow> as_seen u a = a) \<Longrightarrow> seg_seen u seg = seg"
  by (simp add: seg_seen_def map_idI)

lemma has_as4_asns: "has_as4 segs \<longleftrightarrow> (\<exists>a \<in> set (asns segs). a > BGP_AS_MAX)"
  by (induction segs) (auto simp: list_ex_iff)

lemma seg_seen_no_as4: "\<not> has_as4 segs \<Longrightarrow> seg \<in> set segs \<Longrightarrow> seg_seen u seg = seg"
  by (rule seg_seen_id) (auto simp: has_as4_asns as_seen_def asns_def not_less)

lemma has_as4_pieces: "has_as4 (concat (map pieces segs)) = has_as4 segs"
proof (induction segs)
  case (Cons seg segs)
  have "list_ex P (take n xs) \<or> list_ex P (drop n xs) \<longleftrightarrow> list_ex P xs" for P n and xs :: "as_t list"
    using list_ex_append [of P "take n xs" "drop n xs"] by simp
  then show ?case using Cons by (auto simp: pieces_def)
qed simp

lemma pieces_ok: "seg_type_ok seg \<Longrightarrow> seg_as seg \<noteq> [] \<Longrightarrow> seg_len seg \<le> 2 * AS_SEGMENT_MAX \<Longrightarrow> list_all piece_ok (pieces seg)"
  by (auto simp: pieces_def piece_ok_def seg_type_ok_def)

text \<open>C11: writing a normal path into a packet and reading it back gives the same path, and \<^verbatim>\<open>aspath_put\<close> returns the number of octets it
  wrote.  This holds with four octets a number, and with two when no number needs more; sequences may have up to 510 numbers and
  are then sent in two parts, other segments up to 255; the packet must have the room.\<close>

theorem aspath_wire_roundtrip:
  assumes "stream_ok s" "unread s = []" "normal (segments p)" "segments p \<noteq> []"
    and segs: "\<forall>seg \<in> set (segments p). seg_type_ok seg \<and> seg_as seg \<noteq> [] \<and> seg_len seg \<le> (if is_seq seg then 510 else 255)"
    and room: "aspath_size p + 2 * length (segments p) \<le> STREAM_WRITEABLE s"
    and width: "use32bit \<or> \<not> aspath_has_as4 p"
  shows "\<exists>n s1 s2. aspath_put s p use32bit = Some (n, s1) \<and> length (unread s1) = n \<and>
    assegments_parse (Some s1) n use32bit = Some (Some (segments p), Some s2) \<and> unread s2 = []"
proof -
  define ps where "ps = concat (map pieces (segments p))"
  define n where "n = length (segs_wire use32bit ps)"
  have ap: "apart (segments p)" using assms(3) by (simp add: normal_def)
  have len: "list_all (\<lambda>seg. seg_len seg \<le> 2 * AS_SEGMENT_MAX) (segments p)"
    using segs by (fastforce simp: list_all_iff split: if_splits)
  have "length (segs_wire use32bit (concat (map pieces segs))) \<le> segments_size segs + 2 * length segs" for segs
    by (induction segs) (auto simp: pieces_def ASSEGMENT_SIZE_def)
  then have r: "n \<le> ssize s - endp s" using room le_trans unfolding n_def ps_def aspath_size_def STREAM_WRITEABLE_def by blast
  obtain s1 where s1: "put_loop (segments p) use32bit 0 s = Some (n, s1)" "stream_ok s1" "unread s1 = segs_wire use32bit ps"
    using put_loop_spec [OF assms(1) ap len r [unfolded n_def ps_def], of 0] assms(2) by (auto simp: n_def ps_def)
  have put: "aspath_put s p use32bit = Some (n, s1)"
    using s1(1) assms(4) segs by (auto simp: aspath_put_def split: list.split)
  have pok: "list_all piece_ok ps" using segs pieces_ok unfolding ps_def by (fastforce simp: list_all_iff split: if_splits)
  have "ps \<noteq> []" using assms(4) by (cases "segments p") (auto simp: ps_def pieces_def)
  from assegments_parse_spec [OF s1(2) pok this, of use32bit "[]"] s1(3) obtain s2 where
    s2: "assegments_parse (Some s1) n use32bit = Some (Some (assegment_normalise (map (seg_seen use32bit) ps)), Some s2)" "unread s2 = []"
    by (auto simp: n_def)
  have "map (seg_seen use32bit) ps = ps"
  proof (cases use32bit)
    case True
    then show ?thesis by (intro map_idI seg_seen_id) (simp add: as_seen_def)
  next
    case False
    then have "\<not> has_as4 ps" using width by (simp add: aspath_has_as4_def ps_def has_as4_pieces)
    then show ?thesis using seg_seen_no_as4 by (intro map_idI) blast
  qed
  moreover have "assegment_normalise ps = segments p"
    unfolding ps_def by (rule normalise_pieces [OF assms(3)]) (use segs in \<open>fastforce simp: list_all_iff split: if_splits\<close>)+
  ultimately show ?thesis using put s1(3) s2 by (auto simp: n_def)
qed

definition example_packet :: stream_t where
  "example_packet = \<lparr>next_s = None, getp = 0, endp = 0, ssize = 4096, sdata = replicate 4096 0\<rparr>"

lemma example_packet: "stream_ok example_packet" "unread example_packet = []" "STREAM_WRITEABLE example_packet = 4096"
  "ssize example_packet - endp example_packet = 4096"
  by (simp_all add: example_packet_def stream_ok_def unread_def written_def STREAM_WRITEABLE_def)

theorem aspath_wire_roundtrip_witness:
  "\<exists>n s1 s2. aspath_put example_packet (aspath_new\<lparr>segments := [\<lparr>seg_type = AS_SEQUENCE, seg_as = [64500, 70000]\<rparr>, \<lparr>seg_type = AS_SET, seg_as = [3, 5]\<rparr>]\<rparr>) True =
      Some (n, s1) \<and> length (unread s1) = n \<and>
    assegments_parse (Some s1) n True =
      Some (Some (segments (aspath_new\<lparr>segments := [\<lparr>seg_type = AS_SEQUENCE, seg_as = [64500, 70000]\<rparr>, \<lparr>seg_type = AS_SET, seg_as = [3, 5]\<rparr>]\<rparr>)), Some s2) \<and>
    unread s2 = []"
  by (rule aspath_wire_roundtrip)
    (simp_all add: example_packet normal_def seg_type_ok_def aspath_new_def aspath_size_def ASSEGMENT_SIZE_def)

text \<open>How \<^verbatim>\<open>aspath_put\<close> splits a segment of more than 255 numbers: each of the \<open>k\<close> full parts has the first 255 numbers, and the octets
  of the part are counted with the numbers of all the parts before.\<close>

abbreviation full_part :: "assegment \<Rightarrow> assegment" where
  "full_part seg \<equiv> seg\<lparr>seg_as := take AS_SEGMENT_MAX (seg_as seg)\<rparr>"

lemma put_split_parts:
  assumes "stream_ok s" "AS_SEGMENT_MAX * (j + k) < seg_len seg" "k * ASSEGMENT_SIZE AS_SEGMENT_MAX u \<le> ssize s - endp s"
  shows "\<exists>s1. put_split seg u (AS_SEGMENT_MAX * j) bytes s =
      put_split seg u (AS_SEGMENT_MAX * (j + k)) (bytes + (\<Sum>i = j + 1..j + k. ASSEGMENT_SIZE (AS_SEGMENT_MAX * i) u)) s1 \<and>
    stream_ok s1 \<and> unread s1 = unread s @ segs_wire u (replicate k (full_part seg)) \<and>
    endp s1 = endp s + k * ASSEGMENT_SIZE AS_SEGMENT_MAX u \<and> ssize s1 = ssize s"
  using assms
proof (induction k)
  case (Suc k)
  have "AS_SEGMENT_MAX * (j + k) < seg_len seg" "k * ASSEGMENT_SIZE AS_SEGMENT_MAX u \<le> ssize s - endp s" using Suc.prems(2,3) by auto
  then obtain s1 where s1: "put_split seg u (AS_SEGMENT_MAX * j) bytes s =
      put_split seg u (AS_SEGMENT_MAX * (j + k)) (bytes + (\<Sum>i = j + 1..j + k. ASSEGMENT_SIZE (AS_SEGMENT_MAX * i) u)) s1"
    "stream_ok s1" "unread s1 = unread s @ segs_wire u (replicate k (full_part seg))"
    "endp s1 = endp s + k * ASSEGMENT_SIZE AS_SEGMENT_MAX u" "ssize s1 = ssize s" using Suc by auto
  have r: "seg_len seg > AS_SEGMENT_MAX + AS_SEGMENT_MAX * (j + k)" "ASSEGMENT_SIZE AS_SEGMENT_MAX u \<le> ssize s1 - endp s1"
    using Suc.prems(2,3) s1(4,5) by (auto simp: algebra_simps)
  obtain s2 where s2: "put_split seg u (AS_SEGMENT_MAX * (j + k)) (bytes + (\<Sum>i = j + 1..j + k. ASSEGMENT_SIZE (AS_SEGMENT_MAX * i) u)) s1 =
      put_split seg u (AS_SEGMENT_MAX * (j + k) + AS_SEGMENT_MAX)
        (bytes + (\<Sum>i = j + 1..j + k. ASSEGMENT_SIZE (AS_SEGMENT_MAX * i) u) + ASSEGMENT_SIZE (AS_SEGMENT_MAX * (j + k) + AS_SEGMENT_MAX) u) s2"
    "stream_ok s2" "unread s2 = unread s1 @ seg_wire u (full_part seg)" "getp s2 = getp s1"
    "endp s2 = endp s1 + ASSEGMENT_SIZE AS_SEGMENT_MAX u" "ssize s2 = ssize s1"
    by (rule put_split_step [OF r(1) s1(2) r(2)])
  have e: "AS_SEGMENT_MAX * (j + k) + AS_SEGMENT_MAX = AS_SEGMENT_MAX * (j + Suc k)" by simp
  have "replicate (Suc k) (full_part seg) = replicate k (full_part seg) @ [full_part seg]" by (simp add: replicate_append_same)
  then show ?case using s1 s2 unfolding e by (auto simp: algebra_simps)
qed (auto intro!: exI [of _ s])

lemma pack_next_sequences:
  "list_all is_seq (pin # segs) \<Longrightarrow> length (asns (pin # segs)) < 2 ^ 16 \<Longrightarrow> pack_next pin segs = (pin\<lparr>seg_as := asns (pin # segs)\<rparr>, [])"
proof (induction pin segs rule: pack_next.induct)
  case (2 pin seg segs)
  have "length (seg_as pin @ seg_as seg) < 2 ^ 16" using 2(3) by simp
  then have ap: "assegment_append_asns pin (seg_as seg) = pin\<lparr>seg_as := seg_as pin @ seg_as seg\<rparr>" by (simp add: assegment_append_asns_def set_asns_small)
  have "ASSEGMENT_TYPES_PACKABLE pin seg" using 2(2) by (simp add: ASSEGMENT_TYPES_PACKABLE_def)
  then show ?case using 2 unfolding pack_next.simps ap by simp
qed simp

lemma normalise_sequences:
  assumes "list_all is_seq segs" "segs \<noteq> []" "length (asns segs) < 2 ^ 16"
  shows "assegment_normalise segs = [\<lparr>seg_type = AS_SEQUENCE, seg_as = asns segs\<rparr>]"
proof (cases segs)
  case (Cons seg rest)
  then have "sort_segment seg = seg" using assms(1) by (simp add: sort_segment_def)
  moreover have "seg\<lparr>seg_as := as\<rparr> = \<lparr>seg_type = AS_SEQUENCE, seg_as = as\<rparr>" for as using assms(1) Cons by (cases seg) simp
  ultimately show ?thesis using assms pack_next_sequences [of seg rest] Cons by simp
qed (use assms in simp)

lemma put_sequence:
  assumes "stream_ok s" "segments p = [\<lparr>seg_type = AS_SEQUENCE, seg_as = as\<rparr>]" "length as = 255 * k + m" "0 < m" "m \<le> 255"
    and room: "ASSEGMENT_SIZE (length as) u + 2 * k \<le> STREAM_WRITEABLE s"
  defines "parts \<equiv> replicate k \<lparr>seg_type = AS_SEQUENCE, seg_as = take 255 as\<rparr> @ [\<lparr>seg_type = AS_SEQUENCE, seg_as = drop (255 * k) as\<rparr>]"
  shows "\<exists>s1. aspath_put s p u = Some ((\<Sum>i = 1..k. ASSEGMENT_SIZE (255 * i) u) + ASSEGMENT_SIZE m u, s1) \<and> stream_ok s1 \<and>
    unread s1 = unread s @ segs_wire u parts"
proof -
  define seg where "seg = \<lparr>seg_type = AS_SEQUENCE, seg_as = as\<rparr>"
  define bytes where "bytes = (\<Sum>i = 1..k. ASSEGMENT_SIZE (255 * i) u)"
  have len: "seg_len seg = 255 * k + m" using assms(3) by (simp add: seg_def)
  have sz: "ASSEGMENT_SIZE x u = 2 + as_width u * x" for x by (simp add: ASSEGMENT_SIZE_def)
  have r0: "2 + as_width u * (255 * k) + as_width u * m + 2 * k \<le> ssize s - endp s"
    using room by (simp add: sz assms(3) STREAM_WRITEABLE_def add_mult_distrib2)
  have "k * ASSEGMENT_SIZE AS_SEGMENT_MAX u \<le> ssize s - endp s" "AS_SEGMENT_MAX * (0 + k) < seg_len seg"
    using r0 assms(4) len by (simp_all add: sz algebra_simps)
  then obtain s2 where s2: "put_split seg u (AS_SEGMENT_MAX * 0) 0 s =
      put_split seg u (AS_SEGMENT_MAX * (0 + k)) (0 + (\<Sum>i = 0 + 1..0 + k. ASSEGMENT_SIZE (AS_SEGMENT_MAX * i) u)) s2"
    "stream_ok s2" "unread s2 = unread s @ segs_wire u (replicate k (full_part seg))"
    "endp s2 = endp s + k * ASSEGMENT_SIZE AS_SEGMENT_MAX u" "ssize s2 = ssize s" using put_split_parts [OF assms(1), of 0 k seg u 0] by blast
  have sp: "put_split seg u 0 0 s = Some (255 * k, bytes, s2)"
    using s2(1) put_split_done [of seg "255 * k" u bytes s2] len assms(5) by (simp add: bytes_def)
  have m: "seg_len seg - 255 * k = m" using len by simp
  have fits: "ASSEGMENT_SIZE (seg_len seg) u \<le> ssize s - endp s" "m \<le> AS_SEGMENT_MAX" "ASSEGMENT_SIZE m u \<le> ssize s2 - endp s2"
    using r0 assms(5) s2(4,5) by (simp_all add: len sz algebra_simps)
  have "apart [seg]" by simp
  from put_loop_step [OF sp fits(1) s2(2) _ _ this, unfolded m, OF fits(2,3)] obtain s3 where s3:
    "put_loop [seg] u 0 s = put_loop [] u (bytes + ASSEGMENT_SIZE m u) s3"
    "stream_ok s3" "unread s3 = unread s2 @ seg_wire u (seg\<lparr>seg_as := drop (255 * k) (seg_as seg)\<rparr>)" .
  have "aspath_put s p u = Some (bytes + ASSEGMENT_SIZE m u, s3)"
    using s3(1) assms(2,4) len by (simp add: aspath_put_def seg_def)
  moreover have "unread s3 = unread s @ segs_wire u parts" using s3(3) s2(3) by (simp add: parts_def seg_def)
  ultimately show ?thesis using s3(2) by (auto simp: bytes_def)
qed

text \<open>The length of the parts, and by how much the returned length is larger.\<close>

lemma parts_length:
  assumes "length as = 255 * k + m"
  shows "(\<Sum>i = 1..k. ASSEGMENT_SIZE (255 * i) u) + ASSEGMENT_SIZE m u =
    length (segs_wire u (replicate k \<lparr>seg_type = AS_SEQUENCE, seg_as = take 255 as\<rparr> @ [\<lparr>seg_type = AS_SEQUENCE, seg_as = drop (255 * k) as\<rparr>])) +
      255 * as_width u * (\<Sum>i<k. i)"
proof -
  let ?a = "\<lparr>seg_type = AS_SEQUENCE, seg_as = take 255 as\<rparr>"
  have sum: "(\<Sum>i = 1..j. ASSEGMENT_SIZE (255 * i) u) = j * ASSEGMENT_SIZE 255 u + 255 * as_width u * (\<Sum>i<j. i)" for j
    by (induction j) (auto simp: ASSEGMENT_SIZE_def algebra_simps)
  have len: "length (segs_wire u (replicate j ?a)) = j * ASSEGMENT_SIZE (seg_len ?a) u" for j by (induction j) simp_all
  have "k * ASSEGMENT_SIZE (seg_len ?a) u = k * ASSEGMENT_SIZE 255 u" using assms by (cases k) (simp_all add: min_absorb2)
  then have "length (segs_wire u (replicate k ?a @ [b])) = k * ASSEGMENT_SIZE 255 u + ASSEGMENT_SIZE (seg_len b) u" for b
    using len [of k] by simp
  then show ?thesis unfolding sum using assms by simp
qed

text \<open>C37: a path of one sequence of fewer than 65536 numbers, for which the stream has room, is written in \<open>k\<close> full parts and a last one, and every
  full part has the first 255 numbers: the reader gets \<open>k\<close> copies of them and then the numbers of the last part (with two octets a number, as the
  two octets show them), and the length that \<^verbatim>\<open>aspath_put\<close> returns, which its callers write into the header of the attribute, is too
  large by 255 numbers for the second full part, by twice as much for the third, and so on. Up to 510 numbers (\<open>k \<le> 1\<close>) this is the path
  and its length; from 511 on copies stand in place of the numbers of the parts between, and the length is too large, with four octets a number as with two.\<close>

theorem aspath_put_overlong:
  assumes "stream_ok s" "unread s = []" "segments p = [\<lparr>seg_type = AS_SEQUENCE, seg_as = as\<rparr>]" "as \<noteq> []" "length as < 2 ^ 16"
    and k: "k = (length as - 1) div 255" and room: "ASSEGMENT_SIZE (length as) use32bit + 2 * k \<le> STREAM_WRITEABLE s"
  shows "\<exists>s1 s2. aspath_put s p use32bit = Some (length (unread s1) + 255 * as_width use32bit * (\<Sum>i<k. i), s1) \<and>
    assegments_parse (Some s1) (length (unread s1)) use32bit =
      Some (Some [\<lparr>seg_type = AS_SEQUENCE, seg_as = map (as_seen use32bit) (concat (replicate k (take 255 as)) @ drop (255 * k) as)\<rparr>], Some s2)"
proof -
  define m where "m = length as - 255 * k"
  have m: "length as = 255 * k + m" "0 < m" "m \<le> 255" using assms(4) unfolding k m_def by (cases as; simp; linarith)+
  define parts where "parts = replicate k \<lparr>seg_type = AS_SEQUENCE, seg_as = take 255 as\<rparr> @ [\<lparr>seg_type = AS_SEQUENCE, seg_as = drop (255 * k) as\<rparr>]"
  obtain s1 where s1: "aspath_put s p use32bit = Some ((\<Sum>i = 1..k. ASSEGMENT_SIZE (255 * i) use32bit) + ASSEGMENT_SIZE m use32bit, s1)"
      "stream_ok s1" "unread s1 = segs_wire use32bit parts @ []"
    using put_sequence [OF assms(1,3) m room] assms(2) by (auto simp: parts_def)
  have put: "aspath_put s p use32bit = Some (length (unread s1) + 255 * as_width use32bit * (\<Sum>i<k. i), s1)"
    unfolding s1(1,3) parts_length [OF m(1)] parts_def by simp
  have "list_all piece_ok parts" using m by (auto simp: parts_def piece_ok_def seg_type_ok_def list_all_iff)
  from assegments_parse_spec [OF s1(2) this _ s1(3)] obtain s2 where
    s2: "assegments_parse (Some s1) (length (unread s1)) use32bit = Some (Some (assegment_normalise (map (seg_seen use32bit) parts)), Some s2)"
    using s1(3) by (auto simp: parts_def)
  have seen: "asns (map (seg_seen use32bit) parts) = map (as_seen use32bit) (concat (replicate k (take 255 as)) @ drop (255 * k) as)"
    by (simp add: parts_def asns_def seg_seen_def map_concat)
  have "length (concat (replicate k (take 255 as))) = 255 * k" using m(1) by (cases k) (simp_all add: length_concat sum_list_replicate min_absorb2)
  then have "length (asns (map (seg_seen use32bit) parts)) = length as" using m(1) by (simp add: seen)
  then have "assegment_normalise (map (seg_seen use32bit) parts) = [\<lparr>seg_type = AS_SEQUENCE, seg_as = asns (map (seg_seen use32bit) parts)\<rparr>]"
    using assms(5) by (intro normalise_sequences) (auto simp: parts_def seg_seen_def list_all_iff)
  with put s2 show ?thesis unfolding seen by (intro exI conjI) simp_all
qed

theorem aspath_put_overlong_witness:
  "\<exists>s1 s2. aspath_put example_packet (aspath_new\<lparr>segments := [\<lparr>seg_type = AS_SEQUENCE, seg_as = map word_of_nat [0..<600]\<rparr>]\<rparr>) True =
      Some (length (unread s1) + 1020, s1) \<and>
    assegments_parse (Some s1) (length (unread s1)) True =
      Some (Some [\<lparr>seg_type = AS_SEQUENCE, seg_as = take 255 (map word_of_nat [0..<600]) @ take 255 (map word_of_nat [0..<600]) @
        drop 510 (map word_of_nat [0..<600])\<rparr>], Some s2)"
proof -
  have id: "map (as_seen True) xs = xs" for xs by (simp add: as_seen_def map_idI)
  have two: "replicate 2 xs = [xs, xs]" "(\<Sum>i<2::nat. i) = 1" for xs :: "32 word list" by (simp_all add: numeral_2_eq_2)
  define as :: "32 word list" where "as = map word_of_nat [0..<600]"
  let ?p = "aspath_new\<lparr>segments := [\<lparr>seg_type = AS_SEQUENCE, seg_as = as\<rparr>]\<rparr>"
  have len: "length as = 600" by (simp add: as_def del: upt_rec_numeral)
  have "\<exists>s1 s2. aspath_put example_packet ?p True = Some (length (unread s1) + 255 * as_width True * (\<Sum>i<2. i), s1) \<and>
    assegments_parse (Some s1) (length (unread s1)) True =
      Some (Some [\<lparr>seg_type = AS_SEQUENCE, seg_as = map (as_seen True) (concat (replicate 2 (take 255 as)) @ drop (255 * 2) as)\<rparr>], Some s2)"
    using len by (intro aspath_put_overlong) (auto simp: example_packet ASSEGMENT_SIZE_def)
  then show ?thesis unfolding as_def [symmetric] id two by simp
qed

end
