(* ===== verification/Aspath_Ops.thy ===== *)
theory Aspath_Ops
  imports Aspath_Text
begin

text \<open>
  Operations on AS paths: the numbers and the hops that \<^verbatim>\<open>aspath_aggregate\<close>, \<^verbatim>\<open>aspath_aggregate_mpath\<close> and
  \<^verbatim>\<open>aspath_reconcile_as4\<close> keep, with the lemmas that normalisation keeps them too.
\<close>

section \<open>Hops and members\<close>

lemma count_hops_append [simp]: "count_hops (xs @ ys) = count_hops xs + count_hops ys"
  by (induction xs) auto

lemma loop_count_pos: "0 < loop_count segs a \<longleftrightarrow> a \<in> set (asns segs)"
  by (induction segs) (auto simp: filter_empty_conv)

lemma loop_check_pos: "0 < aspath_loop_check (Some p) a \<longleftrightarrow> a \<in> set (asns (segments p))"
  by (simp add: aspath_loop_check_def loop_count_pos)

lemma pack_next_hops:
  assumes "pack_next pin segs = (p, rest)" "length (seg_as pin @ asns segs) < 2 ^ 16"
  shows "count_hops (p # rest) = count_hops (pin # segs)" "length (p # rest) \<le> length (pin # segs)"
    "length (asns (p # rest)) = length (asns (pin # segs))"
proof -
  show "count_hops (p # rest) = count_hops (pin # segs)"
    using assms
  proof (induction pin segs arbitrary: p rest rule: pack_next.induct)
    case (2 pin seg segs)
    show ?case
    proof (cases "ASSEGMENT_TYPES_PACKABLE pin seg")
      case True
      have pk: "pack_next (assegment_append_asns pin (seg_as seg)) segs = (p, rest)" using 2(2) True by simp
      have sm: "seg_len pin + seg_len seg < 2 ^ 16" using 2(3) by simp
      then have "length (seg_as (assegment_append_asns pin (seg_as seg)) @ asns segs) < 2 ^ 16" using 2(3) by simp
      from 2(1) [OF True pk this] have "count_hops (p # rest) = count_hops (assegment_append_asns pin (seg_as seg) # segs)" .
      moreover have "is_seq pin" "is_seq seg" using True by (auto simp: ASSEGMENT_TYPES_PACKABLE_def)
      ultimately show ?thesis using sm by simp
    next
      case False
      then show ?thesis using 2(2) by auto
    qed
  qed simp
  show "length (p # rest) \<le> length (pin # segs)" using pack_next_length [of pin segs] assms(1) by simp
  show "length (asns (p # rest)) = length (asns (pin # segs))" using arg_cong [OF pack_next_asns [OF assms], of length] by simp
qed

lemma sort_segment_hops: "count_hops (sort_segment seg # segs) = count_hops (seg # segs)"
  by (simp add: sort_segment_def)

lemma normalise_measures:
  "length (asns segs) < 2 ^ 16 \<Longrightarrow> count_hops (assegment_normalise segs) = count_hops segs \<and>
    length (assegment_normalise segs) \<le> length segs \<and> length (asns (assegment_normalise segs)) \<le> length (asns segs)"
proof (induction segs rule: assegment_normalise.induct)
  case (2 seg segs)
  obtain p rest where pk: "pack_next (sort_segment seg) segs = (p, rest)" by fastforce
  have l: "length (seg_as (sort_segment seg) @ asns segs) \<le> length (asns (seg # segs))"
    using length_sort_segment [of seg] by simp
  then have small: "length (seg_as (sort_segment seg) @ asns segs) < 2 ^ 16" using 2(2) by linarith
  note m = pack_next_hops [OF pk small]
  have "length (asns rest) < 2 ^ 16" using m(3) small by simp
  then have IH: "count_hops (assegment_normalise rest) = count_hops rest" "length (assegment_normalise rest) \<le> length rest"
      "length (asns (assegment_normalise rest)) \<le> length (asns rest)"
    using 2(1) pk by simp_all
  show ?case
    unfolding normalise_Cons [OF pk] using IH m l sort_segment_hops [of seg segs] by simp
qed simp

lemma normalise_types: "list_all seg_type_ok segs \<Longrightarrow> list_all seg_type_ok (assegment_normalise segs)"
proof (induction segs rule: assegment_normalise.induct)
  case (2 seg segs)
  obtain p rest where pk: "pack_next (sort_segment seg) segs = (p, rest)" by fastforce
  have "list_all seg_type_ok rest" using 2(2) pack_next_suffix [OF pk] by (auto simp: list_all_iff)
  then have "list_all seg_type_ok (assegment_normalise rest)" using 2(1) pk by simp
  moreover have "seg_type_ok p" using pack_next_type [OF pk] 2(2) by (simp add: seg_type_ok_def)
  ultimately show ?case by (simp add: pk)
qed simp

text \<open>A path that an operation made is normalised and gets its text.\<close>

lemma finish_path:
  assumes "length (asns segs) < 2 ^ 16" "length segs \<le> 2 ^ 16"
  shows "\<exists>r. aspath_str_update (p\<lparr>segments := assegment_normalise segs\<rparr>) = Some r \<and> segments r = assegment_normalise segs"
proof -
  have "text_bound (assegment_normalise segs) < 2 ^ 31"
    using normalise_measures [OF assms(1)] assms by (simp add: text_bound_def)
  then show ?thesis using make_str_text [of "p\<lparr>segments := assegment_normalise segs\<rparr>"] by (simp add: aspath_str_update_def)
qed

section \<open>Aggregation\<close>

lemma match_len_take: "take (match_len xs ys) xs = take (match_len xs ys) ys"
  by (induction xs ys rule: match_len.induct) auto

lemma match_len_le: "match_len xs ys \<le> length xs" "match_len xs ys \<le> length ys"
  by (induction xs ys rule: match_len.induct) auto

lemma match_len_all: "match_len xs ys = length xs \<Longrightarrow> length xs = length ys \<Longrightarrow> xs = ys"
  using match_len_take [of xs ys] by simp

lemma match_len_same [simp]: "match_len xs (xs @ ys) = length xs"
  by (induction xs) auto

lemma rest_asns_0 [simp]: "rest_asns 0 segs = asns segs"
  by (induction segs) auto

lemma leading_asns:
  "leading True 0 acc segs1 segs2 = (acc', r1, r2, m) \<Longrightarrow> list_all (\<lambda>seg. seg_len seg < 2 ^ 16) segs1 \<Longrightarrow>
   asns acc' @ rest_asns m r1 = asns acc @ asns segs1 \<and> asns acc' @ rest_asns m r2 = asns acc @ asns segs2 \<and>
   length acc' \<le> length acc + length segs1"
proof (induction segs1 arbitrary: acc segs2)
  case (Cons seg1 s1)
  show ?case
  proof (cases segs2)
    case Nil
    then show ?thesis using Cons.prems(1) by auto
  next
    case segs2: (Cons seg2 s2)
    define k where "k = match_len (seg_as seg1) (seg_as seg2)"
    define acc1 where "acc1 = (if k \<noteq> 0 then acc @ [assegment_append_asns (assegment_new (seg_type seg1)) (take k (seg_as seg1))] else acc)"
    have "length (take k (seg_as seg1)) < 2 ^ 16" using Cons.prems(2) by (simp add: min_less_iff_disj)
    then have a1: "asns acc1 = asns acc @ take k (seg_as seg1)" "length acc1 \<le> Suc (length acc)"
      unfolding acc1_def by (simp_all only: append_asns_new, simp_all)
    have tk: "take k (seg_as seg1) = take k (seg_as seg2)" unfolding k_def by (rule match_len_take)
    note step = Cons.prems(1) [unfolded segs2 leading.simps Let_def k_def [symmetric] acc1_def [symmetric]]
    show ?thesis
    proof (cases "seg_type seg1 = seg_type seg2 \<and> \<not> (k \<noteq> min (seg_len seg1) (seg_len seg2) \<or> k \<noteq> seg_len seg1 \<or> seg_len seg1 \<noteq> seg_len seg2)")
      case True
      then have "leading True 0 acc1 s1 s2 = (acc', r1, r2, m)" using step by (simp only: if_not_P if_True simp_thms)
      from Cons.IH [OF this] have "asns acc' @ rest_asns m r1 = asns acc1 @ asns s1" "asns acc' @ rest_asns m r2 = asns acc1 @ asns s2"
          "length acc' \<le> length acc1 + length s1" using Cons.prems(2) by simp_all
      moreover have "seg_as seg1 = seg_as seg2" "k = seg_len seg1" using True by (auto simp: k_def intro: match_len_all)
      ultimately show ?thesis using a1 by (simp add: segs2)
    next
      case False
      then have "acc' = acc \<and> r1 = seg1 # s1 \<and> r2 = seg2 # s2 \<and> m = 0 \<or> acc' = acc1 \<and> r1 = seg1 # s1 \<and> r2 = seg2 # s2 \<and> m = k"
        using step by (auto simp only: prod.inject split: if_splits)
      moreover have "take k (seg_as seg1) @ drop k (seg_as seg2) = seg_as seg2" unfolding tk by simp
      ultimately show ?thesis using a1 by (auto simp: segs2)
    qed
  qed
qed auto

text \<open>Collecting numbers into the last segment.\<close>

definition set_len :: "assegment list \<Rightarrow> bool \<Rightarrow> nat" where
  "set_len segs asset = (if asset then seg_len (last segs) else 0)"

lemma seg_as_same: "\<exists>as. x = x\<lparr>seg_as := as\<rparr>"
  by (rule exI [of _ "seg_as x"]) simp

lemma set_add_spec:
  assumes "asset \<longrightarrow> segs \<noteq> []" "set_len segs asset + 1 < 2 ^ 16"
  shows "\<exists>segs'. aspath_aggregate_as_set_add segs asset a = Some (segs', True) \<and> segs' \<noteq> [] \<and>
    set (asns segs') = insert a (set (asns segs)) \<and> set_len segs' True \<le> set_len segs asset + 1 \<and>
    length (asns segs') \<le> length (asns segs) + 1 \<and> length segs' \<le> (if asset then length segs else Suc (length segs)) \<and>
    (\<not> asset \<longrightarrow> segs' = segs @ [\<lparr>seg_type = AS_SET, seg_as = [a]\<rparr>]) \<and>
    (asset \<longrightarrow> (\<exists>as. segs' = butlast segs @ [(last segs)\<lparr>seg_as := as\<rparr>]))"
proof (cases asset)
  case True
  then obtain xs x where segs: "segs = xs @ [x]" using assms(1) by (cases segs rule: rev_cases) auto
  show ?thesis using True assms(2) seg_as_same [of x] by (auto simp: aspath_aggregate_as_set_add_def segs list_ex_iff set_len_def)
qed (auto simp: aspath_aggregate_as_set_add_def set_len_def)

lemma add_asns_spec:
  assumes "asset \<longrightarrow> segs \<noteq> []" "set_len segs asset + length as < 2 ^ 16"
  shows "\<exists>segs'. add_asns segs asset as = Some (segs', asset \<or> as \<noteq> []) \<and> (asset \<or> as \<noteq> [] \<longrightarrow> segs' \<noteq> []) \<and>
    set (asns segs') = set (asns segs) \<union> set as \<and> set_len segs' (asset \<or> as \<noteq> []) \<le> set_len segs asset + length as \<and>
    length (asns segs') \<le> length (asns segs) + length as \<and> length segs' \<le> (if asset then length segs else Suc (length segs)) \<and>
    (\<not> asset \<longrightarrow> (if as = [] then segs' = segs else \<exists>as'. segs' = segs @ [\<lparr>seg_type = AS_SET, seg_as = as'\<rparr>])) \<and>
    (asset \<longrightarrow> (\<exists>as'. segs' = butlast segs @ [(last segs)\<lparr>seg_as := as'\<rparr>]))"
  using assms
proof (induction as arbitrary: segs asset)
  case Nil
  show ?case
  proof (cases asset)
    case True
    then obtain xs x where segs: "segs = xs @ [x]" using Nil(1) by (cases segs rule: rev_cases) auto
    show ?thesis using True seg_as_same [of x] by (auto simp: segs)
  qed auto
next
  case (Cons a as)
  have "set_len segs asset + 1 < 2 ^ 16" using Cons.prems(2) by simp
  from set_add_spec [OF Cons.prems(1) this] obtain segs1 where s1:
    "aspath_aggregate_as_set_add segs asset a = Some (segs1, True)" "segs1 \<noteq> []"
    "set (asns segs1) = insert a (set (asns segs))" "set_len segs1 True \<le> set_len segs asset + 1"
    "length (asns segs1) \<le> length (asns segs) + 1" "length segs1 \<le> (if asset then length segs else Suc (length segs))"
    "\<not> asset \<longrightarrow> segs1 = segs @ [\<lparr>seg_type = AS_SET, seg_as = [a]\<rparr>]"
    "asset \<longrightarrow> (\<exists>as. segs1 = butlast segs @ [(last segs)\<lparr>seg_as := as\<rparr>])" by blast
  have "set_len segs1 True + length as < 2 ^ 16" using s1(4) Cons.prems(2) by simp
  from Cons.IH [of True segs1, OF _ this] s1(2) obtain segs2 where s2:
    "add_asns segs1 True as = Some (segs2, True)" "segs2 \<noteq> []" "set (asns segs2) = set (asns segs1) \<union> set as"
    "set_len segs2 True \<le> set_len segs1 True + length as" "length (asns segs2) \<le> length (asns segs1) + length as"
    "length segs2 \<le> length segs1" "\<exists>as'. segs2 = butlast segs1 @ [(last segs1)\<lparr>seg_as := as'\<rparr>]" by auto
  have shape: "\<not> asset \<longrightarrow> (\<exists>as'. segs2 = segs @ [\<lparr>seg_type = AS_SET, seg_as = as'\<rparr>])"
      "asset \<longrightarrow> (\<exists>as'. segs2 = butlast segs @ [(last segs)\<lparr>seg_as := as'\<rparr>])"
    using s1(7,8) s2(7) by (cases asset; auto)+
  show ?case using s1 s2(1-6) shape by auto
qed

lemma asns_le: "seg \<in> set segs \<Longrightarrow> seg_len seg \<le> length (asns segs)"
  by (induction segs) auto

text \<open>What \<^verbatim>\<open>aspath_aggregate\<close> collects: the common leading segments, and one set with the rest.\<close>

lemma aggregate_collect:
  assumes "length (asns segs1) + length (asns segs2) < 2 ^ 16" "leading True 0 [] segs1 segs2 = (acc, r1, r2, m)"
  shows "\<exists>acc1 asset1 acc2 asset2. add_asns acc False (rest_asns m r1) = Some (acc1, asset1) \<and>
    add_asns acc1 asset1 (rest_asns m r2) = Some (acc2, asset2) \<and> set (asns acc2) = set (asns segs1) \<union> set (asns segs2) \<and>
    length (asns acc2) < 2 ^ 16 \<and> length acc2 \<le> Suc (length segs1) \<and> (\<exists>as. acc2 = acc \<or> acc2 = acc @ [\<lparr>seg_type = AS_SET, seg_as = as\<rparr>])"
proof -
  have "list_all (\<lambda>seg. seg_len seg < 2 ^ 16) segs1" using assms(1) asns_le by (fastforce simp: list_all_iff)
  from leading_asns [OF assms(2) this] have l: "asns acc @ rest_asns m r1 = asns segs1" "asns acc @ rest_asns m r2 = asns segs2"
      "length acc \<le> length segs1" by simp_all
  have len: "length (asns acc) + length (rest_asns m r1) = length (asns segs1)" "length (asns acc) + length (rest_asns m r2) = length (asns segs2)"
    unfolding l(1,2) [symmetric] by simp_all
  have u: "set (asns acc) \<union> set (rest_asns m r1) = set (asns segs1)" "set (asns acc) \<union> set (rest_asns m r2) = set (asns segs2)"
    unfolding l(1,2) [symmetric] by simp_all
  have "set_len acc False + length (rest_asns m r1) < 2 ^ 16" using assms(1) len by (simp add: set_len_def)
  from add_asns_spec [OF _ this] obtain acc1 where a1:
    "add_asns acc False (rest_asns m r1) = Some (acc1, rest_asns m r1 \<noteq> [])" "rest_asns m r1 \<noteq> [] \<longrightarrow> acc1 \<noteq> []"
    "set (asns acc1) = set (asns acc) \<union> set (rest_asns m r1)" "set_len acc1 (rest_asns m r1 \<noteq> []) \<le> length (rest_asns m r1)"
    "length (asns acc1) \<le> length (asns acc) + length (rest_asns m r1)" "length acc1 \<le> Suc (length acc)"
    "if rest_asns m r1 = [] then acc1 = acc else \<exists>as'. acc1 = acc @ [\<lparr>seg_type = AS_SET, seg_as = as'\<rparr>]" by (auto simp: set_len_def)
  define asset1 where "asset1 = (rest_asns m r1 \<noteq> [])"
  have "set_len acc1 asset1 + length (rest_asns m r2) < 2 ^ 16" using a1(4) assms(1) len by (simp add: asset1_def)
  moreover have "asset1 \<longrightarrow> acc1 \<noteq> []" using a1(2) by (simp add: asset1_def)
  ultimately obtain acc2 where a2: "add_asns acc1 asset1 (rest_asns m r2) = Some (acc2, asset1 \<or> rest_asns m r2 \<noteq> [])"
    "set (asns acc2) = set (asns acc1) \<union> set (rest_asns m r2)" "length (asns acc2) \<le> length (asns acc1) + length (rest_asns m r2)"
    "length acc2 \<le> (if asset1 then length acc1 else Suc (length acc1))"
    "\<not> asset1 \<longrightarrow> (if rest_asns m r2 = [] then acc2 = acc1 else \<exists>as'. acc2 = acc1 @ [\<lparr>seg_type = AS_SET, seg_as = as'\<rparr>])"
    "asset1 \<longrightarrow> (\<exists>as'. acc2 = butlast acc1 @ [(last acc1)\<lparr>seg_as := as'\<rparr>])"
    using add_asns_spec [of asset1 acc1 "rest_asns m r2"] by blast
  have same: "acc1 = acc" if "\<not> asset1" using a1(7) that by (simp add: asset1_def)
  have more: "\<exists>as'. acc1 = acc @ [\<lparr>seg_type = AS_SET, seg_as = as'\<rparr>]" if asset1 using a1(7) that by (simp add: asset1_def)
  have "\<exists>as. acc2 = acc \<or> acc2 = acc @ [\<lparr>seg_type = AS_SET, seg_as = as\<rparr>]"
    using a2(5,6) same more by (cases asset1) (auto split: if_splits)
  moreover have "length acc2 \<le> Suc (length segs1)" using a2(4) a1(6) l(3) same by (cases asset1) auto
  moreover have "set (asns acc2) = set (asns segs1) \<union> set (asns segs2)" using a2(2) a1(3) u by auto
  ultimately show ?thesis using a1(1,5) a2(1,3) assms(1) len by (auto simp: asset1_def)
qed

abbreviation seq_seg :: "as_t list \<Rightarrow> assegment" where
  "seq_seg as \<equiv> \<lparr>seg_type = AS_SEQUENCE, seg_as = as\<rparr>"

abbreviation set_seg :: "as_t list \<Rightarrow> assegment" where
  "set_seg as \<equiv> \<lparr>seg_type = AS_SET, seg_as = as\<rparr>"

lemma leading_single:
  assumes "leading True 0 [] [seq_seg xs] [seq_seg ys] = (acc, r1, r2, m)" "length xs < 2 ^ 16"
  shows "acc = (if match_len xs ys = 0 then [] else [seq_seg (take (match_len xs ys) xs)])"
proof -
  have "length (take (match_len xs ys) xs) < 2 ^ 16" using assms(2) by (simp add: min_less_iff_disj)
  then have "assegment_append_asns (assegment_new AS_SEQUENCE) (take (match_len xs ys) xs) = seq_seg (take (match_len xs ys) xs)"
    by (rule append_asns_new)
  then show ?thesis using assms(1) by (auto simp: Let_def split: if_splits)
qed

lemma normalise_lead:
  "segs = [] \<or> \<not> is_seq (hd segs) \<Longrightarrow> assegment_normalise (seq_seg xs # segs) = seq_seg xs # assegment_normalise segs"
  by (cases segs) (auto simp: ASSEGMENT_TYPES_PACKABLE_def)

text \<open>C18: the aggregate of two paths has exactly the AS numbers of both, so that a loop is found in it if and only if it is found in
  one of them; it is in normal form; and of two sequences it keeps the longest common beginning in order.\<close>

theorem aspath_aggregate_members:
  assumes "length (asns (segments as1)) + length (asns (segments as2)) < 2 ^ 16" "length (segments as1) < 2 ^ 16"
  shows "\<exists>r. aspath_aggregate as1 as2 = Some r \<and> normal (segments r) \<and>
    (\<forall>a. 0 < aspath_loop_check (Some r) a \<longleftrightarrow> 0 < aspath_loop_check (Some as1) a \<or> 0 < aspath_loop_check (Some as2) a) \<and>
    (\<forall>xs ys. segments as1 = [\<lparr>seg_type = AS_SEQUENCE, seg_as = xs\<rparr>] \<and> segments as2 = [\<lparr>seg_type = AS_SEQUENCE, seg_as = ys\<rparr>] \<longrightarrow>
      take (length (longest_common_prefix xs ys)) (asns (segments r)) = longest_common_prefix xs ys)"
proof -
  obtain acc r1 r2 m where ld: "leading True 0 [] (segments as1) (segments as2) = (acc, r1, r2, m)" by (metis prod_cases4)
  from aggregate_collect [OF assms(1) ld] obtain acc1 asset1 acc2 asset2 as where ac:
    "add_asns acc False (rest_asns m r1) = Some (acc1, asset1)" "add_asns acc1 asset1 (rest_asns m r2) = Some (acc2, asset2)"
    "set (asns acc2) = set (asns (segments as1)) \<union> set (asns (segments as2))" "length (asns acc2) < 2 ^ 16"
    "length acc2 \<le> Suc (length (segments as1))" "acc2 = acc \<or> acc2 = acc @ [set_seg as]" by blast
  obtain r where r: "aspath_str_update (aspath_new\<lparr>segments := assegment_normalise acc2\<rparr>) = Some r" "segments r = assegment_normalise acc2"
    using finish_path [OF ac(4), of aspath_new] ac(5) assms(2) by auto
  have "aspath_aggregate as1 as2 = Some r" using ld ac(1,2) r(1) by (simp add: aspath_aggregate_def)
  moreover have "0 < aspath_loop_check (Some r) a \<longleftrightarrow> 0 < aspath_loop_check (Some as1) a \<or> 0 < aspath_loop_check (Some as2) a" for a
    unfolding loop_check_pos r(2) set_normalise [OF ac(4)] ac(3) by simp
  moreover have "take (length (longest_common_prefix xs ys)) (asns (segments r)) = longest_common_prefix xs ys"
    if sq: "segments as1 = [seq_seg xs]" "segments as2 = [seq_seg ys]" for xs ys
  proof -
    have lcp: "longest_common_prefix xs ys = take (match_len xs ys) xs"
      by (induction xs ys rule: match_len.induct) auto
    have "length xs < 2 ^ 16" using assms(1) sq by simp
    from leading_single [OF ld [unfolded sq] this] have acc: "acc = (if match_len xs ys = 0 then [] else [seq_seg (take (match_len xs ys) xs)])" .
    show ?thesis
    proof (cases "match_len xs ys = 0")
      case False
      then obtain segs where "acc2 = seq_seg (take (match_len xs ys) xs) # segs" "segs = [] \<or> \<not> is_seq (hd segs)"
        using ac(6) acc by auto
      then show ?thesis using match_len_le(1) [of xs ys] by (simp only: r(2) normalise_lead) (simp add: lcp min_absorb2)
    qed (simp add: lcp)
  qed
  ultimately show ?thesis using normalise_normal r(2) by auto
qed

theorem aspath_aggregate_members_witness:
  "\<exists>r. aspath_aggregate (aspath_new\<lparr>segments := [seq_seg [1, 2, 9]]\<rparr>) (aspath_new\<lparr>segments := [seq_seg [1, 2, 3, 4]]\<rparr>) = Some r \<and>
    0 < aspath_loop_check (Some r) 4 \<and> take (length [1 :: as_t, 2]) (asns (segments r)) = [1, 2]"
  using aspath_aggregate_members [of "aspath_new\<lparr>segments := [seq_seg [1, 2, 9]]\<rparr>" "aspath_new\<lparr>segments := [seq_seg [1, 2, 3, 4]]\<rparr>"]
  by (auto simp: aspath_new_def loop_check_pos)

text \<open>C38: \<^verbatim>\<open>aspath_aggregate_mpath\<close> reads past the end of a segment: for every pair of paths with the same number of hops of which one is a
  sequence and a set, and the other the same sequence with one more number.\<close>

theorem aspath_aggregate_mpath_overrun:
  assumes "segments p1 = [\<lparr>seg_type = AS_SEQUENCE, seg_as = xs\<rparr>, \<lparr>seg_type = AS_SET, seg_as = ys\<rparr>]"
    "segments p2 = [\<lparr>seg_type = AS_SEQUENCE, seg_as = xs @ [z]\<rparr>]"
  shows "aspath_count_hops p1 = aspath_count_hops p2 \<and> aspath_aggregate_mpath p1 p2 = None"
proof -
  obtain acc where ld: "leading False 0 [] (segments p1) (segments p2) = (acc, segments p1, segments p2, length xs)"
    by (auto simp: assms Let_def)
  have "mpath_loop acc (segments p1) (length xs) (segments p2) (length xs) = None"
    by (subst mpath_loop.simps) (simp add: assms mpath_side_def)
  then show ?thesis
    unfolding aspath_aggregate_mpath_def ld prod.case by (simp add: assms aspath_count_hops_def)
qed

theorem aspath_aggregate_mpath_overrun_witness:
  "aspath_aggregate_mpath (aspath_new\<lparr>segments := [seq_seg [10], set_seg [20]]\<rparr>) (aspath_new\<lparr>segments := [seq_seg [10, 30]]\<rparr>) = None"
  using aspath_aggregate_mpath_overrun [of "aspath_new\<lparr>segments := [seq_seg [10], set_seg [20]]\<rparr>" "[10]" "[20]"
    "aspath_new\<lparr>segments := [seq_seg [10, 30]]\<rparr>" 30] by simp

text \<open>One hop of two sequences of the same length.\<close>

definition mpath_hop :: "as_t \<Rightarrow> as_t \<Rightarrow> assegment" where
  "mpath_hop x y = (if x = y then seq_seg [x] else set_seg [x, y])"

lemma mpath_loop_sequences:
  assumes "length xs = length ys" "j < length xs"
  shows "mpath_loop acc [seq_seg xs] j [seq_seg ys] j = Some (acc @ map2 mpath_hop (drop j xs) (drop j ys))"
  using assms(2)
proof (induction "length xs - j" arbitrary: j acc)
  case (Suc d)
  have d: "drop j xs = xs ! j # drop (Suc j) xs" "drop j ys = ys ! j # drop (Suc j) ys"
    using Suc.prems assms(1) by (simp_all add: Cons_nth_drop_Suc)
  define rest where "rest as = (if Suc j \<ge> length xs then [] else [seq_seg as])" for as
  define j1 where "j1 = (if Suc j \<ge> length xs then 0 else Suc j)"
  have a: "mpath_side (acc, False) [seq_seg xs] j = Some ((acc @ [set_seg [xs ! j]], True), rest xs, j1)"
    using Suc.prems by (auto simp: mpath_side_def aspath_aggregate_as_set_add_def rest_def j1_def)
  have b: "mpath_side (acc @ [set_seg [xs ! j]], True) [seq_seg ys] j =
      Some ((acc @ [if xs ! j = ys ! j then set_seg [xs ! j] else set_seg [xs ! j, ys ! j]], True), rest ys, j1)"
    using Suc.prems assms(1) by (auto simp: mpath_side_def aspath_aggregate_as_set_add_def rest_def j1_def)
  have c: "mpath_close (acc @ [if xs ! j = ys ! j then set_seg [xs ! j] else set_seg [xs ! j, ys ! j]], True) =
      Some (acc @ [mpath_hop (xs ! j) (ys ! j)])"
    by (simp add: mpath_close_def mpath_hop_def)
  have step: "mpath_loop acc [seq_seg xs] j [seq_seg ys] j = mpath_loop (acc @ [mpath_hop (xs ! j) (ys ! j)]) (rest xs) j1 (rest ys) j1"
    by (subst mpath_loop.simps) (simp add: a b c)
  show ?case
  proof (cases "Suc j < length xs")
    case True
    then have "d = length xs - Suc j" using Suc.hyps(2) by simp
    from Suc.hyps(1) [OF this True] show ?thesis unfolding step using True by (simp add: rest_def j1_def d)
  next
    case False
    then show ?thesis unfolding step using assms(1) by (simp add: rest_def d mpath_loop.simps [of _ "[]"])
  qed
qed simp

lemma mpath_hops: "length xs = length ys \<Longrightarrow> count_hops (map2 mpath_hop xs ys) = length xs"
  "length xs = length ys \<Longrightarrow> set (asns (map2 mpath_hop xs ys)) = set xs \<union> set ys"
  "length xs = length ys \<Longrightarrow> length (asns (map2 mpath_hop xs ys)) \<le> 2 * length xs"
  by (induction xs ys rule: list_induct2) (auto simp: mpath_hop_def)

lemma mpath_collect:
  assumes "length xs = length ys" "2 * length xs < 2 ^ 16" "leading False 0 [] [seq_seg xs] [seq_seg ys] = (acc, r1, r2, m)"
  shows "\<exists>acc1. mpath_loop acc r1 m r2 m = Some acc1 \<and> count_hops acc1 = length xs \<and> set (asns acc1) = set xs \<union> set ys \<and>
    length (asns acc1) < 2 ^ 16 \<and> length acc1 \<le> Suc (length xs)"
proof -
  define k where "k = match_len xs ys"
  have tk: "take k xs = take k ys" unfolding k_def by (rule match_len_take)
  have k: "k \<le> length xs" unfolding k_def by (rule match_len_le)
  have "length (take k xs) < 2 ^ 16" using assms(2) by (simp add: min_less_iff_disj)
  then have new: "assegment_append_asns (assegment_new AS_SEQUENCE) (take k xs) = seq_seg (take k xs)" by (rule append_asns_new)
  have acc: "acc = (if k \<noteq> 0 then [seq_seg (take k xs)] else [])"
    using assms(3) new by (auto simp: Let_def k_def split: if_splits)
  show ?thesis
  proof (cases "k = length xs")
    case True
    then have "r1 = []" "r2 = []" using assms(1,3) by (auto simp: Let_def k_def split: if_splits)
    moreover have "xs = ys" using True tk assms(1) by simp
    ultimately show ?thesis using acc True assms(2) by (auto simp: mpath_loop.simps [of _ "[]"])
  next
    case False
    then have "r1 = [seq_seg xs]" "r2 = [seq_seg ys]" "m = k" using assms(1,3) by (auto simp: Let_def k_def split: if_splits)
    moreover have "k < length xs" using False k by simp
    ultimately have lp: "mpath_loop acc r1 m r2 m = Some (acc @ map2 mpath_hop (drop k xs) (drop k ys))"
      using mpath_loop_sequences [OF assms(1)] by simp
    have e: "length (drop k xs) = length (drop k ys)" using assms(1) by simp
    have u: "set (take k xs) \<union> set (drop k xs) = set xs" "set (take k xs) \<union> set (drop k ys) = set ys"
      using tk by (metis append_take_drop_id set_append)+
    have a: "count_hops acc = k" "set (asns acc) = set (take k xs)" "length (asns acc) = k" "length acc \<le> 1"
      using k by (auto simp: acc min_absorb2)
    have "count_hops (acc @ map2 mpath_hop (drop k xs) (drop k ys)) = length xs" using a(1) mpath_hops(1) [OF e] k by simp
    moreover have "set (asns (acc @ map2 mpath_hop (drop k xs) (drop k ys))) = set xs \<union> set ys"
      using a(2) mpath_hops(2) [OF e] u by auto
    moreover have "length (asns (acc @ map2 mpath_hop (drop k xs) (drop k ys))) < 2 ^ 16"
      using a(3) mpath_hops(3) [OF e] k assms(2) by simp
    ultimately show ?thesis using lp a(4) assms(1) by (auto simp: le_SucI)
  qed
qed

text \<open>For two sequences of the same length \<^verbatim>\<open>aspath_aggregate_mpath\<close> gives a path with as many hops and exactly the AS numbers of both.\<close>

theorem aspath_aggregate_mpath_hops:
  assumes "segments p1 = [\<lparr>seg_type = AS_SEQUENCE, seg_as = xs\<rparr>]" "segments p2 = [\<lparr>seg_type = AS_SEQUENCE, seg_as = ys\<rparr>]"
    "length xs = length ys" "2 * length xs < 2 ^ 16"
  shows "\<exists>r. aspath_aggregate_mpath p1 p2 = Some r \<and> aspath_count_hops r = length xs \<and>
    (\<forall>a. 0 < aspath_loop_check (Some r) a \<longleftrightarrow> a \<in> set xs \<or> a \<in> set ys)"
proof -
  obtain acc r1 r2 m where ld: "leading False 0 [] [seq_seg xs] [seq_seg ys] = (acc, r1, r2, m)" by (metis prod_cases4)
  from mpath_collect [OF assms(3,4) ld] obtain acc1 where ac: "mpath_loop acc r1 m r2 m = Some acc1" "count_hops acc1 = length xs"
    "set (asns acc1) = set xs \<union> set ys" "length (asns acc1) < 2 ^ 16" "length acc1 \<le> Suc (length xs)" by blast
  obtain r where r: "aspath_str_update (aspath_new\<lparr>segments := assegment_normalise acc1\<rparr>) = Some r" "segments r = assegment_normalise acc1"
    using finish_path [OF ac(4), of aspath_new] ac(5) assms(4) by auto
  have "aspath_aggregate_mpath p1 p2 = Some r" using assms(1,2) ld ac(1) r(1) by (simp add: aspath_aggregate_mpath_def del: leading.simps)
  then show ?thesis
    using normalise_measures [OF ac(4)] set_normalise [OF ac(4)] ac(2,3) r(2) by (simp add: aspath_count_hops_def loop_check_pos)
qed

theorem aspath_aggregate_mpath_hops_witness:
  "\<exists>r. aspath_aggregate_mpath (aspath_new\<lparr>segments := [seq_seg [1, 2]]\<rparr>) (aspath_new\<lparr>segments := [seq_seg [1, 3]]\<rparr>) = Some r \<and>
    aspath_count_hops r = 2 \<and> 0 < aspath_loop_check (Some r) 3"
  using aspath_aggregate_mpath_hops [of "aspath_new\<lparr>segments := [seq_seg [1, 2]]\<rparr>" "[1, 2]" "aspath_new\<lparr>segments := [seq_seg [1, 3]]\<rparr>" "[1, 3]"]
  by auto

section \<open>Paths of speakers with two octets\<close>

text \<open>A path whose text fits its length field, as every path of the table has it.\<close>

definition str_ok :: "aspath \<Rightarrow> bool" where
  "str_ok p \<longleftrightarrow> (\<exists>buf. as_str p = Some buf \<and> length buf < 2 ^ 16 - 1 \<and> str_len p = word_of_nat (length buf))"

lemma aspath_dup_ok:
  assumes "str_ok p"
  shows "\<exists>q. aspath_dup p = Some q \<and> segments q = segments p \<and> refcnt q = 0 \<and> as_str q = as_str p \<and> str_len q = str_len p"
proof -
  obtain buf where t: "as_str p = Some buf" "length buf < 2 ^ 16 - 1" "str_len p = word_of_nat (length buf)"
    using assms by (auto simp: str_ok_def)
  have u: "unat (str_len p) = length buf" unfolding t(3) using t(2) by (simp add: unat_of_nat take_bit_nat_eq_self)
  have b: "unat (str_len p + 1) = length buf + 1"
  proof -
    have "str_len p + 1 = word_of_nat (length buf + 1)" by (simp add: t(3) add.commute)
    moreover have "unat (word_of_nat (length buf + 1) :: u16) = length buf + 1"
      using t(2) by (simp add: unat_of_nat take_bit_nat_eq_self del: of_nat_add of_nat_Suc)
    ultimately show ?thesis by (simp only:)
  qed
  show ?thesis
  proof (cases "str_len p = 0")
    case True
    then have "buf = []" using u by simp
    then show ?thesis using t(1) True by (simp add: aspath_dup_def aspath_new_def)
  next
    case False
    then show ?thesis using t(1) b by (simp add: aspath_dup_def aspath_new_def)
  qed
qed

abbreviation no_confed :: "assegment \<Rightarrow> bool" where
  "no_confed seg \<equiv> is_seq seg \<or> seg_type seg = AS_SET"

lemma pack_next_confeds: "pack_next pin segs = (p, rest) \<Longrightarrow> count_confeds (p # rest) = count_confeds (pin # segs)"
proof (induction pin segs arbitrary: p rest rule: pack_next.induct)
  case (2 pin seg segs)
  show ?case
  proof (cases "ASSEGMENT_TYPES_PACKABLE pin seg")
    case True
    then have "seg_type pin = AS_SEQUENCE" "seg_type seg = AS_SEQUENCE" by (auto simp: ASSEGMENT_TYPES_PACKABLE_def)
    then show ?thesis using 2 True by (simp add: assegment_append_asns_def set_asns_def)
  qed (use 2 in simp)
qed simp

lemma sort_segment_confeds: "count_confeds (sort_segment seg # segs) = count_confeds (seg # segs)"
  by (simp add: sort_segment_def weed_dupes_def Let_def)

lemma normalise_confeds: "count_confeds (assegment_normalise segs) = count_confeds segs"
proof (induction segs rule: assegment_normalise.induct)
  case (2 seg segs)
  obtain p rest where pk: "pack_next (sort_segment seg) segs = (p, rest)" by fastforce
  have "count_confeds (p # rest) = count_confeds (seg # segs)" using pack_next_confeds [OF pk] sort_segment_confeds by simp
  then show ?case using 2 pk by (simp add: split_def)
qed simp

lemma count_confeds_append [simp]: "count_confeds (xs @ ys) = count_confeds xs + count_confeds ys"
  by (induction xs) auto

lemma no_confeds: "list_all no_confed segs \<Longrightarrow> count_confeds segs = 0"
  by (induction segs) auto

lemma no_confed_check: "\<not> some_confed segs \<Longrightarrow> \<forall>seg \<in> set segs. seg_type_ok seg \<Longrightarrow> list_all no_confed segs"
  by (induction segs) (auto simp: seg_type_ok_def split: if_splits)

text \<open>All hops, those inside of the confederation included.\<close>

abbreviation all_hops :: "assegment list \<Rightarrow> nat" where
  "all_hops segs \<equiv> count_hops segs + count_confeds segs"

lemma take_hops_spec:
  assumes "list_all seg_type_ok segs" "list_all (\<lambda>seg. seg_len seg < 2 ^ 16) segs"
  shows "\<exists>new. take_hops segs h c = Some new \<and> length (asns new) \<le> length (asns segs) \<and> length new \<le> length segs \<and>
    set (asns new) \<subseteq> set (asns segs) \<and> (0 < h \<and> segs \<noteq> [] \<longrightarrow> new \<noteq> []) \<and>
    (0 \<le> h \<and> h \<le> int (all_hops segs) \<longrightarrow> h \<le> int (all_hops new)) \<and>
    (list_all no_confed segs \<and> 0 \<le> h \<and> h \<le> int (count_hops segs) \<longrightarrow> int (count_hops new) = h)"
  using assms
proof (induction segs arbitrary: h c)
  case (Cons seg segs)
  show ?case
  proof (cases "h > 0")
    case True
    define len where "len = int (seg_len seg)"
    define h1 where "h1 = (if is_seq seg then h - len else if seg_type seg = AS_CONFED_SEQUENCE then (if h < len then 0 else h - len) else h - 1)"
    define cp where "cp = (if is_seq seg then min len h else len)"
    define new where "new = \<lparr>seg_type = seg_type seg, seg_as = take (nat cp) (seg_as seg)\<rparr>"
    have "length (take (nat cp) (seg_as seg)) < 2 ^ 16" using Cons.prems(2) by (simp add: min_less_iff_disj)
    then have nw: "assegment_append_asns (assegment_new (seg_type seg)) (take (nat cp) (seg_as seg)) = new"
      unfolding new_def by (rule append_asns_new)
    have ty: "seg_type seg \<in> {AS_SET, AS_SEQUENCE, AS_CONFED_SEQUENCE, AS_CONFED_SET}" using Cons.prems(1) by (simp add: seg_type_ok_def)
    have "cp \<le> len" by (simp add: cp_def)
    then have step: "take_hops (seg # segs) h c = map_option (\<lambda>r. new # r) (take_hops segs h1 cp)"
      using True ty nw by (auto simp: Let_def cp_def h1_def len_def min_def)
    obtain r where r: "take_hops segs h1 cp = Some r" "length (asns r) \<le> length (asns segs)" "length r \<le> length segs" "set (asns r) \<subseteq> set (asns segs)"
      "0 \<le> h1 \<and> h1 \<le> int (all_hops segs) \<longrightarrow> h1 \<le> int (all_hops r)"
      "list_all no_confed segs \<and> 0 \<le> h1 \<and> h1 \<le> int (count_hops segs) \<longrightarrow> int (count_hops r) = h1"
      using Cons.IH [of h1 cp] Cons.prems by auto
    have "h \<le> int (all_hops (new # r))" if "h \<le> int (all_hops (seg # segs))"
      using that r(5) True ty by (auto simp: new_def h1_def cp_def len_def split: if_splits)
    moreover have "int (count_hops (new # r)) = h" if "list_all no_confed (seg # segs)" "h \<le> int (count_hops (seg # segs))"
    proof (cases "0 \<le> h1")
      case True
      then show ?thesis using that r(6) \<open>h > 0\<close> by (auto simp: new_def h1_def cp_def len_def)
    next
      case False
      then have "r = []" using r(1) by (cases segs) auto
      then show ?thesis using that False \<open>h > 0\<close> by (auto simp: new_def h1_def cp_def len_def)
    qed
    ultimately show ?thesis using r(1-4) set_take_subset [of "nat cp" "seg_as seg"] unfolding step by (auto simp: new_def)
  qed simp
qed simp

text \<open>The path in front of which the hops go, and the path that comes out of it.\<close>

lemma reconcile_run:
  assumes "str_ok as4path" "take_hops (segments p) h 0 = Some new" "new \<noteq> []" "h \<noteq> 0"
    "h = (let d = int (aspath_count_hops p + aspath_count_confeds p) - int (aspath_count_hops as4path) in if d < 0 then int (aspath_count_hops p) else d)"
    "length (asns new) + length (asns (segments as4path)) < 2 ^ 16" "length new + length (segments as4path) \<le> 2 ^ 16"
  shows "\<exists>r. aspath_reconcile_as4 (Some p) as4path = Some (Some r) \<and> segments r = assegment_normalise (new @ segments as4path)"
proof -
  obtain q where q: "aspath_dup as4path = Some q" "segments q = segments as4path" using aspath_dup_ok [OF assms(1)] by auto
  define segs where "segs = new @ segments as4path"
  have sm: "length (asns segs) < 2 ^ 16" "length segs \<le> 2 ^ 16" using assms(6,7) by (simp_all add: segs_def)
  have "text_bound segs < 2 ^ 31" using sm by (simp add: text_bound_def)
  then obtain m where m: "aspath_str_update (q\<lparr>segments := segs\<rparr>) = Some m" "segments m = segs"
    using make_str_text [of "q\<lparr>segments := segs\<rparr>"] by (simp add: aspath_str_update_def)
  obtain r where r: "aspath_str_update (m\<lparr>segments := assegment_normalise segs\<rparr>) = Some r" "segments r = assegment_normalise segs"
    using finish_path [OF sm, of m] by auto
  have "aspath_reconcile_as4 (Some p) as4path = Some (Some r)"
    unfolding aspath_reconcile_as4_def option.case Let_def assms(5) [unfolded Let_def, symmetric] if_not_P [OF assms(4)] assms(2)
    using assms(3) q m r(1) by (simp add: aspath_merge_def segs_def)
  then show ?thesis using r(2) by (auto simp: segs_def)
qed

text \<open>C39: putting the path of an old speaker and its \<^verbatim>\<open>AS4_PATH\<close> together never fails, keeps every number of the \<^verbatim>\<open>AS4_PATH\<close> and adds
  none that is in neither path.  A path without confederation segments keeps its number of hops if the \<^verbatim>\<open>AS4_PATH\<close> is not longer, and otherwise has
  the hops of both.  Counted with the hops inside of the confederation, no path gets shorter if the \<^verbatim>\<open>AS4_PATH\<close> is not longer than it.\<close>

theorem aspath_reconcile_as4_hops:
  assumes "\<forall>seg \<in> set (segments p). seg_type_ok seg" "str_ok as4path"
    "length (asns (segments p)) + length (asns (segments as4path)) < 2 ^ 16" "length (segments p) + length (segments as4path) < 2 ^ 16"
  shows "\<exists>r. aspath_reconcile_as4 (Some p) as4path = Some (Some r) \<and>
    set (asns (segments as4path)) \<subseteq> set (asns (segments r)) \<and> set (asns (segments r)) \<subseteq> set (asns (segments p)) \<union> set (asns (segments as4path)) \<and>
    (\<not> aspath_confed_check (Some p) \<longrightarrow> aspath_count_hops r =
      (if aspath_count_hops as4path \<le> aspath_count_hops p then aspath_count_hops p else aspath_count_hops p + aspath_count_hops as4path)) \<and>
    (aspath_count_hops as4path \<le> aspath_count_hops p + aspath_count_confeds p \<longrightarrow>
      aspath_count_hops p + aspath_count_confeds p \<le> aspath_count_hops r + aspath_count_confeds r)"
proof -
  define d where "d = int (aspath_count_hops p + aspath_count_confeds p) - int (aspath_count_hops as4path)"
  define h where "h = (if d < 0 then int (aspath_count_hops p) else d)"
  have hdef: "h = (let d = int (aspath_count_hops p + aspath_count_confeds p) - int (aspath_count_hops as4path) in if d < 0 then int (aspath_count_hops p) else d)"
    by (simp add: h_def d_def)
  have h: "0 \<le> h" "h \<le> int (all_hops (segments p))" by (simp_all add: h_def d_def aspath_count_hops_def aspath_count_confeds_def)
  have nc: "list_all no_confed (segments p)" "aspath_count_confeds p = 0" if "\<not> aspath_confed_check (Some p)"
    using no_confed_check [of "segments p"] no_confeds [of "segments p"] that assms(1) by (auto simp: aspath_confed_check_def aspath_count_confeds_def)
  show ?thesis
  proof (cases "h = 0")
    case True
    obtain q where q: "aspath_dup as4path = Some q" "segments q = segments as4path" using aspath_dup_ok [OF assms(2)] by auto
    have "aspath_reconcile_as4 (Some p) as4path = Some (Some q)"
      unfolding aspath_reconcile_as4_def option.case Let_def hdef [unfolded Let_def, symmetric] if_P [OF True] by (simp add: q)
    then show ?thesis using q(2) True nc by (auto simp: h_def d_def aspath_count_hops_def aspath_count_confeds_def split: if_splits)
  next
    case False
    have ok: "list_all seg_type_ok (segments p)" using assms(1) by (simp add: list_all_iff)
    have "list_all (\<lambda>seg. seg_len seg < 2 ^ 16) (segments p)" using assms(3) asns_le by (fastforce simp: list_all_iff)
    note t = take_hops_spec [OF ok this, of h 0]
    have "segments p \<noteq> []" using False h by auto
    then obtain new where new: "take_hops (segments p) h 0 = Some new" "length (asns new) \<le> length (asns (segments p))" "length new \<le> length (segments p)"
      "set (asns new) \<subseteq> set (asns (segments p))" "new \<noteq> []" "h \<le> int (all_hops new)"
      "list_all no_confed (segments p) \<and> h \<le> int (count_hops (segments p)) \<longrightarrow> int (count_hops new) = h"
      using t h False by auto
    obtain r where r: "aspath_reconcile_as4 (Some p) as4path = Some (Some r)" "segments r = assegment_normalise (new @ segments as4path)"
      using reconcile_run [OF assms(2) new(1,5) False hdef] new(2,3) assms(3,4) by auto
    have sm: "length (asns (new @ segments as4path)) < 2 ^ 16" using new(2) assms(3) by simp
    have cnt: "aspath_count_hops r = count_hops new + aspath_count_hops as4path" "aspath_count_confeds r = count_confeds new + aspath_count_confeds as4path"
      using normalise_measures [OF sm] by (simp_all add: r(2) aspath_count_hops_def aspath_count_confeds_def normalise_confeds)
    have "aspath_count_hops r = (if aspath_count_hops as4path \<le> aspath_count_hops p then aspath_count_hops p else aspath_count_hops p + aspath_count_hops as4path)"
      if "\<not> aspath_confed_check (Some p)"
      using nc [OF that] new(7) cnt(1) by (auto simp: h_def d_def aspath_count_hops_def split: if_splits)
    moreover have "aspath_count_hops p + aspath_count_confeds p \<le> aspath_count_hops r + aspath_count_confeds r"
      if "aspath_count_hops as4path \<le> aspath_count_hops p + aspath_count_confeds p"
      using that new(6) cnt by (simp add: h_def d_def)
    ultimately show ?thesis using set_normalise [OF sm] new(4) r by auto
  qed
qed

theorem aspath_reconcile_as4_hops_witness:
  "\<exists>r. aspath_reconcile_as4 (Some (aspath_new\<lparr>segments := [seq_seg [10, 23456, 23456]]\<rparr>))
      \<lparr>refcnt = 0, segments = [seq_seg [70000, 80000]], as_str = Some ''70000 80000'', str_len = 11\<rparr> = Some (Some r) \<and>
    aspath_count_hops r = 3 \<and> {70000, 80000} \<subseteq> set (asns (segments r))"
  using aspath_reconcile_as4_hops [of "aspath_new\<lparr>segments := [seq_seg [10, 23456, 23456]]\<rparr>"
    "\<lparr>refcnt = 0, segments = [seq_seg [70000, 80000]], as_str = Some ''70000 80000'', str_len = 11\<rparr>"]
  by (auto simp: aspath_new_def str_ok_def aspath_count_hops_def aspath_confed_check_def seg_type_ok_def)

end
