(* ===== verification/Hash_Table.thy ===== *)
theory Hash_Table
  imports Quagga_Prelude "HOL-Library.Monad_Syntax" "HOL-Library.Multiset"
begin

text \<open>
  \<^verbatim>\<open>lib/hash.c\<close> and \<^verbatim>\<open>lib/jhash.c\<close>: chained hash tables that grow, and the hash functions.  The function pointers \<^verbatim>\<open>hash_key\<close> and
  \<^verbatim>\<open>hash_cmp\<close> of a table are arguments of its operations, since they read the objects the data points to; a
  chain of buckets is a list.  \<open>None\<close> is a failed assertion or an index outside of the table.  Allocation does not fail.
\<close>

section \<open>Tables\<close>

abbreviation HASH_INITIAL_SIZE :: u32 where "HASH_INITIAL_SIZE \<equiv> 256"

abbreviation HASH_THRESHOLD :: nat where "HASH_THRESHOLD \<equiv> 10"

record 'd hash_backet =
  hb_key :: u32
  hb_data :: 'd

record 'd hash =
  h_index :: "'d hash_backet list list"
  h_size :: u32
  h_no_expand :: bool
  h_count :: nat

definition hash_create_size :: "u32 \<Rightarrow> 'd hash option" where
  "hash_create_size n =
     (if n AND (n - 1) \<noteq> 0 then None
      else Some \<lparr>h_index = replicate (unat n) [], h_size = n, h_no_expand = False, h_count = 0\<rparr>)"

definition hash_create :: "'d hash option" where
  "hash_create = hash_create_size HASH_INITIAL_SIZE"

definition hash_alloc_intern :: "'d \<Rightarrow> 'd option" where
  "hash_alloc_intern arg = Some arg"

fun rehash :: "u32 \<Rightarrow> 'd hash_backet list \<Rightarrow> 'd hash_backet list list \<Rightarrow> 'd hash_backet list list option" where
  "rehash new_size [] new_index = Some new_index"
| "rehash new_size (hb # hbs) new_index =
     (let h = unat (hb_key hb AND (new_size - 1)) in
      if h \<ge> length new_index then None
      else rehash new_size hbs (new_index[h := hb # new_index ! h]))"

text \<open>Counting the buckets beyond half of the threshold, and noticing a chain that reaches it.\<close>

fun chain_stats :: "'d hash_backet list \<Rightarrow> nat \<Rightarrow> nat \<times> bool \<Rightarrow> nat \<times> bool" where
  "chain_stats [] len st = st"
| "chain_stats (hb # hbs) len (losers, no_expand) =
     (let len1 = len + 1 in
      chain_stats hbs len1 (if len1 > HASH_THRESHOLD div 2 then losers + 1 else losers, no_expand \<or> len1 \<ge> HASH_THRESHOLD))"

fun index_stats :: "'d hash_backet list list \<Rightarrow> nat \<times> bool \<Rightarrow> nat \<times> bool" where
  "index_stats [] st = st"
| "index_stats (c # cs) st = index_stats cs (chain_stats c 0 st)"

definition hash_expand :: "'d hash \<Rightarrow> 'd hash option" where
  "hash_expand h =
     (let new_size = h_size h * 2 in do {
      new_index \<leftarrow> rehash new_size (concat (h_index h)) (replicate (unat new_size) []);
      let (losers, no_expand) = index_stats new_index (0, h_no_expand h);
      Some (h\<lparr>h_index := new_index, h_size := new_size,
              h_no_expand := (if losers > h_count h div 2 then True else no_expand)\<rparr>) })"

fun find_backet :: "('d \<Rightarrow> 'd \<Rightarrow> bool) \<Rightarrow> u32 \<Rightarrow> 'd \<Rightarrow> 'd hash_backet list \<Rightarrow> 'd option" where
  "find_backet hash_cmp key data [] = None"
| "find_backet hash_cmp key data (b # bs) =
     (if hb_key b = key \<and> hash_cmp (hb_data b) data then Some (hb_data b) else find_backet hash_cmp key data bs)"

definition hash_index :: "'d hash \<Rightarrow> u32 \<Rightarrow> nat option" where
  "hash_index h key = (let i = unat (key AND (h_size h - 1)) in if i < length (h_index h) then Some i else None)"

definition hash_get :: "('d \<Rightarrow> u32) \<Rightarrow> ('d \<Rightarrow> 'd \<Rightarrow> bool) \<Rightarrow> ('d \<Rightarrow> 'd option) option \<Rightarrow> 'd \<Rightarrow> 'd hash \<Rightarrow> ('d option \<times> 'd hash) option" where
  "hash_get hash_key hash_cmp alloc_func data h =
     (let key = hash_key data in do {
      i \<leftarrow> hash_index h key;
      case find_backet hash_cmp key data (h_index h ! i) of
        Some d \<Rightarrow> Some (Some d, h)
      | None \<Rightarrow>
          (case alloc_func of
             None \<Rightarrow> Some (None, h)
           | Some alloc \<Rightarrow>
               (case alloc data of
                  None \<Rightarrow> Some (None, h)
                | Some newdata \<Rightarrow> do {
                    h1 \<leftarrow> if length (h_index h ! i) > HASH_THRESHOLD \<and> \<not> h_no_expand h then hash_expand h else Some h;
                    j \<leftarrow> hash_index h1 key;
                    Some (Some newdata,
                      h1\<lparr>h_index := (h_index h1)[j := \<lparr>hb_key = key, hb_data = newdata\<rparr> # h_index h1 ! j],
                         h_count := h_count h1 + 1\<rparr>) })) })"

definition hash_lookup :: "('d \<Rightarrow> u32) \<Rightarrow> ('d \<Rightarrow> 'd \<Rightarrow> bool) \<Rightarrow> 'd \<Rightarrow> 'd hash \<Rightarrow> ('d option \<times> 'd hash) option" where
  "hash_lookup hash_key hash_cmp data h = hash_get hash_key hash_cmp None data h"

fun release_chain :: "('d \<Rightarrow> 'd \<Rightarrow> bool) \<Rightarrow> u32 \<Rightarrow> 'd \<Rightarrow> 'd hash_backet list \<Rightarrow> ('d \<times> 'd hash_backet list) option" where
  "release_chain hash_cmp key data [] = None"
| "release_chain hash_cmp key data (b # bs) =
     (if hb_key b = key \<and> hash_cmp (hb_data b) data then Some (hb_data b, bs)
      else map_option (\<lambda>(d, cs). (d, b # cs)) (release_chain hash_cmp key data bs))"

definition hash_release :: "('d \<Rightarrow> u32) \<Rightarrow> ('d \<Rightarrow> 'd \<Rightarrow> bool) \<Rightarrow> 'd \<Rightarrow> 'd hash \<Rightarrow> ('d option \<times> 'd hash) option" where
  "hash_release hash_key hash_cmp data h =
     (let key = hash_key data in do {
      i \<leftarrow> hash_index h key;
      case release_chain hash_cmp key data (h_index h ! i) of
        None \<Rightarrow> Some (None, h)
      | Some (d, bs) \<Rightarrow> Some (Some d, h\<lparr>h_index := (h_index h)[i := bs], h_count := h_count h - 1\<rparr>) })"

text \<open>Visiting all buckets, with a function that does not change the table, and freeing all data.\<close>

definition hash_iterate :: "('d hash_backet \<Rightarrow> 's \<Rightarrow> 's) \<Rightarrow> 'd hash \<Rightarrow> 's \<Rightarrow> 's" where
  "hash_iterate func h s = fold func (concat (h_index h)) s"

definition hash_clean :: "('d \<Rightarrow> 's \<Rightarrow> 's) option \<Rightarrow> 'd hash \<Rightarrow> 's \<Rightarrow> 'd hash \<times> 's" where
  "hash_clean free_func h s =
     (h\<lparr>h_index := map (\<lambda>_. []) (h_index h), h_count := h_count h - length (concat (h_index h))\<rparr>,
      case free_func of None \<Rightarrow> s | Some f \<Rightarrow> fold (\<lambda>hb. f (hb_data hb)) (concat (h_index h)) s)"

section \<open>Hash functions\<close>

text \<open>The characters are signed.\<close>

fun string_hash_loop :: "u32 \<Rightarrow> u8 list \<Rightarrow> u32" where
  "string_hash_loop hash [] = hash"
| "string_hash_loop hash (c # cs) = string_hash_loop ((hash * 33) XOR scast c) cs"

definition string_hash_make :: "u8 list \<Rightarrow> u32" where
  "string_hash_make str = string_hash_loop 0 (takeWhile (\<lambda>c. c \<noteq> 0) str)"

abbreviation JHASH_GOLDEN_RATIO :: u32 where "JHASH_GOLDEN_RATIO \<equiv> 0x9e3779b9"

definition jhash_mix :: "u32 \<times> u32 \<times> u32 \<Rightarrow> u32 \<times> u32 \<times> u32" where
  "jhash_mix abc =
     (let (a, b, c) = abc;
          a = (a - b - c) XOR drop_bit 13 c; b = (b - c - a) XOR push_bit 8 a; c = (c - a - b) XOR drop_bit 13 b;
          a = (a - b - c) XOR drop_bit 12 c; b = (b - c - a) XOR push_bit 16 a; c = (c - a - b) XOR drop_bit 5 b;
          a = (a - b - c) XOR drop_bit 3 c; b = (b - c - a) XOR push_bit 10 a; c = (c - a - b) XOR drop_bit 15 b
      in (a, b, c))"

text \<open>The octet \<^verbatim>\<open>k[i]\<close> moved to the left; octets beyond the end are those whose case is not reached.\<close>

definition octet :: "u8 list \<Rightarrow> nat \<Rightarrow> nat \<Rightarrow> u32" where
  "octet k i s = (if i < length k then push_bit s (ucast (k ! i)) else 0)"

definition word_at :: "u8 list \<Rightarrow> nat \<Rightarrow> u32" where
  "word_at k i = octet k i 0 + octet k (i + 1) 8 + octet k (i + 2) 16 + octet k (i + 3) 24"

function jhash_loop :: "u8 list \<Rightarrow> u32 \<times> u32 \<times> u32 \<Rightarrow> u8 list \<times> u32 \<times> u32 \<times> u32" where
  "jhash_loop k abc =
     (if length k \<ge> 12
      then case abc of (a, b, c) \<Rightarrow> jhash_loop (drop 12 k) (jhash_mix (a + word_at k 0, b + word_at k 4, c + word_at k 8))
      else (k, abc))"
  by pat_completeness auto
termination by (relation "measure (\<lambda>(k, _). length k)") auto

declare jhash_loop.simps [simp del]

definition jhash :: "u8 list \<Rightarrow> u32 \<Rightarrow> u32" where
  "jhash key initval =
     (case jhash_loop key (JHASH_GOLDEN_RATIO, JHASH_GOLDEN_RATIO, initval) of
        (k, a, b, c) \<Rightarrow>
          snd (snd (jhash_mix
            (a + octet k 3 24 + octet k 2 16 + octet k 1 8 + octet k 0 0,
             b + octet k 7 24 + octet k 6 16 + octet k 5 8 + octet k 4 0,
             c + word_of_nat (length key) + octet k 10 24 + octet k 9 16 + octet k 8 8))))"

function jhash2_loop :: "u32 list \<Rightarrow> u32 \<times> u32 \<times> u32 \<Rightarrow> u32 list \<times> u32 \<times> u32 \<times> u32" where
  "jhash2_loop k abc =
     (if length k \<ge> 3
      then case abc of (a, b, c) \<Rightarrow> jhash2_loop (drop 3 k) (jhash_mix (a + k ! 0, b + k ! 1, c + k ! 2))
      else (k, abc))"
  by pat_completeness auto
termination by (relation "measure (\<lambda>(k, _). length k)") auto

declare jhash2_loop.simps [simp del]

definition jhash2 :: "u32 list \<Rightarrow> u32 \<Rightarrow> u32" where
  "jhash2 key initval =
     (case jhash2_loop key (JHASH_GOLDEN_RATIO, JHASH_GOLDEN_RATIO, initval) of
        (k, a, b, c) \<Rightarrow>
          snd (snd (jhash_mix
            (a + (if length k \<ge> 1 then k ! 0 else 0), b + (if length k = 2 then k ! 1 else 0), c + word_of_nat (length key) * 4))))"

definition jhash_3words :: "u32 \<Rightarrow> u32 \<Rightarrow> u32 \<Rightarrow> u32 \<Rightarrow> u32" where
  "jhash_3words a b c initval = snd (snd (jhash_mix (a + JHASH_GOLDEN_RATIO, b + JHASH_GOLDEN_RATIO, c + initval)))"

definition jhash_2words :: "u32 \<Rightarrow> u32 \<Rightarrow> u32 \<Rightarrow> u32" where
  "jhash_2words a b initval = jhash_3words a b 0 initval"

definition jhash_1word :: "u32 \<Rightarrow> u32 \<Rightarrow> u32" where
  "jhash_1word a initval = jhash_3words a 0 0 initval"

section \<open>Invariant\<close>

definition contents :: "'d hash \<Rightarrow> 'd list" where
  "contents h = map hb_data (concat (h_index h))"

text \<open>The size is a power of two below the largest one, and every bucket is in the chain of its key.\<close>

definition index_ok :: "u32 \<Rightarrow> 'd hash_backet list list \<Rightarrow> bool" where
  "index_ok n ix \<longleftrightarrow> length ix = unat n \<and> (\<forall>i < length ix. \<forall>b \<in> set (ix ! i). unat (hb_key b AND (n - 1)) = i)"

definition size_ok :: "u32 \<Rightarrow> bool" where
  "size_ok n \<longleftrightarrow> (\<exists>k \<le> 31. n = 2 ^ k)"

definition hash_ok :: "('d \<Rightarrow> bool) \<Rightarrow> ('d \<Rightarrow> u32) \<Rightarrow> ('d \<Rightarrow> 'd \<Rightarrow> bool) \<Rightarrow> 'd hash \<Rightarrow> bool" where
  "hash_ok valid hash_key hash_cmp h \<longleftrightarrow> size_ok (h_size h) \<and> index_ok (h_size h) (h_index h) \<and>
     (\<forall>b \<in> set (concat (h_index h)). valid (hb_data b) \<and> hb_key b = hash_key (hb_data b)) \<and>
     h_count h = length (contents h) \<and> distinct (contents h) \<and>
     (\<forall>d \<in> set (contents h). \<forall>e \<in> set (contents h). hash_cmp d e \<longrightarrow> d = e)"

lemma power_less_u32: "k \<le> 31 \<Longrightarrow> unat (2 ^ k :: u32) = 2 ^ k"
proof -
  assume "k \<le> 31"
  then have "(2 :: nat) ^ k < 2 ^ 32" by (intro power_strict_increasing) auto
  moreover have "(2 ^ k :: u32) = word_of_nat (2 ^ k)" by simp
  ultimately show ?thesis by (simp only: unat_of_nat) (simp add: take_bit_nat_eq_self)
qed

lemma key_index:
  assumes "size_ok n"
  shows "unat (key AND (n - 1)) < unat n"
proof -
  obtain k where k: "k \<le> 31" "n = 2 ^ k" using assms by (auto simp: size_ok_def)
  have "n - 1 = mask k" by (simp add: k(2) mask_eq_decr_exp)
  then have "key AND (n - 1) = take_bit k key" by (simp add: take_bit_eq_mask)
  then have "unat (key AND (n - 1)) = take_bit k (unat key)" by (simp add: unsigned_take_bit_eq)
  also have "\<dots> < 2 ^ k" by simp
  finally show ?thesis using k power_less_u32 by simp
qed

lemma size_ok_double: "size_ok n \<Longrightarrow> n < 2 ^ 31 \<Longrightarrow> size_ok (n * 2)"
proof -
  assume "size_ok n" and small: "n < 2 ^ 31"
  then obtain k where k: "k \<le> 31" "n = 2 ^ k" by (auto simp: size_ok_def)
  with small have "k \<noteq> 31" by auto
  then have "Suc k \<le> 31" using k(1) by simp
  moreover have "n * 2 = 2 ^ Suc k" by (simp add: k(2))
  ultimately show ?thesis unfolding size_ok_def by blast
qed

text \<open>Replacing one chain of the index.\<close>

lemma concat_update:
  assumes "i < length ix"
  shows "mset (concat (ix[i := c])) + mset (ix ! i) = mset (concat ix) + mset c"
  using assms
proof (induction ix arbitrary: i)
  case (Cons x ix)
  then show ?case by (cases i) (auto simp: ac_simps)
qed simp

lemma index_ok_update:
  assumes "index_ok n ix" "\<forall>b \<in> set c. unat (hb_key b AND (n - 1)) = i"
  shows "index_ok n (ix[i := c])"
proof (cases "i < length ix")
  case True
  then show ?thesis using assms by (auto simp: index_ok_def nth_list_update)
next
  case False
  then show ?thesis using assms(1) by (simp add: list_update_beyond)
qed

lemma rehash_spec:
  assumes "size_ok n" "index_ok n ix"
  shows "\<exists>ix'. rehash n bs ix = Some ix' \<and> index_ok n ix' \<and> mset (concat ix') = mset bs + mset (concat ix)"
  using assms(2)
proof (induction bs arbitrary: ix)
  case (Cons b bs)
  define j where "j = unat (hb_key b AND (n - 1))"
  define ix1 where "ix1 = ix[j := b # ix ! j]"
  have j: "j < length ix" using key_index [OF assms(1)] Cons.prems by (simp add: j_def index_ok_def)
  have "\<forall>c \<in> set (b # ix ! j). unat (hb_key c AND (n - 1)) = j" using Cons.prems j by (auto simp: index_ok_def j_def)
  then have "index_ok n ix1" unfolding ix1_def by (rule index_ok_update [OF Cons.prems])
  from Cons.IH [OF this] obtain ix2 where ix2: "rehash n bs ix1 = Some ix2" "index_ok n ix2" "mset (concat ix2) = mset bs + mset (concat ix1)"
    by blast
  have "mset (concat ix1) = add_mset b (mset (concat ix))" using concat_update [OF j, of "b # ix ! j"] by (simp add: ix1_def)
  then show ?case using ix2 j by (simp add: j_def [symmetric] ix1_def [symmetric] Let_def not_le)
qed simp

lemma index_ok_empty: "index_ok n (replicate (unat n) [])"
  by (simp add: index_ok_def)

lemma in_concat_nth: "b \<in> set (concat ix) \<longleftrightarrow> (\<exists>i < length ix. b \<in> set (ix ! i))"
  by (simp add: set_conv_nth [of ix]) blast

lemma set_contents: "set (contents h) = hb_data ` set (concat (h_index h))"
  by (simp add: contents_def)

lemma hash_ok_cong:
  assumes "hash_ok valid hk hc h" "size_ok (h_size h')" "index_ok (h_size h') (h_index h')"
    "mset (concat (h_index h')) = mset (concat (h_index h))" "h_count h' = h_count h"
  shows "hash_ok valid hk hc h'" "mset (contents h') = mset (contents h)"
proof -
  have m: "mset (contents h') = mset (contents h)" unfolding contents_def mset_map assms(4) ..
  then show "mset (contents h') = mset (contents h)" .
  have s: "set (concat (h_index h')) = set (concat (h_index h))" "set (contents h') = set (contents h)"
    using mset_eq_setD [OF assms(4)] mset_eq_setD [OF m] by simp_all
  show "hash_ok valid hk hc h'"
    unfolding hash_ok_def s using assms m mset_eq_imp_distinct_iff [OF m] mset_eq_length [OF m] by (simp add: hash_ok_def)
qed

text \<open>Only what the functions say of the data in the table matters.\<close>

lemma hash_ok_fun_cong:
  assumes ok: "hash_ok valid hk hc h"
    and data: "\<And>d. d \<in> set (contents h) \<Longrightarrow> valid' d \<and> hk' d = hk d"
    and cmp: "\<And>d e. d \<in> set (contents h) \<Longrightarrow> e \<in> set (contents h) \<Longrightarrow> hc' d e = hc d e"
  shows "hash_ok valid' hk' hc' h"
proof -
  have "valid' (hb_data b) \<and> hb_key b = hk' (hb_data b)" if b: "b \<in> set (concat (h_index h))" for b
  proof -
    have "hb_data b \<in> set (contents h)" using b unfolding set_contents by (rule imageI)
    moreover have "hb_key b = hk (hb_data b)" using ok b unfolding hash_ok_def by blast
    ultimately show ?thesis using data by simp
  qed
  moreover have "d = e" if "d \<in> set (contents h)" "e \<in> set (contents h)" "hc' d e" for d e
    using ok that cmp unfolding hash_ok_def by blast
  ultimately show ?thesis using ok unfolding hash_ok_def by blast
qed

lemma hash_expand_spec:
  assumes "hash_ok valid hk hc h" "h_size h < 2 ^ 31"
  shows "\<exists>h'. hash_expand h = Some h' \<and> hash_ok valid hk hc h' \<and> mset (contents h') = mset (contents h)"
proof -
  define n where "n = h_size h * 2"
  have n: "size_ok n" using assms size_ok_double by (auto simp: n_def hash_ok_def)
  obtain ix where ix: "rehash n (concat (h_index h)) (replicate (unat n) []) = Some ix" "index_ok n ix" "mset (concat ix) = mset (concat (h_index h))"
    using rehash_spec [OF n index_ok_empty, of "concat (h_index h)"] by auto
  obtain l e where le: "index_stats ix (0, h_no_expand h) = (l, e)" by fastforce
  define h' where "h' = h\<lparr>h_index := ix, h_size := n, h_no_expand := (if l > h_count h div 2 then True else e)\<rparr>"
  have "hash_expand h = Some h'" unfolding hash_expand_def Let_def n_def [symmetric] ix(1) by (simp add: le h'_def)
  moreover have "hash_ok valid hk hc h'" "mset (contents h') = mset (contents h)"
    using hash_ok_cong [OF assms(1), of h'] n ix(2,3) by (simp_all add: h'_def)
  ultimately show ?thesis by blast
qed

section \<open>The contract\<close>

text \<open>
  What a client owes: on its valid data, the comparison is an equivalence, and equivalent data has the same key.
  What it gets: the table is a set of data, at most one of each class.
\<close>

locale hash_client =
  fixes valid :: "'d \<Rightarrow> bool"
    and hash_key :: "'d \<Rightarrow> u32"
    and hash_cmp :: "'d \<Rightarrow> 'd \<Rightarrow> bool"
  assumes cmp_refl: "valid d \<Longrightarrow> hash_cmp d d"
    and cmp_sym: "valid d \<Longrightarrow> valid e \<Longrightarrow> hash_cmp d e \<Longrightarrow> hash_cmp e d"
    and cmp_trans: "valid d \<Longrightarrow> valid e \<Longrightarrow> valid f \<Longrightarrow> hash_cmp d e \<Longrightarrow> hash_cmp e f \<Longrightarrow> hash_cmp d f"
    and cmp_key: "valid d \<Longrightarrow> valid e \<Longrightarrow> hash_cmp d e \<Longrightarrow> hash_key d = hash_key e"
begin

abbreviation ok :: "'d hash \<Rightarrow> bool" where
  "ok \<equiv> hash_ok valid hash_key hash_cmp"

lemma index_of_key:
  assumes "ok h"
  shows "hash_index h key = Some (unat (key AND (h_size h - 1)))"
  using assms key_index [of "h_size h" key] by (simp add: hash_index_def Let_def hash_ok_def index_ok_def)

lemma valid_contents: "ok h \<Longrightarrow> d \<in> set (contents h) \<Longrightarrow> valid d"
  by (auto simp: hash_ok_def set_contents simp del: set_concat)

text \<open>Searching the chain of a key is searching the table.\<close>

lemma in_chain:
  assumes "ok h" "valid data" "d \<in> set (contents h)" "hash_cmp d data"
  shows "\<exists>b \<in> set (h_index h ! unat (hash_key data AND (h_size h - 1))). hb_key b = hash_key data \<and> hb_data b = d"
proof -
  obtain b where bc: "b \<in> set (concat (h_index h))" "d = hb_data b" using assms(3) unfolding set_contents by (rule imageE)
  then obtain i where b: "i < length (h_index h)" "b \<in> set (h_index h ! i)" "hb_data b = d"
    using iffD1 [OF in_concat_nth bc(1)] by auto
  from bc(1) have "valid d" "hb_key b = hash_key d" using assms(1) b(3) unfolding hash_ok_def by blast+
  then have key: "hb_key b = hash_key data" using cmp_key [of d data] assms(2,4) by simp
  have "unat (hb_key b AND (h_size h - 1)) = i" using b(1,2) assms(1) unfolding hash_ok_def index_ok_def by blast
  then have "b \<in> set (h_index h ! unat (hash_key data AND (h_size h - 1)))" using b(2) unfolding key by simp
  then show ?thesis using key b(3) by blast
qed

lemma chain_contents:
  assumes "ok h" "b \<in> set (h_index h ! unat (key AND (h_size h - 1)))"
  shows "hb_data b \<in> set (contents h)"
proof -
  have "unat (key AND (h_size h - 1)) < length (h_index h)"
    using assms(1) key_index [of "h_size h" key] by (simp add: hash_ok_def index_ok_def)
  then have "b \<in> set (concat (h_index h))" using assms(2) by (intro iffD2 [OF in_concat_nth] exI conjI)
  then show ?thesis by (simp add: set_contents del: set_concat)
qed

lemma find_some:
  "find_backet hash_cmp key data bs = Some d \<Longrightarrow> \<exists>b \<in> set bs. hb_data b = d \<and> hash_cmp d data"
  by (induction bs) (auto split: if_splits)

lemma find_none:
  "find_backet hash_cmp key data bs = None \<Longrightarrow> b \<in> set bs \<Longrightarrow> hb_key b = key \<Longrightarrow> \<not> hash_cmp (hb_data b) data"
  by (induction bs) (auto split: if_splits)

lemma find_table:
  assumes "ok h" "valid data"
  defines "bs \<equiv> h_index h ! unat (hash_key data AND (h_size h - 1))"
  shows "find_backet hash_cmp (hash_key data) data bs = Some d \<longleftrightarrow> d \<in> set (contents h) \<and> hash_cmp d data"
proof
  assume "find_backet hash_cmp (hash_key data) data bs = Some d"
  then show "d \<in> set (contents h) \<and> hash_cmp d data"
    using find_some [of "hash_key data" data bs d] chain_contents [OF assms(1), of _ "hash_key data"] by (auto simp: bs_def)
next
  assume d: "d \<in> set (contents h) \<and> hash_cmp d data"
  then obtain b where b: "b \<in> set bs" "hb_key b = hash_key data" "hb_data b = d"
    using in_chain [OF assms(1,2)] by (auto simp: bs_def)
  then obtain e where e: "find_backet hash_cmp (hash_key data) data bs = Some e"
    using find_none [of "hash_key data" data bs b] d by (cases "find_backet hash_cmp (hash_key data) data bs") auto
  then have "e \<in> set (contents h)" "hash_cmp e data"
    using find_some [of "hash_key data" data bs e] chain_contents [OF assms(1), of _ "hash_key data"] by (auto simp: bs_def)
  moreover have "valid d" "valid e" using d \<open>e \<in> set (contents h)\<close> valid_contents [OF assms(1)] by blast+
  ultimately have "hash_cmp e d" using d cmp_trans cmp_sym assms(2) by blast
  then show "find_backet hash_cmp (hash_key data) data bs = Some d"
    using e d \<open>e \<in> set (contents h)\<close> assms(1) by (auto simp: hash_ok_def)
qed

lemma get_present:
  assumes "ok h" "valid data" "d \<in> set (contents h)" "hash_cmp d data"
  shows "hash_get hash_key hash_cmp alloc data h = Some (Some d, h)"
  using find_table [OF assms(1,2), of d] assms(3,4) by (simp add: hash_get_def Let_def index_of_key [OF assms(1)])

lemma find_none_table:
  assumes "ok h" "valid data" "\<forall>d \<in> set (contents h). \<not> hash_cmp d data"
  shows "find_backet hash_cmp (hash_key data) data (h_index h ! unat (hash_key data AND (h_size h - 1))) = None"
  using find_table [OF assms(1,2)] assms(3) by (cases "find_backet hash_cmp (hash_key data) data (h_index h ! unat (hash_key data AND (h_size h - 1)))") auto

lemma lookup_absent:
  assumes "ok h" "valid data" "\<forall>d \<in> set (contents h). \<not> hash_cmp d data"
  shows "hash_lookup hash_key hash_cmp data h = Some (None, h)"
  by (simp add: hash_lookup_def hash_get_def Let_def index_of_key [OF assms(1)] find_none_table [OF assms])

text \<open>Putting a bucket in front of its chain.\<close>

lemma insert_ok:
  assumes "ok h" "valid nd" "hash_key nd = key" "\<forall>d \<in> set (contents h). \<not> hash_cmp d nd"
  defines "j \<equiv> unat (key AND (h_size h - 1))"
  defines "h' \<equiv> h\<lparr>h_index := (h_index h)[j := \<lparr>hb_key = key, hb_data = nd\<rparr> # h_index h ! j], h_count := h_count h + 1\<rparr>"
  shows "ok h'" "mset (contents h') = add_mset nd (mset (contents h))" "h_size h' = h_size h"
proof -
  have h: "size_ok (h_size h)" "index_ok (h_size h) (h_index h)" using assms(1) by (simp_all add: hash_ok_def)
  have j: "j < length (h_index h)" using key_index [OF h(1)] h(2) by (simp add: j_def index_ok_def)
  have m: "mset (concat (h_index h')) = add_mset \<lparr>hb_key = key, hb_data = nd\<rparr> (mset (concat (h_index h)))"
    using concat_update [OF j, of "\<lparr>hb_key = key, hb_data = nd\<rparr> # h_index h ! j"] by (simp add: h'_def)
  then show c: "mset (contents h') = add_mset nd (mset (contents h))" by (simp add: contents_def)
  show "h_size h' = h_size h" by (simp add: h'_def)
  have s: "set (concat (h_index h')) = insert \<lparr>hb_key = key, hb_data = nd\<rparr> (set (concat (h_index h)))"
      "set (contents h') = insert nd (set (contents h))"
    using arg_cong [OF m, of set_mset] arg_cong [OF c, of set_mset] by simp_all
  have "index_ok (h_size h) ((h_index h)[j := \<lparr>hb_key = key, hb_data = nd\<rparr> # h_index h ! j])"
    by (rule index_ok_update [OF h(2)]) (use h(2) j in \<open>auto simp: index_ok_def j_def\<close>)
  moreover have "h_count h' = length (contents h')" using assms(1) arg_cong [OF c, of size] by (simp add: h'_def hash_ok_def)
  moreover have nn: "nd \<notin> set (contents h)" using assms(4) cmp_refl [OF assms(2)] by blast
  then have "distinct (contents h')" using mset_eq_imp_distinct_iff [of "contents h'" "nd # contents h"] c assms(1) by (simp add: hash_ok_def)
  moreover have "\<not> hash_cmp nd d" if "d \<in> set (contents h)" for d
    using that assms(2,4) cmp_sym valid_contents [OF assms(1)] by blast
  ultimately show "ok h'"
    unfolding hash_ok_def s using assms(1-4) by (auto simp: h'_def hash_ok_def simp del: set_concat)
qed

lemma get_insert:
  assumes "ok h" "valid data" "\<forall>d \<in> set (contents h). \<not> hash_cmp d data" "alloc data = Some nd" "valid nd" "hash_cmp nd data"
    "h_size h < 2 ^ 31"
  shows "\<exists>h'. hash_get hash_key hash_cmp (Some alloc) data h = Some (Some nd, h') \<and> ok h' \<and> mset (contents h') = add_mset nd (mset (contents h))"
proof -
  define i where "i = unat (hash_key data AND (h_size h - 1))"
  define grow where "grow \<longleftrightarrow> length (h_index h ! i) > HASH_THRESHOLD \<and> \<not> h_no_expand h"
  obtain h1 where h1: "(if grow then hash_expand h else Some h) = Some h1" "ok h1" "mset (contents h1) = mset (contents h)"
    using hash_expand_spec [OF assms(1,7)] assms(1) by (cases grow) auto
  have key: "hash_key nd = hash_key data" using cmp_key assms(2,5,6) by simp
  have "\<not> hash_cmp d nd" if d: "d \<in> set (contents h1)" for d
  proof
    assume c: "hash_cmp d nd"
    have "d \<in> set (contents h)" using d mset_eq_setD [OF h1(3)] by simp
    moreover from this have "valid d" by (rule valid_contents [OF assms(1)])
    ultimately show False using assms(2,3,5,6) c cmp_trans by blast
  qed
  note ins = insert_ok [OF h1(2) assms(5) key ballI [OF this]]
  define j where "j = unat (hash_key data AND (h_size h1 - 1))"
  define h' where "h' = h1\<lparr>h_index := (h_index h1)[j := \<lparr>hb_key = hash_key data, hb_data = nd\<rparr> # h_index h1 ! j], h_count := h_count h1 + 1\<rparr>"
  have "hash_get hash_key hash_cmp (Some alloc) data h = Some (Some nd, h')"
    using find_none_table [OF assms(1-3)] h1(1)
    by (simp add: hash_get_def Let_def index_of_key [OF assms(1)] index_of_key [OF h1(2)] assms(4) i_def [symmetric] grow_def [symmetric]
        h'_def j_def)
  then show ?thesis using ins h1(3) by (auto simp: h'_def j_def)
qed

lemma release_found:
  "find_backet hash_cmp key data bs = Some d \<Longrightarrow>
   \<exists>b bs'. release_chain hash_cmp key data bs = Some (d, bs') \<and> hb_data b = d \<and> mset bs = add_mset b (mset bs')"
proof (induction bs)
  case (Cons a bs)
  then show ?case by (cases "hb_key a = key \<and> hash_cmp (hb_data a) data") auto
qed simp

lemma release_none: "find_backet hash_cmp key data bs = None \<Longrightarrow> release_chain hash_cmp key data bs = None"
  by (induction bs) (auto split: if_splits)

lemma release_absent:
  assumes "ok h" "valid data" "\<forall>d \<in> set (contents h). \<not> hash_cmp d data"
  shows "hash_release hash_key hash_cmp data h = Some (None, h)"
  by (simp add: hash_release_def Let_def index_of_key [OF assms(1)] release_none [OF find_none_table [OF assms]])

lemma release_present:
  assumes "ok h" "valid data" "d \<in> set (contents h)" "hash_cmp d data"
  shows "\<exists>h'. hash_release hash_key hash_cmp data h = Some (Some d, h') \<and> ok h' \<and> mset (contents h) = add_mset d (mset (contents h')) \<and> h_size h' = h_size h"
proof -
  define i where "i = unat (hash_key data AND (h_size h - 1))"
  have h: "size_ok (h_size h)" "index_ok (h_size h) (h_index h)" using assms(1) by (simp_all add: hash_ok_def)
  have i: "i < length (h_index h)" using key_index [OF h(1)] h(2) by (simp add: i_def index_ok_def)
  have "find_backet hash_cmp (hash_key data) data (h_index h ! i) = Some d"
    using find_table [OF assms(1,2)] assms(3,4) by (simp add: i_def)
  from release_found [OF this] obtain b bs where rel: "release_chain hash_cmp (hash_key data) data (h_index h ! i) = Some (d, bs)"
    "hb_data b = d" "mset (h_index h ! i) = add_mset b (mset bs)" by blast
  define h' where "h' = h\<lparr>h_index := (h_index h)[i := bs], h_count := h_count h - 1\<rparr>"
  have m: "mset (concat (h_index h)) = add_mset b (mset (concat (h_index h')))"
    using concat_update [OF i, of bs] rel(3) by (simp add: h'_def)
  then have c: "mset (contents h) = add_mset d (mset (contents h'))" using rel(2) by (simp add: contents_def)
  have s: "set (concat (h_index h')) \<subseteq> set (concat (h_index h))" "set (contents h') \<subseteq> set (contents h)"
    using arg_cong [OF m, of set_mset] arg_cong [OF c, of set_mset] by auto
  have "set bs \<subseteq> set (h_index h ! i)" using arg_cong [OF rel(3), of set_mset] by auto
  then have "index_ok (h_size h) ((h_index h)[i := bs])"
    by (intro index_ok_update [OF h(2)]) (use h(2) i in \<open>auto simp: index_ok_def\<close>)
  moreover have "h_count h' = length (contents h')" using assms(1) arg_cong [OF c, of size] by (simp add: h'_def hash_ok_def)
  moreover have "distinct (contents h')"
    using mset_eq_imp_distinct_iff [of "contents h" "d # contents h'"] c assms(1) by (simp add: hash_ok_def)
  ultimately have "ok h'" using assms(1) s unfolding hash_ok_def by (simp add: h'_def del: set_concat) blast
  moreover have "hash_release hash_key hash_cmp data h = Some (Some d, h')"
    using rel(1) by (simp add: hash_release_def Let_def index_of_key [OF assms(1)] i_def [symmetric] h'_def)
  ultimately show ?thesis using c by (simp add: h'_def)
qed

lemma clean_ok:
  assumes "ok h"
  shows "ok (fst (hash_clean free h s))" "contents (fst (hash_clean free h s)) = []"
proof -
  have e: "concat (map (\<lambda>_. []) xs) = ([] :: 'd hash_backet list)" for xs :: "'d hash_backet list list" by (induction xs) auto
  show c: "contents (fst (hash_clean free h s)) = []" by (simp add: hash_clean_def contents_def e)
  have "h_count h = length (concat (h_index h))" using assms unfolding hash_ok_def contents_def length_map by blast
  then show "ok (fst (hash_clean free h s))"
    using assms c unfolding hash_ok_def by (simp add: hash_clean_def e index_ok_def del: length_concat)
qed

lemma create_ok: "size_ok n \<Longrightarrow> \<exists>h. hash_create_size n = Some h \<and> ok h \<and> contents h = [] \<and> h_size h = n"
proof -
  assume n: "size_ok n"
  then obtain k where k: "k \<le> 31" "n = 2 ^ k" by (auto simp: size_ok_def)
  have "n AND (n - 1) = take_bit k n" unfolding k(2) by (simp add: take_bit_eq_mask mask_eq_decr_exp)
  also have "\<dots> = 0" unfolding k(2) by (simp add: take_bit_eq_mod)
  finally show ?thesis using n index_ok_empty [of n] by (simp add: hash_create_size_def hash_ok_def contents_def)
qed

end

section \<open>The hash function of words\<close>

text \<open>The octets of words, the low one first.\<close>

abbreviation le_octets :: "u32 list \<Rightarrow> u8 list" where
  "le_octets ws \<equiv> concat (map (\<lambda>w. rev (be32 w)) ws)"

lemma length_le_octets [simp]: "length (le_octets ws) = 4 * length ws"
  by (induction ws) auto

lemma push_ucast_u8: "push_bit s (ucast (b :: u8) :: u32) = word_of_nat (unat b * 2 ^ s)"
proof -
  have "(ucast b :: u32) = word_of_nat (unat b)" by (simp add: unsigned_of_nat [symmetric])
  then show ?thesis by (simp add: push_bit_eq_mult)
qed

lemma word_of_le_octets:
  assumes "rev (be32 w) = [k0, k1, k2, k3]"
  shows "(ucast k0 :: u32) + push_bit 8 (ucast k1) + push_bit 16 (ucast k2) + push_bit 24 (ucast k3) = w"
proof -
  have be: "be32 w = [k3, k2, k1, k0]" using arg_cong [OF assms, of rev] by simp
  have "be_val (be32 w) = unat w mod 2 ^ LENGTH(32)" by (simp add: be32_eq be_val_be_bytes)
  then have "be_val (be32 w) = unat w" using unsigned_less [of w, where ?'a = nat] by (simp only: mod_less)
  then have v: "unat k0 + unat k1 * 2 ^ 8 + unat k2 * 2 ^ 16 + unat k3 * 2 ^ 24 = unat w" unfolding be by simp
  have "(ucast k0 :: u32) = push_bit 0 (ucast k0)" by simp
  then have "(ucast k0 :: u32) + push_bit 8 (ucast k1) + push_bit 16 (ucast k2) + push_bit 24 (ucast k3) =
      word_of_nat (unat k0 + unat k1 * 2 ^ 8 + unat k2 * 2 ^ 16 + unat k3 * 2 ^ 24)"
    by (simp only: push_ucast_u8 of_nat_add power_0 mult_1_right)
  then show ?thesis unfolding v by simp
qed

lemma octets_of_word:
  obtains k0 k1 k2 k3 where "rev (be32 w) = [k0, k1, k2, k3]"
  by (rule that) (simp add: be32_def)

lemma nth_le_octets:
  assumes "i < length ws" "j < 4"
  shows "octet (le_octets ws) (4 * i + j) s = push_bit s (ucast (rev (be32 (ws ! i)) ! j))"
  using assms
proof (induction ws arbitrary: i)
  case (Cons w ws)
  then show ?case by (cases i) (auto simp: octet_def nth_append)
qed simp

lemma word_at_le_octets:
  assumes "i < length ws"
  shows "word_at (le_octets ws) (4 * i) = ws ! i"
proof -
  obtain k0 k1 k2 k3 where k: "rev (be32 (ws ! i)) = [k0, k1, k2, k3]" by (rule octets_of_word)
  then show ?thesis
    using nth_le_octets [OF assms, of 0] nth_le_octets [OF assms, of 1] nth_le_octets [OF assms, of 2] nth_le_octets [OF assms, of 3]
      word_of_le_octets [OF k]
    by (simp add: word_at_def)
qed

lemma word_at_beyond: "4 * length ws \<le> i \<Longrightarrow> word_at (le_octets ws) i = 0"
  by (simp add: word_at_def octet_def)

lemma drop_le_octets: "drop (4 * n) (le_octets ws) = le_octets (drop n ws)"
proof (induction n arbitrary: ws)
  case (Suc n)
  then show ?case by (cases ws) auto
qed simp

lemma jhash_loop_le_octets:
  "jhash_loop (le_octets ws) abc = (le_octets (fst (jhash2_loop ws abc)), snd (jhash2_loop ws abc)) \<and> length (fst (jhash2_loop ws abc)) < 3"
proof (induction ws abc rule: jhash2_loop.induct)
  case (1 ws abc)
  obtain a b c where abc: "abc = (a, b, c)" by (cases abc)
  show ?case
  proof (cases "length ws \<ge> 3")
    case True
    then have l: "0 < length ws" "1 < length ws" "2 < length ws" by linarith+
    have w: "word_at (le_octets ws) 0 = ws ! 0" "word_at (le_octets ws) 4 = ws ! 1" "word_at (le_octets ws) 8 = ws ! 2"
      using word_at_le_octets [OF l(1)] word_at_le_octets [OF l(2)] word_at_le_octets [OF l(3)] by simp_all
    have "drop 12 (le_octets ws) = le_octets (drop 3 ws)" using drop_le_octets [of 3 ws] by simp
    then show ?thesis using 1 [OF True abc [symmetric] refl] True w abc
      by (simp add: jhash_loop.simps [of "le_octets ws"] jhash2_loop.simps [of ws])
  next
    case False
    then show ?thesis by (simp add: jhash_loop.simps [of "le_octets ws"] jhash2_loop.simps [of ws])
  qed
qed

text \<open>C40: \<^verbatim>\<open>jhash2\<close>, the variant for an array of words, gives the hash that \<^verbatim>\<open>jhash\<close> gives for the octets of the array on a machine that
  stores the low octet first.\<close>

theorem jhash2_is_jhash:
  "jhash2 ws initval = jhash (concat (map (\<lambda>w. rev (be32 w)) ws)) initval"
proof -
  obtain k a b c where l: "jhash2_loop ws (JHASH_GOLDEN_RATIO, JHASH_GOLDEN_RATIO, initval) = (k, a, b, c)" by (metis prod_cases4)
  have j: "jhash_loop (le_octets ws) (JHASH_GOLDEN_RATIO, JHASH_GOLDEN_RATIO, initval) = (le_octets k, a, b, c)" "length k < 3"
    using jhash_loop_le_octets [of ws "(JHASH_GOLDEN_RATIO, JHASH_GOLDEN_RATIO, initval)"] l by simp_all
  have w0: "word_at (le_octets k) 0 = (if length k \<ge> 1 then k ! 0 else 0)"
    using word_at_le_octets [of 0 k] word_at_beyond [of k 0] by (cases k) auto
  have w4: "word_at (le_octets k) 4 = (if length k = 2 then k ! 1 else 0)"
    using word_at_le_octets [of 1 k] word_at_beyond [of k 4] j(2) by auto
  have o: "octet (le_octets k) 8 8 = 0" "octet (le_octets k) 9 16 = 0" "octet (le_octets k) 10 24 = 0"
    using j(2) by (simp_all add: octet_def)
  have A: "a + octet (le_octets k) 3 24 + octet (le_octets k) 2 16 + octet (le_octets k) 1 8 + octet (le_octets k) 0 0 = a + word_at (le_octets k) 0"
    by (simp add: word_at_def numeral_2_eq_2)
  have B: "b + octet (le_octets k) 7 24 + octet (le_octets k) 6 16 + octet (le_octets k) 5 8 + octet (le_octets k) 4 0 = b + word_at (le_octets k) 4"
    by (simp add: word_at_def)
  have "(word_of_nat (length (le_octets ws)) :: u32) = word_of_nat (length ws) * 4" by simp
  then show ?thesis
    unfolding jhash_def jhash2_def l j(1) prod.case o A B w0 w4 by (simp add: mult.commute)
qed

end
