(* ===== verification/Aspath_Intern.thy ===== *)
theory Aspath_Intern
  imports Aspath_Wire Aspath_Ops Hash_Table
begin

text \<open>
  The table of shared AS paths of \<^verbatim>\<open>bgpd/bgp_aspath.c\<close>.  A store maps the addresses of the paths to the paths, and the hash table
  \<^verbatim>\<open>ashash\<close> holds addresses.  An operation that allocates takes the address of the new object as an argument.  The table is an
  instance of the locale \<open>hash_client\<close>, with the key and the comparison that read the store.  \<open>as_reach\<close> has the states that a program gets
  into that makes, shares, reads and gives back paths, with the number of references it holds to each of them.
\<close>

section \<open>The table of AS paths\<close>

definition key_of :: "aspath \<Rightarrow> u32" where
  "key_of p = jhash (take (unat (str_len p)) (case as_str p of None \<Rightarrow> [] | Some s \<Rightarrow> map of_char s)) 2334325"

definition aspath_key_make :: "aspath \<Rightarrow> (u32 \<times> aspath) option" where
  "aspath_key_make p = do {
     q \<leftarrow> if as_str p = None then aspath_str_update p else Some p;
     Some (key_of q, q) }"

record as_table =
  as_mem :: "nat \<rightharpoonup> aspath"
  ashash :: "nat hash"

text \<open>
  The key and the comparison of the paths that two pointers refer to.  The invariant below says that the paths of the table are allocated and
  have their text, so \<^verbatim>\<open>aspath_key_make\<close> only reads it.
\<close>

definition ptr_key :: "(nat \<rightharpoonup> aspath) \<Rightarrow> nat \<Rightarrow> u32" where
  "ptr_key m a = (case m a of None \<Rightarrow> 0 | Some p \<Rightarrow> key_of p)"

definition ptr_cmp :: "(nat \<rightharpoonup> aspath) \<Rightarrow> nat \<Rightarrow> nat \<Rightarrow> bool" where
  "ptr_cmp m a b = (case (m a, m b) of (Some p, Some q) \<Rightarrow> aspath_cmp p q | _ \<Rightarrow> False)"

definition aspath_init :: "as_table option" where
  "aspath_init = map_option (\<lambda>h. \<lparr>as_mem = (\<lambda>_. None), ashash = h\<rparr>) (hash_create_size 32768)"

definition aspath_intern :: "nat \<Rightarrow> as_table \<Rightarrow> (nat \<times> as_table) option" where
  "aspath_intern a st = do {
     p \<leftarrow> as_mem st a;
     if refcnt p \<noteq> 0 then None
     else if as_str p = None then None
     else do {
       (find, h1) \<leftarrow> hash_get (ptr_key (as_mem st)) (ptr_cmp (as_mem st)) (Some hash_alloc_intern) a (ashash st);
       f \<leftarrow> find;
       let m = (if f \<noteq> a then (as_mem st)(a := None) else as_mem st) in do {
       q \<leftarrow> m f;
       Some (f, st\<lparr>as_mem := m(f \<mapsto> q\<lparr>refcnt := refcnt q + 1\<rparr>), ashash := h1\<rparr>) } } }"

text \<open>The pointer of the caller becomes null when the path is freed.\<close>

definition aspath_unintern :: "nat \<Rightarrow> as_table \<Rightarrow> (nat option \<times> as_table) option" where
  "aspath_unintern a st = do {
     p \<leftarrow> as_mem st a;
     let p1 = (if refcnt p \<noteq> 0 then p\<lparr>refcnt := refcnt p - 1\<rparr> else p);
         m = (as_mem st)(a \<mapsto> p1)
     in if refcnt p1 = 0 then do {
          (ret, h1) \<leftarrow> hash_release (ptr_key m) (ptr_cmp m) a (ashash st);
          if ret = None then None else Some (None, st\<lparr>as_mem := m(a := None), ashash := h1\<rparr>) }
        else Some (Some a, st\<lparr>as_mem := m\<rparr>) }"

definition aspath_hash_alloc :: "aspath \<Rightarrow> nat \<Rightarrow> nat option" where
  "aspath_hash_alloc p new = (if as_str p = None then None else Some new)"

text \<open>
  \<open>tmp\<close> is the address of the path on the stack, \<open>new\<close> that of the memory the allocation function asks for.  The inner \<open>None\<close> is a
  malformed path.
\<close>

definition aspath_parse :: "nat \<Rightarrow> nat \<Rightarrow> stream_t option \<Rightarrow> nat \<Rightarrow> bool \<Rightarrow> as_table \<Rightarrow>
    (nat option \<times> stream_t option \<times> as_table) option" where
  "aspath_parse tmp new s len use32bit st =
     (if len mod 2 \<noteq> 0 then Some (None, s, st)
      else do {
        (r, s1) \<leftarrow> assegments_parse s len use32bit;
        case r of
          None \<Rightarrow> Some (None, s1, st)
        | Some segs \<Rightarrow> do {
            (key, as) \<leftarrow> aspath_key_make (aspath_new\<lparr>segments := segs\<rparr>);
            let m = (as_mem st)(tmp \<mapsto> as, new \<mapsto> as\<lparr>refcnt := 0\<rparr>) in do {
            (find, h1) \<leftarrow> hash_get (ptr_key m) (ptr_cmp m) (Some (\<lambda>_. aspath_hash_alloc as new)) tmp (ashash st);
            f \<leftarrow> find;
            q \<leftarrow> m f;
            Some (Some f, s1, st\<lparr>as_mem := (as_mem st)(f \<mapsto> q\<lparr>refcnt := refcnt q + 1\<rparr>), ashash := h1\<rparr>) } } })"

definition aspath_empty :: "nat \<Rightarrow> nat \<Rightarrow> as_table \<Rightarrow> (nat option \<times> stream_t option \<times> as_table) option" where
  "aspath_empty tmp new st = aspath_parse tmp new None 0 True st"

definition aspath_count :: "as_table \<Rightarrow> nat" where
  "aspath_count st = h_count (ashash st)"

text \<open>Only the paths outside of the table are left.\<close>

definition aspath_finish :: "as_table \<Rightarrow> (nat \<rightharpoonup> aspath)" where
  "aspath_finish st = snd (hash_clean (Some (\<lambda>a m. m(a := None))) (ashash st) (as_mem st))"

section \<open>The contract of the hash table\<close>

lemma segment_eq:
  "x = y \<longleftrightarrow> seg_type x = seg_type y \<and> seg_len x = seg_len y \<and> \<not> list_ex (\<lambda>i. seg_as x ! i \<noteq> seg_as y ! i) [0..<seg_len x]"
proof -
  have "x = y \<longleftrightarrow> seg_type x = seg_type y \<and> seg_as x = seg_as y" by (cases x, cases y) simp
  also have "seg_as x = seg_as y \<longleftrightarrow> seg_len x = seg_len y \<and> (\<forall>i < seg_len x. seg_as x ! i = seg_as y ! i)"
    by (rule list_eq_iff_nth_eq)
  also have "(\<forall>i < seg_len x. seg_as x ! i = seg_as y ! i) \<longleftrightarrow> \<not> list_ex (\<lambda>i. seg_as x ! i \<noteq> seg_as y ! i) [0..<seg_len x]"
    by (auto simp: list_ex_iff)
  finally show ?thesis .
qed

lemma segments_cmp_eq: "segments_cmp xs ys \<longleftrightarrow> xs = ys"
proof (induction xs arbitrary: ys)
  case Nil
  show ?case by (cases ys) simp_all
next
  case (Cons x xs)
  show ?case
  proof (cases ys)
    case (Cons y ys')
    have "segments_cmp (x # xs) (y # ys') \<longleftrightarrow> x = y \<and> segments_cmp xs ys'"
      unfolding segments_cmp.simps segment_eq [of x y] by (simp only: if_bool_eq_conj simp_thms) blast
    then show ?thesis using Cons.IH [of ys'] Cons by simp
  qed simp
qed

lemma aspath_cmp_eq: "aspath_cmp p q \<longleftrightarrow> segments p = segments q"
  by (simp add: aspath_cmp_def segments_cmp_eq)

text \<open>The text is a function of the segments.\<close>

definition path_str :: "assegment list \<Rightarrow> (string option \<times> u16) option" where
  "path_str segs = map_option (\<lambda>q. (as_str q, str_len q)) (aspath_make_str_count (aspath_new\<lparr>segments := segs\<rparr>))"

lemma make_str_same:
  assumes "segments q = segments p"
  shows "aspath_make_str_count p = map_option (\<lambda>r. p\<lparr>as_str := as_str r, str_len := str_len r\<rparr>) (aspath_make_str_count q)"
proof (cases "segments p = []")
  case True
  then show ?thesis using assms by (simp add: aspath_make_str_count_def)
next
  case False
  define n where "n = max (nat (assegment_count_asns (segments p) 0) * 11 + 2 + 1) ASPATH_STR_DEFAULT_LEN"
  define r where "r = make_str_loop (segments p) n []"
  show ?thesis
    unfolding aspath_make_str_count_def Let_def assms n_def [symmetric] r_def [symmetric] if_not_P [OF False]
    by (cases "n \<ge> 2 ^ 31"; cases r; cases "the r"; auto)
qed

lemma str_update_eq: "aspath_str_update p = map_option (\<lambda>(s, l). p\<lparr>as_str := s, str_len := l\<rparr>) (path_str (segments p))"
  using make_str_same [of "aspath_new\<lparr>segments := segments p\<rparr>" p] by (simp add: aspath_str_update_def path_str_def option.map_comp comp_def)

definition text_ok :: "aspath \<Rightarrow> bool" where
  "text_ok p \<longleftrightarrow> as_str p \<noteq> None \<and> path_str (segments p) = Some (as_str p, str_len p)"

definition ptr_ok :: "(nat \<rightharpoonup> aspath) \<Rightarrow> nat \<Rightarrow> bool" where
  "ptr_ok m a \<longleftrightarrow> (\<exists>p. m a = Some p \<and> text_ok p)"

interpretation ash: hash_client "ptr_ok m" "ptr_key m" "ptr_cmp m" for m
proof unfold_locales
  fix d e assume "ptr_ok m d" "ptr_ok m e" "ptr_cmp m d e"
  then show "ptr_key m d = ptr_key m e"
    by (auto simp: ptr_ok_def ptr_cmp_def ptr_key_def aspath_cmp_eq text_ok_def key_of_def)
qed (auto simp: ptr_ok_def ptr_cmp_def aspath_cmp_eq)

text \<open>The table sees a path through its segments and its text only, and only those of the paths in it.\<close>

lemma hash_ok_agree:
  assumes "hash_ok (ptr_ok m) (ptr_key m) (ptr_cmp m) h"
    and "\<And>a p. a \<in> set (contents h) \<Longrightarrow> m a = Some p \<Longrightarrow> \<exists>q. m' a = Some q \<and> segments q = segments p \<and> as_str q = as_str p \<and> str_len q = str_len p"
  shows "hash_ok (ptr_ok m') (ptr_key m') (ptr_cmp m') h"
proof (rule hash_ok_fun_cong [OF assms(1)])
  have ok: "\<exists>p q. m x = Some p \<and> text_ok p \<and> m' x = Some q \<and> segments q = segments p \<and> as_str q = as_str p \<and> str_len q = str_len p"
    if "x \<in> set (contents h)" for x
    using ash.valid_contents [OF assms(1) that] assms(2) [OF that] by (auto simp: ptr_ok_def)
  show "ptr_ok m' a \<and> ptr_key m' a = ptr_key m a" if "a \<in> set (contents h)" for a
    using ok [OF that] by (auto simp: ptr_ok_def text_ok_def ptr_key_def key_of_def)
  show "ptr_cmp m' a b = ptr_cmp m a b" if "a \<in> set (contents h)" "b \<in> set (contents h)" for a b
    using ok [OF that(1)] ok [OF that(2)] by (auto simp: ptr_cmp_def aspath_cmp_eq)
qed

section \<open>Reachable tables\<close>

text \<open>
  \<open>refs\<close> counts the references that were given out and not given back.  A table with \<open>2 ^ 31\<close> chains does not grow any more; the
  steps that may add a path are taken below that size.  The length of an attribute has 16 bits.
\<close>

inductive as_reach :: "as_table \<Rightarrow> (nat \<Rightarrow> nat) \<Rightarrow> bool" where
  init: "aspath_init = Some st \<Longrightarrow> as_reach st (\<lambda>_. 0)"
| make: "as_reach st refs \<Longrightarrow> as_mem st a = None \<Longrightarrow> text_ok p \<Longrightarrow> refcnt p = 0 \<Longrightarrow> as_reach (st\<lparr>as_mem := (as_mem st)(a \<mapsto> p)\<rparr>) refs"
| free: "as_reach st refs \<Longrightarrow> as_mem st a = Some p \<Longrightarrow> refcnt p = 0 \<Longrightarrow> as_reach (st\<lparr>as_mem := (as_mem st)(a := None)\<rparr>) refs"
| intern: "as_reach st refs \<Longrightarrow> h_size (ashash st) < 2 ^ 31 \<Longrightarrow> aspath_intern a st = Some (f, st') \<Longrightarrow> as_reach st' (refs(f := refs f + 1))"
| unintern: "as_reach st refs \<Longrightarrow> 0 < refs a \<Longrightarrow> aspath_unintern a st = Some (r, st') \<Longrightarrow> as_reach st' (refs(a := refs a - 1))"
| parse: "as_reach st refs \<Longrightarrow> h_size (ashash st) < 2 ^ 31 \<Longrightarrow> as_mem st tmp = None \<Longrightarrow> as_mem st new = None \<Longrightarrow> tmp \<noteq> new \<Longrightarrow>
    (case s of None \<Rightarrow> len = 0 | Some x \<Rightarrow> stream_ok x) \<Longrightarrow> len < 2 ^ 16 \<Longrightarrow>
    aspath_parse tmp new s len use32bit st = Some (Some f, s', st') \<Longrightarrow> as_reach st' (refs(f := refs f + 1))"

definition as_inv :: "as_table \<Rightarrow> (nat \<Rightarrow> nat) \<Rightarrow> bool" where
  "as_inv st refs \<longleftrightarrow>
     hash_ok (ptr_ok (as_mem st)) (ptr_key (as_mem st)) (ptr_cmp (as_mem st)) (ashash st) \<and>
     (\<forall>a. a \<in> set (contents (ashash st)) \<longleftrightarrow> 0 < refs a) \<and>
     (\<forall>a. refs a = (case as_mem st a of None \<Rightarrow> 0 | Some p \<Rightarrow> refcnt p)) \<and>
     (\<forall>a p. as_mem st a = Some p \<longrightarrow> text_ok p)"

lemma text_ok_refcnt [simp]: "text_ok (p\<lparr>refcnt := n\<rparr>) = text_ok p"
  by (simp add: text_ok_def)

abbreviation table_ok :: "(nat \<rightharpoonup> aspath) \<Rightarrow> nat hash \<Rightarrow> bool" where
  "table_ok m \<equiv> hash_ok (ptr_ok m) (ptr_key m) (ptr_cmp m)"

lemma as_invD:
  assumes "as_inv st refs"
  shows "table_ok (as_mem st) (ashash st)" "a \<in> set (contents (ashash st)) \<longleftrightarrow> 0 < refs a"
    "as_mem st a = None \<Longrightarrow> refs a = 0" "as_mem st a = Some p \<Longrightarrow> refs a = refcnt p \<and> text_ok p"
  using assms unfolding as_inv_def by (auto split: option.splits)

lemma as_invI:
  assumes "table_ok m h" "\<And>a. a \<in> set (contents h) \<longleftrightarrow> 0 < refs a"
    "\<And>a. m a = None \<Longrightarrow> refs a = 0" "\<And>a p. m a = Some p \<Longrightarrow> refs a = refcnt p \<and> text_ok p"
  shows "as_inv \<lparr>as_mem = m, ashash = h\<rparr> refs"
  unfolding as_inv_def using assms by (simp split: option.split)

lemma as_table_eta: "st\<lparr>as_mem := m\<rparr> = \<lparr>as_mem = m, ashash = ashash st\<rparr>" "st\<lparr>as_mem := m, ashash := h\<rparr> = \<lparr>as_mem = m, ashash = h\<rparr>"
  by (cases st; simp)+

lemma inv_init: "aspath_init = Some st \<Longrightarrow> as_inv st (\<lambda>_. 0)"
proof -
  assume i: "aspath_init = Some st"
  have "size_ok (32768 :: u32)" unfolding size_ok_def by (rule exI [of _ 15]) simp
  from ash.create_ok [OF this, of "\<lambda>_. None"] obtain h where
    h: "hash_create_size 32768 = Some h" "table_ok (\<lambda>_. None) h" "contents h = []" by blast
  then have "st = \<lparr>as_mem = \<lambda>_. None, ashash = h\<rparr>" using i by (simp add: aspath_init_def)
  then show ?thesis using as_invI [OF h(2), of "\<lambda>_. 0"] h(3) by simp
qed

text \<open>A path outside of the table can be replaced or freed.\<close>

lemma inv_outside:
  assumes "as_inv st refs" "refs a = 0" "\<And>p. x = Some p \<Longrightarrow> text_ok p \<and> refcnt p = 0"
  shows "as_inv (st\<lparr>as_mem := (as_mem st)(a := x)\<rparr>) refs"
  unfolding as_table_eta
proof (rule as_invI)
  note inv = as_invD [OF assms(1)]
  have "a \<notin> set (contents (ashash st))" using inv(2) [of a] assms(2) by simp
  then show "table_ok ((as_mem st)(a := x)) (ashash st)"
    by (intro hash_ok_agree [OF inv(1)]) auto
  show "b \<in> set (contents (ashash st)) \<longleftrightarrow> 0 < refs b" for b by (rule inv(2))
  show "((as_mem st)(a := x)) b = None \<Longrightarrow> refs b = 0" for b using inv(3) [of b] assms(2) by (cases "b = a") simp_all
  show "((as_mem st)(a := x)) b = Some p \<Longrightarrow> refs b = refcnt p \<and> text_ok p" for b p
    using inv(4) [of b p] assms(2,3) by (cases "b = a") simp_all
qed

text \<open>Counting a reference of a path of the table.\<close>

lemma table_ok_refcnt:
  assumes "table_ok m h" "m f = Some q"
  shows "table_ok (m(f \<mapsto> q\<lparr>refcnt := n\<rparr>)) h"
proof (rule hash_ok_agree [OF assms(1)])
  fix a p assume "m a = Some p"
  then show "\<exists>r. (m(f \<mapsto> q\<lparr>refcnt := n\<rparr>)) a = Some r \<and> segments r = segments p \<and> as_str r = as_str p \<and> str_len r = str_len p"
    using assms(2) by (cases "a = f") auto
qed

text \<open>Looking a path up in the table, or putting it there.\<close>

lemma table_get:
  assumes "table_ok m h" "ptr_ok m a" "h_size h < 2 ^ 31" "alloc a = Some nd" "ptr_ok m nd" "ptr_cmp m nd a"
  shows "\<exists>f h'. hash_get (ptr_key m) (ptr_cmp m) (Some alloc) a h = Some (Some f, h') \<and> table_ok m h' \<and> ptr_cmp m f a \<and>
    (f \<in> set (contents h) \<and> h' = h \<or> f = nd \<and> (\<forall>d \<in> set (contents h). \<not> ptr_cmp m d a) \<and> set (contents h') = insert nd (set (contents h)))"
proof (cases "\<exists>d \<in> set (contents h). ptr_cmp m d a")
  case True
  then obtain d where "d \<in> set (contents h)" "ptr_cmp m d a" by blast
  then show ?thesis using ash.get_present [OF assms(1,2), of d "Some alloc"] assms(1) by blast
next
  case False
  then have "\<forall>d \<in> set (contents h). \<not> ptr_cmp m d a" by blast
  from ash.get_insert [OF assms(1,2) this, of alloc nd] assms(3-6) obtain h' where
    h': "hash_get (ptr_key m) (ptr_cmp m) (Some alloc) a h = Some (Some nd, h')" "table_ok m h'" "mset (contents h') = add_mset nd (mset (contents h))"
    by blast
  have "set (contents h') = insert nd (set (contents h))" using arg_cong [OF h'(3), of set_mset] by simp
  then show ?thesis using h'(1,2) False assms(6) by blast
qed

lemma inv_ref:
  assumes "as_inv \<lparr>as_mem = m, ashash = h\<rparr> refs" "table_ok m h'" "set (contents h') = insert f (set (contents h))" "m f = Some q"
  shows "as_inv \<lparr>as_mem = m(f \<mapsto> q\<lparr>refcnt := refcnt q + 1\<rparr>), ashash = h'\<rparr> (refs(f := refs f + 1))"
proof (rule as_invI)
  note inv = as_invD [OF assms(1), simplified]
  show "table_ok (m(f \<mapsto> q\<lparr>refcnt := refcnt q + 1\<rparr>)) h'" by (rule table_ok_refcnt [OF assms(2,4)])
  show "b \<in> set (contents h') \<longleftrightarrow> 0 < (refs(f := refs f + 1)) b" for b using inv(2) [of b] assms(3) by simp
  show "(m(f \<mapsto> q\<lparr>refcnt := refcnt q + 1\<rparr>)) b = None \<Longrightarrow> (refs(f := refs f + 1)) b = 0" for b
    using inv(3) [of b] by (cases "b = f") simp_all
  show "(m(f \<mapsto> q\<lparr>refcnt := refcnt q + 1\<rparr>)) b = Some p \<Longrightarrow> (refs(f := refs f + 1)) b = refcnt p \<and> text_ok p" for b p
    using inv(4) [of b p] inv(4) [of f q] assms(4) by (cases "b = f") auto
qed

lemma ptr_cmp_segments: "ptr_cmp m f a \<Longrightarrow> m a = Some p \<Longrightarrow> \<exists>q. m f = Some q \<and> segments q = segments p"
  by (auto simp: ptr_cmp_def aspath_cmp_eq split: option.splits)

lemma intern_spec:
  assumes "as_inv st refs" "as_mem st a = Some p" "refcnt p = 0" "h_size (ashash st) < 2 ^ 31"
  shows "\<exists>f st'. aspath_intern a st = Some (f, st') \<and> as_inv st' (refs(f := refs f + 1)) \<and>
    (\<exists>q. as_mem st' f = Some q \<and> segments q = segments p)"
proof -
  note inv = as_invD [OF assms(1)]
  define m h where "m = as_mem st" and "h = ashash st"
  have st: "st = \<lparr>as_mem = m, ashash = h\<rparr>" by (simp add: m_def h_def)
  have a: "refs a = 0" "text_ok p" using inv(4) [OF assms(2)] assms(3) by simp_all
  then have ok: "ptr_ok m a" "ptr_cmp m a a" "as_str p \<noteq> None"
    using assms(2) by (auto simp: ptr_ok_def ptr_cmp_def aspath_cmp_eq text_ok_def m_def)
  obtain f h' where get: "hash_get (ptr_key m) (ptr_cmp m) (Some hash_alloc_intern) a h = Some (Some f, h')" "table_ok m h'" "ptr_cmp m f a"
    "f \<in> set (contents h) \<and> h' = h \<or> f = a \<and> (\<forall>d \<in> set (contents h). \<not> ptr_cmp m d a) \<and> set (contents h') = insert a (set (contents h))"
    using table_get [of m h a hash_alloc_intern a] inv(1) ok assms(4) by (auto simp: m_def h_def hash_alloc_intern_def)
  obtain q where q: "m f = Some q" "segments q = segments p" using ptr_cmp_segments [OF get(3)] assms(2) by (auto simp: m_def)
  show ?thesis
  proof (cases "f = a")
    case True
    then have "set (contents h') = insert f (set (contents h))" using get(4) inv(2) [of a] a(1) by (auto simp: h_def)
    from inv_ref [OF assms(1) [unfolded st] get(2) this q(1)]
    have "as_inv \<lparr>as_mem = m(f \<mapsto> q\<lparr>refcnt := refcnt q + 1\<rparr>), ashash = h'\<rparr> (refs(f := refs f + 1))" .
    moreover have "aspath_intern a st = Some (f, \<lparr>as_mem = m(f \<mapsto> q\<lparr>refcnt := refcnt q + 1\<rparr>), ashash = h'\<rparr>)"
      using assms(2,3) ok(3) get(1) q(1) True by (simp add: aspath_intern_def st)
    ultimately show ?thesis using q(2) by auto
  next
    case False
    then have h': "h' = h" "f \<in> set (contents h)" using get(4) by auto
    have i1: "as_inv \<lparr>as_mem = m(a := None), ashash = h\<rparr> refs" using inv_outside [OF assms(1) a(1), of None] by (simp add: st)
    have "table_ok (m(a := None)) h'" using as_invD(1) [OF i1] h' by simp
    from inv_ref [OF i1 this, of f q] h' q(1) False
    have "as_inv \<lparr>as_mem = (m(a := None))(f \<mapsto> q\<lparr>refcnt := refcnt q + 1\<rparr>), ashash = h'\<rparr> (refs(f := refs f + 1))" by auto
    moreover have "aspath_intern a st = Some (f, \<lparr>as_mem = (m(a := None))(f \<mapsto> q\<lparr>refcnt := refcnt q + 1\<rparr>), ashash = h'\<rparr>)"
      using assms(2,3) ok(3) get(1) q(1) False by (simp add: aspath_intern_def st)
    ultimately show ?thesis using q(2) by auto
  qed
qed

lemma unintern_spec:
  assumes "as_inv st refs" "0 < refs a"
  shows "\<exists>r st'. aspath_unintern a st = Some (r, st') \<and> as_inv st' (refs(a := refs a - 1)) \<and> (r = None \<longleftrightarrow> refs a = 1) \<and>
    (as_mem st' a = None \<longleftrightarrow> refs a = 1)"
proof -
  note inv = as_invD [OF assms(1)]
  define m h where "m = as_mem st" and "h = ashash st"
  have st: "st = \<lparr>as_mem = m, ashash = h\<rparr>" by (simp add: m_def h_def)
  obtain p where p: "m a = Some p" "refcnt p = refs a" "text_ok p"
    using inv(3,4) [of a] assms(2) by (cases "m a") (auto simp: m_def)
  define m1 where "m1 = m(a \<mapsto> p\<lparr>refcnt := refs a - 1\<rparr>)"
  have t1: "table_ok m1 h" unfolding m1_def using table_ok_refcnt [OF inv(1)] p(1) by (simp add: m_def h_def)
  have mem: "b \<in> set (contents h) \<longleftrightarrow> 0 < refs b" for b using inv(2) by (simp add: h_def)
  show ?thesis
  proof (cases "refs a = 1")
    case False
    have "as_inv \<lparr>as_mem = m1, ashash = h\<rparr> (refs(a := refs a - 1))"
    proof (rule as_invI [OF t1])
      show "b \<in> set (contents h) \<longleftrightarrow> 0 < (refs(a := refs a - 1)) b" for b using mem [of b] False assms(2) by auto
      show "m1 b = None \<Longrightarrow> (refs(a := refs a - 1)) b = 0" for b using inv(3) [of b] by (auto simp: m1_def m_def split: if_splits)
      show "m1 b = Some q \<Longrightarrow> (refs(a := refs a - 1)) b = refcnt q \<and> text_ok q" for b q
        using inv(4) [of b q] p(3) by (auto simp: m1_def m_def split: if_splits)
    qed
    moreover have "aspath_unintern a st = Some (Some a, \<lparr>as_mem = m1, ashash = h\<rparr>)"
      using p False assms(2) by (simp add: aspath_unintern_def st m1_def)
    ultimately show ?thesis using False by (auto simp: m1_def)
  next
    case True
    have "ptr_ok m1 a" "ptr_cmp m1 a a" using p(3) by (auto simp: m1_def ptr_ok_def ptr_cmp_def aspath_cmp_eq)
    from ash.release_present [OF t1 this(1) _ this(2)] mem [of a] assms(2) obtain h' where
      rel: "hash_release (ptr_key m1) (ptr_cmp m1) a h = Some (Some a, h')" "table_ok m1 h'" "mset (contents h) = add_mset a (mset (contents h'))"
      by blast
    have "distinct (contents h)" using t1 by (simp add: hash_ok_def)
    then have "distinct (a # contents h')" using mset_eq_imp_distinct_iff [of "contents h" "a # contents h'"] rel(3) by simp
    then have c: "set (contents h') = set (contents h) - {a}" using arg_cong [OF rel(3), of set_mset] by auto
    have "as_inv \<lparr>as_mem = m1(a := None), ashash = h'\<rparr> (refs(a := refs a - 1))"
    proof (rule as_invI)
      show "table_ok (m1(a := None)) h'" by (rule hash_ok_agree [OF rel(2)]) (use c in auto)
      show "b \<in> set (contents h') \<longleftrightarrow> 0 < (refs(a := refs a - 1)) b" for b using mem [of b] c True by auto
      show "(m1(a := None)) b = None \<Longrightarrow> (refs(a := refs a - 1)) b = 0" for b
        using inv(3) [of b] True by (auto simp: m1_def m_def split: if_splits)
      show "(m1(a := None)) b = Some q \<Longrightarrow> (refs(a := refs a - 1)) b = refcnt q \<and> text_ok q" for b q
        using inv(4) [of b q] by (auto simp: m1_def m_def split: if_splits)
    qed
    moreover have "aspath_unintern a st = Some (None, \<lparr>as_mem = m1(a := None), ashash = h'\<rparr>)"
      using p True rel(1) by (simp add: aspath_unintern_def st m1_def)
    ultimately show ?thesis using True by auto
  qed
qed

text \<open>Reading a path from any packet.\<close>

lemma wire_size_bound: "2 * length (asns segs) + 2 * length segs \<le> wire_size u segs"
  by (induction segs) (auto simp: wire_size_def ASSEGMENT_SIZE_def)

lemma parse_segments_safe:
  assumes "case s of None \<Rightarrow> len = 0 | Some x \<Rightarrow> stream_ok x" "len < 2 ^ 16"
  shows "\<exists>r s'. assegments_parse s len u = Some (r, s') \<and> (s' = None \<longleftrightarrow> s = None) \<and> (\<forall>x. s' = Some x \<longrightarrow> stream_ok x) \<and>
    (\<forall>segs. r = Some segs \<longrightarrow> normal segs \<and> list_all seg_type_ok segs \<and> text_bound segs < 2 ^ 31)"
proof (cases "s = None \<or> len = 0")
  case True
  then have "len = 0" using assms(1) by auto
  then show ?thesis using assms(1) by (auto simp: assegments_parse_def normal_def text_bound_def split: option.splits)
next
  case False
  then obtain x where x: "s = Some x" "stream_ok x" "len \<noteq> 0" using assms(1) by auto
  show ?thesis
  proof (cases "STREAM_READABLE x < len \<or> STREAM_READABLE x < AS_HEADER_SIZE \<or> len mod 2 \<noteq> 0")
    case True
    then show ?thesis using x by (simp add: assegments_parse_def)
  next
    case False
    then have "len - 0 \<le> length (unread x)" using length_unread [OF x(2)] by (simp add: STREAM_READABLE_def)
    from parse_loop_safe [OF x(2) this, of u "[]"] obtain r x' where r: "parse_loop x len 0 u [] = Some (r, x')" "stream_ok x'"
      "\<And>segs. r = Some segs \<Longrightarrow> list_all seg_type_ok segs \<and> wire_size u segs \<le> len" by auto
    have "normal (assegment_normalise segs) \<and> list_all seg_type_ok (assegment_normalise segs) \<and> text_bound (assegment_normalise segs) < 2 ^ 31"
      if "r = Some segs" for segs
    proof -
      have "2 * length (asns segs) + 2 * length segs < 2 ^ 16" using r(3) [OF that] wire_size_bound [of segs u] assms(2) by linarith
      then show ?thesis
        using r(3) [OF that] normalise_measures [of segs] normalise_normal normalise_types by (simp add: text_bound_def)
    qed
    then show ?thesis using x r(1,2) False by (auto simp: assegments_parse_def)
  qed
qed

text \<open>Finding the path that was read, or adding it.\<close>

lemma parse_table:
  assumes "as_inv st refs" "as_mem st tmp = None" "as_mem st new = None" "tmp \<noteq> new" "h_size (ashash st) < 2 ^ 31" "text_ok p" "refcnt p = 0"
  defines "m \<equiv> (as_mem st)(tmp \<mapsto> p, new \<mapsto> p\<lparr>refcnt := 0\<rparr>)"
  shows "\<exists>f h1 q. hash_get (ptr_key m) (ptr_cmp m) (Some (\<lambda>_. aspath_hash_alloc p new)) tmp (ashash st) = Some (Some f, h1) \<and>
    m f = Some q \<and> segments q = segments p \<and> text_ok q \<and>
    as_inv (st\<lparr>as_mem := (as_mem st)(f \<mapsto> q\<lparr>refcnt := refcnt q + 1\<rparr>), ashash := h1\<rparr>) (refs(f := refs f + 1))"
proof -
  note inv = as_invD [OF assms(1)]
  define h where "h = ashash st"
  have out: "tmp \<notin> set (contents h)" "new \<notin> set (contents h)" "refs new = 0"
    using inv(2,3) assms(2,3) by (simp_all add: h_def)
  have t: "table_ok m h" unfolding m_def h_def by (rule hash_ok_agree [OF inv(1)]) (use out in \<open>auto simp: h_def\<close>)
  have ptr: "ptr_ok m tmp" "ptr_ok m new" "ptr_cmp m new tmp" "aspath_hash_alloc p new = Some new"
    using assms(4,6) by (auto simp: ptr_ok_def ptr_cmp_def m_def aspath_cmp_eq aspath_hash_alloc_def text_ok_def)
  obtain f h1 where get: "hash_get (ptr_key m) (ptr_cmp m) (Some (\<lambda>_. aspath_hash_alloc p new)) tmp h = Some (Some f, h1)" "table_ok m h1"
    "ptr_cmp m f tmp" "f \<in> set (contents h) \<and> h1 = h \<or> f = new \<and> set (contents h1) = insert new (set (contents h))"
    using table_get [OF t ptr(1) _ _ ptr(2,3), of "\<lambda>_. aspath_hash_alloc p new"] assms(5) ptr(4) by (auto simp: h_def)
  have mt: "m tmp = Some p" using assms(4) by (simp add: m_def)
  obtain q where q: "m f = Some q" "segments q = segments p" using ptr_cmp_segments [OF get(3) mt] by blast
  have "as_inv \<lparr>as_mem = (as_mem st)(f \<mapsto> q\<lparr>refcnt := refcnt q + 1\<rparr>), ashash = h1\<rparr> (refs(f := refs f + 1)) \<and> text_ok q"
  proof (cases "f \<in> set (contents h)")
    case True
    then have f: "f \<noteq> tmp" "f \<noteq> new" "h1 = h" using out get(4) by auto
    then have mf: "as_mem st f = Some q" using q(1) by (simp add: m_def)
    have "as_inv \<lparr>as_mem = as_mem st, ashash = h\<rparr> refs" using assms(1) by (cases st) (simp add: h_def)
    from inv_ref [OF this, of h f q] inv(1) True mf show ?thesis using inv(4) [OF mf] f(3) by (simp add: h_def insert_absorb)
  next
    case False
    then have f: "f = new" "set (contents h1) = insert new (set (contents h))" using get(4) by auto
    have p0: "p\<lparr>refcnt := 0\<rparr> = p" using assms(7) by (cases p) simp
    then have qp: "q = p" using q(1) f(1) by (simp add: m_def)
    have i: "as_inv \<lparr>as_mem = (as_mem st)(new \<mapsto> p), ashash = h\<rparr> refs"
      using inv_outside [OF assms(1) out(3), of "Some p"] assms(6,7) by (simp add: as_table_eta h_def)
    have "table_ok ((as_mem st)(new \<mapsto> p)) h1"
    proof (rule hash_ok_agree [OF get(2)])
      fix a q assume a: "a \<in> set (contents h1)" "m a = Some q"
      then have "a \<noteq> tmp" using f(2) out(1) assms(4) by auto
      then have "((as_mem st)(new \<mapsto> p)) a = Some q" using a(2) p0 by (simp add: m_def split: if_splits)
      then show "\<exists>r. ((as_mem st)(new \<mapsto> p)) a = Some r \<and> segments r = segments q \<and> as_str r = as_str q \<and> str_len r = str_len q" by simp
    qed
    from inv_ref [OF i this, of new p] f qp assms(6) show ?thesis by simp
  qed
  then show ?thesis using get(1) q by (auto simp: as_table_eta h_def)
qed

lemma parse_spec:
  assumes "as_inv st refs" "as_mem st tmp = None" "as_mem st new = None" "tmp \<noteq> new" "h_size (ashash st) < 2 ^ 31"
    "case s of None \<Rightarrow> len = 0 | Some x \<Rightarrow> stream_ok x" "len < 2 ^ 16"
  shows "\<exists>r s' st'. aspath_parse tmp new s len u st = Some (r, s', st') \<and> (\<forall>x. s' = Some x \<longrightarrow> stream_ok x) \<and> (r = None \<longrightarrow> st' = st) \<and>
    (\<forall>f. r = Some f \<longrightarrow> as_inv st' (refs(f := refs f + 1)) \<and>
      (\<exists>p. as_mem st' f = Some p \<and> normal (segments p) \<and> as_str p = Some (path_text (segments p))))"
proof (cases "len mod 2 \<noteq> 0")
  case True
  then show ?thesis using assms(6) by (auto simp: aspath_parse_def split: option.splits)
next
  case False
  from parse_segments_safe [OF assms(6,7), of u] obtain r s' where r: "assegments_parse s len u = Some (r, s')"
    "\<forall>x. s' = Some x \<longrightarrow> stream_ok x" "\<forall>segs. r = Some segs \<longrightarrow> normal segs \<and> list_all seg_type_ok segs \<and> text_bound segs < 2 ^ 31" by blast
  show ?thesis
  proof (cases r)
    case None
    then show ?thesis using False r(1,2) by (simp add: aspath_parse_def)
  next
    case (Some segs)
    have sg: "normal segs" "list_all seg_type_ok segs" "text_bound segs < 2 ^ 31" using r(3) Some by auto
    define p where "p = aspath_new\<lparr>segments := segs, as_str := Some (path_text segs), str_len := word_of_nat (length (path_text segs))\<rparr>"
    have up: "aspath_str_update (aspath_new\<lparr>segments := segs\<rparr>) = Some p"
      using make_str_text [of "aspath_new\<lparr>segments := segs\<rparr>"] sg by (simp add: aspath_str_update_def p_def)
    then have "path_str segs = Some (as_str p, str_len p)" by (simp add: path_str_def aspath_str_update_def)
    then have "text_ok p" by (simp add: text_ok_def p_def)
    moreover have "refcnt p = 0" by (simp add: p_def aspath_new_def)
    ultimately obtain f h1 q where t:
      "hash_get (ptr_key ((as_mem st)(tmp \<mapsto> p, new \<mapsto> p\<lparr>refcnt := 0\<rparr>))) (ptr_cmp ((as_mem st)(tmp \<mapsto> p, new \<mapsto> p\<lparr>refcnt := 0\<rparr>)))
         (Some (\<lambda>_. aspath_hash_alloc p new)) tmp (ashash st) = Some (Some f, h1)"
      "((as_mem st)(tmp \<mapsto> p, new \<mapsto> p\<lparr>refcnt := 0\<rparr>)) f = Some q" "segments q = segments p" "text_ok q"
      "as_inv (st\<lparr>as_mem := (as_mem st)(f \<mapsto> q\<lparr>refcnt := refcnt q + 1\<rparr>), ashash := h1\<rparr>) (refs(f := refs f + 1))"
      using parse_table [OF assms(1-5), of p] by blast
    have "as_str q = as_str p" using t(3,4) \<open>text_ok p\<close> by (simp add: text_ok_def)
    moreover have "aspath_parse tmp new s len u st =
        Some (Some f, s', st\<lparr>as_mem := (as_mem st)(f \<mapsto> q\<lparr>refcnt := refcnt q + 1\<rparr>), ashash := h1\<rparr>)"
      using False r(1) Some up t(1,2) by (simp add: aspath_parse_def aspath_key_make_def aspath_new_def)
    ultimately show ?thesis using t(3,5) r(2) sg(1) by (simp add: p_def)
  qed
qed

lemma intern_args: "aspath_intern a st = Some (f, st') \<Longrightarrow> \<exists>p. as_mem st a = Some p \<and> refcnt p = 0"
  by (auto simp: aspath_intern_def bind_eq_Some_conv split: if_splits)

lemma as_reach_inv: "as_reach st refs \<Longrightarrow> as_inv st refs"
proof (induction rule: as_reach.induct)
  case (init st)
  then show ?case by (rule inv_init)
next
  case (make st refs a p)
  then show ?case using inv_outside [OF make.IH, of a "Some p"] as_invD(3) [OF make.IH, of a] by simp
next
  case (free st refs a p)
  then show ?case using inv_outside [OF free.IH, of a None] as_invD(4) [OF free.IH, of a p] by simp
next
  case (intern st refs a f st')
  obtain p where p: "as_mem st a = Some p" "refcnt p = 0" using intern_args [OF intern.hyps(3)] by blast
  obtain f2 st2 where i: "aspath_intern a st = Some (f2, st2)" "as_inv st2 (refs(f2 := refs f2 + 1))"
    using intern_spec [OF intern.IH p intern.hyps(2)] by (elim exE conjE) (rule that)
  moreover have "f2 = f" "st2 = st'" using i(1) intern.hyps(3) by simp_all
  ultimately show ?case by (simp add: fun_upd_def)
next
  case (unintern st refs a r st')
  obtain r2 st2 where i: "aspath_unintern a st = Some (r2, st2)" "as_inv st2 (refs(a := refs a - 1))"
    using unintern_spec [OF unintern.IH unintern.hyps(2)] by (elim exE conjE) (rule that)
  moreover have "st2 = st'" using i(1) unintern.hyps(3) by simp
  ultimately show ?case by (simp add: fun_upd_def)
next
  case (parse st refs tmp new s len use32bit f s' st')
  obtain r2 s2 st2 where i: "aspath_parse tmp new s len use32bit st = Some (r2, s2, st2)" "\<forall>f. r2 = Some f \<longrightarrow> as_inv st2 (refs(f := refs f + 1))"
    using parse_spec [OF parse.IH parse.hyps(3-5,2,6,7), of use32bit] by (elim exE conjE) (rule that, assumption, simp)
  moreover have "r2 = Some f" "st2 = st'" using i(1) parse.hyps(8) by simp_all
  ultimately show ?case by (simp add: fun_upd_def)
qed

lemma finish_frees: "aspath_finish st a = (if a \<in> set (contents (ashash st)) then None else as_mem st a)"
proof -
  have "fold (\<lambda>hb m. m(hb_data hb := None)) hbs m a = (if a \<in> set (map hb_data hbs) then None else m a)" for hbs and m :: "nat \<rightharpoonup> aspath"
    by (induction hbs arbitrary: m) auto
  from this [of "concat (h_index (ashash st))" "as_mem st"] show ?thesis
    by (simp only: aspath_finish_def hash_clean_def contents_def snd_conv option.case)
qed

section \<open>Properties\<close>

text \<open>C3: the table of AS paths shares equal paths: in every state it can get into, each path has as many references as were given out and
  not given back, two references are the same pointer if and only if their paths have the same segments, and the table counts the different
  paths that are referred to.  When the table is deleted, exactly these paths are freed.\<close>

theorem as_paths_shared:
  assumes "as_reach st refs"
  shows "(\<forall>a. 0 < refs a \<longrightarrow> (\<exists>p. as_mem st a = Some p \<and> refcnt p = refs a)) \<and>
    (\<forall>a b p q. 0 < refs a \<and> 0 < refs b \<and> as_mem st a = Some p \<and> as_mem st b = Some q \<longrightarrow> (aspath_cmp p q \<longleftrightarrow> a = b)) \<and>
    aspath_count st = card {a. 0 < refs a} \<and>
    (\<forall>a. aspath_finish st a = (if 0 < refs a then None else as_mem st a))"
proof -
  note inv = as_invD [OF as_reach_inv [OF assms]]
  have t: "h_count (ashash st) = length (contents (ashash st))" "distinct (contents (ashash st))"
    "\<And>d e. d \<in> set (contents (ashash st)) \<Longrightarrow> e \<in> set (contents (ashash st)) \<Longrightarrow> ptr_cmp (as_mem st) d e \<Longrightarrow> d = e"
    using inv(1) unfolding hash_ok_def by blast+
  have "a = b" if "0 < refs a" "0 < refs b" "as_mem st a = Some p" "as_mem st b = Some q" "aspath_cmp p q" for a b p q
    using t(3) [of a b] that inv(2) by (simp add: ptr_cmp_def)
  moreover have "\<exists>p. as_mem st a = Some p \<and> refcnt p = refs a" if "0 < refs a" for a
    using inv(3,4) [of a] that by (cases "as_mem st a") auto
  moreover have "set (contents (ashash st)) = {a. 0 < refs a}" using inv(2) by auto
  then have "aspath_count st = card {a. 0 < refs a}" using t(1,2) distinct_card [of "contents (ashash st)"] by (simp add: aspath_count_def)
  moreover have "aspath_finish st a = (if 0 < refs a then None else as_mem st a)" for a
    using inv(2) [of a] by (simp add: finish_frees)
  ultimately show ?thesis by (auto simp: aspath_cmp_eq)
qed

definition example_table :: as_table where
  "example_table = the aspath_init"

lemma example_table: "aspath_init = Some example_table" "as_mem example_table = (\<lambda>_. None)" "h_size (ashash example_table) = 32768"
  unfolding example_table_def aspath_init_def hash_create_size_def by simp_all

lemma example_table_reach: "as_reach example_table (\<lambda>_. 0)"
  by (rule as_reach.init [OF example_table(1)])

definition example_path :: aspath where
  "example_path = \<lparr>refcnt = 0, segments = [], as_str = Some [], str_len = 0\<rparr>"

definition example_made :: as_table where
  "example_made = example_table\<lparr>as_mem := (as_mem example_table)(0 \<mapsto> example_path)\<rparr>"

lemma example_made: "as_mem example_made 0 = Some example_path" "h_size (ashash example_made) = 32768" "refcnt example_path = 0" "segments example_path = []"
  by (simp_all add: example_made_def example_table example_path_def)

lemma example_made_reach: "as_reach example_made (\<lambda>_. 0)"
proof -
  have "text_ok example_path"
    by (simp add: example_path_def text_ok_def path_str_def aspath_make_str_count_def aspath_new_def)
  then show ?thesis unfolding example_made_def
    using as_reach.make [OF example_table_reach, of 0 example_path] by (simp only: example_table example_made)
qed

theorem as_paths_shared_witness:
  "\<exists>f st. as_reach st ((\<lambda>_. 0)(f := 1)) \<and> aspath_count st = 1 \<and> (\<exists>p. as_mem st f = Some p \<and> refcnt p = 1)"
proof -
  have h: "h_size (ashash example_made) < 2 ^ 31" by (simp add: example_made)
  obtain f st where i: "aspath_intern 0 example_made = Some (f, st)"
    using intern_spec [OF as_reach_inv [OF example_made_reach] example_made(1,3) h] by (elim exE conjE) (rule that)
  then have r: "as_reach st ((\<lambda>_. 0)(f := 1))" using as_reach.intern [OF example_made_reach h i] by simp
  have "{a. 0 < ((\<lambda>_. 0)(f := 1 :: nat)) a} = {f}" by auto
  then have "aspath_count st = 1" using as_paths_shared [OF r] by simp
  moreover have "\<exists>p. as_mem st f = Some p \<and> refcnt p = 1"
    using conjunct1 [OF as_paths_shared [OF r], rule_format, of f] by simp
  ultimately show ?thesis using r by blast
qed

text \<open>C4: reading an AS path attribute never fails an assertion or leaves the packet, whatever its octets and its length are: it is rejected and nothing
  changes, or the result is a counted reference to a path in normal form with its text, and the table stays as it must be.\<close>

theorem aspath_parse_safe:
  assumes "as_reach st refs" "as_mem st tmp = None" "as_mem st new = None" "tmp \<noteq> new" "h_size (ashash st) < 2 ^ 31"
    "stream_ok s" "len < 2 ^ 16"
  shows "\<exists>r s' st'. aspath_parse tmp new (Some s) len use32bit st = Some (r, s', st') \<and>
    (case r of None \<Rightarrow> st' = st
     | Some f \<Rightarrow> as_reach st' (refs(f := refs f + 1)) \<and>
         (\<exists>p. as_mem st' f = Some p \<and> refcnt p = refs f + 1 \<and> normal (segments p) \<and> as_str p = Some (path_text (segments p))))"
proof -
  have s: "case Some s of None \<Rightarrow> len = 0 | Some x \<Rightarrow> stream_ok x" using assms(6) by simp
  obtain r s' st' where r: "aspath_parse tmp new (Some s) len use32bit st = Some (r, s', st')" "r = None \<longrightarrow> st' = st"
    "\<forall>f. r = Some f \<longrightarrow> as_inv st' (refs(f := refs f + 1)) \<and> (\<exists>p. as_mem st' f = Some p \<and> normal (segments p) \<and> as_str p = Some (path_text (segments p)))"
    using parse_spec [OF as_reach_inv [OF assms(1)] assms(2-5) s assms(7), of use32bit] by (elim exE conjE) (rule that)
  show ?thesis
  proof (cases r)
    case (Some f)
    then have "as_reach st' (refs(f := refs f + 1))" using as_reach.parse [OF assms(1,5,2,3,4) s assms(7)] r(1) by simp
    moreover obtain p where "as_mem st' f = Some p" "normal (segments p)" "as_str p = Some (path_text (segments p))" using r(3) Some by blast
    moreover have "refcnt p = refs f + 1"
      using as_invD(4) [OF as_reach_inv [OF \<open>as_reach st' (refs(f := refs f + 1))\<close>] \<open>as_mem st' f = Some p\<close>] by simp
    ultimately show ?thesis unfolding r(1) Some by simp
  qed (use r in auto)
qed

definition example_update :: stream_t where
  "example_update = \<lparr>next_s = None, getp = 0, endp = 6, ssize = 4096, sdata = [2, 1, 0, 0, 251, 244] @ replicate 4090 0\<rparr>"

lemma example_update: "stream_ok example_update" "unread example_update = segs_wire True [\<lparr>seg_type = AS_SEQUENCE, seg_as = [64500]\<rparr>] @ []"
proof -
  show "stream_ok example_update" by (simp add: example_update_def stream_ok_def)
  have "unread example_update = [2, 1, 0, 0, 251, 244]" by (simp add: example_update_def unread_def written_def)
  moreover have "segs_wire True [\<lparr>seg_type = AS_SEQUENCE, seg_as = [64500]\<rparr>] @ [] = [2, 1, 0, 0, 251, 244]" by code_simp
  ultimately show "unread example_update = segs_wire True [\<lparr>seg_type = AS_SEQUENCE, seg_as = [64500]\<rparr>] @ []" by simp
qed

theorem aspath_parse_safe_witness:
  "\<exists>f s' st' p. aspath_parse 0 1 (Some example_update) 6 True example_table = Some (Some f, s', st') \<and> as_reach st' ((\<lambda>_. 0)(f := 1)) \<and>
    as_mem st' f = Some p \<and> refcnt p = 1 \<and> normal (segments p) \<and> as_str p = Some (path_text (segments p))"
proof -
  obtain r s' st' where run: "aspath_parse 0 1 (Some example_update) 6 True example_table = Some (r, s', st')"
    "case r of None \<Rightarrow> st' = example_table
     | Some f \<Rightarrow> as_reach st' ((\<lambda>_. 0)(f := 0 + 1)) \<and>
         (\<exists>p. as_mem st' f = Some p \<and> refcnt p = 0 + 1 \<and> normal (segments p) \<and> as_str p = Some (path_text (segments p)))"
    using aspath_parse_safe [OF example_table_reach _ _ _ _ example_update(1), of 0 1 6 True] by (auto simp: example_table)
  have "list_all piece_ok [\<lparr>seg_type = AS_SEQUENCE, seg_as = [64500]\<rparr>]" by (simp add: piece_ok_def seg_type_ok_def)
  from assegments_parse_spec [OF example_update(1) this _ example_update(2)] obtain segs s'
    where "assegments_parse (Some example_update) 6 True = Some (Some segs, Some s')" by (auto simp: ASSEGMENT_SIZE_def)
  then have "r \<noteq> None" using run(1) by (auto simp: aspath_parse_def Let_def bind_eq_Some_conv)
  then show ?thesis using run by auto
qed

text \<open>C13: giving a reference back never fails the assertion that the path is in the table; the path is freed with its last reference and not before.  Putting
  a path into the table never fails either, and returns a reference to a path with the same segments.\<close>

theorem as_references_safe:
  assumes "as_reach st refs"
  shows "(0 < refs a \<longrightarrow> (\<exists>r st'. aspath_unintern a st = Some (r, st') \<and> as_reach st' (refs(a := refs a - 1)) \<and>
      (r = None \<longleftrightarrow> refs a = 1) \<and> (as_mem st' a = None \<longleftrightarrow> refs a = 1))) \<and>
    (\<forall>p. as_mem st a = Some p \<and> refcnt p = 0 \<and> h_size (ashash st) < 2 ^ 31 \<longrightarrow>
      (\<exists>f st' q. aspath_intern a st = Some (f, st') \<and> as_reach st' (refs(f := refs f + 1)) \<and> as_mem st' f = Some q \<and> segments q = segments p))"
proof (intro conjI impI allI)
  assume r: "0 < refs a"
  obtain r st' where u: "aspath_unintern a st = Some (r, st')"
    "r = None \<longleftrightarrow> refs a = 1" "as_mem st' a = None \<longleftrightarrow> refs a = 1"
    using unintern_spec [OF as_reach_inv [OF assms] r] by (elim exE conjE) (rule that)
  then show "\<exists>r st'. aspath_unintern a st = Some (r, st') \<and> as_reach st' (refs(a := refs a - 1)) \<and>
      (r = None \<longleftrightarrow> refs a = 1) \<and> (as_mem st' a = None \<longleftrightarrow> refs a = 1)"
    using as_reach.unintern [OF assms r u(1)] by (intro exI conjI)
next
  fix p assume p: "as_mem st a = Some p \<and> refcnt p = 0 \<and> h_size (ashash st) < 2 ^ 31"
  then have p1: "as_mem st a = Some p" "refcnt p = 0" "h_size (ashash st) < 2 ^ 31" by blast+
  obtain f st' q where u: "aspath_intern a st = Some (f, st')" "as_mem st' f = Some q" "segments q = segments p"
    using intern_spec [OF as_reach_inv [OF assms] p1] by (elim exE conjE) (rule that)
  then show "\<exists>f st' q. aspath_intern a st = Some (f, st') \<and> as_reach st' (refs(f := refs f + 1)) \<and> as_mem st' f = Some q \<and> segments q = segments p"
    using as_reach.intern [OF assms p1(3) u(1)] by (intro exI conjI)
qed

theorem as_references_safe_witness:
  "\<exists>f st' q st''. aspath_intern 0 example_made = Some (f, st') \<and> as_reach st' ((\<lambda>_. 0)(f := 1)) \<and> as_mem st' f = Some q \<and> segments q = [] \<and>
    aspath_unintern f st' = Some (None, st'') \<and> as_mem st'' f = None"
proof -
  obtain f st' q where i: "aspath_intern 0 example_made = Some (f, st')" "as_reach st' ((\<lambda>_. 0)(f := 1))" "as_mem st' f = Some q" "segments q = []"
    using as_references_safe [OF example_made_reach, of 0] example_made by auto
  show ?thesis using i as_references_safe [OF i(2), of f] by auto
qed

end
