(* ===== verification/Spec2Isabelle.thy ===== *)
theory Spec2Isabelle
  imports Distance Prefix_List Thread_Fetch Route_Map_Config Aspath_Intern
begin

text \<open>
  Verification of the routing suite Quagga, the C program of this repository (\<^verbatim>\<open>src/SDNFV_FINAL/quagga\<close>); file names below are relative to it.

  \<^bold>\<open>The program.\<close>  Quagga is a set of daemons, one for each routing protocol, over a common library \<^verbatim>\<open>lib\<close>.  A daemon runs on the scheduler of
  \<^verbatim>\<open>lib/thread.c\<close>, which keeps its timers in the heap of \<^verbatim>\<open>lib/pqueue.c\<close>.  It reads and writes its packets in the buffers of
  \<^verbatim>\<open>lib/stream.c\<close>, stores its routes and its policy by address prefix (\<^verbatim>\<open>lib/prefix.c\<close>) in the trees of \<^verbatim>\<open>lib/table.c\<close>, and
  filters them with the access lists of \<^verbatim>\<open>lib/filter.c\<close>, the prefix lists of \<^verbatim>\<open>lib/plist.c\<close> and the route maps of \<^verbatim>\<open>lib/routemap.c\<close>.
  The BGP daemon shares the AS paths of its routes (\<^verbatim>\<open>bgpd/bgp_aspath.c\<close>) in a table of \<^verbatim>\<open>lib/hash.c\<close>.

  \<^bold>\<open>Conventions.\<close>  A structure is a record, an enumeration a datatype, a machine integer a word of its width; numbers that cannot come near the end of
  their range are natural numbers.  Structures that the code shares by pointers (nodes of a tree, threads, queued buffers, AS paths) are in an explicit
  store from addresses to records; a chain that one owner walks is a list.  A failed assertion, a null pointer, a freed object or an index out of range
  is \<open>None\<close>; where the code itself returns a null pointer, the result has an option inside.  A loop that is not obviously finite is a
  \<open>partial_function\<close>, and a theorem says that it returns; the other loops have termination proofs.  One definition has fuel: \<open>shift_out\<close>
  shifts an octet until it is zero and has eight units, which \<open>shift_out_enough\<close> shows to suffice.  An allocation does not fail, since the library ends the process then.  The answers of the system (clocks, \<^verbatim>\<open>select\<close>, \<^verbatim>\<open>read\<close>,
  fresh memory) and the functions that daemons hand to the library are arguments.

  \<^bold>\<open>Theories.\<close>

  \<^item> \<open>Quagga_Prelude\<close>: words, octets and big-endian numbers, and the facts on lists and options that the others share.

  \<^item> \<open>Prefix\<close>: \<^verbatim>\<open>lib/prefix.c\<close>, \<^verbatim>\<open>lib/prefix.h\<close>.  A prefix is \<open>prefix_t\<close>, with the family, the length and the octets.  The masks are arrays as
    in the code; the lemmas relate the octet loops to bit strings: \<^verbatim>\<open>prefix_match\<close> is containment, \<^verbatim>\<open>prefix_common_bits\<close>
    the longest common beginning, \<^verbatim>\<open>apply_mask\<close> clears the host bits, and printing and parsing are inverse.

  \<^item> \<open>Route_Table\<close>, \<open>Radix_Tree\<close>, \<open>Radix_Insert\<close>, \<open>Radix_Delete\<close>, \<open>Table_Iter\<close>, \<open>Table_Reach\<close>: \<^verbatim>\<open>lib/table.c\<close>, \<^verbatim>\<open>lib/table.h\<close>.  The
    nodes are in a store, with parent and child pointers and reference counts.  The invariant \<open>table_inv\<close> says that the pointers are a
    path-compressed binary tree.  The theories show that search, insertion, deletion and iteration keep it, find what they must,
    return, and free a node exactly when its last reference is given back; \<open>table_reach\<close> has the tables that a program can make.

  \<^item> \<open>Prefix_Store\<close>: the contract of such a table as the locale \<open>prefix_store\<close>, with the protocol of references that its clients
    follow; \<open>Table_Reach\<close> interprets it on the tree.  \<open>Distance\<close> rests on it: the administrative distances of \<^verbatim>\<open>ripd/ripd.c\<close>,
    \<^verbatim>\<open>ospfd/ospf_zebra.c\<close>, \<^verbatim>\<open>ospf6d/ospf6_zebra.c\<close> and \<^verbatim>\<open>bgpd/bgp_route.c\<close>, their commands and what they give a route.

  \<^item> \<open>Named_Lists\<close>: the two chains of named lists that access lists and prefix lists keep, as the locale \<open>named_lists\<close>.
    \<open>Access_List\<close> (\<^verbatim>\<open>lib/filter.c\<close>) and \<open>Prefix_List\<close> (\<^verbatim>\<open>lib/plist.c\<close>) interpret it; the lemmas give the order that the commands
    keep and which entry decides about a prefix.

  \<^item> \<open>Stream_Buffer\<close>: \<^verbatim>\<open>lib/stream.c\<close>, \<^verbatim>\<open>lib/network.c\<close>.  The locale \<open>stream_codec\<close> is the contract of a pair of put and get
    operations, with an interpretation for each width; the queues of buffers are in a store and refine lists.

  \<^item> \<open>Pqueue\<close>, \<open>Thread\<close>, \<open>Thread_Fetch\<close>: \<^verbatim>\<open>lib/pqueue.c\<close>, \<^verbatim>\<open>lib/thread.c\<close>.  The heap meets the locale \<open>priority_queue\<close> for any comparison
    that is an order (\<open>pq_order\<close>), and the timers are an instance of it.  The state of the scheduler is \<open>thread_master\<close> over a
    store of threads; \<open>sched_reach\<close> has the states it gets into when threads are added, cancelled, run and fetched in any order.

  \<^item> \<open>Vector\<close>, \<open>Route_Map\<close>, \<open>Route_Map_Config\<close>: \<^verbatim>\<open>lib/vector.c\<close>, \<^verbatim>\<open>lib/routemap.c\<close>, the dispatch of a command in \<^verbatim>\<open>lib/command.c\<close> and the
    commands of \<^verbatim>\<open>zebra/zebra_routemap.c\<close>.  Vectors meet the locale \<open>slot_table\<close>.  Applying a route map is a partial function; the
    relation \<open>rmap_eval\<close> is what the sequence numbers of the clauses mean, and the two agree.  \<open>rmap_reach\<close> has the states that
    the commands of a terminal lead to.

  \<^item> \<open>Hash_Table\<close>: \<^verbatim>\<open>lib/hash.c\<close>, \<^verbatim>\<open>lib/jhash.c\<close>.  The locale \<open>hash_client\<close> has what a user of a table must give: equal data have equal
    keys.  Its lemmas say that the table is a set up to the comparison, also while it grows.

  \<^item> \<open>Aspath\<close>, \<open>Aspath_Text\<close>, \<open>Aspath_Wire\<close>, \<open>Aspath_Ops\<close>, \<open>Aspath_Intern\<close>: \<^verbatim>\<open>bgpd/bgp_aspath.c\<close>.  \<open>Aspath\<close> has the definitions; the others
    show that the text of a path fits its buffer and reads back, that a path survives a packet, which numbers and hops aggregation
    and the merge with an \<^verbatim>\<open>AS4_PATH\<close> keep, and that the table of shared paths counts its references.  The table is an instance of
    \<open>hash_client\<close>; \<open>as_reach\<close> has its states.

  \<^bold>\<open>Bounds.\<close>  Where a theorem assumes a bound, it is one at which a machine integer of the code wraps around: \<open>2 ^ 16\<close> for the number of AS
  numbers of a path (\<^verbatim>\<open>unsigned short\<close>), \<open>2 ^ 31\<close> for the size of a text buffer, of a vector and of a hash table that doubles, and the length
  of an attribute of a BGP packet (two octets).  A packet has at most 4096 octets, so a path that is received is far from them.
  Some integers are unbounded in the model where the code has a machine integer: the reference counts and node counts of the tables and of the
  AS paths, the sizes of the heap of timers (the code doubles an \<^verbatim>\<open>int\<close>), the size in octets of a vector that is copied (which wraps around
  from \<open>2 ^ 29\<close> slots), the seconds of a time and the length that \<^verbatim>\<open>jhash\<close> gets.  What the theorems say about them holds in the code
  as long as the count of live objects, each of several octets, and the time stay in the range of the machine integer.  The recursion counter of route maps is an
  \<open>int\<close>, and the stack on which the code recurses has no bound in the model: where \<open>route_map_counter_leaks\<close> lets the depth
  grow, the code runs out of stack.  A number of a command line that does not fit an \<^verbatim>\<open>int\<close> has no value (\<open>number_arg\<close>), since the
  result of \<^verbatim>\<open>atoi\<close> is undefined then.  Addresses of nodes and threads are not used again after they are freed, so that a use
  of a freed object is seen as such.  The node allocator that a client can give to a table is the default one, and the segments of an AS path
  belong to one path and are a value.

  \<^bold>\<open>What does not hold.\<close>  Some theorems state what the code does against its purpose: \<open>aspath_put_overlong\<close> (a sequence of more than 510
  numbers is sent wrongly), \<open>aspath_aggregate_mpath_overrun\<close> (a read past an array), \<open>thread_fetch_stale_wait\<close> (waiting although a thread is ready),
  \<open>route_map_counter_leaks\<close> (the recursion limit grows), \<open>stream_fifo_pop_push_cycle\<close> (a queue of two or more buffers becomes a cycle),
  \<open>bgp_distance_unset_leaks\<close>, and one case of \<open>prefix_list_uninstall_same_words\<close>.  \<open>prefix_list_apply_first\<close> differs from the
  manual: a prefix list that does not exist denies, and an empty one permits.

  \<^bold>\<open>Not modelled.\<close>

  \<^item> Text for people: the show commands, the writing of the configuration, the parser and the completion of command lines
    (\<^verbatim>\<open>lib/command.c\<close>, \<^verbatim>\<open>lib/vty.c\<close>, \<^verbatim>\<open>vtysh\<close>) and logging.  They change no routing state; the functions behind the commands are
    modelled with the words of the command as arguments.
  \<^item> The operating system: sockets, netlink, ioctl calls, privileges, signals, the watchdog and the SNMP agents.
  \<^item> Copies of other libraries (\<^verbatim>\<open>lib/regex.c\<close>, \<^verbatim>\<open>lib/getopt.c\<close>, \<^verbatim>\<open>lib/md5.c\<close>) and code generated from protocol buffers.
  \<^item> The state machines of the protocols themselves: sessions, decision process, flooding and shortest paths.  Their functions read and
    write peers, interfaces and areas that the kernel interface fills in, so a faithful model starts with that interface; the parts above are those
    that all of them are built on.
  \<^item> The statistics of the scheduler (\<^verbatim>\<open>thread_call\<close>), which measure time and decide nothing.
\<close>

end
